(* ===== verification/Nanopb_Prelude.thy ===== *)
theory Nanopb_Prelude
  imports Main "HOL-Library.Word"
begin

text \<open>
  Shared vocabulary of the development: the machine types of the LP64 little-endian build, the
  result type of a C function that returns \<open>bool\<close> and works on a stream or a store through
  pointers, wrap-around arithmetic on \<open>size_t\<close>, and the lemmas on bytes, words and lists that
  every component uses.
\<close>

unbundle bit_operations_syntax

named_theorems res_simps \<open>equations that run the result type\<close>
named_theorems step_defs \<open>the definitions of the stream primitives\<close>

section \<open>Machine types\<close>

type_synonym byte = "8 word"
type_synonym uint32 = "32 word"
type_synonym uint64 = "64 word"

text \<open>A C address. Pointer arithmetic that leaves an object is undefined in C, so addresses are
  unbounded integers and \<open>NULL\<close> is 0.\<close>

type_synonym addr = int

abbreviation (input) NULL :: addr where "NULL \<equiv> 0"

text \<open>\<open>size_t\<close> values are naturals below \<open>2 ^ 64\<close>; the additions of the code that may wrap are
  written with \<open>size_add\<close>.\<close>

definition SIZE_MODULUS :: nat where
  "SIZE_MODULUS = 2 ^ 64"

definition size_add :: "nat \<Rightarrow> nat \<Rightarrow> nat" where
  "size_add a b = (a + b) mod SIZE_MODULUS"

lemma size_add_exact: "a + b < SIZE_MODULUS \<Longrightarrow> size_add a b = a + b"
  by (simp add: size_add_def)

lemma size_add_le: "size_add a b \<le> a + b"
  by (simp add: size_add_def)

lemma size_add_lt: "size_add a b < SIZE_MODULUS"
  by (simp add: size_add_def SIZE_MODULUS_def)

lemma size_add_0 [simp]: "a < SIZE_MODULUS \<Longrightarrow> size_add a 0 = a"
  by (simp add: size_add_def)

lemma size_add_assoc: "size_add (size_add a b) c = size_add a (b + c)"
  by (simp add: size_add_def mod_add_left_eq add.assoc)

section \<open>Results of C functions\<close>

text \<open>
  A C function that returns \<open>bool\<close> and updates a state through pointers is a function into
  \<open>('s, 'a) res\<close>: \<open>Ret v s\<close> is \<open>true\<close> with the out-parameters \<open>v\<close>, \<open>Fail s\<close> is \<open>false\<close>
  (the state keeps the error message), and \<open>Undef\<close> says that the source has no defined result
  here (undefined behaviour), or that the fuel of the model ran out.
\<close>

datatype ('s, 'a) res = Ret 'a 's | Fail 's | Undef

text \<open>\<open>if (!f(...)) return false; rest\<close>\<close>

fun rbind :: "('s, 'a) res \<Rightarrow> ('a \<Rightarrow> 's \<Rightarrow> ('s, 'b) res) \<Rightarrow> ('s, 'b) res" where
  "rbind (Ret v s) f = f v s"
| "rbind (Fail s) f = Fail s"
| "rbind Undef f = Undef"

declare rbind.simps [res_simps]

lemma rbind_assoc: "rbind (rbind r f) g = rbind r (\<lambda>v s. rbind (f v s) g)"
  by (cases r) simp_all

lemma rbind_Ret_iff:
  "rbind r f = Ret v s \<longleftrightarrow> (\<exists>w t. r = Ret w t \<and> f w t = Ret v s)"
  by (cases r) auto

lemma rbind_Fail_iff:
  "rbind r f = Fail s \<longleftrightarrow> r = Fail s \<or> (\<exists>w t. r = Ret w t \<and> f w t = Fail s)"
  by (cases r) auto

lemma rbind_Undef_iff:
  "rbind r f = Undef \<longleftrightarrow> r = Undef \<or> (\<exists>w t. r = Ret w t \<and> f w t = Undef)"
  by (cases r) auto

lemma rbind_RetE:
  assumes "rbind r f = Ret v s"
  obtains w t where "r = Ret w t" and "f w t = Ret v s"
  using assms by (auto simp: rbind_Ret_iff)

text \<open>The state a result leaves, where it is defined.\<close>

fun res_state :: "('s, 'a) res \<Rightarrow> 's option" where
  "res_state (Ret v s) = Some s"
| "res_state (Fail s) = Some s"
| "res_state Undef = None"

lemma res_state_Some_iff:
  "res_state r = Some s \<longleftrightarrow> (\<exists>v. r = Ret v s) \<or> r = Fail s"
  by (cases r) auto

text \<open>\<open>res_keeps P r\<close>: whatever defined result \<open>r\<close> is, its state satisfies \<open>P\<close>.\<close>

definition res_keeps :: "('s \<Rightarrow> bool) \<Rightarrow> ('s, 'a) res \<Rightarrow> bool" where
  "res_keeps P r \<longleftrightarrow> (\<forall>s. res_state r = Some s \<longrightarrow> P s)"

lemma res_keeps_simps [simp]:
  "res_keeps P (Ret v s) \<longleftrightarrow> P s"
  "res_keeps P (Fail s) \<longleftrightarrow> P s"
  "res_keeps P Undef"
  by (simp_all add: res_keeps_def)

lemma res_keeps_rbind:
  assumes "res_keeps P r" and "\<And>v s. r = Ret v s \<Longrightarrow> P s \<Longrightarrow> res_keeps P (f v s)"
  shows "res_keeps P (rbind r f)"
  using assms by (cases r) auto

lemma res_keeps_mono:
  "res_keeps P r \<Longrightarrow> (\<And>s. P s \<Longrightarrow> Q s) \<Longrightarrow> res_keeps Q r"
  by (cases r) auto

section \<open>Bytes and words\<close>

text \<open>Little-endian bytes of a word, and the word of a little-endian byte list.\<close>

fun le_bytes :: "nat \<Rightarrow> 'a::len word \<Rightarrow> byte list" where
  "le_bytes 0 w = []"
| "le_bytes (Suc n) w = ucast w # le_bytes n (drop_bit 8 w)"

fun le_word :: "byte list \<Rightarrow> 'a::len word" where
  "le_word [] = 0"
| "le_word (b # bs) = ucast b OR push_bit 8 (le_word bs)"

lemma length_le_bytes [simp]: "length (le_bytes n w) = n"
  by (induction n arbitrary: w) auto

lemma le_word_le_bytes: "le_word (le_bytes n (w :: 'a::len word)) = take_bit (8 * n) w"
proof (induction n arbitrary: w)
  case 0
  then show ?case by simp
next
  case (Suc n)
  have "ucast (ucast w :: byte) OR push_bit 8 (take_bit (8 * n) (drop_bit 8 w))
      = take_bit (8 * Suc n) w"
    by (rule bit_word_eqI) (auto simp: bit_simps)
  with Suc.IH show ?case by simp
qed

lemma unat_drop_bit: "unat (drop_bit n (w :: 'a::len word)) = unat w div 2 ^ n"
proof -
  have "unat (drop_bit n w) = drop_bit n (unat w)" by (rule unat_drop_bit_eq)
  then show ?thesis by (simp only: drop_bit_eq_div)
qed

lemma drop_bit_less_unat:
  fixes w :: "'a::len word"
  assumes "w \<noteq> 0" and "0 < n"
  shows "unat (drop_bit n w) < unat w"
proof -
  from assms(1) have "0 < unat w" by (simp add: unat_gt_0)
  moreover from assms(2) have "(1::nat) < 2 ^ n" using one_less_power [of "2::nat" n] by simp
  ultimately show ?thesis by (simp only: unat_drop_bit div_less_dividend)
qed

end
