(* ===== verification/Base64.thy ===== *)
theory Base64
  imports Nanopb_Prelude
begin

text \<open>
  The Base64 codec of the web socket library (\<open>fbase64.c\<close>): \<open>f_b64_ntop\<close> encodes bytes into
  characters, \<open>f_b64_pton\<close> decodes a string that ends with a zero byte. A buffer is the list of
  the bytes of its allocation; a write outside it is undefined, and so is a read after the end of
  the source. \<open>Fail\<close> stands for the result -1.
\<close>

section \<open>The alphabet\<close>

definition Base64 :: "byte list" where
  "Base64 = map of_char
     ''ABCDEFGHIJKLMNOPQRSTUVWXYZabcdefghijklmnopqrstuvwxyz0123456789+/''"

definition Pad64 :: byte where
  "Pad64 = of_char CHR ''=''"

text \<open>\<open>strchr(Base64, ch) - Base64\<close> for a \<open>ch\<close> other than zero.\<close>

fun index_of :: "'a list \<Rightarrow> 'a \<Rightarrow> nat option" where
  "index_of [] c = None"
| "index_of (x # xs) c = (if x = c then Some 0 else map_option Suc (index_of xs c))"

text \<open>\<open>isspace\<close> in the C locale, for an argument below 128. \<open>char\<close> is signed on the target, so a
  larger byte is a negative argument, for which \<open>isspace\<close> is undefined.\<close>

definition isspace :: "byte \<Rightarrow> bool" where
  "isspace c \<longleftrightarrow> c = 0x20 \<or> (0x09 \<le> c \<and> c \<le> 0x0D)"

text \<open>Stores \<open>cs\<close> at index \<open>i\<close> of a buffer that has room for it.\<close>

definition store_at :: "byte list \<Rightarrow> nat \<Rightarrow> byte list \<Rightarrow> byte list" where
  "store_at t i cs = take i t @ cs @ drop (i + length cs) t"

section \<open>Encoding\<close>

fun ntop_loop :: "byte list \<Rightarrow> nat \<Rightarrow> byte list \<Rightarrow> nat \<Rightarrow> (byte list, nat \<times> byte list) res" where
  "ntop_loop (i0 # i1 # i2 # src) datalength target targsize =
     (let o0 = drop_bit 2 i0;
          o1 = push_bit 4 (i0 AND 0x03) + drop_bit 4 i1;
          o2 = push_bit 2 (i1 AND 0x0f) + drop_bit 6 i2;
          o3 = i2 AND 0x3f
      in if targsize < datalength + 4 then Fail target
         else if length target < datalength + 4 then Undef
         else ntop_loop src (datalength + 4)
                (store_at target datalength
                   [Base64 ! unat o0, Base64 ! unat o1, Base64 ! unat o2, Base64 ! unat o3])
                targsize)"
| "ntop_loop src datalength target targsize = Ret (datalength, src) target"

text \<open>The last one or two bytes.\<close>

definition ntop_rest :: "byte list \<Rightarrow> nat \<Rightarrow> byte list \<Rightarrow> nat \<Rightarrow> (byte list, nat) res" where
  "ntop_rest src datalength target targsize =
     (if src = [] then Ret datalength target
      else (let i0 = src ! 0; i1 = (if 1 < length src then src ! 1 else 0); i2 = 0;
                o0 = drop_bit 2 i0;
                o1 = push_bit 4 (i0 AND 0x03) + drop_bit 4 i1;
                o2 = push_bit 2 (i1 AND 0x0f) + drop_bit 6 i2
            in if targsize < datalength + 4 then Fail target
               else if length target < datalength + 4 then Undef
               else Ret (datalength + 4)
                      (store_at target datalength
                         [Base64 ! unat o0, Base64 ! unat o1,
                          if length src = 1 then Pad64 else Base64 ! unat o2, Pad64])))"

text \<open>The result is cast to \<open>int\<close>.\<close>

definition f_b64_ntop :: "byte list \<Rightarrow> byte list \<Rightarrow> nat \<Rightarrow> (byte list, int) res" where
  "f_b64_ntop src target targsize =
     rbind (ntop_loop src 0 target targsize) (\<lambda>(datalength, rest) target.
       rbind (ntop_rest rest datalength target targsize) (\<lambda>datalength target.
         if targsize \<le> datalength then Fail target
         else if length target \<le> datalength then Undef
         else Ret (sint (of_nat datalength :: 32 word)) (store_at target datalength [0])))"

section \<open>Decoding\<close>

text \<open>\<open>u_int\<close> arithmetic on \<open>tarindex\<close>.\<close>

definition u_int_Suc :: "nat \<Rightarrow> nat" where
  "u_int_Suc n = (n + 1) mod 2 ^ 32"

text \<open>The writes of one character with value \<open>d\<close> in each of the four states.\<close>

definition pton_write :: "nat \<Rightarrow> byte \<Rightarrow> nat \<Rightarrow> nat \<Rightarrow> byte list \<Rightarrow> (byte list, unit) res" where
  "pton_write state d tarindex targsize t =
     (let j = u_int_Suc tarindex
      in if state = 0 then
           (if targsize \<le> tarindex then Fail t
            else if length t \<le> tarindex then Undef
            else Ret () (t[tarindex := push_bit 2 d]))
         else if state = 1 then
           (if targsize \<le> j then Fail t
            else if length t \<le> max tarindex j then Undef
            else Ret () (t[tarindex := t ! tarindex OR drop_bit 4 d,
                           j := push_bit 4 (d AND 0x0f)]))
         else if state = 2 then
           (if targsize \<le> j then Fail t
            else if length t \<le> max tarindex j then Undef
            else Ret () (t[tarindex := t ! tarindex OR drop_bit 2 d,
                           j := push_bit 6 (d AND 0x03)]))
         else
           (if targsize \<le> tarindex then Fail t
            else if length t \<le> tarindex then Undef
            else Ret () (t[tarindex := t ! tarindex OR d])))"

text \<open>With a null \<open>target\<close> nothing is written or checked.\<close>

definition pton_put ::
    "nat \<Rightarrow> byte \<Rightarrow> nat \<Rightarrow> nat \<Rightarrow> byte list option \<Rightarrow> (byte list option, unit) res" where
  "pton_put state d tarindex targsize target =
     (case target of
        None \<Rightarrow> Ret () None
      | Some t \<Rightarrow>
          (case pton_write state d tarindex targsize t of
             Ret _ t' \<Rightarrow> Ret () (Some t') | Fail t' \<Rightarrow> Fail (Some t') | Undef \<Rightarrow> Undef))"

text \<open>The main loop. The result says whether it stopped at a pad character, the characters that
  follow, \<open>state\<close> and \<open>tarindex\<close>.\<close>

fun pton_loop ::
    "byte list \<Rightarrow> nat \<Rightarrow> nat \<Rightarrow> nat \<Rightarrow> byte list option
     \<Rightarrow> (byte list option, bool \<times> byte list \<times> nat \<times> nat) res" where
  "pton_loop [] state tarindex targsize target = Undef"
| "pton_loop (ch # src) state tarindex targsize target =
     (if ch = 0 then Ret (False, src, state, tarindex) target
      else if 0x80 \<le> ch then Undef
      else if isspace ch then pton_loop src state tarindex targsize target
      else if ch = Pad64 then Ret (True, src, state, tarindex) target
      else (case index_of Base64 ch of
              None \<Rightarrow> Fail target
            | Some d \<Rightarrow>
                rbind (pton_put state (of_nat d) tarindex targsize target) (\<lambda>_ target.
                  pton_loop src ((state + 1) mod 4)
                    (if state = 0 then tarindex else u_int_Suc tarindex) targsize target)))"

text \<open>\<open>for (; ch != '\0'; ch = *src++) if (!isspace(ch)) break;\<close>: the list starts with the
  final \<open>ch\<close>.\<close>

fun skip_space :: "byte list \<Rightarrow> byte list option" where
  "skip_space [] = None"
| "skip_space (ch # src) =
     (if ch = 0 then Some (ch # src)
      else if 0x80 \<le> ch then None
      else if isspace ch then skip_space src else Some (ch # src))"

text \<open>The case of two bytes of information: only white space may follow the last pad, and the
  bits after the last full byte are zero.\<close>

definition pton_tail :: "byte list \<Rightarrow> nat \<Rightarrow> byte list option \<Rightarrow> (byte list option, int) res" where
  "pton_tail src tarindex target =
     (case skip_space src of
        None \<Rightarrow> Undef
      | Some src' \<Rightarrow>
          if hd src' \<noteq> 0 then Fail target
          else (case target of
                  None \<Rightarrow> Ret (sint (of_nat tarindex :: 32 word)) None
                | Some t \<Rightarrow>
                    if length t \<le> tarindex then Undef
                    else if t ! tarindex \<noteq> 0 then Fail target
                    else Ret (sint (of_nat tarindex :: 32 word)) target))"

definition pton_finish ::
    "bool \<Rightarrow> byte list \<Rightarrow> nat \<Rightarrow> nat \<Rightarrow> byte list option \<Rightarrow> (byte list option, int) res" where
  "pton_finish padded src state tarindex target =
     (if padded then
        (if src = [] then Undef
         else if state = 0 \<or> state = 1 then Fail target
         else if state = 2 then
           (case skip_space src of
              None \<Rightarrow> Undef
            | Some src' \<Rightarrow>
                if hd src' \<noteq> Pad64 then Fail target else pton_tail (tl src') tarindex target)
         else pton_tail src tarindex target)
      else if state \<noteq> 0 then Fail target
      else Ret (sint (of_nat tarindex :: 32 word)) target)"

definition f_b64_pton :: "byte list \<Rightarrow> byte list option \<Rightarrow> nat \<Rightarrow> (byte list option, int) res" where
  "f_b64_pton src target targsize =
     rbind (pton_loop src 0 0 targsize target) (\<lambda>(padded, src, state, tarindex) target.
       pton_finish padded src state tarindex target)"

end
