(* ===== verification/Base64_Correct.thy ===== *)
theory Base64_Correct
  imports Base64
begin

text \<open>
  Correctness of the Base64 codec. \<open>b64_spec\<close> is the encoding as RFC 1521 describes it: three
  bytes form a 24-bit group, which is cut into four 6-bit numbers, each of which selects a
  character; a last group of one or two bytes is filled with zero bits and padded. The encoder
  computes exactly this and never writes past \<open>targsize\<close>, the decoder inverts it, and on any
  zero-terminated string of ASCII characters the decoder stays within both buffers.
\<close>

section \<open>The specification\<close>

definition group_value :: "byte \<Rightarrow> byte \<Rightarrow> byte \<Rightarrow> nat" where
  "group_value a b c = unat a * 65536 + unat b * 256 + unat c"

definition sextet :: "nat \<Rightarrow> nat \<Rightarrow> nat" where
  "sextet v i = v div 64 ^ (3 - i) mod 64"

definition b64_char :: "nat \<Rightarrow> byte" where
  "b64_char i = Base64 ! i"

definition b64_group :: "byte \<Rightarrow> byte \<Rightarrow> byte \<Rightarrow> byte list" where
  "b64_group a b c = map (\<lambda>i. b64_char (sextet (group_value a b c) i)) [0, 1, 2, 3]"

fun b64_spec :: "byte list \<Rightarrow> byte list" where
  "b64_spec [] = []"
| "b64_spec [a] =
     (let v = group_value a 0 0 in [b64_char (sextet v 0), b64_char (sextet v 1), Pad64, Pad64])"
| "b64_spec [a, b] =
     (let v = group_value a b 0
      in [b64_char (sextet v 0), b64_char (sextet v 1), b64_char (sextet v 2), Pad64])"
| "b64_spec (a # b # c # bs) = b64_group a b c @ b64_spec bs"

text \<open>The two loops of \<open>f_b64_ntop\<close>, started at index \<open>k\<close> of the target.\<close>

definition f_b64_ntop_from :: "byte list \<Rightarrow> nat \<Rightarrow> byte list \<Rightarrow> nat \<Rightarrow> (byte list, nat) res" where
  "f_b64_ntop_from src k t n =
     rbind (ntop_loop src k t n) (\<lambda>(k, rest) t. ntop_rest rest k t n)"

text \<open>The state of the decoder with a target of \<open>m\<close> bytes: nothing from \<open>n\<close> on has changed, and
  in the states that continue a byte, that byte is inside. A string is zero-terminated ASCII.\<close>

definition pton_inv :: "nat \<Rightarrow> nat \<Rightarrow> byte list \<Rightarrow> nat \<Rightarrow> nat \<Rightarrow> byte list option \<Rightarrow> bool" where
  "pton_inv m n t0 state k target \<longleftrightarrow>
     (\<exists>t. target = Some t \<and> length t = m \<and> drop n t = drop n t0 \<and> state < 4
        \<and> (state \<noteq> 0 \<longrightarrow> k < n))"

definition c_string :: "byte list \<Rightarrow> bool" where
  "c_string src \<longleftrightarrow> 0 \<in> set src \<and> (\<forall>c \<in> set (takeWhile (\<lambda>c. c \<noteq> 0) src). c < 0x80)"

section \<open>Cutting and joining groups\<close>

lemma byte_lt: "unat (b :: byte) < 256"
  using unsigned_less [of b, where ?'a = nat] by simp

lemma unat_and_mask: "unat (b AND mask n :: byte) = unat b mod 2 ^ n"
  by (simp only: take_bit_eq_mask [symmetric] unsigned_take_bit_eq) (simp only: take_bit_eq_mod)

lemma unat_masks:
  "unat (b AND 0x03 :: byte) = unat b mod 4"
  "unat (b AND 0x0f :: byte) = unat b mod 16"
  "unat (b AND 0x3f :: byte) = unat b mod 64"
  using unat_and_mask [of b 2] unat_and_mask [of b 4] unat_and_mask [of b 6]
  by (simp_all add: mask_eq_exp_minus_1)

lemma unat_push: "unat (push_bit n b :: byte) = (unat b * 2 ^ n) mod 256"
  using unsigned_push_bit_eq [of n b, where ?'a = nat] by (simp add: push_bit_eq_mult take_bit_eq_mod)

lemma nat_sextets:
  fixes A B C :: nat
  assumes "A < 256" "B < 256" "C < 256"
  shows "(A * 65536 + B * 256 + C) div 64 ^ 3 mod 64 = A div 4"
    and "(A * 65536 + B * 256 + C) div 64 ^ 2 mod 64 = A mod 4 * 16 + B div 16"
    and "(A * 65536 + B * 256 + C) div 64 ^ 1 mod 64 = B mod 16 * 4 + C div 64"
    and "(A * 65536 + B * 256 + C) div 64 ^ 0 mod 64 = C mod 64"
proof -
  define p q r s t u where d: "p = A div 4" "q = A mod 4" "r = B div 16" "s = B mod 16"
    "t = C div 64" "u = C mod 64"
  have e: "A = 4 * p + q" "B = 16 * r + s" "C = 64 * t + u" by (simp_all add: d)
  have b: "p < 64" "q < 4" "r < 16" "s < 16" "t < 4" "u < 64" using assms by (auto simp: d)
  let ?v = "A * 65536 + B * 256 + C"
  have v: "?v = ((p * 64 + (q * 16 + r)) * 64 + (s * 4 + t)) * 64 + u" by (simp add: e)
  have w: "(x * 64 + y) div 64 = x" "(x * 64 + y) mod 64 = y" if "y < 64" for x y :: nat
    using that by simp_all
  have q: "q * 16 + r < 64" "s * 4 + t < 64" using b by simp_all
  have 1: "?v div 64 = (p * 64 + (q * 16 + r)) * 64 + (s * 4 + t)" using b(6) by (simp only: v w)
  have 2: "?v div 64 ^ 2 = p * 64 + (q * 16 + r)"
    using 1 q by (simp only: power2_eq_square div_mult2_eq w)
  have 3: "?v div 64 ^ 3 = p"
    using 2 q by (simp only: power3_eq_cube power2_eq_square div_mult2_eq w)
  show "?v div 64 ^ 3 mod 64 = A div 4" using 3 b by (simp add: d)
  show "?v div 64 ^ 2 mod 64 = A mod 4 * 16 + B div 16" using 2 q by (simp only: w d)
  show "?v div 64 ^ 1 mod 64 = B mod 16 * 4 + C div 64" using 1 q by (simp only: w d power_one_right)
  show "?v div 64 ^ 0 mod 64 = C mod 64" by (simp only: v w b power_0 div_by_1 d(6) [symmetric])
qed

lemma sextets:
  "unat (drop_bit 2 a) = sextet (group_value a b c) 0"
  "unat (push_bit 4 (a AND 0x03) + drop_bit 4 b) = sextet (group_value a b c) 1"
  "unat (push_bit 2 (b AND 0x0f) + drop_bit 6 c) = sextet (group_value a b c) 2"
  "unat (c AND 0x3f) = sextet (group_value a b c) 3"
proof -
  note n = nat_sextets [OF byte_lt byte_lt byte_lt, of a b c]
  have m: "unat a mod 4 < 4" "unat b div 16 < 16" "unat b mod 16 < 16" "unat c div 64 < 4"
    using byte_lt [of b] byte_lt [of c] by auto
  show "unat (drop_bit 2 a) = sextet (group_value a b c) 0"
    using n(1) by (simp add: unat_drop_bit sextet_def group_value_def)
  have p: "unat (push_bit 4 (a AND 0x03)) = unat a mod 4 * 16"
    "unat (push_bit 2 (b AND 0x0f)) = unat b mod 16 * 4"
    using m by (simp_all only: unat_push unat_masks) simp_all
  have l: "unat a mod 4 * 16 + unat b div 16 < 256" "unat b mod 16 * 4 + unat c div 64 < 256"
    using m by linarith+
  show "unat (push_bit 4 (a AND 0x03) + drop_bit 4 b) = sextet (group_value a b c) 1"
    using n(2) l(1) by (simp only: sextet_def group_value_def unat_word_ariths p unat_drop_bit) simp
  show "unat (push_bit 2 (b AND 0x0f) + drop_bit 6 c) = sextet (group_value a b c) 2"
    using n(3) l(2) by (simp only: sextet_def group_value_def unat_word_ariths p unat_drop_bit) simp
  show "unat (c AND 0x3f) = sextet (group_value a b c) 3"
    using n(4) by (simp add: sextet_def group_value_def unat_masks)
qed


section \<open>Encoding\<close>

lemma length_b64_group [simp]: "length (b64_group a b c) = 4"
  by (simp add: b64_group_def)

lemma length_b64_spec: "length (b64_spec bs) = (length bs + 2) div 3 * 4"
proof (induction bs rule: b64_spec.induct)
  case (4 a b c bs)
  have "(length (a # b # c # bs) + 2) div 3 = Suc ((length bs + 2) div 3)"
    using div_add_self1 [of 3 "length bs + 2"] by (simp add: add.commute)
  with 4 show ?case by (simp add: b64_group_def)
qed (simp_all add: Let_def)

lemma length_store_at: "i + length cs \<le> length t \<Longrightarrow> length (store_at t i cs) = length t"
  by (simp add: store_at_def)

lemma store_at_Nil [simp]: "store_at t i [] = t"
  by (simp add: store_at_def)

lemma store_at_store_at:
  "i + length cs + length ds \<le> length t
   \<Longrightarrow> store_at (store_at t i cs) (i + length cs) ds = store_at t i (cs @ ds)"
  by (simp add: store_at_def add.assoc add.left_commute add.commute)

lemma drop_store_at:
  "i + length cs \<le> k \<Longrightarrow> k \<le> length t \<Longrightarrow> drop k (store_at t i cs) = drop k t"
  by (simp add: store_at_def drop_drop)

lemma ntop_loop_group:
  "ntop_loop (a # b # c # src) k t n =
     (if n < k + 4 then Fail t else if length t < k + 4 then Undef
      else ntop_loop src (k + 4)
             (store_at t k (b64_group a b c)) n)"
  using sextets [where a = a and b = b and c = c]
  by (simp only: ntop_loop.simps Let_def b64_char_def b64_group_def list.map)

declare ntop_loop.simps(1) [simp del]

lemma ntop_rest_group:
  "length src < 3 \<Longrightarrow> ntop_rest src k t n =
     (if n < k + length (b64_spec src) then Fail t
      else if length t < k + length (b64_spec src) then Undef
      else Ret (k + length (b64_spec src)) (store_at t k (b64_spec src)))" if "k \<le> n" "n \<le> length t"
proof (induction src rule: b64_spec.induct)
  case (2 a)
  show ?case using sextets(1,2) [of a 0 0] 
    by (simp add: ntop_rest_def Let_def b64_char_def)
next
  case (3 a b)
  show ?case using sextets(1) [of a b 0] sextets(2) [of a b 0] sextets(3) [of b 0 a] 
    by (simp only: ntop_rest_def Let_def b64_char_def b64_spec.simps list.size) simp
qed (use that in \<open>simp_all add: ntop_rest_def\<close>)

lemma ntop_from_ok:
  "k + length (b64_spec src) \<le> n \<Longrightarrow> n \<le> length t \<Longrightarrow>
   f_b64_ntop_from src k t n = Ret (k + length (b64_spec src)) (store_at t k (b64_spec src))"
proof (induction src arbitrary: k t rule: b64_spec.induct)
  case (4 a b c bs)
  let ?g = "b64_group a b c"
  from 4 have "f_b64_ntop_from bs (k + 4) (store_at t k ?g) n
      = Ret (k + 4 + length (b64_spec bs)) (store_at (store_at t k ?g) (k + 4) (b64_spec bs))"
    by (simp add: Let_def length_store_at)
  with 4 store_at_store_at [of k ?g "b64_spec bs" t] show ?case
    by (simp add: f_b64_ntop_from_def ntop_loop_group Let_def)
qed (simp_all add: f_b64_ntop_from_def ntop_rest_group)

lemma ntop_from_full:
  "n < k + length (b64_spec src) \<Longrightarrow> k \<le> n \<Longrightarrow> n \<le> length t \<Longrightarrow>
   \<exists>t'. f_b64_ntop_from src k t n = Fail t' \<and> length t' = length t \<and> drop n t' = drop n t"
proof (induction src arbitrary: k t rule: b64_spec.induct)
  case (4 a b c bs)
  let ?g = "b64_group a b c"
  show ?case
  proof (cases "n < k + 4")
    case False
    with 4 have "\<exists>t'. f_b64_ntop_from bs (k + 4) (store_at t k ?g) n = Fail t'
        \<and> length t' = length (store_at t k ?g) \<and> drop n t' = drop n (store_at t k ?g)"
      by (intro "4.IH") (simp_all add: Let_def length_store_at)
    with False 4 show ?thesis
      by (simp add: f_b64_ntop_from_def ntop_loop_group Let_def length_store_at drop_store_at)
  qed (simp add: f_b64_ntop_from_def ntop_loop_group)
qed (simp_all add: f_b64_ntop_from_def ntop_rest_group)

lemma f_b64_ntop_from_eq:
  "f_b64_ntop src t n = rbind (f_b64_ntop_from src 0 t n) (\<lambda>k t.
     if n \<le> k then Fail t else if length t \<le> k then Undef
     else Ret (sint (of_nat k :: 32 word)) (store_at t k [0]))"
  by (simp add: f_b64_ntop_def f_b64_ntop_from_def rbind_assoc split_def)

lemma sint_of_nat32: "k < 2 ^ 31 \<Longrightarrow> sint (of_nat k :: 32 word) = int k"
  by (simp add: signed_of_nat signed_take_bit_int_eq_self)

lemma f_b64_ntop_stores:
  assumes "length (b64_spec src) < n" and "n \<le> length t" and "length (b64_spec src) < 2 ^ 31"
  shows "f_b64_ntop src t n
         = Ret (int (length (b64_spec src))) (store_at t 0 (b64_spec src @ [0]))"
proof -
  let ?k = "length (b64_spec src)"
  have "f_b64_ntop_from src 0 t n = Ret ?k (store_at t 0 (b64_spec src))"
    using ntop_from_ok [of 0 src n t] assms by simp
  moreover have "sint (of_nat ?k :: 32 word) = int ?k"
    using assms(3) by (rule sint_of_nat32)
  ultimately show ?thesis
    using assms store_at_store_at [of 0 "b64_spec src" "[0]" t]
    by (simp add: f_b64_ntop_from_eq length_store_at del: length_0_conv)
qed

lemma f_b64_ntop_full:
  assumes "n \<le> length (b64_spec src)" and "n \<le> length t"
  shows "\<exists>t'. f_b64_ntop src t n = Fail t' \<and> length t' = length t \<and> drop n t' = drop n t"
proof (cases "n = length (b64_spec src)")
  case True
  then show ?thesis using ntop_from_ok [of 0 src n t] assms
    by (simp add: f_b64_ntop_from_eq length_store_at drop_store_at)
next
  case False
  then show ?thesis using ntop_from_full [of n 0 src t] assms
    by (auto simp add: f_b64_ntop_from_eq)
qed



section \<open>Decoding\<close>

lemma index_of_nth: "distinct xs \<Longrightarrow> i < length xs \<Longrightarrow> index_of xs (xs ! i) = Some i"
  by (induction xs arbitrary: i) (auto simp: nth_Cons split: nat.splits)

lemma distinct_Base64: "distinct Base64"
  by (simp add: Base64_def of_char_def)

lemma length_Base64: "length Base64 = 64"
  by (simp add: Base64_def)

lemma Base64_chars:
  "list_all (\<lambda>c. c \<noteq> 0 \<and> \<not> 0x80 \<le> c \<and> \<not> isspace c \<and> c \<noteq> Pad64) Base64"
  by (simp add: Base64_def of_char_def isspace_def Pad64_def)

lemma b64_char_facts:
  assumes "d < 64"
  shows "index_of Base64 (b64_char d) = Some d" "b64_char d \<noteq> 0" "\<not> 0x80 \<le> b64_char d"
    "\<not> isspace (b64_char d)" "b64_char d \<noteq> Pad64"
  using assms index_of_nth [OF distinct_Base64, of d] Base64_chars
  by (auto simp: b64_char_def length_Base64 list_all_length)

lemma no_high_bit: "8 \<le> n \<Longrightarrow> \<not> bit (b :: byte) n"
  by (auto dest: bit_imp_le_length)

lemma byte_eqI:
  fixes a b :: byte
  assumes "bit a 0 = bit b 0" "bit a 1 = bit b 1" "bit a 2 = bit b 2" "bit a 3 = bit b 3"
    "bit a 4 = bit b 4" "bit a 5 = bit b 5" "bit a 6 = bit b 6" "bit a 7 = bit b 7"
  shows "a = b"
proof (rule bit_word_eqI)
  fix n assume "n < LENGTH(8)"
  then have "n = 0 \<or> n = 1 \<or> n = 2 \<or> n = 3 \<or> n = 4 \<or> n = 5 \<or> n = 6 \<or> n = 7" by auto
  with assms show "bit a n = bit b n" by auto
qed

lemma sextet_lt: "sextet v i < 64"
  by (simp add: sextet_def)

lemma pton_loop_char:
  "d < 64 \<Longrightarrow> pton_loop (b64_char d # src) state k n target =
     rbind (pton_put state (of_nat d) k n target) (\<lambda>_ target.
       pton_loop src ((state + 1) mod 4) (if state = 0 then k else u_int_Suc k) n target)"
  by (simp add: b64_char_facts)

lemma of_nat_unat_byte: "of_nat (unat (b :: byte)) = b"
  by simp

lemma of_nat_sextets:
  "of_nat (sextet (group_value a b c) 0) = drop_bit 2 a"
  "of_nat (sextet (group_value a b c) 1) = push_bit 4 (a AND 0x03) OR drop_bit 4 b"
  "of_nat (sextet (group_value a b c) 2) = push_bit 2 (b AND 0x0f) OR drop_bit 6 c"
  "of_nat (sextet (group_value a b c) 3) = (c AND 0x3f)"
proof -
  have 1: "push_bit 4 (a AND 0x03) + drop_bit 4 b = push_bit 4 (a AND 0x03) OR drop_bit 4 b"
    by (rule disjunctive_add_eq_or, rule byte_eqI) (simp_all add: bit_simps no_high_bit)
  have 2: "push_bit 2 (b AND 0x0f) + drop_bit 6 c = push_bit 2 (b AND 0x0f) OR drop_bit 6 c"
    by (rule disjunctive_add_eq_or, rule byte_eqI) (simp_all add: bit_simps no_high_bit)
  show "of_nat (sextet (group_value a b c) 0) = drop_bit 2 a"
    by (simp only: sextets(1) [symmetric] of_nat_unat_byte)
  show "of_nat (sextet (group_value a b c) 1) = push_bit 4 (a AND 0x03) OR drop_bit 4 b"
    by (simp only: sextets(2) [symmetric] of_nat_unat_byte 1)
  show "of_nat (sextet (group_value a b c) 2) = push_bit 2 (b AND 0x0f) OR drop_bit 6 c"
    by (simp only: sextets(3) [symmetric] of_nat_unat_byte 2)
  show "of_nat (sextet (group_value a b c) 3) = (c AND 0x3f)"
    by (simp only: sextets(4) [symmetric] of_nat_unat_byte)
qed

lemma regroup:
  fixes a b c :: byte
  defines "o0 \<equiv> drop_bit 2 a" and "o1 \<equiv> push_bit 4 (a AND 0x03) OR drop_bit 4 b"
    and "o2 \<equiv> push_bit 2 (b AND 0x0f) OR drop_bit 6 c" and "o3 \<equiv> c AND 0x3f"
  shows "push_bit 2 o0 OR drop_bit 4 o1 = a"
    and "push_bit 4 (o1 AND 0x0f) OR drop_bit 2 o2 = b"
    and "push_bit 6 (o2 AND 0x03) OR o3 = c"
proof -
  have m: "(0x03 :: byte) = mask 2" "(0x0f :: byte) = mask 4" "(0x3f :: byte) = mask 6"
    by (simp_all add: mask_eq_exp_minus_1)
  show "push_bit 2 o0 OR drop_bit 4 o1 = a" unfolding assms m
    by (rule byte_eqI) (simp_all add: bit_simps no_high_bit)
  show "push_bit 4 (o1 AND 0x0f) OR drop_bit 2 o2 = b" unfolding assms m
    by (rule byte_eqI) (simp_all add: bit_simps no_high_bit)
  show "push_bit 6 (o2 AND 0x03) OR o3 = c" unfolding assms m
    by (rule byte_eqI) (simp_all add: bit_simps no_high_bit)
qed

lemma u_int_Suc: "k + 1 < 2 ^ 32 \<Longrightarrow> u_int_Suc k = k + 1"
  by (simp add: u_int_Suc_def)

lemma pton_put_steps:
  assumes "n \<le> length t" and "n \<le> 2 ^ 31"
  shows "k < n \<Longrightarrow> pton_put 0 d k n (Some t) = Ret () (Some (t[k := push_bit 2 d]))"
    and "k + 1 < n \<Longrightarrow> pton_put 1 d k n (Some t)
           = Ret () (Some (t[k := t ! k OR drop_bit 4 d, k + 1 := push_bit 4 (d AND 0x0f)]))"
    and "k + 1 < n \<Longrightarrow> pton_put 2 d k n (Some t)
           = Ret () (Some (t[k := t ! k OR drop_bit 2 d, k + 1 := push_bit 6 (d AND 0x03)]))"
    and "k < n \<Longrightarrow> pton_put 3 d k n (Some t) = Ret () (Some (t[k := t ! k OR d]))"
  using assms by (simp_all add: pton_put_def pton_write_def Let_def u_int_Suc)

text \<open>Two, three and four characters from the state 0 on.\<close>

lemma pton_loop_two:
  assumes "n \<le> length t" and "n \<le> 2 ^ 31" and "k + 1 < n" and "d0 < 64" and "d1 < 64"
  shows "pton_loop (b64_char d0 # b64_char d1 # src) 0 k n (Some t)
         = pton_loop src 2 (k + 1) n
             (Some (t[k := push_bit 2 (of_nat d0) OR drop_bit 4 (of_nat d1),
                      k + 1 := push_bit 4 (of_nat d1 AND 0x0f)]))"
proof -
  define x y z :: byte where "x = push_bit 2 (of_nat d0)" and "y = drop_bit 4 (of_nat d1)"
    and "z = push_bit 4 (of_nat d1 AND 0x0f)"
  have "pton_put 0 (of_nat d0) k n (Some t) = Ret () (Some (t[k := x]))"
    using assms by (simp only: pton_put_steps x_def)
  moreover have "pton_put 1 (of_nat d1) k n (Some (t[k := x])) = Ret () (Some (t[k := x OR y, k + 1 := z]))"
    using assms by (subst pton_put_steps) (simp_all add: y_def z_def)
  moreover have "(0 + 1) mod 4 = (1::nat)" "(1 + 1) mod 4 = (2::nat)" by simp_all
  ultimately show ?thesis using assms
    by (simp only: pton_loop_char rbind.simps x_def [symmetric] y_def [symmetric] z_def [symmetric]
        u_int_Suc if_True if_False simp_thms one_neq_zero u_int_Suc) (simp add: u_int_Suc)
qed

lemma pton_loop_third:
  assumes "n \<le> length t" and "n \<le> 2 ^ 31" and "k + 1 < n" and "d < 64"
  shows "pton_loop (b64_char d # src) 2 k n (Some t)
         = pton_loop src 3 (k + 1) n
             (Some (t[k := t ! k OR drop_bit 2 (of_nat d), k + 1 := push_bit 6 (of_nat d AND 0x03)]))"
  using assms by (simp add: pton_loop_char pton_put_steps(3) [simplified] u_int_Suc del: pton_loop.simps)

lemma pton_loop_fourth:
  assumes "n \<le> length t" and "n \<le> 2 ^ 31" and "k < n" and "d < 64"
  shows "pton_loop (b64_char d # src) 3 k n (Some t)
         = pton_loop src 0 (k + 1) n (Some (t[k := t ! k OR of_nat d]))"
  using assms by (simp add: pton_loop_char pton_put_steps(4) u_int_Suc del: pton_loop.simps)

lemma pton_loop_group:
  assumes "k + 2 < n" and "n \<le> length t" and "n \<le> 2 ^ 31"
  shows "pton_loop (b64_group a b c @ src) 0 k n (Some t)
         = pton_loop src 0 (k + 3) n (Some (t[k := a, k + 1 := b, k + 2 := c]))"
proof -
  let ?s = "\<lambda>i. of_nat (sextet (group_value a b c) i) :: byte"
  have r: "push_bit 2 (?s 0) OR drop_bit 4 (?s 1) = a"
      "push_bit 4 (?s 1 AND 0x0f) OR drop_bit 2 (?s 2) = b" "push_bit 6 (?s 2 AND 0x03) OR ?s 3 = c"
    by (simp_all only: of_nat_sextets regroup)
  have u: "t[k := x, k + 1 := y, k + 1 := y', k + 2 := z, k + 2 := z'] = t[k := x, k + 1 := y', k + 2 := z']" 
     "t[k := x, k + 1 := y] ! (k + 1) = y" "t[k := x, k + 1 := y, k + 1 := y', k + 2 := z] ! (k + 2) = z"
    for x y y' z z' using assms by simp_all
  have e: "k + 1 + 1 = k + 2" "k + 2 + 1 = k + 3" by simp_all
  show ?thesis
    using assms
    by (simp only: b64_group_def list.map append.simps pton_loop_two pton_loop_third pton_loop_fourth
          length_list_update sextet_lt e r u)
qed


lemma special_chars: "Pad64 \<noteq> 0" "\<not> 0x80 \<le> Pad64" "\<not> isspace Pad64" "0 \<noteq> Pad64"
  by (simp_all add: Pad64_def of_char_def isspace_def)

lemma pton_loop_pad: "pton_loop (Pad64 # src) state k n target = Ret (True, src, state, k) target"
  by (simp add: special_chars)

lemma pton_round:
  assumes "n \<le> length t" and "n \<le> 2 ^ 31" and "k + length bs < n"
  shows "\<exists>t'. rbind (pton_loop (b64_spec bs @ [0]) 0 k n (Some t))
                (\<lambda>(padded, src, state, k) target. pton_finish padded src state k target)
              = Ret (int (k + length bs)) (Some t')
            \<and> length t' = length t \<and> take (k + length bs) t' = take k t @ bs"
  using assms
proof (induction bs arbitrary: k t rule: b64_spec.induct)
  case 1
  then show ?case by (simp add: pton_finish_def sint_of_nat32)
next
  case (2 a)
  let ?v = "group_value a 0 0" let ?s = "\<lambda>i. of_nat (sextet ?v i) :: byte"
  have r: "push_bit 2 (?s 0) OR drop_bit 4 (?s 1) = a" by (simp only: of_nat_sextets regroup)
  from "2.prems" have l: "k + 1 < n" by simp
  have z: "push_bit 4 (?s 1 AND 0x0f) = 0"
    by (simp only: of_nat_sextets, rule byte_eqI) (simp_all add: bit_simps)
  from 2 have "pton_loop (b64_spec [a] @ [0]) 0 k n (Some t)
      = Ret (True, [Pad64, 0], 2, k + 1) (Some (t[k := a, k + 1 := 0]))"
    by (simp only: b64_spec.simps Let_def append.simps r z pton_loop_pad
          pton_loop_two [OF "2.prems"(1,2) l sextet_lt sextet_lt])
  with 2 show ?case
    by (simp add: pton_finish_def pton_tail_def special_chars sint_of_nat32 take_Suc_conv_app_nth
          del: of_nat_Suc of_nat_add)
next
  case (3 a b)
  let ?v = "group_value a b 0" let ?s = "\<lambda>i. of_nat (sextet ?v i) :: byte"
  have r: "push_bit 2 (?s 0) OR drop_bit 4 (?s 1) = a"
    "push_bit 4 (?s 1 AND 0x0f) OR drop_bit 2 (?s 2) = b" by (simp_all only: of_nat_sextets regroup)
  from "3.prems" have l: "k + 1 < n" "k + 2 < n" by simp_all
  have z: "push_bit 6 (?s 2 AND 0x03) = 0"
    by (simp only: of_nat_sextets, rule byte_eqI) (simp_all add: bit_simps)
  have u: "t[k := a, k + 1 := x] ! (k + 1) = x" for x using 3 by simp
  have e: "k + 1 + 1 = k + 2" by simp
  from 3 have "pton_loop (b64_spec [a, b] @ [0]) 0 k n (Some t)
      = Ret (True, [0], 3, k + 2) (Some (t[k := a, k + 1 := b, k + 2 := 0]))"
    by (simp only: b64_spec.simps Let_def append.simps pton_loop_two pton_loop_third sextet_lt r z u e l
          pton_loop_pad length_list_update) simp
  with 3 show ?case
    by (simp add: pton_finish_def pton_tail_def special_chars sint_of_nat32 take_Suc_conv_app_nth
          del: of_nat_Suc of_nat_add)
next
  case (4 a b c bs)
  let ?t = "t[k := a, k + 1 := b, k + 2 := c]"
  have "take (k + 3) ?t = take k t @ [a, b, c]"
    using 4 by (simp add: take_Suc_conv_app_nth numeral_3_eq_3)
  moreover from 4 have "pton_loop (b64_spec (a # b # c # bs) @ [0]) 0 k n (Some t)
      = pton_loop (b64_spec bs @ [0]) 0 (k + 3) n (Some ?t)"
    by (simp only: b64_spec.simps append_assoc) (rule pton_loop_group, simp_all)
  ultimately show ?case using "4.IH" [of ?t "k + 3"] "4.prems"
    by (auto simp: add.commute add.left_commute numeral_3_eq_3 simp del: pton_loop.simps)
qed


section \<open>Safety\<close>

lemma c_string_Cons:
  "c_string (c # src) \<longleftrightarrow> c = 0 \<or> c < 0x80 \<and> c_string src"
  by (auto simp: c_string_def)

lemma c_string_not_Nil [simp]: "\<not> c_string []"
  by (simp add: c_string_def)

lemma pton_put_safe:
  assumes "pton_inv m n t0 state k target" and "n \<le> m"
  shows "(\<exists>t. pton_put state d k n target = Fail (Some t) \<and> length t = m \<and> drop n t = drop n t0)
         \<or> (\<exists>target'. pton_put state d k n target = Ret () target'
               \<and> pton_inv m n t0 ((state + 1) mod 4) (if state = 0 then k else u_int_Suc k) target')"
proof -
  from assms obtain t where t: "target = Some t" "length t = m" "drop n t = drop n t0" "state < 4"
    "state \<noteq> 0 \<longrightarrow> k < n" by (auto simp: pton_inv_def)
  then have "state = 0 \<or> state = 1 \<or> state = 2 \<or> state = 3" by auto
  with t assms(2) show ?thesis
    by (elim disjE) (auto simp: pton_put_def pton_write_def pton_inv_def Let_def)
qed

lemma pton_loop_safe:
  assumes "c_string src" and "pton_inv m n t0 state k target" and "n \<le> m"
  shows "(\<exists>t. pton_loop src state k n target = Fail (Some t) \<and> length t = m \<and> drop n t = drop n t0)
       \<or> (\<exists>padded rest state' k' target'.
             pton_loop src state k n target = Ret (padded, rest, state', k') target'
             \<and> pton_inv m n t0 state' k' target' \<and> (padded \<longrightarrow> c_string rest))"
  using assms
proof (induction src arbitrary: state k target)
  case (Cons ch src)
  have nb: "ch \<noteq> 0 \<Longrightarrow> \<not> 0x80 \<le> ch" "ch \<noteq> 0 \<Longrightarrow> c_string src"
    using Cons.prems(1) by (simp_all add: c_string_Cons not_le)
  consider "ch = 0" | "ch \<noteq> 0" "isspace ch" | "ch \<noteq> 0" "\<not> isspace ch" "ch = Pad64"
    | "ch \<noteq> 0" "\<not> isspace ch" "ch \<noteq> Pad64" "index_of Base64 ch = None"
    | d where "ch \<noteq> 0" "\<not> isspace ch" "ch \<noteq> Pad64" "index_of Base64 ch = Some d"
    by fastforce
  then show ?case
  proof cases
    case 1
    with Cons.prems(2) show ?thesis by auto
  next
    case 2
    with nb Cons.IH [OF _ Cons.prems(2,3)] show ?thesis by simp
  next
    case 3
    with nb Cons.prems(2) show ?thesis by auto
  next
    case 4
    with nb Cons.prems(2) show ?thesis by (auto simp: pton_inv_def)
  next
    case 5
    from pton_put_safe [OF Cons.prems(2,3), of "of_nat d"] show ?thesis
    proof
      assume "\<exists>t. pton_put state (of_nat d) k n target = Fail (Some t)
          \<and> length t = m \<and> drop n t = drop n t0"
      with 5 nb show ?thesis by auto
    next
      assume "\<exists>target'. pton_put state (of_nat d) k n target = Ret () target'
          \<and> pton_inv m n t0 ((state + 1) mod 4) (if state = 0 then k else u_int_Suc k) target'"
      then obtain target' where p: "pton_put state (of_nat d) k n target = Ret () target'"
        "pton_inv m n t0 ((state + 1) mod 4) (if state = 0 then k else u_int_Suc k) target'" by auto
      from Cons.IH [OF nb(2) [OF 5(1)] p(2) Cons.prems(3)] 5 p(1) nb(1) [OF 5(1)]
      show ?thesis by simp
    qed
  qed
qed simp

lemma skip_space_safe:
  "c_string src \<Longrightarrow> \<exists>src'. skip_space src = Some src' \<and> c_string src'"
  by (induction src) (auto simp: c_string_Cons not_le)

lemma pton_tail_safe:
  "c_string src \<Longrightarrow> k < length t \<Longrightarrow> res_state (pton_tail src k (Some t)) = Some (Some t)"
  using skip_space_safe [of src] by (auto simp: pton_tail_def)

lemma pton_finish_safe:
  assumes "pton_inv m n t0 state k target" and "n \<le> m" and "padded \<longrightarrow> c_string src"
  shows "res_state (pton_finish padded src state k target) = Some target"
proof -
  from assms obtain t where t: "target = Some t" "state \<noteq> 0 \<longrightarrow> k < length t"
    by (auto simp: pton_inv_def)
  have "c_string (tl src')" if "c_string src'" "hd src' = Pad64" for src'
    using that special_chars(1) by (cases src') (auto simp: c_string_Cons)
  with t assms(3) skip_space_safe [of src] show ?thesis
    by (auto simp: pton_finish_def pton_tail_safe)
qed

section \<open>The properties\<close>

text \<open>C23: what \<open>f_b64_ntop\<close> writes, with its terminator, is decoded by
  \<open>f_b64_pton\<close> into the original bytes and their number, for every byte string, when the target
  of the encoder holds the text and its terminator and the target of the decoder has at least
  one byte more than the data.\<close>

theorem f_b64_round_trip:
  assumes "length (b64_spec bs) < n" and "n \<le> length buf" and "length (b64_spec bs) < 2 ^ 31"
    and "length bs < k" and "k \<le> length t" and "k \<le> 2 ^ 31"
  shows "\<exists>r buf' t'. f_b64_ntop bs buf n = Ret r buf'
           \<and> f_b64_pton (take (nat r + 1) buf') (Some t) k = Ret (int (length bs)) (Some t')
           \<and> take (length bs) t' = bs"
proof -
  have "take (length (b64_spec bs) + 1) (store_at buf 0 (b64_spec bs @ [0])) = b64_spec bs @ [0]"
    by (simp add: store_at_def)
  then show ?thesis
    using f_b64_ntop_stores [OF assms(1-3)] pton_round [of k t 0 bs] assms(4-6)
    by (auto simp: f_b64_pton_def simp del: pton_loop.simps)
qed

theorem f_b64_round_trip_witness:
  "\<exists>r buf' t'. f_b64_ntop [0xFB, 0x00] (replicate 5 0) 5 = Ret r buf'
     \<and> f_b64_pton (take (nat r + 1) buf') (Some (replicate 3 9)) 3 = Ret (int (length [0xFB, 0x00 :: byte])) (Some t')
     \<and> take (length [0xFB, 0x00 :: byte]) t' = [0xFB, 0x00]"
  by (rule f_b64_round_trip) (simp_all add: Let_def)

text \<open>C27: \<open>f_b64_ntop\<close> stores exactly the Base64 text of its input and a
  terminator and returns the length of the text; if the text and the terminator do not fit in
  \<open>targsize\<close> bytes it returns -1, and no byte from \<open>targsize\<close> on is touched.\<close>

theorem f_b64_ntop_correct:
  assumes "n \<le> length t" and "length (b64_spec src) < 2 ^ 31"
  shows "if length (b64_spec src) < n
         then f_b64_ntop src t n
              = Ret (int (length (b64_spec src))) (store_at t 0 (b64_spec src @ [0]))
         else (\<exists>t'. f_b64_ntop src t n = Fail t' \<and> length t' = length t \<and> drop n t' = drop n t)"
  using assms f_b64_ntop_stores [of src n t] f_b64_ntop_full [of n src t] by simp

theorem f_b64_ntop_correct_witness:
  "f_b64_ntop [77, 97, 110] [7, 7, 7, 7, 7, 7] 6 = Ret 4 [84, 87, 70, 117, 0, 7]
   \<and> (\<exists>t'. f_b64_ntop [77, 97, 110] [7, 7, 7, 7, 7, 7] 4 = Fail t' \<and> length t' = 6)"
proof
  have e: "b64_spec [77, 97, 110] = [84, 87, 70, 117]"
    by (simp add: b64_group_def b64_char_def Base64_def sextet_def group_value_def of_char_def)
  show "f_b64_ntop [77, 97, 110] [7, 7, 7, 7, 7, 7] 6 = Ret 4 [84, 87, 70, 117, 0, 7]"
    using f_b64_ntop_correct [of 6 "[7, 7, 7, 7, 7, 7]" "[77, 97, 110]"] unfolding e
    by (simp add: store_at_def)
  show "\<exists>t'. f_b64_ntop [77, 97, 110] [7, 7, 7, 7, 7, 7] 4 = Fail t' \<and> length t' = 6"
    using f_b64_ntop_correct [of 4 "[7, 7, 7, 7, 7, 7]" "[77, 97, 110]"] unfolding e by auto
qed

text \<open>C28: on any zero-terminated ASCII string, valid Base64 or not,
  \<open>f_b64_pton\<close> never reads past the terminator and never writes outside the first \<open>targsize\<close>
  bytes of its target: it has a defined result and leaves the rest of the target as it was.\<close>

theorem f_b64_pton_safe:
  assumes "c_string src" and "n \<le> length t"
  shows "\<exists>t'. res_state (f_b64_pton src (Some t) n) = Some (Some t')
              \<and> length t' = length t \<and> drop n t' = drop n t"
proof -
  have i: "pton_inv (length t) n t 0 0 (Some t)" by (simp add: pton_inv_def)
  from pton_loop_safe [OF assms(1) i assms(2)] show ?thesis
    using pton_finish_safe [OF _ assms(2)]
    by (fastforce simp: f_b64_pton_def pton_inv_def)
qed

theorem f_b64_pton_safe_witness:
  "\<exists>t'. res_state (f_b64_pton [0x51, 0x51, 0x3D, 0x00] (Some [1, 2, 3]) 2) = Some (Some t')
     \<and> length t' = length [1, 2, 3 :: byte] \<and> drop 2 t' = drop 2 [1, 2, 3]"
  by (rule f_b64_pton_safe) (simp_all add: c_string_def)

end
