(* ===== verification/Nanopb_Types.thy ===== *)
theory Nanopb_Types
  imports Nanopb_Prelude
begin

text \<open>
  The constants, the field descriptor and the descriptor macros of \<open>pb.h\<close>, for the build
  of this repository: \<open>PB_FIELD_32BIT\<close>, \<open>PB_NO_PACKED_STRUCTS\<close> and \<open>PB_ENABLE_MALLOC\<close> defined,
  64-bit pointers. The macros compute offsets from a description of the C struct, so that the
  generated descriptor tables can be written as the generated files have them.
\<close>

section \<open>Field types\<close>

definition PB_MAX_REQUIRED_FIELDS :: nat where "PB_MAX_REQUIRED_FIELDS = 64"

type_synonym pb_type = "8 word"

definition PB_LTYPE_VARINT :: pb_type where "PB_LTYPE_VARINT = 0x00"
definition PB_LTYPE_UVARINT :: pb_type where "PB_LTYPE_UVARINT = 0x01"
definition PB_LTYPE_SVARINT :: pb_type where "PB_LTYPE_SVARINT = 0x02"
definition PB_LTYPE_FIXED32 :: pb_type where "PB_LTYPE_FIXED32 = 0x03"
definition PB_LTYPE_FIXED64 :: pb_type where "PB_LTYPE_FIXED64 = 0x04"
definition PB_LTYPE_LAST_PACKABLE :: pb_type where "PB_LTYPE_LAST_PACKABLE = 0x04"
definition PB_LTYPE_BYTES :: pb_type where "PB_LTYPE_BYTES = 0x05"
definition PB_LTYPE_STRING :: pb_type where "PB_LTYPE_STRING = 0x06"
definition PB_LTYPE_SUBMESSAGE :: pb_type where "PB_LTYPE_SUBMESSAGE = 0x07"
definition PB_LTYPE_EXTENSION :: pb_type where "PB_LTYPE_EXTENSION = 0x08"
definition PB_LTYPE_FIXED_LENGTH_BYTES :: pb_type where "PB_LTYPE_FIXED_LENGTH_BYTES = 0x09"
definition PB_LTYPE_MASK :: pb_type where "PB_LTYPE_MASK = 0x0F"

definition PB_HTYPE_REQUIRED :: pb_type where "PB_HTYPE_REQUIRED = 0x00"
definition PB_HTYPE_OPTIONAL :: pb_type where "PB_HTYPE_OPTIONAL = 0x10"
definition PB_HTYPE_REPEATED :: pb_type where "PB_HTYPE_REPEATED = 0x20"
definition PB_HTYPE_ONEOF :: pb_type where "PB_HTYPE_ONEOF = 0x30"
definition PB_HTYPE_MASK :: pb_type where "PB_HTYPE_MASK = 0x30"

definition PB_ATYPE_STATIC :: pb_type where "PB_ATYPE_STATIC = 0x00"
definition PB_ATYPE_POINTER :: pb_type where "PB_ATYPE_POINTER = 0x80"
definition PB_ATYPE_CALLBACK :: pb_type where "PB_ATYPE_CALLBACK = 0x40"
definition PB_ATYPE_MASK :: pb_type where "PB_ATYPE_MASK = 0xC0"

definition PB_ATYPE :: "pb_type \<Rightarrow> pb_type" where "PB_ATYPE x = x AND PB_ATYPE_MASK"
definition PB_HTYPE :: "pb_type \<Rightarrow> pb_type" where "PB_HTYPE x = x AND PB_HTYPE_MASK"
definition PB_LTYPE :: "pb_type \<Rightarrow> pb_type" where "PB_LTYPE x = x AND PB_LTYPE_MASK"

lemmas ltype_defs = PB_LTYPE_VARINT_def PB_LTYPE_UVARINT_def PB_LTYPE_SVARINT_def
  PB_LTYPE_FIXED32_def PB_LTYPE_FIXED64_def PB_LTYPE_LAST_PACKABLE_def PB_LTYPE_BYTES_def
  PB_LTYPE_STRING_def PB_LTYPE_SUBMESSAGE_def PB_LTYPE_EXTENSION_def
  PB_LTYPE_FIXED_LENGTH_BYTES_def
lemmas htype_defs = PB_HTYPE_REQUIRED_def PB_HTYPE_OPTIONAL_def PB_HTYPE_REPEATED_def
  PB_HTYPE_ONEOF_def
lemmas atype_defs = PB_ATYPE_STATIC_def PB_ATYPE_POINTER_def PB_ATYPE_CALLBACK_def
lemmas type_defs = ltype_defs htype_defs atype_defs PB_ATYPE_def PB_HTYPE_def PB_LTYPE_def
  PB_ATYPE_MASK_def PB_HTYPE_MASK_def PB_LTYPE_MASK_def

text \<open>With \<open>PB_FIELD_32BIT\<close>, \<open>pb_size_t\<close> is \<open>uint32_t\<close>.\<close>

definition PB_SIZE_MAX :: nat where "PB_SIZE_MAX = 2 ^ 32 - 1"

text \<open>\<open>sizeof(void *)\<close>, and the layout of \<open>pb_bytes_array_t\<close>: a \<open>pb_size_t\<close>, then the bytes.\<close>

definition SIZEOF_PTR :: nat where "SIZEOF_PTR = 8"
definition PB_BYTES_OFFSET :: nat where "PB_BYTES_OFFSET = 4"

definition PB_BYTES_ARRAY_T_ALLOCSIZE :: "nat \<Rightarrow> nat" where
  "PB_BYTES_ARRAY_T_ALLOCSIZE n = size_add n PB_BYTES_OFFSET"

section \<open>Field descriptors\<close>

text \<open>
  \<open>pb_field_t\<close>. The \<open>ptr\<close> member is \<open>NULL\<close>, a pointer to the descriptor array of a
  submessage, or a pointer to a constant with the default value, which the model holds as its
  bytes. \<open>size_offset\<close> is signed; the other numbers are \<open>pb_size_t\<close>. An array of descriptors
  is a list whose last entry is \<open>PB_LAST_FIELD\<close>, as in the generated tables; message types that
  contain themselves have no such finite description and are outside the model.
\<close>

datatype pb_field =
  Pb_field (tag: nat) (type_of: pb_type) (data_offset: nat) (size_offset: int)
    (data_size: nat) (array_size: nat) (ptr: pb_ptr)
and pb_ptr = Ptr_null | Ptr_fields "pb_field list" | Ptr_default "byte list"

text \<open>\<open>PB_ATYPE(field->type)\<close> and its kin.\<close>

abbreviation atype :: "pb_field \<Rightarrow> pb_type" where "atype f \<equiv> PB_ATYPE (type_of f)"
abbreviation htype :: "pb_field \<Rightarrow> pb_type" where "htype f \<equiv> PB_HTYPE (type_of f)"
abbreviation ltype :: "pb_field \<Rightarrow> pb_type" where "ltype f \<equiv> PB_LTYPE (type_of f)"

definition PB_LAST_FIELD :: pb_field where
  "PB_LAST_FIELD = Pb_field 0 0 0 0 0 0 Ptr_null"

lemma tag_PB_LAST_FIELD [simp]: "tag PB_LAST_FIELD = 0"
  by (simp add: PB_LAST_FIELD_def)

section \<open>Structures of the target\<close>

text \<open>
  A C structure is the list of its members in order, each with its size, its alignment and, for
  an array member, the size of one element. Member offsets follow the ABI: each member starts at
  the next multiple of its alignment; the structure is padded to the largest alignment.
\<close>

datatype c_type =
    C_scalar nat \<comment> \<open>an integer, enum, bool or floating type of this size\<close>
  | C_ptr c_type \<comment> \<open>a pointer\<close>
  | C_array nat c_type
  | C_struct "(string \<times> c_type) list"

definition align_up :: "nat \<Rightarrow> nat \<Rightarrow> nat" where
  "align_up n a = (n + a - 1) div a * a"

fun c_align :: "c_type \<Rightarrow> nat" and c_align_members :: "(string \<times> c_type) list \<Rightarrow> nat" where
  "c_align (C_scalar n) = max 1 n"
| "c_align (C_ptr t) = 8"
| "c_align (C_array n t) = c_align t"
| "c_align (C_struct ms) = c_align_members ms"
| "c_align_members [] = 1"
| "c_align_members ((x, t) # ms) = max (c_align t) (c_align_members ms)"

fun c_sizeof :: "c_type \<Rightarrow> nat" and c_end :: "nat \<Rightarrow> (string \<times> c_type) list \<Rightarrow> nat" where
  "c_sizeof (C_scalar n) = n"
| "c_sizeof (C_ptr t) = SIZEOF_PTR"
| "c_sizeof (C_array n t) = n * c_sizeof t"
| "c_sizeof (C_struct ms) = align_up (c_end 0 ms) (c_align_members ms)"
| "c_end n [] = n"
| "c_end n ((x, t) # ms) = c_end (align_up n (c_align t) + c_sizeof t) ms"

fun c_members :: "c_type \<Rightarrow> (string \<times> c_type) list" where
  "c_members (C_struct ms) = ms"
| "c_members t = []"

text \<open>\<open>offsetof\<close>, on a member list laid out from offset \<open>n\<close>.\<close>

fun c_offset :: "nat \<Rightarrow> (string \<times> c_type) list \<Rightarrow> string \<Rightarrow> nat" where
  "c_offset n [] m = 0"
| "c_offset n ((x, t) # ms) m =
     (let off = align_up n (c_align t) in if x = m then off else c_offset (off + c_sizeof t) ms m)"

definition offsetof :: "c_type \<Rightarrow> string \<Rightarrow> nat" where
  "offsetof st m = c_offset 0 (c_members st) m"

definition member_type :: "c_type \<Rightarrow> string \<Rightarrow> c_type" where
  "member_type st m = (case map_of (c_members st) m of Some t \<Rightarrow> t | None \<Rightarrow> C_scalar 0)"

fun c_elem :: "c_type \<Rightarrow> c_type" where
  "c_elem (C_ptr t) = t"
| "c_elem (C_array n t) = t"
| "c_elem t = t"

definition pb_membersize :: "c_type \<Rightarrow> string \<Rightarrow> nat" where
  "pb_membersize st m = c_sizeof (member_type st m)"

text \<open>\<open>pb_membersize(st, m[0])\<close>\<close>

definition pb_elemsize :: "c_type \<Rightarrow> string \<Rightarrow> nat" where
  "pb_elemsize st m = c_sizeof (c_elem (member_type st m))"

definition pb_arraysize :: "c_type \<Rightarrow> string \<Rightarrow> nat" where
  "pb_arraysize st m = pb_membersize st m div pb_elemsize st m"

definition pb_delta :: "c_type \<Rightarrow> string \<Rightarrow> string \<Rightarrow> int" where
  "pb_delta st m1 m2 = int (offsetof st m1) - int (offsetof st m2)"

text \<open>\<open>struct pb_bytes_array_s\<close>\<close>

definition pb_bytes_array_t :: c_type where
  "pb_bytes_array_t = C_struct [(''size'', C_scalar 4), (''bytes'', C_array 1 (C_scalar 1))]"

section \<open>The descriptor macros\<close>

datatype placement = FIRST | OTHER | UNION

fun PB_DATAOFFSET :: "placement \<Rightarrow> c_type \<Rightarrow> string \<Rightarrow> string \<Rightarrow> nat" where
  "PB_DATAOFFSET FIRST st m1 m2 = offsetof st m1"
| "PB_DATAOFFSET OTHER st m1 m2 = offsetof st m1 - offsetof st m2 - pb_membersize st m2"
| "PB_DATAOFFSET UNION st m1 m2 = PB_SIZE_MAX"

datatype rules = REQUIRED | OPTIONAL | SINGULAR | REPEATED
datatype allocation = STATIC | POINTER | CALLBACK

fun atype_of :: "allocation \<Rightarrow> pb_type" where
  "atype_of STATIC = PB_ATYPE_STATIC"
| "atype_of POINTER = PB_ATYPE_POINTER"
| "atype_of CALLBACK = PB_ATYPE_CALLBACK"

fun htype_of :: "rules \<Rightarrow> pb_type" where
  "htype_of REQUIRED = PB_HTYPE_REQUIRED"
| "htype_of OPTIONAL = PB_HTYPE_OPTIONAL"
| "htype_of SINGULAR = PB_HTYPE_OPTIONAL"
| "htype_of REPEATED = PB_HTYPE_REPEATED"

text \<open>\<open>PB_<rules>_<allocation>(tag, st, m, fd, ltype, ptr)\<close>: the delta to the \<open>has_\<close> or
  \<open>_count\<close> member, the size of an item and the number of items.\<close>

definition PB_RULES_ALLOCATION ::
    "rules \<Rightarrow> allocation \<Rightarrow> nat \<Rightarrow> c_type \<Rightarrow> string \<Rightarrow> nat \<Rightarrow> pb_type \<Rightarrow> pb_ptr \<Rightarrow> pb_field" where
  "PB_RULES_ALLOCATION r a t st m fd lt p =
     Pb_field t (atype_of a OR htype_of r OR lt) fd
       (case (r, a) of
          (OPTIONAL, STATIC) \<Rightarrow> pb_delta st (''has_'' @ m) m
        | (REPEATED, STATIC) \<Rightarrow> pb_delta st (m @ ''_count'') m
        | (REPEATED, POINTER) \<Rightarrow> pb_delta st (m @ ''_count'') m
        | _ \<Rightarrow> 0)
       (case (r, a) of
          (REPEATED, STATIC) \<Rightarrow> pb_elemsize st m
        | (_, POINTER) \<Rightarrow> pb_elemsize st m
        | _ \<Rightarrow> pb_membersize st m)
       (case (r, a) of (REPEATED, STATIC) \<Rightarrow> pb_arraysize st m | _ \<Rightarrow> 0)
       p"

datatype proto_type =
    BOOL | BYTES | DOUBLE | ENUM | UENUM | FIXED32 | FIXED64 | FLOAT | INT32 | INT64 | MESSAGE
  | SFIXED32 | SFIXED64 | SINT32 | SINT64 | STRING | UINT32 | UINT64 | EXTENSION
  | FIXED_LENGTH_BYTES

fun PB_LTYPE_MAP :: "proto_type \<Rightarrow> pb_type" where
  "PB_LTYPE_MAP BOOL = PB_LTYPE_VARINT"
| "PB_LTYPE_MAP BYTES = PB_LTYPE_BYTES"
| "PB_LTYPE_MAP DOUBLE = PB_LTYPE_FIXED64"
| "PB_LTYPE_MAP ENUM = PB_LTYPE_VARINT"
| "PB_LTYPE_MAP UENUM = PB_LTYPE_UVARINT"
| "PB_LTYPE_MAP FIXED32 = PB_LTYPE_FIXED32"
| "PB_LTYPE_MAP FIXED64 = PB_LTYPE_FIXED64"
| "PB_LTYPE_MAP FLOAT = PB_LTYPE_FIXED32"
| "PB_LTYPE_MAP INT32 = PB_LTYPE_VARINT"
| "PB_LTYPE_MAP INT64 = PB_LTYPE_VARINT"
| "PB_LTYPE_MAP MESSAGE = PB_LTYPE_SUBMESSAGE"
| "PB_LTYPE_MAP SFIXED32 = PB_LTYPE_FIXED32"
| "PB_LTYPE_MAP SFIXED64 = PB_LTYPE_FIXED64"
| "PB_LTYPE_MAP SINT32 = PB_LTYPE_SVARINT"
| "PB_LTYPE_MAP SINT64 = PB_LTYPE_SVARINT"
| "PB_LTYPE_MAP STRING = PB_LTYPE_STRING"
| "PB_LTYPE_MAP UINT32 = PB_LTYPE_UVARINT"
| "PB_LTYPE_MAP UINT64 = PB_LTYPE_UVARINT"
| "PB_LTYPE_MAP EXTENSION = PB_LTYPE_EXTENSION"
| "PB_LTYPE_MAP FIXED_LENGTH_BYTES = PB_LTYPE_FIXED_LENGTH_BYTES"

definition PB_FIELD ::
    "nat \<Rightarrow> proto_type \<Rightarrow> rules \<Rightarrow> allocation \<Rightarrow> placement \<Rightarrow> c_type \<Rightarrow> string \<Rightarrow> string \<Rightarrow> pb_ptr
     \<Rightarrow> pb_field" where
  "PB_FIELD t ty r a pl message field prevfield p =
     PB_RULES_ALLOCATION r a t message field (PB_DATAOFFSET pl message field prevfield)
       (PB_LTYPE_MAP ty) p"

definition PB_REPEATED_FIXED_COUNT ::
    "nat \<Rightarrow> proto_type \<Rightarrow> placement \<Rightarrow> c_type \<Rightarrow> string \<Rightarrow> string \<Rightarrow> pb_ptr \<Rightarrow> pb_field" where
  "PB_REPEATED_FIXED_COUNT t ty pl message field prevfield p =
     Pb_field t (PB_ATYPE_STATIC OR PB_HTYPE_REPEATED OR PB_LTYPE_MAP ty)
       (PB_DATAOFFSET pl message field prevfield) 0
       (pb_elemsize message field) (pb_arraysize message field) p"

section \<open>Wire types\<close>

text \<open>\<open>pb_wire_type_t\<close>; the decoder casts any three bits into it, so the other values exist.\<close>

definition PB_WT_VARINT :: uint32 where "PB_WT_VARINT = 0"
definition PB_WT_64BIT :: uint32 where "PB_WT_64BIT = 1"
definition PB_WT_STRING :: uint32 where "PB_WT_STRING = 2"
definition PB_WT_32BIT :: uint32 where "PB_WT_32BIT = 5"

lemmas wt_defs = PB_WT_VARINT_def PB_WT_64BIT_def PB_WT_STRING_def PB_WT_32BIT_def

end
