(* ===== verification/Nanopb_Ostream.thy ===== *)
theory Nanopb_Ostream
  imports Nanopb_Types
begin

text \<open>
  \<open>pb_ostream_t\<close> and the wire-level encoders of \<open>pb_encode.c\<close>: \<open>pb_write\<close>, varints, zig-zag
  varints, fixed-width values, tags and length-prefixed strings. The contract \<open>emits f bs\<close>
  says what an encoder \<open>f\<close> that appends the bytes \<open>bs\<close> does to every stream: a sizing stream
  counts them, a memory stream stores them or refuses without passing its limit.
\<close>

section \<open>Streams\<close>

text \<open>
  The write callback: \<open>NULL\<close> (a sizing stream), \<open>buf_write\<close>, or a function of the library
  user, which maps the state and the bytes to a status and a new state. The state of a memory
  stream is the list of the bytes stored so far, that is, what lies between the start of the
  buffer and \<open>stream->state\<close>.
\<close>

datatype ocallback = No_write | Buf_write | User_write "byte list \<Rightarrow> byte list \<Rightarrow> bool \<times> byte list"

record pb_ostream =
  ocallback :: ocallback
  ostate :: "byte list"
  max_size :: nat
  bytes_written :: nat
  oerrmsg :: "string option"

definition oset_error :: "string \<Rightarrow> pb_ostream \<Rightarrow> pb_ostream" where
  "oset_error msg st =
     st\<lparr>oerrmsg := (case oerrmsg st of Some e \<Rightarrow> Some e | None \<Rightarrow> Some msg)\<rparr>"

definition PB_OSTREAM_SIZING :: pb_ostream where
  "PB_OSTREAM_SIZING =
     \<lparr>ocallback = No_write, ostate = [], max_size = 0, bytes_written = 0, oerrmsg = None\<rparr>"

text \<open>\<open>buf\<close> holds the bytes at the source pointer; reading past them is undefined.\<close>

definition buf_write :: "pb_ostream \<Rightarrow> byte list \<Rightarrow> nat \<Rightarrow> (pb_ostream, unit) res" where
  "buf_write st buf count =
     (if count \<le> length buf then Ret () (st\<lparr>ostate := ostate st @ take count buf\<rparr>) else Undef)"

definition pb_ostream_from_buffer :: "nat \<Rightarrow> pb_ostream" where
  "pb_ostream_from_buffer bufsize =
     \<lparr>ocallback = Buf_write, ostate = [], max_size = bufsize, bytes_written = 0, oerrmsg = None\<rparr>"

definition run_ocallback :: "pb_ostream \<Rightarrow> byte list \<Rightarrow> nat \<Rightarrow> (pb_ostream, unit) res" where
  "run_ocallback st buf count =
     (case ocallback st of
        No_write \<Rightarrow> Undef
      | Buf_write \<Rightarrow> buf_write st buf count
      | User_write f \<Rightarrow>
          (if count \<le> length buf then
             (case f (ostate st) (take count buf) of
                (ok, s) \<Rightarrow> if ok then Ret () (st\<lparr>ostate := s\<rparr>) else Fail (st\<lparr>ostate := s\<rparr>))
           else Undef))"

definition add_written :: "nat \<Rightarrow> pb_ostream \<Rightarrow> pb_ostream" where
  "add_written count st = st\<lparr>bytes_written := size_add (bytes_written st) count\<rparr>"

fun pb_write_guarded :: "pb_ostream \<Rightarrow> byte list \<Rightarrow> nat \<Rightarrow> (pb_ostream, unit) res" where
  "pb_write_guarded st buf count =
     (if max_size st < size_add (bytes_written st) count
      then Fail (oset_error ''stream full'' st)
      else (case run_ocallback st buf count of
              Undef \<Rightarrow> Undef
            | Fail st' \<Rightarrow> Fail (oset_error ''io error'' st')
            | Ret _ st' \<Rightarrow> Ret () (add_written count st')))"

definition pb_write :: "pb_ostream \<Rightarrow> byte list \<Rightarrow> nat \<Rightarrow> (pb_ostream, unit) res" where
  "pb_write st buf count =
     (case ocallback st of
        No_write \<Rightarrow> Ret () (add_written count st)
      | _ \<Rightarrow> pb_write_guarded st buf count)"

section \<open>Wire-level encoders\<close>

text \<open>The loop of \<open>pb_encode_varint\<close> that fills \<open>buffer\<close>.\<close>

function varint_loop :: "uint64 \<Rightarrow> byte list" where
  "varint_loop v =
     (if v = 0 then [] else ucast ((v AND 0x7F) OR 0x80) # varint_loop (drop_bit 7 v))"
  by pat_completeness auto
termination
  by (relation "measure unat") (simp_all add: drop_bit_less_unat)

declare varint_loop.simps [simp del]

text \<open>\<open>buffer\<close> has ten entries: filling more is undefined.\<close>

definition pb_encode_varint :: "pb_ostream \<Rightarrow> uint64 \<Rightarrow> (pb_ostream, unit) res" where
  "pb_encode_varint st v =
     (if v \<le> 0x7F then pb_write st [ucast v] 1
      else (let buffer = varint_loop v; i = length buffer
            in if 10 < i then Undef
               else pb_write st (buffer[i - 1 := (buffer ! (i - 1)) AND 0x7F]) i))"

definition pb_encode_svarint :: "pb_ostream \<Rightarrow> uint64 \<Rightarrow> (pb_ostream, unit) res" where
  "pb_encode_svarint st v =
     (let zigzagged = (if sint v < 0 then NOT (push_bit 1 v) else push_bit 1 v)
      in pb_encode_varint st zigzagged)"

definition pb_encode_fixed32 :: "pb_ostream \<Rightarrow> uint32 \<Rightarrow> (pb_ostream, unit) res" where
  "pb_encode_fixed32 st val =
     pb_write st
       [ucast (val AND 0xFF), ucast (drop_bit 8 val AND 0xFF), ucast (drop_bit 16 val AND 0xFF),
        ucast (drop_bit 24 val AND 0xFF)] 4"

definition pb_encode_fixed64 :: "pb_ostream \<Rightarrow> uint64 \<Rightarrow> (pb_ostream, unit) res" where
  "pb_encode_fixed64 st val =
     pb_write st
       [ucast (val AND 0xFF), ucast (drop_bit 8 val AND 0xFF), ucast (drop_bit 16 val AND 0xFF),
        ucast (drop_bit 24 val AND 0xFF), ucast (drop_bit 32 val AND 0xFF),
        ucast (drop_bit 40 val AND 0xFF), ucast (drop_bit 48 val AND 0xFF),
        ucast (drop_bit 56 val AND 0xFF)] 8"

definition pb_encode_tag :: "pb_ostream \<Rightarrow> uint32 \<Rightarrow> uint32 \<Rightarrow> (pb_ostream, unit) res" where
  "pb_encode_tag st wiretype field_number =
     pb_encode_varint st (push_bit 3 (ucast field_number) OR ucast wiretype)"

definition pb_encode_tag_for_field :: "pb_ostream \<Rightarrow> pb_field \<Rightarrow> (pb_ostream, unit) res" where
  "pb_encode_tag_for_field st field =
     (let lt = ltype field; t = of_nat (tag field)
      in if lt = PB_LTYPE_VARINT \<or> lt = PB_LTYPE_UVARINT \<or> lt = PB_LTYPE_SVARINT
         then pb_encode_tag st PB_WT_VARINT t
         else if lt = PB_LTYPE_FIXED32 then pb_encode_tag st PB_WT_32BIT t
         else if lt = PB_LTYPE_FIXED64 then pb_encode_tag st PB_WT_64BIT t
         else if lt = PB_LTYPE_BYTES \<or> lt = PB_LTYPE_STRING \<or> lt = PB_LTYPE_SUBMESSAGE
                 \<or> lt = PB_LTYPE_FIXED_LENGTH_BYTES
         then pb_encode_tag st PB_WT_STRING t
         else Fail (oset_error ''invalid field type'' st))"

text \<open>\<open>buffer\<close> holds the bytes at the source pointer, \<open>[]\<close> for \<open>NULL\<close>.\<close>

definition pb_encode_string :: "pb_ostream \<Rightarrow> byte list \<Rightarrow> nat \<Rightarrow> (pb_ostream, unit) res" where
  "pb_encode_string st buffer n =
     rbind (pb_encode_varint st (of_nat n)) (\<lambda>_ st. pb_write st buffer n)"

section \<open>The contract of an encoder\<close>

definition room_for :: "pb_ostream \<Rightarrow> nat \<Rightarrow> bool" where
  "room_for st n \<longleftrightarrow>
     bytes_written st \<le> max_size st \<and> max_size st + n < SIZE_MODULUS \<and> oerrmsg st = None"

definition appended :: "byte list \<Rightarrow> pb_ostream \<Rightarrow> pb_ostream" where
  "appended bs st = st\<lparr>ostate := ostate st @ bs, bytes_written := bytes_written st + length bs\<rparr>"

text \<open>A refusal for lack of room: a prefix of the bytes is stored, within the limit.\<close>

definition overflows :: "byte list \<Rightarrow> pb_ostream \<Rightarrow> (pb_ostream, unit) res \<Rightarrow> bool" where
  "overflows bs st r \<longleftrightarrow>
     (\<exists>k e. k \<le> length bs \<and> bytes_written st + k \<le> max_size st \<and>
            r = Fail ((appended (take k bs) st)\<lparr>oerrmsg := Some e\<rparr>))"

definition emits :: "(pb_ostream \<Rightarrow> (pb_ostream, unit) res) \<Rightarrow> byte list \<Rightarrow> bool" where
  "emits f bs \<longleftrightarrow>
     (\<forall>st. ocallback st = No_write \<and> bytes_written st < SIZE_MODULUS \<and> oerrmsg st = None
           \<longrightarrow> f st = Ret () (add_written (length bs) st)) \<and>
     (\<forall>st. ocallback st = Buf_write \<and> room_for st (length bs)
           \<longrightarrow> (if bytes_written st + length bs \<le> max_size st
                then f st = Ret () (appended bs st)
                else overflows bs st (f st)))"

lemma emitsI:
  assumes "\<And>st. ocallback st = No_write \<Longrightarrow> bytes_written st < SIZE_MODULUS \<Longrightarrow> oerrmsg st = None
             \<Longrightarrow> f st = Ret () (add_written (length bs) st)"
    and "\<And>st. ocallback st = Buf_write \<Longrightarrow> room_for st (length bs)
             \<Longrightarrow> bytes_written st + length bs \<le> max_size st \<Longrightarrow> f st = Ret () (appended bs st)"
    and "\<And>st. ocallback st = Buf_write \<Longrightarrow> room_for st (length bs)
             \<Longrightarrow> max_size st < bytes_written st + length bs \<Longrightarrow> overflows bs st (f st)"
  shows "emits f bs"
  using assms by (simp add: emits_def not_le)

lemma emits_sizing:
  "emits f bs \<Longrightarrow> ocallback st = No_write \<Longrightarrow> bytes_written st < SIZE_MODULUS \<Longrightarrow> oerrmsg st = None
   \<Longrightarrow> f st = Ret () (add_written (length bs) st)"
  by (simp add: emits_def)

lemma emits_stores:
  "emits f bs \<Longrightarrow> ocallback st = Buf_write \<Longrightarrow> room_for st (length bs)
   \<Longrightarrow> bytes_written st + length bs \<le> max_size st \<Longrightarrow> f st = Ret () (appended bs st)"
  by (simp add: emits_def)

lemma emits_overflows:
  "emits f bs \<Longrightarrow> ocallback st = Buf_write \<Longrightarrow> room_for st (length bs)
   \<Longrightarrow> max_size st < bytes_written st + length bs \<Longrightarrow> overflows bs st (f st)"
  by (simp add: emits_def)

lemma appended_sel [simp]:
  "ocallback (appended bs st) = ocallback st"
  "ostate (appended bs st) = ostate st @ bs"
  "max_size (appended bs st) = max_size st"
  "bytes_written (appended bs st) = bytes_written st + length bs"
  "oerrmsg (appended bs st) = oerrmsg st"
  by (simp_all add: appended_def)

lemma appended_Nil [simp]: "appended [] st = st"
  by (simp add: appended_def)

lemma appended_appended [simp]: "appended cs (appended bs st) = appended (bs @ cs) st"
  by (simp add: appended_def)

lemma add_written_sel [simp]:
  "ocallback (add_written n st) = ocallback st"
  "ostate (add_written n st) = ostate st"
  "max_size (add_written n st) = max_size st"
  "bytes_written (add_written n st) = size_add (bytes_written st) n"
  "oerrmsg (add_written n st) = oerrmsg st"
  by (simp_all add: add_written_def)

lemma add_written_add_written [simp]:
  "add_written b (add_written a st) = add_written (a + b) st"
  by (simp add: add_written_def size_add_assoc)

lemma add_written_0: "bytes_written st < SIZE_MODULUS \<Longrightarrow> add_written 0 st = st"
  by (simp add: add_written_def)

text \<open>Encoding nothing, and encoding one thing after another.\<close>

lemma emits_Nil [intro]: "emits (\<lambda>st. Ret () st) []"
  by (rule emitsI) (simp_all add: add_written_0 room_for_def)

lemma overflows_first:
  assumes "overflows bs st r"
  shows "overflows (bs @ cs) st (rbind r g)"
proof -
  from assms obtain k e where "k \<le> length bs" "bytes_written st + k \<le> max_size st"
    and "r = Fail ((appended (take k bs) st)\<lparr>oerrmsg := Some e\<rparr>)"
    by (auto simp: overflows_def)
  then show ?thesis
    unfolding overflows_def by (intro exI [of _ k] exI [of _ e]) simp
qed

lemma overflows_second:
  assumes "bytes_written st + length bs \<le> max_size st" and "overflows cs (appended bs st) r"
  shows "overflows (bs @ cs) st r"
proof -
  from assms(2) obtain k e where "k \<le> length cs" "bytes_written st + length bs + k \<le> max_size st"
    and "r = Fail ((appended (take k cs) (appended bs st))\<lparr>oerrmsg := Some e\<rparr>)"
    by (auto simp: overflows_def)
  then show ?thesis
    unfolding overflows_def by (intro exI [of _ "length bs + k"] exI [of _ e]) simp
qed

lemma emits_seq:
  assumes f: "emits f bs" and g: "emits g cs"
  shows "emits (\<lambda>st. rbind (f st) (\<lambda>_ st. g st)) (bs @ cs)"
proof (rule emitsI)
  fix st :: pb_ostream assume st: "ocallback st = No_write" "bytes_written st < SIZE_MODULUS" "oerrmsg st = None"
  show "rbind (f st) (\<lambda>_ st. g st) = Ret () (add_written (length (bs @ cs)) st)"
    by (simp add: emits_sizing [OF f st] emits_sizing [OF g] st size_add_lt)
next
  fix st :: pb_ostream assume st: "ocallback st = Buf_write" "room_for st (length (bs @ cs))"
    "bytes_written st + length (bs @ cs) \<le> max_size st"
  then have "f st = Ret () (appended bs st)"
    by (intro emits_stores [OF f]) (auto simp: room_for_def)
  moreover from st have "g (appended bs st) = Ret () (appended cs (appended bs st))"
    by (intro emits_stores [OF g]) (auto simp: room_for_def)
  ultimately show "rbind (f st) (\<lambda>_ st. g st) = Ret () (appended (bs @ cs) st)" by simp
next
  fix st :: pb_ostream assume st: "ocallback st = Buf_write" "room_for st (length (bs @ cs))"
    "max_size st < bytes_written st + length (bs @ cs)"
  show "overflows (bs @ cs) st (rbind (f st) (\<lambda>_ st. g st))"
  proof (cases "bytes_written st + length bs \<le> max_size st")
    case True
    with st have "f st = Ret () (appended bs st)"
      by (intro emits_stores [OF f]) (auto simp: room_for_def)
    moreover from st True have "overflows cs (appended bs st) (g (appended bs st))"
      by (intro emits_overflows [OF g]) (auto simp: room_for_def)
    ultimately show ?thesis using True by (simp add: overflows_second)
  next
    case False
    with st have "overflows bs st (f st)"
      by (intro emits_overflows [OF f]) (auto simp: room_for_def)
    then show ?thesis by (rule overflows_first)
  qed
qed

text \<open>\<open>pb_write\<close> is the encoder of its own bytes.\<close>

lemma pb_write_emits:
  assumes "length bs = n"
  shows "emits (\<lambda>st. pb_write st bs n) bs"
proof (rule emitsI)
  fix st :: pb_ostream assume "ocallback st = No_write"
  then show "pb_write st bs n = Ret () (add_written (length bs) st)"
    by (simp add: pb_write_def assms)
next
  fix st :: pb_ostream assume st: "ocallback st = Buf_write" "room_for st (length bs)"
    "bytes_written st + length bs \<le> max_size st"
  then have "size_add (bytes_written st) n = bytes_written st + n"
    by (intro size_add_exact) (simp add: room_for_def assms)
  with st show "pb_write st bs n = Ret () (appended bs st)"
    by (simp add: pb_write_def run_ocallback_def buf_write_def add_written_def appended_def assms
          flip: assms)
next
  fix st :: pb_ostream assume st: "ocallback st = Buf_write" "room_for st (length bs)"
    "max_size st < bytes_written st + length bs"
  then have "size_add (bytes_written st) n = bytes_written st + n"
    by (intro size_add_exact) (simp add: room_for_def assms)
  with st have "pb_write st bs n = Fail (st\<lparr>oerrmsg := Some ''stream full''\<rparr>)"
    by (simp add: pb_write_def oset_error_def room_for_def assms)
  with st show "overflows bs st (pb_write st bs n)"
    unfolding overflows_def by (intro exI [of _ 0]) (auto simp: room_for_def)
qed

end
