(* ===== verification/Nanopb_Istream.thy ===== *)
theory Nanopb_Istream
  imports Nanopb_Types
begin

text \<open>
  \<open>pb_istream_t\<close> and the wire-level decoders of \<open>pb_decode.c\<close>: \<open>pb_read\<close>, varints (the 64-bit
  and the 32-bit reader), zig-zag and fixed-width values, tags, skipping, raw values and the
  length-limited substreams.
\<close>

section \<open>Streams\<close>

text \<open>
  The read callback: \<open>buf_read\<close> or a function of the library user, which maps the state and a
  count to the bytes (\<open>None\<close>: failure) and a new state. The state of a memory stream is the list
  of the bytes of the buffer at and after \<open>stream->state\<close>. \<open>bytes_left\<close> is only compared,
  decremented after a check and set from a 32-bit value, so it never wraps and is a \<open>nat\<close>.
\<close>

datatype icallback = Buf_read | User_read "byte list \<Rightarrow> nat \<Rightarrow> byte list option \<times> byte list"

record pb_istream =
  icallback :: icallback
  istate :: "byte list"
  bytes_left :: nat
  ierrmsg :: "string option"

definition iset_error :: "string \<Rightarrow> pb_istream \<Rightarrow> pb_istream" where
  "iset_error msg st =
     st\<lparr>ierrmsg := (case ierrmsg st of Some e \<Rightarrow> Some e | None \<Rightarrow> Some msg)\<rparr>"

text \<open>Reading past the buffer is undefined.\<close>

definition buf_read :: "pb_istream \<Rightarrow> nat \<Rightarrow> (pb_istream, byte list) res" where
  "buf_read st count =
     (if count \<le> length (istate st)
      then Ret (take count (istate st)) (st\<lparr>istate := drop count (istate st)\<rparr>)
      else Undef)"

definition run_icallback :: "pb_istream \<Rightarrow> nat \<Rightarrow> (pb_istream, byte list) res" where
  "run_icallback st count =
     (case icallback st of
        Buf_read \<Rightarrow> buf_read st count
      | User_read f \<Rightarrow>
          (case f (istate st) count of
             (None, s) \<Rightarrow> Fail (st\<lparr>istate := s\<rparr>)
           | (Some bs, s) \<Rightarrow>
               if length bs = count then Ret bs (st\<lparr>istate := s\<rparr>) else Undef))"

text \<open>\<open>pb_read\<close> with a destination: the bytes are returned for the caller to store.\<close>

definition pb_read_buf :: "pb_istream \<Rightarrow> nat \<Rightarrow> (pb_istream, byte list) res" where
  "pb_read_buf st count =
     (if bytes_left st < count then Fail (iset_error ''end-of-stream'' st)
      else (case run_icallback st count of
              Undef \<Rightarrow> Undef
            | Fail st' \<Rightarrow> Fail (iset_error ''io error'' st')
            | Ret bs st' \<Rightarrow> Ret bs (st'\<lparr>bytes_left := bytes_left st' - count\<rparr>)))"

text \<open>\<open>pb_read\<close> with \<open>buf == NULL\<close> on a stream of the user skips in blocks of 16.\<close>

fun pb_skip_blocks :: "pb_istream \<Rightarrow> nat \<Rightarrow> (pb_istream, unit) res" where
  "pb_skip_blocks st count =
     (if 16 < count
      then rbind (pb_read_buf st 16) (\<lambda>_ st. pb_skip_blocks st (count - 16))
      else rbind (pb_read_buf st count) (\<lambda>_ st. Ret () st))"

declare pb_skip_blocks.simps [simp del]

definition pb_read_null :: "pb_istream \<Rightarrow> nat \<Rightarrow> (pb_istream, unit) res" where
  "pb_read_null st count =
     (case icallback st of
        Buf_read \<Rightarrow> rbind (pb_read_buf st count) (\<lambda>_ st. Ret () st)
      | User_read _ \<Rightarrow> pb_skip_blocks st count)"

definition pb_readbyte :: "pb_istream \<Rightarrow> (pb_istream, byte) res" where
  "pb_readbyte st =
     (if bytes_left st = 0 then Fail (iset_error ''end-of-stream'' st)
      else (case run_icallback st 1 of
              Undef \<Rightarrow> Undef
            | Fail st' \<Rightarrow> Fail (iset_error ''io error'' st')
            | Ret bs st' \<Rightarrow> Ret (hd bs) (st'\<lparr>bytes_left := bytes_left st' - 1\<rparr>)))"

definition pb_istream_from_buffer :: "byte list \<Rightarrow> nat \<Rightarrow> pb_istream" where
  "pb_istream_from_buffer buf bufsize =
     \<lparr>icallback = Buf_read, istate = buf, bytes_left = bufsize, ierrmsg = None\<rparr>"

lemma run_icallback_bytes_left:
  "run_icallback st n = Ret bs st' \<Longrightarrow> bytes_left st' = bytes_left st"
  by (auto simp: run_icallback_def buf_read_def split: icallback.splits option.splits if_splits
        prod.splits)

lemma pb_readbyte_bytes_left:
  assumes "pb_readbyte st = Ret b st'"
  shows "0 < bytes_left st \<and> bytes_left st' = bytes_left st - 1"
  using assms run_icallback_bytes_left
  by (fastforce simp: pb_readbyte_def split: if_splits res.splits)

lemma pb_read_buf_bytes_left:
  assumes "pb_read_buf st n = Ret bs st'"
  shows "n \<le> bytes_left st \<and> bytes_left st' = bytes_left st - n"
  using assms run_icallback_bytes_left
  by (fastforce simp: pb_read_buf_def split: if_splits res.splits)

section \<open>Varints\<close>

text \<open>The loop of \<open>pb_decode_varint32_eof\<close> after a first byte with its top bit set.
  \<open>bitpos\<close> is a \<open>uint_fast8_t\<close>, one byte on the target: it wraps at 256.\<close>

function varint32_loop :: "nat \<Rightarrow> uint32 \<Rightarrow> pb_istream \<Rightarrow> (pb_istream, uint32) res" where
  "varint32_loop bitpos result st =
     (case pb_readbyte st of
        Undef \<Rightarrow> Undef
      | Fail st' \<Rightarrow> Fail st'
      | Ret byte st' \<Rightarrow>
          (let sign_extension = (if bitpos < 63 then 0xFF else 0x01) :: byte;
               bad = 32 \<le> bitpos \<and> byte AND 0x7F \<noteq> 0
                     \<and> (drop_bit 31 result = 0 \<or> byte \<noteq> sign_extension);
               result' = (if 32 \<le> bitpos then result
                          else result OR push_bit bitpos (ucast (byte AND 0x7F)));
               bitpos' = (bitpos + 7) mod 256
           in if bad then Fail (iset_error ''varint overflow'' st')
              else if byte AND 0x80 \<noteq> 0 then varint32_loop bitpos' result' st'
              else if bitpos' = 35 \<and> byte AND 0x70 \<noteq> 0
              then Fail (iset_error ''varint overflow'' st')
              else Ret result' st'))"
  by pat_completeness auto
termination
  by (relation "measure (\<lambda>(_, _, st). bytes_left st)") (auto dest!: pb_readbyte_bytes_left)

declare varint32_loop.simps [simp del]

text \<open>The second component is the value stored through \<open>eof\<close> (\<open>False\<close>: left as it was).\<close>

definition pb_decode_varint32_eof :: "pb_istream \<Rightarrow> (pb_istream, uint32) res \<times> bool" where
  "pb_decode_varint32_eof st =
     (case pb_readbyte st of
        Undef \<Rightarrow> (Undef, False)
      | Fail st' \<Rightarrow> (Fail st', bytes_left st' = 0)
      | Ret byte st' \<Rightarrow>
          (if byte AND 0x80 = 0 then Ret (ucast byte) st'
           else varint32_loop 7 (ucast (byte AND 0x7F)) st', False))"

definition pb_decode_varint32 :: "pb_istream \<Rightarrow> (pb_istream, uint32) res" where
  "pb_decode_varint32 st = fst (pb_decode_varint32_eof st)"

function varint64_loop :: "nat \<Rightarrow> uint64 \<Rightarrow> pb_istream \<Rightarrow> (pb_istream, uint64) res" where
  "varint64_loop bitpos result st =
     (if 64 \<le> bitpos then Fail (iset_error ''varint overflow'' st)
      else (case pb_readbyte st of
              Undef \<Rightarrow> Undef
            | Fail st' \<Rightarrow> Fail st'
            | Ret byte st' \<Rightarrow>
                (let result' = result OR push_bit bitpos (ucast (byte AND 0x7F));
                     bitpos' = (bitpos + 7) mod 256
                 in if byte AND 0x80 \<noteq> 0 then varint64_loop bitpos' result' st'
                    else Ret result' st')))"
  by pat_completeness auto
termination
  by (relation "measure (\<lambda>(_, _, st). bytes_left st)") (auto dest!: pb_readbyte_bytes_left)

declare varint64_loop.simps [simp del]

definition pb_decode_varint :: "pb_istream \<Rightarrow> (pb_istream, uint64) res" where
  "pb_decode_varint st = varint64_loop 0 0 st"

section \<open>Skipping, tags, raw values\<close>

function pb_skip_varint :: "pb_istream \<Rightarrow> (pb_istream, unit) res" where
  "pb_skip_varint st =
     (case pb_read_buf st 1 of
        Undef \<Rightarrow> Undef
      | Fail st' \<Rightarrow> Fail st'
      | Ret bs st' \<Rightarrow> if hd bs AND 0x80 \<noteq> 0 then pb_skip_varint st' else Ret () st')"
  by pat_completeness auto
termination
  by (relation "measure bytes_left") (auto dest!: pb_read_buf_bytes_left)

declare pb_skip_varint.simps [simp del]

definition pb_skip_string :: "pb_istream \<Rightarrow> (pb_istream, unit) res" where
  "pb_skip_string st =
     rbind (pb_decode_varint32 st) (\<lambda>len st. pb_read_null st (unat len))"

text \<open>\<open>pb_decode_tag\<close> stores the wire type and the tag; the second component is \<open>*eof\<close>.\<close>

definition pb_decode_tag :: "pb_istream \<Rightarrow> (pb_istream, uint32 \<times> uint32) res \<times> bool" where
  "pb_decode_tag st =
     (case pb_decode_varint32_eof st of
        (Undef, eof) \<Rightarrow> (Undef, eof)
      | (Fail st', eof) \<Rightarrow> (Fail st', eof)
      | (Ret temp st', eof) \<Rightarrow>
          if temp = 0 then (Fail st', True)
          else (Ret (temp AND 7, drop_bit 3 temp) st', eof))"

definition pb_skip_field :: "pb_istream \<Rightarrow> uint32 \<Rightarrow> (pb_istream, unit) res" where
  "pb_skip_field st wire_type =
     (if wire_type = PB_WT_VARINT then pb_skip_varint st
      else if wire_type = PB_WT_64BIT then pb_read_null st 8
      else if wire_type = PB_WT_STRING then pb_skip_string st
      else if wire_type = PB_WT_32BIT then pb_read_null st 4
      else Fail (iset_error ''invalid wire_type'' st))"

text \<open>The varint case of \<open>read_raw_value\<close>: \<open>n\<close> bytes of room are left in \<open>buf\<close>. The result is
  the bytes stored, whose number is the new \<open>*size\<close>.\<close>

fun read_raw_varint :: "nat \<Rightarrow> pb_istream \<Rightarrow> (pb_istream, byte list) res" where
  "read_raw_varint 0 st = Fail st"
| "read_raw_varint (Suc n) st =
     rbind (pb_read_buf st 1) (\<lambda>bs st.
       if hd bs AND 0x80 \<noteq> 0
       then rbind (read_raw_varint n st) (\<lambda>cs st. Ret (hd bs # cs) st)
       else Ret [hd bs] st)"

definition read_raw_value :: "pb_istream \<Rightarrow> uint32 \<Rightarrow> nat \<Rightarrow> (pb_istream, byte list) res" where
  "read_raw_value st wire_type maxsize =
     (if wire_type = PB_WT_VARINT then read_raw_varint maxsize st
      else if wire_type = PB_WT_64BIT then pb_read_buf st 8
      else if wire_type = PB_WT_32BIT then pb_read_buf st 4
      else Fail (iset_error ''invalid wire_type'' st))"

section \<open>Substreams\<close>

text \<open>Returns the substream; the state is the parent stream.\<close>

definition pb_make_string_substream :: "pb_istream \<Rightarrow> (pb_istream, pb_istream) res" where
  "pb_make_string_substream st =
     rbind (pb_decode_varint32 st) (\<lambda>sz st.
       let substream = st; n = unat sz
       in if bytes_left substream < n
          then Fail (iset_error ''parent stream too short'' st)
          else Ret (substream\<lparr>bytes_left := n\<rparr>) (st\<lparr>bytes_left := bytes_left st - n\<rparr>))"

definition pb_close_string_substream ::
    "pb_istream \<Rightarrow> pb_istream \<Rightarrow> (pb_istream, unit) res" where
  "pb_close_string_substream st substream =
     (case (if bytes_left substream \<noteq> 0 then pb_read_null substream (bytes_left substream)
            else Ret () substream) of
        Undef \<Rightarrow> Undef
      | Fail _ \<Rightarrow> Fail st
      | Ret _ sub \<Rightarrow> Ret () (st\<lparr>istate := istate sub, ierrmsg := ierrmsg sub\<rparr>))"

section \<open>Zig-zag and fixed-width values\<close>

definition pb_decode_svarint :: "pb_istream \<Rightarrow> (pb_istream, uint64) res" where
  "pb_decode_svarint st =
     rbind (pb_decode_varint st) (\<lambda>value st.
       Ret (if value AND 1 \<noteq> 0 then NOT (drop_bit 1 value) else drop_bit 1 value) st)"

definition pb_decode_fixed32 :: "pb_istream \<Rightarrow> (pb_istream, uint32) res" where
  "pb_decode_fixed32 st =
     rbind (pb_read_buf st 4) (\<lambda>bytes st.
       Ret (push_bit 0 (ucast (bytes ! 0)) OR push_bit 8 (ucast (bytes ! 1))
            OR push_bit 16 (ucast (bytes ! 2)) OR push_bit 24 (ucast (bytes ! 3))) st)"

definition pb_decode_fixed64 :: "pb_istream \<Rightarrow> (pb_istream, uint64) res" where
  "pb_decode_fixed64 st =
     rbind (pb_read_buf st 8) (\<lambda>bytes st.
       Ret (push_bit 0 (ucast (bytes ! 0)) OR push_bit 8 (ucast (bytes ! 1))
            OR push_bit 16 (ucast (bytes ! 2)) OR push_bit 24 (ucast (bytes ! 3))
            OR push_bit 32 (ucast (bytes ! 4)) OR push_bit 40 (ucast (bytes ! 5))
            OR push_bit 48 (ucast (bytes ! 6)) OR push_bit 56 (ucast (bytes ! 7))) st)"

end
