(* ===== verification/Nanopb_Iter.thy ===== *)
theory Nanopb_Iter
  imports Nanopb_Types
begin

text \<open>
  The field iterator of \<open>pb_common.c\<close>: it walks a descriptor array and keeps the addresses of the
  current field and of its count or \<open>has_\<close> member. A pointer into a descriptor array is the
  array together with an index, so comparing positions compares indices.
\<close>

section \<open>The iterator\<close>

record pb_field_iter =
  start :: "pb_field list"
  pos :: nat
  required_field_index :: nat
  dest_struct :: addr
  pData :: addr
  pSize :: addr

text \<open>Every descriptor array ends with \<open>PB_LAST_FIELD\<close>.\<close>

definition field_at :: "pb_field list \<Rightarrow> nat \<Rightarrow> pb_field" where
  "field_at fs i = (if i < length fs then fs ! i else PB_LAST_FIELD)"

text \<open>\<open>*iter->pos\<close>\<close>

definition cur :: "pb_field_iter \<Rightarrow> pb_field" where
  "cur it = field_at (start it) (pos it)"

definition pb_field_iter_begin :: "pb_field list \<Rightarrow> addr \<Rightarrow> bool \<times> pb_field_iter" where
  "pb_field_iter_begin fs dest =
     (let f = field_at fs 0; pd = dest + int (data_offset f)
      in (tag f \<noteq> 0,
          \<lparr>start = fs, pos = 0, required_field_index = 0, dest_struct = dest,
           pData = pd, pSize = pd + size_offset f\<rparr>))"

text \<open>The space the previous field takes in the structure.\<close>

definition prev_size :: "pb_field \<Rightarrow> nat" where
  "prev_size prev =
     (if atype prev = PB_ATYPE_STATIC \<and> htype prev = PB_HTYPE_REPEATED
      then data_size prev * array_size prev
      else if atype prev = PB_ATYPE_POINTER then SIZEOF_PTR
      else data_size prev)"

definition pb_field_iter_next :: "pb_field_iter \<Rightarrow> bool \<times> pb_field_iter" where
  "pb_field_iter_next it =
     (let prev = cur it; nxt = field_at (start it) (pos it + 1)
      in if tag prev = 0 then (False, it)
         else if tag nxt = 0 then (False, snd (pb_field_iter_begin (start it) (dest_struct it)))
         else if htype prev = PB_HTYPE_ONEOF \<and> htype nxt = PB_HTYPE_ONEOF
                 \<and> data_offset nxt = PB_SIZE_MAX
         then (True, it\<lparr>pos := pos it + 1\<rparr>)
         else (let pd = pData it + int (prev_size prev) + int (data_offset nxt)
               in (True, it\<lparr>pos := pos it + 1,
                            required_field_index :=
                              (if htype prev = PB_HTYPE_REQUIRED
                               then required_field_index it + 1 else required_field_index it),
                            pData := pd, pSize := pd + size_offset nxt\<rparr>)))"

text \<open>
  The searches \<open>do { if (found) return true; next } while (iter->pos != start)\<close> of
  \<open>pb_field_iter_find\<close> and \<open>find_extension_field\<close>. They stop when the iterator is back at
  \<open>start\<close>, at most one round; the first argument counts the steps of that round.
\<close>

fun iter_search :: "nat \<Rightarrow> (pb_field \<Rightarrow> bool) \<Rightarrow> nat \<Rightarrow> pb_field_iter \<Rightarrow> bool \<times> pb_field_iter" where
  "iter_search 0 found s it = (False, it)"
| "iter_search (Suc n) found s it =
     (if found (cur it) then (True, it)
      else (let it' = snd (pb_field_iter_next it)
            in if pos it' = s then (False, it') else iter_search n found s it'))"

definition pb_field_iter_find :: "pb_field_iter \<Rightarrow> nat \<Rightarrow> bool \<times> pb_field_iter" where
  "pb_field_iter_find it t =
     iter_search (length (start it)) (\<lambda>f. tag f = t \<and> ltype f \<noteq> PB_LTYPE_EXTENSION) (pos it) it"

definition find_extension_field :: "pb_field_iter \<Rightarrow> bool \<times> pb_field_iter" where
  "find_extension_field it =
     iter_search (length (start it)) (\<lambda>f. ltype f = PB_LTYPE_EXTENSION) (pos it) it"

text \<open>\<open>do { body } while (pb_field_iter_next(&iter))\<close>\<close>

lemma field_at_tag: "tag (field_at fs i) \<noteq> 0 \<Longrightarrow> i < length fs"
  by (auto simp: field_at_def split: if_splits)

lemma pb_field_iter_next_pos:
  assumes "fst (pb_field_iter_next it)"
  shows "pos (snd (pb_field_iter_next it)) = pos it + 1 \<and> start (snd (pb_field_iter_next it)) = start it
         \<and> pos it + 1 < length (start it)"
  using assms field_at_tag
  by (fastforce simp: pb_field_iter_next_def Let_def split: if_splits)

function foreach_field ::
    "(pb_field_iter \<Rightarrow> 's \<Rightarrow> ('s, unit) res) \<Rightarrow> pb_field_iter \<Rightarrow> 's \<Rightarrow> ('s, unit) res" where
  "foreach_field body it s =
     rbind (body it s) (\<lambda>_ s.
       if fst (pb_field_iter_next it) then foreach_field body (snd (pb_field_iter_next it)) s
       else Ret () s)"
  by pat_completeness auto
termination
  by (relation "measure (\<lambda>(_, it, _). length (start it) - pos it)")
     (auto dest!: pb_field_iter_next_pos)

declare foreach_field.simps [simp del]

end
