(* ===== verification/Nanopb_Memory.thy ===== *)
theory Nanopb_Memory
  imports Nanopb_Types
begin

text \<open>
  The store of the encoder and the decoder: a byte-addressed memory, typed loads and stores in
  little-endian order, and the parts of the C library the code calls: \<open>memset\<close>, \<open>memcpy\<close>,
  \<open>realloc\<close> and \<open>free\<close>.
\<close>

type_synonym mem = "addr \<Rightarrow> byte"

section \<open>Loads and stores\<close>

definition load_bytes :: "mem \<Rightarrow> addr \<Rightarrow> nat \<Rightarrow> byte list" where
  "load_bytes m a n = map (\<lambda>i. m (a + int i)) [0..<n]"

fun store_bytes :: "mem \<Rightarrow> addr \<Rightarrow> byte list \<Rightarrow> mem" where
  "store_bytes m a [] = m"
| "store_bytes m a (b # bs) = store_bytes (m(a := b)) (a + 1) bs"

definition load8 :: "mem \<Rightarrow> addr \<Rightarrow> 8 word" where
  "load8 m a = le_word (load_bytes m a 1)"
definition load16 :: "mem \<Rightarrow> addr \<Rightarrow> 16 word" where
  "load16 m a = le_word (load_bytes m a 2)"
definition load32 :: "mem \<Rightarrow> addr \<Rightarrow> 32 word" where
  "load32 m a = le_word (load_bytes m a 4)"
definition load64 :: "mem \<Rightarrow> addr \<Rightarrow> 64 word" where
  "load64 m a = le_word (load_bytes m a 8)"

definition store8 :: "mem \<Rightarrow> addr \<Rightarrow> 8 word \<Rightarrow> mem" where
  "store8 m a w = store_bytes m a (le_bytes 1 w)"
definition store16 :: "mem \<Rightarrow> addr \<Rightarrow> 16 word \<Rightarrow> mem" where
  "store16 m a w = store_bytes m a (le_bytes 2 w)"
definition store32 :: "mem \<Rightarrow> addr \<Rightarrow> 32 word \<Rightarrow> mem" where
  "store32 m a w = store_bytes m a (le_bytes 4 w)"
definition store64 :: "mem \<Rightarrow> addr \<Rightarrow> 64 word \<Rightarrow> mem" where
  "store64 m a w = store_bytes m a (le_bytes 8 w)"

text \<open>\<open>*(bool * )p\<close>, \<open>*(pb_size_t * )p\<close> and \<open>*(void ** )p\<close>.\<close>

definition load_bool :: "mem \<Rightarrow> addr \<Rightarrow> bool" where
  "load_bool m a \<longleftrightarrow> m a \<noteq> 0"
definition store_bool :: "mem \<Rightarrow> addr \<Rightarrow> bool \<Rightarrow> mem" where
  "store_bool m a b = m(a := (if b then 1 else 0))"
definition load_size :: "mem \<Rightarrow> addr \<Rightarrow> nat" where
  "load_size m a = unat (load32 m a)"
definition store_size :: "mem \<Rightarrow> addr \<Rightarrow> nat \<Rightarrow> mem" where
  "store_size m a n = store32 m a (of_nat n)"
definition load_ptr :: "mem \<Rightarrow> addr \<Rightarrow> addr" where
  "load_ptr m a = uint (load64 m a)"
definition store_ptr :: "mem \<Rightarrow> addr \<Rightarrow> addr \<Rightarrow> mem" where
  "store_ptr m a p = store64 m a (word_of_int p)"

definition memset0 :: "mem \<Rightarrow> addr \<Rightarrow> nat \<Rightarrow> mem" where
  "memset0 m a n = store_bytes m a (replicate n 0)"

section \<open>The heap\<close>

text \<open>
  \<open>hmem\<close> is the memory, \<open>blocks\<close> the live allocations with their sizes, \<open>brk\<close> the address of
  the next allocation, \<open>sp\<close> the address for the next local variable whose address is taken. Any
  allocation may fail: \<open>oom n\<close> says whether the \<open>n\<close>-th one does, and \<open>nallocs\<close> counts them.
\<close>

record heap =
  hmem :: mem
  blocks :: "addr \<rightharpoonup> nat"
  brk :: addr
  sp :: addr
  oom :: "nat \<Rightarrow> bool"
  nallocs :: nat

definition upd_mem :: "(mem \<Rightarrow> mem) \<Rightarrow> heap \<Rightarrow> heap" where
  "upd_mem f h = h\<lparr>hmem := f (hmem h)\<rparr>"

text \<open>Blocks start at multiples of 16.\<close>

definition block_step :: "nat \<Rightarrow> int" where
  "block_step n = int (align_up (n + 1) 16)"

text \<open>\<open>realloc\<close>: the result is the new address (\<open>NULL\<close> on failure, when the old block stays).
  The new block holds the old contents, up to the smaller size. A pointer that is not \<open>NULL\<close>
  and not a live block is undefined behaviour.\<close>

definition pb_realloc :: "heap \<Rightarrow> addr \<Rightarrow> nat \<Rightarrow> (heap, addr) res" where
  "pb_realloc h p n =
     (if p \<noteq> NULL \<and> blocks h p = None then Undef
      else if oom h (nallocs h) then Ret NULL (h\<lparr>nallocs := nallocs h + 1\<rparr>)
      else (let q = brk h;
                old = (case blocks h p of None \<Rightarrow> 0 | Some k \<Rightarrow> k)
            in Ret q (h\<lparr>hmem := store_bytes (hmem h) q (load_bytes (hmem h) p (min old n)),
                       blocks := (if p = NULL then blocks h else (blocks h)(p := None))(q \<mapsto> n),
                       brk := q + block_step n,
                       nallocs := nallocs h + 1\<rparr>)))"

definition pb_free :: "heap \<Rightarrow> addr \<Rightarrow> (heap, unit) res" where
  "pb_free h p =
     (if p = NULL then Ret () h
      else if blocks h p = None then Undef
      else Ret () (h\<lparr>blocks := (blocks h)(p := None)\<rparr>))"

section \<open>Facts about loads and stores\<close>

lemma length_load_bytes [simp]: "length (load_bytes m a n) = n"
  by (simp add: load_bytes_def)

lemma load_bytes_Suc: "load_bytes m a (Suc n) = m a # load_bytes m (a + 1) n"
  by (simp add: load_bytes_def upt_conv_Cons map_Suc_upt [symmetric] add.assoc del: upt_Suc)

lemma store_bytes_other: "b < a \<or> a + int (length bs) \<le> b \<Longrightarrow> store_bytes m a bs b = m b"
  by (induction bs arbitrary: m a) auto

lemma store_bytes_same:
  "i < length bs \<Longrightarrow> store_bytes m a bs (a + int i) = bs ! i"
proof (induction bs arbitrary: m a i)
  case (Cons b bs)
  show ?case
  proof (cases i)
    case 0
    then show ?thesis by (simp add: store_bytes_other)
  next
    case (Suc j)
    have e: "a + int (Suc j) = (a + 1) + int j" by simp
    from Suc Cons.prems have "j < length bs" by simp
    then have "store_bytes (m(a := b)) (a + 1) bs ((a + 1) + int j) = bs ! j" by (rule Cons.IH)
    with Suc show ?thesis by (simp only: store_bytes.simps e nth_Cons_Suc)
  qed
qed simp

lemma store_bytes_apply:
  "store_bytes m a bs b =
     (if a \<le> b \<and> b < a + int (length bs) then bs ! nat (b - a) else m b)"
  using store_bytes_same [of "nat (b - a)" bs m a] store_bytes_other [of b a bs m] by auto

lemma load_store_bytes_same [simp]: "load_bytes (store_bytes m a bs) a (length bs) = bs"
  by (rule nth_equalityI) (simp_all add: load_bytes_def store_bytes_same)

text \<open>Ranges \<open>[a, a + n)\<close> and \<open>[b, b + k)\<close> that do not meet.\<close>

definition apart :: "addr \<Rightarrow> nat \<Rightarrow> addr \<Rightarrow> nat \<Rightarrow> bool" where
  "apart a n b k \<longleftrightarrow> a + int n \<le> b \<or> b + int k \<le> a"

lemma load_store_bytes_apart:
  "apart a n b (length bs) \<Longrightarrow> load_bytes (store_bytes m b bs) a n = load_bytes m a n"
  by (auto simp: load_bytes_def apart_def store_bytes_other)

lemma load_store_words [simp]:
  "load8 (store8 m a w8) a = w8"
  "load16 (store16 m a w16) a = w16"
  "load32 (store32 m a w32) a = w32"
  "load64 (store64 m a w64) a = w64"
  using load_store_bytes_same [of m a "le_bytes 1 w8"] load_store_bytes_same [of m a "le_bytes 2 w16"]
    load_store_bytes_same [of m a "le_bytes 4 w32"] load_store_bytes_same [of m a "le_bytes 8 w64"]
  by (simp_all add: load8_def store8_def load16_def store16_def load32_def store32_def
        load64_def store64_def le_word_le_bytes take_bit_word_eq_self)

lemma load_store_size: "n < 2 ^ 32 \<Longrightarrow> load_size (store_size m a n) a = n"
  by (simp add: load_size_def store_size_def unat_of_nat)

lemma load_store_ptr: "0 \<le> p \<Longrightarrow> p < 2 ^ 64 \<Longrightarrow> load_ptr (store_ptr m a p) a = p"
  by (simp add: load_ptr_def store_ptr_def uint_word_of_int)

lemma load_store_bool [simp]: "load_bool (store_bool m a b) a = b"
  by (simp add: load_bool_def store_bool_def)

end
