(* ===== verification/Nanopb_Env.thy ===== *)
theory Nanopb_Env
  imports Nanopb_Ostream Nanopb_Istream Nanopb_Iter Nanopb_Memory
begin

text \<open>
  What the library user supplies through pointers: the callbacks of callback fields
  (\<open>pb_callback_t\<close>) and the handlers of extensions (\<open>pb_extension_type_t\<close>). They are parameters of
  the encoder and of the decoder: a function pointer found in memory is looked up in
  \<open>enc_callback\<close> or \<open>dec_callback\<close>, a pointer to an extension type in \<open>ext_type\<close>.
\<close>

type_synonym dstate = "pb_istream \<times> heap"

record pb_extension_type =
  ext_decode :: "(addr \<Rightarrow> nat \<Rightarrow> uint32 \<Rightarrow> dstate \<Rightarrow> (dstate, unit) res) option"
  ext_encode :: "(mem \<Rightarrow> addr \<Rightarrow> pb_ostream \<Rightarrow> (pb_ostream, unit) res) option"
  ext_arg :: pb_field

record pb_env =
  enc_callback :: "addr \<Rightarrow> mem \<Rightarrow> pb_field \<Rightarrow> addr \<Rightarrow> pb_ostream \<Rightarrow> (pb_ostream, unit) res"
  dec_callback :: "addr \<Rightarrow> pb_field \<Rightarrow> addr \<Rightarrow> dstate \<Rightarrow> (dstate, unit) res"
  ext_type :: "addr \<Rightarrow> pb_extension_type option"

text \<open>Member offsets of \<open>pb_callback_t\<close> and \<open>pb_extension_t\<close>.\<close>

definition CALLBACK_ARG :: int where "CALLBACK_ARG = 8"
definition EXT_TYPE :: int where "EXT_TYPE = 0"
definition EXT_DEST :: int where "EXT_DEST = 8"
definition EXT_NEXT :: int where "EXT_NEXT = 16"
definition EXT_FOUND :: int where "EXT_FOUND = 24"

text \<open>An environment in which no user function exists.\<close>

definition no_callbacks :: pb_env where
  "no_callbacks =
     \<lparr>enc_callback = (\<lambda>_ _ _ _ _. Undef), dec_callback = (\<lambda>_ _ _ _. Undef),
      ext_type = (\<lambda>_. None)\<rparr>"

end
