(* ===== verification/Nanopb_Encode.thy ===== *)
theory Nanopb_Encode
  imports Nanopb_Env
begin

text \<open>
  The message encoder of \<open>pb_encode.c\<close>. Each function takes the encoder of submessages as the
  argument \<open>sub\<close>; \<open>pb_encode\<close> ties the knot by recursion on a bound for the nesting of messages
  and the length of extension chains.
\<close>

type_synonym sub_encoder = "pb_field list \<Rightarrow> addr \<Rightarrow> pb_ostream \<Rightarrow> (pb_ostream, unit) res"

section \<open>Submessages\<close>

definition pb_encode_submessage :: "sub_encoder \<Rightarrow> sub_encoder" where
  "pb_encode_submessage sub fs src st =
     (case sub fs src PB_OSTREAM_SIZING of
        Undef \<Rightarrow> Undef
      | Fail substream \<Rightarrow> Fail (st\<lparr>oerrmsg := oerrmsg substream\<rparr>)
      | Ret _ substream \<Rightarrow>
          (let n = bytes_written substream
           in rbind (pb_encode_varint st (of_nat n)) (\<lambda>_ st.
                case ocallback st of
                  No_write \<Rightarrow> pb_write st [] n
                | _ \<Rightarrow>
                  (if max_size st < size_add (bytes_written st) n
                   then Fail (oset_error ''stream full'' st)
                   else (let r = sub fs src
                                   (substream\<lparr>ocallback := ocallback st, ostate := ostate st,
                                              max_size := n, bytes_written := 0,
                                              oerrmsg := None\<rparr>)
                         in case res_state r of
                              None \<Rightarrow> Undef
                            | Some s \<Rightarrow>
                                (let st' = st\<lparr>bytes_written :=
                                                size_add (bytes_written st) (bytes_written s),
                                              ostate := ostate s, oerrmsg := oerrmsg s\<rparr>
                                 in if bytes_written s \<noteq> n
                                    then Fail (oset_error ''submsg size changed'' st')
                                    else (case r of Ret _ _ \<Rightarrow> Ret () st' | _ \<Rightarrow> Fail st')))))))"

section \<open>Field encoders\<close>

text \<open>The integer at \<open>src\<close>, by \<open>data_size\<close>: sign-extended, then zero-extended.\<close>

definition load_signed :: "mem \<Rightarrow> nat \<Rightarrow> addr \<Rightarrow> uint64 option" where
  "load_signed m n src =
     (if n = 1 then Some (scast (load8 m src))
      else if n = 2 then Some (scast (load16 m src))
      else if n = 4 then Some (scast (load32 m src))
      else if n = 8 then Some (load64 m src)
      else None)"

definition load_unsigned :: "mem \<Rightarrow> nat \<Rightarrow> addr \<Rightarrow> uint64 option" where
  "load_unsigned m n src =
     (if n = 1 then Some (ucast (load8 m src))
      else if n = 2 then Some (ucast (load16 m src))
      else if n = 4 then Some (ucast (load32 m src))
      else if n = 8 then Some (load64 m src)
      else None)"

type_synonym field_encoder = "mem \<Rightarrow> pb_field \<Rightarrow> addr \<Rightarrow> pb_ostream \<Rightarrow> (pb_ostream, unit) res"

definition pb_enc_varint :: field_encoder where
  "pb_enc_varint m field src st =
     (case load_signed m (data_size field) src of
        None \<Rightarrow> Fail (oset_error ''invalid data_size'' st)
      | Some v \<Rightarrow> pb_encode_varint st v)"

definition pb_enc_uvarint :: field_encoder where
  "pb_enc_uvarint m field src st =
     (case load_unsigned m (data_size field) src of
        None \<Rightarrow> Fail (oset_error ''invalid data_size'' st)
      | Some v \<Rightarrow> pb_encode_varint st v)"

definition pb_enc_svarint :: field_encoder where
  "pb_enc_svarint m field src st =
     (case load_signed m (data_size field) src of
        None \<Rightarrow> Fail (oset_error ''invalid data_size'' st)
      | Some v \<Rightarrow> pb_encode_svarint st v)"

definition pb_enc_fixed64 :: field_encoder where
  "pb_enc_fixed64 m field src st = pb_encode_fixed64 st (load64 m src)"

definition pb_enc_fixed32 :: field_encoder where
  "pb_enc_fixed32 m field src st = pb_encode_fixed32 st (load32 m src)"

definition pb_enc_bytes :: field_encoder where
  "pb_enc_bytes m field src st =
     (if src = NULL then pb_encode_string st [] 0
      else (let n = load_size m src
            in if atype field = PB_ATYPE_STATIC
                  \<and> data_size field < PB_BYTES_ARRAY_T_ALLOCSIZE n
               then Fail (oset_error ''bytes size exceeded'' st)
               else pb_encode_string st (load_bytes m (src + int PB_BYTES_OFFSET) n) n))"

text \<open>The loop of \<open>pb_enc_string\<close> in place of \<open>strnlen\<close>.\<close>

function strnlen_loop :: "mem \<Rightarrow> addr \<Rightarrow> nat \<Rightarrow> nat" where
  "strnlen_loop m p maxlen =
     (if 0 < maxlen \<and> m p \<noteq> 0 then Suc (strnlen_loop m (p + 1) (maxlen - 1)) else 0)"
  by pat_completeness auto
termination
  by (relation "measure (\<lambda>(_, _, n). n)") auto

declare strnlen_loop.simps [simp del]

definition pb_enc_string :: field_encoder where
  "pb_enc_string m field src st =
     (let maxlen = (if atype field = PB_ATYPE_POINTER then SIZE_MODULUS - 1 else data_size field);
          n = (if src = NULL then 0 else strnlen_loop m src maxlen)
      in pb_encode_string st (load_bytes m src n) n)"

definition pb_enc_submessage :: "sub_encoder \<Rightarrow> field_encoder" where
  "pb_enc_submessage sub m field src st =
     (case ptr field of
        Ptr_null \<Rightarrow> Fail (oset_error ''invalid field descriptor'' st)
      | Ptr_fields fs \<Rightarrow> pb_encode_submessage sub fs src st
      | Ptr_default _ \<Rightarrow> Undef)"

definition pb_enc_fixed_length_bytes :: field_encoder where
  "pb_enc_fixed_length_bytes m field src st =
     pb_encode_string st (load_bytes m src (data_size field)) (data_size field)"

text \<open>Calling \<open>PB_ENCODERS[ltype]\<close>; entry 8 is \<open>NULL\<close> and there is none from 10 on. Apart from
  byte arrays and strings, the encoders dereference \<open>src\<close>.\<close>

definition PB_ENCODERS :: "sub_encoder \<Rightarrow> pb_type \<Rightarrow> field_encoder" where
  "PB_ENCODERS sub lt m field src st =
     (if lt = PB_LTYPE_BYTES then pb_enc_bytes m field src st
      else if lt = PB_LTYPE_STRING then pb_enc_string m field src st
      else if src = NULL then Undef
      else if lt = PB_LTYPE_VARINT then pb_enc_varint m field src st
      else if lt = PB_LTYPE_UVARINT then pb_enc_uvarint m field src st
      else if lt = PB_LTYPE_SVARINT then pb_enc_svarint m field src st
      else if lt = PB_LTYPE_FIXED32 then pb_enc_fixed32 m field src st
      else if lt = PB_LTYPE_FIXED64 then pb_enc_fixed64 m field src st
      else if lt = PB_LTYPE_SUBMESSAGE then pb_enc_submessage sub m field src st
      else if lt = PB_LTYPE_FIXED_LENGTH_BYTES then pb_enc_fixed_length_bytes m field src st
      else Undef)"

section \<open>Arrays\<close>

text \<open>\<open>for (i = 0; i < count; i++) { ...; p += data_size }\<close>\<close>

fun enc_items ::
    "(addr \<Rightarrow> pb_ostream \<Rightarrow> (pb_ostream, unit) res) \<Rightarrow> nat \<Rightarrow> nat \<Rightarrow> addr \<Rightarrow> pb_ostream
     \<Rightarrow> (pb_ostream, unit) res" where
  "enc_items f stride 0 p st = Ret () st"
| "enc_items f stride (Suc k) p st =
     rbind (f p st) (\<lambda>_ st. enc_items f stride k (p + int stride) st)"

definition packed_size ::
    "sub_encoder \<Rightarrow> mem \<Rightarrow> pb_field \<Rightarrow> addr \<Rightarrow> nat \<Rightarrow> (pb_ostream, nat) res" where
  "packed_size sub m field pd count =
     (if ltype field = PB_LTYPE_FIXED32 then Ret (4 * count) PB_OSTREAM_SIZING
      else if ltype field = PB_LTYPE_FIXED64 then Ret (8 * count) PB_OSTREAM_SIZING
      else rbind (enc_items (PB_ENCODERS sub (ltype field) m field) (data_size field) count pd
                    PB_OSTREAM_SIZING)
             (\<lambda>_ sizestream. Ret (bytes_written sizestream) sizestream))"

definition encode_array :: "sub_encoder \<Rightarrow> mem \<Rightarrow> pb_field \<Rightarrow> addr \<Rightarrow> nat \<Rightarrow> pb_ostream
    \<Rightarrow> (pb_ostream, unit) res" where
  "encode_array sub m field pd count st =
     (if count = 0 then Ret () st
      else if atype field \<noteq> PB_ATYPE_POINTER \<and> array_size field < count
      then Fail (oset_error ''array max size exceeded'' st)
      else if ltype field \<le> PB_LTYPE_LAST_PACKABLE
      then rbind (pb_encode_tag st PB_WT_STRING (of_nat (tag field))) (\<lambda>_ st.
             case packed_size sub m field pd count of
               Undef \<Rightarrow> Undef
             | Fail _ \<Rightarrow> Fail st
             | Ret n _ \<Rightarrow>
                 rbind (pb_encode_varint st (of_nat n)) (\<lambda>_ st.
                   case ocallback st of
                     No_write \<Rightarrow> pb_write st [] n
                   | _ \<Rightarrow> enc_items (PB_ENCODERS sub (ltype field) m field) (data_size field)
                            count pd st))
      else enc_items
             (\<lambda>p st. rbind (pb_encode_tag_for_field st field) (\<lambda>_ st.
                PB_ENCODERS sub (ltype field) m field
                  (if atype field = PB_ATYPE_POINTER
                      \<and> (ltype field = PB_LTYPE_STRING \<or> ltype field = PB_LTYPE_BYTES)
                   then load_ptr m p else p) st))
             (data_size field) count pd st)"

section \<open>Default values of proto3 fields\<close>

definition bool_res :: "bool \<Rightarrow> (unit, unit) res" where
  "bool_res b = (if b then Ret () () else Fail ())"

text \<open>\<open>Ret\<close> is \<open>true\<close> (the field has its zero value), \<open>Fail\<close> is \<open>false\<close>.\<close>

primrec pb_check_proto3_default_value ::
    "nat \<Rightarrow> mem \<Rightarrow> pb_field \<Rightarrow> addr \<Rightarrow> (unit, unit) res" where
  "pb_check_proto3_default_value 0 m field pd = Undef"
| "pb_check_proto3_default_value (Suc n) m field pd =
     (let ps = pd + size_offset field
      in if htype field = PB_HTYPE_REQUIRED then Fail ()
         else if htype field = PB_HTYPE_REPEATED then bool_res (load_size m ps = 0)
         else if htype field = PB_HTYPE_ONEOF then bool_res (load_size m ps = 0)
         else if htype field = PB_HTYPE_OPTIONAL \<and> size_offset field \<noteq> 0
         then bool_res (\<not> load_bool m ps)
         else if atype field = PB_ATYPE_STATIC \<and> ltype field = PB_LTYPE_BYTES
         then bool_res (load_size m pd = 0)
         else if atype field = PB_ATYPE_STATIC \<and> ltype field = PB_LTYPE_STRING
         then bool_res (m pd = 0)
         else if atype field = PB_ATYPE_STATIC \<and> ltype field = PB_LTYPE_FIXED_LENGTH_BYTES
         then bool_res (data_size field = 0)
         else if atype field = PB_ATYPE_STATIC \<and> ltype field = PB_LTYPE_SUBMESSAGE
         then (case ptr field of
                 Ptr_fields fs \<Rightarrow>
                   (case pb_field_iter_begin fs pd of
                      (False, _) \<Rightarrow> Ret () ()
                    | (True, it) \<Rightarrow>
                        foreach_field
                          (\<lambda>it _. pb_check_proto3_default_value n m (cur it) (pData it)) it ())
               | _ \<Rightarrow> Undef)
         else bool_res (\<forall>i \<in> set [0..<data_size field]. m (pd + int i) = 0))"

section \<open>Single fields\<close>

text \<open>\<open>*(const bool * )pSize\<close>: the \<open>has_\<close> member, or the local variable \<open>implicit_has\<close>.\<close>

definition encode_basic_field :: "nat \<Rightarrow> sub_encoder \<Rightarrow> field_encoder" where
  "encode_basic_field n sub m field pd st =
     (let ps = pd + size_offset field;
          implicit_has = (if size_offset field \<noteq> 0 then Ret () ()
                          else if htype field = PB_HTYPE_OPTIONAL
                          then (case pb_check_proto3_default_value n m field pd of
                                  Ret _ _ \<Rightarrow> Fail () | Fail _ \<Rightarrow> Ret () () | Undef \<Rightarrow> Undef)
                          else Ret () ());
          pd' = (if atype field = PB_ATYPE_POINTER then load_ptr m pd else pd);
          func = PB_ENCODERS sub (ltype field) m field;
          tagged = (\<lambda>st. rbind (pb_encode_tag_for_field st field) (\<lambda>_ st. func pd' st))
      in if 9 < ltype field then Undef
         else if implicit_has = Undef then Undef
         else if htype field = PB_HTYPE_REQUIRED
         then (if pd' = NULL then Fail (oset_error ''missing required field'' st) else tagged st)
         else if htype field = PB_HTYPE_OPTIONAL
         then (if (if size_offset field \<noteq> 0 then load_bool m ps
                   else if atype field = PB_ATYPE_POINTER then pd' \<noteq> NULL
                   else implicit_has = Ret () ())
               then tagged st else Ret () st)
         else if htype field = PB_HTYPE_REPEATED
         then encode_array sub m field pd'
                (if size_offset field \<noteq> 0 then load_size m ps else array_size field) st
         else if size_offset field = 0 then Undef
         else if load_size m ps = tag field then tagged st else Ret () st)"

definition encode_callback_field :: "pb_env \<Rightarrow> field_encoder" where
  "encode_callback_field env m field pd st =
     (let encode = load_ptr m pd
      in if encode \<noteq> NULL
         then (case enc_callback env encode m field (pd + CALLBACK_ARG) st of
                 Fail st' \<Rightarrow> Fail (oset_error ''callback error'' st')
               | r \<Rightarrow> r)
         else Ret () st)"

definition encode_field :: "pb_env \<Rightarrow> nat \<Rightarrow> sub_encoder \<Rightarrow> field_encoder" where
  "encode_field env n sub m field pd st =
     (if atype field = PB_ATYPE_STATIC \<or> atype field = PB_ATYPE_POINTER
      then encode_basic_field n sub m field pd st
      else if atype field = PB_ATYPE_CALLBACK then encode_callback_field env m field pd st
      else Fail (oset_error ''invalid field type'' st))"

definition default_extension_encoder :: "pb_env \<Rightarrow> nat \<Rightarrow> sub_encoder \<Rightarrow> mem \<Rightarrow> pb_field \<Rightarrow> addr
    \<Rightarrow> pb_ostream \<Rightarrow> (pb_ostream, unit) res" where
  "default_extension_encoder env n sub m field extension st =
     (if atype field = PB_ATYPE_POINTER
      then encode_field env n sub m field (extension + EXT_DEST) st
      else encode_field env n sub m field (load_ptr m (extension + EXT_DEST)) st)"

text \<open>The loop over the chain of extensions; the first argument bounds its length.\<close>

primrec encode_extensions ::
    "nat \<Rightarrow> pb_env \<Rightarrow> nat \<Rightarrow> sub_encoder \<Rightarrow> mem \<Rightarrow> addr \<Rightarrow> pb_ostream \<Rightarrow> (pb_ostream, unit) res" where
  "encode_extensions 0 env n sub m extension st = Undef"
| "encode_extensions (Suc k) env n sub m extension st =
     (if extension = NULL then Ret () st
      else (case ext_type env (load_ptr m (extension + EXT_TYPE)) of
              None \<Rightarrow> Undef
            | Some type \<Rightarrow>
                rbind (case ext_encode type of
                         Some encode \<Rightarrow> encode m extension st
                       | None \<Rightarrow> default_extension_encoder env n sub m (ext_arg type) extension st)
                  (\<lambda>_ st. encode_extensions k env n sub m (load_ptr m (extension + EXT_NEXT)) st)))"

definition encode_extension_field :: "pb_env \<Rightarrow> nat \<Rightarrow> sub_encoder \<Rightarrow> field_encoder" where
  "encode_extension_field env n sub m field pd st =
     encode_extensions n env n sub m (load_ptr m pd) st"

section \<open>Messages\<close>

primrec pb_encode :: "pb_env \<Rightarrow> nat \<Rightarrow> mem \<Rightarrow> sub_encoder" where
  "pb_encode env 0 m fs src st = Undef"
| "pb_encode env (Suc n) m fs src st =
     (case pb_field_iter_begin fs src of
        (False, _) \<Rightarrow> Ret () st
      | (True, it) \<Rightarrow>
          foreach_field
            (\<lambda>it st. if ltype (cur it) = PB_LTYPE_EXTENSION
                     then encode_extension_field env n (pb_encode env n m) m (cur it) (pData it) st
                     else encode_field env n (pb_encode env n m) m (cur it) (pData it) st)
            it st)"

definition pb_encode_delimited :: "pb_env \<Rightarrow> nat \<Rightarrow> mem \<Rightarrow> sub_encoder" where
  "pb_encode_delimited env n m fs src st = pb_encode_submessage (pb_encode env n m) fs src st"

definition pb_encode_nullterminated :: "pb_env \<Rightarrow> nat \<Rightarrow> mem \<Rightarrow> sub_encoder" where
  "pb_encode_nullterminated env n m fs src st =
     rbind (pb_encode env n m fs src st) (\<lambda>_ st. pb_write st [0] 1)"

text \<open>The result is the size stored through the pointer.\<close>

definition pb_get_encoded_size ::
    "pb_env \<Rightarrow> nat \<Rightarrow> mem \<Rightarrow> pb_field list \<Rightarrow> addr \<Rightarrow> (pb_ostream, nat) res" where
  "pb_get_encoded_size env n m fs src =
     rbind (pb_encode env n m fs src PB_OSTREAM_SIZING) (\<lambda>_ st. Ret (bytes_written st) st)"

end
