(* ===== verification/Wire_Format.thy ===== *)
theory Wire_Format
  imports Nanopb_Prelude
begin

text \<open>
  The wire format as a reference, independent of the code: base-128 varints over \<open>nat\<close>, the
  value of a group of bytes, and the zig-zag map between signed integers and naturals. The
  lemmas translate the bit operations of the code into this arithmetic.
\<close>

section \<open>Bits of bytes as arithmetic\<close>

lemma and_7F_take_bit: "(w :: 'a::len word) AND 0x7F = take_bit 7 w"
proof -
  have "(0x7F :: 'a word) = mask 7" by (simp add: mask_eq_exp_minus_1)
  then show ?thesis by (simp add: take_bit_eq_mask)
qed

lemma unat_take_bit: "unat (take_bit n (w :: 'a::len word)) = unat w mod 2 ^ n"
proof -
  have "unat (take_bit n w) = take_bit n (unat w)" by (rule unsigned_take_bit_eq)
  then show ?thesis by (simp only: take_bit_eq_mod)
qed

lemma unat_and_7F: "unat ((w :: 'a::len word) AND 0x7F) = unat w mod 128"
  by (simp only: and_7F_take_bit unat_take_bit) simp

lemma byte_top_clear: "(b :: byte) AND 0x80 = 0 \<longleftrightarrow> unat b < 128"
proof -
  have "b AND 0x80 = 0 \<longleftrightarrow> \<not> bit b 7"
    using and_exp_eq_0_iff_not_bit [of b 7] by simp
  also have "\<dots> \<longleftrightarrow> even (unat b div 128)"
  proof -
    have "bit b 7 \<longleftrightarrow> bit (unat b) 7" by (simp add: bit_unsigned_iff)
    then show ?thesis by (simp add: bit_iff_odd)
  qed
  also have "\<dots> \<longleftrightarrow> unat b < 128"
  proof -
    have "unat b < 256" using unsigned_less [of b, where ?'a = nat] by simp
    then have "unat b div 128 = 0 \<or> unat b div 128 = 1" by auto
    then show ?thesis by auto
  qed
  finally show ?thesis .
qed

text \<open>Adding bits above the ones in use.\<close>

lemma or_push_bit_add:
  fixes r x :: "'a::len word"
  assumes "take_bit p r = r"
  shows "r OR push_bit p x = r + push_bit p x"
proof -
  have "r AND push_bit p x = 0"
    by (subst assms [symmetric], rule bit_word_eqI) (auto simp: bit_simps)
  then show ?thesis by (simp add: disjunctive_add_eq_or)
qed

lemma take_bit_of_nat_small: "n < 2 ^ p \<Longrightarrow> take_bit p (of_nat n :: 'a::len word) = of_nat n"
  by (simp add: take_bit_of_nat take_bit_nat_eq_self)

lemma or_push_bit_of_nat:
  assumes "n < 2 ^ p"
  shows "(of_nat n :: 'a::len word) OR push_bit p (of_nat k) = of_nat (n + 2 ^ p * k)"
proof -
  have "(of_nat n :: 'a word) OR push_bit p (of_nat k) = of_nat n + push_bit p (of_nat k)"
    by (rule or_push_bit_add) (rule take_bit_of_nat_small [OF assms])
  then show ?thesis by (simp add: push_bit_eq_mult mult.commute)
qed

lemma ucast_and_7F: "(ucast ((b :: byte) AND 0x7F) :: 'a::len word) = of_nat (unat b mod 128)"
proof -
  have "(ucast (b AND 0x7F) :: 'a word) = of_nat (unat (b AND 0x7F))" by simp
  then show ?thesis by (simp only: unat_and_7F)
qed

section \<open>Base-128 varints\<close>

function leb128 :: "nat \<Rightarrow> byte list" where
  "leb128 n =
     (if n < 128 then [of_nat n] else of_nat (n mod 128 + 128) # leb128 (n div 128))"
  by pat_completeness auto
termination
  by (relation "measure id") auto

declare leb128.simps [simp del]

text \<open>The value of a group of bytes: seven bits each, least significant first.\<close>

fun leb_value :: "byte list \<Rightarrow> nat" where
  "leb_value [] = 0"
| "leb_value (b # bs) = unat b mod 128 + 128 * leb_value bs"

text \<open>A complete group: every byte but the last has its top bit set.\<close>

fun leb_group :: "byte list \<Rightarrow> bool" where
  "leb_group [] = False"
| "leb_group [b] = (b AND 0x80 = 0)"
| "leb_group (b # bs) = (b AND 0x80 \<noteq> 0 \<and> leb_group bs)"

lemma leb_group_Cons: "leb_group (b # bs) \<longleftrightarrow> (if b AND 0x80 = 0 then bs = [] else leb_group bs)"
  by (cases bs) auto

lemma leb_value_append: "leb_value (bs @ cs) = leb_value bs + 128 ^ length bs * leb_value cs"
  by (induction bs) (simp_all add: algebra_simps)

lemma leb_value_bound: "leb_value bs < 128 ^ length bs"
proof (induction bs)
  case (Cons b bs)
  have "unat b mod 128 < 128" by simp
  with Cons have "unat b mod 128 + 128 * leb_value bs < 128 + 128 * (128 ^ length bs - 1)"
    by (intro add_less_le_mono mult_le_mono2) auto
  then show ?case by (simp add: right_diff_distrib')
qed simp

lemma unat_of_nat_byte: "n < 256 \<Longrightarrow> unat (of_nat n :: byte) = n"
  by (simp add: unat_of_nat)

lemma leb128_cont_byte:
  "unat (of_nat (n mod 128 + 128) :: byte) = n mod 128 + 128"
  by (rule unat_of_nat_byte) (use mod_less_divisor [of 128 n] in linarith)

lemma leb_value_leb128 [simp]: "leb_value (leb128 n) = n"
proof (induction n rule: leb128.induct)
  case (1 n)
  then show ?case
    by (subst leb128.simps) (simp add: leb128_cont_byte unat_of_nat_byte del: of_nat_add)
qed

lemma leb_group_leb128 [simp]: "leb_group (leb128 n)"
proof (induction n rule: leb128.induct)
  case (1 n)
  then show ?case
    by (subst leb128.simps)
       (auto simp: leb_group_Cons byte_top_clear leb128_cont_byte unat_of_nat_byte
          simp del: of_nat_add)
qed

lemma leb128_nonempty [simp]: "leb128 n \<noteq> []"
  by (subst leb128.simps) simp

lemma length_leb128: "n < 128 ^ k \<Longrightarrow> 0 < k \<Longrightarrow> length (leb128 n) \<le> k"
proof (induction n arbitrary: k rule: leb128.induct)
  case (1 n)
  show ?case
  proof (cases "n < 128")
    case True
    with 1 show ?thesis by (subst leb128.simps) simp
  next
    case False
    with "1.prems" have "k \<noteq> 1" by auto
    with "1.prems" obtain k' where k: "k = Suc k'" "0 < k'"
      by (cases k) auto
    with "1.prems" have "n div 128 < 128 ^ k'" by (simp add: less_mult_imp_div_less mult.commute)
    with "1.IH" [OF False this k(2)] False k show ?thesis
      by (subst leb128.simps) simp
  qed
qed

lemma length_leb128_64: "n < 2 ^ 64 \<Longrightarrow> length (leb128 n) \<le> 10"
  by (rule length_leb128) simp_all

section \<open>Zig-zag\<close>

definition zigzag :: "int \<Rightarrow> nat" where
  "zigzag i = (if i < 0 then nat (- 2 * i - 1) else nat (2 * i))"

end
