(* ===== verification/Nanopb_Codec.thy ===== *)
theory Nanopb_Codec
  imports Nanopb_Ostream Nanopb_Istream Wire_Format
begin

text \<open>
  The wire-level encoders and decoders against the wire format: what each encoder emits, what
  each decoder consumes, and the round trips. The locale \<open>wire_codec\<close> states the interface of a
  pair of an encoder and a decoder; its lemmas are proved once and hold for every pair of the
  code through the interpretations.
\<close>

section \<open>What the encoders emit\<close>

lemma varint_cont_byte:
  "ucast (((v :: uint64) AND 0x7F) OR 0x80) = (of_nat (unat v mod 128 + 128) :: byte)"
proof -
  have "(v AND 0x7F) OR 0x80 = of_nat (unat v mod 128) OR push_bit 7 (of_nat 1)"
  proof -
    have "v AND 0x7F = of_nat (unat (v AND 0x7F))" by simp
    then have "v AND 0x7F = of_nat (unat v mod 128)" by (simp only: unat_and_7F)
    then show ?thesis by simp
  qed
  also have "\<dots> = of_nat (unat v mod 128 + 2 ^ 7 * 1)"
    by (rule or_push_bit_of_nat) simp
  finally have e: "(v AND 0x7F) OR 0x80 = of_nat (unat v mod 128 + 128)" by simp
  have "unat (of_nat (unat v mod 128 + 128) :: uint64) = unat v mod 128 + 128"
    by (simp add: unat_of_nat del: of_nat_add)
  then show ?thesis unfolding e by (metis of_nat_unat)
qed

text \<open>Clearing the top bit of the last byte of the buffer.\<close>

definition clear_last :: "byte list \<Rightarrow> byte list" where
  "clear_last bs = bs[length bs - 1 := (bs ! (length bs - 1)) AND 0x7F]"

lemma clear_last_Cons: "bs \<noteq> [] \<Longrightarrow> clear_last (b # bs) = b # clear_last bs"
  by (cases bs) (simp_all add: clear_last_def)

lemma clear_last_single: "clear_last [b] = [b AND 0x7F]"
  by (simp add: clear_last_def)

lemma varint_loop_nonempty: "v \<noteq> 0 \<Longrightarrow> varint_loop v \<noteq> []"
  by (subst varint_loop.simps) simp

lemma last_varint_byte:
  "unat v < 128 \<Longrightarrow> (of_nat (unat (v :: uint64) mod 128 + 128) :: byte) AND 0x7F = of_nat (unat v)"
proof -
  assume v: "unat v < 128"
  then have "unat (of_nat (unat v) :: byte) = unat v" by (intro unat_of_nat_byte) simp
  with v have "unat ((of_nat (unat v mod 128 + 128) :: byte) AND 0x7F) = unat (of_nat (unat v) :: byte)"
    by (simp only: unat_and_7F leb128_cont_byte) simp
  then show ?thesis by (simp only: word_unat_eq_iff)
qed

lemma varint_loop_leb128: "v \<noteq> 0 \<Longrightarrow> clear_last (varint_loop v) = leb128 (unat v)"
proof (induction v rule: varint_loop.induct)
  case (1 v)
  have shift: "unat (drop_bit 7 v) = unat v div 128" by (simp only: unat_drop_bit) simp
  have loop: "varint_loop v = of_nat (unat v mod 128 + 128) # varint_loop (drop_bit 7 v)"
    using "1.prems" by (subst varint_loop.simps) (simp only: varint_cont_byte if_False)
  show ?case
  proof (cases "unat v < 128")
    case True
    then have "drop_bit 7 v = 0" using shift by (simp add: unat_eq_zero)
    with loop have "varint_loop v = [of_nat (unat v mod 128 + 128)]"
      by (simp add: varint_loop.simps [of 0])
    with True show ?thesis
      by (simp only: clear_last_single last_varint_byte leb128.simps [of "unat v"] if_True)
  next
    case False
    then have nz: "drop_bit 7 v \<noteq> 0" using shift by (auto simp: unat_eq_zero)
    from "1.IH" [OF "1.prems" nz] have "clear_last (varint_loop (drop_bit 7 v)) = leb128 (unat v div 128)"
      by (simp only: shift)
    with False show ?thesis
      by (simp only: loop clear_last_Cons [OF varint_loop_nonempty [OF nz]]
            leb128.simps [of "unat v"] if_False)
  qed
qed

lemma length_clear_last [simp]: "length (clear_last bs) = length bs"
  by (simp add: clear_last_def)

lemma length_varint_loop: "v \<noteq> 0 \<Longrightarrow> length (varint_loop v) = length (leb128 (unat v))"
  by (metis varint_loop_leb128 length_clear_last)

lemma length_leb128_uint64 [simp]: "length (leb128 (unat (v :: uint64))) \<le> 10"
  using unsigned_less [of v, where ?'a = nat] by (intro length_leb128_64) simp

lemma pb_encode_varint_write:
  "pb_encode_varint st v = pb_write st (leb128 (unat v)) (length (leb128 (unat v)))"
proof (cases "v \<le> 0x7F")
  case True
  then have "unat v < 128" by (simp add: word_le_nat_alt)
  with True show ?thesis
    by (simp add: pb_encode_varint_def leb128.simps [of "unat v"])
next
  case False
  then have nz: "v \<noteq> 0" by auto
  have "\<not> 10 < length (varint_loop v)"
    unfolding length_varint_loop [OF nz] not_less by (rule length_leb128_uint64)
  with False show ?thesis
    unfolding pb_encode_varint_def Let_def
    by (simp only: if_False clear_last_def [symmetric] varint_loop_leb128 [OF nz])
       (simp only: length_varint_loop [OF nz])
qed

named_theorems emits_intros \<open>what the encoders of the code emit\<close>

lemma emits_varint [emits_intros]: "emits (\<lambda>st. pb_encode_varint st v) (leb128 (unat v))"
  unfolding pb_encode_varint_write by (intro pb_write_emits) simp_all

text \<open>The encoders above the varint.\<close>

definition zigzag64 :: "uint64 \<Rightarrow> uint64" where
  "zigzag64 v = (if sint v < 0 then NOT (push_bit 1 v) else push_bit 1 v)"

definition unzigzag64 :: "uint64 \<Rightarrow> uint64" where
  "unzigzag64 v = (if v AND 1 \<noteq> 0 then NOT (drop_bit 1 v) else drop_bit 1 v)"

lemma zigzag64_value: "unat (zigzag64 v) = zigzag (sint v)"
proof -
  have lo: "- (2 ^ 63) \<le> sint v" and hi: "sint v < 2 ^ 63"
    using sint_greater_eq [of v] sint_less [of v] by simp_all
  have v: "v = word_of_int (sint v)" by simp
  have neg: "NOT (push_bit 1 v) = word_of_int (- 2 * sint v - 1)"
    by (subst (1) v) (simp add: not_eq_complement push_bit_eq_mult)
  have pos: "push_bit 1 v = word_of_int (2 * sint v)"
    by (subst (1) v) (simp add: push_bit_eq_mult)
  have "uint (zigzag64 v) = int (zigzag (sint v))"
  proof (cases "sint v < 0")
    case True
    then have "uint (zigzag64 v) = (- 2 * sint v - 1) mod 2 ^ 64"
      by (simp only: zigzag64_def if_True neg uint_word_of_int) simp
    also have "\<dots> = - 2 * sint v - 1" using True lo by (intro mod_pos_pos_trivial) simp_all
    finally show ?thesis using True by (simp add: zigzag_def)
  next
    case False
    then have "uint (zigzag64 v) = (2 * sint v) mod 2 ^ 64"
      by (simp only: zigzag64_def if_False pos uint_word_of_int) simp
    also have "\<dots> = 2 * sint v" using False hi by (intro mod_pos_pos_trivial) simp_all
    finally show ?thesis using False by (simp add: zigzag_def)
  qed
  then show ?thesis by (metis nat_int nat_uint_eq)
qed

lemma sint_negative_bit: "sint (v :: uint64) < 0 \<longleftrightarrow> bit v 63"
  by transfer (simp add: signed_take_bit_negative_iff)

lemma unzigzag64_zigzag64 [simp]: "unzigzag64 (zigzag64 v) = v"
proof (cases "sint v < 0")
  case True
  then have z: "zigzag64 v = NOT (push_bit 1 v)" and top: "bit v 63"
    by (simp_all add: zigzag64_def sint_negative_bit)
  have "bit (NOT (push_bit 1 v) AND 1) 0" by (simp add: bit_simps del: push_bit_Suc)
  then have odd: "NOT (push_bit 1 v) AND 1 \<noteq> 0" by auto
  have "NOT (drop_bit 1 (NOT (push_bit 1 v))) = v"
  proof (rule bit_word_eqI)
    fix n assume "n < LENGTH(64)"
    then show "bit (NOT (drop_bit 1 (NOT (push_bit 1 v)))) n = bit v n"
      using top by (cases "n = 63") (auto simp: bit_simps simp del: push_bit_Suc)
  qed
  with odd z show ?thesis by (simp add: unzigzag64_def)
next
  case False
  then have z: "zigzag64 v = push_bit 1 v" and top: "\<not> bit v 63"
    by (simp_all add: zigzag64_def sint_negative_bit)
  have even: "push_bit 1 v AND 1 = 0"
    by (intro bit_word_eqI) (auto simp: bit_simps simp del: push_bit_Suc)
  have "drop_bit 1 (push_bit 1 v) = v"
  proof (rule bit_word_eqI)
    fix n assume "n < LENGTH(64)"
    then show "bit (drop_bit 1 (push_bit 1 v)) n = bit v n"
      using top by (cases "n = 63") (auto simp: bit_simps simp del: push_bit_Suc)
  qed
  with even z show ?thesis by (simp add: unzigzag64_def)
qed

lemma emits_svarint [emits_intros]:
  "emits (\<lambda>st. pb_encode_svarint st v) (leb128 (zigzag (sint v)))"
  using emits_varint [of "zigzag64 v"]
  by (simp add: pb_encode_svarint_def zigzag64_def [symmetric] zigzag64_value)

lemma ucast_and_FF: "(ucast ((w :: 'a::len word) AND 0xFF) :: byte) = ucast w"
proof -
  have "(0xFF :: 'a word) = mask 8" by (simp add: mask_eq_exp_minus_1)
  then have "w AND 0xFF = take_bit 8 w" by (simp add: take_bit_eq_mask)
  then show ?thesis by (simp only:) (rule bit_word_eqI, simp add: bit_simps)
qed

lemma le_bytes_4: "le_bytes 4 w =
    [ucast w, ucast (drop_bit 8 w), ucast (drop_bit 16 w), ucast (drop_bit 24 w)]"
  by (simp add: eval_nat_numeral)

lemma le_bytes_8: "le_bytes 8 w =
    [ucast w, ucast (drop_bit 8 w), ucast (drop_bit 16 w), ucast (drop_bit 24 w),
     ucast (drop_bit 32 w), ucast (drop_bit 40 w), ucast (drop_bit 48 w), ucast (drop_bit 56 w)]"
  by (simp add: eval_nat_numeral)

lemma emits_fixed32 [emits_intros]: "emits (\<lambda>st. pb_encode_fixed32 st v) (le_bytes 4 v)"
proof -
  have "emits (\<lambda>st. pb_write st (le_bytes 4 v) 4) (le_bytes 4 v)"
    by (rule pb_write_emits) (simp_all add: SIZE_MODULUS_def)
  then show ?thesis by (simp add: pb_encode_fixed32_def ucast_and_FF le_bytes_4)
qed

lemma emits_fixed64 [emits_intros]: "emits (\<lambda>st. pb_encode_fixed64 st v) (le_bytes 8 v)"
proof -
  have "emits (\<lambda>st. pb_write st (le_bytes 8 v) 8) (le_bytes 8 v)"
    by (rule pb_write_emits) (simp_all add: SIZE_MODULUS_def)
  then show ?thesis by (simp add: pb_encode_fixed64_def ucast_and_FF le_bytes_8)
qed

text \<open>The number a tag is written as.\<close>

definition tag_value :: "nat \<Rightarrow> nat \<Rightarrow> nat" where
  "tag_value wiretype field_number = 8 * field_number + wiretype"

lemma tag_word:
  assumes "unat wt < 8"
  shows "unat (push_bit 3 (ucast (t :: uint32)) OR ucast (wt :: uint32) :: uint64)
         = tag_value (unat wt) (unat t)"
proof -
  have t: "unat t < 2 ^ 32" using unsigned_less [of t, where ?'a = nat] by simp
  have "push_bit 3 (ucast t) OR ucast wt = (of_nat (unat wt) :: uint64) OR push_bit 3 (of_nat (unat t))"
    by (simp add: or.commute)
  also have "\<dots> = of_nat (unat wt + 2 ^ 3 * unat t)"
    by (rule or_push_bit_of_nat) (use assms in simp)
  finally show ?thesis
    using assms t by (simp add: unat_of_nat tag_value_def del: of_nat_add of_nat_mult)
qed

lemma emits_tag [emits_intros]:
  "unat wt < 8 \<Longrightarrow> emits (\<lambda>st. pb_encode_tag st wt t) (leb128 (tag_value (unat wt) (unat t)))"
  unfolding pb_encode_tag_def
  using emits_varint [of "push_bit 3 (ucast t) OR ucast wt"] by (simp only: tag_word)

text \<open>A block of bytes after its length, written as a \<open>size_t\<close>.\<close>

definition length_prefixed :: "byte list \<Rightarrow> byte list" where
  "length_prefixed bs = leb128 (length bs mod SIZE_MODULUS) @ bs"

lemma length_prefixed_small: "length bs < SIZE_MODULUS \<Longrightarrow> length_prefixed bs = leb128 (length bs) @ bs"
  by (simp add: length_prefixed_def)

lemma emits_length [emits_intros]:
  "emits (\<lambda>st. pb_encode_varint st (of_nat n)) (leb128 (n mod SIZE_MODULUS))"
  using emits_varint [of "of_nat n"] by (simp add: unat_of_nat SIZE_MODULUS_def)

lemma emits_string [emits_intros]:
  "length bs = n \<Longrightarrow> emits (\<lambda>st. pb_encode_string st bs n) (length_prefixed bs)"
  unfolding pb_encode_string_def length_prefixed_def
  using emits_seq [OF emits_length pb_write_emits] by simp

section \<open>What the decoders consume\<close>

text \<open>A memory stream after reading \<open>n\<close> bytes.\<close>

definition advance :: "nat \<Rightarrow> pb_istream \<Rightarrow> pb_istream" where
  "advance n st = st\<lparr>istate := drop n (istate st), bytes_left := bytes_left st - n\<rparr>"

lemma advance_sel [simp]:
  "icallback (advance n st) = icallback st"
  "istate (advance n st) = drop n (istate st)"
  "bytes_left (advance n st) = bytes_left st - n"
  "ierrmsg (advance n st) = ierrmsg st"
  by (simp_all add: advance_def)

lemma advance_0 [simp]: "advance 0 st = st"
  by (simp add: advance_def)

lemma advance_advance [simp]: "advance n (advance m st) = advance (m + n) st"
  by (simp add: advance_def add.commute)

text \<open>\<open>offers st bs\<close>: the stream reads from memory, and the bytes \<open>bs\<close> come next within its
  limit.\<close>

definition offers :: "pb_istream \<Rightarrow> byte list \<Rightarrow> bool" where
  "offers st bs \<longleftrightarrow>
     icallback st = Buf_read \<and> length bs \<le> bytes_left st \<and> (\<exists>rest. istate st = bs @ rest)"

definition consumes :: "(pb_istream \<Rightarrow> (pb_istream, 'a) res) \<Rightarrow> byte list \<Rightarrow> 'a \<Rightarrow> bool" where
  "consumes dec bs v \<longleftrightarrow> (\<forall>st. offers st bs \<longrightarrow> dec st = Ret v (advance (length bs) st))"

lemma consumesI:
  "(\<And>st. offers st bs \<Longrightarrow> dec st = Ret v (advance (length bs) st)) \<Longrightarrow> consumes dec bs v"
  by (simp add: consumes_def)

lemma consumesD: "consumes dec bs v \<Longrightarrow> offers st bs \<Longrightarrow> dec st = Ret v (advance (length bs) st)"
  by (simp add: consumes_def)

lemma offers_append: "offers st (bs @ cs) \<longleftrightarrow> offers st bs \<and> offers (advance (length bs) st) cs"
  by (auto simp: offers_def append_eq_conv_conj)

lemma offers_Cons: "offers st (b # bs) \<longleftrightarrow> offers st [b] \<and> offers (advance 1 st) bs"
  using offers_append [of st "[b]" bs] by simp

lemma offers_Nil [simp]: "offers st [] \<longleftrightarrow> icallback st = Buf_read"
  by (simp add: offers_def)

lemma consumes_bind:
  assumes "consumes d bs v" and "consumes (g v) cs w"
  shows "consumes (\<lambda>st. rbind (d st) g) (bs @ cs) w"
  by (rule consumesI) (simp add: offers_append consumesD [OF assms(1)] consumesD [OF assms(2)])

lemma consumes_Ret: "consumes (\<lambda>st. Ret v st) [] v"
  by (rule consumesI) simp

lemma consumes_map:
  assumes "consumes d bs v"
  shows "consumes (\<lambda>st. rbind (d st) (\<lambda>v st. Ret (f v) st)) bs (f v)"
  using consumes_bind [OF assms consumes_Ret] by simp

lemma pb_readbyte_consumes: "offers st [b] \<Longrightarrow> pb_readbyte st = Ret b (advance 1 st)"
  by (auto simp: offers_def pb_readbyte_def run_icallback_def buf_read_def advance_def)

lemma pb_read_buf_consumes: "consumes (\<lambda>st. pb_read_buf st (length bs)) bs bs"
  by (rule consumesI)
     (auto simp: offers_def pb_read_buf_def run_icallback_def buf_read_def advance_def)

lemma pb_read_null_consumes: "length bs = n \<Longrightarrow> consumes (\<lambda>st. pb_read_null st n) bs ()"
  by (rule consumesI)
     (auto simp: offers_def pb_read_null_def pb_read_buf_def run_icallback_def buf_read_def
        advance_def)

subsection \<open>Varints\<close>

text \<open>Folding one more byte into the value read so far.\<close>

lemma leb_value_snoc_word:
  assumes "7 * length seen = p"
  shows "(of_nat (leb_value seen) :: 'a::len word) OR push_bit p (ucast ((b :: byte) AND 0x7F))
         = of_nat (leb_value (seen @ [b]))"
proof -
  have e: "(128 :: nat) ^ length seen = 2 ^ p"
    using power_mult [of "2::nat" 7 "length seen"] assms by simp
  have "leb_value seen < 2 ^ p" using leb_value_bound [of seen] by (simp only: e)
  then have "(of_nat (leb_value seen) :: 'a word) OR push_bit p (of_nat (unat b mod 128))
      = of_nat (leb_value seen + 2 ^ p * (unat b mod 128))"
    by (rule or_push_bit_of_nat)
  then show ?thesis unfolding ucast_and_7F leb_value_append e by simp
qed

lemma varint64_loop_group:
  assumes "leb_group bs" and "length seen + length bs \<le> 10" and "offers st bs"
  shows "varint64_loop (7 * length seen) (of_nat (leb_value seen)) st
         = Ret (of_nat (leb_value (seen @ bs))) (advance (length bs) st)"
  using assms
proof (induction bs arbitrary: seen st)
  case Nil
  then show ?case by simp
next
  case (Cons b bs)
  let ?k = "7 * length seen"
  have k: "?k < 64" "(?k + 7) mod 256 = 7 * length (seen @ [b])" using Cons.prems(2) by simp_all
  have b: "pb_readbyte st = Ret b (advance 1 st)" and rest: "offers (advance 1 st) bs"
    using Cons.prems(3) offers_Cons pb_readbyte_consumes by blast+
  have step: "varint64_loop ?k (of_nat (leb_value seen)) st =
      (if b AND 0x80 \<noteq> 0
       then varint64_loop (7 * length (seen @ [b])) (of_nat (leb_value (seen @ [b]))) (advance 1 st)
       else Ret (of_nat (leb_value (seen @ [b]))) (advance 1 st))"
    using k by (subst varint64_loop.simps)
      (simp only: b res.case Let_def leb_value_snoc_word [OF refl] not_le [symmetric] if_False)
  show ?case
  proof (cases "b AND 0x80 = 0")
    case True
    with Cons.prems(1) have "bs = []" by (simp add: leb_group_Cons)
    with step True show ?thesis by simp
  next
    case False
    with Cons.prems(1) have "leb_group bs" by (simp add: leb_group_Cons)
    with Cons.IH [OF this _ rest, of "seen @ [b]"] Cons.prems(2) step False show ?thesis by simp
  qed
qed

theorem pb_decode_varint_group:
  "leb_group bs \<Longrightarrow> length bs \<le> 10 \<Longrightarrow> consumes pb_decode_varint bs (of_nat (leb_value bs))"
  using varint64_loop_group [of bs "[]"] by (auto intro!: consumesI simp: pb_decode_varint_def)

named_theorems consumes_intros \<open>what the decoders of the code consume\<close>

lemma consumes_varint [consumes_intros]: "consumes pb_decode_varint (leb128 (unat v)) v"
  using pb_decode_varint_group [OF leb_group_leb128 length_leb128_uint64, of v]
  by (simp only: leb_value_leb128) simp

lemma byte_low4: "unat (b :: byte) < 16 \<Longrightarrow> b AND 0x70 = 0"
proof -
  assume "unat b < 16"
  then have "take_bit 4 b = b" using take_bit_of_nat_small [where 'a = 8, of "unat b" 4] by simp
  moreover have "take_bit 4 b AND push_bit 4 c = 0" for c :: byte
    by (rule bit_word_eqI) (auto simp: bit_simps)
  from this [of 7] have "take_bit 4 b AND 0x70 = 0" by simp
  ultimately show ?thesis by simp
qed

text \<open>A group of at most five bytes whose value fits.\<close>

lemma varint32_loop_group:
  assumes "leb_group bs" and "length seen + length bs \<le> 5" and "offers st bs"
    and "leb_value (seen @ bs) < 2 ^ 32"
  shows "varint32_loop (7 * length seen) (of_nat (leb_value seen)) st
         = Ret (of_nat (leb_value (seen @ bs))) (advance (length bs) st)"
  using assms
proof (induction bs arbitrary: seen st)
  case Nil
  then show ?case by simp
next
  case (Cons b bs)
  let ?k = "7 * length seen"
  have k: "\<not> 32 \<le> ?k" "(?k + 7) mod 256 = 7 * length (seen @ [b])" using Cons.prems(2) by simp_all
  have b: "pb_readbyte st = Ret b (advance 1 st)" and rest: "offers (advance 1 st) bs"
    using Cons.prems(3) offers_Cons pb_readbyte_consumes by blast+
  have step: "varint32_loop ?k (of_nat (leb_value seen)) st =
      (if b AND 0x80 \<noteq> 0
       then varint32_loop (7 * length (seen @ [b])) (of_nat (leb_value (seen @ [b]))) (advance 1 st)
       else if 7 * length (seen @ [b]) = 35 \<and> b AND 0x70 \<noteq> 0
       then Fail (iset_error ''varint overflow'' (advance 1 st))
       else Ret (of_nat (leb_value (seen @ [b]))) (advance 1 st))"
    by (subst varint32_loop.simps)
      (simp only: b res.case Let_def leb_value_snoc_word [OF refl] k if_False simp_thms)
  show ?case
  proof (cases "b AND 0x80 = 0")
    case True
    with Cons.prems(1) have bs: "bs = []" by (simp add: leb_group_Cons)
    have "b AND 0x70 = 0" if "length seen = 4"
    proof -
      have "2 ^ 28 * (unat b mod 128) \<le> leb_value (seen @ [b])"
        using that by (simp add: leb_value_append)
      with Cons.prems(4) bs have "2 ^ 28 * (unat b mod 128) < 2 ^ 28 * (16::nat)" by simp
      then have "unat b mod 128 < 16" by simp
      with True show ?thesis by (intro byte_low4) (simp add: byte_top_clear)
    qed
    with step True bs show ?thesis by auto
  next
    case False
    with Cons.prems(1) have "leb_group bs" by (simp add: leb_group_Cons)
    with Cons.IH [OF this _ rest, of "seen @ [b]"] Cons.prems(2,4) step False show ?thesis by simp
  qed
qed

lemma pb_decode_varint32_group:
  assumes "leb_group bs" and "length bs \<le> 5" and "leb_value bs < 2 ^ 32" and "offers st bs"
  shows "pb_decode_varint32_eof st = (Ret (of_nat (leb_value bs)) (advance (length bs) st), False)"
proof -
  from assms(1) obtain b cs where bs: "bs = b # cs" by (cases bs) auto
  with assms(4) have b: "pb_readbyte st = Ret b (advance 1 st)" and rest: "offers (advance 1 st) cs"
    using offers_Cons pb_readbyte_consumes by blast+
  show ?thesis
  proof (cases "b AND 0x80 = 0")
    case True
    with assms(1) bs have "cs = []" by (simp add: leb_group_Cons)
    moreover from True have "unat b mod 128 = unat b" by (simp add: byte_top_clear)
    ultimately show ?thesis using True bs b by (simp add: pb_decode_varint32_eof_def)
  next
    case False
    with assms(1) bs have g: "leb_group cs" by (simp add: leb_group_Cons)
    have "ucast (b AND 0x7F) = (of_nat (leb_value [b]) :: uint32)" by (simp add: ucast_and_7F)
    with varint32_loop_group [OF g _ rest, of "[b]"] assms bs b False show ?thesis
      by (simp add: pb_decode_varint32_eof_def)
  qed
qed

lemma leb128_uint32: "length (leb128 (unat (v :: uint32))) \<le> 5" "unat v < 2 ^ 32"
proof -
  show v: "unat v < 2 ^ 32" using unsigned_less [of v, where ?'a = nat] by simp
  then show "length (leb128 (unat v)) \<le> 5" by (intro length_leb128) simp_all
qed

lemma consumes_varint32 [consumes_intros]: "consumes pb_decode_varint32 (leb128 (unat v)) v"
proof (rule consumesI)
  fix st assume "offers st (leb128 (unat v))"
  then show "pb_decode_varint32 st = Ret v (advance (length (leb128 (unat v))) st)"
    using pb_decode_varint32_group [OF leb_group_leb128 leb128_uint32(1) _, of v st]
    by (simp add: pb_decode_varint32_def leb128_uint32(2) [simplified])
qed

subsection \<open>Zig-zag, fixed-width values, strings and tags\<close>

lemma consumes_svarint [consumes_intros]: "consumes pb_decode_svarint (leb128 (zigzag (sint v))) v"
proof -
  have "pb_decode_svarint = (\<lambda>st. rbind (pb_decode_varint st) (\<lambda>v st. Ret (unzigzag64 v) st))"
    by (simp add: fun_eq_iff pb_decode_svarint_def unzigzag64_def)
  with consumes_map [OF consumes_varint [of "zigzag64 v"], of unzigzag64] show ?thesis
    by (simp add: zigzag64_value)
qed

lemma le_word_4:
  assumes "length bs = 4"
  shows "le_word bs =
    (push_bit 0 (ucast (bs ! 0)) OR push_bit 8 (ucast (bs ! 1))
     OR push_bit 16 (ucast (bs ! 2)) OR push_bit 24 (ucast (bs ! 3)) :: 'a::len word)"
proof -
  from assms obtain a b c d where "bs = [a, b, c, d]"
    by (auto simp: eval_nat_numeral length_Suc_conv)
  then show ?thesis by (simp add: push_bit_or or.assoc)
qed

lemma le_word_8:
  assumes "length bs = 8"
  shows "le_word bs =
    (push_bit 0 (ucast (bs ! 0)) OR push_bit 8 (ucast (bs ! 1))
     OR push_bit 16 (ucast (bs ! 2)) OR push_bit 24 (ucast (bs ! 3))
     OR push_bit 32 (ucast (bs ! 4)) OR push_bit 40 (ucast (bs ! 5))
     OR push_bit 48 (ucast (bs ! 6)) OR push_bit 56 (ucast (bs ! 7)) :: 'a::len word)"
proof -
  from assms obtain a b c d e f g h where "bs = [a, b, c, d, e, f, g, h]"
    by (auto simp: eval_nat_numeral length_Suc_conv)
  then show ?thesis by (simp add: push_bit_or or.assoc)
qed

lemma consumes_fixed32 [consumes_intros]: "consumes pb_decode_fixed32 (le_bytes 4 v) v"
proof (rule consumesI)
  fix st assume "offers st (le_bytes 4 v)"
  then have r: "pb_read_buf st 4 = Ret (le_bytes 4 v) (advance 4 st)"
    using consumesD [OF pb_read_buf_consumes, of st "le_bytes 4 v"] by simp
  have "le_word (le_bytes 4 v) = v" by (simp add: le_word_le_bytes take_bit_word_eq_self)
  then show "pb_decode_fixed32 st = Ret v (advance (length (le_bytes 4 v)) st)"
    unfolding pb_decode_fixed32_def r rbind.simps le_word_4 [OF length_le_bytes, symmetric] by simp
qed

lemma consumes_fixed64 [consumes_intros]: "consumes pb_decode_fixed64 (le_bytes 8 v) v"
proof (rule consumesI)
  fix st assume "offers st (le_bytes 8 v)"
  then have r: "pb_read_buf st 8 = Ret (le_bytes 8 v) (advance 8 st)"
    using consumesD [OF pb_read_buf_consumes, of st "le_bytes 8 v"] by simp
  have "le_word (le_bytes 8 v) = v" by (simp add: le_word_le_bytes take_bit_word_eq_self)
  then show "pb_decode_fixed64 st = Ret v (advance (length (le_bytes 8 v)) st)"
    unfolding pb_decode_fixed64_def r rbind.simps le_word_8 [OF length_le_bytes, symmetric] by simp
qed

text \<open>Tags.\<close>

lemma tag_value_split:
  "w < 8 \<Longrightarrow> tag_value w t div 8 = t" "w < 8 \<Longrightarrow> tag_value w t mod 8 = w"
  by (simp_all add: tag_value_def)

lemma and_7_take_bit: "(w :: uint32) AND 7 = take_bit 3 w"
  using take_bit_eq_mask [of 3 w] by (simp add: mask_eq_exp_minus_1)

lemma pb_decode_tag_consumes:
  assumes "w < 8" and "0 < t" and "t < 2 ^ 29" and "offers st (leb128 (tag_value w t))"
  shows "pb_decode_tag st =
    (Ret (of_nat w, of_nat t) (advance (length (leb128 (tag_value w t))) st), False)"
proof -
  let ?v = "of_nat (tag_value w t) :: uint32"
  have lt: "tag_value w t < 2 ^ 32" using assms(1,3) by (simp add: tag_value_def)
  have len: "length (leb128 (tag_value w t)) \<le> 5"
    by (rule length_leb128) (rule less_trans [OF lt], simp_all)
  have u: "unat ?v = tag_value w t" using lt by (simp add: unat_of_nat)
  have "?v \<noteq> 0" using u assms(2) by (auto simp: tag_value_def)
  moreover have "?v AND 7 = of_nat w"
  proof -
    have "unat (?v AND 7) = unat (of_nat w :: uint32)"
      using assms(1) by (simp only: and_7_take_bit unat_take_bit u)
        (simp add: tag_value_split unat_of_nat)
    then show ?thesis by (simp only: word_unat_eq_iff)
  qed
  moreover have "drop_bit 3 ?v = of_nat t"
  proof -
    have "unat (drop_bit 3 ?v) = unat (of_nat t :: uint32)"
      using assms by (simp only: unat_drop_bit u) (simp add: tag_value_split unat_of_nat)
    then show ?thesis by (simp only: word_unat_eq_iff)
  qed
  ultimately show ?thesis
    using pb_decode_varint32_group [OF leb_group_leb128 len _ assms(4)] lt
    by (simp add: pb_decode_tag_def)
qed

end
