(* ===== verification/Nanopb_Encode_Correct.thy ===== *)
theory Nanopb_Encode_Correct
  imports Nanopb_Encode Nanopb_Codec
begin

text \<open>
  The two passes of the encoder agree. \<open>pb_encode_submessage\<close> and \<open>encode_array\<close> first run the
  encoder on a sizing stream to learn the length, write it, and run the encoder again to write the
  bytes. \<open>sized f\<close> says that whenever \<open>f\<close> succeeds on a sizing stream, it emits one fixed byte
  string on every memory stream. The locale \<open>message_encoder\<close> is what the field encoders need of
  the encoder of submessages; \<open>pb_encode\<close> satisfies it.
\<close>

section \<open>Encoders whose sizing pass is exact\<close>

definition sizing :: "pb_ostream \<Rightarrow> bool" where
  "sizing st \<longleftrightarrow> ocallback st = No_write \<and> bytes_written st < SIZE_MODULUS \<and> oerrmsg st = None"

definition sized :: "(pb_ostream \<Rightarrow> (pb_ostream, unit) res) \<Rightarrow> bool" where
  "sized f \<longleftrightarrow> (\<forall>st st'. sizing st \<longrightarrow> f st = Ret () st' \<longrightarrow> (\<exists>bs. emits f bs))"

text \<open>Packed arrays of fixed-width numbers are sized without looking at the items, so behind a
  null pointer only the second pass would notice. The descriptors must not have them.\<close>

fun sizable :: "pb_field \<Rightarrow> bool" and sizable_ptr :: "pb_ptr \<Rightarrow> bool" where
  "sizable (Pb_field t ty off soff dsize asize p) =
     (\<not> (PB_HTYPE ty = PB_HTYPE_REPEATED \<and> PB_ATYPE ty = PB_ATYPE_POINTER
         \<and> (PB_LTYPE ty = PB_LTYPE_FIXED32 \<or> PB_LTYPE ty = PB_LTYPE_FIXED64))
      \<and> sizable_ptr p)"
| "sizable_ptr (Ptr_fields fs) = (\<forall>f \<in> set fs. sizable f)"
| "sizable_ptr p = True"

text \<open>The callbacks of the user write the same bytes every time, and extensions are sizable and
  are not arrays.\<close>

definition steady_env :: "pb_env \<Rightarrow> bool" where
  "steady_env env \<longleftrightarrow>
     (\<forall>p m f a. sized (enc_callback env p m f a)) \<and>
     (\<forall>p ty. ext_type env p = Some ty \<longrightarrow>
        sizable (ext_arg ty) \<and> htype (ext_arg ty) \<noteq> PB_HTYPE_REPEATED \<and>
        (\<forall>enc m a. ext_encode ty = Some enc \<longrightarrow> sized (enc m a)))"

lemma sizable_iff:
  "sizable f \<longleftrightarrow>
     \<not> (htype f = PB_HTYPE_REPEATED \<and> atype f = PB_ATYPE_POINTER
        \<and> (ltype f = PB_LTYPE_FIXED32 \<or> ltype f = PB_LTYPE_FIXED64)) \<and> sizable_ptr (ptr f)"
  by (cases f) simp

lemma sizedD: "sized f \<Longrightarrow> sizing st \<Longrightarrow> f st = Ret () st' \<Longrightarrow> \<exists>bs. emits f bs"
  by (simp add: sized_def)

named_theorems sized_intros \<open>encoders whose sizing pass is exact\<close>

lemma sized_emits: "emits f bs \<Longrightarrow> sized f"
  by (auto simp: sized_def)

lemma sized_Ret [sized_intros]: "sized (Ret ())"
  using emits_Nil by (auto intro: sized_emits)

lemma sized_Fail [sized_intros]: "sized (\<lambda>st. Fail (g st))"
  by (simp add: sized_def)

lemma sized_Undef [sized_intros]: "sized (\<lambda>st. Undef)"
  by (simp add: sized_def)

lemma emits_sizing_state:
  "emits f bs \<Longrightarrow> sizing st \<Longrightarrow> f st = Ret () (add_written (length bs) st)"
  by (simp add: emits_sizing sizing_def)

lemma sizing_add_written: "sizing st \<Longrightarrow> sizing (add_written n st)"
  by (simp add: sizing_def size_add_lt)

lemma sizing_PB_OSTREAM_SIZING [simp]: "sizing PB_OSTREAM_SIZING"
  by (simp add: sizing_def PB_OSTREAM_SIZING_def SIZE_MODULUS_def)

lemma bytes_written_sizing_pass:
  assumes "emits f bs"
  shows "f PB_OSTREAM_SIZING = Ret () (add_written (length bs) PB_OSTREAM_SIZING)"
    and "bytes_written (add_written (length bs) PB_OSTREAM_SIZING) = length bs mod SIZE_MODULUS"
proof -
  show "f PB_OSTREAM_SIZING = Ret () (add_written (length bs) PB_OSTREAM_SIZING)"
    by (rule emits_sizing_state [OF assms]) simp
  show "bytes_written (add_written (length bs) PB_OSTREAM_SIZING) = length bs mod SIZE_MODULUS"
    by (simp add: PB_OSTREAM_SIZING_def size_add_def)
qed

lemma sized_seq [sized_intros]:
  assumes "sized f" and "sized g"
  shows "sized (\<lambda>st. rbind (f st) (\<lambda>_ st. g st))"
  unfolding sized_def
proof (intro allI impI)
  fix st st' assume st: "sizing st" and r: "rbind (f st) (\<lambda>_ st. g st) = Ret () st'"
  then obtain t where f: "f st = Ret () t" and g: "g t = Ret () st'" by (auto simp: rbind_Ret_iff)
  from sizedD [OF assms(1) st f] obtain bs where bs: "emits f bs" by blast
  from emits_sizing_state [OF this st] f have "t = add_written (length bs) st" by simp
  with st have "sizing t" by (simp add: sizing_add_written)
  from sizedD [OF assms(2) this g] obtain cs where "emits g cs" by blast
  with bs show "\<exists>bs. emits (\<lambda>st. rbind (f st) (\<lambda>_ st. g st)) bs" by (blast intro: emits_seq)
qed

lemma sized_if [sized_intros]:
  "(b \<Longrightarrow> sized f) \<Longrightarrow> (\<not> b \<Longrightarrow> sized g) \<Longrightarrow> sized (\<lambda>st. if b then f st else g st)"
  by (cases b) simp_all

lemma sized_option [sized_intros]:
  "(x = None \<Longrightarrow> sized f) \<Longrightarrow> (\<And>v. x = Some v \<Longrightarrow> sized (g v))
   \<Longrightarrow> sized (\<lambda>st. case x of None \<Rightarrow> f st | Some v \<Rightarrow> g v st)"
  by (cases x) simp_all

lemma sized_ptr [sized_intros]:
  "(\<And>fs. p = Ptr_fields fs \<Longrightarrow> sized (g fs)) \<Longrightarrow> sized f \<Longrightarrow> (\<And>bs. sized (k bs))
   \<Longrightarrow> sized (\<lambda>st. case p of Ptr_null \<Rightarrow> f st | Ptr_fields fs \<Rightarrow> g fs st | Ptr_default bs \<Rightarrow> k bs st)"
  by (cases p) simp_all

lemma sized_varint [sized_intros]: "sized (\<lambda>st. pb_encode_varint st v)"
  by (rule sized_emits [OF emits_varint])

lemma sized_svarint [sized_intros]: "sized (\<lambda>st. pb_encode_svarint st v)"
  by (rule sized_emits [OF emits_svarint])

lemma sized_fixed [sized_intros]:
  "sized (\<lambda>st. pb_encode_fixed32 st v)" "sized (\<lambda>st. pb_encode_fixed64 st w)"
  by (rule sized_emits [OF emits_fixed32] sized_emits [OF emits_fixed64])+

lemma sized_string [sized_intros]: "length bs = n \<Longrightarrow> sized (\<lambda>st. pb_encode_string st bs n)"
  by (rule sized_emits [OF emits_string])

lemma sized_tag [sized_intros]: "sized (\<lambda>st. pb_encode_tag st wt t)"
  unfolding pb_encode_tag_def by (rule sized_varint)

lemma sized_tag_for_field [sized_intros]: "sized (\<lambda>st. pb_encode_tag_for_field st f)"
  unfolding pb_encode_tag_for_field_def Let_def by (intro sized_intros)

section \<open>Submessages\<close>

text \<open>The second part of \<open>pb_encode_submessage\<close>, after the length.\<close>

definition submessage_body :: "(pb_ostream \<Rightarrow> (pb_ostream, unit) res) \<Rightarrow> nat \<Rightarrow> pb_ostream
    \<Rightarrow> (pb_ostream, unit) res" where
  "submessage_body enc n st =
     (case ocallback st of
        No_write \<Rightarrow> pb_write st [] n
      | _ \<Rightarrow>
        (if max_size st < size_add (bytes_written st) n
         then Fail (oset_error ''stream full'' st)
         else (let r = enc
                         \<lparr>ocallback = ocallback st, ostate = ostate st, max_size = n,
                          bytes_written = 0, oerrmsg = None\<rparr>
               in case res_state r of
                    None \<Rightarrow> Undef
                  | Some s \<Rightarrow>
                      (let st' = st\<lparr>bytes_written :=
                                      size_add (bytes_written st) (bytes_written s),
                                    ostate := ostate s, oerrmsg := oerrmsg s\<rparr>
                       in if bytes_written s \<noteq> n
                          then Fail (oset_error ''submsg size changed'' st')
                          else (case r of Ret _ _ \<Rightarrow> Ret () st' | _ \<Rightarrow> Fail st')))))"

lemma pb_encode_submessage_body:
  assumes "sub fs src PB_OSTREAM_SIZING = Ret () s"
  shows "pb_encode_submessage sub fs src st =
         rbind (pb_encode_varint st (of_nat (bytes_written s))) (\<lambda>_ st.
           submessage_body (sub fs src) (bytes_written s) st)"
proof -
  have e: "s\<lparr>ocallback := ocallback t, ostate := ostate t, max_size := bytes_written s,
        bytes_written := 0, oerrmsg := None\<rparr>
      = \<lparr>ocallback = ocallback t, ostate = ostate t, max_size = bytes_written s,
         bytes_written = 0, oerrmsg = None\<rparr>" for t :: pb_ostream
    by (cases s) simp
  show ?thesis
    unfolding pb_encode_submessage_def submessage_body_def assms Let_def e [symmetric] by simp
qed

lemma emits_submessage_body:
  assumes "emits enc bs"
  shows "emits (submessage_body enc (length bs mod SIZE_MODULUS)) bs"
proof (rule emitsI)
  fix st :: pb_ostream assume "ocallback st = No_write"
  then show "submessage_body enc (length bs mod SIZE_MODULUS) st
      = Ret () (add_written (length bs) st)"
    by (simp add: submessage_body_def pb_write_def add_written_def size_add_def mod_add_right_eq)
next
  fix st :: pb_ostream assume st: "ocallback st = Buf_write" "room_for st (length bs)"
    "bytes_written st + length bs \<le> max_size st"
  let ?sub = "\<lparr>ocallback = Buf_write, ostate = ostate st, max_size = length bs,
      bytes_written = 0, oerrmsg = None\<rparr>"
  from st have lt: "max_size st + length bs < SIZE_MODULUS" "oerrmsg st = None"
    by (simp_all add: room_for_def)
  then have "enc ?sub = Ret () (appended bs ?sub)"
    using st by (intro emits_stores [OF assms]) (auto simp: room_for_def)
  moreover have "size_add (bytes_written st) (length bs) = bytes_written st + length bs"
    using st lt by (intro size_add_exact) simp
  ultimately show "submessage_body enc (length bs mod SIZE_MODULUS) st
      = Ret () (appended bs st)"
    using st lt by (cases st) (simp add: submessage_body_def appended_def)
next
  fix st :: pb_ostream assume st: "ocallback st = Buf_write" "room_for st (length bs)"
    "max_size st < bytes_written st + length bs"
  then have "size_add (bytes_written st) (length bs) = bytes_written st + length bs"
    "length bs < SIZE_MODULUS"
    by (auto intro!: size_add_exact simp: room_for_def)
  with st have "submessage_body enc (length bs mod SIZE_MODULUS) st
      = Fail ((appended (take 0 bs) st)\<lparr>oerrmsg := Some ''stream full''\<rparr>)"
    by (simp add: submessage_body_def oset_error_def room_for_def)
  with st show "overflows bs st (submessage_body enc (length bs mod SIZE_MODULUS) st)"
    unfolding overflows_def by (intro exI [of _ 0] exI [of _ "''stream full''"]) (simp add: room_for_def)
qed

lemma emits_submessage:
  assumes "emits (sub fs src) bs"
  shows "emits (pb_encode_submessage sub fs src) (length_prefixed bs)"
proof -
  note s = bytes_written_sizing_pass [OF assms]
  have "pb_encode_submessage sub fs src =
      (\<lambda>st. rbind (pb_encode_varint st (of_nat (length bs mod SIZE_MODULUS)))
         (\<lambda>_ st. submessage_body (sub fs src) (length bs mod SIZE_MODULUS) st))"
    unfolding fun_eq_iff using pb_encode_submessage_body [of sub fs src, OF s(1)] by (simp only: s(2) simp_thms)
  with emits_seq [OF emits_length emits_submessage_body [OF assms], of "length bs mod SIZE_MODULUS"]
  show ?thesis by (simp only: length_prefixed_def mod_mod_trivial)
qed

lemma sized_submessage:
  assumes "sized (sub fs src)"
  shows "sized (pb_encode_submessage sub fs src)"
  unfolding sized_def
proof (intro allI impI)
  fix st st' assume "sizing st" and "pb_encode_submessage sub fs src st = Ret () st'"
  then obtain s where "sub fs src PB_OSTREAM_SIZING = Ret () s"
    by (auto simp: pb_encode_submessage_def split: res.splits)
  from sizedD [OF assms _ this] obtain bs where "emits (sub fs src) bs" by auto
  then show "\<exists>bs. emits (pb_encode_submessage sub fs src) bs"
    by (intro exI) (rule emits_submessage [of sub fs src])
qed

section \<open>Items of an array\<close>

lemma enc_items_fun:
  "enc_items f stride 0 p = Ret ()"
  "enc_items f stride (Suc k) p
   = (\<lambda>st. rbind (f p st) (\<lambda>_ st. enc_items f stride k (p + int stride) st))"
  by (simp_all add: fun_eq_iff)

lemma sized_enc_items:
  assumes "\<And>q. p \<le> q \<Longrightarrow> sized (f q)"
  shows "sized (enc_items f stride count p)"
  using assms
  by (induction count arbitrary: p) (simp_all add: enc_items_fun sized_Ret sized_seq)

lemma emits_enc_items:
  assumes "\<And>q. p \<le> q \<Longrightarrow> emits (f q) (g q)" and "\<And>q. length (g q) = k"
  shows "\<exists>bs. emits (enc_items f stride count p) bs \<and> length bs = k * count"
  using assms(1)
proof (induction count arbitrary: p)
  case 0
  then show ?case using emits_Nil by (auto simp: enc_items_fun)
next
  case (Suc c)
  then obtain bs where "emits (enc_items f stride c (p + int stride)) bs" "length bs = k * c"
    by (metis add_increasing2 of_nat_0_le_iff order_trans le_add_same_cancel1)
  with emits_seq [OF Suc.prems [of p]] assms(2) show ?case
    by (fastforce simp: enc_items_fun)
qed

text \<open>Setting an error after a failure keeps the first message.\<close>

lemma sized_on_fail:
  assumes "sized f"
  shows "sized (\<lambda>st. case f st of Fail st' \<Rightarrow> Fail (oset_error msg st') | r \<Rightarrow> r)" (is "sized ?g")
  unfolding sized_def
proof (intro allI impI)
  fix st st' assume "sizing st" and "?g st = Ret () st'"
  then have "f st = Ret () st'" by (auto split: res.splits)
  from sizedD [OF assms \<open>sizing st\<close> this] obtain bs where bs: "emits f bs" by blast
  have "emits ?g bs"
  proof (rule emitsI)
    fix st :: pb_ostream assume "ocallback st = Buf_write" "room_for st (length bs)"
      "max_size st < bytes_written st + length bs"
    from emits_overflows [OF bs this] show "overflows bs st (?g st)"
      by (force simp: overflows_def oset_error_def)
  qed (simp_all add: emits_sizing [OF bs] emits_stores [OF bs])
  then show "\<exists>bs. emits ?g bs" by blast
qed

text \<open>The end of a packed array: on a sizing stream only the length counts.\<close>

lemma emits_packed_body:
  assumes "emits enc bs" and "n mod SIZE_MODULUS = length bs mod SIZE_MODULUS"
  shows "emits (\<lambda>st. case ocallback st of No_write \<Rightarrow> pb_write st [] n | _ \<Rightarrow> enc st) bs"
proof (rule emitsI)
  fix st :: pb_ostream assume "ocallback st = No_write"
  moreover have "size_add (bytes_written st) n = size_add (bytes_written st) (length bs)"
    unfolding size_add_def by (rule mod_add_cong) (simp_all add: assms(2))
  ultimately show "(case ocallback st of No_write \<Rightarrow> pb_write st [] n | _ \<Rightarrow> enc st)
      = Ret () (add_written (length bs) st)"
    by (simp add: pb_write_def add_written_def)
qed (simp_all add: emits_stores [OF assms(1)] emits_overflows [OF assms(1)])

lemma load_ptr_nonneg [simp]: "0 \<le> load_ptr m a"
  by (simp add: load_ptr_def)

section \<open>The interface of the encoder of messages\<close>

text \<open>What the field encoders rely on.\<close>

locale message_encoder =
  fixes sub :: sub_encoder
  assumes sub_sized: "0 < src \<Longrightarrow> \<forall>f \<in> set fs. sizable f \<Longrightarrow> sized (sub fs src)"
begin

lemma sized_PB_ENCODERS:
  assumes "sizable f" and "0 \<le> src"
  shows "sized (PB_ENCODERS sub lt m f src)"
proof -
  have "sized (pb_enc_submessage sub m f src)" if "src \<noteq> NULL"
    unfolding pb_enc_submessage_def using assms that
    by (intro sized_intros sized_submessage sub_sized) (auto simp: sizable_iff)
  then show ?thesis
    unfolding PB_ENCODERS_def pb_enc_bytes_def pb_enc_string_def pb_enc_varint_def pb_enc_uvarint_def
      pb_enc_svarint_def pb_enc_fixed32_def pb_enc_fixed64_def pb_enc_fixed_length_bytes_def Let_def
    by (intro sized_intros) simp_all
qed

lemma packed_items_emit:
  assumes "sizable f" and "0 \<le> pd" and "packed_size sub m f pd count = Ret n s"
    and "ltype f = PB_LTYPE_FIXED32 \<or> ltype f = PB_LTYPE_FIXED64 \<Longrightarrow> 0 < pd"
  shows "\<exists>bs. emits (enc_items (PB_ENCODERS sub (ltype f) m f) (data_size f) count pd) bs
              \<and> n mod SIZE_MODULUS = length bs mod SIZE_MODULUS"
proof -
  consider "ltype f = PB_LTYPE_FIXED32" | "ltype f = PB_LTYPE_FIXED64"
    | "ltype f \<noteq> PB_LTYPE_FIXED32" "ltype f \<noteq> PB_LTYPE_FIXED64" by blast
  then show ?thesis
  proof cases
    case 1
    with assms have case_pd: "0 < pd" "ltype f = PB_LTYPE_FIXED32" and "n = 4 * count" by (simp_all add: packed_size_def)
    moreover have "emits (PB_ENCODERS sub (ltype f) m f q) (le_bytes 4 (load32 m q))"
      if "pd \<le> q" for q
    proof -
      have "PB_ENCODERS sub (ltype f) m f q = (\<lambda>st. pb_encode_fixed32 st (load32 m q))"
        using that case_pd by (simp add: fun_eq_iff PB_ENCODERS_def ltype_defs pb_enc_fixed32_def)
      then show ?thesis using emits_fixed32 by simp
    qed
    ultimately show ?thesis
      using emits_enc_items [of pd "PB_ENCODERS sub (ltype f) m f" "\<lambda>q. le_bytes 4 (load32 m q)" 4]
      by fastforce
  next
    case 2
    with assms have case_pd: "0 < pd" "ltype f = PB_LTYPE_FIXED64" and "n = 8 * count" by (simp_all add: packed_size_def ltype_defs)
    moreover have "emits (PB_ENCODERS sub (ltype f) m f q) (le_bytes 8 (load64 m q))"
      if "pd \<le> q" for q
    proof -
      have "PB_ENCODERS sub (ltype f) m f q = (\<lambda>st. pb_encode_fixed64 st (load64 m q))"
        using that case_pd by (simp add: fun_eq_iff PB_ENCODERS_def ltype_defs pb_enc_fixed64_def)
      then show ?thesis using emits_fixed64 by simp
    qed
    ultimately show ?thesis
      using emits_enc_items [of pd "PB_ENCODERS sub (ltype f) m f" "\<lambda>q. le_bytes 8 (load64 m q)" 8]
      by fastforce
  next
    case 3
    let ?e = "enc_items (PB_ENCODERS sub (ltype f) m f) (data_size f) count pd"
    from 3 assms(3) have r: "?e PB_OSTREAM_SIZING = Ret () s" "n = bytes_written s"
      by (auto simp: packed_size_def rbind_Ret_iff)
    have "sized ?e" using assms(1,2) by (intro sized_enc_items sized_PB_ENCODERS) auto
    from sizedD [OF this _ r(1)] obtain bs where bs: "emits ?e bs" by auto
    from bytes_written_sizing_pass [OF bs] r have "n = length bs mod SIZE_MODULUS" by auto
    with bs show ?thesis by auto
  qed
qed

lemma sized_encode_array:
  assumes "sizable f" and "0 \<le> pd"
    and "ltype f = PB_LTYPE_FIXED32 \<or> ltype f = PB_LTYPE_FIXED64 \<Longrightarrow> 0 < pd"
  shows "sized (encode_array sub m f pd count)"
proof -
  let ?e = "enc_items (PB_ENCODERS sub (ltype f) m f) (data_size f) count pd"
  have items: "sized (enc_items
      (\<lambda>p st. rbind (pb_encode_tag_for_field st f) (\<lambda>_ st. PB_ENCODERS sub (ltype f) m f
         (if atype f = PB_ATYPE_POINTER \<and> (ltype f = PB_LTYPE_STRING \<or> ltype f = PB_LTYPE_BYTES)
          then load_ptr m p else p) st)) (data_size f) count pd)"
    using assms(1,2) by (intro sized_enc_items sized_intros sized_PB_ENCODERS) auto
  have body: "sized (\<lambda>st. rbind (pb_encode_varint st (of_nat n)) (\<lambda>_ st.
      case ocallback st of No_write \<Rightarrow> pb_write st [] n | _ \<Rightarrow> ?e st))"
    if "packed_size sub m f pd count = Ret n s" for n s
  proof -
    from packed_items_emit [OF assms(1,2) that assms(3)] obtain bs where
      "emits ?e bs" "n mod SIZE_MODULUS = length bs mod SIZE_MODULUS" by auto
    from emits_packed_body [OF this] show ?thesis by (intro sized_seq sized_varint sized_emits)
  qed
  have "sized (\<lambda>st. case packed_size sub m f pd count of
      Undef \<Rightarrow> Undef | Fail _ \<Rightarrow> Fail st
    | Ret n _ \<Rightarrow> rbind (pb_encode_varint st (of_nat n)) (\<lambda>_ st.
        case ocallback st of No_write \<Rightarrow> pb_write st [] n | _ \<Rightarrow> ?e st))"
    using body by (cases "packed_size sub m f pd count") (simp_all add: sized_intros)
  then show ?thesis
    unfolding encode_array_def using items by (intro sized_intros)
qed

lemma sized_encode_basic_field:
  assumes "sizable f" and "0 \<le> pd" and "htype f = PB_HTYPE_REPEATED \<Longrightarrow> 0 < pd"
  shows "sized (encode_basic_field n sub m f pd)"
proof -
  let ?pd = "if atype f = PB_ATYPE_POINTER then load_ptr m pd else pd"
  have pd: "0 \<le> ?pd" using assms(2) by simp
  have "sized (encode_array sub m f ?pd count)" if "htype f = PB_HTYPE_REPEATED" for count
    using assms that by (intro sized_encode_array pd) (auto simp: sizable_iff)
  then show ?thesis
    unfolding encode_basic_field_def Let_def
    using sized_PB_ENCODERS [OF assms(1) pd] by (intro sized_intros) simp_all
qed

lemma sized_encode_field:
  assumes "steady_env env" and "sizable f" and "0 \<le> pd" and "htype f = PB_HTYPE_REPEATED \<Longrightarrow> 0 < pd"
  shows "sized (encode_field env n sub m f pd)"
proof -
  have "sized (\<lambda>st. case enc_callback env p m f a st of
      Fail st' \<Rightarrow> Fail (oset_error ''callback error'' st') | r \<Rightarrow> r)" for p a
    using assms(1) by (intro sized_on_fail) (simp add: steady_env_def)
  then show ?thesis
    unfolding encode_field_def encode_callback_field_def Let_def
    by (intro sized_intros sized_encode_basic_field assms)
qed

lemma sized_default_extension_encoder:
  assumes "steady_env env" and "sizable f" and "htype f \<noteq> PB_HTYPE_REPEATED" and "0 \<le> ext"
  shows "sized (default_extension_encoder env n sub m f ext)"
  unfolding default_extension_encoder_def
  using assms by (intro sized_intros sized_encode_field) (auto simp: EXT_DEST_def)

lemma sized_encode_extensions:
  assumes "steady_env env" and "0 \<le> ext"
  shows "sized (encode_extensions k env n sub m ext)"
  using assms(2)
proof (induction k arbitrary: ext)
  case 0
  then show ?case by (simp add: sized_Undef)
next
  case (Suc k)
  have ty: "sizable (ext_arg ty)" "htype (ext_arg ty) \<noteq> PB_HTYPE_REPEATED"
    "\<And>enc. ext_encode ty = Some enc \<Longrightarrow> sized (enc m ext)" if "ext_type env p = Some ty" for p ty
    using assms(1) that by (auto simp: steady_env_def)
  show ?case
    unfolding encode_extensions.simps
    by (intro sized_intros sized_default_extension_encoder Suc assms(1) load_ptr_nonneg)
       (auto dest: ty)
qed

end

section \<open>Messages\<close>

text \<open>The fields of a structure at a positive address.\<close>

definition sizable_iter :: "pb_field_iter \<Rightarrow> bool" where
  "sizable_iter it \<longleftrightarrow> 0 < pData it \<and> (\<forall>f \<in> set (start it). sizable f)"

lemma sizable_cur: "sizable_iter it \<Longrightarrow> sizable (cur it)"
  by (auto simp: sizable_iter_def cur_def field_at_def PB_LAST_FIELD_def type_defs)

lemma sizable_iter_next:
  assumes "sizable_iter it" and "fst (pb_field_iter_next it)"
  shows "sizable_iter (snd (pb_field_iter_next it))"
  using assms by (auto simp: sizable_iter_def pb_field_iter_next_def Let_def split: if_splits)

lemma sized_foreach_field:
  assumes "\<And>it. sizable_iter it \<Longrightarrow> sized (body it)" and "sizable_iter it"
  shows "sized (foreach_field body it)"
  using assms(2)
proof (induction "length (start it) - pos it" arbitrary: it rule: less_induct)
  case less
  let ?next = "snd (pb_field_iter_next it)"
  have "sized (foreach_field body ?next)" if "fst (pb_field_iter_next it)"
    using less that pb_field_iter_next_pos [OF that] sizable_iter_next [OF less.prems that] by auto
  moreover have "foreach_field body it = (\<lambda>st. rbind (body it st) (\<lambda>_ st.
      if fst (pb_field_iter_next it) then foreach_field body ?next st else Ret () st))"
    by (rule ext) (rule foreach_field.simps)
  ultimately show ?case using assms(1) [OF less.prems] by (simp add: sized_intros)
qed

lemma pb_encode_message_encoder:
  assumes "steady_env env"
  shows "message_encoder (pb_encode env n m)"
proof (induction n)
  case 0
  show ?case by unfold_locales (simp add: sized_Undef)
next
  case (Suc n)
  show ?case
  proof
    fix src :: addr and fs :: "pb_field list" assume src: "0 < src" and fs: "\<forall>f \<in> set fs. sizable f"
    let ?body = "\<lambda>it st. if ltype (cur it) = PB_LTYPE_EXTENSION
        then encode_extension_field env n (pb_encode env n m) m (cur it) (pData it) st
        else encode_field env n (pb_encode env n m) m (cur it) (pData it) st"
    have "sized (?body it)" if "sizable_iter it" for it
      using that sizable_cur [OF that] unfolding encode_extension_field_def
      by (intro sized_intros message_encoder.sized_encode_extensions [OF Suc]
            message_encoder.sized_encode_field [OF Suc] assms)
         (auto simp: sizable_iter_def)
    moreover have "sizable_iter (snd (pb_field_iter_begin fs src))"
      using src fs by (simp add: sizable_iter_def pb_field_iter_begin_def Let_def)
    ultimately have "sized (foreach_field ?body (snd (pb_field_iter_begin fs src)))"
      by (rule sized_foreach_field)
    moreover have "pb_encode env (Suc n) m fs src
        = (\<lambda>st. if fst (pb_field_iter_begin fs src)
                then foreach_field ?body (snd (pb_field_iter_begin fs src)) st else Ret () st)"
      by (rule ext) (simp split: prod.split bool.split)
    ultimately show "sized (pb_encode env (Suc n) m fs src)" by (simp add: sized_if sized_Ret)
  qed
qed

lemma steady_no_callbacks: "steady_env no_callbacks"
  by (simp add: steady_env_def no_callbacks_def sized_Undef)

interpretation plain_encoder: message_encoder "pb_encode no_callbacks n m" for n m
  by (rule pb_encode_message_encoder [OF steady_no_callbacks])

section \<open>The properties\<close>

lemma encoded_size_emits:
  assumes "steady_env env" and "0 < src" and "\<forall>f \<in> set fs. sizable f"
    and "pb_get_encoded_size env n m fs src = Ret k s"
  shows "\<exists>bs. emits (pb_encode env n m fs src) bs \<and> k = length bs mod SIZE_MODULUS"
proof -
  have "sized (pb_encode env n m fs src)"
    using message_encoder.sub_sized [OF pb_encode_message_encoder [OF assms(1)]] assms(2,3) by simp
  moreover from assms(4) have r: "pb_encode env n m fs src PB_OSTREAM_SIZING = Ret () s"
    "k = bytes_written s" by (auto simp: pb_get_encoded_size_def rbind_Ret_iff)
  ultimately obtain bs where bs: "emits (pb_encode env n m fs src) bs"
    using sizedD [of "pb_encode env n m fs src", OF _ sizing_PB_OSTREAM_SIZING r(1)] by blast
  with bytes_written_sizing_pass [OF bs] r show ?thesis by auto
qed

lemma emits_into_buffer:
  assumes "emits f bs" and "cap + length bs < SIZE_MODULUS"
  shows "if length bs \<le> cap
         then f (pb_ostream_from_buffer cap)
              = Ret () (appended bs (pb_ostream_from_buffer cap))
         else (\<exists>st i. f (pb_ostream_from_buffer cap) = Fail st
                 \<and> i \<le> cap \<and> ostate st = take i bs \<and> bytes_written st = i)"
proof (cases "length bs \<le> cap")
  case True
  then show ?thesis
    using emits_stores [OF assms(1), of "pb_ostream_from_buffer cap"] assms(2)
    by (simp add: pb_ostream_from_buffer_def room_for_def)
next
  case False
  then have "overflows bs (pb_ostream_from_buffer cap) (f (pb_ostream_from_buffer cap))"
    using emits_overflows [OF assms(1), of "pb_ostream_from_buffer cap"] assms(2)
    by (simp add: pb_ostream_from_buffer_def room_for_def)
  with False show ?thesis by (auto simp: overflows_def pb_ostream_from_buffer_def)
qed

text \<open>C9: for every message whose size \<open>pb_get_encoded_size\<close> computes,
  there is one byte string of that length such that \<open>pb_encode\<close> stores exactly it in any buffer
  that is large enough, and in a smaller buffer fails after storing a prefix that fits: the
  encoder never writes past the buffer. User callbacks must write the same bytes in both
  passes.\<close>

theorem pb_get_encoded_size_exact:
  assumes "steady_env env" and "0 < src" and "\<forall>f \<in> set fs. sizable f"
    and "pb_get_encoded_size env n m fs src = Ret k s"
  shows "\<exists>bs. k = length bs mod SIZE_MODULUS \<and>
    (\<forall>cap. cap + length bs < SIZE_MODULUS \<longrightarrow>
       (if length bs \<le> cap
        then pb_encode env n m fs src (pb_ostream_from_buffer cap)
             = Ret () (appended bs (pb_ostream_from_buffer cap))
        else (\<exists>st i. pb_encode env n m fs src (pb_ostream_from_buffer cap) = Fail st
                \<and> i \<le> cap \<and> ostate st = take i bs \<and> bytes_written st = i)))"
  using encoded_size_emits [OF assms] emits_into_buffer by blast

text \<open>A message with one required \<open>uint32\<close>, stored as zero.\<close>

definition one_uint32 :: "pb_field list" where
  "one_uint32 = [Pb_field 1 PB_LTYPE_UVARINT 0 0 4 0 Ptr_null, PB_LAST_FIELD]"

lemma load32_zero: "load32 (\<lambda>_. 0) a = 0"
  by (simp add: load32_def load_bytes_def eval_nat_numeral)

lemma one_uint32_size:
  "pb_get_encoded_size no_callbacks (Suc n) (\<lambda>_. 0) one_uint32 16
   = Ret 2 (add_written 2 PB_OSTREAM_SIZING)"
  by (simp add: pb_get_encoded_size_def one_uint32_def pb_field_iter_begin_def field_at_def
      foreach_field.simps cur_def pb_field_iter_next_def type_defs encode_field_def
      encode_basic_field_def pb_encode_tag_for_field_def pb_encode_tag_def wt_defs Let_def
      PB_ENCODERS_def pb_enc_uvarint_def load_unsigned_def load32_zero
      pb_encode_varint_def pb_write_def PB_OSTREAM_SIZING_def add_written_def size_add_def
      SIZE_MODULUS_def PB_LAST_FIELD_def)

theorem pb_get_encoded_size_exact_witness:
  "\<exists>bs. 2 = length bs mod SIZE_MODULUS \<and>
    (\<forall>cap. cap + length bs < SIZE_MODULUS \<longrightarrow>
       (if length bs \<le> cap
        then pb_encode no_callbacks 1 (\<lambda>_. 0) one_uint32 16 (pb_ostream_from_buffer cap)
             = Ret () (appended bs (pb_ostream_from_buffer cap))
        else (\<exists>st i. pb_encode no_callbacks 1 (\<lambda>_. 0) one_uint32 16 (pb_ostream_from_buffer cap)
                = Fail st \<and> i \<le> cap \<and> ostate st = take i bs \<and> bytes_written st = i)))"
  by (rule pb_get_encoded_size_exact [OF steady_no_callbacks _ _ one_uint32_size [of 0, folded One_nat_def]])
     (simp_all add: one_uint32_def type_defs PB_LAST_FIELD_def)

text \<open>C25: \<open>pb_encode_delimited\<close> writes the same message bytes as \<open>pb_encode\<close>
  after their length as a varint, and \<open>pb_encode_nullterminated\<close> writes them followed by a zero
  byte, on every stream.\<close>

theorem pb_encode_framing:
  assumes "steady_env env" and "0 < src" and "\<forall>f \<in> set fs. sizable f"
    and "pb_get_encoded_size env n m fs src = Ret k s"
  shows "\<exists>bs. emits (pb_encode env n m fs src) bs
    \<and> emits (pb_encode_delimited env n m fs src) (length_prefixed bs)
    \<and> emits (pb_encode_nullterminated env n m fs src) (bs @ [0])"
proof -
  from encoded_size_emits [OF assms] obtain bs where bs: "emits (pb_encode env n m fs src) bs"
    by blast
  have "emits (pb_encode_delimited env n m fs src) (length_prefixed bs)"
    using emits_submessage [of "pb_encode env n m" fs src, OF bs]
    by (simp add: pb_encode_delimited_def [abs_def])
  moreover have "emits (pb_encode_nullterminated env n m fs src) (bs @ [0])"
    using emits_seq [OF bs pb_write_emits [of "[0]" 1]]
    by (simp add: pb_encode_nullterminated_def [abs_def])
  ultimately show ?thesis using bs by blast
qed

theorem pb_encode_framing_witness:
  "\<exists>bs. emits (pb_encode no_callbacks 1 (\<lambda>_. 0) one_uint32 16) bs
    \<and> emits (pb_encode_delimited no_callbacks 1 (\<lambda>_. 0) one_uint32 16) (length_prefixed bs)
    \<and> emits (pb_encode_nullterminated no_callbacks 1 (\<lambda>_. 0) one_uint32 16) (bs @ [0])"
  by (rule pb_encode_framing [OF steady_no_callbacks _ _ one_uint32_size [of 0, folded One_nat_def]])
     (simp_all add: one_uint32_def type_defs PB_LAST_FIELD_def)

end
