(* ===== verification/Nanopb_Wire.thy ===== *)
theory Nanopb_Wire
  imports Nanopb_Codec
begin

text \<open>
  The wire-level encoders and decoders belong together. The locale \<open>wire_codec\<close> states what a
  pair of them promises: the encoder emits the wire form of a value, the decoder consumes that
  form and returns the value. What follows for any such pair is proved once: round trips through
  buffers, sequences of values, and that wire forms can be told apart. It is interpreted for
  varints, 32-bit varints, zig-zag and fixed-width values and strings.
\<close>

section \<open>The interface\<close>

text \<open>A memory stream on \<open>bs\<close>, limited to its first \<open>n\<close> bytes.\<close>

abbreviation reader :: "byte list \<Rightarrow> nat \<Rightarrow> pb_istream" where
  "reader bs n \<equiv> pb_istream_from_buffer bs n"

lemma offers_reader: "length bs \<le> n \<Longrightarrow> offers (reader (bs @ rest) n) bs"
  by (simp add: offers_def pb_istream_from_buffer_def)

lemma advance_reader: "advance (length bs) (reader (bs @ rest) n) = reader rest (n - length bs)"
  by (simp add: advance_def pb_istream_from_buffer_def)

text \<open>Writing and reading a list of values, one after the other.\<close>

fun write_all ::
    "('v \<Rightarrow> pb_ostream \<Rightarrow> (pb_ostream, unit) res) \<Rightarrow> 'v list \<Rightarrow> pb_ostream \<Rightarrow> (pb_ostream, unit) res" where
  "write_all enc [] st = Ret () st"
| "write_all enc (v # vs) st = rbind (enc v st) (\<lambda>_ st. write_all enc vs st)"

fun read_all ::
    "(pb_istream \<Rightarrow> (pb_istream, 'v) res) \<Rightarrow> nat \<Rightarrow> pb_istream \<Rightarrow> (pb_istream, 'v list) res" where
  "read_all dec 0 st = Ret [] st"
| "read_all dec (Suc n) st =
     rbind (dec st) (\<lambda>v st. rbind (read_all dec n st) (\<lambda>vs st. Ret (v # vs) st))"

locale wire_codec =
  fixes enc :: "'v \<Rightarrow> pb_ostream \<Rightarrow> (pb_ostream, unit) res"
    and dec :: "pb_istream \<Rightarrow> (pb_istream, 'v) res"
    and wire :: "'v \<Rightarrow> byte list"
    and valid :: "'v \<Rightarrow> bool"
  assumes enc_emits: "valid v \<Longrightarrow> emits (enc v) (wire v)"
    and dec_consumes: "valid v \<Longrightarrow> consumes dec (wire v) v"
begin

lemma stores:
  assumes "valid v" and "length (wire v) \<le> cap" and "cap + length (wire v) < SIZE_MODULUS"
  shows "enc v (pb_ostream_from_buffer cap)
         = Ret () (appended (wire v) (pb_ostream_from_buffer cap))"
  using emits_stores [OF enc_emits [OF assms(1)], of "pb_ostream_from_buffer cap"] assms(2,3)
  by (simp add: pb_ostream_from_buffer_def room_for_def)

lemma reads:
  assumes "valid v" and "length (wire v) \<le> n"
  shows "dec (reader (wire v @ rest) n) = Ret v (reader rest (n - length (wire v)))"
  using consumesD [OF dec_consumes [OF assms(1)] offers_reader [OF assms(2)]]
  by (simp add: advance_reader)

lemma round_trip:
  assumes "valid v" and "length (wire v) \<le> cap" and "cap + length (wire v) < SIZE_MODULUS"
  shows "\<exists>st. enc v (pb_ostream_from_buffer cap) = Ret () st
         \<and> (\<forall>rest k. dec (reader (ostate st @ rest) (bytes_written st + k)) = Ret v (reader rest k))"
  using stores [OF assms] reads [OF assms(1)]
  by (simp add: pb_ostream_from_buffer_def)

text \<open>No wire form is a prefix of another.\<close>

lemma wire_unique:
  assumes "valid v" and "valid w" and "wire v @ xs = wire w @ ys"
  shows "v = w \<and> xs = ys"
proof -
  let ?n = "length (wire v) + length (wire w)"
  have 1: "dec (reader (wire w @ ys) ?n) = Ret v (reader xs (?n - length (wire v)))"
    using reads [OF assms(1), of ?n xs] unfolding assms(3) by (simp del: length_append)
  have 2: "dec (reader (wire w @ ys) ?n) = Ret w (reader ys (?n - length (wire w)))"
    by (rule reads [OF assms(2)]) simp
  from trans [OF 1 [symmetric] 2]
  have "Ret v (reader xs (?n - length (wire v))) = Ret w (reader ys (?n - length (wire w)))" .
  then show ?thesis by (simp add: pb_istream_from_buffer_def)
qed

lemma write_all_emits: "\<forall>v \<in> set vs. valid v \<Longrightarrow> emits (write_all enc vs) (concat (map wire vs))"
proof (induction vs)
  case Nil
  have "write_all enc [] = (\<lambda>st. Ret () st)" by (rule ext) simp
  then show ?case using emits_Nil by simp
next
  case (Cons v vs)
  have "write_all enc (v # vs) = (\<lambda>st. rbind (enc v st) (\<lambda>_ st. write_all enc vs st))"
    by (rule ext) simp
  with Cons emits_seq [OF enc_emits [of v]] show ?case by simp
qed

lemma read_all_consumes:
  "\<forall>v \<in> set vs. valid v \<Longrightarrow> consumes (read_all dec (length vs)) (concat (map wire vs)) vs"
proof (induction vs)
  case Nil
  have "read_all dec 0 = (\<lambda>st. Ret [] st)" by (rule ext) simp
  then show ?case using consumes_Ret [of "[]"] by simp
next
  case (Cons v vs)
  have "read_all dec (length (v # vs))
      = (\<lambda>st. rbind (dec st) (\<lambda>v st. rbind (read_all dec (length vs) st) (\<lambda>vs st. Ret (v # vs) st)))"
    by (rule ext) simp
  with Cons consumes_bind [OF dec_consumes [of v] consumes_map] show ?case by simp
qed

lemma all_round_trip:
  assumes "\<forall>v \<in> set vs. valid v"
    and "length (concat (map wire vs)) \<le> cap" and "cap + length (concat (map wire vs)) < SIZE_MODULUS"
  shows "\<exists>st. write_all enc vs (pb_ostream_from_buffer cap) = Ret () st
         \<and> bytes_written st = length (concat (map wire vs))
         \<and> read_all dec (length vs) (reader (ostate st) (bytes_written st)) = Ret vs (reader [] 0)"
proof -
  let ?bs = "concat (map wire vs)"
  have "write_all enc vs (pb_ostream_from_buffer cap)
      = Ret () (appended ?bs (pb_ostream_from_buffer cap))"
    using emits_stores [OF write_all_emits [OF assms(1)], of "pb_ostream_from_buffer cap"] assms(2,3)
    by (simp add: pb_ostream_from_buffer_def room_for_def)
  moreover have "read_all dec (length vs) (reader (?bs @ []) (length ?bs)) = Ret vs (reader [] 0)"
    using consumesD [OF read_all_consumes [OF assms(1)] offers_reader [of ?bs "length ?bs" "[]"]]
    by (simp only: advance_reader le_refl) simp
  ultimately show ?thesis by (simp add: pb_ostream_from_buffer_def)
qed

end

text \<open>Codecs with a bound on the wire form: a buffer of that size always suffices.\<close>

locale bounded_codec = wire_codec +
  fixes bound :: nat
  assumes wire_bound: "valid v \<Longrightarrow> length (wire v) \<le> bound"
    and small_bound: "bound \<le> 2 ^ 32 + 10"
begin

lemma bounded_round_trip:
  assumes "valid v" and "bound \<le> cap" and "cap < 2 ^ 63"
  shows "\<exists>st. enc v (pb_ostream_from_buffer cap) = Ret () st \<and> bytes_written st \<le> bound
         \<and> (\<forall>rest k. dec (reader (ostate st @ rest) (bytes_written st + k)) = Ret v (reader rest k))"
proof -
  have "cap + length (wire v) < SIZE_MODULUS" and "length (wire v) \<le> cap"
    using wire_bound [OF assms(1)] small_bound assms(2,3) by (simp_all add: SIZE_MODULUS_def)
  with stores [OF assms(1)] round_trip [OF assms(1)] wire_bound [OF assms(1)] show ?thesis
    by (simp add: pb_ostream_from_buffer_def)
qed

end

section \<open>The codecs of the code\<close>

interpretation varint: bounded_codec
  "\<lambda>v st. pb_encode_varint st v" pb_decode_varint "\<lambda>v. leb128 (unat v)" "\<lambda>_. True" 10
  by unfold_locales (simp_all add: emits_varint consumes_varint)

interpretation varint32: bounded_codec
  "\<lambda>v st. pb_encode_varint st (ucast v)" pb_decode_varint32 "\<lambda>v. leb128 (unat v)" "\<lambda>_. True" 5
proof unfold_locales
  fix v :: uint32
  have "unat (ucast v :: uint64) = unat v"
    using leb128_uint32(2) [of v] by (simp add: unsigned_ucast_eq take_bit_nat_eq_self)
  then show "emits (\<lambda>st. pb_encode_varint st (ucast v)) (leb128 (unat v))"
    using emits_varint [of "ucast v"] by simp
qed (simp_all add: consumes_varint32 leb128_uint32)

interpretation svarint: bounded_codec
  "\<lambda>v st. pb_encode_svarint st v" pb_decode_svarint "\<lambda>v. leb128 (zigzag (sint v))" "\<lambda>_. True" 10
proof unfold_locales
  fix v :: uint64
  show "length (leb128 (zigzag (sint v))) \<le> 10"
    using length_leb128_uint64 [of "zigzag64 v"] by (simp only: zigzag64_value)
qed (simp_all add: emits_svarint consumes_svarint)

interpretation fixed32: bounded_codec
  "\<lambda>v st. pb_encode_fixed32 st v" pb_decode_fixed32 "le_bytes 4" "\<lambda>_. True" 4
  by unfold_locales (simp_all add: emits_fixed32 consumes_fixed32)

interpretation fixed64: bounded_codec
  "\<lambda>v st. pb_encode_fixed64 st v" pb_decode_fixed64 "le_bytes 8" "\<lambda>_. True" 8
  by unfold_locales (simp_all add: emits_fixed64 consumes_fixed64)

section \<open>Incomplete and over-long varints\<close>

text \<open>Bytes that all announce another one.\<close>

definition unfinished :: "byte list \<Rightarrow> bool" where
  "unfinished bs \<longleftrightarrow> (\<forall>b \<in> set bs. b AND 0x80 \<noteq> 0)"

lemma varint64_loop_unfinished:
  assumes "unfinished bs" and "k + length bs \<le> 10" and "offers st bs"
  shows "\<exists>r'. varint64_loop (7 * k) r st
             = varint64_loop (7 * (k + length bs)) r' (advance (length bs) st)"
  using assms
proof (induction bs arbitrary: k r st)
  case Nil
  then show ?case by auto
next
  case (Cons b bs)
  from Cons.prems have b: "pb_readbyte st = Ret b (advance 1 st)" "offers (advance 1 st) bs"
    using offers_Cons pb_readbyte_consumes by blast+
  let ?r = "r OR push_bit (7 * k) (ucast (b AND 0x7F))"
  from Cons.prems have "varint64_loop (7 * k) r st = varint64_loop (7 * (k + 1)) ?r (advance 1 st)"
    by (subst varint64_loop.simps) (simp add: b unfinished_def add.commute)
  moreover from Cons.IH [of "k + 1" "advance 1 st" ?r] Cons.prems b(2)
  obtain r' where "varint64_loop (7 * (k + 1)) ?r (advance 1 st)
      = varint64_loop (7 * (k + 1 + length bs)) r' (advance (length bs) (advance 1 st))"
    by (auto simp: unfinished_def)
  ultimately show ?case by auto
qed

lemma varint32_loop_zeros:
  assumes "offers st (replicate k 0x80)" and "p < 256"
  shows "varint32_loop p r st = varint32_loop ((p + 7 * k) mod 256) r (advance k st)"
  using assms
proof (induction k arbitrary: p st)
  case (Suc k)
  from Suc.prems(1) have b: "pb_readbyte st = Ret 0x80 (advance 1 st)"
    "offers (advance 1 st) (replicate k 0x80)"
    using offers_Cons [of st "0x80" "replicate k 0x80"] pb_readbyte_consumes [of st "0x80"] by simp_all
  have "varint32_loop p r st = varint32_loop ((p + 7) mod 256) r (advance 1 st)"
    by (subst varint32_loop.simps) (simp add: b)
  also have "\<dots> = varint32_loop (((p + 7) mod 256 + 7 * k) mod 256) r (advance (Suc k) st)"
    using Suc.IH [OF b(2), of "(p + 7) mod 256"] by simp
  also have "((p + 7) mod 256 + 7 * k) mod 256 = (p + 7 * Suc k) mod 256"
    by (simp add: mod_add_left_eq add.assoc)
  finally show ?case .
qed simp

lemma leb_value_zeros: "leb_value (replicate k 0x80 @ bs) = 2 ^ (7 * k) * leb_value bs"
  by (induction k) (simp_all add: power_add)

lemma leb_group_zeros: "leb_group bs \<Longrightarrow> leb_group (replicate k 0x80 @ bs)"
  by (induction k) (auto simp: leb_group_Cons)

section \<open>Skipping\<close>

text \<open>What may follow a tag with a wire type.\<close>

definition field_payload :: "uint32 \<Rightarrow> byte list \<Rightarrow> bool" where
  "field_payload wire_type bs \<longleftrightarrow>
     (wire_type = PB_WT_VARINT \<and> leb_group bs) \<or>
     (wire_type = PB_WT_64BIT \<and> length bs = 8) \<or>
     (wire_type = PB_WT_STRING \<and> (\<exists>cs. bs = leb128 (length cs) @ cs \<and> length cs < 2 ^ 32)) \<or>
     (wire_type = PB_WT_32BIT \<and> length bs = 4)"

lemma pb_skip_varint_consumes: "leb_group bs \<Longrightarrow> consumes pb_skip_varint bs ()"
proof (induction bs)
  case (Cons b bs)
  show ?case
  proof (rule consumesI)
    fix st assume "offers st (b # bs)"
    then have b: "offers st [b]" "offers (advance 1 st) bs" using offers_Cons by blast+
    have r: "pb_read_buf st 1 = Ret [b] (advance 1 st)"
      using consumesD [OF pb_read_buf_consumes b(1)] by simp
    show "pb_skip_varint st = Ret () (advance (length (b # bs)) st)"
    proof (cases "b AND 0x80 = 0")
      case True
      with Cons.prems r show ?thesis
        by (subst pb_skip_varint.simps) (simp add: leb_group_Cons)
    next
      case False
      with Cons.prems have "leb_group bs" by (simp add: leb_group_Cons)
      from consumesD [OF Cons.IH [OF this] b(2)] False r show ?thesis
        by (subst pb_skip_varint.simps) simp
    qed
  qed
qed simp

lemma pb_skip_string_consumes:
  assumes "length cs < 2 ^ 32"
  shows "consumes pb_skip_string (leb128 (length cs) @ cs) ()"
proof -
  have l: "unat (of_nat (length cs) :: uint32) = length cs"
    using assms by (simp add: unat_of_nat)
  have "consumes (\<lambda>st. rbind (pb_decode_varint32 st) (\<lambda>len st. pb_read_null st (unat len)))
      (leb128 (unat (of_nat (length cs) :: uint32)) @ cs) ()"
    by (rule consumes_bind [OF consumes_varint32], rule pb_read_null_consumes) (simp add: l)
  then show ?thesis unfolding l by (simp add: pb_skip_string_def [abs_def])
qed

lemma length_zigzag_small: "-64 \<le> i \<Longrightarrow> i < 64 \<Longrightarrow> length (leb128 (zigzag i)) = 1"
proof -
  assume "-64 \<le> i" and "i < 64"
  then have "zigzag i < 128" by (auto simp: zigzag_def)
  then show ?thesis by (simp add: leb128.simps [of "zigzag i"])
qed

section \<open>The properties\<close>

text \<open>C20: every 64-bit value that \<open>pb_encode_varint\<close> writes into a buffer of at
  least ten bytes takes at most ten bytes, and \<open>pb_decode_varint\<close> reads it back from them,
  whatever follows in the stream, and stops right behind it.\<close>

theorem varint_round_trip:
  assumes "10 \<le> cap" and "cap < 2 ^ 63"
  shows "\<exists>st. pb_encode_varint (pb_ostream_from_buffer cap) v = Ret () st \<and> bytes_written st \<le> 10
    \<and> (\<forall>rest k. pb_decode_varint (reader (ostate st @ rest) (bytes_written st + k))
                = Ret v (reader rest k))"
  using assms by (intro varint.bounded_round_trip) simp_all

theorem varint_round_trip_witness:
  "\<exists>st. pb_encode_varint (pb_ostream_from_buffer 10) 300 = Ret () st \<and> bytes_written st \<le> 10
    \<and> (\<forall>rest k. pb_decode_varint (reader (ostate st @ rest) (bytes_written st + k))
                = Ret 300 (reader rest k))"
  by (rule varint_round_trip) simp_all

text \<open>Signed values survive the zig-zag encoding: \<open>pb_decode_svarint\<close>
  returns what \<open>pb_encode_svarint\<close> wrote, and a value of small magnitude, positive or negative,
  takes few bytes (one for -64 to 63).\<close>

theorem svarint_round_trip:
  assumes "10 \<le> cap" and "cap < 2 ^ 63"
  shows "\<exists>st. pb_encode_svarint (pb_ostream_from_buffer cap) v = Ret () st
    \<and> bytes_written st \<le> 10 \<and> (-64 \<le> sint v \<and> sint v < 64 \<longrightarrow> bytes_written st = 1)
    \<and> (\<forall>rest k. pb_decode_svarint (reader (ostate st @ rest) (bytes_written st + k))
                = Ret v (reader rest k))"
proof -
  have "cap + length (leb128 (zigzag (sint v))) < SIZE_MODULUS"
    "length (leb128 (zigzag (sint v))) \<le> cap"
    using svarint.wire_bound [of v] assms by (simp_all add: SIZE_MODULUS_def)
  with svarint.stores [of v cap] svarint.round_trip [of v cap] svarint.wire_bound [of v]
    length_zigzag_small [of "sint v"]
  show ?thesis by (simp add: pb_ostream_from_buffer_def)
qed

theorem svarint_round_trip_witness:
  "\<exists>st. pb_encode_svarint (pb_ostream_from_buffer 10) (- 3) = Ret () st \<and> bytes_written st = 1
    \<and> (\<forall>rest k. pb_decode_svarint (reader (ostate st @ rest) (bytes_written st + k))
                = Ret (- 3) (reader rest k))"
proof -
  have "sint (- 3 :: uint64) = - 3" by simp
  with svarint_round_trip [of 10 "- 3"] show ?thesis by fastforce
qed

text \<open>\<open>pb_decode_fixed32\<close> and \<open>pb_decode_fixed64\<close> invert the fixed-width
  encoders, which write exactly four and eight bytes, also for whole sequences of values.\<close>

theorem fixed_round_trip:
  assumes "4 * length vs \<le> cap" and "8 * length ws \<le> cap" and "cap < 2 ^ 62"
  shows "(\<exists>st. write_all (\<lambda>v st. pb_encode_fixed32 st v) vs (pb_ostream_from_buffer cap) = Ret () st
           \<and> bytes_written st = 4 * length vs
           \<and> read_all pb_decode_fixed32 (length vs) (reader (ostate st) (bytes_written st))
             = Ret vs (reader [] 0))
    \<and> (\<exists>st. write_all (\<lambda>v st. pb_encode_fixed64 st v) ws (pb_ostream_from_buffer cap) = Ret () st
           \<and> bytes_written st = 8 * length ws
           \<and> read_all pb_decode_fixed64 (length ws) (reader (ostate st) (bytes_written st))
             = Ret ws (reader [] 0))"
proof -
  have l: "length (concat (map (le_bytes 4) vs)) = 4 * length vs"
    "length (concat (map (le_bytes 8) ws)) = 8 * length ws"
    by (simp_all add: length_concat comp_def sum_list_triv)
  with assms show ?thesis
    using fixed32.all_round_trip [of vs cap] fixed64.all_round_trip [of ws cap]
    by (auto simp: SIZE_MODULUS_def)
qed

theorem fixed_round_trip_witness:
  "(\<exists>st. write_all (\<lambda>v st. pb_encode_fixed32 st v) [1, 2] (pb_ostream_from_buffer 8) = Ret () st
       \<and> bytes_written st = 4 * length [1, 2 :: uint32]
       \<and> read_all pb_decode_fixed32 (length [1, 2 :: uint32]) (reader (ostate st) (bytes_written st))
         = Ret [1, 2] (reader [] 0))
   \<and> (\<exists>st. write_all (\<lambda>v st. pb_encode_fixed64 st v) [7] (pb_ostream_from_buffer 8) = Ret () st
       \<and> bytes_written st = 8 * length [7 :: uint64]
       \<and> read_all pb_decode_fixed64 (length [7 :: uint64]) (reader (ostate st) (bytes_written st))
         = Ret [7] (reader [] 0))"
  by (rule fixed_round_trip) simp_all

text \<open>A tag with a field number between 1 and \<open>2 ^ 29 - 1\<close> and any three-bit wire
  type is written by \<open>pb_encode_tag\<close> and read back by \<open>pb_decode_tag\<close>, without raising the
  end-of-message flag, from at most five bytes.\<close>

theorem tag_round_trip:
  assumes "unat wt < 8" and "0 < unat t" and "unat t < 2 ^ 29" and "5 \<le> cap" and "cap < 2 ^ 63"
  shows "\<exists>st. pb_encode_tag (pb_ostream_from_buffer cap) wt t = Ret () st \<and> bytes_written st \<le> 5
    \<and> (\<forall>rest k. pb_decode_tag (reader (ostate st @ rest) (bytes_written st + k))
                = (Ret (wt, t) (reader rest k), False))"
proof -
  let ?w = "leb128 (tag_value (unat wt) (unat t))"
  have "tag_value (unat wt) (unat t) < 2 ^ 32" using assms(1,3) by (simp add: tag_value_def)
  then have l: "length ?w \<le> 5" by (intro length_leb128) simp_all
  have "pb_encode_tag (pb_ostream_from_buffer cap) wt t
      = Ret () (appended ?w (pb_ostream_from_buffer cap))"
    using emits_stores [OF emits_tag [OF assms(1)], of "pb_ostream_from_buffer cap" t] l assms(4,5)
    by (simp add: pb_ostream_from_buffer_def room_for_def SIZE_MODULUS_def)
  moreover have "pb_decode_tag (reader (?w @ rest) (length ?w + k)) = (Ret (wt, t) (reader rest k), False)"
    for rest k
    using pb_decode_tag_consumes [OF assms(1-3) offers_reader [of ?w "length ?w + k" rest]]
    by (simp add: advance_reader)
  ultimately show ?thesis using l by (simp add: pb_ostream_from_buffer_def)
qed

theorem tag_round_trip_witness:
  "\<exists>st. pb_encode_tag (pb_ostream_from_buffer 5) 2 23 = Ret () st \<and> bytes_written st \<le> 5
    \<and> (\<forall>rest k. pb_decode_tag (reader (ostate st @ rest) (bytes_written st + k))
                = (Ret (2, 23) (reader rest k), False))"
  by (rule tag_round_trip) simp_all

text \<open>All outcomes of \<open>pb_decode_varint\<close> on a memory stream: a complete
  varint of at most ten bytes gives its value modulo \<open>2 ^ 64\<close>, ten bytes without an end give the
  error \<open>varint overflow\<close>, and a stream that ends before the varint does gives
  \<open>end-of-stream\<close>.\<close>

theorem pb_decode_varint_cases:
  assumes "offers st bs" and "ierrmsg st = None"
  shows "(leb_group bs \<and> length bs \<le> 10 \<longrightarrow>
            pb_decode_varint st = Ret (of_nat (leb_value bs)) (advance (length bs) st))
    \<and> (unfinished bs \<and> length bs = 10 \<longrightarrow>
            pb_decode_varint st = Fail ((advance 10 st)\<lparr>ierrmsg := Some ''varint overflow''\<rparr>))
    \<and> (unfinished bs \<and> length bs < 10 \<and> bytes_left st = length bs \<longrightarrow>
            pb_decode_varint st
            = Fail ((advance (length bs) st)\<lparr>ierrmsg := Some ''end-of-stream''\<rparr>))"
proof -
  have "pb_decode_varint st = Ret (of_nat (leb_value bs)) (advance (length bs) st)"
    if "leb_group bs" "length bs \<le> 10"
    by (rule consumesD [OF pb_decode_varint_group [OF that] assms(1)])
  moreover have "\<exists>r. pb_decode_varint st = varint64_loop (7 * length bs) r (advance (length bs) st)"
    if "unfinished bs" "length bs \<le> 10"
    using varint64_loop_unfinished [OF that(1), of 0 st 0] that(2) assms(1)
    by (simp add: pb_decode_varint_def)
  ultimately show ?thesis
    using assms(2)
    by (auto simp: varint64_loop.simps pb_readbyte_def iset_error_def)
qed

theorem pb_decode_varint_cases_witness:
  "pb_decode_varint (reader [0x96, 0x01] 2) = Ret 150 (reader [] 0)
   \<and> pb_decode_varint (reader [0x96] 1) = Fail ((reader [] 0)\<lparr>ierrmsg := Some ''end-of-stream''\<rparr>)"
  using pb_decode_varint_cases [of "reader [0x96, 0x01] 2" "[0x96, 0x01]"]
    pb_decode_varint_cases [of "reader [0x96] 1" "[0x96]"]
  by (simp add: offers_def pb_istream_from_buffer_def unfinished_def advance_def)

text \<open>C33: \<open>pb_decode_varint32\<close> does not reject over-long varints: its
  bit position is an 8-bit number that wraps, so a one bit that belongs at position \<open>7 * k\<close>, far
  above the 32 bits of the result, is accepted and stored at position \<open>7 * k mod 256\<close> when that
  is below 32. The true value \<open>2 ^ (7 * k)\<close> does not fit.\<close>

theorem pb_decode_varint32_overlong:
  assumes "0 < k" and "7 * k mod 256 < 32"
  shows "pb_decode_varint32 (reader (replicate k 0x80 @ [0x01]) (k + 1))
         = Ret (push_bit (7 * k mod 256) 1) (reader [] 0)
    \<and> leb_group (replicate k 0x80 @ [0x01]) \<and> leb_value (replicate k 0x80 @ [0x01]) = 2 ^ (7 * k)"
proof -
  obtain j where k: "k = Suc j" using assms(1) by (cases k) auto
  define st where "st = reader (replicate k 0x80 @ [0x01]) (k + 1)"
  have z: "offers st (replicate k 0x80)" "offers (advance k st) [0x01]"
    by (simp_all add: offers_def pb_istream_from_buffer_def st_def)
  then have f: "pb_readbyte st = Ret 0x80 (advance 1 st)" "offers (advance 1 st) (replicate j 0x80)"
    using offers_Cons [of st "0x80" "replicate j 0x80"] pb_readbyte_consumes [of st "0x80"]
    by (simp_all add: k)
  have "pb_decode_varint32 st = varint32_loop 7 0 (advance 1 st)"
    by (simp add: pb_decode_varint32_def pb_decode_varint32_eof_def f(1))
  also have "\<dots> = varint32_loop (7 * k mod 256) 0 (advance k st)"
    using varint32_loop_zeros [OF f(2), of 7 0] by (simp add: k add.commute)
  also have "\<dots> = Ret (push_bit (7 * k mod 256) 1) (advance (k + 1) st)"
    using assms(2) pb_readbyte_consumes [OF z(2)] by (subst varint32_loop.simps) simp
  also have "advance (k + 1) st = reader [] 0"
    by (simp add: advance_def pb_istream_from_buffer_def st_def)
  finally show ?thesis by (simp add: leb_value_zeros leb_group_zeros st_def)
qed

theorem pb_decode_varint32_overlong_witness:
  "pb_decode_varint32 (reader (replicate 37 0x80 @ [0x01]) (37 + 1)) = Ret 8 (reader [] 0)
   \<and> leb_value (replicate 37 0x80 @ [0x01]) = 2 ^ 259"
  using pb_decode_varint32_overlong [of 37] by (simp add: push_bit_eq_mult)

text \<open>C32: \<open>pb_skip_field\<close> passes over exactly the payload of a field of each
  wire type, including varints and strings of any length, and reports any other wire type as an
  error without moving.\<close>

theorem pb_skip_field_exact:
  "(field_payload wire_type bs \<longrightarrow> consumes (\<lambda>st. pb_skip_field st wire_type) bs ())
   \<and> (wire_type \<notin> {PB_WT_VARINT, PB_WT_64BIT, PB_WT_STRING, PB_WT_32BIT} \<longrightarrow>
        pb_skip_field st wire_type = Fail (iset_error ''invalid wire_type'' st))"
proof -
  have "consumes (\<lambda>st. pb_skip_field st wire_type) bs ()" if "field_payload wire_type bs"
    using that unfolding field_payload_def
  proof (elim disjE conjE exE)
    fix cs assume "wire_type = PB_WT_STRING" "bs = leb128 (length cs) @ cs" "length cs < 2 ^ 32"
    then show ?thesis using pb_skip_string_consumes [of cs] by (simp add: pb_skip_field_def wt_defs)
  qed (simp_all add: pb_skip_field_def wt_defs pb_read_null_consumes pb_skip_varint_consumes)
  then show ?thesis by (simp add: pb_skip_field_def)
qed

theorem pb_skip_field_exact_witness:
  "consumes (\<lambda>st. pb_skip_field st 2) [2, 0x61, 0x62] ()
   \<and> pb_skip_field (reader [] 0) 3 = Fail (iset_error ''invalid wire_type'' (reader [] 0))"
proof -
  have "field_payload 2 [2, 0x61, 0x62]"
    unfolding field_payload_def wt_defs
    by (simp, rule exI [of _ "[0x61, 0x62]"]) (simp add: leb128.simps)
  with pb_skip_field_exact [of 2 "[2, 0x61, 0x62]"]
    pb_skip_field_exact [of 3 "[]" "reader [] 0"]
  show ?thesis by (simp add: wt_defs)
qed

end
