(* ===== verification/Nanopb_Safety.thy ===== *)
theory Nanopb_Safety
  imports Nanopb_Codec
begin

text \<open>
  Reading untrusted input. On a memory stream whose limit lies inside its buffer, the wire-level
  decoders have a defined result whatever the bytes are, and they leave the stream further along
  the same buffer with the same end: nothing past the limit is ever read.
\<close>

section \<open>Streams inside their buffer\<close>

definition sound :: "pb_istream \<Rightarrow> bool" where
  "sound st \<longleftrightarrow> icallback st = Buf_read \<and> bytes_left st \<le> length (istate st)"

text \<open>\<open>st'\<close> is \<open>st\<close> after some bytes, up to the error message.\<close>

definition further :: "pb_istream \<Rightarrow> pb_istream \<Rightarrow> bool" where
  "further st st' \<longleftrightarrow>
     icallback st' = icallback st \<and>
     (\<exists>k. k \<le> bytes_left st \<and> istate st' = drop k (istate st) \<and> bytes_left st' = bytes_left st - k)"

definition safe :: "(pb_istream \<Rightarrow> (pb_istream, 'a) res) \<Rightarrow> bool" where
  "safe rd \<longleftrightarrow> (\<forall>st. sound st \<longrightarrow> rd st \<noteq> Undef \<and> res_keeps (further st) (rd st))"

lemma furtherI:
  "icallback st' = icallback st \<Longrightarrow> k \<le> bytes_left st \<Longrightarrow> istate st' = drop k (istate st)
   \<Longrightarrow> bytes_left st' = bytes_left st - k \<Longrightarrow> further st st'"
  by (auto simp: further_def)

lemma further_refl [simp]: "further st st"
  by (rule furtherI [of _ _ 0]) simp_all

lemma further_trans:
  assumes "further st st'" and "further st' st''"
  shows "further st st''"
proof -
  from assms obtain j k where "j \<le> bytes_left st" "istate st' = drop j (istate st)"
    "bytes_left st' = bytes_left st - j" "k \<le> bytes_left st'" "istate st'' = drop k (istate st')"
    "bytes_left st'' = bytes_left st' - k" "icallback st'' = icallback st"
    by (auto simp: further_def)
  then show ?thesis by (intro furtherI [of _ _ "j + k"]) (simp_all add: add.commute)
qed

lemma further_sound: "further st st' \<Longrightarrow> sound st \<Longrightarrow> sound st'"
  by (auto simp: further_def sound_def)

lemma further_iset_error [simp]: "further st (iset_error msg st') \<longleftrightarrow> further st st'"
  by (simp add: further_def iset_error_def)

lemma further_bytes_left: "further st st' \<Longrightarrow> bytes_left st' \<le> bytes_left st"
  by (auto simp: further_def)

lemma safeI:
  assumes "\<And>st. sound st \<Longrightarrow> rd st \<noteq> Undef"
    and "\<And>st v st'. sound st \<Longrightarrow> rd st = Ret v st' \<Longrightarrow> further st st'"
    and "\<And>st st'. sound st \<Longrightarrow> rd st = Fail st' \<Longrightarrow> further st st'"
  shows "safe rd"
  unfolding safe_def
proof (intro allI impI)
  fix st assume "sound st"
  with assms [of st] show "rd st \<noteq> Undef \<and> res_keeps (further st) (rd st)"
    by (cases "rd st") auto
qed

lemma safeD:
  assumes "safe rd" and "sound st"
  shows "rd st \<noteq> Undef" and "rd st = Ret v st' \<Longrightarrow> further st st'"
    and "rd st = Fail st' \<Longrightarrow> further st st'"
  using assms by (auto simp: safe_def)

named_theorems safe_intros \<open>readers that stay inside the buffer\<close>

lemma safe_Ret [safe_intros]: "safe (\<lambda>st. Ret v st)"
  by (rule safeI) auto

lemma safe_error [safe_intros]: "safe (\<lambda>st. Fail (iset_error msg st))"
  by (rule safeI) auto

lemma safe_bind [safe_intros]:
  assumes "safe rd" and "\<And>v. safe (f v)"
  shows "safe (\<lambda>st. rbind (rd st) f)"
proof (rule safeI)
  fix st assume st: "sound st"
  note d = safeD [OF assms(1) st] and s = further_sound [OF _ st]
  show "rbind (rd st) f \<noteq> Undef"
    using d(1) safeD(1) [OF assms(2)] s [OF d(2)] by (auto simp: rbind_Undef_iff)
  show "further st st'" if "rbind (rd st) f = Ret w st'" for w st'
    using that d(2) safeD(2) [OF assms(2) s [OF d(2)]]
    by (auto simp: rbind_Ret_iff intro: further_trans)
  show "further st st'" if "rbind (rd st) f = Fail st'" for st'
    using that d(2,3) safeD(3) [OF assms(2) s [OF d(2)]]
    by (auto simp: rbind_Fail_iff intro: further_trans)
qed

lemma safe_if [safe_intros]:
  "(b \<Longrightarrow> safe f) \<Longrightarrow> (\<not> b \<Longrightarrow> safe g) \<Longrightarrow> safe (\<lambda>st. if b then f st else g st)"
  by (cases b) simp_all

section \<open>The primitives\<close>

lemma safe_pb_read_buf [safe_intros]: "safe (\<lambda>st. pb_read_buf st n)"
  by (rule safeI)
     (auto simp: pb_read_buf_def run_icallback_def buf_read_def sound_def split: if_splits
       intro: furtherI [of _ _ n])

lemma safe_pb_readbyte [safe_intros]: "safe pb_readbyte"
  by (rule safeI)
     (auto simp: pb_readbyte_def run_icallback_def buf_read_def sound_def split: if_splits
       intro: furtherI [of _ _ 1])

lemma safe_pb_read_null [safe_intros]: "safe (\<lambda>st. pb_read_null st n)"
proof -
  have "safe (\<lambda>st. rbind (pb_read_buf st n) (\<lambda>_ st. Ret () st))" by (intro safe_intros)
  then show ?thesis by (auto simp: safe_def sound_def pb_read_null_def)
qed

text \<open>Loops that read a byte and go on or stop.\<close>

lemma safe_readbyte_step:
  assumes st: "sound st"
    and step: "\<And>b st'. pb_readbyte st = Ret b st' \<Longrightarrow> sound st' \<Longrightarrow>
      f b st' \<noteq> Undef \<and> res_keeps (further st') (f b st')"
  shows "rbind (pb_readbyte st) f \<noteq> Undef \<and> res_keeps (further st) (rbind (pb_readbyte st) f)"
proof (cases "pb_readbyte st")
  case (Ret b st')
  have "further st st'" by (rule safeD(2) [OF safe_pb_readbyte st Ret])
  with step [OF Ret further_sound [OF this st]] Ret show ?thesis
    by (auto intro: res_keeps_mono further_trans)
next
  case (Fail st')
  with safeD(3) [OF safe_pb_readbyte st Fail] show ?thesis by simp
next
  case Undef
  with safeD(1) [OF safe_pb_readbyte st] show ?thesis by simp
qed

lemma safe_varint64_loop [safe_intros]: "safe (varint64_loop p r)"
proof -
  have "varint64_loop p r st \<noteq> Undef \<and> res_keeps (further st) (varint64_loop p r st)"
    if "sound st" for st
    using that
  proof (induction p r st rule: varint64_loop.induct)
    case (1 p r st)
    have "varint64_loop p r st =
      (if 64 \<le> p then Fail (iset_error ''varint overflow'' st)
       else rbind (pb_readbyte st) (\<lambda>b st'.
         if b AND 0x80 \<noteq> 0
         then varint64_loop ((p + 7) mod 256) (r OR push_bit p (ucast (b AND 0x7F))) st'
         else Ret (r OR push_bit p (ucast (b AND 0x7F))) st'))"
      by (subst varint64_loop.simps) (cases "pb_readbyte st"; simp add: Let_def)
    then show ?case
      using 1 by (cases "64 \<le> p") (simp, simp, intro safe_readbyte_step, auto)
  qed
  then show ?thesis by (simp add: safe_def)
qed

lemma safe_varint32_loop [safe_intros]: "safe (varint32_loop p r)"
proof -
  have "varint32_loop p r st \<noteq> Undef \<and> res_keeps (further st) (varint32_loop p r st)"
    if "sound st" for st
    using that
  proof (induction p r st rule: varint32_loop.induct)
    case (1 p r st)
    let ?bad = "\<lambda>b. 32 \<le> p \<and> b AND 0x7F \<noteq> 0
        \<and> (drop_bit 31 r = 0 \<or> b \<noteq> (if p < 63 then 0xFF else 0x01))"
    let ?r = "\<lambda>b. if 32 \<le> p then r else r OR push_bit p (ucast (b AND 0x7F))"
    have "varint32_loop p r st =
      rbind (pb_readbyte st) (\<lambda>b st'.
        if ?bad b then Fail (iset_error ''varint overflow'' st')
        else if b AND 0x80 \<noteq> 0 then varint32_loop ((p + 7) mod 256) (?r b) st'
        else if (p + 7) mod 256 = 35 \<and> b AND 0x70 \<noteq> 0
        then Fail (iset_error ''varint overflow'' st') else Ret (?r b) st')"
      by (subst varint32_loop.simps) (cases "pb_readbyte st"; simp only: res.case rbind.simps Let_def)
    also have "\<dots> \<noteq> Undef \<and> res_keeps (further st) \<dots>"
      using "1.prems"
    proof (rule safe_readbyte_step)
      fix b st' assume b: "pb_readbyte st = Ret b st'" and st': "sound st'"
      show "(if ?bad b then Fail (iset_error ''varint overflow'' st')
          else if b AND 0x80 \<noteq> 0 then varint32_loop ((p + 7) mod 256) (?r b) st'
          else if (p + 7) mod 256 = 35 \<and> b AND 0x70 \<noteq> 0
          then Fail (iset_error ''varint overflow'' st') else Ret (?r b) st') \<noteq> Undef
        \<and> res_keeps (further st') (if ?bad b then Fail (iset_error ''varint overflow'' st')
          else if b AND 0x80 \<noteq> 0 then varint32_loop ((p + 7) mod 256) (?r b) st'
          else if (p + 7) mod 256 = 35 \<and> b AND 0x70 \<noteq> 0
          then Fail (iset_error ''varint overflow'' st') else Ret (?r b) st')"
        using "1.IH" [OF b refl refl refl refl _ _ st'] by simp
    qed
    finally show ?case .
  qed
  then show ?thesis by (simp add: safe_def)
qed

lemma safe_varint32_eof [safe_intros]: "safe (\<lambda>st. fst (pb_decode_varint32_eof st))"
proof -
  have "(\<lambda>st. fst (pb_decode_varint32_eof st)) = (\<lambda>st. rbind (pb_readbyte st) (\<lambda>b st.
      if b AND 0x80 = 0 then Ret (ucast b) st else varint32_loop 7 (ucast (b AND 0x7F)) st))"
    by (rule ext) (simp add: pb_decode_varint32_eof_def split: res.split)
  then show ?thesis by (simp only:) (intro safe_intros)
qed

lemma safe_varint32 [safe_intros]: "safe pb_decode_varint32"
  using safe_varint32_eof by (simp add: pb_decode_varint32_def [abs_def])

lemma safe_varint [safe_intros]: "safe pb_decode_varint"
  using safe_varint64_loop by (simp add: pb_decode_varint_def [abs_def])

lemma safe_svarint [safe_intros]: "safe pb_decode_svarint"
  unfolding pb_decode_svarint_def [abs_def] by (intro safe_intros)

lemma safe_fixed [safe_intros]: "safe pb_decode_fixed32" "safe pb_decode_fixed64"
  unfolding pb_decode_fixed32_def [abs_def] pb_decode_fixed64_def [abs_def] by (intro safe_intros)+

lemma safe_skip_varint [safe_intros]: "safe pb_skip_varint"
proof -
  have "pb_skip_varint st \<noteq> Undef \<and> res_keeps (further st) (pb_skip_varint st)" if "sound st" for st
    using that
  proof (induction st rule: pb_skip_varint.induct)
    case (1 st)
    note d = safeD [OF safe_pb_read_buf [of 1] "1.prems"]
    show ?case
    proof (cases "pb_read_buf st 1")
      case (Ret bs st')
      with "1.IH" [OF Ret] further_sound [OF d(2) [OF Ret] "1.prems"] d(2) [OF Ret]
      show ?thesis
        by (subst (1 2) pb_skip_varint.simps)
           (cases "hd bs AND 0x80 = 0"; auto intro: res_keeps_mono further_trans)
    next
      case (Fail st')
      with d(3) [OF Fail] show ?thesis by (subst (1 2) pb_skip_varint.simps) simp
    next
      case Undef
      with d(1) show ?thesis by simp
    qed
  qed
  then show ?thesis by (simp add: safe_def)
qed

lemma safe_skip_string [safe_intros]: "safe pb_skip_string"
  unfolding pb_skip_string_def [abs_def] by (intro safe_intros)

lemma safe_decode_tag [safe_intros]: "safe (\<lambda>st. fst (pb_decode_tag st))"
proof -
  have "safe (\<lambda>st. rbind (fst (pb_decode_varint32_eof st)) (\<lambda>temp st.
      if temp = 0 then Fail st else Ret (temp AND 7, drop_bit 3 temp) st))"
  proof (intro safe_intros)
    show "safe (\<lambda>st. Fail st :: (pb_istream, uint32 \<times> uint32) res)" by (rule safeI) auto
  qed
  moreover have "fst (pb_decode_tag st) = rbind (fst (pb_decode_varint32_eof st)) (\<lambda>temp st.
      if temp = 0 then Fail st else Ret (temp AND 7, drop_bit 3 temp) st)" for st
    by (simp add: pb_decode_tag_def split: prod.split res.split)
  ultimately show ?thesis by simp
qed

lemma safe_skip_field [safe_intros]: "safe (\<lambda>st. pb_skip_field st wire_type)"
  unfolding pb_skip_field_def by (intro safe_intros)

lemma safe_read_raw_varint [safe_intros]: "safe (read_raw_varint n)"
proof (induction n)
  case 0
  show ?case by (rule safeI) auto
next
  case (Suc n)
  have "read_raw_varint (Suc n) = (\<lambda>st. rbind (pb_read_buf st 1) (\<lambda>bs st.
       if hd bs AND 0x80 \<noteq> 0
       then rbind (read_raw_varint n st) (\<lambda>cs st. Ret (hd bs # cs) st)
       else Ret [hd bs] st))" by (rule ext) simp
  with Suc show ?case by (simp only:) (intro safe_intros)
qed

lemma safe_read_raw_value [safe_intros]: "safe (\<lambda>st. read_raw_value st wire_type n)"
  unfolding read_raw_value_def by (intro safe_intros)

section \<open>Substreams\<close>

text \<open>Reading a length-prefixed block through a substream, as the field decoders do it: the
  result of \<open>rd\<close> on the substream is the result, after the substream is closed.\<close>

definition in_substream ::
    "(pb_istream \<Rightarrow> (pb_istream, 'a) res) \<Rightarrow> pb_istream \<Rightarrow> (pb_istream, 'a) res" where
  "in_substream rd st =
     rbind (pb_make_string_substream st) (\<lambda>substream st.
       case rd substream of
         Undef \<Rightarrow> Undef
       | Fail sub' \<Rightarrow> rbind (pb_close_string_substream st sub') (\<lambda>_ st. Fail st)
       | Ret v sub' \<Rightarrow> rbind (pb_close_string_substream st sub') (\<lambda>_ st. Ret v st))"

text \<open>\<open>st0\<close> is the stream after the length \<open>n\<close>.\<close>

lemma make_substream_cases:
  assumes "sound st"
  obtains (fail) st' where "pb_make_string_substream st = Fail st'" "further st st'"
    | (ret) st0 n where "further st st0" "n \<le> bytes_left st0"
        "pb_make_string_substream st
         = Ret (st0\<lparr>bytes_left := n\<rparr>) (st0\<lparr>bytes_left := bytes_left st0 - n\<rparr>)"
proof (cases "pb_decode_varint32 st")
  case (Ret len st0)
  have f: "further st st0" by (rule safeD(2) [OF safe_varint32 assms Ret])
  show ?thesis
  proof (cases "bytes_left st0 < unat len")
    case True
    with f Ret show ?thesis
      by (intro fail [of "iset_error ''parent stream too short'' st0"])
         (simp_all add: pb_make_string_substream_def)
  next
    case False
    with f Ret show ?thesis
      by (intro ret [of st0 "unat len"]) (simp_all add: pb_make_string_substream_def Let_def)
  qed
next
  case (Fail st')
  with safeD(3) [OF safe_varint32 assms Fail] show ?thesis
    by (auto intro: fail [of st'] simp: pb_make_string_substream_def)
next
  case Undef
  with safeD(1) [OF safe_varint32 assms] show ?thesis by simp
qed

lemma close_substream:
  assumes "sound st0" and "n \<le> bytes_left st0" and "further (st0\<lparr>bytes_left := n\<rparr>) sub'"
  shows "pb_close_string_substream (st0\<lparr>bytes_left := bytes_left st0 - n\<rparr>) sub'
         = Ret () (st0\<lparr>bytes_left := bytes_left st0 - n, istate := drop n (istate st0),
                       ierrmsg := ierrmsg sub'\<rparr>)"
proof -
  from assms(3) obtain k where k: "k \<le> n" "istate sub' = drop k (istate st0)"
    "bytes_left sub' = n - k" "icallback sub' = icallback st0" by (auto simp: further_def)
  with assms(1,2) show ?thesis
    by (auto simp: pb_close_string_substream_def pb_read_null_def pb_read_buf_def run_icallback_def
          buf_read_def sound_def)
qed

lemma further_past_block:
  "n \<le> bytes_left st0 \<Longrightarrow>
   further st0 (st0\<lparr>bytes_left := bytes_left st0 - n, istate := drop n (istate st0), ierrmsg := e\<rparr>)"
  by (rule furtherI [of _ _ n]) simp_all

lemma safe_in_substream [safe_intros]:
  assumes "safe rd"
  shows "safe (in_substream rd)"
proof -
  have "in_substream rd st \<noteq> Undef \<and> res_keeps (further st) (in_substream rd st)" if st: "sound st" for st
    using st
  proof (cases rule: make_substream_cases)
    case (fail st')
    then show ?thesis by (simp add: in_substream_def)
  next
    case (ret st0 n)
    let ?sub = "st0\<lparr>bytes_left := n\<rparr>"
    have s0: "sound st0" by (rule further_sound [OF ret(1) st])
    with ret(2) have sub: "sound ?sub" by (simp add: sound_def)
    note d = safeD [OF assms sub] and c = close_substream [OF s0 ret(2)]
      and f = further_trans [OF ret(1) further_past_block [OF ret(2)]]
    from d(1) show ?thesis
      by (cases "rd ?sub") (simp_all add: in_substream_def ret(3) c d(2,3) f)
  qed
  then show ?thesis by (simp add: safe_def)
qed

section \<open>The properties\<close>

text \<open>C15: on a memory stream whose limit lies inside its buffer, and for any
  contents of the buffer, each wire-level decoder (tag, varints, zig-zag, fixed-width values, raw
  values, skipping a field of any wire type) has a defined result, success or error, and leaves
  the stream further along the same buffer with the same end: malformed input never makes it read
  past the limit.\<close>

theorem wire_decoders_safe:
  "safe pb_decode_varint \<and> safe pb_decode_varint32 \<and> safe pb_decode_svarint
   \<and> safe pb_decode_fixed32 \<and> safe pb_decode_fixed64 \<and> safe (\<lambda>st. fst (pb_decode_tag st))
   \<and> (\<forall>wire_type. safe (\<lambda>st. pb_skip_field st wire_type))
   \<and> (\<forall>wire_type maxsize. safe (\<lambda>st. read_raw_value st wire_type maxsize))"
  by (intro conjI allI safe_intros)

text \<open>C31: on a memory stream whose limit lies inside its buffer, \<open>pb_make_string_substream\<close> succeeds exactly
  if a length can be decoded and that many bytes follow it. The substream then has exactly these bytes; however much of
  it a reader consumes, closing it succeeds and puts the parent stream exactly behind them, with the error message of
  the substream. When it fails the parent is where decoding the length left it.\<close>

theorem substream_confines:
  assumes "sound st"
  shows "case pb_decode_varint32 st of
      Undef \<Rightarrow> False
    | Fail st' \<Rightarrow> pb_make_string_substream st = Fail st'
    | Ret sz st0 \<Rightarrow>
        if bytes_left st0 < unat sz
        then pb_make_string_substream st = Fail (iset_error ''parent stream too short'' st0)
        else (case pb_make_string_substream st of
                Ret substream parent \<Rightarrow>
                  sound substream \<and> bytes_left substream = unat sz \<and> istate substream = istate st0
                  \<and> (\<forall>sub'. further substream sub' \<longrightarrow>
                       pb_close_string_substream parent sub'
                       = Ret () (st0\<lparr>bytes_left := bytes_left st0 - unat sz, istate := drop (unat sz) (istate st0),
                                     ierrmsg := ierrmsg sub'\<rparr>))
              | _ \<Rightarrow> False)"
proof (cases "pb_decode_varint32 st")
  case (Ret sz st0)
  have s0: "sound st0" by (rule further_sound [OF safeD(2) [OF safe_varint32 assms Ret] assms])
  then show ?thesis
    using close_substream [OF s0, of "unat sz"] Ret by (simp add: pb_make_string_substream_def Let_def sound_def)
next
  case (Fail st')
  then show ?thesis by (simp add: pb_make_string_substream_def)
next
  case Undef
  then show ?thesis using safeD(1) [OF safe_varint32 assms] by simp
qed

theorem substream_confines_witness:
  "let st = pb_istream_from_buffer [2, 7, 8, 9] 4
   in case pb_make_string_substream st of
        Ret substream parent \<Rightarrow> bytes_left substream = 2
          \<and> pb_close_string_substream parent substream = Ret () (pb_istream_from_buffer [9] 1)
      | _ \<Rightarrow> False"
proof -
  let ?st = "pb_istream_from_buffer [2, 7, 8, 9] 4"
  have "pb_decode_varint32 ?st = Ret 2 (pb_istream_from_buffer [7, 8, 9] 3)"
    by (simp add: pb_decode_varint32_def pb_decode_varint32_eof_def pb_readbyte_def run_icallback_def buf_read_def
        pb_istream_from_buffer_def)
  moreover have "sound ?st" by (simp add: sound_def pb_istream_from_buffer_def)
  ultimately show ?thesis
    using substream_confines [of ?st] by (auto simp: pb_istream_from_buffer_def pb_make_string_substream_def Let_def)
qed

end
