(* ===== verification/Message_Tables.thy ===== *)
theory Message_Tables
  imports Cct_Messages Core_Messages Nanopb_Iter
begin

text \<open>
  The descriptor tables as numbers, and that they describe their structures: the iterator of
  \<open>pb_common.c\<close>, which only adds up the relative offsets of a table, arrives for every field at
  the member of that name and at its \<open>has_\<close> or \<open>_count\<close> member.
\<close>

named_theorems table_simps \<open>the descriptor tables, evaluated\<close>

lemmas layout_defs = PB_FIELD_def PB_RULES_ALLOCATION_def type_defs offsetof_def
  pb_bytes_array_t_def pb_delta_def pb_membersize_def pb_elemsize_def member_type_def align_up_def
  SIZEOF_PTR_def

text \<open>The fields an iterator visits from its position on: tag, \<open>pData\<close> and \<open>pSize\<close>.\<close>

function visited :: "pb_field_iter \<Rightarrow> (nat \<times> addr \<times> addr) list" where
  "visited it =
     (tag (cur it), pData it, pSize it)
     # (if fst (pb_field_iter_next it) then visited (snd (pb_field_iter_next it)) else [])"
  by pat_completeness auto
termination
  by (relation "measure (\<lambda>it. length (start it) - pos it)") (auto dest!: pb_field_iter_next_pos)

declare visited.simps [simp del]

definition visited_fields :: "pb_field list \<Rightarrow> addr \<Rightarrow> (nat \<times> addr \<times> addr) list" where
  "visited_fields fs dest = visited (snd (pb_field_iter_begin fs dest))"

text \<open>Tag, member and the member with its count or presence, placed in a structure at \<open>dest\<close>.\<close>

definition placed :: "c_type \<Rightarrow> addr \<Rightarrow> nat \<times> string \<times> string \<Rightarrow> nat \<times> addr \<times> addr" where
  "placed st dest = (\<lambda>(t, m, s). (t, dest + int (offsetof st m), dest + int (offsetof st s)))"

lemma placed_conv:
  "map (\<lambda>(t, m, s). (t, offsetof st m, offsetof st s)) ms = offs
   \<Longrightarrow> map (placed st dest) ms = map (\<lambda>(t, i, j). (t, dest + int i, dest + int j)) offs"
  by (auto simp: placed_def)

section \<open>The tables\<close>

lemma gdt_cct_NetworkConnectionInfo_fields_eval [table_simps]:
  "gdt_cct_NetworkConnectionInfo_fields =
     [Pb_field 1 16 4 (- 4) 4 0 (Ptr_default gdt_cct_NetworkConnectionInfo_network_type_default),
      Pb_field 2 17 4 (- 4) 4 0 (Ptr_default gdt_cct_NetworkConnectionInfo_mobile_subtype_default),
      PB_LAST_FIELD]"
  by (simp add: gdt_cct_NetworkConnectionInfo_fields_def layout_defs
      gdt_cct_NetworkConnectionInfo_def)

lemma gdt_cct_LogEvent_fields_eval [table_simps]:
  "gdt_cct_LogEvent_fields =
     [Pb_field 1 16 8 (- 8) 8 0 Ptr_null,
      Pb_field 6 149 0 0 8 0 Ptr_null,
      Pb_field 11 16 4 (- 4) 4 0 Ptr_null,
      Pb_field 15 18 8 (- 8) 8 0 Ptr_null,
      Pb_field 17 16 8 (- 8) 8 0 Ptr_null,
      Pb_field 23 23 4 (- 4) 16 0 (Ptr_fields gdt_cct_NetworkConnectionInfo_fields),
      PB_LAST_FIELD]"
  by (simp add: gdt_cct_LogEvent_fields_def layout_defs
      gdt_cct_LogEvent_def gdt_cct_NetworkConnectionInfo_def)

lemma gdt_cct_IosClientInfo_fields_eval [table_simps]:
  "gdt_cct_IosClientInfo_fields =
     [Pb_field 3 149 0 0 8 0 Ptr_null,
      Pb_field 4 149 0 0 8 0 Ptr_null,
      Pb_field 5 149 0 0 8 0 Ptr_null,
      Pb_field 6 149 0 0 8 0 Ptr_null,
      Pb_field 7 149 0 0 8 0 Ptr_null,
      Pb_field 8 149 0 0 8 0 Ptr_null,
      Pb_field 11 149 0 0 8 0 Ptr_null,
      PB_LAST_FIELD]"
  by (simp add: gdt_cct_IosClientInfo_fields_def layout_defs
      gdt_cct_IosClientInfo_def)

lemma gdt_cct_ClientInfo_fields_eval [table_simps]:
  "gdt_cct_ClientInfo_fields =
     [Pb_field 1 17 4 (- 4) 4 0 Ptr_null,
      Pb_field 4 23 8 (- 8) 56 0 (Ptr_fields gdt_cct_IosClientInfo_fields),
      PB_LAST_FIELD]"
  by (simp add: gdt_cct_ClientInfo_fields_def layout_defs
      gdt_cct_ClientInfo_def gdt_cct_IosClientInfo_def)

lemma gdt_cct_LogRequest_fields_eval [table_simps]:
  "gdt_cct_LogRequest_fields =
     [Pb_field 1 23 8 (- 8) 72 0 (Ptr_fields gdt_cct_ClientInfo_fields),
      Pb_field 2 16 4 (- 4) 4 0 Ptr_null,
      Pb_field 3 167 8 (- 8) 88 0 (Ptr_fields gdt_cct_LogEvent_fields),
      Pb_field 4 16 8 (- 8) 8 0 Ptr_null,
      Pb_field 8 16 8 (- 8) 8 0 Ptr_null,
      Pb_field 9 17 4 (- 4) 4 0 (Ptr_default gdt_cct_LogRequest_qos_tier_default),
      PB_LAST_FIELD]"
  by (simp add: gdt_cct_LogRequest_fields_def layout_defs
      gdt_cct_LogRequest_def gdt_cct_ClientInfo_def gdt_cct_IosClientInfo_def gdt_cct_LogEvent_def gdt_cct_NetworkConnectionInfo_def)

lemma gdt_cct_BatchedLogRequest_fields_eval [table_simps]:
  "gdt_cct_BatchedLogRequest_fields =
     [Pb_field 1 167 8 (- 8) 144 0 (Ptr_fields gdt_cct_LogRequest_fields),
      PB_LAST_FIELD]"
  by (simp add: gdt_cct_BatchedLogRequest_fields_def layout_defs
      gdt_cct_BatchedLogRequest_def gdt_cct_LogRequest_def gdt_cct_ClientInfo_def gdt_cct_IosClientInfo_def gdt_cct_LogEvent_def gdt_cct_NetworkConnectionInfo_def)

lemma gdt_cct_QosTierConfiguration_fields_eval [table_simps]:
  "gdt_cct_QosTierConfiguration_fields =
     [Pb_field 2 17 4 (- 4) 4 0 Ptr_null,
      Pb_field 3 16 4 (- 4) 4 0 (Ptr_default gdt_cct_QosTierConfiguration_log_source_default),
      PB_LAST_FIELD]"
  by (simp add: gdt_cct_QosTierConfiguration_fields_def layout_defs
      gdt_cct_QosTierConfiguration_def)

lemma gdt_cct_QosTiersOverride_fields_eval [table_simps]:
  "gdt_cct_QosTiersOverride_fields =
     [Pb_field 1 167 8 (- 8) 16 0 (Ptr_fields gdt_cct_QosTierConfiguration_fields),
      Pb_field 2 16 8 (- 8) 8 0 Ptr_null,
      PB_LAST_FIELD]"
  by (simp add: gdt_cct_QosTiersOverride_fields_def layout_defs
      gdt_cct_QosTiersOverride_def gdt_cct_QosTierConfiguration_def)

lemma gdt_cct_LogResponse_fields_eval [table_simps]:
  "gdt_cct_LogResponse_fields =
     [Pb_field 1 16 8 (- 8) 8 0 Ptr_null,
      Pb_field 3 23 8 (- 8) 32 0 (Ptr_fields gdt_cct_QosTiersOverride_fields),
      PB_LAST_FIELD]"
  by (simp add: gdt_cct_LogResponse_fields_def layout_defs
      gdt_cct_LogResponse_def gdt_cct_QosTiersOverride_def gdt_cct_QosTierConfiguration_def)

lemma logs_proto_mobilesdk_ios_ICoreConfiguration_fields_eval [table_simps]:
  "logs_proto_mobilesdk_ios_ICoreConfiguration_fields =
     [Pb_field 1 17 4 (- 4) 4 0 Ptr_null,
      Pb_field 7 161 8 (- 8) 4 0 Ptr_null,
      Pb_field 9 149 0 0 8 0 Ptr_null,
      Pb_field 10 149 0 0 8 0 Ptr_null,
      Pb_field 12 149 0 0 8 0 Ptr_null,
      Pb_field 16 17 4 (- 4) 4 0 Ptr_null,
      Pb_field 18 149 0 0 8 0 Ptr_null,
      Pb_field 19 149 0 0 8 0 Ptr_null,
      Pb_field 20 17 4 (- 4) 4 0 Ptr_null,
      Pb_field 21 16 4 (- 4) 4 0 Ptr_null,
      Pb_field 22 149 0 0 8 0 Ptr_null,
      Pb_field 24 149 0 0 8 0 Ptr_null,
      Pb_field 25 16 1 (- 1) 1 0 Ptr_null,
      Pb_field 26 16 1 (- 1) 1 0 Ptr_null,
      Pb_field 27 16 4 (- 4) 4 0 Ptr_null,
      Pb_field 28 149 4 0 8 0 Ptr_null,
      Pb_field 29 16 1 (- 1) 1 0 Ptr_null,
      Pb_field 30 17 2 (- 2) 4 0 Ptr_null,
      Pb_field 31 149 0 0 8 0 Ptr_null,
      Pb_field 33 16 1 (- 1) 1 0 Ptr_null,
      Pb_field 36 16 1 (- 1) 1 0 Ptr_null,
      PB_LAST_FIELD]"
  by code_simp

section \<open>The members of the structures\<close>

definition gdt_cct_NetworkConnectionInfo_members :: "(nat \<times> string \<times> string) list" where
  "gdt_cct_NetworkConnectionInfo_members =
     [(1, ''network_type'', ''has_network_type''),
      (2, ''mobile_subtype'', ''has_mobile_subtype'')]"

definition gdt_cct_LogEvent_members :: "(nat \<times> string \<times> string) list" where
  "gdt_cct_LogEvent_members =
     [(1, ''event_time_ms'', ''has_event_time_ms''),
      (6, ''source_extension'', ''source_extension''),
      (11, ''event_code'', ''has_event_code''),
      (15, ''timezone_offset_seconds'', ''has_timezone_offset_seconds''),
      (17, ''event_uptime_ms'', ''has_event_uptime_ms''),
      (23, ''network_connection_info'', ''has_network_connection_info'')]"

definition gdt_cct_IosClientInfo_members :: "(nat \<times> string \<times> string) list" where
  "gdt_cct_IosClientInfo_members =
     [(3, ''os_major_version'', ''os_major_version''),
      (4, ''os_full_version'', ''os_full_version''),
      (5, ''application_build'', ''application_build''),
      (6, ''country'', ''country''),
      (7, ''model'', ''model''),
      (8, ''language_code'', ''language_code''),
      (11, ''application_bundle_id'', ''application_bundle_id'')]"

definition gdt_cct_ClientInfo_members :: "(nat \<times> string \<times> string) list" where
  "gdt_cct_ClientInfo_members =
     [(1, ''client_type'', ''has_client_type''),
      (4, ''ios_client_info'', ''has_ios_client_info'')]"

definition gdt_cct_LogRequest_members :: "(nat \<times> string \<times> string) list" where
  "gdt_cct_LogRequest_members =
     [(1, ''client_info'', ''has_client_info''),
      (2, ''log_source'', ''has_log_source''),
      (3, ''log_event'', ''log_event_count''),
      (4, ''request_time_ms'', ''has_request_time_ms''),
      (8, ''request_uptime_ms'', ''has_request_uptime_ms''),
      (9, ''qos_tier'', ''has_qos_tier'')]"

definition gdt_cct_BatchedLogRequest_members :: "(nat \<times> string \<times> string) list" where
  "gdt_cct_BatchedLogRequest_members =
     [(1, ''log_request'', ''log_request_count'')]"

definition gdt_cct_QosTierConfiguration_members :: "(nat \<times> string \<times> string) list" where
  "gdt_cct_QosTierConfiguration_members =
     [(2, ''qos_tier'', ''has_qos_tier''),
      (3, ''log_source'', ''has_log_source'')]"

definition gdt_cct_QosTiersOverride_members :: "(nat \<times> string \<times> string) list" where
  "gdt_cct_QosTiersOverride_members =
     [(1, ''qos_tier_configuration'', ''qos_tier_configuration_count''),
      (2, ''qos_tier_fingerprint'', ''has_qos_tier_fingerprint'')]"

definition gdt_cct_LogResponse_members :: "(nat \<times> string \<times> string) list" where
  "gdt_cct_LogResponse_members =
     [(1, ''next_request_wait_millis'', ''has_next_request_wait_millis''),
      (3, ''qos_tier'', ''has_qos_tier'')]"

definition logs_proto_mobilesdk_ios_ICoreConfiguration_members :: "(nat \<times> string \<times> string) list" where
  "logs_proto_mobilesdk_ios_ICoreConfiguration_members =
     [(1, ''configuration_type'', ''has_configuration_type''),
      (7, ''sdk_service_installed'', ''sdk_service_installed_count''),
      (9, ''device_model'', ''device_model''),
      (10, ''app_id'', ''app_id''),
      (12, ''bundle_id'', ''bundle_id''),
      (16, ''pod_name'', ''has_pod_name''),
      (18, ''icore_version'', ''icore_version''),
      (19, ''sdk_version'', ''sdk_version''),
      (20, ''sdk_name'', ''has_sdk_name''),
      (21, ''app_count'', ''has_app_count''),
      (22, ''os_version'', ''os_version''),
      (24, ''min_supported_ios_version'', ''min_supported_ios_version''),
      (25, ''use_default_app'', ''has_use_default_app''),
      (26, ''deployed_in_app_store'', ''has_deployed_in_app_store''),
      (27, ''dynamic_framework_count'', ''has_dynamic_framework_count''),
      (28, ''apple_framework_version'', ''apple_framework_version''),
      (29, ''using_zip_file'', ''has_using_zip_file''),
      (30, ''deployment_type'', ''has_deployment_type''),
      (31, ''platform_info'', ''platform_info''),
      (33, ''swizzling_enabled'', ''has_swizzling_enabled''),
      (36, ''using_gdt'', ''has_using_gdt'')]"

lemma gdt_cct_NetworkConnectionInfo_offsets:
  "map (\<lambda>(t, m, s). (t, offsetof gdt_cct_NetworkConnectionInfo m, offsetof gdt_cct_NetworkConnectionInfo s)) gdt_cct_NetworkConnectionInfo_members
   = [(1, 4, 0), (2, 12, 8)]"
  by code_simp

lemma gdt_cct_LogEvent_offsets:
  "map (\<lambda>(t, m, s). (t, offsetof gdt_cct_LogEvent m, offsetof gdt_cct_LogEvent s)) gdt_cct_LogEvent_members
   = [(1, 8, 0), (6, 16, 16), (11, 28, 24), (15, 40, 32), (17, 56, 48), (23, 68, 64)]"
  by code_simp

lemma gdt_cct_IosClientInfo_offsets:
  "map (\<lambda>(t, m, s). (t, offsetof gdt_cct_IosClientInfo m, offsetof gdt_cct_IosClientInfo s)) gdt_cct_IosClientInfo_members
   = [(3, 0, 0), (4, 8, 8), (5, 16, 16), (6, 24, 24), (7, 32, 32), (8, 40, 40), (11, 48, 48)]"
  by code_simp

lemma gdt_cct_ClientInfo_offsets:
  "map (\<lambda>(t, m, s). (t, offsetof gdt_cct_ClientInfo m, offsetof gdt_cct_ClientInfo s)) gdt_cct_ClientInfo_members
   = [(1, 4, 0), (4, 16, 8)]"
  by code_simp

lemma gdt_cct_LogRequest_offsets:
  "map (\<lambda>(t, m, s). (t, offsetof gdt_cct_LogRequest m, offsetof gdt_cct_LogRequest s)) gdt_cct_LogRequest_members
   = [(1, 8, 0), (2, 84, 80), (3, 96, 88), (4, 112, 104), (8, 128, 120), (9, 140, 136)]"
  by code_simp

lemma gdt_cct_BatchedLogRequest_offsets:
  "map (\<lambda>(t, m, s). (t, offsetof gdt_cct_BatchedLogRequest m, offsetof gdt_cct_BatchedLogRequest s)) gdt_cct_BatchedLogRequest_members
   = [(1, 8, 0)]"
  by code_simp

lemma gdt_cct_QosTierConfiguration_offsets:
  "map (\<lambda>(t, m, s). (t, offsetof gdt_cct_QosTierConfiguration m, offsetof gdt_cct_QosTierConfiguration s)) gdt_cct_QosTierConfiguration_members
   = [(2, 4, 0), (3, 12, 8)]"
  by code_simp

lemma gdt_cct_QosTiersOverride_offsets:
  "map (\<lambda>(t, m, s). (t, offsetof gdt_cct_QosTiersOverride m, offsetof gdt_cct_QosTiersOverride s)) gdt_cct_QosTiersOverride_members
   = [(1, 8, 0), (2, 24, 16)]"
  by code_simp

lemma gdt_cct_LogResponse_offsets:
  "map (\<lambda>(t, m, s). (t, offsetof gdt_cct_LogResponse m, offsetof gdt_cct_LogResponse s)) gdt_cct_LogResponse_members
   = [(1, 8, 0), (3, 24, 16)]"
  by code_simp

lemma logs_proto_mobilesdk_ios_ICoreConfiguration_offsets:
  "map (\<lambda>(t, m, s). (t, offsetof logs_proto_mobilesdk_ios_ICoreConfiguration m, offsetof logs_proto_mobilesdk_ios_ICoreConfiguration s)) logs_proto_mobilesdk_ios_ICoreConfiguration_members
   = [(1, 4, 0), (7, 16, 8), (9, 24, 24), (10, 32, 32), (12, 40, 40), (16, 52, 48), (18, 56, 56), (19, 64, 64), (20, 76, 72), (21, 84, 80), (22, 88, 88), (24, 96, 96), (25, 105, 104), (26, 107, 106), (27, 112, 108), (28, 120, 120), (29, 129, 128), (30, 132, 130), (31, 136, 136), (33, 145, 144), (36, 147, 146)]"
  by code_simp

lemmas visit_simps = visited_fields_def visited.simps pb_field_iter_begin_def field_at_def cur_def
  pb_field_iter_next_def Let_def prev_size_def type_defs SIZEOF_PTR_def PB_LAST_FIELD_def

lemma gdt_cct_NetworkConnectionInfo_visited:
  "visited_fields gdt_cct_NetworkConnectionInfo_fields dest = map (placed gdt_cct_NetworkConnectionInfo dest) gdt_cct_NetworkConnectionInfo_members"
  by (simp add: placed_conv [OF gdt_cct_NetworkConnectionInfo_offsets] gdt_cct_NetworkConnectionInfo_fields_eval visit_simps)

lemma gdt_cct_LogEvent_visited:
  "visited_fields gdt_cct_LogEvent_fields dest = map (placed gdt_cct_LogEvent dest) gdt_cct_LogEvent_members"
  by (simp add: placed_conv [OF gdt_cct_LogEvent_offsets] gdt_cct_LogEvent_fields_eval visit_simps)

lemma gdt_cct_IosClientInfo_visited:
  "visited_fields gdt_cct_IosClientInfo_fields dest = map (placed gdt_cct_IosClientInfo dest) gdt_cct_IosClientInfo_members"
  by (simp add: placed_conv [OF gdt_cct_IosClientInfo_offsets] gdt_cct_IosClientInfo_fields_eval visit_simps)

lemma gdt_cct_ClientInfo_visited:
  "visited_fields gdt_cct_ClientInfo_fields dest = map (placed gdt_cct_ClientInfo dest) gdt_cct_ClientInfo_members"
  by (simp add: placed_conv [OF gdt_cct_ClientInfo_offsets] gdt_cct_ClientInfo_fields_eval visit_simps)

lemma gdt_cct_LogRequest_visited:
  "visited_fields gdt_cct_LogRequest_fields dest = map (placed gdt_cct_LogRequest dest) gdt_cct_LogRequest_members"
  by (simp add: placed_conv [OF gdt_cct_LogRequest_offsets] gdt_cct_LogRequest_fields_eval visit_simps)

lemma gdt_cct_BatchedLogRequest_visited:
  "visited_fields gdt_cct_BatchedLogRequest_fields dest = map (placed gdt_cct_BatchedLogRequest dest) gdt_cct_BatchedLogRequest_members"
  by (simp add: placed_conv [OF gdt_cct_BatchedLogRequest_offsets] gdt_cct_BatchedLogRequest_fields_eval visit_simps)

lemma gdt_cct_QosTierConfiguration_visited:
  "visited_fields gdt_cct_QosTierConfiguration_fields dest = map (placed gdt_cct_QosTierConfiguration dest) gdt_cct_QosTierConfiguration_members"
  by (simp add: placed_conv [OF gdt_cct_QosTierConfiguration_offsets] gdt_cct_QosTierConfiguration_fields_eval visit_simps)

lemma gdt_cct_QosTiersOverride_visited:
  "visited_fields gdt_cct_QosTiersOverride_fields dest = map (placed gdt_cct_QosTiersOverride dest) gdt_cct_QosTiersOverride_members"
  by (simp add: placed_conv [OF gdt_cct_QosTiersOverride_offsets] gdt_cct_QosTiersOverride_fields_eval visit_simps)

lemma gdt_cct_LogResponse_visited:
  "visited_fields gdt_cct_LogResponse_fields dest = map (placed gdt_cct_LogResponse dest) gdt_cct_LogResponse_members"
  by (simp add: placed_conv [OF gdt_cct_LogResponse_offsets] gdt_cct_LogResponse_fields_eval visit_simps)

lemma logs_proto_mobilesdk_ios_ICoreConfiguration_visited:
  "visited_fields logs_proto_mobilesdk_ios_ICoreConfiguration_fields dest = map (placed logs_proto_mobilesdk_ios_ICoreConfiguration dest) logs_proto_mobilesdk_ios_ICoreConfiguration_members"
  by (simp add: placed_conv [OF logs_proto_mobilesdk_ios_ICoreConfiguration_offsets] logs_proto_mobilesdk_ios_ICoreConfiguration_fields_eval visit_simps)

section \<open>The properties\<close>

text \<open>C24: for each of the ten generated message types, walking the descriptor
  table with the field iterator from a structure at any address visits the fields in order, each
  with the address of its member and of its \<open>has_\<close> or \<open>_count\<close> member as the C structure lays
  them out.\<close>

theorem tables_match_structs:
  "visited_fields gdt_cct_NetworkConnectionInfo_fields dest = map (placed gdt_cct_NetworkConnectionInfo dest) gdt_cct_NetworkConnectionInfo_members \<and>
   visited_fields gdt_cct_LogEvent_fields dest = map (placed gdt_cct_LogEvent dest) gdt_cct_LogEvent_members \<and>
   visited_fields gdt_cct_IosClientInfo_fields dest = map (placed gdt_cct_IosClientInfo dest) gdt_cct_IosClientInfo_members \<and>
   visited_fields gdt_cct_ClientInfo_fields dest = map (placed gdt_cct_ClientInfo dest) gdt_cct_ClientInfo_members \<and>
   visited_fields gdt_cct_LogRequest_fields dest = map (placed gdt_cct_LogRequest dest) gdt_cct_LogRequest_members \<and>
   visited_fields gdt_cct_BatchedLogRequest_fields dest = map (placed gdt_cct_BatchedLogRequest dest) gdt_cct_BatchedLogRequest_members \<and>
   visited_fields gdt_cct_QosTierConfiguration_fields dest = map (placed gdt_cct_QosTierConfiguration dest) gdt_cct_QosTierConfiguration_members \<and>
   visited_fields gdt_cct_QosTiersOverride_fields dest = map (placed gdt_cct_QosTiersOverride dest) gdt_cct_QosTiersOverride_members \<and>
   visited_fields gdt_cct_LogResponse_fields dest = map (placed gdt_cct_LogResponse dest) gdt_cct_LogResponse_members \<and>
   visited_fields logs_proto_mobilesdk_ios_ICoreConfiguration_fields dest = map (placed logs_proto_mobilesdk_ios_ICoreConfiguration dest) logs_proto_mobilesdk_ios_ICoreConfiguration_members"
  by (intro conjI) (fact gdt_cct_NetworkConnectionInfo_visited gdt_cct_LogEvent_visited gdt_cct_IosClientInfo_visited gdt_cct_ClientInfo_visited gdt_cct_LogRequest_visited gdt_cct_BatchedLogRequest_visited gdt_cct_QosTierConfiguration_visited gdt_cct_QosTiersOverride_visited gdt_cct_LogResponse_visited logs_proto_mobilesdk_ios_ICoreConfiguration_visited)+

end
