(* ===== verification/Nanopb_Iter_Correct.thy ===== *)
theory Nanopb_Iter_Correct
  imports Nanopb_Iter
begin

text \<open>
  The field iterator as a state machine: its states are those reachable from
  \<open>pb_field_iter_begin\<close> by \<open>pb_field_iter_next\<close>. On a well-formed table they form a cycle, one
  state per field, so the search of \<open>pb_field_iter_find\<close> finds a field from any of them and
  arrives at the one state of that field.
\<close>

section \<open>States\<close>

inductive iter_reach :: "pb_field list \<Rightarrow> addr \<Rightarrow> pb_field_iter \<Rightarrow> bool" for fs dest where
  iter_begin: "iter_reach fs dest (snd (pb_field_iter_begin fs dest))"
| iter_next: "iter_reach fs dest it \<Longrightarrow> iter_reach fs dest (snd (pb_field_iter_next it))"

text \<open>A descriptor array with \<open>n\<close> fields before its terminator.\<close>

definition table :: "pb_field list \<Rightarrow> nat \<Rightarrow> bool" where
  "table fs n \<longleftrightarrow> 0 < n \<and> (\<forall>i < n. tag (field_at fs i) \<noteq> 0) \<and> tag (field_at fs n) = 0"

text \<open>The state after \<open>i\<close> steps.\<close>

fun iter_nth :: "pb_field list \<Rightarrow> addr \<Rightarrow> nat \<Rightarrow> pb_field_iter" where
  "iter_nth fs dest 0 = snd (pb_field_iter_begin fs dest)"
| "iter_nth fs dest (Suc i) = snd (pb_field_iter_next (iter_nth fs dest i))"

lemma iter_begin_sel [simp]:
  "start (snd (pb_field_iter_begin fs dest)) = fs"
  "pos (snd (pb_field_iter_begin fs dest)) = 0"
  "dest_struct (snd (pb_field_iter_begin fs dest)) = dest"
  by (simp_all add: pb_field_iter_begin_def Let_def)

lemma iter_nth_sel:
  assumes "table fs n" and "i < n"
  shows "start (iter_nth fs dest i) = fs \<and> pos (iter_nth fs dest i) = i
         \<and> dest_struct (iter_nth fs dest i) = dest"
  using assms(2)
proof (induction i)
  case (Suc i)
  with assms(1) show ?case
    by (auto simp: pb_field_iter_next_def Let_def cur_def table_def)
qed simp

lemma cur_iter_nth: "table fs n \<Longrightarrow> i < n \<Longrightarrow> cur (iter_nth fs dest i) = field_at fs i"
  by (simp add: cur_def iter_nth_sel)

lemma iter_next_nth:
  assumes "table fs n" and "i < n"
  shows "pb_field_iter_next (iter_nth fs dest i)
         = (Suc i < n, iter_nth fs dest (if Suc i < n then Suc i else 0))"
proof -
  let ?it = "iter_nth fs dest i"
  note sel = iter_nth_sel [OF assms, of dest] cur_iter_nth [OF assms, of dest]
  have "tag (field_at fs (Suc i)) \<noteq> 0" if "Suc i \<noteq> n"
    using assms that by (simp add: table_def)
  then have t2: "(tag (field_at fs (Suc i)) = 0) = (Suc i = n)"
    using assms(1) by (cases "Suc i = n") (simp_all add: table_def)
  have t1: "tag (cur ?it) \<noteq> 0"
    using assms sel by (simp add: table_def)
  note t = t1 t2
  show ?thesis
  proof (cases "Suc i < n")
    case True
    then have "fst (pb_field_iter_next ?it)"
      using t sel by (auto simp: pb_field_iter_next_def Let_def)
    with True show ?thesis by (simp add: prod_eq_iff)
  next
    case False
    with assms t sel show ?thesis by (auto simp: pb_field_iter_next_def Let_def)
  qed
qed

lemma iter_reach_nth:
  assumes "table fs n"
  shows "iter_reach fs dest it \<longleftrightarrow> (\<exists>i < n. it = iter_nth fs dest i)"
proof
  assume "iter_reach fs dest it"
  then show "\<exists>i < n. it = iter_nth fs dest i"
  proof (induction rule: iter_reach.induct)
    case iter_begin
    from assms have "0 < n" by (simp add: table_def)
    then show ?case by (intro exI [of _ 0]) simp
  next
    case (iter_next it)
    then obtain i where "i < n" "it = iter_nth fs dest i" by blast
    then have "snd (pb_field_iter_next it) = iter_nth fs dest (if Suc i < n then Suc i else 0)"
      by (simp only: iter_next_nth [OF assms] snd_conv)
    moreover have "(if Suc i < n then Suc i else 0) < n" using \<open>i < n\<close> by auto
    ultimately show ?case by blast
  qed
next
  assume "\<exists>i < n. it = iter_nth fs dest i"
  then obtain i where "it = iter_nth fs dest i" by blast
  moreover have "iter_reach fs dest (iter_nth fs dest i)" for i
    by (induction i) (auto intro: iter_reach.intros)
  ultimately show "iter_reach fs dest it" by simp
qed

section \<open>Searching\<close>

text \<open>From state \<open>i\<close>, having started at \<open>s\<close> and seen the \<open>n - k\<close> fields from \<open>s\<close> to before \<open>i\<close>
  without a match.\<close>

lemma iter_search_cycle:
  assumes "table fs n" and "s < n" and "0 < k" and "k \<le> n" and "k \<le> fuel"
    and "\<forall>j < n - k. \<not> p (field_at fs ((s + j) mod n))"
  shows "iter_search fuel p s (iter_nth fs dest ((s + (n - k)) mod n)) =
     (if \<exists>j < n. p (field_at fs j)
      then (True, iter_nth fs dest ((s + (LEAST j. p (field_at fs ((s + j) mod n)))) mod n))
      else (False, iter_nth fs dest s))"
  using assms(3-6)
proof (induction k arbitrary: fuel)
  case (Suc k)
  let ?j = "n - Suc k" let ?i = "(s + ?j) mod n" let ?L = "LEAST j. p (field_at fs ((s + j) mod n))"
  have n: "0 < n" and i: "?i < n" using assms(1) by (simp_all add: table_def)
  from Suc.prems obtain m where m: "fuel = Suc m" "k \<le> m" by (cases fuel) auto
  note c = cur_iter_nth [OF assms(1) i, of dest] and nx = iter_next_nth [OF assms(1) i, of dest]
  have nxt: "snd (pb_field_iter_next (iter_nth fs dest ?i)) = iter_nth fs dest ((s + (n - k)) mod n)"
  proof -
    have "s + (n - k) = Suc (s + ?j)" using Suc.prems(2) by simp
    moreover have "Suc (s + ?j) mod n = (if Suc ?i < n then Suc ?i else 0)"
      using i by (simp add: mod_Suc)
    ultimately show ?thesis by (simp only: nx snd_conv)
  qed
  show ?case
  proof (cases "p (field_at fs ?i)")
    case True
    have "?L = ?j"
      by (rule Least_equality) (use True Suc.prems(4) not_le in auto)
    with True i c m show ?thesis by auto
  next
    case False
    then have seen: "\<forall>j < n - k. \<not> p (field_at fs ((s + j) mod n))"
    proof -
      have "j < ?j \<or> j = ?j" if "j < n - k" for j using that Suc.prems(2) by auto
      with False Suc.prems(4) show ?thesis by blast
    qed
    show ?thesis
    proof (cases k)
      case 0
      have "\<not> p (field_at fs j)" if "j < n" for j
      proof -
        have "(s + (j + (n - s)) mod n) mod n = j"
          using that assms(2) by (simp add: mod_add_right_eq)
        moreover have "(j + (n - s)) mod n < n - k" using n 0 by simp
        ultimately show ?thesis using seen by metis
      qed
      with False m c nxt 0 assms(2) show ?thesis
        using iter_nth_sel [OF assms(1,2), of dest] by auto
    next
      case (Suc k')
      have lt: "(s + (n - k)) mod n < n" using n by simp
      have "(s + (n - k)) mod n \<noteq> s"
      proof
        assume "(s + (n - k)) mod n = s"
        then have "(s + (n - k)) mod n = s mod n" using assms(2) by simp
        then have "n dvd n - k"
          by (metis add_diff_cancel_left' mod_eq_dvd_iff_nat le_add1)
        then show False using Suc Suc.prems(2) n by (auto dest: dvd_imp_le)
      qed
      with False m c nxt iter_nth_sel [OF assms(1) lt, of dest] Suc.IH [of m] Suc Suc.prems(2) seen
      show ?thesis by (simp add: Let_def)
    qed
  qed
qed simp

lemma pb_field_iter_find_cycle:
  assumes "table fs n" and "i < n"
  shows "iter_search (length fs) p i (iter_nth fs dest i) =
     (if \<exists>j < n. p (field_at fs j)
      then (True, iter_nth fs dest ((i + (LEAST j. p (field_at fs ((i + j) mod n)))) mod n))
      else (False, iter_nth fs dest i))"
proof -
  have "tag (field_at fs (n - 1)) \<noteq> 0" using assms by (simp add: table_def)
  then have "n \<le> length fs" using field_at_tag [of fs "n - 1"] assms(2) by simp
  with iter_search_cycle [OF assms, of n "length fs" p dest] assms show ?thesis by simp
qed

lemma least_in_cycle:
  fixes n :: nat
  assumes "i < n" and "j < n" and "p (f j)"
  shows "p (f ((i + (LEAST j. p (f ((i + j) mod n)))) mod n))"
proof -
  have "(i + (j + (n - i))) mod n = j" using assms(1,2) by simp
  with assms(3) have "p (f ((i + (j + (n - i))) mod n))" by simp
  then show ?thesis by (rule LeastI)
qed

section \<open>The properties\<close>

text \<open>C26: in a well-formed table, from any state the iterator can be in,
  \<open>pb_field_iter_find\<close> succeeds exactly when some field other than the extension placeholder has
  the tag. It then arrives at a reachable state of such a field, and otherwise it is back where it
  was. With distinct tags the state, and so the addresses it holds, does not depend on where the
  search started.\<close>

theorem pb_field_iter_find_correct:
  assumes "table fs n" and "iter_reach fs dest it"
  shows "case pb_field_iter_find it t of
      (True, it') \<Rightarrow> iter_reach fs dest it' \<and> tag (cur it') = t \<and> ltype (cur it') \<noteq> PB_LTYPE_EXTENSION
        \<and> ((\<forall>i < n. \<forall>j < n. tag (field_at fs i) = tag (field_at fs j) \<longrightarrow> i = j) \<longrightarrow>
            (\<forall>it2. iter_reach fs dest it2 \<longrightarrow> pb_field_iter_find it2 t = (True, it')))
    | (False, it') \<Rightarrow> it' = it
        \<and> (\<forall>i < n. tag (field_at fs i) = t \<longrightarrow> ltype (field_at fs i) = PB_LTYPE_EXTENSION)"
proof -
  let ?p = "\<lambda>f. tag f = t \<and> ltype f \<noteq> PB_LTYPE_EXTENSION"
  let ?to = "\<lambda>i. (i + (LEAST j. ?p (field_at fs ((i + j) mod n)))) mod n"
  have find: "pb_field_iter_find (iter_nth fs dest i) t =
      (if \<exists>j < n. ?p (field_at fs j) then (True, iter_nth fs dest (?to i)) else (False, iter_nth fs dest i))"
    if "i < n" for i
    using pb_field_iter_find_cycle [OF assms(1) that, of ?p dest] iter_nth_sel [OF assms(1) that, of dest]
    by (simp add: pb_field_iter_find_def)
  from assms obtain i where i: "i < n" "it = iter_nth fs dest i" by (auto simp: iter_reach_nth)
  show ?thesis
  proof (cases "\<exists>j < n. ?p (field_at fs j)")
    case True
    then obtain j where j: "j < n" "?p (field_at fs j)" by blast
    have hit: "?p (field_at fs (?to k))" "?to k < n" if "k < n" for k
    proof -
      show "?p (field_at fs (?to k))" by (rule least_in_cycle [OF that j(1)]) (rule j(2))
      show "?to k < n" by (rule mod_less_divisor) (use that in simp)
    qed
    have "pb_field_iter_find it2 t = (True, iter_nth fs dest (?to i))"
      if "\<forall>i < n. \<forall>j < n. tag (field_at fs i) = tag (field_at fs j) \<longrightarrow> i = j" "iter_reach fs dest it2"
      for it2
    proof -
      from that(2) obtain k where k: "k < n" "it2 = iter_nth fs dest k"
        using assms(1) by (auto simp: iter_reach_nth)
      have "tag (field_at fs (?to k)) = tag (field_at fs (?to i))"
        using hit(1) [OF k(1)] hit(1) [OF i(1)] by (simp only: simp_thms)
      with that(1) hit(2) [OF k(1)] hit(2) [OF i(1)] have "?to k = ?to i" by blast
      with True find [OF k(1)] show ?thesis unfolding k(2) by (simp only: if_True)
    qed
    moreover have "iter_reach fs dest (iter_nth fs dest (?to i))"
      using hit(2) [OF i(1)] assms(1) by (auto simp: iter_reach_nth)
    moreover have "cur (iter_nth fs dest (?to i)) = field_at fs (?to i)"
      by (rule cur_iter_nth [OF assms(1) hit(2) [OF i(1)]])
    moreover have "pb_field_iter_find it t = (True, iter_nth fs dest (?to i))"
      using True find [OF i(1)] unfolding i(2) by (simp only: if_True)
    ultimately show ?thesis
      using hit(1) [OF i(1)] by (simp only: prod.case bool.case simp_thms) blast
  next
    case False
    then have "pb_field_iter_find it t = (False, it)"
      using find [OF i(1)] unfolding i(2) by (simp only: if_False)
    with False show ?thesis by (simp only: prod.case bool.case simp_thms) blast
  qed
qed

text \<open>A table with two fields.\<close>

definition two_fields :: "pb_field list" where
  "two_fields = [Pb_field 1 PB_LTYPE_UVARINT 0 0 4 0 Ptr_null,
                 Pb_field 2 PB_LTYPE_VARINT 4 0 4 0 Ptr_null, PB_LAST_FIELD]"

lemma table_two_fields: "table two_fields 2"
  by (simp add: table_def two_fields_def field_at_def numeral_2_eq_2 less_Suc_eq)

theorem pb_field_iter_find_correct_witness:
  "\<exists>it'. pb_field_iter_find (snd (pb_field_iter_begin two_fields 64)) 2 = (True, it')
      \<and> iter_reach two_fields 64 it' \<and> tag (cur it') = 2"
proof -
  let ?it = "snd (pb_field_iter_begin two_fields 64)"
  have "ltype (field_at two_fields 1) \<noteq> PB_LTYPE_EXTENSION" "tag (field_at two_fields 1) = 2"
    by (simp_all add: two_fields_def field_at_def type_defs)
  with pb_field_iter_find_correct [OF table_two_fields iter_reach.iter_begin, of 64 2]
  show ?thesis
    by (cases "pb_field_iter_find ?it 2") (auto split: bool.splits)
qed

end
