(* ===== verification/Nanopb_Heap_Ops.thy ===== *)
theory Nanopb_Heap_Ops
  imports Nanopb_Env
begin

text \<open>
  The functions of \<open>pb_decode.c\<close> that work on the destination structure and the heap without
  reading input: setting defaults, releasing allocated fields, allocating and initialising
  pointer fields. As in the encoder, recursion into submessages is bounded by a number.
\<close>

section \<open>Extensions\<close>

definition iter_from_extension :: "mem \<Rightarrow> pb_field \<Rightarrow> addr \<Rightarrow> pb_field_iter" where
  "iter_from_extension m field extension =
     (let it = snd (pb_field_iter_begin [field] (load_ptr m (extension + EXT_DEST)))
      in it\<lparr>pData := (if atype field = PB_ATYPE_POINTER then extension + EXT_DEST
                      else load_ptr m (extension + EXT_DEST)),
            pSize := extension + EXT_FOUND\<rparr>)"

text \<open>\<open>while (ext != NULL) { ...; ext = ext->next }\<close>, the body given the extension type.\<close>

primrec foreach_extension ::
    "nat \<Rightarrow> pb_env \<Rightarrow> (pb_extension_type \<Rightarrow> addr \<Rightarrow> heap \<Rightarrow> (heap, unit) res) \<Rightarrow> addr \<Rightarrow> heap
     \<Rightarrow> (heap, unit) res" where
  "foreach_extension 0 env body ext h = Undef"
| "foreach_extension (Suc k) env body ext h =
     (if ext = NULL then Ret () h
      else (case ext_type env (load_ptr (hmem h) (ext + EXT_TYPE)) of
              None \<Rightarrow> Undef
            | Some ty \<Rightarrow>
                rbind (body ty ext h) (\<lambda>_ h.
                  foreach_extension k env body (load_ptr (hmem h) (ext + EXT_NEXT)) h)))"

section \<open>Defaults\<close>

text \<open>\<open>begin\<close>, then \<open>do { body } while (next)\<close>, on every field of a structure.\<close>

definition foreach_field_of ::
    "(pb_field_iter \<Rightarrow> heap \<Rightarrow> (heap, unit) res) \<Rightarrow> pb_field list \<Rightarrow> addr \<Rightarrow> heap
     \<Rightarrow> (heap, unit) res" where
  "foreach_field_of body fs dest h =
     (case pb_field_iter_begin fs dest of
        (False, _) \<Rightarrow> Ret () h
      | (True, it) \<Rightarrow> foreach_field body it h)"

text \<open>Initialising the data of a static field.\<close>

definition init_static_data ::
    "(pb_field_iter \<Rightarrow> heap \<Rightarrow> (heap, unit) res) \<Rightarrow> pb_field_iter \<Rightarrow> heap \<Rightarrow> (heap, unit) res" where
  "init_static_data body it h =
     (let f = cur it
      in if ltype f = PB_LTYPE_SUBMESSAGE
         then (case ptr f of
                 Ptr_fields fs \<Rightarrow> foreach_field_of body fs (pData it) h
               | _ \<Rightarrow> Undef)
         else (case ptr f of
                 Ptr_default bs \<Rightarrow>
                   if data_size f \<le> length bs
                   then Ret () (upd_mem (\<lambda>m. store_bytes m (pData it) (take (data_size f) bs)) h)
                   else Undef
               | Ptr_null \<Rightarrow> Ret () (upd_mem (\<lambda>m. memset0 m (pData it) (data_size f)) h)
               | Ptr_fields _ \<Rightarrow> Undef))"

primrec pb_field_set_to_default ::
    "pb_env \<Rightarrow> nat \<Rightarrow> pb_field_iter \<Rightarrow> heap \<Rightarrow> (heap, unit) res" where
  "pb_field_set_to_default env 0 it h = Undef"
| "pb_field_set_to_default env (Suc n) it h =
     (let f = cur it
      in if ltype f = PB_LTYPE_EXTENSION
         then foreach_extension n env
                (\<lambda>ty ext h.
                   let h' = upd_mem (\<lambda>m. store_bool m (ext + EXT_FOUND) False) h
                   in pb_field_set_to_default env n
                        (iter_from_extension (hmem h') (ext_arg ty) ext) h')
                (load_ptr (hmem h) (pData it)) h
         else if atype f = PB_ATYPE_STATIC
         then (if htype f = PB_HTYPE_OPTIONAL \<and> pSize it \<noteq> pData it
               then init_static_data (pb_field_set_to_default env n) it
                      (upd_mem (\<lambda>m. store_bool m (pSize it) False) h)
               else if htype f = PB_HTYPE_REPEATED \<or> htype f = PB_HTYPE_ONEOF
               then Ret () (upd_mem (\<lambda>m. store_size m (pSize it) 0) h)
               else init_static_data (pb_field_set_to_default env n) it h)
         else if atype f = PB_ATYPE_POINTER
         then (let h' = upd_mem (\<lambda>m. store_ptr m (pData it) NULL) h
               in if htype f = PB_HTYPE_REPEATED \<or> htype f = PB_HTYPE_ONEOF
                  then Ret () (upd_mem (\<lambda>m. store_size m (pSize it) 0) h')
                  else Ret () h')
         else Ret () h)"

definition pb_message_set_to_defaults ::
    "pb_env \<Rightarrow> nat \<Rightarrow> pb_field list \<Rightarrow> addr \<Rightarrow> heap \<Rightarrow> (heap, unit) res" where
  "pb_message_set_to_defaults env n fs dest h =
     foreach_field_of (pb_field_set_to_default env n) fs dest h"

section \<open>Releasing\<close>

text \<open>\<open>while (count--) { pb_release(...); pItem += data_size; }\<close>\<close>

primrec release_items :: "(addr \<Rightarrow> heap \<Rightarrow> (heap, unit) res) \<Rightarrow> nat \<Rightarrow> nat \<Rightarrow> addr \<Rightarrow> heap
    \<Rightarrow> (heap, unit) res" where
  "release_items rel stride 0 p h = Ret () h"
| "release_items rel stride (Suc k) p h =
     rbind (rel p h) (\<lambda>_ h. release_items rel stride k (p + int stride) h)"

text \<open>\<open>while (count--) { pb_free( *pItem); *pItem++ = NULL; }\<close>\<close>

primrec free_entries :: "nat \<Rightarrow> addr \<Rightarrow> heap \<Rightarrow> (heap, unit) res" where
  "free_entries 0 p h = Ret () h"
| "free_entries (Suc k) p h =
     (if p = NULL then Undef
      else rbind (pb_free h (load_ptr (hmem h) p)) (\<lambda>_ h.
             free_entries k (p + int SIZEOF_PTR) (upd_mem (\<lambda>m. store_ptr m p NULL) h)))"

text \<open>\<open>pb_release\<close>, with the function for a single field.\<close>

definition release_message ::
    "(pb_field_iter \<Rightarrow> heap \<Rightarrow> (heap, unit) res) \<Rightarrow> pb_field list \<Rightarrow> addr \<Rightarrow> heap
     \<Rightarrow> (heap, unit) res" where
  "release_message body fs dest h = (if dest = NULL then Ret () h else foreach_field_of body fs dest h)"

text \<open>How many submessages a field holds.\<close>

definition release_count :: "mem \<Rightarrow> pb_field_iter \<Rightarrow> nat" where
  "release_count m it =
     (let f = cur it
      in if htype f = PB_HTYPE_REPEATED
         then (let count = (if atype f = PB_ATYPE_STATIC \<and> pSize it = pData it
                            then array_size f else load_size m (pSize it))
               in if atype f = PB_ATYPE_STATIC \<and> array_size f < count then array_size f else count)
         else 1)"

text \<open>The last part of \<open>pb_release_single_field\<close>: the allocation of a pointer field itself.\<close>

definition release_pointer :: "pb_field_iter \<Rightarrow> heap \<Rightarrow> (heap, unit) res" where
  "release_pointer it h =
     (let f = cur it
      in rbind (if htype f = PB_HTYPE_REPEATED
                   \<and> (ltype f = PB_LTYPE_STRING \<or> ltype f = PB_LTYPE_BYTES)
                then free_entries (load_size (hmem h) (pSize it)) (load_ptr (hmem h) (pData it)) h
                else Ret () h)
           (\<lambda>_ h.
              let h' = (if htype f = PB_HTYPE_REPEATED
                        then upd_mem (\<lambda>m. store_size m (pSize it) 0) h else h)
              in rbind (pb_free h' (load_ptr (hmem h') (pData it))) (\<lambda>_ h.
                   Ret () (upd_mem (\<lambda>m. store_ptr m (pData it) NULL) h))))"

primrec pb_release_single_field ::
    "pb_env \<Rightarrow> nat \<Rightarrow> pb_field_iter \<Rightarrow> heap \<Rightarrow> (heap, unit) res" where
  "pb_release_single_field env 0 it h = Undef"
| "pb_release_single_field env (Suc n) it h =
     (let f = cur it
      in if htype f = PB_HTYPE_ONEOF \<and> load_size (hmem h) (pSize it) \<noteq> tag f then Ret () h
         else rbind
           (if ltype f = PB_LTYPE_EXTENSION
            then foreach_extension n env
                   (\<lambda>ty ext h. pb_release_single_field env n
                                 (iter_from_extension (hmem h) (ext_arg ty) ext) h)
                   (load_ptr (hmem h) (pData it)) h
            else if ltype f = PB_LTYPE_SUBMESSAGE
            then (let pItem = (if atype f = PB_ATYPE_POINTER then load_ptr (hmem h) (pData it)
                               else pData it)
                  in if pItem = NULL then Ret () h
                     else (case ptr f of
                             Ptr_fields fs \<Rightarrow>
                               release_items (release_message (pb_release_single_field env n) fs)
                                 (data_size f) (release_count (hmem h) it) pItem h
                           | _ \<Rightarrow> Undef))
            else Ret () h)
           (\<lambda>_ h. if atype f = PB_ATYPE_POINTER then release_pointer it h else Ret () h))"

definition pb_release ::
    "pb_env \<Rightarrow> nat \<Rightarrow> pb_field list \<Rightarrow> addr \<Rightarrow> heap \<Rightarrow> (heap, unit) res" where
  "pb_release env n fs dest h = release_message (pb_release_single_field env n) fs dest h"

section \<open>Working on the stream and the heap\<close>

definition on_stream :: "(pb_istream \<Rightarrow> (pb_istream, 'a) res) \<Rightarrow> dstate \<Rightarrow> (dstate, 'a) res" where
  "on_stream f ds =
     (case f (fst ds) of
        Ret v st \<Rightarrow> Ret v (st, snd ds) | Fail st \<Rightarrow> Fail (st, snd ds) | Undef \<Rightarrow> Undef)"

definition on_heap :: "(heap \<Rightarrow> (heap, 'a) res) \<Rightarrow> dstate \<Rightarrow> (dstate, 'a) res" where
  "on_heap f ds =
     (case f (snd ds) of
        Ret v h \<Rightarrow> Ret v (fst ds, h) | Fail h \<Rightarrow> Fail (fst ds, h) | Undef \<Rightarrow> Undef)"

definition dmem :: "dstate \<Rightarrow> mem" where
  "dmem ds = hmem (snd ds)"

definition dstore :: "(mem \<Rightarrow> mem) \<Rightarrow> dstate \<Rightarrow> dstate" where
  "dstore f ds = (fst ds, upd_mem f (snd ds))"

text \<open>\<open>PB_RETURN_ERROR(stream, msg)\<close>\<close>

definition dfail :: "string \<Rightarrow> dstate \<Rightarrow> (dstate, 'a) res" where
  "dfail msg ds = Fail (iset_error msg (fst ds), snd ds)"

definition allocate_field :: "addr \<Rightarrow> nat \<Rightarrow> nat \<Rightarrow> dstate \<Rightarrow> (dstate, unit) res" where
  "allocate_field pd dsize asize ds =
     (let p = load_ptr (dmem ds) pd; check_limit = 2 ^ 32; size_max = SIZE_MODULUS - 1
      in if dsize = 0 \<or> asize = 0 then dfail ''invalid size'' ds
         else if (check_limit \<le> dsize \<or> check_limit \<le> asize) \<and> size_max div asize < dsize
         then dfail ''size too large'' ds
         else rbind (on_heap (\<lambda>h. pb_realloc h p ((asize * dsize) mod SIZE_MODULUS)) ds) (\<lambda>q ds.
                if q = NULL then dfail ''realloc failed'' ds
                else Ret () (dstore (\<lambda>m. store_ptr m pd q) ds)))"

definition initialize_pointer_field ::
    "pb_env \<Rightarrow> nat \<Rightarrow> addr \<Rightarrow> pb_field \<Rightarrow> dstate \<Rightarrow> (dstate, unit) res" where
  "initialize_pointer_field env n pItem f ds =
     (if ltype f = PB_LTYPE_STRING \<or> ltype f = PB_LTYPE_BYTES
      then Ret () (dstore (\<lambda>m. store_ptr m pItem NULL) ds)
      else if ltype f = PB_LTYPE_SUBMESSAGE
      then (case ptr f of
              Ptr_fields fs \<Rightarrow>
                on_heap (pb_message_set_to_defaults env n fs pItem)
                  (dstore (\<lambda>m. memset0 m pItem (data_size f)) ds)
            | _ \<Rightarrow> Undef)
      else Ret () ds)"

end
