(* ===== verification/Nanopb_Decode.thy ===== *)
theory Nanopb_Decode
  imports Nanopb_Heap_Ops
begin

text \<open>
  The message decoder of \<open>pb_decode.c\<close>: decoders for the field types, static, pointer and
  callback fields, oneofs, extensions, and the loop over the fields of a message. The state is
  the input stream together with the heap. Each function takes \<open>pb_decode_noinit\<close> for
  submessages as the argument \<open>sub\<close>; the knot is tied at the end by recursion on a bound for the
  nesting of messages.
\<close>

type_synonym sub_decoder = "pb_field list \<Rightarrow> addr \<Rightarrow> dstate \<Rightarrow> (dstate, unit) res"
type_synonym field_decoder = "pb_field \<Rightarrow> addr \<Rightarrow> dstate \<Rightarrow> (dstate, unit) res"

section \<open>Messages, with the decoder of the body given\<close>

text \<open>\<open>pb_decode\<close>: defaults, then the fields; on failure everything allocated is released.\<close>

definition decode_message :: "pb_env \<Rightarrow> nat \<Rightarrow> sub_decoder \<Rightarrow> sub_decoder" where
  "decode_message env n sub fs dest ds =
     rbind (on_heap (pb_message_set_to_defaults env n fs dest) ds) (\<lambda>_ ds.
       case sub fs dest ds of
         Fail ds' \<Rightarrow>
           (case on_heap (pb_release env n fs dest) ds' of Ret _ ds'' \<Rightarrow> Fail ds'' | _ \<Rightarrow> Undef)
       | r \<Rightarrow> r)"

text \<open>\<open>make substream; status = f(substream); if (!close) return false; return status\<close>\<close>

definition decode_substream :: "(dstate \<Rightarrow> (dstate, unit) res) \<Rightarrow> dstate \<Rightarrow> (dstate, unit) res" where
  "decode_substream f ds =
     rbind (on_stream pb_make_string_substream ds) (\<lambda>substream ds.
       case f (substream, snd ds) of
         Undef \<Rightarrow> Undef
       | Ret _ (sub', h) \<Rightarrow>
           on_stream (\<lambda>st. pb_close_string_substream st sub') (fst ds, h)
       | Fail (sub', h) \<Rightarrow>
           rbind (on_stream (\<lambda>st. pb_close_string_substream st sub') (fst ds, h)) (\<lambda>_ ds. Fail ds))"

section \<open>Decoders of the field types\<close>

text \<open>\<open>clamped = *(intN_t * )dest = (intN_t)svalue\<close>: the new memory and the clamped value.\<close>

definition store_signed :: "mem \<Rightarrow> nat \<Rightarrow> addr \<Rightarrow> uint64 \<Rightarrow> (mem \<times> uint64) option" where
  "store_signed m n dest v =
     (if n = 8 then Some (store64 m dest v, v)
      else if n = 4 then Some (store32 m dest (ucast v), scast (ucast v :: 32 word))
      else if n = 2 then Some (store16 m dest (ucast v), scast (ucast v :: 16 word))
      else if n = 1 then Some (store8 m dest (ucast v), scast (ucast v :: 8 word))
      else None)"

definition store_unsigned :: "mem \<Rightarrow> nat \<Rightarrow> addr \<Rightarrow> uint64 \<Rightarrow> (mem \<times> uint64) option" where
  "store_unsigned m n dest v =
     (if n = 8 then Some (store64 m dest v, v)
      else if n = 4 then Some (store32 m dest (ucast v), ucast (ucast v :: 32 word))
      else if n = 2 then Some (store16 m dest (ucast v), ucast (ucast v :: 16 word))
      else if n = 1 then Some (store8 m dest (ucast v), ucast (ucast v :: 8 word))
      else None)"

text \<open>The destination is written before the check for the range.\<close>

definition store_checked :: "(mem \<times> uint64) option \<Rightarrow> uint64 \<Rightarrow> dstate \<Rightarrow> (dstate, unit) res" where
  "store_checked r v ds =
     (case r of
        None \<Rightarrow> dfail ''invalid data_size'' ds
      | Some (m, clamped) \<Rightarrow>
          (let ds' = dstore (\<lambda>_. m) ds
           in if clamped \<noteq> v then dfail ''integer too large'' ds' else Ret () ds'))"

definition pb_dec_varint :: field_decoder where
  "pb_dec_varint field dest ds =
     rbind (on_stream pb_decode_varint ds) (\<lambda>value ds.
       let svalue = (if data_size field = 8 then value else scast (ucast value :: 32 word))
       in store_checked (store_signed (dmem ds) (data_size field) dest svalue) svalue ds)"

definition pb_dec_uvarint :: field_decoder where
  "pb_dec_uvarint field dest ds =
     rbind (on_stream pb_decode_varint ds) (\<lambda>value ds.
       store_checked (store_unsigned (dmem ds) (data_size field) dest value) value ds)"

definition pb_dec_svarint :: field_decoder where
  "pb_dec_svarint field dest ds =
     rbind (on_stream pb_decode_svarint ds) (\<lambda>value ds.
       store_checked (store_signed (dmem ds) (data_size field) dest value) value ds)"

definition pb_dec_fixed32 :: field_decoder where
  "pb_dec_fixed32 field dest ds =
     rbind (on_stream pb_decode_fixed32 ds) (\<lambda>v ds. Ret () (dstore (\<lambda>m. store32 m dest v) ds))"

definition pb_dec_fixed64 :: field_decoder where
  "pb_dec_fixed64 field dest ds =
     rbind (on_stream pb_decode_fixed64 ds) (\<lambda>v ds. Ret () (dstore (\<lambda>m. store64 m dest v) ds))"

text \<open>\<open>pb_read(stream, dest, count)\<close>\<close>

definition read_into :: "addr \<Rightarrow> nat \<Rightarrow> dstate \<Rightarrow> (dstate, unit) res" where
  "read_into dest count ds =
     rbind (on_stream (\<lambda>st. pb_read_buf st count) ds) (\<lambda>bs ds.
       Ret () (dstore (\<lambda>m. store_bytes m dest bs) ds))"

definition pb_dec_bytes :: field_decoder where
  "pb_dec_bytes field dest ds =
     rbind (on_stream pb_decode_varint32 ds) (\<lambda>sz ds.
       let n = unat sz; alloc_size = PB_BYTES_ARRAY_T_ALLOCSIZE n
       in if PB_SIZE_MAX < n then dfail ''bytes overflow'' ds
          else if alloc_size < n then dfail ''size too large'' ds
          else rbind (if atype field = PB_ATYPE_POINTER
                      then rbind (allocate_field dest alloc_size 1 ds) (\<lambda>_ ds.
                             Ret (load_ptr (dmem ds) dest) ds)
                      else if data_size field < alloc_size then dfail ''bytes overflow'' ds
                      else Ret dest ds)
                 (\<lambda>bdest ds.
                    read_into (bdest + int PB_BYTES_OFFSET) n
                      (dstore (\<lambda>m. store_size m bdest n) ds)))"

text \<open>\<open>size + 1\<close> is computed in \<open>uint32_t\<close>; the terminator is written also when the read
  fails.\<close>

definition pb_dec_string :: field_decoder where
  "pb_dec_string field dest ds =
     rbind (on_stream pb_decode_varint32 ds) (\<lambda>sz ds.
       let n = unat sz; alloc_size = unat (sz + 1)
       in if alloc_size < n then dfail ''size too large'' ds
          else rbind (if atype field = PB_ATYPE_POINTER
                      then rbind (allocate_field dest alloc_size 1 ds) (\<lambda>_ ds.
                             Ret (load_ptr (dmem ds) dest) ds)
                      else if data_size field < alloc_size then dfail ''string overflow'' ds
                      else Ret dest ds)
                 (\<lambda>sdest ds.
                    let terminate = dstore (\<lambda>m. m(sdest + int n := 0))
                    in case read_into sdest n ds of
                         Undef \<Rightarrow> Undef
                       | Fail ds' \<Rightarrow> Fail (terminate ds')
                       | Ret _ ds' \<Rightarrow> Ret () (terminate ds')))"

text \<open>The descriptor is checked after the substream is made.\<close>

definition pb_dec_submessage :: "pb_env \<Rightarrow> nat \<Rightarrow> sub_decoder \<Rightarrow> field_decoder" where
  "pb_dec_submessage env n sub field dest ds =
     (case ptr field of
        Ptr_null \<Rightarrow>
          rbind (on_stream pb_make_string_substream ds) (\<lambda>_ ds.
            dfail ''invalid field descriptor'' ds)
      | Ptr_default _ \<Rightarrow> Undef
      | Ptr_fields fs \<Rightarrow>
          decode_substream
            (if htype field = PB_HTYPE_REPEATED then decode_message env n sub fs dest
             else sub fs dest) ds)"

definition pb_dec_fixed_length_bytes :: field_decoder where
  "pb_dec_fixed_length_bytes field dest ds =
     rbind (on_stream pb_decode_varint32 ds) (\<lambda>sz ds.
       let n = unat sz
       in if PB_SIZE_MAX < n then dfail ''bytes overflow'' ds
          else if n = 0 then Ret () (dstore (\<lambda>m. memset0 m dest (data_size field)) ds)
          else if n \<noteq> data_size field then dfail ''incorrect fixed length bytes size'' ds
          else read_into dest (data_size field) ds)"

text \<open>Calling \<open>PB_DECODERS[ltype]\<close>: entry 8 is \<open>NULL\<close>, there is none from 10 on, and every
  decoder dereferences \<open>dest\<close>.\<close>

definition PB_DECODERS :: "pb_env \<Rightarrow> nat \<Rightarrow> sub_decoder \<Rightarrow> pb_type \<Rightarrow> field_decoder" where
  "PB_DECODERS env n sub lt field dest ds =
     (if dest = NULL then Undef
      else if lt = PB_LTYPE_VARINT then pb_dec_varint field dest ds
      else if lt = PB_LTYPE_UVARINT then pb_dec_uvarint field dest ds
      else if lt = PB_LTYPE_SVARINT then pb_dec_svarint field dest ds
      else if lt = PB_LTYPE_FIXED32 then pb_dec_fixed32 field dest ds
      else if lt = PB_LTYPE_FIXED64 then pb_dec_fixed64 field dest ds
      else if lt = PB_LTYPE_BYTES then pb_dec_bytes field dest ds
      else if lt = PB_LTYPE_STRING then pb_dec_string field dest ds
      else if lt = PB_LTYPE_SUBMESSAGE then pb_dec_submessage env n sub field dest ds
      else if lt = PB_LTYPE_FIXED_LENGTH_BYTES then pb_dec_fixed_length_bytes field dest ds
      else Undef)"

section \<open>Static fields\<close>

text \<open>\<open>pData + data_size * i\<close>; the product of two \<open>pb_size_t\<close> is a \<open>uint32_t\<close>.\<close>

definition item_addr :: "addr \<Rightarrow> pb_field \<Rightarrow> nat \<Rightarrow> addr" where
  "item_addr p field i = p + int ((data_size field * i) mod 2 ^ 32)"

text \<open>\<open>(*size)++\<close> on a \<open>pb_size_t\<close>\<close>

definition incr_size :: "addr \<Rightarrow> dstate \<Rightarrow> dstate" where
  "incr_size a ds = dstore (\<lambda>m. store32 m a (load32 m a + 1)) ds"

text \<open>The loop over a packed array, on the substream. The result is \<open>status\<close>. Each item takes
  at least one byte, so the number of bytes bounds the rounds.\<close>

primrec packed_static_loop ::
    "nat \<Rightarrow> (addr \<Rightarrow> dstate \<Rightarrow> (dstate, unit) res) \<Rightarrow> pb_field_iter \<Rightarrow> dstate
     \<Rightarrow> (dstate, bool) res" where
  "packed_static_loop 0 func it ds = Undef"
| "packed_static_loop (Suc k) func it ds =
     (let count = load_size (dmem ds) (pSize it)
      in if 0 < bytes_left (fst ds) \<and> count < array_size (cur it)
         then (case func (item_addr (pData it) (cur it) count) ds of
                 Undef \<Rightarrow> Undef
               | Fail ds' \<Rightarrow> Ret False ds'
               | Ret _ ds' \<Rightarrow> packed_static_loop k func it (incr_size (pSize it) ds'))
         else Ret True ds)"

definition decode_packed_static ::
    "(addr \<Rightarrow> dstate \<Rightarrow> (dstate, unit) res) \<Rightarrow> pb_field_iter \<Rightarrow> dstate \<Rightarrow> (dstate, unit) res" where
  "decode_packed_static func it ds =
     rbind (on_stream pb_make_string_substream ds) (\<lambda>substream ds.
       case packed_static_loop (Suc (bytes_left substream)) func it (substream, snd ds) of
         Ret status (sub', h) \<Rightarrow>
           if bytes_left sub' \<noteq> 0 then dfail ''array overflow'' (fst ds, h)
           else rbind (on_stream (\<lambda>st. pb_close_string_substream st sub') (fst ds, h)) (\<lambda>_ ds.
                  if status then Ret () ds else Fail ds)
       | _ \<Rightarrow> Undef)"

definition decode_static_field ::
    "pb_env \<Rightarrow> nat \<Rightarrow> sub_decoder \<Rightarrow> uint32 \<Rightarrow> pb_field_iter \<Rightarrow> dstate \<Rightarrow> (dstate, unit) res" where
  "decode_static_field env n sub wire_type it ds =
     (let f = cur it; func = PB_DECODERS env n sub (ltype f) f
      in if 9 < ltype f then Undef
         else if htype f = PB_HTYPE_REQUIRED then func (pData it) ds
         else if htype f = PB_HTYPE_OPTIONAL
         then func (pData it)
                (if pSize it \<noteq> pData it then dstore (\<lambda>m. store_bool m (pSize it) True) ds else ds)
         else if htype f = PB_HTYPE_REPEATED
         then (if wire_type = PB_WT_STRING \<and> ltype f \<le> PB_LTYPE_LAST_PACKABLE
               then decode_packed_static func it ds
               else (let count = load_size (dmem ds) (pSize it); ds' = incr_size (pSize it) ds
                     in if array_size f \<le> count then dfail ''array overflow'' ds'
                        else func (item_addr (pData it) f count) ds'))
         else (let ds' = dstore (\<lambda>m. store_size m (pSize it) (tag f)) ds
               in if ltype f = PB_LTYPE_SUBMESSAGE
                  then (case ptr f of
                          Ptr_fields fs \<Rightarrow>
                            rbind (on_heap (pb_message_set_to_defaults env n fs (pData it))
                                    (dstore (\<lambda>m. memset0 m (pData it) (data_size f)) ds'))
                              (\<lambda>_ ds. func (pData it) ds)
                        | _ \<Rightarrow> Undef)
                  else func (pData it) ds'))"

section \<open>Pointer fields\<close>

text \<open>The loop over a packed array of a pointer field. The results are \<open>status\<close> and whether the
  error \<open>too many array entries\<close> was set on the outer stream. Dividing by a \<open>data_size\<close> of zero
  is undefined.\<close>

primrec packed_pointer_loop ::
    "pb_env \<Rightarrow> nat \<Rightarrow> nat \<Rightarrow> (addr \<Rightarrow> dstate \<Rightarrow> (dstate, unit) res) \<Rightarrow> pb_field_iter \<Rightarrow> nat \<Rightarrow> dstate
     \<Rightarrow> (dstate, bool \<times> bool) res" where
  "packed_pointer_loop env n 0 func it allocated_size ds = Undef"
| "packed_pointer_loop env n (Suc k) func it allocated_size ds =
     (let f = cur it; count = load_size (dmem ds) (pSize it); grow = allocated_size < count + 1;
          allocated_size' =
            (if grow
             then size_add allocated_size ((bytes_left (fst ds) - 1) div data_size f + 1)
             else allocated_size)
      in if bytes_left (fst ds) = 0 then Ret (True, False) ds
         else if grow \<and> data_size f = 0 then Undef
         else (case (if grow then allocate_field (pData it) (data_size f) allocated_size' ds
                     else Ret () ds) of
                 Undef \<Rightarrow> Undef
               | Fail ds' \<Rightarrow> Ret (False, False) ds'
               | Ret _ ds1 \<Rightarrow>
                   (let pItem = item_addr (load_ptr (dmem ds1) (pData it)) f count
                    in case rbind (initialize_pointer_field env n pItem f ds1)
                              (\<lambda>_ ds. func pItem ds) of
                         Undef \<Rightarrow> Undef
                       | Fail ds' \<Rightarrow> Ret (False, False) ds'
                       | Ret _ ds2 \<Rightarrow>
                           if load_size (dmem ds2) (pSize it) = PB_SIZE_MAX
                           then Ret (False, True) ds2
                           else packed_pointer_loop env n k func it allocated_size'
                                  (incr_size (pSize it) ds2))))"

definition decode_packed_pointer ::
    "pb_env \<Rightarrow> nat \<Rightarrow> (addr \<Rightarrow> dstate \<Rightarrow> (dstate, unit) res) \<Rightarrow> pb_field_iter \<Rightarrow> dstate
     \<Rightarrow> (dstate, unit) res" where
  "decode_packed_pointer env n func it ds =
     (let allocated_size = load_size (dmem ds) (pSize it)
      in rbind (on_stream pb_make_string_substream ds) (\<lambda>substream ds.
           case packed_pointer_loop env n (Suc (bytes_left substream)) func it allocated_size
                  (substream, snd ds) of
             Ret (status, too_many) (sub', h) \<Rightarrow>
               (let st = (if too_many then (fst ds)\<lparr>ierrmsg := Some ''too many array entries''\<rparr>
                          else fst ds)
                in rbind (on_stream (\<lambda>st. pb_close_string_substream st sub') (st, h)) (\<lambda>_ ds.
                     if status then Ret () ds else Fail ds))
           | _ \<Rightarrow> Undef))"

definition decode_pointer_field ::
    "pb_env \<Rightarrow> nat \<Rightarrow> sub_decoder \<Rightarrow> uint32 \<Rightarrow> pb_field_iter \<Rightarrow> dstate \<Rightarrow> (dstate, unit) res" where
  "decode_pointer_field env n sub wire_type it ds =
     (let f = cur it; func = PB_DECODERS env n sub (ltype f) f
      in if 9 < ltype f then Undef
         else if htype f = PB_HTYPE_REPEATED
         then (if wire_type = PB_WT_STRING \<and> ltype f \<le> PB_LTYPE_LAST_PACKABLE
               then decode_packed_pointer env n func it ds
               else if load_size (dmem ds) (pSize it) = PB_SIZE_MAX
               then dfail ''too many array entries'' ds
               else (let ds' = incr_size (pSize it) ds; count = load_size (dmem ds') (pSize it)
                     in rbind (allocate_field (pData it) (data_size f) count ds') (\<lambda>_ ds.
                          let count = load_size (dmem ds) (pSize it);
                              pItem = item_addr (load_ptr (dmem ds) (pData it)) f (count - 1)
                          in rbind (initialize_pointer_field env n pItem f ds) (\<lambda>_ ds.
                               func pItem ds))))
         else rbind (if ltype f = PB_LTYPE_SUBMESSAGE \<and> load_ptr (dmem ds) (pData it) \<noteq> NULL
                     then on_heap (pb_release_single_field env n it) ds
                     else Ret () ds)
                (\<lambda>_ ds.
                   let ds' = (if htype f = PB_HTYPE_ONEOF
                              then dstore (\<lambda>m. store_size m (pSize it) (tag f)) ds else ds)
                   in if ltype f = PB_LTYPE_STRING \<or> ltype f = PB_LTYPE_BYTES
                      then func (pData it) ds'
                      else rbind (allocate_field (pData it) (data_size f) 1 ds') (\<lambda>_ ds.
                             rbind (initialize_pointer_field env n
                                      (load_ptr (dmem ds) (pData it)) f ds) (\<lambda>_ ds.
                               func (load_ptr (dmem ds) (pData it)) ds))))"

section \<open>Callback fields\<close>

text \<open>\<open>do { if (!decode(...)) return false; } while (substream.bytes_left)\<close>. A callback need not
  consume anything, so the loop may run forever: the first argument bounds its rounds. The
  function pointer is read again in every round.\<close>

primrec callback_loop ::
    "nat \<Rightarrow> pb_env \<Rightarrow> pb_field \<Rightarrow> addr \<Rightarrow> dstate \<Rightarrow> (dstate, unit) res" where
  "callback_loop 0 env f pd ds = Undef"
| "callback_loop (Suc k) env f pd ds =
     (let decode = load_ptr (dmem ds) pd
      in if decode = NULL then Undef
         else rbind (dec_callback env decode f (pd + CALLBACK_ARG) ds) (\<lambda>_ ds.
                if bytes_left (fst ds) \<noteq> 0 then callback_loop k env f pd ds else Ret () ds))"

definition decode_callback_field ::
    "pb_env \<Rightarrow> nat \<Rightarrow> uint32 \<Rightarrow> pb_field_iter \<Rightarrow> dstate \<Rightarrow> (dstate, unit) res" where
  "decode_callback_field env n wire_type it ds =
     (if pData it = NULL \<or> load_ptr (dmem ds) (pData it) = NULL
      then on_stream (\<lambda>st. pb_skip_field st wire_type) ds
      else if wire_type = PB_WT_STRING
      then rbind (on_stream pb_make_string_substream ds) (\<lambda>substream ds.
             case callback_loop (n + Suc (bytes_left substream)) env (cur it) (pData it)
                    (substream, snd ds) of
               Undef \<Rightarrow> Undef
             | Fail (sub', h) \<Rightarrow> dfail ''callback failed'' (fst ds, h)
             | Ret _ (sub', h) \<Rightarrow>
                 on_stream (\<lambda>st. pb_close_string_substream st sub') (fst ds, h))
      else rbind (on_stream (\<lambda>st. read_raw_value st wire_type 10) ds) (\<lambda>buffer ds.
             case dec_callback env (load_ptr (dmem ds) (pData it)) (cur it)
                    (pData it + CALLBACK_ARG)
                    (pb_istream_from_buffer buffer (length buffer), snd ds) of
               Undef \<Rightarrow> Undef
             | Fail (sub', h) \<Rightarrow> Fail (fst ds, h)
             | Ret _ (sub', h) \<Rightarrow> Ret () (fst ds, h)))"

section \<open>Any field\<close>

text \<open>The result is the iterator, which the search for the old member moves.\<close>

definition pb_release_union_field ::
    "pb_env \<Rightarrow> nat \<Rightarrow> pb_field_iter \<Rightarrow> dstate \<Rightarrow> (dstate, pb_field_iter) res" where
  "pb_release_union_field env n it ds =
     (let old_tag = load_size (dmem ds) (pSize it); new_tag = tag (cur it)
      in if old_tag = 0 then Ret it ds
         else if old_tag = new_tag then Ret it ds
         else (case pb_field_iter_find it old_tag of
                 (False, _) \<Rightarrow> dfail ''invalid union tag'' ds
               | (True, it') \<Rightarrow>
                   rbind (on_heap (pb_release_single_field env n it') ds) (\<lambda>_ ds.
                     case pb_field_iter_find it' new_tag of
                       (False, _) \<Rightarrow> dfail ''iterator error'' ds
                     | (True, it'') \<Rightarrow> Ret it'' ds)))"

definition decode_field ::
    "pb_env \<Rightarrow> nat \<Rightarrow> sub_decoder \<Rightarrow> uint32 \<Rightarrow> pb_field_iter \<Rightarrow> dstate
     \<Rightarrow> (dstate, pb_field_iter) res" where
  "decode_field env n sub wire_type it ds =
     rbind (if htype (cur it) = PB_HTYPE_ONEOF then pb_release_union_field env n it ds
            else Ret it ds)
       (\<lambda>it ds.
          rbind (if atype (cur it) = PB_ATYPE_STATIC
                 then decode_static_field env n sub wire_type it ds
                 else if atype (cur it) = PB_ATYPE_POINTER
                 then decode_pointer_field env n sub wire_type it ds
                 else if atype (cur it) = PB_ATYPE_CALLBACK
                 then decode_callback_field env n wire_type it ds
                 else dfail ''invalid field type'' ds)
            (\<lambda>_ ds. Ret it ds))"

section \<open>Extensions\<close>

definition default_extension_decoder ::
    "pb_env \<Rightarrow> nat \<Rightarrow> sub_decoder \<Rightarrow> pb_field \<Rightarrow> addr \<Rightarrow> nat \<Rightarrow> uint32 \<Rightarrow> dstate
     \<Rightarrow> (dstate, unit) res" where
  "default_extension_decoder env n sub field extension tg wire_type ds =
     (if tag field \<noteq> tg then Ret () ds
      else rbind (decode_field env n sub wire_type
                    (iter_from_extension (dmem ds) field extension)
                    (dstore (\<lambda>m. store_bool m (extension + EXT_FOUND) True) ds))
             (\<lambda>_ ds. Ret () ds))"

text \<open>The loop of \<open>decode_extension\<close>; \<open>p\<close> is the \<open>bytes_left\<close> it started with and the first
  argument bounds the length of the chain.\<close>

primrec extension_loop ::
    "nat \<Rightarrow> pb_env \<Rightarrow> nat \<Rightarrow> sub_decoder \<Rightarrow> nat \<Rightarrow> nat \<Rightarrow> uint32 \<Rightarrow> addr \<Rightarrow> dstate \<Rightarrow> (dstate, unit) res"
    where
  "extension_loop 0 env n sub p tg wire_type extension ds = Undef"
| "extension_loop (Suc k) env n sub p tg wire_type extension ds =
     (if extension = NULL \<or> p \<noteq> bytes_left (fst ds) then Ret () ds
      else (case ext_type env (load_ptr (dmem ds) (extension + EXT_TYPE)) of
              None \<Rightarrow> Undef
            | Some ty \<Rightarrow>
                rbind (case ext_decode ty of
                         Some decode \<Rightarrow> decode extension tg wire_type ds
                       | None \<Rightarrow> default_extension_decoder env n sub (ext_arg ty) extension tg
                                   wire_type ds)
                  (\<lambda>_ ds. extension_loop k env n sub p tg wire_type
                            (load_ptr (dmem ds) (extension + EXT_NEXT)) ds)))"

definition decode_extension ::
    "pb_env \<Rightarrow> nat \<Rightarrow> sub_decoder \<Rightarrow> nat \<Rightarrow> uint32 \<Rightarrow> pb_field_iter \<Rightarrow> dstate \<Rightarrow> (dstate, unit) res" where
  "decode_extension env n sub tg wire_type it ds =
     extension_loop n env n sub (bytes_left (fst ds)) tg wire_type
       (load_ptr (dmem ds) (pData it)) ds"

section \<open>All fields\<close>

text \<open>The local variables of \<open>pb_decode_noinit\<close>. \<open>fixed_count_field\<close> is \<open>NULL\<close> or points into
  the descriptor array; \<open>fixed_count_size\<close> is a variable whose address is taken: the record
  holds the address.\<close>

record decode_locals =
  fields_seen :: "uint32 list"
  extension_range_start :: nat
  iter :: pb_field_iter
  fixed_count_field :: "nat option"
  fixed_count_size :: addr

text \<open>\<open>fields_seen[i >> 5] |= 1 << (i & 31)\<close>\<close>

definition mark_seen :: "nat \<Rightarrow> uint32 list \<Rightarrow> uint32 list" where
  "mark_seen i seen = seen[i div 32 := seen ! (i div 32) OR push_bit (i mod 32) 1]"

text \<open>\<open>fixed_count_field != NULL && fixed_count_size != fixed_count_field->array_size\<close>\<close>

definition fixed_count_wrong :: "decode_locals \<Rightarrow> dstate \<Rightarrow> bool" where
  "fixed_count_wrong L ds =
     (case fixed_count_field L of
        None \<Rightarrow> False
      | Some i \<Rightarrow> load_size (dmem ds) (fixed_count_size L)
                  \<noteq> array_size (field_at (start (iter L)) i))"

text \<open>The body of the loop for a tag no field has.\<close>

definition decode_unknown ::
    "pb_env \<Rightarrow> nat \<Rightarrow> sub_decoder \<Rightarrow> uint32 \<Rightarrow> nat \<Rightarrow> decode_locals \<Rightarrow> dstate
     \<Rightarrow> (dstate, decode_locals) res" where
  "decode_unknown env n sub wire_type tg L ds =
     (let skip = (\<lambda>L ds. rbind (on_stream (\<lambda>st. pb_skip_field st wire_type) ds) (\<lambda>_ ds. Ret L ds))
      in if extension_range_start L \<le> tg
         then (let (found, it) = find_extension_field (iter L);
                   L' = L\<lparr>iter := it,
                          extension_range_start := (if found then tag (cur it) else 2 ^ 32 - 1)\<rparr>
               in if extension_range_start L' \<le> tg
                  then rbind (decode_extension env n sub tg wire_type it ds) (\<lambda>_ ds'.
                         if bytes_left (fst ds) \<noteq> bytes_left (fst ds') then Ret L' ds'
                         else skip L' ds')
                  else skip L' ds)
         else skip L ds)"

text \<open>Tracking a repeated field without a counter in the structure.\<close>

definition track_fixed_count :: "decode_locals \<Rightarrow> dstate \<Rightarrow> (dstate, decode_locals) res" where
  "track_fixed_count L ds =
     (let it = iter L
      in if htype (cur it) = PB_HTYPE_REPEATED \<and> pSize it = pData it
         then rbind (if fixed_count_field L \<noteq> Some (pos it)
                     then (if fixed_count_wrong L ds
                           then dfail ''wrong size for fixed count field'' ds
                           else Ret (L\<lparr>fixed_count_field := Some (pos it)\<rparr>)
                                  (dstore (\<lambda>m. store_size m (fixed_count_size L) 0) ds))
                     else Ret L ds)
                (\<lambda>L ds. Ret (L\<lparr>iter := it\<lparr>pSize := fixed_count_size L\<rparr>\<rparr>) ds)
         else Ret L ds)"

text \<open>The body of the loop for a tag that was read.\<close>

definition decode_tagged ::
    "pb_env \<Rightarrow> nat \<Rightarrow> sub_decoder \<Rightarrow> uint32 \<Rightarrow> nat \<Rightarrow> decode_locals \<Rightarrow> dstate
     \<Rightarrow> (dstate, decode_locals) res" where
  "decode_tagged env n sub wire_type tg L ds =
     (let (found, it) = pb_field_iter_find (iter L) tg; L1 = L\<lparr>iter := it\<rparr>
      in if \<not> found then decode_unknown env n sub wire_type tg L1 ds
         else rbind (track_fixed_count L1 ds) (\<lambda>L ds.
                let it = iter L;
                    L2 = (if htype (cur it) = PB_HTYPE_REQUIRED
                             \<and> required_field_index it < PB_MAX_REQUIRED_FIELDS
                          then L\<lparr>fields_seen := mark_seen (required_field_index it) (fields_seen L)\<rparr>
                          else L)
                in rbind (decode_field env n sub wire_type it ds) (\<lambda>it ds.
                     Ret (L2\<lparr>iter := it\<rparr>) ds)))"

text \<open>\<open>while (stream->bytes_left)\<close>. Every round reads a tag, so \<open>bytes_left\<close> decreases unless a
  user function raises it; the first argument bounds the rounds.\<close>

primrec decode_loop ::
    "nat \<Rightarrow> pb_env \<Rightarrow> nat \<Rightarrow> sub_decoder \<Rightarrow> decode_locals \<Rightarrow> dstate \<Rightarrow> (dstate, decode_locals) res"
    where
  "decode_loop 0 env n sub L ds = Undef"
| "decode_loop (Suc k) env n sub L ds =
     (if bytes_left (fst ds) = 0 then Ret L ds
      else (case pb_decode_tag (fst ds) of
              (Undef, _) \<Rightarrow> Undef
            | (Fail st, eof) \<Rightarrow> if eof then Ret L (st, snd ds) else Fail (st, snd ds)
            | (Ret (wire_type, tg) st, _) \<Rightarrow>
                rbind (decode_tagged env n sub wire_type (unat tg) L (st, snd ds)) (\<lambda>L ds.
                  decode_loop k env n sub L ds)))"

text \<open>\<open>do { req_field_count = ...; last_type = ...; } while (pb_field_iter_next(&iter))\<close>; the
  results are both variables and the iterator.\<close>

function seek_end :: "pb_field_iter \<Rightarrow> nat \<times> pb_type \<times> pb_field_iter" where
  "seek_end it =
     (if fst (pb_field_iter_next it) then seek_end (snd (pb_field_iter_next it))
      else (required_field_index it, type_of (cur it), snd (pb_field_iter_next it)))"
  by pat_completeness auto
termination
  by (relation "measure (\<lambda>it. length (start it) - pos it)") (auto dest!: pb_field_iter_next_pos)

declare seek_end.simps [simp del]

definition required_count :: "pb_field_iter \<Rightarrow> nat" where
  "required_count it =
     (let (req_field_count, last_type, it') = seek_end it;
          fixup = (if PB_HTYPE last_type = PB_HTYPE_REQUIRED \<and> tag (cur it') \<noteq> 0
                   then req_field_count + 1 else req_field_count)
      in min fixup PB_MAX_REQUIRED_FIELDS)"

definition all_seen :: "nat \<Rightarrow> uint32 list \<Rightarrow> bool" where
  "all_seen req seen \<longleftrightarrow>
     (\<forall>i \<in> set [0..<req div 32]. seen ! i = NOT 0)
     \<and> (req mod 32 \<noteq> 0 \<longrightarrow> seen ! (req div 32) = drop_bit (32 - req mod 32) (NOT 0))"

text \<open>The checks after the loop.\<close>

definition decode_finish :: "decode_locals \<Rightarrow> dstate \<Rightarrow> (dstate, unit) res" where
  "decode_finish L ds =
     (if fixed_count_wrong L ds then dfail ''wrong size for fixed count field'' ds
      else if all_seen (required_count (iter L)) (fields_seen L) then Ret () ds
      else dfail ''missing required field'' ds)"

text \<open>The cell of \<open>fixed_count_size\<close> is taken from the stack and given back on return.\<close>

definition enter_frame :: "dstate \<Rightarrow> dstate" where
  "enter_frame ds =
     (let h = snd ds; cell = sp h - 16
      in (fst ds, h\<lparr>sp := cell, hmem := store_size (hmem h) cell 0\<rparr>))"

definition leave_frame :: "addr \<Rightarrow> (dstate, unit) res \<Rightarrow> (dstate, unit) res" where
  "leave_frame old r =
     (case r of
        Ret _ (st, h) \<Rightarrow> Ret () (st, h\<lparr>sp := old\<rparr>)
      | Fail (st, h) \<Rightarrow> Fail (st, h\<lparr>sp := old\<rparr>)
      | Undef \<Rightarrow> Undef)"

definition initial_locals :: "pb_field list \<Rightarrow> addr \<Rightarrow> addr \<Rightarrow> decode_locals" where
  "initial_locals fs dest cell =
     \<lparr>fields_seen = [0, 0], extension_range_start = 0, iter = snd (pb_field_iter_begin fs dest),
      fixed_count_field = None, fixed_count_size = cell\<rparr>"

primrec pb_decode_noinit :: "pb_env \<Rightarrow> nat \<Rightarrow> sub_decoder" where
  "pb_decode_noinit env 0 fs dest ds = Undef"
| "pb_decode_noinit env (Suc n) fs dest ds =
     (let ds1 = enter_frame ds; L = initial_locals fs dest (sp (snd ds1))
      in leave_frame (sp (snd ds))
           (rbind (decode_loop (n + Suc (bytes_left (fst ds1))) env n (pb_decode_noinit env n) L ds1)
              decode_finish))"

definition pb_decode :: "pb_env \<Rightarrow> nat \<Rightarrow> sub_decoder" where
  "pb_decode env n fs dest ds = decode_message env n (pb_decode_noinit env n) fs dest ds"

definition pb_decode_delimited_noinit :: "pb_env \<Rightarrow> nat \<Rightarrow> sub_decoder" where
  "pb_decode_delimited_noinit env n fs dest ds =
     decode_substream (pb_decode_noinit env n fs dest) ds"

definition pb_decode_delimited :: "pb_env \<Rightarrow> nat \<Rightarrow> sub_decoder" where
  "pb_decode_delimited env n fs dest ds = decode_substream (pb_decode env n fs dest) ds"

definition pb_decode_nullterminated :: "pb_env \<Rightarrow> nat \<Rightarrow> sub_decoder" where
  "pb_decode_nullterminated env n fs dest ds = pb_decode env n fs dest ds"

end
