(* ===== verification/Nanopb_Decode_Safe.thy ===== *)
theory Nanopb_Decode_Safe
  imports Nanopb_Decode Nanopb_Safety
begin

text \<open>
  The decoders of static fields have a defined result on every input: reading stays inside the stream,
  and the loop over a packed array ends before its bound, since each item takes at least a byte.
\<close>

section \<open>Decoders on stream and heap\<close>

definition dsafe :: "(dstate \<Rightarrow> (dstate, 'a) res) \<Rightarrow> bool" where
  "dsafe f \<longleftrightarrow> (\<forall>ds. sound (fst ds) \<longrightarrow> f ds \<noteq> Undef \<and> res_keeps (\<lambda>ds'. further (fst ds) (fst ds')) (f ds))"

named_theorems dsafe_intros \<open>decoders with a defined result\<close>

lemma dsafeD: "dsafe f \<Longrightarrow> sound (fst ds) \<Longrightarrow> f ds \<noteq> Undef \<and> res_keeps (\<lambda>ds'. further (fst ds) (fst ds')) (f ds)"
  unfolding dsafe_def by blast

lemma dsafe_Ret [dsafe_intros]: "dsafe (\<lambda>ds. Ret v ds)"
  by (simp add: dsafe_def)

lemma dsafe_dfail [dsafe_intros]: "dsafe (dfail msg)"
  by (simp add: dsafe_def dfail_def)

lemma dsafe_on_stream [dsafe_intros]: "safe f \<Longrightarrow> dsafe (on_stream f)"
  by (force simp: dsafe_def safe_def on_stream_def split: res.splits)

lemma dsafe_if [dsafe_intros]: "(c \<Longrightarrow> dsafe f) \<Longrightarrow> (\<not> c \<Longrightarrow> dsafe g) \<Longrightarrow> dsafe (\<lambda>ds. if c then f ds else g ds)"
  by (cases c) simp_all

lemma dsafe_bind [dsafe_intros]:
  assumes "dsafe f" and "\<And>v. dsafe (g v)"
  shows "dsafe (\<lambda>ds. rbind (f ds) g)"
  unfolding dsafe_def
proof (intro allI impI)
  fix ds :: dstate assume s: "sound (fst ds)"
  note f = dsafeD [OF assms(1) s]
  show "rbind (f ds) g \<noteq> Undef \<and> res_keeps (\<lambda>ds'. further (fst ds) (fst ds')) (rbind (f ds) g)"
  proof (cases "f ds")
    case (Ret v ds1)
    with f have 1: "further (fst ds) (fst ds1)" by simp
    with dsafeD [OF assms(2), of ds1 v] further_sound [OF 1 s] Ret show ?thesis
      by (auto intro: res_keeps_mono further_trans)
  qed (use f in simp_all)
qed

lemma dsafe_store [dsafe_intros]: "dsafe f \<Longrightarrow> dsafe (\<lambda>ds. f (dstore g ds))"
  by (simp add: dsafe_def dstore_def)

lemma dsafe_store_checked [dsafe_intros]: "dsafe (\<lambda>ds. store_checked (r ds) v ds)"
  by (auto simp: dsafe_def store_checked_def dfail_def dstore_def Let_def split: option.splits)

lemma dsafe_read_into [dsafe_intros]: "dsafe (read_into dest n)"
  unfolding read_into_def [abs_def] by (intro dsafe_intros safe_intros)

section \<open>Decoders that take at least a byte\<close>

definition eats :: "(pb_istream \<Rightarrow> (pb_istream, 'a) res) \<Rightarrow> bool" where
  "eats rd \<longleftrightarrow> (\<forall>st v st'. rd st = Ret v st' \<longrightarrow> bytes_left st' < bytes_left st)"

lemma eats_varint64_loop: "varint64_loop p r st = Ret v st' \<Longrightarrow> bytes_left st' < bytes_left st"
proof (induction p r st rule: varint64_loop.induct)
  case (1 p r st)
  from 1(2) have p: "\<not> 64 \<le> p" by (subst (asm) varint64_loop.simps) (simp split: if_splits)
  from 1(2) p obtain b st1 where b: "pb_readbyte st = Ret b st1"
    by (subst (asm) varint64_loop.simps) (auto split: res.splits)
  from pb_readbyte_bytes_left [OF b] have less: "bytes_left st1 < bytes_left st" by simp
  show ?case
  proof (cases "b AND 0x80 \<noteq> 0")
    case True
    with 1(2) p b have "varint64_loop ((p + 7) mod 256) (r OR push_bit p (ucast (b AND 0x7F))) st1 = Ret v st'"
      by (subst (asm) varint64_loop.simps) (simp add: Let_def)
    from 1(1) [OF p b refl refl True this] less show ?thesis by simp
  next
    case False
    with 1(2) p b less show ?thesis by (subst (asm) varint64_loop.simps) (simp add: Let_def)
  qed
qed

lemma eats_decoders: "eats pb_decode_varint" "eats pb_decode_svarint" "eats pb_decode_fixed32" "eats pb_decode_fixed64"
  by (auto simp: eats_def pb_decode_varint_def pb_decode_svarint_def pb_decode_fixed32_def pb_decode_fixed64_def rbind_Ret_iff
      dest: eats_varint64_loop pb_read_buf_bytes_left)

text \<open>A decoder of items for which the loop over a packed array ends.\<close>

definition item_safe :: "(dstate \<Rightarrow> (dstate, unit) res) \<Rightarrow> bool" where
  "item_safe f \<longleftrightarrow> dsafe f \<and> (\<forall>ds ds'. f ds = Ret () ds' \<longrightarrow> bytes_left (fst ds') < bytes_left (fst ds))"

lemma item_safe_bind:
  assumes "safe rd" and "eats rd" and "\<And>v. dsafe (g v)" and "\<And>v ds ds'. g v ds = Ret () ds' \<Longrightarrow> fst ds' = fst ds"
  shows "item_safe (\<lambda>ds. rbind (on_stream rd ds) g)"
  unfolding item_safe_def
proof (intro conjI allI impI)
  show "dsafe (\<lambda>ds. rbind (on_stream rd ds) g)" by (intro dsafe_intros assms)
  fix ds ds' assume "rbind (on_stream rd ds) g = Ret () ds'"
  then obtain v ds1 where "on_stream rd ds = Ret v ds1" "g v ds1 = Ret () ds'" by (auto simp: rbind_Ret_iff)
  then show "bytes_left (fst ds') < bytes_left (fst ds)"
    using assms(2) assms(4) [of v ds1 ds'] by (auto simp: eats_def on_stream_def split: res.splits)
qed

lemma store_checked_stream: "store_checked r v ds = Ret () ds' \<Longrightarrow> fst ds' = fst ds"
  by (auto simp: store_checked_def dfail_def dstore_def Let_def split: option.splits if_splits)

lemma item_safe_decoders:
  "item_safe (pb_dec_varint f dest)" "item_safe (pb_dec_uvarint f dest)" "item_safe (pb_dec_svarint f dest)"
  "item_safe (pb_dec_fixed32 f dest)" "item_safe (pb_dec_fixed64 f dest)"
proof -
  note checked = dsafe_store_checked store_checked_stream
  show "item_safe (pb_dec_varint f dest)" "item_safe (pb_dec_uvarint f dest)"
    unfolding pb_dec_varint_def [abs_def] pb_dec_uvarint_def [abs_def] Let_def
    by (rule item_safe_bind [OF safe_varint eats_decoders(1)], rule checked, erule checked)+
  show "item_safe (pb_dec_svarint f dest)"
    unfolding pb_dec_svarint_def [abs_def] by (rule item_safe_bind [OF safe_svarint eats_decoders(2)], rule checked, erule checked)
  show "item_safe (pb_dec_fixed32 f dest)"
    unfolding pb_dec_fixed32_def [abs_def]
    by (rule item_safe_bind [OF safe_fixed(1) eats_decoders(3)], intro dsafe_intros) (auto simp: dstore_def)
  show "item_safe (pb_dec_fixed64 f dest)"
    unfolding pb_dec_fixed64_def [abs_def]
    by (rule item_safe_bind [OF safe_fixed(2) eats_decoders(4)], intro dsafe_intros) (auto simp: dstore_def)
qed

section \<open>Fields\<close>

text \<open>A field whose value has no pointer and no submessage in it, with a \<open>data_size\<close> that fits its
  fixed width.\<close>

definition plain_static :: "pb_field \<Rightarrow> bool" where
  "plain_static f \<longleftrightarrow>
     atype f = PB_ATYPE_STATIC
     \<and> ltype f \<in> {PB_LTYPE_VARINT, PB_LTYPE_UVARINT, PB_LTYPE_SVARINT, PB_LTYPE_FIXED32, PB_LTYPE_FIXED64, PB_LTYPE_BYTES,
          PB_LTYPE_STRING, PB_LTYPE_FIXED_LENGTH_BYTES}
     \<and> (ltype f = PB_LTYPE_FIXED32 \<longrightarrow> 4 \<le> data_size f)
     \<and> (ltype f = PB_LTYPE_FIXED64 \<longrightarrow> 8 \<le> data_size f)"

lemma plain_static_ltype: "plain_static f \<Longrightarrow> ltype f \<noteq> PB_LTYPE_SUBMESSAGE" "plain_static f \<Longrightarrow> \<not> 9 < ltype f"
  by (auto simp: plain_static_def ltype_defs)

lemma rbind_dfail [simp]: "rbind (dfail msg ds) k = dfail msg ds"
  by (simp add: dfail_def)

lemma dsafe_pb_dec_bytes: "atype f = PB_ATYPE_STATIC \<Longrightarrow> dsafe (pb_dec_bytes f dest)"
  unfolding pb_dec_bytes_def [abs_def] Let_def
  by (intro dsafe_intros safe_intros) (simp_all add: atype_defs)

lemma dsafe_terminated: "dsafe g \<Longrightarrow> dsafe (\<lambda>ds. case g ds of
    Undef \<Rightarrow> Undef | Fail ds' \<Rightarrow> Fail (dstore h ds') | Ret _ ds' \<Rightarrow> Ret () (dstore h ds'))"
proof -
  assume g: "dsafe g"
  have "(case g ds of Undef \<Rightarrow> Undef | Fail ds' \<Rightarrow> Fail (dstore h ds') | Ret _ ds' \<Rightarrow> Ret () (dstore h ds')) \<noteq> Undef
      \<and> res_keeps (\<lambda>ds'. further (fst ds) (fst ds'))
          (case g ds of Undef \<Rightarrow> Undef | Fail ds' \<Rightarrow> Fail (dstore h ds') | Ret _ ds' \<Rightarrow> Ret () (dstore h ds'))"
    if "sound (fst ds)" for ds :: dstate
    using dsafeD [OF g that] by (cases "g ds") (simp_all add: dstore_def)
  then show ?thesis unfolding dsafe_def by blast
qed

lemma dsafe_pb_dec_string: "atype f = PB_ATYPE_STATIC \<Longrightarrow> dsafe (pb_dec_string f dest)"
  unfolding pb_dec_string_def [abs_def] Let_def
  by (intro dsafe_intros safe_intros dsafe_terminated) (simp_all add: atype_defs)

lemma dsafe_pb_dec_fixed_length_bytes: "dsafe (pb_dec_fixed_length_bytes f dest)"
  unfolding pb_dec_fixed_length_bytes_def [abs_def] Let_def
  by (intro dsafe_intros safe_intros)

lemma dsafe_PB_DECODERS:
  assumes "plain_static f" and "dest \<noteq> NULL"
  shows "dsafe (PB_DECODERS env n sub (ltype f) f dest)"
    and "ltype f \<le> PB_LTYPE_LAST_PACKABLE \<Longrightarrow> item_safe (PB_DECODERS env n sub (ltype f) f dest)"
proof -
  let ?r = "PB_DECODERS env n sub (ltype f) f dest"
  consider "?r = pb_dec_varint f dest" | "?r = pb_dec_uvarint f dest" | "?r = pb_dec_svarint f dest"
    | "?r = pb_dec_fixed32 f dest" | "?r = pb_dec_fixed64 f dest"
    | "\<not> ltype f \<le> PB_LTYPE_LAST_PACKABLE" "?r = pb_dec_bytes f dest" | "\<not> ltype f \<le> PB_LTYPE_LAST_PACKABLE" "?r = pb_dec_string f dest"
    | "\<not> ltype f \<le> PB_LTYPE_LAST_PACKABLE" "?r = pb_dec_fixed_length_bytes f dest"
    using assms by (auto simp: plain_static_def PB_DECODERS_def [abs_def] ltype_defs)
  then show "dsafe ?r" "ltype f \<le> PB_LTYPE_LAST_PACKABLE \<Longrightarrow> item_safe ?r"
    using item_safe_decoders [of f dest] dsafe_pb_dec_bytes [of f dest] dsafe_pb_dec_string [of f dest]
      dsafe_pb_dec_fixed_length_bytes [of f dest] assms(1)
    by (cases; simp add: item_safe_def plain_static_def)+
qed

section \<open>Packed arrays\<close>

lemma incr_size_stream [simp]: "fst (incr_size a ds) = fst ds"
  by (simp add: incr_size_def dstore_def)

lemma packed_static_loop_defined:
  assumes "\<And>i. i < array_size (cur it) \<Longrightarrow> item_safe (func (item_addr (pData it) (cur it) i))"
    and "sound (fst ds)" and "bytes_left (fst ds) < k"
  shows "\<exists>status ds'. packed_static_loop k func it ds = Ret status ds' \<and> further (fst ds) (fst ds')"
  using assms(2,3)
proof (induction k arbitrary: ds)
  case (Suc k)
  let ?count = "load_size (dmem ds) (pSize it)"
  let ?r = "func (item_addr (pData it) (cur it) ?count) ds"
  show ?case
  proof (cases "0 < bytes_left (fst ds) \<and> ?count < array_size (cur it)")
    case True
    then have s: "item_safe (func (item_addr (pData it) (cur it) ?count))" using assms(1) by simp
    then have r: "?r \<noteq> Undef \<and> res_keeps (\<lambda>ds'. further (fst ds) (fst ds')) ?r"
      using dsafeD Suc.prems(1) unfolding item_safe_def by blast
    show ?thesis
    proof (cases ?r)
      case (Ret u ds1)
      with r have f: "further (fst ds) (fst ds1)" by simp
      have "bytes_left (fst ds1) < bytes_left (fst ds)" using s Ret unfolding item_safe_def by (cases u) blast
      then have "bytes_left (fst (incr_size (pSize it) ds1)) < k" using Suc.prems(2) by simp
      from Suc.IH [OF _ this] further_sound [OF f Suc.prems(1)] obtain status ds' where
        "packed_static_loop k func it (incr_size (pSize it) ds1) = Ret status ds'" "further (fst ds1) (fst ds')" by auto
      with True Ret f show ?thesis by (auto simp: Let_def intro: further_trans)
    qed (use True r in auto)
  next
    case False
    then have "packed_static_loop (Suc k) func it ds = Ret True ds" by auto
    then show ?thesis using further_refl by blast
  qed
qed simp

text \<open>After an array with too many items the substream is not closed: the limit of the stream has moved, its
  position has not.\<close>

definition stays :: "pb_istream \<Rightarrow> pb_istream \<Rightarrow> bool" where
  "stays st st' \<longleftrightarrow> sound st' \<and> bytes_left st' \<le> bytes_left st"

lemma further_stays: "further st st' \<Longrightarrow> sound st \<Longrightarrow> stays st st'"
  by (simp add: stays_def further_sound further_bytes_left)

lemma decode_packed_static_defined:
  assumes "\<And>i. i < array_size (cur it) \<Longrightarrow> item_safe (func (item_addr (pData it) (cur it) i))" and s: "sound (fst ds)"
  shows "decode_packed_static func it ds \<noteq> Undef \<and> res_keeps (\<lambda>ds'. stays (fst ds) (fst ds')) (decode_packed_static func it ds)"
  using s
proof (cases rule: make_substream_cases)
  case (fail st')
  then have "on_stream pb_make_string_substream ds = Fail (st', snd ds)" by (simp add: on_stream_def)
  then show ?thesis using further_stays [OF fail(2) s] by (simp add: decode_packed_static_def)
next
  case (ret st0 n)
  let ?sub = "st0\<lparr>bytes_left := n\<rparr>" and ?parent = "st0\<lparr>bytes_left := bytes_left st0 - n\<rparr>"
  have s0: "sound st0" by (rule further_sound [OF ret(1) s])
  then have sub: "sound ?sub" using ret(2) by (simp add: sound_def)
  have make: "on_stream pb_make_string_substream ds = Ret ?sub (?parent, snd ds)" using ret(3) by (simp add: on_stream_def)
  from packed_static_loop_defined [of it func "(?sub, snd ds)" "Suc n"] assms(1) sub
  obtain status sub' h where loop: "packed_static_loop (Suc n) func it (?sub, snd ds) = Ret status (sub', h)" "further ?sub sub'"
    by (auto simp del: packed_static_loop.simps)
  let ?after = "st0\<lparr>bytes_left := bytes_left st0 - n, istate := drop n (istate st0), ierrmsg := ierrmsg sub'\<rparr>"
  have close: "on_stream (\<lambda>st. pb_close_string_substream st sub') (?parent, h) = Ret () (?after, h)"
    using close_substream [OF s0 ret(2) loop(2)] by (simp add: on_stream_def)
  have "bytes_left st0 \<le> bytes_left (fst ds)" by (rule further_bytes_left [OF ret(1)])
  then have "stays (fst ds) (iset_error msg ?parent)" "stays (fst ds) ?after" for msg
    using s0 by (auto simp: stays_def sound_def iset_error_def)
  then show ?thesis
    by (simp add: decode_packed_static_def make loop(1) close dfail_def del: packed_static_loop.simps)
qed

section \<open>Static fields\<close>

lemma dsafe_stays: "dsafe f \<Longrightarrow> sound (fst ds) \<Longrightarrow> f ds \<noteq> Undef \<and> res_keeps (\<lambda>ds'. stays (fst ds) (fst ds')) (f ds)"
  using dsafeD [of f ds] by (auto intro: res_keeps_mono further_stays)

lemma decode_static_field_defined:
  assumes f: "plain_static (cur it)" and p: "0 < pData it" and s: "sound (fst ds)"
  shows "decode_static_field env n sub wire_type it ds \<noteq> Undef
    \<and> res_keeps (\<lambda>ds'. stays (fst ds) (fst ds')) (decode_static_field env n sub wire_type it ds)"
proof -
  let ?f = "cur it" let ?func = "PB_DECODERS env n sub (ltype (cur it)) (cur it)"
  have a: "item_addr (pData it) ?f i \<noteq> NULL" "pData it \<noteq> NULL" for i using p by (simp_all add: item_addr_def)
  note d = dsafe_PB_DECODERS [OF f a(2), of env n sub] dsafe_PB_DECODERS [OF f a(1), of env n sub]
  have t: "\<not> 9 < ltype ?f" "ltype ?f \<noteq> PB_LTYPE_SUBMESSAGE" using f by (simp_all add: plain_static_ltype)
  have single: "?func (pData it) ds' \<noteq> Undef \<and> res_keeps (\<lambda>ds'. stays (fst ds) (fst ds')) (?func (pData it) ds')" if "fst ds' = fst ds" for ds'
    using dsafe_stays [OF d(1), of ds'] s that by simp
  have item: "?func (item_addr (pData it) ?f i) ds' \<noteq> Undef
      \<and> res_keeps (\<lambda>ds'. stays (fst ds) (fst ds')) (?func (item_addr (pData it) ?f i) ds')" if "fst ds' = fst ds" for i ds'
    using dsafe_stays [OF d(3), of ds'] s that by simp
  have packed: "decode_packed_static ?func it ds \<noteq> Undef \<and> res_keeps (\<lambda>ds'. stays (fst ds) (fst ds')) (decode_packed_static ?func it ds)"
    if "ltype ?f \<le> PB_LTYPE_LAST_PACKABLE" using decode_packed_static_defined [of it ?func ds] d(4) [OF that] s by blast
  have over: "stays (fst ds) (iset_error msg (fst ds))" for msg using s by (auto simp: stays_def sound_def iset_error_def)
  show ?thesis
    unfolding decode_static_field_def Let_def using t single item packed over
    by (auto simp: dfail_def dstore_def)
qed

end
