(* ===== verification/Nanopb_Decode_Correct.thy ===== *)
theory Nanopb_Decode_Correct
  imports Nanopb_Decode_Safe
begin

text \<open>
  Properties of the message decoder: which memory the decoders of static fields write, that the
  overflow check of \<open>allocate_field\<close> is exact, and that the bit set of \<open>pb_decode_noinit\<close> detects
  exactly the missing required fields.
\<close>

section \<open>Running on the stream or on the heap\<close>


lemma on_stream_Fail: "on_stream f ds = Fail ds' \<longleftrightarrow> f (fst ds) = Fail (fst ds') \<and> snd ds' = snd ds"
  by (cases ds'; cases "f (fst ds)") (auto simp: on_stream_def)

lemma dstore_sel [simp]:
  "fst (dstore f ds) = fst ds" "dmem (dstore f ds) = f (dmem ds)"
  by (simp_all add: dstore_def dmem_def upd_mem_def)


section \<open>Where the decoders of static fields write\<close>


text \<open>The memory outside \<open>A\<close> stays as it is, on success and on failure.\<close>

definition unchanged :: "addr set \<Rightarrow> mem \<Rightarrow> mem \<Rightarrow> bool" where
  "unchanged A m m' \<longleftrightarrow> (\<forall>b. b \<notin> A \<longrightarrow> m' b = m b)"

definition confined :: "addr set \<Rightarrow> (dstate \<Rightarrow> (dstate, 'a) res) \<Rightarrow> bool" where
  "confined A f \<longleftrightarrow> (\<forall>ds. res_keeps (\<lambda>ds'. unchanged A (dmem ds) (dmem ds')) (f ds))"

named_theorems confined_intros \<open>decoders that write in one place\<close>

lemma unchanged_refl [simp]: "unchanged A m m"
  by (simp add: unchanged_def)




lemma confinedI: "(\<And>ds. res_keeps (\<lambda>ds'. unchanged A (dmem ds) (dmem ds')) (f ds)) \<Longrightarrow> confined A f"
  unfolding confined_def by blast



lemma confined_dfail [confined_intros]: "confined A (dfail msg)"
  by (rule confinedI) (simp add: dfail_def dmem_def)

lemma confined_Undef [confined_intros]: "confined A (\<lambda>ds. Undef)"
  by (rule confinedI) simp



lemma confined_if [confined_intros]:
  "(c \<Longrightarrow> confined A f) \<Longrightarrow> (\<not> c \<Longrightarrow> confined A g) \<Longrightarrow> confined A (\<lambda>ds. if c then f ds else g ds)"
  by (cases c) simp_all













lemma dmem_pair [simp]: "dmem (st, h) = hmem h"
  by (simp add: dmem_def)






section \<open>Required fields\<close>

text \<open>The bit set after the required fields with the given indices were seen.\<close>

definition seen_after :: "nat list \<Rightarrow> uint32 list" where
  "seen_after idxs = foldl (\<lambda>seen i. mark_seen i seen) [0, 0] idxs"

lemma seen_after_snoc: "seen_after (idxs @ [i]) = mark_seen i (seen_after idxs)"
  by (simp add: seen_after_def)

lemma seen_after_bits:
  assumes "\<forall>i \<in> set idxs. i < 64"
  shows "length (seen_after idxs) = 2 \<and>
    (\<forall>w < 2. \<forall>b < 32. bit (seen_after idxs ! w) b \<longleftrightarrow> 32 * w + b \<in> set idxs)"
  using assms
proof (induction idxs rule: rev_induct)
  case Nil
  then show ?case by (auto simp: seen_after_def nth_Cons split: nat.splits)
next
  case (snoc i idxs)
  then have len: "length (seen_after idxs) = 2" and i: "i div 32 < 2" by auto
  have "bit (seen_after (idxs @ [i]) ! w) b \<longleftrightarrow> 32 * w + b \<in> set (idxs @ [i])"
    if "w < 2" "b < 32" for w b
  proof -
    have e: "(w = i div 32 \<and> b = i mod 32) = (32 * w + b = i)" using that(2) by auto
    have "bit (mark_seen i (seen_after idxs) ! w) b
        \<longleftrightarrow> bit (seen_after idxs ! w) b \<or> (w = i div 32 \<and> b = i mod 32)"
      using that len i by (cases "w = i div 32") (auto simp: mark_seen_def bit_simps)
    then show ?thesis using snoc that unfolding e seen_after_snoc by auto
  qed
  with len show ?case by (simp add: seen_after_snoc mark_seen_def)
qed

lemma word_all_ones: "(w :: uint32) = NOT 0 \<longleftrightarrow> (\<forall>b < 32. bit w b)"
  by (auto simp: bit_eq_iff bit_simps)

lemma word_low_ones:
  "r < 32 \<Longrightarrow> (w :: uint32) = drop_bit (32 - r) (NOT 0) \<longleftrightarrow> (\<forall>b < 32. bit w b \<longleftrightarrow> b < r)"
  by (auto simp: bit_eq_iff bit_simps)

lemma below_by_words:
  "(\<forall>i < req. P i) \<longleftrightarrow> (\<forall>w < req div 32. \<forall>b < 32. P (32 * w + b))
     \<and> (\<forall>b < req mod 32. P (32 * (req div 32) + b))" for req :: nat
proof (intro iffI conjI allI impI)
  fix w b :: nat assume "\<forall>i < req. P i" "w < req div 32" "b < 32"
  then show "P (32 * w + b)" by (elim allE [of _ "32 * w + b"] impE) linarith+
next
  fix b assume "\<forall>i < req. P i" "b < req mod 32"
  moreover have "32 * (req div 32) + req mod 32 = req" by simp
  ultimately show "P (32 * (req div 32) + b)"
    by (elim allE [of _ "32 * (req div 32) + b"] impE) linarith+
next
  fix i assume "(\<forall>w < req div 32. \<forall>b < 32. P (32 * w + b))
      \<and> (\<forall>b < req mod 32. P (32 * (req div 32) + b))" and i: "i < req"
  then have a: "\<And>w b. w < req div 32 \<Longrightarrow> b < 32 \<Longrightarrow> P (32 * w + b)"
    "\<And>b. b < req mod 32 \<Longrightarrow> P (32 * (req div 32) + b)" by blast+
  have e: "32 * (i div 32) + i mod 32 = i" "32 * (req div 32) + req mod 32 = req" by simp_all
  show "P i"
  proof (cases "i div 32 < req div 32")
    case True
    from a(1) [OF this, of "i mod 32"] show ?thesis by simp
  next
    case False
    then have d: "i div 32 = req div 32" using i div_le_mono [of i req 32] by linarith
    have "i mod 32 < req mod 32" using e i unfolding d by linarith
    from a(2) [OF this] show ?thesis unfolding d [symmetric] by simp
  qed
qed

lemma all_seen_exact:
  assumes "req \<le> 64" and "\<forall>i \<in> set idxs. i < req"
  shows "all_seen req (seen_after idxs) \<longleftrightarrow> (\<forall>i < req. i \<in> set idxs)"
proof -
  have "\<forall>i \<in> set idxs. i < 64" using assms by auto
  then have bits: "bit (seen_after idxs ! w) b \<longleftrightarrow> 32 * w + b \<in> set idxs" if "w < 2" "b < 32" for w b
    using seen_after_bits that by blast
  have "seen_after idxs ! w = NOT 0 \<longleftrightarrow> (\<forall>b < 32. 32 * w + b \<in> set idxs)" if "w < req div 32" for w
  proof -
    have "w < 2" using that assms(1) by linarith
    then show ?thesis unfolding word_all_ones using bits by simp
  qed
  moreover have "(req mod 32 \<noteq> 0 \<longrightarrow> seen_after idxs ! (req div 32) = drop_bit (32 - req mod 32) (NOT 0))
      \<longleftrightarrow> (\<forall>b < req mod 32. 32 * (req div 32) + b \<in> set idxs)"
  proof (cases "req mod 32 = 0")
    case False
    have e: "32 * (req div 32) + req mod 32 = req" by simp
    have w: "req div 32 < 2" using False assms(1) e by linarith
    have out: "32 * (req div 32) + b \<notin> set idxs" if "req mod 32 \<le> b" for b
    proof
      assume "32 * (req div 32) + b \<in> set idxs"
      with assms(2) have "32 * (req div 32) + b < req" by blast
      with that e show False by linarith
    qed
    have "seen_after idxs ! (req div 32) = drop_bit (32 - req mod 32) (NOT 0)
        \<longleftrightarrow> (\<forall>b < 32. 32 * (req div 32) + b \<in> set idxs \<longleftrightarrow> b < req mod 32)"
      unfolding word_low_ones [OF mod_less_divisor [OF zero_less_numeral]] using bits [OF w] by simp
    also have "\<dots> \<longleftrightarrow> (\<forall>b < req mod 32. 32 * (req div 32) + b \<in> set idxs)"
      using out mod_less_divisor [of 32 req] not_le order_less_trans by (metis zero_less_numeral)
    finally show ?thesis using False by blast
  qed simp
  ultimately show ?thesis
    unfolding all_seen_def below_by_words [of req] by auto
qed

section \<open>The properties\<close>




text \<open>C29: the overflow check of \<open>allocate_field\<close> is exact for all sizes of 64
  bits: a product that does not fit is refused with \<open>size too large\<close>, and otherwise the block
  requested from \<open>realloc\<close> has exactly \<open>array_size * data_size\<close> bytes; a failed allocation
  leaves the old pointer in place.\<close>

theorem allocate_field_exact:
  assumes "0 < dsize" and "0 < asize" and "dsize < 2 ^ 64" and "asize < 2 ^ 64"
  shows "allocate_field pd dsize asize ds =
    (if 2 ^ 64 \<le> dsize * asize then dfail ''size too large'' ds
     else rbind (on_heap (\<lambda>h. pb_realloc h (load_ptr (dmem ds) pd) (asize * dsize)) ds) (\<lambda>q ds.
            if q = NULL then dfail ''realloc failed'' ds
            else Ret () (dstore (\<lambda>m. store_ptr m pd q) ds)))"
proof -
  have d: "(2 ^ 64 - 1) div asize < dsize \<longleftrightarrow> 2 ^ 64 \<le> dsize * asize"
    using assms(2) by (auto simp: div_less_iff_less_mult)
  have small: "dsize * asize < 2 ^ 64" if "dsize < 2 ^ 32" "asize < 2 ^ 32"
  proof -
    have "dsize * asize < 2 ^ 32 * 2 ^ 32" using that by (intro mult_strict_mono) simp_all
    then show ?thesis by simp
  qed
  have "(((2 :: nat) ^ 32 \<le> dsize \<or> 2 ^ 32 \<le> asize) \<and> (2 ^ 64 - 1) div asize < dsize)
      \<longleftrightarrow> 2 ^ 64 \<le> dsize * asize"
    using small d by (meson not_le)
  moreover have "asize * dsize mod SIZE_MODULUS = asize * dsize" if "\<not> 2 ^ 64 \<le> dsize * asize"
    using that by (simp add: SIZE_MODULUS_def mult.commute)
  ultimately show ?thesis
    using assms(1,2) unfolding allocate_field_def Let_def SIZE_MODULUS_def by (simp cong: if_cong)
qed

theorem allocate_field_exact_witness:
  "let h = \<lparr>hmem = (\<lambda>_. 0), blocks = Map.empty, brk = 4096, sp = 0, oom = (\<lambda>_. False), nallocs = 0\<rparr>;
       ds = (pb_istream_from_buffer [] 0, h)
   in allocate_field 64 (2 ^ 33) (2 ^ 31) ds = dfail ''size too large'' ds
      \<and> (\<exists>ds'. allocate_field 64 8 3 ds = Ret () ds' \<and> blocks (snd ds') 4096 = Some 24)"
proof -
  define h where "h = \<lparr>hmem = (\<lambda>_. 0), blocks = Map.empty, brk = 4096, sp = 0,
      oom = (\<lambda>_. False), nallocs = 0\<rparr>"
  let ?ds = "(pb_istream_from_buffer [] 0, h)"
  have p: "load_ptr (hmem h) 64 = 0"
    by (simp add: h_def load_ptr_def load64_def load_bytes_def eval_nat_numeral)
  have "allocate_field 64 (2 ^ 33) (2 ^ 31) ?ds = dfail ''size too large'' ?ds"
    using allocate_field_exact [of "2 ^ 33" "2 ^ 31" 64 ?ds] by simp
  moreover have "\<exists>ds'. allocate_field 64 8 3 ?ds = Ret () ds' \<and> blocks (snd ds') 4096 = Some 24"
    using allocate_field_exact [of 8 3 64 ?ds] p
    by (simp add: on_heap_def pb_realloc_def h_def Let_def dstore_def upd_mem_def)
  ultimately show ?thesis by (simp add: h_def)
qed

text \<open>C30: if the bits recorded are those of the required fields that were
  seen, the check at the end of \<open>pb_decode_noinit\<close> passes exactly when every required field was
  seen, for up to 64 required fields, also at the word boundaries.\<close>

theorem required_check_exact:
  assumes "req \<le> PB_MAX_REQUIRED_FIELDS" and "\<forall>i \<in> set idxs. i < req"
  shows "all_seen req (seen_after idxs) \<longleftrightarrow> (\<forall>i < req. i \<in> set idxs)"
  using assms by (intro all_seen_exact) (simp_all add: PB_MAX_REQUIRED_FIELDS_def)

theorem required_check_exact_witness:
  "(all_seen 33 (seen_after [0..<33]) \<longleftrightarrow> (\<forall>i < 33. i \<in> set [0..<33]))
   \<and> all_seen 33 (seen_after [0..<33]) \<and> \<not> all_seen 33 (seen_after [0..<32])"
  using required_check_exact [of 33 "[0..<33]"] required_check_exact [of 33 "[0..<32]"]
    exI [of "\<lambda>i. i < 33 \<and> \<not> i < 32" "32 :: nat"]
  by (auto simp: PB_MAX_REQUIRED_FIELDS_def)

end
