(* ===== verification/Ldb_Coding.thy ===== *)
theory Ldb_Coding
  imports Wire_Format
begin

text \<open>
  LevelDB: \<open>util/coding.cc\<close> and \<open>util/coding.h\<close>. A \<open>Slice\<close>, and the range from a pointer \<open>p\<close> to
  \<open>limit\<close>, is the list of its bytes. The functions that parse from a \<open>Slice *input\<close> have the result
  type of the prelude with the rest of the input as their state; \<open>Fail\<close> carries the input as the
  code leaves it. The target is little-endian (\<open>port::kLittleEndian\<close>).
\<close>

type_synonym slice = "byte list"

named_theorems ldb_codec \<open>what a decoder returns on the bytes of its encoder\<close>

section \<open>Fixed-width integers\<close>

definition EncodeFixed32 :: "uint32 \<Rightarrow> byte list" where
  "EncodeFixed32 value = le_bytes 4 value"

definition EncodeFixed64 :: "uint64 \<Rightarrow> byte list" where
  "EncodeFixed64 value = le_bytes 8 value"

definition PutFixed32 :: "byte list \<Rightarrow> uint32 \<Rightarrow> byte list" where
  "PutFixed32 dst value = dst @ EncodeFixed32 value"

definition PutFixed64 :: "byte list \<Rightarrow> uint64 \<Rightarrow> byte list" where
  "PutFixed64 dst value = dst @ EncodeFixed64 value"

text \<open>The argument is the memory from \<open>ptr\<close> on.\<close>

definition DecodeFixed32 :: "byte list \<Rightarrow> uint32" where
  "DecodeFixed32 p = le_word (take 4 p)"

definition DecodeFixed64 :: "byte list \<Rightarrow> uint64" where
  "DecodeFixed64 p = le_word (take 8 p)"

section \<open>Varints\<close>

text \<open>\<open>*(ptr++) = v | B\<close> keeps the low eight bits.\<close>

definition EncodeVarint32 :: "uint32 \<Rightarrow> byte list" where
  "EncodeVarint32 v =
     (let B = 128
      in if v < push_bit 7 1 then [ucast v]
         else if v < push_bit 14 1 then [ucast (v OR B), ucast (drop_bit 7 v)]
         else if v < push_bit 21 1
         then [ucast (v OR B), ucast (drop_bit 7 v OR B), ucast (drop_bit 14 v)]
         else if v < push_bit 28 1
         then [ucast (v OR B), ucast (drop_bit 7 v OR B), ucast (drop_bit 14 v OR B),
               ucast (drop_bit 21 v)]
         else [ucast (v OR B), ucast (drop_bit 7 v OR B), ucast (drop_bit 14 v OR B),
               ucast (drop_bit 21 v OR B), ucast (drop_bit 28 v)])"

definition PutVarint32 :: "byte list \<Rightarrow> uint32 \<Rightarrow> byte list" where
  "PutVarint32 dst v = dst @ EncodeVarint32 v"

function EncodeVarint64 :: "uint64 \<Rightarrow> byte list" where
  "EncodeVarint64 v =
     (if 128 \<le> v then ucast (v OR 128) # EncodeVarint64 (drop_bit 7 v) else [ucast v])"
  by pat_completeness auto
termination
  by (relation "measure unat") (auto intro!: drop_bit_less_unat)

declare EncodeVarint64.simps [simp del]

definition PutVarint64 :: "byte list \<Rightarrow> uint64 \<Rightarrow> byte list" where
  "PutVarint64 dst v = dst @ EncodeVarint64 v"

text \<open>The length of a \<open>Slice\<close> is passed as a \<open>uint32_t\<close>.\<close>

definition PutLengthPrefixedSlice :: "byte list \<Rightarrow> slice \<Rightarrow> byte list" where
  "PutLengthPrefixedSlice dst value = PutVarint32 dst (of_nat (length value)) @ value"

function VarintLength :: "uint64 \<Rightarrow> nat" where
  "VarintLength v = (if 128 \<le> v then Suc (VarintLength (drop_bit 7 v)) else 1)"
  by pat_completeness auto
termination
  by (relation "measure unat") (auto intro!: drop_bit_less_unat)

declare VarintLength.simps [simp del]

text \<open>The loops \<open>for (shift = 0; shift <= 28 && p < limit; shift += 7)\<close>; a null result is
  \<open>None\<close>, otherwise the value and the bytes behind it.\<close>

function GetVarint32PtrFallback :: "nat \<Rightarrow> uint32 \<Rightarrow> slice \<Rightarrow> (uint32 \<times> slice) option" where
  "GetVarint32PtrFallback shift result p =
     (if 28 < shift then None
      else case p of
             [] \<Rightarrow> None
           | b # p' \<Rightarrow>
               (let byte = ucast b :: uint32
                in if byte AND 128 \<noteq> 0
                   then GetVarint32PtrFallback (shift + 7)
                          (result OR push_bit shift (byte AND 127)) p'
                   else Some (result OR push_bit shift byte, p')))"
  by pat_completeness auto
termination
  by (relation "measure (\<lambda>(s, _, p). 29 - s)") auto

declare GetVarint32PtrFallback.simps [simp del]

definition GetVarint32Ptr :: "slice \<Rightarrow> (uint32 \<times> slice) option" where
  "GetVarint32Ptr p =
     (case p of
        b # p' \<Rightarrow> (let result = ucast b :: uint32
                   in if result AND 128 = 0 then Some (result, p')
                      else GetVarint32PtrFallback 0 0 p)
      | [] \<Rightarrow> GetVarint32PtrFallback 0 0 p)"

definition GetVarint32 :: "slice \<Rightarrow> (slice, uint32) res" where
  "GetVarint32 input =
     (case GetVarint32Ptr input of None \<Rightarrow> Fail input | Some (value, q) \<Rightarrow> Ret value q)"

function GetVarint64Loop :: "nat \<Rightarrow> uint64 \<Rightarrow> slice \<Rightarrow> (uint64 \<times> slice) option" where
  "GetVarint64Loop shift result p =
     (if 63 < shift then None
      else case p of
             [] \<Rightarrow> None
           | b # p' \<Rightarrow>
               (let byte = ucast b :: uint64
                in if byte AND 128 \<noteq> 0
                   then GetVarint64Loop (shift + 7) (result OR push_bit shift (byte AND 127)) p'
                   else Some (result OR push_bit shift byte, p')))"
  by pat_completeness auto
termination
  by (relation "measure (\<lambda>(s, _, p). 64 - s)") auto

declare GetVarint64Loop.simps [simp del]

definition GetVarint64Ptr :: "slice \<Rightarrow> (uint64 \<times> slice) option" where
  "GetVarint64Ptr p = GetVarint64Loop 0 0 p"

definition GetVarint64 :: "slice \<Rightarrow> (slice, uint64) res" where
  "GetVarint64 input =
     (case GetVarint64Ptr input of None \<Rightarrow> Fail input | Some (value, q) \<Rightarrow> Ret value q)"

text \<open>The two functions of this name: on a pointer range, and on a \<open>Slice *\<close>. The second leaves
  the input behind the length when the bytes are missing.\<close>

definition GetLengthPrefixedSlicePtr :: "slice \<Rightarrow> (slice \<times> slice) option" where
  "GetLengthPrefixedSlicePtr p =
     (case GetVarint32Ptr p of
        None \<Rightarrow> None
      | Some (len, q) \<Rightarrow>
          if length q < unat len then None else Some (take (unat len) q, drop (unat len) q))"

definition GetLengthPrefixedSlice :: "slice \<Rightarrow> (slice, slice) res" where
  "GetLengthPrefixedSlice input =
     rbind (GetVarint32 input) (\<lambda>len input.
       if unat len \<le> length input then Ret (take (unat len) input) (drop (unat len) input)
       else Fail input)"

end
