(* ===== verification/Ldb_Codec.thy ===== *)
theory Ldb_Codec
  imports Ldb_Coding
begin

text \<open>
  The coding routines of LevelDB against the wire format: the unrolled and the looping encoder
  write the base-128 varint of the value, the decoders read any varint that fits, and each
  \<open>Put\<close>/\<open>Get\<close> pair is an instance of one interface, \<open>slice_codec\<close>.
\<close>

section \<open>Encoders\<close>

lemma ucast_or_128:
  fixes v :: "'a::len word"
  assumes "8 \<le> LENGTH('a)"
  shows "(ucast (v OR 128) :: byte) = of_nat (unat v mod 128 + 128)"
proof -
  have m: "(128 :: 'a word) = push_bit 7 1" by simp
  have "(of_nat (unat v mod 128) :: byte) = ucast (take_bit 7 v)"
  proof -
    have "(ucast (take_bit 7 v) :: byte) = of_nat (unat (take_bit 7 v))" by simp
    then show ?thesis by (simp only: unat_take_bit) simp
  qed
  moreover have "(ucast (v OR push_bit 7 1) :: byte) = ucast (take_bit 7 v) OR push_bit 7 1"
    by (rule bit_word_eqI) (use assms in \<open>auto simp: bit_simps less_Suc_eq numeral_eq_Suc\<close>)
  ultimately have "(ucast (v OR 128) :: byte) = of_nat (unat v mod 128) OR push_bit 7 (of_nat 1)"
    by (simp only: m of_nat_1)
  also have "\<dots> = of_nat (unat v mod 128 + 2 ^ 7 * 1)"
    by (rule or_push_bit_of_nat) simp
  finally show ?thesis by simp
qed

lemma ucast_small_byte:
  fixes v :: "'a::len word"
  shows "(ucast v :: byte) = of_nat (unat v)"
  by simp

theorem EncodeVarint64_leb128: "EncodeVarint64 v = leb128 (unat v)"
proof (induction v rule: EncodeVarint64.induct)
  case (1 v)
  have le: "128 \<le> v \<longleftrightarrow> \<not> unat v < 128"
    by (simp add: word_le_nat_alt not_less)
  show ?case
  proof (cases "128 \<le> v")
    case True
    then have "EncodeVarint64 v = of_nat (unat v mod 128 + 128) # leb128 (unat v div 128)"
      using 1 ucast_or_128 [of v]
      by (subst EncodeVarint64.simps) (simp add: unat_drop_bit del: of_nat_add)
    then show ?thesis using True le by (subst leb128.simps) simp
  next
    case False
    then show ?thesis using le
      by (subst EncodeVarint64.simps, subst leb128.simps) simp
  qed
qed

lemma leb128_step:
  "n < 128 \<Longrightarrow> leb128 n = [of_nat n]"
  "128 \<le> n \<Longrightarrow> leb128 n = of_nat (n mod 128 + 128) # leb128 (n div 128)"
  by (subst leb128.simps; simp)+

theorem EncodeVarint32_leb128: "EncodeVarint32 v = leb128 (unat v)"
proof -
  have b: "(ucast (drop_bit k v OR 128) :: byte) = of_nat (unat v div 2 ^ k mod 128 + 128)" for k
    using ucast_or_128 [of "drop_bit k v"] by (simp only: unat_drop_bit) simp
  have b0: "(ucast (v OR 128) :: byte) = of_nat (unat v mod 128 + 128)"
    by (rule ucast_or_128) simp
  have e: "(ucast (drop_bit k v) :: byte) = of_nat (unat v div 2 ^ k)" for k
    by (simp only: ucast_small_byte unat_drop_bit)
  have u: "unat v < 2 ^ 32" using unsigned_less [of v, where ?'a = nat] by simp
  show ?thesis
    unfolding EncodeVarint32_def Let_def b b0 e
    using u
    by (simp add: word_less_nat_alt leb128_step div_mult2_eq [symmetric] del: of_nat_add)
qed

lemma length_EncodeVarint32: "length (EncodeVarint32 v) \<le> 5"
  by (simp add: EncodeVarint32_def Let_def)

lemma VarintLength_leb128: "VarintLength v = length (leb128 (unat v))"
proof (induction v rule: VarintLength.induct)
  case (1 v)
  then show ?case
    by (subst VarintLength.simps, subst leb128.simps)
       (auto simp: word_le_nat_alt unat_drop_bit)
qed

section \<open>Decoders\<close>

lemma ucast_and_128: "(ucast (b :: byte) :: 'a::len word) AND 128 = 0 \<longleftrightarrow> unat b < 128"
  if "8 \<le> LENGTH('a)"
proof -
  have "(ucast b :: 'a word) AND 128 = 0 \<longleftrightarrow> \<not> bit (ucast b :: 'a word) 7"
    using and_exp_eq_0_iff_not_bit [of "ucast b :: 'a word" 7] by simp
  also have "\<dots> \<longleftrightarrow> \<not> bit b 7" using that by (simp add: bit_simps)
  also have "\<dots> \<longleftrightarrow> b AND 0x80 = 0" using and_exp_eq_0_iff_not_bit [of b 7] by simp
  finally show ?thesis by (simp only: byte_top_clear)
qed

text \<open>One round of either loop adds seven bits.\<close>

lemma varint_round:
  assumes "8 \<le> LENGTH('a)" and "r < 2 ^ s"
  shows "(of_nat r :: 'a::len word) OR push_bit s (ucast (b :: byte) AND 127)
         = of_nat (r + 2 ^ s * (unat b mod 128))"
    and "unat b < 128 \<Longrightarrow> (of_nat r :: 'a word) OR push_bit s (ucast b)
         = of_nat (r + 2 ^ s * unat b)"
proof -
  have "(ucast b :: 'a word) AND 127 = of_nat (unat b mod 128)"
  proof -
    have "(ucast b :: 'a word) AND 0x7F = ucast (b AND 0x7F)"
      by (rule bit_word_eqI) (use assms(1) in \<open>auto simp: bit_simps and_7F_take_bit\<close>)
    then show ?thesis by (simp only: ucast_and_7F)
  qed
  then show "(of_nat r :: 'a::len word) OR push_bit s (ucast (b :: byte) AND 127)
         = of_nat (r + 2 ^ s * (unat b mod 128))"
    by (simp only: or_push_bit_of_nat [OF assms(2)])
  show "(of_nat r :: 'a word) OR push_bit s (ucast b) = of_nat (r + 2 ^ s * unat b)"
    if "unat b < 128"
    using or_push_bit_of_nat [OF assms(2), of "unat b"] by simp
qed

lemma varint_round_bound:
  "r < 2 ^ s \<Longrightarrow> (r :: nat) + 2 ^ s * (k mod 128) < 2 ^ (s + 7)"
proof -
  assume "r < 2 ^ s"
  moreover have "(2 :: nat) ^ s * (k mod 128) \<le> 2 ^ s * 127"
    by (rule mult_le_mono2) (use mod_less_divisor [of 128 k] in linarith)
  moreover have "(2 :: nat) ^ (s + 7) = 2 ^ s + 2 ^ s * 127" by (simp add: power_add)
  ultimately show ?thesis by linarith
qed

lemma GetVarint64Loop_group:
  assumes "leb_group bs" and "r < 2 ^ s" and "s + 7 * length bs \<le> 70"
  shows "GetVarint64Loop s (of_nat r) (bs @ rest)
         = Some (of_nat (r + 2 ^ s * leb_value bs), rest)"
  using assms
proof (induction bs arbitrary: r s)
  case (Cons b bs)
  show ?case
  proof (cases "unat b < 128")
    case True
    with Cons.prems have "bs = []" by (simp add: leb_group_Cons byte_top_clear)
    with Cons.prems True show ?thesis
      by (subst GetVarint64Loop.simps)
         (simp add: ucast_and_128 varint_round(2) del: of_nat_add of_nat_mult)
  next
    case False
    with Cons.prems have "leb_group bs" by (simp add: leb_group_Cons byte_top_clear)
    note IH = Cons.IH [OF this varint_round_bound [OF Cons.prems(2)], of "unat b"]
    have "GetVarint64Loop s (of_nat r) ((b # bs) @ rest)
        = GetVarint64Loop (s + 7) (of_nat (r + 2 ^ s * (unat b mod 128))) (bs @ rest)"
      using Cons.prems False
      by (subst GetVarint64Loop.simps)
         (simp add: ucast_and_128 varint_round(1) del: push_bit_and of_nat_add of_nat_mult)
    also have "\<dots> = Some (of_nat (r + 2 ^ s * leb_value (b # bs)), rest)"
      using Cons.prems by (subst IH) (simp_all add: power_add algebra_simps)
    finally show ?thesis .
  qed
qed simp

lemma GetVarint32Fallback_group:
  assumes "leb_group bs" and "r < 2 ^ s" and "s + 7 * length bs \<le> 35"
  shows "GetVarint32PtrFallback s (of_nat r) (bs @ rest)
         = Some (of_nat (r + 2 ^ s * leb_value bs), rest)"
  using assms
proof (induction bs arbitrary: r s)
  case (Cons b bs)
  show ?case
  proof (cases "unat b < 128")
    case True
    with Cons.prems have "bs = []" by (simp add: leb_group_Cons byte_top_clear)
    with Cons.prems True show ?thesis
      by (subst GetVarint32PtrFallback.simps)
         (simp add: ucast_and_128 varint_round(2) del: of_nat_add of_nat_mult)
  next
    case False
    with Cons.prems have "leb_group bs" by (simp add: leb_group_Cons byte_top_clear)
    note IH = Cons.IH [OF this varint_round_bound [OF Cons.prems(2)], of "unat b"]
    have "GetVarint32PtrFallback s (of_nat r) ((b # bs) @ rest)
        = GetVarint32PtrFallback (s + 7) (of_nat (r + 2 ^ s * (unat b mod 128))) (bs @ rest)"
      using Cons.prems False
      by (subst GetVarint32PtrFallback.simps)
         (simp add: ucast_and_128 varint_round(1) del: push_bit_and of_nat_add of_nat_mult)
    also have "\<dots> = Some (of_nat (r + 2 ^ s * leb_value (b # bs)), rest)"
      using Cons.prems by (subst IH) (simp_all add: power_add algebra_simps)
    finally show ?thesis .
  qed
qed simp

lemma GetVarint64_leb128: "n < 2 ^ 64 \<Longrightarrow> GetVarint64 (leb128 n @ rest) = Ret (of_nat n) rest"
  using GetVarint64Loop_group [of "leb128 n" 0 0 rest] length_leb128_64 [of n]
  by (simp add: GetVarint64_def GetVarint64Ptr_def)

lemma GetVarint32Ptr_group:
  assumes "leb_group bs" and "length bs \<le> 5"
  shows "GetVarint32Ptr (bs @ rest) = Some (of_nat (leb_value bs), rest)"
proof (cases bs)
  case Nil
  with assms show ?thesis by simp
next
  case (Cons b bs')
  have F: "GetVarint32PtrFallback 0 0 (bs @ rest) = Some (of_nat (leb_value bs), rest)"
    using GetVarint32Fallback_group [of bs 0 0 rest] assms by simp
  show ?thesis
  proof (cases "unat b < 128")
    case True
    with assms Cons have "bs' = []" by (simp add: leb_group_Cons byte_top_clear)
    with True Cons show ?thesis by (simp add: GetVarint32Ptr_def ucast_and_128)
  next
    case False
    with F Cons show ?thesis by (simp add: GetVarint32Ptr_def ucast_and_128)
  qed
qed

lemma leb128_uint32_length: "n < 2 ^ 32 \<Longrightarrow> length (leb128 n) \<le> 5"
  by (rule length_leb128) simp_all

lemma GetVarint32_leb128: "n < 2 ^ 32 \<Longrightarrow> GetVarint32 (leb128 n @ rest) = Ret (of_nat n) rest"
  using GetVarint32Ptr_group [of "leb128 n" rest] leb128_uint32_length [of n]
  by (simp add: GetVarint32_def)

section \<open>What a parser leaves\<close>

text \<open>A parser only ever moves the start of the input forward.\<close>

definition shortens :: "(slice \<Rightarrow> (slice, 'a) res) \<Rightarrow> bool" where
  "shortens get \<longleftrightarrow> (\<forall>input. case get input of
     Ret v rest \<Rightarrow> length rest < length input \<and> (\<exists>pre. input = pre @ rest)
   | Fail rest \<Rightarrow> \<exists>pre. input = pre @ rest
   | Undef \<Rightarrow> False)"

lemma shortensI:
  assumes "\<And>input v rest. get input = Ret v rest \<Longrightarrow> \<exists>pre. pre \<noteq> [] \<and> input = pre @ rest"
    and "\<And>input rest. get input = Fail rest \<Longrightarrow> \<exists>pre. input = pre @ rest"
    and "\<And>input. get input \<noteq> Undef"
  shows "shortens get"
  unfolding shortens_def
proof (rule allI)
  fix input
  show "case get input of
     Ret v rest \<Rightarrow> length rest < length input \<and> (\<exists>pre. input = pre @ rest)
   | Fail rest \<Rightarrow> \<exists>pre. input = pre @ rest
   | Undef \<Rightarrow> False"
    using assms(1) [of input] assms(2) [of input] assms(3) [of input]
    by (cases "get input") fastforce+
qed

lemma shortens_Ret: "shortens get \<Longrightarrow> get input = Ret v rest \<Longrightarrow> length rest < length input"
  unfolding shortens_def by (drule spec [of _ input]) simp

lemma GetVarint64Loop_suffix:
  "GetVarint64Loop s r p = Some (v, q) \<Longrightarrow> \<exists>pre. pre \<noteq> [] \<and> p = pre @ q"
proof (induction s r p rule: GetVarint64Loop.induct)
  case (1 s r p)
  show ?case
  proof (cases p)
    case Nil
    with "1.prems" show ?thesis by (subst (asm) GetVarint64Loop.simps) (simp split: if_splits)
  next
    case (Cons b p')
    show ?thesis
    proof (cases "63 < s \<or> (ucast b :: uint64) AND 128 = 0")
      case True
      with Cons "1.prems" show ?thesis
        by (subst (asm) GetVarint64Loop.simps) (auto split: if_splits)
    next
      case False
      with "1.prems" have
        "GetVarint64Loop (s + 7) (r OR push_bit s (ucast b AND 127)) p' = Some (v, q)"
        unfolding Cons by (subst (asm) GetVarint64Loop.simps) (simp del: push_bit_and)
      with False "1.IH" [OF _ Cons refl] obtain pre where "p' = pre @ q" by blast
      with Cons show ?thesis by (intro exI [of _ "b # pre"]) simp
    qed
  qed
qed

lemma GetVarint32Fallback_suffix:
  "GetVarint32PtrFallback s r p = Some (v, q) \<Longrightarrow> \<exists>pre. pre \<noteq> [] \<and> p = pre @ q"
proof (induction s r p rule: GetVarint32PtrFallback.induct)
  case (1 s r p)
  show ?case
  proof (cases p)
    case Nil
    with "1.prems" show ?thesis by (subst (asm) GetVarint32PtrFallback.simps) (simp split: if_splits)
  next
    case (Cons b p')
    show ?thesis
    proof (cases "28 < s \<or> (ucast b :: uint32) AND 128 = 0")
      case True
      with Cons "1.prems" show ?thesis
        by (subst (asm) GetVarint32PtrFallback.simps) (auto split: if_splits)
    next
      case False
      with "1.prems" have
        "GetVarint32PtrFallback (s + 7) (r OR push_bit s (ucast b AND 127)) p' = Some (v, q)"
        unfolding Cons by (subst (asm) GetVarint32PtrFallback.simps) (simp del: push_bit_and)
      with False "1.IH" [OF _ Cons refl] obtain pre where "p' = pre @ q" by blast
      with Cons show ?thesis by (intro exI [of _ "b # pre"]) simp
    qed
  qed
qed

lemma GetVarint32Ptr_suffix: "GetVarint32Ptr p = Some (v, q) \<Longrightarrow> \<exists>pre. pre \<noteq> [] \<and> p = pre @ q"
  unfolding GetVarint32Ptr_def Let_def
  by (cases p) (auto dest: GetVarint32Fallback_suffix split: if_splits)

lemma shortens_GetVarint64 [simp]: "shortens GetVarint64"
  by (rule shortensI)
     (auto simp: GetVarint64_def GetVarint64Ptr_def dest: GetVarint64Loop_suffix
       split: option.splits)

lemma shortens_GetVarint32 [simp]: "shortens GetVarint32"
  by (rule shortensI)
     (auto simp: GetVarint32_def dest: GetVarint32Ptr_suffix split: option.splits)

lemma shortens_GetLengthPrefixedSlice [simp]: "shortens GetLengthPrefixedSlice"
proof (rule shortensI)
  fix input v rest
  assume "GetLengthPrefixedSlice input = Ret v rest"
  then obtain len q where "GetVarint32 input = Ret len q" and "rest = drop (unat len) q"
    by (auto simp: GetLengthPrefixedSlice_def rbind_Ret_iff split: if_splits)
  then obtain pre where "pre \<noteq> []" "input = pre @ q"
    by (auto simp: GetVarint32_def split: option.splits dest: GetVarint32Ptr_suffix)
  with \<open>rest = _\<close> show "\<exists>pre. pre \<noteq> [] \<and> input = pre @ rest"
    by (intro exI [of _ "pre @ take (unat len) q"]) simp
next
  fix input rest
  assume "GetLengthPrefixedSlice input = Fail rest"
  then show "\<exists>pre. input = pre @ rest"
    by (auto simp: GetLengthPrefixedSlice_def rbind_Fail_iff GetVarint32_def
        split: option.splits if_splits dest: GetVarint32Ptr_suffix)
next
  fix input show "GetLengthPrefixedSlice input \<noteq> Undef"
    by (auto simp: GetLengthPrefixedSlice_def rbind_Undef_iff GetVarint32_def
        split: option.splits if_splits)
qed

section \<open>The interface of a coder\<close>

fun get_all :: "(slice \<Rightarrow> (slice, 'a) res) \<Rightarrow> nat \<Rightarrow> slice \<Rightarrow> (slice, 'a list) res" where
  "get_all get 0 input = Ret [] input"
| "get_all get (Suc n) input =
     rbind (get input) (\<lambda>v input. rbind (get_all get n input) (\<lambda>vs input. Ret (v # vs) input))"

locale slice_codec =
  fixes put :: "byte list \<Rightarrow> 'a \<Rightarrow> byte list"
    and get :: "slice \<Rightarrow> (slice, 'a) res"
    and fits :: "'a \<Rightarrow> bool"
  assumes put_appends: "put dst v = dst @ put [] v"
    and get_put: "fits v \<Longrightarrow> get (put [] v @ rest) = Ret v rest"
    and get_shortens: "shortens get"
begin

lemma put_foldl: "foldl put dst vs = dst @ concat (map (put []) vs)"
proof (induction vs arbitrary: dst)
  case (Cons v vs)
  show ?case
    by (simp only: foldl.simps Cons.IH list.map concat.simps) (subst put_appends, simp)
qed simp

lemma get_all_put:
  "\<forall>v \<in> set vs. fits v \<Longrightarrow> get_all get (length vs) (foldl put [] vs @ rest) = Ret vs rest"
  unfolding put_foldl by (induction vs) (simp_all add: get_put)

lemma put_not_Nil:
  assumes "fits v"
  shows "put [] v \<noteq> []"
proof -
  have "get (put [] v) = Ret v []" using get_put [OF assms, of "[]"] by simp
  from shortens_Ret [OF get_shortens this] show ?thesis by simp
qed

lemma put_prefix_free:
  assumes "fits v" and "fits w" and "put [] v @ xs = put [] w @ ys"
  shows "v = w \<and> xs = ys"
  using get_put [OF assms(1), of xs] get_put [OF assms(2), of ys] unfolding assms(3)
  by (simp only: res.inject)

end

interpretation varint32: slice_codec PutVarint32 GetVarint32 "\<lambda>_. True"
proof
  fix v :: uint32 and rest
  have "unat v < 2 ^ 32" using unsigned_less [of v, where ?'a = nat] by simp
  then show "GetVarint32 (PutVarint32 [] v @ rest) = Ret v rest"
    by (simp add: PutVarint32_def EncodeVarint32_leb128 GetVarint32_leb128)
qed (simp_all add: PutVarint32_def)

interpretation varint64: slice_codec PutVarint64 GetVarint64 "\<lambda>_. True"
proof
  fix v :: uint64 and rest
  have "unat v < 2 ^ 64" using unsigned_less [of v, where ?'a = nat] by simp
  then show "GetVarint64 (PutVarint64 [] v @ rest) = Ret v rest"
    by (simp add: PutVarint64_def EncodeVarint64_leb128 GetVarint64_leb128)
qed (simp_all add: PutVarint64_def)

interpretation lp_slice: slice_codec PutLengthPrefixedSlice GetLengthPrefixedSlice
  "\<lambda>s. length s < 2 ^ 32"
proof
  fix v :: slice and rest
  assume fits: "length v < 2 ^ 32"
  have "GetVarint32 (PutVarint32 [] (of_nat (length v)) @ v @ rest) = Ret (of_nat (length v)) (v @ rest)"
    by (rule varint32.get_put) simp
  with fits show "GetLengthPrefixedSlice (PutLengthPrefixedSlice [] v @ rest) = Ret v rest"
    by (simp add: GetLengthPrefixedSlice_def PutLengthPrefixedSlice_def unat_of_nat)
qed (simp_all add: PutLengthPrefixedSlice_def PutVarint32_def)

lemmas get_put_simps [ldb_codec] =
  varint32.get_put [OF TrueI] varint64.get_put [OF TrueI] lp_slice.get_put

lemma DecodeFixed32_Encode [ldb_codec]: "DecodeFixed32 (EncodeFixed32 v @ rest) = v"
  by (simp add: DecodeFixed32_def EncodeFixed32_def le_word_le_bytes take_bit_word_eq_self)

lemma DecodeFixed64_Encode [ldb_codec]: "DecodeFixed64 (EncodeFixed64 v @ rest) = v"
  by (simp add: DecodeFixed64_def EncodeFixed64_def le_word_le_bytes take_bit_word_eq_self)

lemma bit_le_word: "bit (le_word bs :: 'a::len word) i \<Longrightarrow> i < 8 * length bs"
proof (induction bs arbitrary: i)
  case (Cons b bs)
  then consider "bit (ucast b :: 'a word) i" | "8 \<le> i" "bit (le_word bs :: 'a word) (i - 8)"
    by (auto simp: bit_simps)
  then show ?case
  proof cases
    case 1
    then have "bit b i" by (simp add: bit_simps)
    from bit_imp_le_length [OF this] show ?thesis by simp
  next
    case 2
    then show ?thesis using Cons.IH [OF 2(2)] by simp
  qed
qed simp

lemma le_bytes_le_word:
  "length bs = n \<Longrightarrow> 8 * n \<le> LENGTH('a) \<Longrightarrow> le_bytes n (le_word bs :: 'a::len word) = bs"
proof (induction bs arbitrary: n)
  case (Cons b bs)
  then obtain k where k: "n = Suc k" "length bs = k" by auto
  define w where "w = (le_word bs :: 'a word)"
  have w: "i < 8 * k" if "bit w i" for i using bit_le_word that k(2) by (auto simp: w_def)
  have "drop_bit 8 (ucast b OR push_bit 8 w) = w"
  proof (rule bit_word_eqI)
    fix i assume "i < LENGTH('a)"
    have "\<not> bit b (8 + i)" using bit_imp_le_length [of b "8 + i"] by auto
    then show "bit (drop_bit 8 (ucast b OR push_bit 8 w)) i \<longleftrightarrow> bit w i"
      using w [of i] Cons.prems(2) k by (auto simp: bit_simps)
  qed
  moreover have "ucast (ucast b OR push_bit 8 w) = b"
    by (rule bit_word_eqI) (use Cons.prems(2) k in \<open>auto simp: bit_simps\<close>)
  ultimately show ?case using Cons.IH [OF k(2)] Cons.prems(2) k(1) by (simp add: w_def)
qed simp

lemma length_EncodeFixed [simp]:
  "length (EncodeFixed32 v) = 4" "length (EncodeFixed64 w) = 8"
  by (simp_all add: EncodeFixed32_def EncodeFixed64_def)

text \<open>Concatenations, and arrays of fixed-width numbers.\<close>

lemma drop_concat_take: "drop (length (concat (take i xs))) (concat xs) = concat (drop i xs)"
proof -
  have "concat xs = concat (take i xs) @ concat (drop i xs)"
    by (simp flip: concat_append)
  then show ?thesis by simp
qed

lemma concat_slice:
  assumes "i < length xs"
  shows "take (length (concat (take (Suc i) xs)) - length (concat (take i xs)))
           (drop (length (concat (take i xs))) (concat xs)) = xs ! i"
  using assms by (simp add: drop_concat_take take_Suc_conv_app_nth flip: Cons_nth_drop_Suc)

lemma DecodeFixed32_array:
  "j < length rs \<Longrightarrow> DecodeFixed32 (drop (j * 4) (concat (map EncodeFixed32 rs) @ z)) = rs ! j"
proof (induction rs arbitrary: j)
  case (Cons r rs)
  then show ?case by (cases j) (simp_all add: DecodeFixed32_Encode)
qed simp

end
