(* ===== verification/Ldb_Keys.thy ===== *)
theory Ldb_Keys
  imports Ldb_Codec
begin

text \<open>
  LevelDB: comparison of slices (\<open>include/leveldb/slice.h\<close>), the bytewise comparator
  (\<open>util/comparator.cc\<close>), and internal keys with their comparator (\<open>db/dbformat.h\<close>,
  \<open>db/dbformat.cc\<close>). A \<open>Comparator\<close> object is a record of its virtual functions; a function that
  updates its \<open>std::string *\<close> argument returns the new string.
\<close>

section \<open>Slices\<close>

text \<open>\<open>memcmp\<close> compares bytes as unsigned numbers; only the sign of its result is specified.\<close>

fun memcmp :: "nat \<Rightarrow> byte list \<Rightarrow> byte list \<Rightarrow> int" where
  "memcmp (Suc n) (x # xs) (y # ys) =
     (if x < y then - 1 else if y < x then 1 else memcmp n xs ys)"
| "memcmp _ _ _ = 0"

definition slice_compare :: "slice \<Rightarrow> slice \<Rightarrow> int" where
  "slice_compare a b =
     (let min_len = (if length a < length b then length a else length b);
          r = memcmp min_len a b
      in if r = 0 then (if length a < length b then - 1 else if length a > length b then 1 else r)
         else r)"

section \<open>Comparators\<close>

record Comparator =
  Name :: string
  Compare :: "slice \<Rightarrow> slice \<Rightarrow> int"
  FindShortestSeparator :: "slice \<Rightarrow> slice \<Rightarrow> slice"
  FindShortSuccessor :: "slice \<Rightarrow> slice"

text \<open>The loop that counts the bytes two strings share from their start.\<close>

fun shared_prefix :: "byte list \<Rightarrow> byte list \<Rightarrow> nat" where
  "shared_prefix (x # xs) (y # ys) = (if x = y then Suc (shared_prefix xs ys) else 0)"
| "shared_prefix _ _ = 0"

definition bytewise_separator :: "slice \<Rightarrow> slice \<Rightarrow> slice" where
  "bytewise_separator start limit =
     (let min_length = min (length start) (length limit);
          diff_index = shared_prefix start limit
      in if min_length \<le> diff_index then start
         else (let diff_byte = start ! diff_index
               in if diff_byte < 0xff \<and> unat diff_byte + 1 < unat (limit ! diff_index)
                  then take diff_index start @ [diff_byte + 1]
                  else start))"

text \<open>\<open>for (i = 0; i < n; i++)\<close> over the bytes of the key.\<close>

fun bytewise_successor :: "slice \<Rightarrow> slice" where
  "bytewise_successor [] = []"
| "bytewise_successor (b # bs) = (if b \<noteq> 0xff then [b + 1] else b # bytewise_successor bs)"

definition BytewiseComparator :: Comparator where
  "BytewiseComparator =
     \<lparr>Name = ''leveldb.BytewiseComparator'', Compare = slice_compare,
      FindShortestSeparator = bytewise_separator, FindShortSuccessor = bytewise_successor\<rparr>"

section \<open>Internal keys\<close>

definition kNumLevels :: nat where "kNumLevels = 7"

datatype ValueType = kTypeDeletion | kTypeValue

fun ValueType_code :: "ValueType \<Rightarrow> nat" where
  "ValueType_code kTypeDeletion = 0x0"
| "ValueType_code kTypeValue = 0x1"

definition kValueTypeForSeek :: ValueType where
  "kValueTypeForSeek = kTypeValue"

type_synonym SequenceNumber = uint64

definition kMaxSequenceNumber :: SequenceNumber where
  "kMaxSequenceNumber = push_bit 56 1 - 1"

record ParsedInternalKey =
  user_key :: slice
  sequence :: SequenceNumber
  type :: ValueType

definition PackSequenceAndType :: "uint64 \<Rightarrow> ValueType \<Rightarrow> uint64" where
  "PackSequenceAndType seq t = push_bit 8 seq OR of_nat (ValueType_code t)"

definition AppendInternalKey :: "byte list \<Rightarrow> ParsedInternalKey \<Rightarrow> byte list" where
  "AppendInternalKey result key =
     PutFixed64 (result @ user_key key) (PackSequenceAndType (sequence key) (type key))"

definition InternalKeyEncodingLength :: "ParsedInternalKey \<Rightarrow> nat" where
  "InternalKeyEncodingLength key = length (user_key key) + 8"

text \<open>A result of false leaves the parsed key undefined.\<close>

definition ParseInternalKey :: "slice \<Rightarrow> ParsedInternalKey option" where
  "ParseInternalKey internal_key =
     (let n = length internal_key
      in if n < 8 then None
         else (let num = DecodeFixed64 (drop (n - 8) internal_key); c = ucast num :: byte
               in if c \<le> 1
                  then Some \<lparr>user_key = take (n - 8) internal_key, sequence = drop_bit 8 num,
                             type = (if c = 0 then kTypeDeletion else kTypeValue)\<rparr>
                  else None))"

definition ExtractUserKey :: "slice \<Rightarrow> slice" where
  "ExtractUserKey internal_key = take (length internal_key - 8) internal_key"

text \<open>\<open>DecodeFixed64(key.data() + key.size() - 8)\<close>\<close>

definition key_tag :: "slice \<Rightarrow> uint64" where
  "key_tag key = DecodeFixed64 (drop (length key - 8) key)"

definition internal_compare :: "Comparator \<Rightarrow> slice \<Rightarrow> slice \<Rightarrow> int" where
  "internal_compare user akey bkey =
     (let r = Compare user (ExtractUserKey akey) (ExtractUserKey bkey)
      in if r = 0
         then (let anum = key_tag akey; bnum = key_tag bkey
               in if anum > bnum then - 1 else if anum < bnum then 1 else r)
         else r)"

definition internal_separator :: "Comparator \<Rightarrow> slice \<Rightarrow> slice \<Rightarrow> slice" where
  "internal_separator user start limit =
     (let user_start = ExtractUserKey start; user_limit = ExtractUserKey limit;
          tmp = FindShortestSeparator user user_start user_limit
      in if length tmp < length user_start \<and> Compare user user_start tmp < 0
         then PutFixed64 tmp (PackSequenceAndType kMaxSequenceNumber kValueTypeForSeek)
         else start)"

definition internal_successor :: "Comparator \<Rightarrow> slice \<Rightarrow> slice" where
  "internal_successor user key =
     (let ukey = ExtractUserKey key; tmp = FindShortSuccessor user ukey
      in if length tmp < length ukey \<and> Compare user ukey tmp < 0
         then PutFixed64 tmp (PackSequenceAndType kMaxSequenceNumber kValueTypeForSeek)
         else key)"

definition InternalKeyComparator :: "Comparator \<Rightarrow> Comparator" where
  "InternalKeyComparator user =
     \<lparr>Name = ''leveldb.InternalKeyComparator'', Compare = internal_compare user,
      FindShortestSeparator = internal_separator user,
      FindShortSuccessor = internal_successor user\<rparr>"

text \<open>\<open>LookupKey\<close>: the bytes from \<open>start_\<close> to \<open>end_\<close>, and the offset of \<open>kstart_\<close>.\<close>

record LookupKey =
  lookup_space :: "byte list"
  lookup_kstart :: nat

definition make_LookupKey :: "slice \<Rightarrow> SequenceNumber \<Rightarrow> LookupKey" where
  "make_LookupKey ukey s =
     (let len = EncodeVarint32 (of_nat (length ukey + 8))
      in \<lparr>lookup_space = len @ ukey @ EncodeFixed64 (PackSequenceAndType s kValueTypeForSeek),
          lookup_kstart = length len\<rparr>)"

definition memtable_key :: "LookupKey \<Rightarrow> slice" where
  "memtable_key k = lookup_space k"

definition internal_key :: "LookupKey \<Rightarrow> slice" where
  "internal_key k = drop (lookup_kstart k) (lookup_space k)"

definition lookup_user_key :: "LookupKey \<Rightarrow> slice" where
  "lookup_user_key k =
     take (length (lookup_space k) - lookup_kstart k - 8)
       (drop (lookup_kstart k) (lookup_space k))"

end
