(* ===== verification/Ldb_Order.thy ===== *)
theory Ldb_Order
  imports Ldb_Keys
begin

text \<open>
  The contract of a comparator: on the valid keys a strict total order, separators between two
  keys, successors of a key. The bytewise comparator meets it, and the comparator of internal keys
  meets it whenever the user's comparator does.
\<close>

section \<open>Total orders given by a three-way comparison\<close>

locale key_preorder =
  fixes cmp :: "'k \<Rightarrow> 'k \<Rightarrow> int" and valid :: "'k \<Rightarrow> bool"
  assumes cmp_flip: "valid a \<Longrightarrow> valid b \<Longrightarrow> cmp a b < 0 \<longleftrightarrow> 0 < cmp b a"
    and cmp_trans: "valid a \<Longrightarrow> valid b \<Longrightarrow> valid c \<Longrightarrow> cmp a b < 0 \<Longrightarrow> cmp b c < 0 \<Longrightarrow> cmp a c < 0"
begin

lemma cmp_asym: "valid a \<Longrightarrow> valid b \<Longrightarrow> cmp a b < 0 \<Longrightarrow> \<not> cmp b a < 0"
  using cmp_flip by force

lemma cmp_irrefl: "valid a \<Longrightarrow> \<not> cmp a a < 0"
  using cmp_flip by force

text \<open>A list of valid keys in strictly increasing order.\<close>

definition increasing :: "'k list \<Rightarrow> bool" where
  "increasing ks \<longleftrightarrow> (\<forall>k \<in> set ks. valid k) \<and> sorted_wrt (\<lambda>a b. cmp a b < 0) ks"

lemma increasing_distinct: "increasing ks \<Longrightarrow> distinct ks"
  unfolding increasing_def
proof (induction ks)
  case (Cons k ks)
  then have "k \<notin> set ks" using cmp_irrefl [of k] by fastforce
  with Cons show ?case by simp
qed simp

text \<open>The keys below a bound come first.\<close>

lemma increasing_split:
  assumes "increasing ks" and "valid t"
  shows "filter (\<lambda>k. cmp k t < 0) ks = takeWhile (\<lambda>k. cmp k t < 0) ks"
  using assms(1) unfolding increasing_def
proof (induction ks)
  case (Cons k ks)
  have "\<not> cmp j t < 0" if "\<not> cmp k t < 0" "j \<in> set ks" for j
    using Cons.prems that cmp_trans [of k j t] assms(2) by auto
  with Cons show ?case by (auto simp: filter_empty_conv)
qed simp

text \<open>Inserting a new key at the place of the first key that is not below it.\<close>

definition insert_key :: "'k \<Rightarrow> 'k list \<Rightarrow> 'k list" where
  "insert_key t ks = takeWhile (\<lambda>k. cmp k t < 0) ks @ t # dropWhile (\<lambda>k. cmp k t < 0) ks"

lemma set_insert_key: "set (insert_key t ks) = insert t (set ks)"
proof -
  have "set ks = set (takeWhile (\<lambda>k. cmp k t < 0) ks) \<union> set (dropWhile (\<lambda>k. cmp k t < 0) ks)"
    by (simp flip: set_append)
  then show ?thesis unfolding insert_key_def by simp
qed

lemma increasing_insert_key:
  assumes "increasing ks" and "valid t" and "\<forall>k \<in> set ks. cmp k t \<noteq> 0"
  shows "increasing (insert_key t ks)"
proof -
  define us vs where "us = takeWhile (\<lambda>k. cmp k t < 0) ks" and "vs = dropWhile (\<lambda>k. cmp k t < 0) ks"
  have ks: "ks = us @ vs" by (simp add: us_def vs_def)
  have us: "cmp u t < 0" if "u \<in> set us" for u using that set_takeWhileD by (fastforce simp: us_def)
  have vs: "cmp t v < 0" if "v \<in> set vs" for v
  proof -
    have "v \<in> set ks" using that by (simp add: ks)
    then have v: "valid v" "cmp v t \<noteq> 0" using assms by (auto simp: increasing_def)
    have "v \<notin> set us" using increasing_distinct [OF assms(1)] that by (auto simp: ks)
    then have "\<not> cmp v t < 0"
      using increasing_split [OF assms(1,2), folded us_def] \<open>v \<in> set ks\<close> by auto
    with v assms(2) cmp_flip [of t v] show ?thesis by linarith
  qed
  show ?thesis
    unfolding insert_key_def us_def [symmetric] vs_def [symmetric]
    using assms us vs unfolding increasing_def ks by (auto simp: sorted_wrt_append)
qed

end

locale key_order = key_preorder cmp valid for cmp :: "'k \<Rightarrow> 'k \<Rightarrow> int" and valid :: "'k \<Rightarrow> bool" +
  assumes cmp_eq: "valid a \<Longrightarrow> valid b \<Longrightarrow> cmp a b = 0 \<longleftrightarrow> a = b"
begin

lemma cmp_refl: "valid a \<Longrightarrow> cmp a a = 0"
  by (simp add: cmp_eq)

lemma cmp_not_less: "valid a \<Longrightarrow> valid b \<Longrightarrow> \<not> cmp a b < 0 \<longleftrightarrow> cmp b a \<le> 0"
  using cmp_flip [of b a] cmp_flip [of a b] cmp_eq [of a b] cmp_eq [of b a] by auto

lemma cmp_total: "valid a \<Longrightarrow> valid b \<Longrightarrow> cmp a b < 0 \<or> a = b \<or> cmp b a < 0"
  using cmp_not_less [of a b] cmp_eq [of b a] by fastforce

lemma cmp_le_less_trans:
  "valid a \<Longrightarrow> valid b \<Longrightarrow> valid c \<Longrightarrow> cmp a b \<le> 0 \<Longrightarrow> cmp b c < 0 \<Longrightarrow> cmp a c < 0"
  using cmp_trans [of a b c] cmp_eq [of a b] by (cases "cmp a b = 0") auto

lemma cmp_less_le_trans:
  "valid a \<Longrightarrow> valid b \<Longrightarrow> valid c \<Longrightarrow> cmp a b < 0 \<Longrightarrow> cmp b c \<le> 0 \<Longrightarrow> cmp a c < 0"
  using cmp_trans [of a b c] cmp_eq [of b c] by (cases "cmp b c = 0") auto

end

locale comparator = key_order "Compare c" valid for c :: Comparator and valid :: "slice \<Rightarrow> bool" +
  assumes separator:
      "valid start \<Longrightarrow> valid limit \<Longrightarrow> Compare c start limit < 0 \<Longrightarrow>
       valid (FindShortestSeparator c start limit)
       \<and> Compare c start (FindShortestSeparator c start limit) \<le> 0
       \<and> Compare c (FindShortestSeparator c start limit) limit < 0"
    and separator_keeps:
      "valid start \<Longrightarrow> valid limit \<Longrightarrow> \<not> Compare c start limit < 0 \<Longrightarrow>
       FindShortestSeparator c start limit = start"
    and successor:
      "valid key \<Longrightarrow> valid (FindShortSuccessor c key) \<and> Compare c key (FindShortSuccessor c key) \<le> 0"

section \<open>The bytewise comparator\<close>

lemma slice_compare_simps [simp]:
  "slice_compare [] b = (if b = [] then 0 else - 1)"
  "slice_compare a [] = (if a = [] then 0 else 1)"
  "slice_compare (x # xs) (y # ys) =
     (if x < y then - 1 else if y < x then 1 else slice_compare xs ys)"
  by (simp_all add: slice_compare_def Let_def)

lemma slice_compare_eq: "slice_compare a b = 0 \<longleftrightarrow> a = b"
  by (induction a b rule: shared_prefix.induct) auto

lemma slice_compare_refl [simp]: "slice_compare a a = 0"
  by (simp add: slice_compare_eq)

lemma slice_compare_flip: "slice_compare a b < 0 \<longleftrightarrow> 0 < slice_compare b a"
  by (induction a b rule: shared_prefix.induct) auto

lemma slice_compare_trans:
  "slice_compare a b < 0 \<Longrightarrow> slice_compare b c < 0 \<Longrightarrow> slice_compare a c < 0"
proof (induction a b arbitrary: c rule: shared_prefix.induct, goal_cases)
  case (1 x xs y ys c)
  then show ?case by (cases c) (auto split: if_splits)
next
  case 2
  then show ?case by (auto split: if_splits)
next
  case 3
  then show ?case by (auto split: if_splits)
qed

lemma shared_prefix_le: "shared_prefix a b \<le> length a" "shared_prefix a b \<le> length b"
  by (induction a b rule: shared_prefix.induct) auto

lemma shared_prefix_take: "take (shared_prefix a b) a = take (shared_prefix a b) b"
  by (induction a b rule: shared_prefix.induct) auto

lemma slice_compare_prefix:
  "slice_compare (p @ a) (p @ b) = slice_compare a b"
  by (induction p) auto

lemma byte_incr:
  assumes "(b :: byte) \<noteq> 0xff"
  shows "unat (b + 1) = unat b + 1"
proof -
  have "unat b < 256" using unsigned_less [of b, where ?'a = nat] by simp
  moreover have "unat b \<noteq> 255" using assms by (simp add: word_unat_eq_iff)
  ultimately have "unat (of_nat (unat b + 1) :: byte) = unat b + 1"
    by (intro unat_of_nat_byte) linarith
  then show ?thesis by (simp add: add.commute)
qed

lemma bytewise_separator_bounds:
  assumes "slice_compare start limit < 0"
  shows "slice_compare start (bytewise_separator start limit) \<le> 0
         \<and> slice_compare (bytewise_separator start limit) limit < 0"
proof -
  let ?d = "shared_prefix start limit"
  show ?thesis
  proof (cases "?d < length start \<and> ?d < length limit \<and> start ! ?d < 0xff
                \<and> unat (start ! ?d) + 1 < unat (limit ! ?d)")
    case True
    define p where "p = take ?d start"
    have s: "start = p @ start ! ?d # drop (Suc ?d) start"
      using True id_take_nth_drop [of ?d start] by (simp add: p_def)
    have l: "limit = p @ limit ! ?d # drop (Suc ?d) limit"
      using True id_take_nth_drop [of ?d limit] by (simp add: p_def shared_prefix_take)
    have r: "bytewise_separator start limit = p @ [start ! ?d + 1]"
      using True by (auto simp: bytewise_separator_def Let_def p_def)
    have "start ! ?d < start ! ?d + 1" "start ! ?d + 1 < limit ! ?d"
      using True byte_incr [of "start ! ?d"] unfolding word_less_nat_alt by force+
    then have
      "slice_compare (p @ start ! ?d # drop (Suc ?d) start) (p @ [start ! ?d + 1]) \<le> 0"
      "slice_compare (p @ [start ! ?d + 1]) (p @ limit ! ?d # drop (Suc ?d) limit) < 0"
      by (simp_all add: slice_compare_prefix)
    then show ?thesis unfolding r s [symmetric] l [symmetric] by blast
  next
    case False
    then have "bytewise_separator start limit = start"
      by (auto simp: bytewise_separator_def Let_def)
    with assms show ?thesis by (simp add: slice_compare_eq)
  qed
qed

lemma shared_prefix_differs:
  "shared_prefix a b < length a \<Longrightarrow> shared_prefix a b < length b \<Longrightarrow>
   a ! shared_prefix a b \<noteq> b ! shared_prefix a b
   \<and> (slice_compare a b < 0 \<longleftrightarrow> a ! shared_prefix a b < b ! shared_prefix a b)"
  by (induction a b rule: shared_prefix.induct) (auto simp: nth_Cons' split: if_splits)

lemma bytewise_separator_keeps:
  assumes "\<not> slice_compare start limit < 0"
  shows "bytewise_separator start limit = start"
proof -
  have "\<not> unat (start ! shared_prefix start limit) + 1 < unat (limit ! shared_prefix start limit)"
    if "shared_prefix start limit < length start" "shared_prefix start limit < length limit"
    using shared_prefix_differs [OF that] assms by (auto simp: word_less_nat_alt)
  then show ?thesis by (auto simp: bytewise_separator_def Let_def)
qed

lemma bytewise_successor_ge: "slice_compare key (bytewise_successor key) \<le> 0"
proof (induction key)
  case (Cons b bs)
  have "b < b + 1" if "b \<noteq> 0xff"
    using byte_incr [OF that] by (simp add: word_less_nat_alt)
  with Cons show ?case by auto
qed simp

interpretation bytewise: comparator BytewiseComparator "\<lambda>_. True"
proof
  fix a b c :: slice
  show "Compare BytewiseComparator a b < 0 \<Longrightarrow> Compare BytewiseComparator b c < 0 \<Longrightarrow>
        Compare BytewiseComparator a c < 0"
    by (simp add: BytewiseComparator_def) (rule slice_compare_trans)
  show "Compare BytewiseComparator a b < 0 \<longleftrightarrow> 0 < Compare BytewiseComparator b a"
    by (simp add: BytewiseComparator_def) (rule slice_compare_flip)
qed (simp_all add: BytewiseComparator_def slice_compare_eq bytewise_separator_bounds
       bytewise_separator_keeps bytewise_successor_ge)

section \<open>The comparator of internal keys\<close>

definition valid_ikey :: "(slice \<Rightarrow> bool) \<Rightarrow> slice \<Rightarrow> bool" where
  "valid_ikey valid k \<longleftrightarrow> 8 \<le> length k \<and> valid (ExtractUserKey k)"

lemma ikey_parts:
  assumes "8 \<le> length k"
  shows "k = ExtractUserKey k @ EncodeFixed64 (key_tag k)"
proof -
  have "length (drop (length k - 8) k) = 8" using assms by simp
  then have "EncodeFixed64 (key_tag k) = drop (length k - 8) k"
    by (simp add: EncodeFixed64_def key_tag_def DecodeFixed64_def le_bytes_le_word)
  then show ?thesis by (simp add: ExtractUserKey_def)
qed

lemma ikey_eq:
  "8 \<le> length a \<Longrightarrow> 8 \<le> length b \<Longrightarrow>
   a = b \<longleftrightarrow> ExtractUserKey a = ExtractUserKey b \<and> key_tag a = key_tag b"
  by (metis ikey_parts)

lemma ikey_of [simp]:
  "ExtractUserKey (u @ EncodeFixed64 t) = u" "key_tag (u @ EncodeFixed64 t) = t"
  "ExtractUserKey (PutFixed64 u t) = u" "key_tag (PutFixed64 u t) = t"
  using DecodeFixed64_Encode [of t "[]"]
  by (simp_all add: ExtractUserKey_def key_tag_def PutFixed64_def)

lemma internal_compare_less:
  "internal_compare user a b < 0 \<longleftrightarrow>
   Compare user (ExtractUserKey a) (ExtractUserKey b) < 0
   \<or> Compare user (ExtractUserKey a) (ExtractUserKey b) = 0 \<and> key_tag b < key_tag a"
  by (auto simp: internal_compare_def Let_def)

context comparator
begin

lemma valid_ikeyD: "valid_ikey valid k \<Longrightarrow> 8 \<le> length k \<and> valid (ExtractUserKey k)"
  by (simp add: valid_ikey_def)

lemma internal_order: "key_order (internal_compare c) (valid_ikey valid)"
proof
  fix a b d
  assume a: "valid_ikey valid a" and b: "valid_ikey valid b"
  note ab = valid_ikeyD [OF a] valid_ikeyD [OF b]
  have "internal_compare c a b = 0 \<longleftrightarrow>
        Compare c (ExtractUserKey a) (ExtractUserKey b) = 0 \<and> key_tag a = key_tag b"
    by (auto simp: internal_compare_def Let_def)
  also have "\<dots> \<longleftrightarrow> a = b" using ab by (simp add: cmp_eq ikey_eq)
  finally show "internal_compare c a b = 0 \<longleftrightarrow> a = b" .
  have "0 < internal_compare c b a \<longleftrightarrow>
        0 < Compare c (ExtractUserKey b) (ExtractUserKey a)
        \<or> Compare c (ExtractUserKey b) (ExtractUserKey a) = 0 \<and> key_tag b < key_tag a"
    by (auto simp: internal_compare_def Let_def)
  then show "internal_compare c a b < 0 \<longleftrightarrow> 0 < internal_compare c b a"
    using ab by (auto simp: internal_compare_less cmp_flip cmp_eq)
  assume "valid_ikey valid d"
  note d = valid_ikeyD [OF this]
  assume "internal_compare c a b < 0" "internal_compare c b d < 0"
  then show "internal_compare c a d < 0"
    using ab d cmp_trans [of "ExtractUserKey a" "ExtractUserKey b" "ExtractUserKey d"]
    by (auto simp: internal_compare_less cmp_eq)
qed

lemma internal_separator_bounds:
  assumes s: "valid_ikey valid start" and l: "valid_ikey valid limit"
    and less: "internal_compare c start limit < 0"
  shows "valid_ikey valid (internal_separator c start limit)
    \<and> internal_compare c start (internal_separator c start limit) \<le> 0
    \<and> internal_compare c (internal_separator c start limit) limit < 0"
proof -
  let ?us = "ExtractUserKey start" and ?ul = "ExtractUserKey limit"
  let ?tmp = "FindShortestSeparator c ?us ?ul"
  show ?thesis
  proof (cases "length ?tmp < length ?us \<and> Compare c ?us ?tmp < 0")
    case True
    then have "?tmp \<noteq> ?us" by auto
    then have lt: "Compare c ?us ?ul < 0"
      using separator_keeps [of ?us ?ul] s l by (auto simp: valid_ikey_def)
    then have "valid ?tmp" "Compare c ?tmp ?ul < 0"
      using separator [of ?us ?ul] s l by (auto simp: valid_ikey_def)
    with True show ?thesis
      by (simp add: internal_separator_def Let_def internal_compare_less valid_ikey_def PutFixed64_def)
         (auto simp: internal_compare_def)
  next
    case False
    then have "internal_separator c start limit = start"
      by (auto simp: internal_separator_def Let_def)
    with assms show ?thesis by (simp add: key_order.cmp_refl [OF internal_order])
  qed
qed

lemma internal_separator_keeps:
  assumes s: "valid_ikey valid start" and l: "valid_ikey valid limit"
    and less: "\<not> internal_compare c start limit < 0"
  shows "internal_separator c start limit = start"
proof -
  have "\<not> Compare c (ExtractUserKey start) (ExtractUserKey limit) < 0"
    using less by (auto simp: internal_compare_less)
  then have "FindShortestSeparator c (ExtractUserKey start) (ExtractUserKey limit) = ExtractUserKey start"
    using separator_keeps s l by (simp add: valid_ikey_def)
  then show ?thesis by (simp add: internal_separator_def Let_def)
qed

lemma internal_successor_bound:
  assumes "valid_ikey valid key"
  shows "valid_ikey valid (internal_successor c key)
    \<and> internal_compare c key (internal_successor c key) \<le> 0"
proof -
  let ?u = "ExtractUserKey key"
  have "valid (FindShortSuccessor c ?u)" using successor assms by (auto simp: valid_ikey_def)
  then show ?thesis
    using assms key_order.cmp_refl [OF internal_order assms]
    by (auto simp: internal_successor_def Let_def valid_ikey_def internal_compare_def PutFixed64_def)
qed

theorem internal_comparator: "comparator (InternalKeyComparator c) (valid_ikey valid)"
proof -
  have "key_order (Compare (InternalKeyComparator c)) (valid_ikey valid)"
    using internal_order by (simp add: InternalKeyComparator_def)
  then show ?thesis
    by (intro comparator.intro comparator_axioms.intro)
       (simp_all add: InternalKeyComparator_def internal_separator_bounds internal_separator_keeps
          internal_successor_bound)
qed

end

interpretation internal_bytewise:
  comparator "InternalKeyComparator BytewiseComparator" "valid_ikey (\<lambda>_. True)"
  by (rule bytewise.internal_comparator)

section \<open>Packed sequence numbers\<close>

lemma pack_word:
  assumes "seq \<le> kMaxSequenceNumber"
  shows "unat (PackSequenceAndType seq t) = 256 * unat seq + ValueType_code t"
proof -
  have t: "ValueType_code t < 2" by (cases t) simp_all
  have "unat seq \<le> unat kMaxSequenceNumber" using assms by (simp add: word_le_nat_alt)
  also have "unat kMaxSequenceNumber = 2 ^ 56 - 1"
    by (simp add: kMaxSequenceNumber_def push_bit_eq_mult)
  finally have seq: "unat seq < 2 ^ 56" by simp
  have "PackSequenceAndType seq t = of_nat (ValueType_code t) OR push_bit 8 (of_nat (unat seq))"
    by (simp add: PackSequenceAndType_def or.commute)
  also have "\<dots> = of_nat (ValueType_code t + 2 ^ 8 * unat seq)"
    by (rule or_push_bit_of_nat) (use t in simp)
  finally show ?thesis using seq t by (simp add: unat_of_nat del: of_nat_add of_nat_mult)
qed

lemma key_parts [simp]:
  "ExtractUserKey (AppendInternalKey [] k) = user_key k"
  "key_tag (AppendInternalKey [] k) = PackSequenceAndType (sequence k) (type k)"
  "length (AppendInternalKey [] k) = length (user_key k) + 8"
  by (simp_all add: AppendInternalKey_def, simp add: PutFixed64_def)

lemma ParseInternalKey_tag:
  "8 \<le> length k \<Longrightarrow> ParseInternalKey k =
   (if (ucast (key_tag k) :: byte) \<le> 1
    then Some \<lparr>user_key = ExtractUserKey k, sequence = drop_bit 8 (key_tag k),
               type = (if (ucast (key_tag k) :: byte) = 0 then kTypeDeletion else kTypeValue)\<rparr>
    else None)"
  by (simp add: ParseInternalKey_def key_tag_def ExtractUserKey_def Let_def)

lemma ParseInternalKey_Append:
  assumes "sequence k \<le> kMaxSequenceNumber"
  shows "ParseInternalKey (AppendInternalKey [] k) = Some k"
proof -
  let ?t = "PackSequenceAndType (sequence k) (type k)"
  note u = pack_word [OF assms, of "type k"]
  have t: "ValueType_code (type k) < 2" by (cases "type k") simp_all
  have "(ucast ?t :: byte) = of_nat (unat ?t)" by simp
  also have "\<dots> = of_nat (256 * unat (sequence k)) + of_nat (ValueType_code (type k))"
    unfolding u by simp
  also have "(of_nat (256 * unat (sequence k)) :: byte) = 0"
  proof -
    have "(256 :: byte) = 0" by simp
    then show ?thesis by (simp only: of_nat_mult of_nat_numeral mult_zero_left)
  qed
  finally have c: "(ucast ?t :: byte) = of_nat (ValueType_code (type k))" by simp
  have "unat (drop_bit 8 ?t) = unat (sequence k)"
    unfolding unat_drop_bit u using t by simp
  then have "drop_bit 8 ?t = sequence k" by (simp add: word_unat_eq_iff)
  with c show ?thesis by (cases k; cases "type k") (simp_all add: ParseInternalKey_tag)
qed

section \<open>Properties\<close>

text \<open>Internal keys that \<open>AppendInternalKey\<close> writes are parsed back by
  \<open>ParseInternalKey\<close>, and \<open>InternalKeyComparator\<close> orders them by increasing user key, then by
  decreasing sequence number, then by decreasing type, although it compares the packed tags as
  numbers.\<close>

theorem internal_key_order:
  assumes "sequence a \<le> kMaxSequenceNumber" and "sequence b \<le> kMaxSequenceNumber"
  shows "ParseInternalKey (AppendInternalKey [] a) = Some a
    \<and> (Compare (InternalKeyComparator BytewiseComparator) (AppendInternalKey [] a) (AppendInternalKey [] b) < 0
      \<longleftrightarrow> Compare BytewiseComparator (user_key a) (user_key b) < 0
        \<or> user_key a = user_key b
          \<and> (sequence b < sequence a
             \<or> sequence a = sequence b \<and> ValueType_code (type b) < ValueType_code (type a)))"
proof -
  have t: "ValueType_code (type a) < 2" "ValueType_code (type b) < 2"
    by (cases "type a"; cases "type b"; simp)+
  have "PackSequenceAndType (sequence b) (type b) < PackSequenceAndType (sequence a) (type a)
    \<longleftrightarrow> sequence b < sequence a
       \<or> sequence a = sequence b \<and> ValueType_code (type b) < ValueType_code (type a)"
    using t unfolding word_less_nat_alt pack_word [OF assms(1)] pack_word [OF assms(2)] word_unat_eq_iff
    by auto
  moreover have "Compare BytewiseComparator u v = 0 \<longleftrightarrow> u = v" for u v
    by (simp add: bytewise.cmp_eq)
  ultimately show ?thesis
    using ParseInternalKey_Append [OF assms(1)]
    by (simp add: InternalKeyComparator_def internal_compare_less)
qed

theorem internal_key_order_witness:
  "ParseInternalKey (AppendInternalKey [] \<lparr>user_key = [107], sequence = 9, type = kTypeValue\<rparr>)
     = Some \<lparr>user_key = [107], sequence = 9, type = kTypeValue\<rparr>
   \<and> Compare (InternalKeyComparator BytewiseComparator)
       (AppendInternalKey [] \<lparr>user_key = [107], sequence = 9, type = kTypeValue\<rparr>)
       (AppendInternalKey [] \<lparr>user_key = [107], sequence = 4, type = kTypeDeletion\<rparr>) < 0"
  using internal_key_order [of "\<lparr>user_key = [107], sequence = 9, type = kTypeValue\<rparr>"
      "\<lparr>user_key = [107], sequence = 4, type = kTypeDeletion\<rparr>"]
  by (simp add: kMaxSequenceNumber_def push_bit_eq_mult)

text \<open>C35: for valid internal keys \<open>start < limit\<close>, the separator that
  \<open>InternalKeyComparator::FindShortestSeparator\<close> computes is a valid internal key that is no longer
  than \<open>start\<close>, at or above \<open>start\<close> and strictly below \<open>limit\<close>; \<open>FindShortSuccessor\<close> gives a valid
  key at or above its argument. An index entry between two blocks therefore separates their keys.\<close>

theorem internal_key_separator:
  assumes "8 \<le> length start" and "8 \<le> length limit"
    and "Compare (InternalKeyComparator BytewiseComparator) start limit < 0"
  shows "let c = InternalKeyComparator BytewiseComparator; sep = FindShortestSeparator c start limit;
             suc = FindShortSuccessor c start
         in 8 \<le> length sep \<and> length sep \<le> length start \<and> Compare c start sep \<le> 0 \<and> Compare c sep limit < 0
            \<and> 8 \<le> length suc \<and> length suc \<le> length start \<and> Compare c start suc \<le> 0"
proof -
  let ?c = "InternalKeyComparator BytewiseComparator"
  have v: "valid_ikey (\<lambda>_. True) start" "valid_ikey (\<lambda>_. True) limit"
    using assms by (simp_all add: valid_ikey_def)
  have "length (FindShortestSeparator ?c start limit) \<le> length start"
    and "length (FindShortSuccessor ?c start) \<le> length start"
    using assms(1)
    by (auto simp: InternalKeyComparator_def internal_separator_def internal_successor_def Let_def
        PutFixed64_def ExtractUserKey_def)
  then show ?thesis
    using internal_bytewise.separator [OF v assms(3)] internal_bytewise.successor [OF v(1)]
    by (simp add: valid_ikey_def Let_def)
qed

theorem internal_key_separator_witness:
  "let c = InternalKeyComparator BytewiseComparator;
       start = AppendInternalKey [] \<lparr>user_key = [1, 2, 3], sequence = 9, type = kTypeValue\<rparr>;
       limit = AppendInternalKey [] \<lparr>user_key = [5], sequence = 9, type = kTypeValue\<rparr>
   in Compare c start (FindShortestSeparator c start limit) \<le> 0
      \<and> Compare c (FindShortestSeparator c start limit) limit < 0
      \<and> length (FindShortestSeparator c start limit) = 9"
proof -
  let ?c = "InternalKeyComparator BytewiseComparator"
  let ?s = "AppendInternalKey [] \<lparr>user_key = [1, 2, 3], sequence = 9, type = kTypeValue\<rparr>"
  let ?l = "AppendInternalKey [] \<lparr>user_key = [5], sequence = 9, type = kTypeValue\<rparr>"
  have "Compare ?c ?s ?l < 0"
    by (simp add: InternalKeyComparator_def internal_compare_less BytewiseComparator_def)
  moreover have "length (FindShortestSeparator ?c ?s ?l) = 9"
    by (simp add: InternalKeyComparator_def internal_separator_def BytewiseComparator_def Let_def
        bytewise_separator_def PutFixed64_def)
  ultimately show ?thesis
    using internal_key_separator [of ?s ?l] by (simp add: Let_def)
qed

end
