(* ===== verification/Ldb_SkipList.thy ===== *)
theory Ldb_SkipList
  imports Ldb_Order
begin

text \<open>
  LevelDB: the skip list \<open>db/skiplist.h\<close> and the generator \<open>util/random.h\<close> that draws its heights.
  Nodes live in a store: a node is its index, the head is node 0, and a node is never freed. An
  entry of a node's array of links is not initialised (\<open>None\<close>), null (\<open>Some None\<close>) or a node. The
  key of the head is never read (\<open>None\<close>). Loads and stores are sequential: memory orders are not
  modelled. An operation is \<open>None\<close> where the code would read outside an array, read a link that is
  not initialised, or loop forever.
\<close>

section \<open>Random numbers\<close>

type_synonym Random = uint32

definition make_Random :: "uint32 \<Rightarrow> Random" where
  "make_Random s = (let seed = s AND 0x7fffffff in if seed = 0 \<or> seed = 2147483647 then 1 else seed)"

definition Random_Next :: "Random \<Rightarrow> uint32 \<times> Random" where
  "Random_Next seed =
     (let M = 2147483647 :: uint32; A = 16807 :: uint64;
          product = ucast seed * A;
          seed = ucast (drop_bit 31 product + (product AND ucast M)) :: uint32;
          seed = (if seed > M then seed - M else seed)
      in (seed, seed))"

definition Random_Uniform :: "nat \<Rightarrow> Random \<Rightarrow> uint32 \<times> Random" where
  "Random_Uniform n r = (let (v, r) = Random_Next r in (v mod of_nat n, r))"

definition Random_OneIn :: "nat \<Rightarrow> Random \<Rightarrow> bool \<times> Random" where
  "Random_OneIn n r = (let (v, r) = Random_Next r in (v mod of_nat n = 0, r))"

definition Random_Skewed :: "nat \<Rightarrow> Random \<Rightarrow> uint32 \<times> Random" where
  "Random_Skewed max_log r =
     (let (b, r) = Random_Uniform (max_log + 1) r in Random_Uniform (2 ^ unat b) r)"

section \<open>The list\<close>

record 'k Node =
  nd_key :: "'k option"
  nd_next :: "nat option option list"

record 'k SkipList =
  sl_compare :: "'k \<Rightarrow> 'k \<Rightarrow> int"
  sl_nodes :: "'k Node list"
  sl_max_height :: nat
  sl_rnd :: Random

definition kMaxHeight :: nat where "kMaxHeight = 12"

definition Node_Next :: "'k SkipList \<Rightarrow> nat \<Rightarrow> nat \<Rightarrow> nat option option" where
  "Node_Next sl x n =
     (if x < length (sl_nodes sl) \<and> n < length (nd_next (sl_nodes sl ! x))
      then nd_next (sl_nodes sl ! x) ! n else None)"

definition Node_SetNext :: "nat \<Rightarrow> nat \<Rightarrow> nat option \<Rightarrow> 'k SkipList \<Rightarrow> 'k SkipList option" where
  "Node_SetNext x n y sl =
     (if x < length (sl_nodes sl) \<and> n < length (nd_next (sl_nodes sl ! x))
      then Some (sl\<lparr>sl_nodes := (sl_nodes sl)[x := (sl_nodes sl ! x)
                     \<lparr>nd_next := (nd_next (sl_nodes sl ! x))[n := Some y]\<rparr>]\<rparr>)
      else None)"

definition Node_key :: "'k SkipList \<Rightarrow> nat \<Rightarrow> 'k option" where
  "Node_key sl x = (if x < length (sl_nodes sl) then nd_key (sl_nodes sl ! x) else None)"

definition NewNode :: "'k option \<Rightarrow> nat \<Rightarrow> 'k SkipList \<Rightarrow> nat \<times> 'k SkipList" where
  "NewNode key height sl =
     (length (sl_nodes sl),
      sl\<lparr>sl_nodes := sl_nodes sl @ [\<lparr>nd_key = key, nd_next = replicate height None\<rparr>]\<rparr>)"

text \<open>The constructor: the head has \<open>kMaxHeight\<close> links, all set to null.\<close>

definition make_SkipList :: "('k \<Rightarrow> 'k \<Rightarrow> int) \<Rightarrow> 'k SkipList option" where
  "make_SkipList cmp =
     (let (head, sl) = NewNode None kMaxHeight
            \<lparr>sl_compare = cmp, sl_nodes = [], sl_max_height = 1, sl_rnd = make_Random 0xdeadbeef\<rparr>
      in fold (\<lambda>i s. Option.bind s (Node_SetNext head i None)) [0..<kMaxHeight] (Some sl))"

text \<open>\<open>RandomHeight\<close>: the loop from the given height on.\<close>

function RandomHeight :: "nat \<Rightarrow> Random \<Rightarrow> nat \<times> Random" where
  "RandomHeight height rnd =
     (if height < kMaxHeight
      then (let (v, rnd) = Random_Next rnd
            in if v mod 4 = 0 then RandomHeight (height + 1) rnd else (height, rnd))
      else (height, rnd))"
  by pat_completeness auto
termination
  by (relation "measure (\<lambda>(h, _). kMaxHeight - h)") auto

declare RandomHeight.simps [simp del]

text \<open>A null node is after every key; \<open>None\<close> when a node without a key is compared.\<close>

definition KeyIsAfterNode :: "'k SkipList \<Rightarrow> 'k \<Rightarrow> nat option \<Rightarrow> bool option" where
  "KeyIsAfterNode sl key n =
     (case n of None \<Rightarrow> Some False
      | Some x \<Rightarrow> map_option (\<lambda>k. sl_compare sl k key < 0) (Node_key sl x))"

text \<open>The loops, from node \<open>x\<close> and \<open>level\<close> on. \<open>prev\<close> is null or an array.\<close>

partial_function (option) fge_loop ::
    "'k SkipList \<Rightarrow> 'k \<Rightarrow> nat \<Rightarrow> nat \<Rightarrow> nat option list option \<Rightarrow> (nat option \<times> nat option list option) option" where
  "fge_loop sl key x level prev =
     Option.bind (Node_Next sl x level) (\<lambda>next.
     Option.bind (KeyIsAfterNode sl key next) (\<lambda>after.
       if after then fge_loop sl key (the next) level prev
       else (let prev = map_option (\<lambda>p. p[level := Some x]) prev
             in if level = 0 then Some (next, prev)
                else fge_loop sl key x (level - 1) prev)))"

definition FindGreaterOrEqual ::
    "'k SkipList \<Rightarrow> 'k \<Rightarrow> nat option list option \<Rightarrow> (nat option \<times> nat option list option) option" where
  "FindGreaterOrEqual sl key prev = fge_loop sl key 0 (sl_max_height sl - 1) prev"

partial_function (option) flt_loop :: "'k SkipList \<Rightarrow> 'k \<Rightarrow> nat \<Rightarrow> nat \<Rightarrow> nat option" where
  "flt_loop sl key x level =
     Option.bind (Node_Next sl x level) (\<lambda>next.
       case next of
         None \<Rightarrow> if level = 0 then Some x else flt_loop sl key x (level - 1)
       | Some y \<Rightarrow> Option.bind (Node_key sl y) (\<lambda>k.
           if sl_compare sl k key \<ge> 0
           then (if level = 0 then Some x else flt_loop sl key x (level - 1))
           else flt_loop sl key y level))"

definition FindLessThan :: "'k SkipList \<Rightarrow> 'k \<Rightarrow> nat option" where
  "FindLessThan sl key = flt_loop sl key 0 (sl_max_height sl - 1)"

partial_function (option) last_loop :: "'k SkipList \<Rightarrow> nat \<Rightarrow> nat \<Rightarrow> nat option" where
  "last_loop sl x level =
     Option.bind (Node_Next sl x level) (\<lambda>next.
       case next of
         None \<Rightarrow> if level = 0 then Some x else last_loop sl x (level - 1)
       | Some y \<Rightarrow> last_loop sl y level)"

definition FindLast :: "'k SkipList \<Rightarrow> nat option" where
  "FindLast sl = last_loop sl 0 (sl_max_height sl - 1)"

text \<open>\<open>for (int i = 0; i < height; i++)\<close> of \<open>Insert\<close>: link the node in at level \<open>i\<close>.\<close>

definition link_level :: "nat option list \<Rightarrow> nat \<Rightarrow> nat \<Rightarrow> 'k SkipList \<Rightarrow> 'k SkipList option" where
  "link_level prev x i sl =
     Option.bind (prev ! i) (\<lambda>p.
     Option.bind (Node_Next sl p i) (\<lambda>next.
     Option.bind (Node_SetNext x i next sl) (\<lambda>sl.
       Node_SetNext p i (Some x) sl)))"

definition SkipList_Insert :: "'k \<Rightarrow> 'k SkipList \<Rightarrow> 'k SkipList option" where
  "SkipList_Insert key sl =
     (case FindGreaterOrEqual sl key (Some (replicate kMaxHeight None)) of
        Some (_, Some prev) \<Rightarrow>
          (let (height, rnd) = RandomHeight 1 (sl_rnd sl);
               sl = sl\<lparr>sl_rnd := rnd\<rparr>;
               (prev, sl) =
                 (if height > sl_max_height sl
                  then (fold (\<lambda>i p. p[i := Some 0]) [sl_max_height sl..<height] prev,
                        sl\<lparr>sl_max_height := height\<rparr>)
                  else (prev, sl));
               (x, sl) = NewNode (Some key) height sl
           in fold (\<lambda>i s. Option.bind s (link_level prev x i)) [0..<height] (Some sl))
      | _ \<Rightarrow> None)"

definition SkipList_Contains :: "'k SkipList \<Rightarrow> 'k \<Rightarrow> bool option" where
  "SkipList_Contains sl key =
     (case FindGreaterOrEqual sl key None of
        None \<Rightarrow> None
      | Some (None, _) \<Rightarrow> Some False
      | Some (Some x, _) \<Rightarrow> map_option (\<lambda>k. sl_compare sl key k = 0) (Node_key sl x))"

section \<open>The iterator\<close>

text \<open>An iterator is its current node, or null. The operations return the new position, \<open>None\<close> for
  undefined behaviour.\<close>

type_synonym skip_iter = "nat option"

definition SkipIter_Valid :: "skip_iter \<Rightarrow> bool" where
  "SkipIter_Valid node \<longleftrightarrow> node \<noteq> None"

definition SkipIter_key :: "'k SkipList \<Rightarrow> skip_iter \<Rightarrow> 'k option" where
  "SkipIter_key sl node = Option.bind node (Node_key sl)"

definition SkipIter_Next :: "'k SkipList \<Rightarrow> skip_iter \<Rightarrow> skip_iter option" where
  "SkipIter_Next sl node = Option.bind node (\<lambda>x. Node_Next sl x 0)"

definition SkipIter_Prev :: "'k SkipList \<Rightarrow> skip_iter \<Rightarrow> skip_iter option" where
  "SkipIter_Prev sl node =
     Option.bind (SkipIter_key sl node) (\<lambda>k.
     map_option (\<lambda>x. if x = 0 then None else Some x) (FindLessThan sl k))"

definition SkipIter_Seek :: "'k SkipList \<Rightarrow> 'k \<Rightarrow> skip_iter option" where
  "SkipIter_Seek sl target = map_option fst (FindGreaterOrEqual sl target None)"

definition SkipIter_SeekToFirst :: "'k SkipList \<Rightarrow> skip_iter option" where
  "SkipIter_SeekToFirst sl = Node_Next sl 0 0"

definition SkipIter_SeekToLast :: "'k SkipList \<Rightarrow> skip_iter option" where
  "SkipIter_SeekToLast sl = map_option (\<lambda>x. if x = 0 then None else Some x) (FindLast sl)"

end
