(* ===== verification/Ldb_SkipList_Correct.thy ===== *)
theory Ldb_SkipList_Correct
  imports Ldb_SkipList
begin

text \<open>
  The skip list implements a sorted list. The invariant says that following the links of level
  \<open>l\<close> from the head gives the nodes of at least that height, in the order of their keys; the three
  search loops then end, at the same node a search of the sorted list ends, and \<open>Insert\<close>, whatever
  height it draws, inserts the key at its place.
\<close>

section \<open>Chains of links\<close>

fun chain :: "'k SkipList \<Rightarrow> nat \<Rightarrow> nat \<Rightarrow> nat list \<Rightarrow> bool" where
  "chain sl l x [] = (Node_Next sl x l = Some None)"
| "chain sl l x (y # ys) = (Node_Next sl x l = Some (Some y) \<and> chain sl l y ys)"

lemma chain_suffix: "chain sl l z (us @ x # vs) \<Longrightarrow> chain sl l x vs"
  by (induction us arbitrary: z) auto

lemma chain_walk:
  assumes "\<And>x y. Node_Next sl x l = Some (Some y) \<Longrightarrow> y \<in> set us \<Longrightarrow> f x = f y"
    and "chain sl l x (us @ vs)"
  shows "f x = f (last (x # us)) \<and> chain sl l (last (x # us)) vs"
  using assms by (induction us arbitrary: x) (simp, force)

definition height :: "'k SkipList \<Rightarrow> nat \<Rightarrow> nat" where
  "height sl y = length (nd_next (sl_nodes sl ! y))"

definition at_level :: "'k SkipList \<Rightarrow> nat \<Rightarrow> nat list \<Rightarrow> nat list" where
  "at_level sl l xs = filter (\<lambda>y. l < height sl y) xs"

lemma at_level_simps [simp]:
  "at_level sl l [] = []"
  "at_level sl l (y # ys) = (if l < height sl y then y # at_level sl l ys else at_level sl l ys)"
  "at_level sl l (xs @ ys) = at_level sl l xs @ at_level sl l ys"
  by (simp_all add: at_level_def)

definition key_of :: "'k SkipList \<Rightarrow> nat \<Rightarrow> 'k" where
  "key_of sl y = the (Node_key sl y)"

section \<open>The invariant\<close>

text \<open>The list stands for the nodes \<open>xs\<close>.\<close>

definition skip_nodes :: "'k SkipList \<Rightarrow> nat list \<Rightarrow> bool" where
  "skip_nodes sl xs \<longleftrightarrow>
     0 < sl_max_height sl \<and> sl_max_height sl \<le> kMaxHeight
     \<and> 0 < length (sl_nodes sl) \<and> height sl 0 = kMaxHeight
     \<and> (\<forall>l < kMaxHeight. chain sl l 0 (at_level sl l xs))
     \<and> (\<forall>y \<in> set xs. 0 < y \<and> y < length (sl_nodes sl) \<and> 0 < height sl y
          \<and> height sl y \<le> sl_max_height sl \<and> Node_key sl y \<noteq> None)
     \<and> distinct xs"

definition skip_inv :: "('k \<Rightarrow> bool) \<Rightarrow> 'k SkipList \<Rightarrow> nat list \<Rightarrow> bool" where
  "skip_inv valid sl xs \<longleftrightarrow>
     skip_nodes sl xs \<and> key_preorder.increasing (sl_compare sl) valid (map (key_of sl) xs)"

lemma skip_nodes_height:
  assumes "skip_nodes sl xs" and "x = 0 \<or> x \<in> set xs"
  shows "height sl x \<le> kMaxHeight"
proof -
  have "sl_max_height sl \<le> kMaxHeight" using assms(1) by (simp add: skip_nodes_def)
  moreover have "height sl x \<le> sl_max_height sl \<or> height sl x = kMaxHeight"
    using assms by (auto simp: skip_nodes_def)
  ultimately show ?thesis by linarith
qed

section \<open>Searching\<close>

text \<open>Node \<open>x\<close> is the head or one of \<open>us\<close>, and \<open>post\<close> follows it there.\<close>

definition at_pos :: "nat list \<Rightarrow> nat \<Rightarrow> nat list \<Rightarrow> bool" where
  "at_pos us x post \<longleftrightarrow> x = 0 \<and> post = us \<or> (\<exists>pre. us = pre @ x # post)"

lemma at_pos_chain:
  assumes "skip_nodes sl (us @ vs)" and "at_pos us x post" and "l < height sl x"
  shows "chain sl l x (at_level sl l post @ at_level sl l vs)"
proof -
  have "x = 0 \<or> x \<in> set (us @ vs)" using assms(2) by (auto simp: at_pos_def)
  from skip_nodes_height [OF assms(1) this]
  have "height sl x \<le> kMaxHeight" .
  with assms have "chain sl l 0 (at_level sl l us @ at_level sl l vs)" by (simp add: skip_nodes_def)
  with assms(2,3) show ?thesis by (auto simp: at_pos_def dest: chain_suffix)
qed

lemma at_pos_last:
  assumes "at_pos us x post" and "l < height sl x"
  defines "z \<equiv> last (x # at_level sl l post)"
  obtains post' where "at_pos us z post'" "l < height sl z"
    "\<And>j. j \<le> l \<Longrightarrow> last (z # at_level sl j post') = last (x # at_level sl j post)"
proof (cases "at_level sl l post = []")
  case True
  with assms that [of post] show thesis by simp
next
  case False
  then have "\<exists>y \<in> set post. l < height sl y" by (auto simp: at_level_def filter_empty_conv)
  from split_list_last_prop [OF this] obtain m y post' where
    y: "post = m @ y # post'" "l < height sl y" "\<forall>z \<in> set post'. \<not> l < height sl z" by blast
  then have "at_level sl l post' = []" by (auto simp: at_level_def filter_empty_conv)
  with y have z: "z = y" by (simp add: z_def)
  show thesis
  proof (rule that [of post'])
    show "at_pos us z post'" using assms(1) y z by (force simp: at_pos_def)
    show "last (z # at_level sl j post') = last (x # at_level sl j post)" if "j \<le> l" for j
      using y z that by simp
  qed (use y z in simp)
qed

definition head_opt :: "nat list \<Rightarrow> nat option" where
  "head_opt vs = (case vs of [] \<Rightarrow> None | v # _ \<Rightarrow> Some v)"

lemma chain_head: "chain sl l x vs \<Longrightarrow> Node_Next sl x l = Some (head_opt vs)"
  by (cases vs) (simp_all add: head_opt_def)

text \<open>\<open>us\<close> are the nodes below the key, \<open>vs\<close> the others.\<close>

definition splits :: "'k SkipList \<Rightarrow> 'k \<Rightarrow> nat list \<Rightarrow> nat list \<Rightarrow> bool" where
  "splits sl t us vs \<longleftrightarrow>
     (\<forall>y \<in> set us. sl_compare sl (key_of sl y) t < 0) \<and> (\<forall>y \<in> set vs. \<not> sl_compare sl (key_of sl y) t < 0)"

lemma Node_key_of: "skip_nodes sl xs \<Longrightarrow> y \<in> set xs \<Longrightarrow> Node_key sl y = Some (key_of sl y)"
  by (auto simp: skip_nodes_def key_of_def)

lemma head_opt_at_level: "head_opt (at_level sl l vs) = Some y \<Longrightarrow> y \<in> set vs"
  by (auto simp: head_opt_def at_level_def split: list.splits dest: filter_eq_ConsD)

lemma at_level_0: "skip_nodes sl xs \<Longrightarrow> set ys \<subseteq> set xs \<Longrightarrow> at_level sl 0 ys = ys"
  by (auto simp: skip_nodes_def at_level_def filter_id_conv)

lemma at_pos_subset: "at_pos us x post \<Longrightarrow> set post \<subseteq> set us"
  by (auto simp: at_pos_def)

lemma set_at_level: "set (at_level sl l xs) \<subseteq> set xs"
  by (auto simp: at_level_def)

text \<open>Level \<open>l\<close> of a search that goes on while it sees nodes of \<open>us\<close>: it arrives at the last of
  them at this level.\<close>

lemma level_walk:
  assumes "skip_nodes sl (us @ vs)" and "at_pos us x post" and "l < height sl x"
    and "\<And>x y. Node_Next sl x l = Some (Some y) \<Longrightarrow> y \<in> set us \<Longrightarrow> f x = f y"
  obtains z post' where "f x = f z" "Node_Next sl z l = Some (head_opt (at_level sl l vs))"
    "z = last (x # at_level sl l post)" "at_pos us z post'" "l < height sl z"
    "\<And>j. j \<le> l \<Longrightarrow> last (z # at_level sl j post') = last (x # at_level sl j post)"
proof -
  have "set (at_level sl l post) \<subseteq> set us"
    using at_pos_subset [OF assms(2)] set_at_level [of sl l post] by blast
  with chain_walk [of sl l "at_level sl l post" f x "at_level sl l vs"] assms(4)
    at_pos_chain [OF assms(1-3)]
  have "f x = f (last (x # at_level sl l post))"
    "chain sl l (last (x # at_level sl l post)) (at_level sl l vs)" by blast+
  with that chain_head at_pos_last [OF assms(2,3)] show thesis by metis
qed

lemma KeyIsAfterNode_us:
  assumes "skip_nodes sl (us @ vs)" and "splits sl t us vs"
  shows "y \<in> set us \<Longrightarrow> KeyIsAfterNode sl t (Some y) = Some True"
    and "n = None \<or> n = Some y \<and> y \<in> set vs \<Longrightarrow> KeyIsAfterNode sl t n = Some False"
  using assms Node_key_of [OF assms(1)] by (auto simp: KeyIsAfterNode_def splits_def)

lemma head_opt_cases: "head_opt (at_level sl l vs) = None \<or> (\<exists>y. head_opt (at_level sl l vs) = Some y \<and> y \<in> set vs)"
  using head_opt_at_level by (cases "head_opt (at_level sl l vs)") auto

definition records :: "'k SkipList \<Rightarrow> nat \<Rightarrow> nat \<Rightarrow> nat list \<Rightarrow> nat option list \<Rightarrow> nat option list \<Rightarrow> bool" where
  "records sl l x post p p' \<longleftrightarrow> length p' = length p
     \<and> (\<forall>j < length p. p' ! j = (if j \<le> l then Some (last (x # at_level sl j post)) else p ! j))"

lemma fge_loop_finds:
  assumes inv: "skip_nodes sl (us @ vs)" and sp: "splits sl t us vs"
    and "at_pos us x post" and "l < height sl x"
  shows "\<exists>prev'. fge_loop sl t x l prev = Some (head_opt vs, prev')
    \<and> rel_option (records sl l x post) prev prev'"
  using assms(3,4)
proof (induction l arbitrary: x post prev rule: less_induct)
  case (less l)
  note pos = less.prems
  have go: "fge_loop sl t x l prev = fge_loop sl t y l prev"
    if "Node_Next sl x l = Some (Some y)" "y \<in> set us" for x y
    using that KeyIsAfterNode_us(1) [OF inv sp] by (subst fge_loop.simps) simp
  from level_walk [where f = "\<lambda>x. fge_loop sl t x l prev", OF inv pos go]
  obtain z post' where z: "fge_loop sl t x l prev = fge_loop sl t z l prev"
    "Node_Next sl z l = Some (head_opt (at_level sl l vs))" "z = last (x # at_level sl l post)"
    "at_pos us z post'" "l < height sl z"
    and prev: "\<And>j. j \<le> l \<Longrightarrow> last (z # at_level sl j post') = last (x # at_level sl j post)" by blast
  define q where "q = map_option (\<lambda>p. p[l := Some z]) prev"
  have step: "fge_loop sl t x l prev =
      (if l = 0 then Some (head_opt (at_level sl l vs), q) else fge_loop sl t z (l - 1) q)"
    using z(2) KeyIsAfterNode_us(2) [OF inv sp] head_opt_cases [of sl l vs]
    unfolding z(1) by (subst fge_loop.simps) (auto simp: q_def Let_def)
  show ?case
  proof (cases "l = 0")
    case True
    then have "fge_loop sl t x l prev = Some (head_opt vs, q)"
      using step at_level_0 [OF inv, of vs] by simp
    moreover have "rel_option (records sl l x post) prev q"
      using True z(3) by (cases prev) (simp_all add: q_def records_def nth_list_update)
    ultimately show ?thesis by blast
  next
    case False
    then have "l - 1 < l" "l - 1 < height sl z" using z(5) by simp_all
    from less.IH [OF this(1) z(4) this(2), of q] obtain prev'
      where p: "fge_loop sl t z (l - 1) q = Some (head_opt vs, prev')"
        "rel_option (records sl (l - 1) z post') q prev'" by blast
    have "rel_option (records sl l x post) prev prev'"
    proof (cases prev)
      case None
      with p(2) show ?thesis by (simp add: q_def)
    next
      case (Some r)
      with p(2) obtain r' where r': "prev' = Some r'" "records sl (l - 1) z post' (r[l := Some z]) r'"
        by (auto simp: q_def option_rel_Some1)
      have "r' ! j = (if j \<le> l then Some (last (x # at_level sl j post)) else r ! j)" if "j < length r" for j
      proof (cases j l rule: linorder_cases)
        case less
        then have "j \<le> l - 1" "j \<le> l" by simp_all
        with r'(2) that prev [of j] show ?thesis by (simp add: records_def)
      next
        case equal
        with False have "\<not> j \<le> l - 1" by simp
        with r'(2) that z(3) equal show ?thesis by (simp add: records_def)
      next
        case greater
        then have "\<not> j \<le> l - 1" "\<not> j \<le> l" "l \<noteq> j" by simp_all
        with r'(2) that show ?thesis by (simp add: records_def)
      qed
      with r' Some show ?thesis by (simp add: records_def)
    qed
    with p(1) step False show ?thesis by auto
  qed
qed

lemma flt_loop_finds:
  assumes inv: "skip_nodes sl (us @ vs)" and sp: "splits sl t us vs"
    and "at_pos us x post" and "l < height sl x"
  shows "flt_loop sl t x l = Some (last (x # at_level sl 0 post))"
  using assms(3,4)
proof (induction l arbitrary: x post rule: less_induct)
  case (less l)
  note pos = less.prems
  have go: "flt_loop sl t x l = flt_loop sl t y l"
    if "Node_Next sl x l = Some (Some y)" "y \<in> set us" for x y
    using that sp Node_key_of [OF inv, of y] by (subst flt_loop.simps) (auto simp: splits_def)
  from level_walk [where f = "\<lambda>x. flt_loop sl t x l", OF inv pos go]
  obtain z post' where z: "flt_loop sl t x l = flt_loop sl t z l"
    "Node_Next sl z l = Some (head_opt (at_level sl l vs))" "z = last (x # at_level sl l post)"
    "at_pos us z post'" "l < height sl z"
    and prev: "\<And>j. j \<le> l \<Longrightarrow> last (z # at_level sl j post') = last (x # at_level sl j post)" by blast
  have step: "flt_loop sl t x l = (if l = 0 then Some z else flt_loop sl t z (l - 1))"
    using z(2) head_opt_cases [of sl l vs] sp Node_key_of [OF inv]
    unfolding z(1) by (subst flt_loop.simps) (auto simp: splits_def not_less)
  show ?case
  proof (cases "l = 0")
    case False
    then have "l - 1 < l" "l - 1 < height sl z" using z(5) by simp_all
    from less.IH [OF this(1) z(4) this(2)] step False prev show ?thesis by simp
  qed (use step z(3) in simp)
qed

lemma last_loop_finds:
  assumes inv: "skip_nodes sl us" and "at_pos us x post" and "l < height sl x"
  shows "last_loop sl x l = Some (last (x # at_level sl 0 post))"
  using assms(2,3)
proof (induction l arbitrary: x post rule: less_induct)
  case (less l)
  note pos = less.prems
  have inv': "skip_nodes sl (us @ [])" using inv by simp
  have go: "last_loop sl x l = last_loop sl y l"
    if "Node_Next sl x l = Some (Some y)" "y \<in> set us" for x y
    using that by (subst last_loop.simps) simp
  from level_walk [where f = "\<lambda>x. last_loop sl x l", OF inv' pos go]
  obtain z post' where z: "last_loop sl x l = last_loop sl z l"
    "Node_Next sl z l = Some None" "z = last (x # at_level sl l post)"
    "at_pos us z post'" "l < height sl z"
    and prev: "\<And>j. j \<le> l \<Longrightarrow> last (z # at_level sl j post') = last (x # at_level sl j post)"
    by (auto simp: head_opt_def)
  have step: "last_loop sl x l = (if l = 0 then Some z else last_loop sl z (l - 1))"
    using z(2) unfolding z(1) by (subst last_loop.simps) simp
  show ?case
  proof (cases "l = 0")
    case False
    then have "l - 1 < l" "l - 1 < height sl z" using z(5) by simp_all
    from less.IH [OF this(1) z(4) this(2)] step False prev show ?thesis by simp
  qed (use step z(3) in simp)
qed

section \<open>Linking a node in\<close>

lemma Node_SetNext_Some:
  assumes "x < length (sl_nodes sl)" and "n < height sl x"
  shows "\<exists>sl'. Node_SetNext x n y sl = Some sl'
    \<and> (\<forall>z m. Node_Next sl' z m = (if z = x \<and> m = n then Some y else Node_Next sl z m))
    \<and> (\<forall>z. height sl' z = height sl z \<and> Node_key sl' z = Node_key sl z)
    \<and> length (sl_nodes sl') = length (sl_nodes sl) \<and> sl_compare sl' = sl_compare sl
    \<and> sl_max_height sl' = sl_max_height sl"
proof -
  define nd where "nd = (sl_nodes sl ! x)\<lparr>nd_next := (nd_next (sl_nodes sl ! x))[n := Some y]\<rparr>"
  define sl' where "sl' = sl\<lparr>sl_nodes := (sl_nodes sl)[x := nd]\<rparr>"
  have "Node_SetNext x n y sl = Some sl'"
    using assms by (simp add: Node_SetNext_def sl'_def nd_def height_def)
  moreover have "Node_Next sl' z m = (if z = x \<and> m = n then Some y else Node_Next sl z m)" for z m
    using assms by (auto simp: Node_Next_def sl'_def nd_def height_def nth_list_update)
  moreover have "height sl' z = height sl z" for z
    using assms by (cases "z = x") (simp_all add: height_def sl'_def nd_def)
  moreover have "Node_key sl' z = Node_key sl z" for z
    using assms by (cases "z = x") (simp_all add: Node_key_def sl'_def nd_def)
  ultimately show ?thesis by (simp add: sl'_def)
qed

text \<open>The list before the loop of \<open>Insert\<close> is \<open>sl\<close>, with the new node already allocated; its first
  \<open>i\<close> levels are linked in \<open>sl'\<close>.\<close>

definition linked :: "'k SkipList \<Rightarrow> nat \<Rightarrow> nat list \<Rightarrow> nat list \<Rightarrow> nat \<Rightarrow> 'k SkipList \<Rightarrow> bool" where
  "linked sl x us vs i sl' \<longleftrightarrow>
     (\<forall>z m. Node_Next sl' z m =
        (if m < i \<and> z = x then Some (head_opt (at_level sl m vs))
         else if m < i \<and> z = last (0 # at_level sl m us) then Some (Some x) else Node_Next sl z m))
     \<and> (\<forall>z. height sl' z = height sl z \<and> Node_key sl' z = Node_key sl z)
     \<and> length (sl_nodes sl') = length (sl_nodes sl) \<and> sl_compare sl' = sl_compare sl
     \<and> sl_max_height sl' = sl_max_height sl"

lemma link_levels:
  assumes x: "x < length (sl_nodes sl)" "h \<le> height sl x"
    and p: "\<And>j. j < h \<Longrightarrow> prev ! j = Some (last (0 # at_level sl j us))
        \<and> last (0 # at_level sl j us) \<noteq> x \<and> last (0 # at_level sl j us) < length (sl_nodes sl)
        \<and> j < height sl (last (0 # at_level sl j us))
        \<and> Node_Next sl (last (0 # at_level sl j us)) j = Some (head_opt (at_level sl j vs))"
    and "i \<le> h"
  shows "\<exists>sl'. fold (\<lambda>i s. Option.bind s (link_level prev x i)) [0..<i] (Some sl) = Some sl'
    \<and> linked sl x us vs i sl'"
  using assms(4)
proof (induction i)
  case 0
  show ?case by (simp add: linked_def)
next
  case (Suc i)
  then obtain s where s: "fold (\<lambda>i s. Option.bind s (link_level prev x i)) [0..<i] (Some sl) = Some s"
    "linked sl x us vs i s" by auto
  let ?p = "last (0 # at_level sl i us)" and ?v = "head_opt (at_level sl i vs)"
  from p [of i] Suc.prems have pi: "prev ! i = Some ?p" "?p \<noteq> x" "?p < length (sl_nodes sl)"
    "i < height sl ?p" "Node_Next sl ?p i = Some ?v" by simp_all
  have n: "Node_Next s ?p i = Some ?v" using s(2) pi(5) by (simp add: linked_def)
  have "x < length (sl_nodes s)" "i < height s x" using s(2) x Suc.prems by (auto simp: linked_def)
  from Node_SetNext_Some [OF this, of ?v] obtain s1 where s1: "Node_SetNext x i ?v s = Some s1"
    "\<forall>z m. Node_Next s1 z m = (if z = x \<and> m = i then Some ?v else Node_Next s z m)"
    "\<forall>z. height s1 z = height s z \<and> Node_key s1 z = Node_key s z"
    "length (sl_nodes s1) = length (sl_nodes s)" "sl_compare s1 = sl_compare s"
    "sl_max_height s1 = sl_max_height s" by blast
  have "?p < length (sl_nodes s1)" "i < height s1 ?p" using s1 s(2) pi by (auto simp: linked_def)
  from Node_SetNext_Some [OF this, of "Some x"] obtain s2 where s2: "Node_SetNext ?p i (Some x) s1 = Some s2"
    "\<forall>z m. Node_Next s2 z m = (if z = ?p \<and> m = i then Some (Some x) else Node_Next s1 z m)"
    "\<forall>z. height s2 z = height s1 z \<and> Node_key s2 z = Node_key s1 z"
    "length (sl_nodes s2) = length (sl_nodes s1)" "sl_compare s2 = sl_compare s1"
    "sl_max_height s2 = sl_max_height s1" by blast
  have "link_level prev x i s = Some s2" using pi(1) n s1(1) s2(1) by (simp add: link_level_def)
  moreover have "linked sl x us vs (Suc i) s2"
    using s(2) s1(2-) s2(2-) pi(2) by (auto simp: linked_def less_Suc_eq simp del: last.simps)
  ultimately show ?case using s(1) by simp
qed

lemma chain_insert:
  assumes "chain sl l z (us @ vs)" and "distinct (z # us @ vs)" and "x \<notin> set (z # us @ vs)"
    and "Node_Next sl' x l = Some (head_opt vs)" and "Node_Next sl' (last (z # us)) l = Some (Some x)"
    and "\<forall>y \<in> set (z # us @ vs). y \<noteq> last (z # us) \<longrightarrow> Node_Next sl' y l = Node_Next sl y l"
  shows "chain sl' l z (us @ x # vs)"
  using assms
proof (induction us arbitrary: z)
  case Nil
  have "chain sl' l v ws = chain sl l v ws" if "set (v # ws) \<subseteq> set vs" for v ws
    using that Nil.prems(2,6) by (induction ws arbitrary: v) auto
  with Nil.prems show ?case by (cases vs) (auto simp: head_opt_def)
next
  case (Cons u us)
  have "z \<noteq> last (u # us)" using Cons.prems(2) last_in_set [of "u # us"] by auto
  with Cons.prems have "Node_Next sl' z l = Node_Next sl z l" by simp
  moreover have "chain sl' l u (us @ x # vs)"
    by (rule Cons.IH) (use Cons.prems in auto)
  ultimately show ?case using Cons.prems(1) by simp
qed

lemma chain_same:
  "(\<forall>y \<in> set (z # us). Node_Next sl' y l = Node_Next sl y l) \<Longrightarrow> chain sl' l z us = chain sl l z us"
  by (induction us arbitrary: z) auto

section \<open>The operations on a sorted list\<close>

lemma RandomHeight_bounds:
  "h \<le> kMaxHeight \<Longrightarrow> h \<le> fst (RandomHeight h r) \<and> fst (RandomHeight h r) \<le> kMaxHeight"
proof (induction h r rule: RandomHeight.induct)
  case (1 h r)
  obtain v r' where v: "Random_Next r = (v, r')" by (cases "Random_Next r")
  show ?case
  proof (cases "h < kMaxHeight \<and> v mod 4 = 0")
    case True
    then have c: "h < kMaxHeight" "v mod 4 = 0" by blast+
    have "RandomHeight h r = RandomHeight (h + 1) r'"
      by (subst RandomHeight.simps) (simp only: c v Let_def prod.case if_True simp_thms)
    with "1.IH" [OF c(1) v [symmetric] refl c(2)] c(1) show ?thesis by simp
  next
    case False
    then consider "\<not> h < kMaxHeight" | "h < kMaxHeight" "v mod 4 \<noteq> 0" by argo
    then have "fst (RandomHeight h r) = h"
      by cases (subst RandomHeight.simps,
          simp only: v Let_def prod.case fst_conv if_False if_True simp_thms)+
    with "1.prems" show ?thesis by simp
  qed
qed

lemma fold_set_head:
  "b \<le> length p \<Longrightarrow> length (fold (\<lambda>i p. p[i := Some 0]) [a..<b] p) = length p
   \<and> (\<forall>j. fold (\<lambda>i p. p[i := Some 0]) [a..<b] p ! j = (if a \<le> j \<and> j < b then Some 0 else p ! j))"
  by (induction b) (auto simp: nth_list_update less_Suc_eq)

lemma SkipList_Insert_links:
  assumes inv: "skip_nodes sl (us @ vs)" and sp: "splits sl t us vs"
  shows "\<exists>sl'. SkipList_Insert t sl = Some sl' \<and> skip_nodes sl' (us @ length (sl_nodes sl) # vs)
    \<and> sl_compare sl' = sl_compare sl \<and> key_of sl' (length (sl_nodes sl)) = t
    \<and> (\<forall>y \<in> set (us @ vs). key_of sl' y = key_of sl y)"
proof -
  let ?x = "length (sl_nodes sl)" and ?m = "sl_max_height sl"
  have m: "0 < ?m" "?m \<le> kMaxHeight" and h0: "height sl 0 = kMaxHeight" and nd: "0 < ?x"
    and chains: "\<And>l. l < kMaxHeight \<Longrightarrow> chain sl l 0 (at_level sl l us @ at_level sl l vs)"
    and nodes: "\<And>y. y \<in> set (us @ vs) \<Longrightarrow> 0 < y \<and> y < ?x \<and> 0 < height sl y \<and> height sl y \<le> ?m
        \<and> Node_key sl y \<noteq> None"
    and dist: "distinct (us @ vs)"
    using inv by (auto simp: skip_nodes_def)
  have "at_pos us 0 us" by (simp add: at_pos_def)
  moreover have "?m - 1 < height sl 0" using m h0 by linarith
  ultimately have "\<exists>prev'. fge_loop sl t 0 (?m - 1) (Some (replicate kMaxHeight None)) = Some (head_opt vs, prev')
      \<and> rel_option (records sl (?m - 1) 0 us) (Some (replicate kMaxHeight None)) prev'"
    by (rule fge_loop_finds [OF inv sp])
  then
  obtain prev where fge: "FindGreaterOrEqual sl t (Some (replicate kMaxHeight None)) = Some (head_opt vs, Some prev)"
    "records sl (?m - 1) 0 us (replicate kMaxHeight None) prev"
    unfolding FindGreaterOrEqual_def by (auto simp: option_rel_Some1)
  obtain h rnd where hr: "RandomHeight 1 (sl_rnd sl) = (h, rnd)" by (cases "RandomHeight 1 (sl_rnd sl)")
  with RandomHeight_bounds [of 1 "sl_rnd sl"] have h: "0 < h" "h \<le> kMaxHeight"
    by (simp_all add: kMaxHeight_def)
  define prev2 where "prev2 = (if ?m < h then fold (\<lambda>i p. p[i := Some 0]) [?m..<h] prev else prev)"
  define sl1 where "sl1 = snd (NewNode (Some t) h (sl\<lparr>sl_rnd := rnd, sl_max_height := max h ?m\<rparr>))"
  have ins: "SkipList_Insert t sl = fold (\<lambda>i s. Option.bind s (link_level prev2 ?x i)) [0..<h] (Some sl1)"
    using fge(1) hr
    by (auto simp: SkipList_Insert_def Let_def prev2_def sl1_def NewNode_def max_def)
  have N1: "Node_Next sl1 y l = Node_Next sl y l" for y l
    by (auto simp: Node_Next_def sl1_def NewNode_def nth_append)
  have H1: "height sl1 ?x = h" "\<And>y. y < ?x \<Longrightarrow> height sl1 y = height sl y"
    by (simp_all add: height_def sl1_def NewNode_def nth_append)
  have K1: "Node_key sl1 ?x = Some t" "\<And>y. y < ?x \<Longrightarrow> Node_key sl1 y = Node_key sl y"
    by (simp_all add: Node_key_def sl1_def NewNode_def nth_append)
  have L1: "at_level sl1 l us = at_level sl l us" "at_level sl1 l vs = at_level sl l vs" for l
    using nodes H1(2) by (auto simp: at_level_def intro!: filter_cong)
  have len1: "length (sl_nodes sl1) = Suc ?x" "sl_compare sl1 = sl_compare sl" "sl_max_height sl1 = max h ?m"
    by (simp_all add: sl1_def NewNode_def)
  let ?p = "\<lambda>j. last (0 # at_level sl j us)"
  have p_in: "?p j = 0 \<or> ?p j \<in> set us" "?p j < ?x" for j
    using last_in_set [of "0 # at_level sl j us"] set_at_level [of sl j us] nodes nd by auto
  have p_next: "j < height sl (?p j) \<and> Node_Next sl (?p j) j = Some (head_opt (at_level sl j vs))"
    if "j < kMaxHeight" for j
  proof -
    have "j < height sl (?p j)"
      using that h0 last_in_set [of "at_level sl j us"] by (auto simp: at_level_def)
    moreover have "chain sl j (?p j) (at_level sl j vs)"
      using chain_walk [of sl j "at_level sl j us" "\<lambda>_. ()"] chains [OF that] by blast
    ultimately show ?thesis using chain_head by blast
  qed
  have prev2: "prev2 ! j = Some (?p j)" if "j < h" for j
  proof -
    have len: "length prev = kMaxHeight" using fge(2) by (simp add: records_def)
    have "?p j = 0" if "?m \<le> j" using nodes that by (force simp: at_level_def filter_empty_conv)
    moreover have "prev ! j = Some (?p j)" if "j < ?m"
      using fge(2) that m by (simp add: records_def)
    ultimately show ?thesis
      using fold_set_head [of h prev ?m] h(2) len that by (auto simp: prev2_def simp del: last.simps)
  qed
  have "\<exists>sl'. fold (\<lambda>i s. Option.bind s (link_level prev2 ?x i)) [0..<h] (Some sl1) = Some sl'
      \<and> linked sl1 ?x us vs h sl'"
  proof (rule link_levels [of _ _ h])
    fix j assume j: "j < h"
    with h have "j < kMaxHeight" by simp
    note p_next [OF this]
    moreover have "?p j \<noteq> ?x" "?p j < Suc ?x" using p_in(2) [of j] by simp_all
    ultimately show "prev2 ! j = Some (last (0 # at_level sl1 j us))
        \<and> last (0 # at_level sl1 j us) \<noteq> ?x \<and> last (0 # at_level sl1 j us) < length (sl_nodes sl1)
        \<and> j < height sl1 (last (0 # at_level sl1 j us))
        \<and> Node_Next sl1 (last (0 # at_level sl1 j us)) j = Some (head_opt (at_level sl1 j vs))"
      using prev2 [OF j] unfolding L1 len1 N1 H1(2) [OF p_in(2)] by (simp del: last.simps)
  qed (use len1 H1 in simp_all)
  then obtain sl' where sl': "SkipList_Insert t sl = Some sl'" "linked sl1 ?x us vs h sl'"
    using ins by auto
  have x: "?x \<notin> set (0 # us @ vs)" using nodes nd by fastforce
  have H': "height sl' ?x = h" "\<And>y. y < ?x \<Longrightarrow> height sl' y = height sl y"
    using sl'(2) H1 by (simp_all add: linked_def)
  have K': "Node_key sl' ?x = Some t" "\<And>y. y < ?x \<Longrightarrow> Node_key sl' y = Node_key sl y"
    using sl'(2) K1 by (simp_all add: linked_def)
  have L': "at_level sl' l us = at_level sl l us" "at_level sl' l vs = at_level sl l vs" for l
    using nodes H'(2) by (auto simp: at_level_def intro!: filter_cong)
  have N': "Node_Next sl' z l = (if l < h \<and> z = ?x then Some (head_opt (at_level sl l vs))
      else if l < h \<and> z = ?p l then Some (Some ?x) else Node_Next sl z l)" for z l
    using sl'(2) by (simp add: linked_def L1 N1 del: last.simps)
  have "chain sl' l 0 (at_level sl' l (us @ ?x # vs))" if l: "l < kMaxHeight" for l
  proof (cases "l < h")
    case True
    have sub: "set (at_level sl l us @ at_level sl l vs) \<subseteq> set (us @ vs)"
      using set_at_level [of sl l us] set_at_level [of sl l vs] by auto
    have "chain sl' l 0 (at_level sl l us @ ?x # at_level sl l vs)"
    proof (rule chain_insert [OF chains [OF l]])
      show "distinct (0 # at_level sl l us @ at_level sl l vs)"
        using dist sub nodes by (fastforce simp: at_level_def)
      show "?x \<notin> set (0 # at_level sl l us @ at_level sl l vs)" using x sub by auto
      then show "\<forall>y \<in> set (0 # at_level sl l us @ at_level sl l vs). y \<noteq> ?p l \<longrightarrow>
          Node_Next sl' y l = Node_Next sl y l" by (auto simp: N' simp del: last.simps)
      show "Node_Next sl' ?x l = Some (head_opt (at_level sl l vs))" using True by (simp add: N')
      show "Node_Next sl' (?p l) l = Some (Some ?x)" using True p_in(2) [of l] by (simp add: N' del: last.simps)
    qed
    then show ?thesis using True by (simp add: L' H')
  next
    case False
    then have "Node_Next sl' y l = Node_Next sl y l" for y by (simp add: N' del: last.simps)
    then have "chain sl' l 0 (at_level sl l us @ at_level sl l vs)"
      using chains [OF l] chain_same [of 0 "at_level sl l us @ at_level sl l vs" sl' l sl] by simp
    with False show ?thesis by (simp add: L' H')
  qed
  note chains' = this
  have f': "sl_compare sl' = sl_compare sl" "sl_max_height sl' = max h ?m"
    "length (sl_nodes sl') = Suc ?x"
    using sl'(2) len1 by (simp_all add: linked_def)
  have old: "0 < y \<and> y < Suc ?x \<and> 0 < height sl' y \<and> height sl' y \<le> max h ?m \<and> Node_key sl' y \<noteq> None"
    if "y \<in> set (us @ vs)" for y
    using nodes [OF that] H'(2) [of y] K'(2) [of y] by (simp add: le_max_iff_disj)
  have new: "0 < ?x \<and> ?x < Suc ?x \<and> 0 < height sl' ?x \<and> height sl' ?x \<le> max h ?m \<and> Node_key sl' ?x \<noteq> None"
    using nd h H'(1) K'(1) by simp
  have "skip_nodes sl' (us @ ?x # vs)"
    unfolding skip_nodes_def f'
  proof (intro conjI allI impI ballI)
    fix y assume "y \<in> set (us @ ?x # vs)"
    then have y: "y \<in> set (us @ vs) \<or> y = ?x" by auto
    with old [of y] new show "0 < y" "y < Suc ?x" "0 < height sl' y" "height sl' y \<le> max h ?m"
      "Node_key sl' y \<noteq> None" by blast+
  qed (use chains' m h h0 H'(2) [OF nd] x dist in auto)
  moreover have "key_of sl' y = key_of sl y" if "y \<in> set (us @ vs)" for y
    using nodes [OF that] K'(2) [of y] by (simp add: key_of_def)
  ultimately show ?thesis using sl'(1) f'(1) K'(1) by (simp add: key_of_def)
qed

section \<open>The interface of an ordered table\<close>

definition hd_opt :: "'a list \<Rightarrow> 'a option" where
  "hd_opt xs = (case xs of [] \<Rightarrow> None | x # _ \<Rightarrow> Some x)"

text \<open>A table stands for a list of keys. Inserting a new key and finding the first key that is not
  below a bound are what a client relies on.\<close>

locale ordered_table = key_preorder cmp valid
  for cmp :: "'k \<Rightarrow> 'k \<Rightarrow> int" and valid :: "'k \<Rightarrow> bool" +
  fixes stands :: "'t \<Rightarrow> 'k list \<Rightarrow> bool"
    and ins :: "'k \<Rightarrow> 't \<Rightarrow> 't option"
    and seek :: "'t \<Rightarrow> 'k \<Rightarrow> 'k option option"
  assumes stands_increasing: "stands t ks \<Longrightarrow> increasing ks"
    and ins_stands: "stands t ks \<Longrightarrow> valid k \<Longrightarrow> \<forall>j \<in> set ks. cmp j k \<noteq> 0 \<Longrightarrow>
        \<exists>t'. ins k t = Some t' \<and> stands t' (insert_key k ks)"
    and seek_first: "stands t ks \<Longrightarrow> valid k \<Longrightarrow>
        seek t k = Some (hd_opt (dropWhile (\<lambda>j. cmp j k < 0) ks))"
begin

lemma fold_ins:
  assumes "stands t js" and "\<forall>k \<in> set ks. valid k" and "\<forall>k \<in> set ks. \<forall>j \<in> set js. cmp j k \<noteq> 0"
    and "sorted_wrt (\<lambda>j k. cmp j k \<noteq> 0) ks"
  shows "\<exists>t'. fold (\<lambda>k t. Option.bind t (ins k)) ks (Some t) = Some t' \<and> stands t' (fold insert_key ks js)"
  using assms
proof (induction ks arbitrary: t js)
  case (Cons k ks)
  from ins_stands [OF Cons.prems(1), of k] Cons.prems(2,3)
  obtain t' where t': "ins k t = Some t'" "stands t' (insert_key k js)" by auto
  from Cons.IH [OF t'(2)] Cons.prems t'(1) show ?case by (auto simp: set_insert_key)
qed simp

text \<open>What \<open>seek\<close> finds is the least key that is not below the bound.\<close>

lemma seek_least:
  assumes "stands t ks" and "valid k"
  shows "case seek t k of
      Some (Some j) \<Rightarrow> j \<in> set ks \<and> \<not> cmp j k < 0 \<and> (\<forall>i \<in> set ks. \<not> cmp i k < 0 \<longrightarrow> i = j \<or> cmp j i < 0)
    | Some None \<Rightarrow> \<forall>i \<in> set ks. cmp i k < 0
    | None \<Rightarrow> False"
proof (cases "dropWhile (\<lambda>j. cmp j k < 0) ks")
  case Nil
  then have "\<forall>i \<in> set ks. cmp i k < 0" by (simp add: dropWhile_eq_Nil_conv)
  then show ?thesis using seek_first [OF assms] unfolding Nil by (simp add: hd_opt_def)
next
  case (Cons j js)
  define us where "us = takeWhile (\<lambda>j. cmp j k < 0) ks"
  have ks: "ks = us @ j # js" using Cons takeWhile_dropWhile_id [of "\<lambda>j. cmp j k < 0" ks] by (simp add: us_def)
  have "\<not> cmp j k < 0" using Cons hd_dropWhile [of "\<lambda>j. cmp j k < 0" ks] by simp
  moreover have "cmp i k < 0" if "i \<in> set us" for i using that set_takeWhileD by (fastforce simp: us_def)
  moreover have "\<forall>i \<in> set js. cmp j i < 0"
    using stands_increasing [OF assms(1)] by (simp add: ks increasing_def sorted_wrt_append)
  ultimately show ?thesis using seek_first [OF assms] Cons by (auto simp: hd_opt_def ks)
qed

end

section \<open>The skip list is an ordered table\<close>

definition skip_stands :: "('k \<Rightarrow> 'k \<Rightarrow> int) \<Rightarrow> ('k \<Rightarrow> bool) \<Rightarrow> 'k SkipList \<Rightarrow> 'k list \<Rightarrow> bool" where
  "skip_stands cmp valid sl ks \<longleftrightarrow>
     sl_compare sl = cmp \<and> (\<exists>xs. skip_inv valid sl xs \<and> map (key_of sl) xs = ks)"

text \<open>The key at the position a \<open>Seek\<close> leads to.\<close>

definition skip_seek :: "'k SkipList \<Rightarrow> 'k \<Rightarrow> 'k option option" where
  "skip_seek sl t =
     (case SkipIter_Seek sl t of
        None \<Rightarrow> None
      | Some None \<Rightarrow> Some None
      | Some (Some x) \<Rightarrow> map_option Some (Node_key sl x))"

context key_preorder
begin

lemma dropWhile_not_below:
  assumes "increasing (map f xs)" and "valid t" and "y \<in> set (dropWhile (\<lambda>y. cmp (f y) t < 0) xs)"
  shows "\<not> cmp (f y) t < 0"
  using assms(1,3)
proof (induction xs)
  case (Cons x xs)
  show ?case
  proof (cases "cmp (f x) t < 0")
    case False
    with Cons.prems cmp_trans [of "f x" "f y" t] assms(2) show ?thesis
      by (auto simp: increasing_def)
  qed (use Cons in \<open>simp add: increasing_def\<close>)
qed simp

lemma skip_splits:
  assumes "sl_compare sl = cmp" and "skip_inv valid sl xs" and "valid t"
  defines "below \<equiv> \<lambda>y. cmp (key_of sl y) t < 0"
  shows "splits sl t (takeWhile below xs) (dropWhile below xs)"
proof -
  have "increasing (map (key_of sl) xs)" using assms(1,2) by (simp add: skip_inv_def)
  note vs = dropWhile_not_below [OF this assms(3)]
  show ?thesis
    unfolding splits_def assms(1) below_def
    by (intro conjI ballI) (rule set_takeWhileD [THEN conjunct2], assumption, rule vs)
qed

lemma map_while: "map f (takeWhile (P \<circ> f) xs) = takeWhile P (map f xs)"
  "map f (dropWhile (P \<circ> f) xs) = dropWhile P (map f xs)"
  by (simp_all add: takeWhile_map dropWhile_map)

lemma skip_search:
  assumes "sl_compare sl = cmp" and "skip_inv valid sl xs" and "valid t"
  defines "below \<equiv> \<lambda>y. cmp (key_of sl y) t < 0"
  shows "FindGreaterOrEqual sl t None = Some (head_opt (dropWhile below xs), None)"
    and "FindLessThan sl t = Some (last (0 # takeWhile below xs))"
proof -
  let ?us = "takeWhile below xs" and ?vs = "dropWhile below xs"
  have inv: "skip_nodes sl (?us @ ?vs)" using assms(2) by (simp add: skip_inv_def)
  have sp: "splits sl t ?us ?vs" using skip_splits [OF assms(1-3)] by (simp add: below_def)
  have "at_pos ?us 0 ?us" by (simp add: at_pos_def)
  moreover have "sl_max_height sl - 1 < height sl 0" using inv by (auto simp: skip_nodes_def)
  moreover have "set ?us \<subseteq> set (?us @ ?vs)" by (auto dest: set_takeWhileD)
  ultimately show "FindGreaterOrEqual sl t None = Some (head_opt ?vs, None)"
    and "FindLessThan sl t = Some (last (0 # ?us))"
    using fge_loop_finds [OF inv sp, of 0 ?us "sl_max_height sl - 1" None]
      flt_loop_finds [OF inv sp, of 0 ?us "sl_max_height sl - 1"]
      at_level_0 [OF inv, of ?us]
    by (auto simp: FindGreaterOrEqual_def FindLessThan_def simp del: last.simps)
qed

theorem skip_stands_insert:
  assumes "skip_stands cmp valid sl ks" and "valid k" and "\<forall>j \<in> set ks. cmp j k \<noteq> 0"
  shows "\<exists>sl'. SkipList_Insert k sl = Some sl' \<and> skip_stands cmp valid sl' (insert_key k ks)"
proof -
  from assms(1) obtain xs where cmp: "sl_compare sl = cmp" and xs: "skip_inv valid sl xs" "map (key_of sl) xs = ks"
    by (auto simp: skip_stands_def)
  define below where "below = (\<lambda>y. cmp (key_of sl y) k < 0)"
  let ?us = "takeWhile below xs" and ?vs = "dropWhile below xs" and ?x = "length (sl_nodes sl)"
  have inv: "skip_nodes sl (?us @ ?vs)" using xs by (simp add: skip_inv_def)
  have sp: "splits sl k ?us ?vs" using skip_splits [OF cmp xs(1) assms(2)] by (simp add: below_def)
  from SkipList_Insert_links [OF inv sp] obtain sl' where sl': "SkipList_Insert k sl = Some sl'"
    "skip_nodes sl' (?us @ ?x # ?vs)" "sl_compare sl' = sl_compare sl" "key_of sl' ?x = k"
    "\<forall>y \<in> set (?us @ ?vs). key_of sl' y = key_of sl y" by blast
  have "map (key_of sl') ?us = map (key_of sl) ?us" "map (key_of sl') ?vs = map (key_of sl) ?vs"
    using sl'(5) by (auto intro!: map_cong dest: set_takeWhileD set_dropWhileD)
  moreover have "map (key_of sl) ?us = takeWhile (\<lambda>j. cmp j k < 0) ks"
    "map (key_of sl) ?vs = dropWhile (\<lambda>j. cmp j k < 0) ks"
    using map_while [of "key_of sl" "\<lambda>j. cmp j k < 0" xs] xs(2) by (simp_all add: below_def comp_def)
  ultimately have keys: "map (key_of sl') (?us @ ?x # ?vs) = insert_key k ks"
    using sl'(4) by (simp add: insert_key_def)
  have "increasing ks" using xs cmp by (simp add: skip_inv_def)
  from increasing_insert_key [OF this assms(2,3)] keys cmp sl'
  have "skip_inv valid sl' (?us @ ?x # ?vs)" by (simp add: skip_inv_def)
  with keys sl'(1,3) cmp show ?thesis unfolding skip_stands_def by blast
qed

end

sublocale key_preorder \<subseteq> skip: ordered_table cmp valid "skip_stands cmp valid" SkipList_Insert skip_seek
proof
  fix sl ks assume "skip_stands cmp valid sl ks"
  then show "increasing ks" by (auto simp: skip_stands_def skip_inv_def)
next
  fix sl ks k assume "skip_stands cmp valid sl ks" and "valid k" and "\<forall>j \<in> set ks. cmp j k \<noteq> 0"
  then show "\<exists>sl'. SkipList_Insert k sl = Some sl' \<and> skip_stands cmp valid sl' (insert_key k ks)"
    by (rule skip_stands_insert)
next
  fix sl ks k assume s: "skip_stands cmp valid sl ks" and k: "valid k"
  from s obtain xs where cmp: "sl_compare sl = cmp" and xs: "skip_inv valid sl xs" "map (key_of sl) xs = ks"
    by (auto simp: skip_stands_def)
  have nodes: "\<forall>y \<in> set xs. Node_key sl y = Some (key_of sl y)"
    using xs(1) Node_key_of by (auto simp: skip_inv_def)
  let ?vs = "dropWhile (\<lambda>y. cmp (key_of sl y) k < 0) xs"
  have vs: "dropWhile (\<lambda>j. cmp j k < 0) ks = map (key_of sl) ?vs"
    using map_while(2) [of "key_of sl" "\<lambda>j. cmp j k < 0" xs] xs(2) by (simp add: comp_def)
  show "skip_seek sl k = Some (hd_opt (dropWhile (\<lambda>j. cmp j k < 0) ks))"
  proof (cases ?vs)
    case Nil
    show ?thesis using skip_search(1) [OF cmp xs(1) k] unfolding vs Nil
      by (simp add: skip_seek_def SkipIter_Seek_def head_opt_def hd_opt_def)
  next
    case (Cons y ys)
    then have "y \<in> set xs" by (metis list.set_intros(1) set_dropWhileD)
    with nodes skip_search(1) [OF cmp xs(1) k] show ?thesis unfolding vs Cons
      by (simp add: skip_seek_def SkipIter_Seek_def head_opt_def hd_opt_def)
  qed
qed

section \<open>Iterators\<close>

text \<open>The position of index \<open>i\<close> in the list of nodes; the end is null.\<close>

definition pos_at :: "nat list \<Rightarrow> nat \<Rightarrow> skip_iter" where
  "pos_at xs i = (if i < length xs then Some (xs ! i) else None)"

lemma skip_nodes_next:
  assumes "skip_nodes sl xs"
  shows "Node_Next sl 0 0 = Some (pos_at xs 0)"
    and "i < length xs \<Longrightarrow> Node_Next sl (xs ! i) 0 = Some (pos_at xs (Suc i))"
proof -
  have "at_level sl 0 xs = xs" using at_level_0 [OF assms] by simp
  moreover have "chain sl 0 0 (at_level sl 0 xs)" using assms by (simp add: skip_nodes_def kMaxHeight_def)
  ultimately have c: "chain sl 0 0 xs" by simp
  then show "Node_Next sl 0 0 = Some (pos_at xs 0)"
    by (cases xs) (simp_all add: pos_at_def)
  show "Node_Next sl (xs ! i) 0 = Some (pos_at xs (Suc i))" if i: "i < length xs"
  proof -
    have "chain sl 0 (xs ! i) (drop (Suc i) xs)"
      using chain_suffix [of sl 0 0 "take i xs" "xs ! i" "drop (Suc i) xs"] c i by (simp add: id_take_nth_drop [symmetric])
    then show ?thesis
      by (cases "Suc i < length xs") (simp_all add: pos_at_def flip: Cons_nth_drop_Suc)
  qed
qed

lemma skip_nodes_last:
  assumes "skip_nodes sl xs"
  shows "SkipIter_SeekToLast sl = Some (if xs = [] then None else Some (last xs))"
proof -
  have "at_pos xs 0 xs" by (simp add: at_pos_def)
  moreover have "sl_max_height sl - 1 < height sl 0" using assms by (auto simp: skip_nodes_def)
  ultimately have "FindLast sl = Some (last (0 # xs))"
    using last_loop_finds [OF assms, of 0 xs "sl_max_height sl - 1"] at_level_0 [OF assms, of xs]
    by (simp add: FindLast_def)
  moreover have "0 \<notin> set xs" using assms by (auto simp: skip_nodes_def)
  then have "xs \<noteq> [] \<Longrightarrow> last xs \<noteq> 0" using last_in_set [of xs] by metis
  ultimately show ?thesis by (cases "xs = []") (simp_all add: SkipIter_SeekToLast_def)
qed

text \<open>A client's loop over the list: the keys it sees, \<open>None\<close> for undefined behaviour or more than
  the given number of rounds.\<close>

fun skip_scan :: "('k SkipList \<Rightarrow> skip_iter \<Rightarrow> skip_iter option) \<Rightarrow> 'k SkipList \<Rightarrow> nat
    \<Rightarrow> skip_iter option \<Rightarrow> 'k list option" where
  "skip_scan move sl n None = None"
| "skip_scan move sl 0 (Some it) = (if SkipIter_Valid it then None else Some [])"
| "skip_scan move sl (Suc n) (Some it) =
     (if SkipIter_Valid it
      then (case SkipIter_key sl it of
              None \<Rightarrow> None
            | Some k \<Rightarrow> map_option (Cons k) (skip_scan move sl n (move sl it)))
      else Some [])"

lemma skip_scan_Next:
  assumes "skip_nodes sl xs"
  shows "i + n = length xs \<Longrightarrow>
    skip_scan SkipIter_Next sl n (Some (pos_at xs i)) = Some (map (key_of sl) (drop i xs))"
proof (induction n arbitrary: i)
  case 0
  then show ?case by (simp add: pos_at_def SkipIter_Valid_def)
next
  case (Suc n)
  then have i: "i < length xs" by simp
  have "SkipIter_Next sl (Some (xs ! i)) = Some (pos_at xs (Suc i))"
    using skip_nodes_next(2) [OF assms i] by (simp add: SkipIter_Next_def)
  with Suc i show ?case
    using Node_key_of [OF assms, of "xs ! i"]
    by (simp add: pos_at_def [of xs i] SkipIter_Valid_def SkipIter_key_def flip: Cons_nth_drop_Suc)
qed

context key_preorder
begin

lemma skip_Prev:
  assumes cmp: "sl_compare sl = cmp" and inv: "skip_inv valid sl xs" and i: "i < length xs"
  shows "SkipIter_Prev sl (Some (xs ! i)) = Some (if i = 0 then None else Some (xs ! (i - 1)))"
proof -
  have nodes: "skip_nodes sl xs" and inc: "increasing (map (key_of sl) xs)"
    using inv cmp by (simp_all add: skip_inv_def)
  have v: "valid (key_of sl (xs ! i))" using inc i by (simp add: increasing_def)
  have ord: "cmp (key_of sl (xs ! a)) (key_of sl (xs ! b)) < 0" if "a < b" "b < length xs" for a b
    using inc that sorted_wrt_nth_less [of "\<lambda>a b. cmp a b < 0" "map (key_of sl) xs" a b]
    by (simp add: increasing_def)
  have tw: "takeWhile (\<lambda>y. cmp (key_of sl y) (key_of sl (xs ! i)) < 0) xs = take i xs"
    by (rule takeWhile_eq_take_P_nth) (use ord i cmp_irrefl [OF v] in auto)
  have "0 \<notin> set xs" using nodes by (auto simp: skip_nodes_def)
  then have z: "xs ! (i - 1) \<noteq> 0" using i by (metis less_imp_diff_less nth_mem)
  have l: "last (0 # take i xs) = (if i = 0 then 0 else xs ! (i - 1))"
    using i by (auto simp: last_conv_nth)
  show ?thesis
    using skip_search(2) [OF cmp inv v] Node_key_of [OF nodes, of "xs ! i"] i z
    unfolding tw l by (auto simp: SkipIter_Prev_def SkipIter_key_def)
qed

lemma skip_scan_Prev:
  assumes cmp: "sl_compare sl = cmp" and inv: "skip_inv valid sl xs"
  shows "i < length xs \<Longrightarrow>
    skip_scan SkipIter_Prev sl (Suc i) (Some (Some (xs ! i))) = Some (rev (map (key_of sl) (take (Suc i) xs)))"
proof (induction i)
  case 0
  have "skip_nodes sl xs" using inv by (simp add: skip_inv_def)
  from Node_key_of [OF this, of "xs ! 0"] 0 skip_Prev [OF cmp inv 0] show ?case
    by (simp add: SkipIter_Valid_def SkipIter_key_def take_Suc_conv_app_nth)
next
  case (Suc i)
  have "skip_nodes sl xs" using inv by (simp add: skip_inv_def)
  note key = Node_key_of [OF this, of "xs ! Suc i"]
  have "skip_scan SkipIter_Prev sl (Suc (Suc i)) (Some (Some (xs ! Suc i))) =
      map_option (Cons (key_of sl (xs ! Suc i))) (skip_scan SkipIter_Prev sl (Suc i) (Some (Some (xs ! i))))"
    using key Suc.prems skip_Prev [OF cmp inv Suc.prems] by (simp add: SkipIter_Valid_def SkipIter_key_def)
  with Suc show ?case by (simp add: take_Suc_conv_app_nth [of "Suc i"] del: skip_scan.simps)
qed

theorem skip_scans:
  assumes "skip_stands cmp valid sl ks"
  shows "skip_scan SkipIter_Next sl (length ks) (SkipIter_SeekToFirst sl) = Some ks"
    and "skip_scan SkipIter_Prev sl (length ks) (SkipIter_SeekToLast sl) = Some (rev ks)"
proof -
  from assms obtain xs where cmp: "sl_compare sl = cmp" and xs: "skip_inv valid sl xs" "map (key_of sl) xs = ks"
    by (auto simp: skip_stands_def)
  then have nodes: "skip_nodes sl xs" and len: "length ks = length xs" by (auto simp: skip_inv_def)
  show "skip_scan SkipIter_Next sl (length ks) (SkipIter_SeekToFirst sl) = Some ks"
    using skip_scan_Next [OF nodes, of 0 "length xs"] skip_nodes_next(1) [OF nodes] xs(2) len
    by (simp add: SkipIter_SeekToFirst_def)
  show "skip_scan SkipIter_Prev sl (length ks) (SkipIter_SeekToLast sl) = Some (rev ks)"
  proof (cases "xs = []")
    case True
    with skip_nodes_last [OF nodes] xs(2) show ?thesis by (auto simp: SkipIter_Valid_def)
  next
    case False
    then obtain n where n: "length xs = Suc n" by (cases xs) auto
    then have "last xs = xs ! n" using False by (simp add: last_conv_nth)
    with skip_scan_Prev [OF cmp xs(1), of n] skip_nodes_last [OF nodes] False n xs(2) len
    show ?thesis by (simp del: skip_scan.simps)
  qed
qed

lemmas skip_fold_ins = skip.fold_ins
lemmas skip_seek_first = skip.seek_first
lemmas skip_seek_least = skip.seek_least

lemma skip_contains:
  assumes "skip_stands cmp valid sl ks" and "valid t"
  shows "SkipList_Contains sl t = Some (\<exists>k \<in> set ks. cmp t k = 0)"
proof -
  from assms(1) obtain xs where cmp: "sl_compare sl = cmp" and xs: "skip_inv valid sl xs" "map (key_of sl) xs = ks"
    by (auto simp: skip_stands_def)
  have nodes: "skip_nodes sl xs" and inc: "increasing ks" using xs cmp by (auto simp: skip_inv_def)
  let ?vs = "dropWhile (\<lambda>y. cmp (key_of sl y) t < 0) xs"
  have eq: "cmp t k = 0 \<longleftrightarrow> \<not> cmp k t < 0 \<and> \<not> cmp t k < 0" if "valid k" for k
    using cmp_flip [OF that assms(2)] by linarith
  have "(\<exists>k \<in> set ks. cmp t k = 0) \<longleftrightarrow> (case ?vs of [] \<Rightarrow> False | y # _ \<Rightarrow> cmp t (key_of sl y) = 0)"
  proof (cases ?vs)
    case Nil
    then have "\<forall>y \<in> set xs. cmp (key_of sl y) t < 0" by (simp add: dropWhile_eq_Nil_conv)
    then have "\<forall>k \<in> set ks. cmp t k \<noteq> 0" using eq inc xs(2) by (auto simp: increasing_def)
    then show ?thesis unfolding Nil by simp
  next
    case (Cons y ys)
    define us where "us = takeWhile (\<lambda>y. cmp (key_of sl y) t < 0) xs"
    have spl: "xs = us @ y # ys" using Cons takeWhile_dropWhile_id [of "\<lambda>y. cmp (key_of sl y) t < 0" xs] by (simp add: us_def)
    have val: "valid (key_of sl z)" if "z \<in> set xs" for z using inc xs(2) that by (auto simp: increasing_def)
    have us: "cmp t (key_of sl z) \<noteq> 0" if "z \<in> set us" for z
      using that eq [OF val, of z] set_takeWhileD [of z] by (auto simp: us_def)
    have y: "\<not> cmp (key_of sl y) t < 0" using Cons hd_dropWhile [of "\<lambda>y. cmp (key_of sl y) t < 0" xs] by simp
    have "cmp t (key_of sl y) = 0" if "z \<in> set ys" "cmp t (key_of sl z) = 0" for z
    proof -
      have vz: "valid (key_of sl z)" "valid (key_of sl y)" using val that(1) spl by auto
      have "cmp (key_of sl y) (key_of sl z) < 0"
        using inc that(1) spl xs(2) by (auto simp: increasing_def sorted_wrt_append)
      then have "\<not> cmp t (key_of sl y) < 0" using cmp_trans [OF assms(2) vz(2,1)] that(2) by auto
      with y eq [OF vz(2)] show ?thesis by simp
    qed
    then show ?thesis unfolding Cons using us spl xs(2) by auto
  qed
  moreover have "SkipList_Contains sl t = Some (case ?vs of [] \<Rightarrow> False | y # _ \<Rightarrow> cmp t (key_of sl y) = 0)"
  proof (cases ?vs)
    case Nil
    show ?thesis using skip_search(1) [OF cmp xs(1) assms(2)] unfolding Nil
      by (simp add: SkipList_Contains_def head_opt_def)
  next
    case (Cons y ys)
    then have "y \<in> set xs" by (metis list.set_intros(1) set_dropWhileD)
    from Node_key_of [OF nodes this] skip_search(1) [OF cmp xs(1) assms(2)] show ?thesis unfolding Cons
      by (simp add: SkipList_Contains_def head_opt_def cmp)
  qed
  ultimately show ?thesis by simp
qed

end

section \<open>A new list\<close>

lemma make_SkipList_stands:
  "\<exists>sl. make_SkipList cmp = Some sl \<and> sl_compare sl = cmp \<and> skip_nodes sl []"
proof -
  define sl where "sl = snd (NewNode None kMaxHeight
      \<lparr>sl_compare = cmp, sl_nodes = [], sl_max_height = 1, sl_rnd = make_Random 0xdeadbeef\<rparr>)"
  have len: "length (sl_nodes sl) = 1" "height sl 0 = kMaxHeight" "sl_max_height sl = 1"
    by (simp_all add: sl_def NewNode_def height_def)
  have "\<exists>s. fold (\<lambda>i s. Option.bind s (Node_SetNext 0 i None)) [0..<n] (Some sl) = Some s
      \<and> sl_compare s = cmp \<and> length (sl_nodes s) = 1 \<and> height s 0 = kMaxHeight \<and> sl_max_height s = 1
      \<and> (\<forall>l < n. Node_Next s 0 l = Some None)" if "n \<le> kMaxHeight" for n
    using that
  proof (induction n)
    case 0
    then show ?case using len by (simp add: sl_def NewNode_def)
  next
    case (Suc n)
    then obtain s where s: "fold (\<lambda>i s. Option.bind s (Node_SetNext 0 i None)) [0..<n] (Some sl) = Some s"
      "sl_compare s = cmp" "length (sl_nodes s) = 1" "height s 0 = kMaxHeight" "sl_max_height s = 1"
      "\<forall>l < n. Node_Next s 0 l = Some None" by auto
    have "0 < length (sl_nodes s)" "n < height s 0" using s Suc.prems by auto
    from Node_SetNext_Some [OF this, of None] s show ?case by (auto simp: less_Suc_eq)
  qed
  from this [OF order_refl] obtain s where
    "fold (\<lambda>i s. Option.bind s (Node_SetNext 0 i None)) [0..<kMaxHeight] (Some sl) = Some s"
    "sl_compare s = cmp" "length (sl_nodes s) = 1" "height s 0 = kMaxHeight" "sl_max_height s = 1"
    "\<forall>l < kMaxHeight. Node_Next s 0 l = Some None" by auto
  then show ?thesis
    by (auto simp: make_SkipList_def Let_def NewNode_def sl_def skip_nodes_def kMaxHeight_def)
qed

section \<open>Properties\<close>

text \<open>C10: insert any keys of which no two compare equal, in any order, into a
  new skip list. Every insertion succeeds whatever heights are drawn, and the list then refines the
  sorted list of these keys: iterating forward from \<open>SeekToFirst\<close> gives them in increasing order,
  iterating backward from \<open>SeekToLast\<close> in decreasing order, \<open>Contains\<close> decides whether a key that
  compares equal is there, and \<open>Seek\<close> finds the first key at or after its target. Every search loop
  ends, and no link outside a node's array or not yet initialised is read.\<close>

theorem skiplist_refines:
  assumes "key_preorder cmp valid" and "\<forall>k \<in> set ks. valid k"
    and "sorted_wrt (\<lambda>j k. cmp j k \<noteq> 0) ks"
  shows "case fold (\<lambda>k s. Option.bind s (SkipList_Insert k)) ks (make_SkipList cmp) of
      None \<Rightarrow> False
    | Some sl \<Rightarrow>
        (let srt = fold (key_preorder.insert_key cmp) ks []
         in sorted_wrt (\<lambda>a b. cmp a b < 0) srt \<and> set srt = set ks
            \<and> skip_scan SkipIter_Next sl (length srt) (SkipIter_SeekToFirst sl) = Some srt
            \<and> skip_scan SkipIter_Prev sl (length srt) (SkipIter_SeekToLast sl) = Some (rev srt)
            \<and> (\<forall>t. valid t \<longrightarrow> SkipList_Contains sl t = Some (\<exists>k \<in> set ks. cmp t k = 0)
                 \<and> skip_seek sl t = Some (hd_opt (dropWhile (\<lambda>j. cmp j t < 0) srt))))"
proof -
  let ?ins = "key_preorder.insert_key cmp"
  from make_SkipList_stands [of cmp] obtain sl0 where sl0: "make_SkipList cmp = Some sl0"
    "sl_compare sl0 = cmp" "skip_nodes sl0 []" by blast
  have inc: "key_preorder.increasing cmp valid []" by (simp add: key_preorder.increasing_def [OF assms(1)])
  then have "skip_stands cmp valid sl0 []" using sl0 by (auto simp: skip_stands_def skip_inv_def)
  from key_preorder.skip_fold_ins [OF assms(1) this assms(2) _ assms(3)]
  obtain sl where sl: "fold (\<lambda>k t. Option.bind t (SkipList_Insert k)) ks (Some sl0) = Some sl"
    "skip_stands cmp valid sl (fold ?ins ks [])" by auto
  have "set (fold ?ins ks js) = set ks \<union> set js" for js
    by (induction ks arbitrary: js) (auto simp: key_preorder.set_insert_key [OF assms(1)])
  then have set: "set (fold ?ins ks []) = set ks" by simp
  have "key_preorder.increasing cmp valid (fold ?ins ks [])"
    using sl(2) by (auto simp: skip_stands_def skip_inv_def)
  then have "sorted_wrt (\<lambda>a b. cmp a b < 0) (fold ?ins ks [])"
    by (simp add: key_preorder.increasing_def [OF assms(1)])
  then show ?thesis
    using sl set key_preorder.skip_scans [OF assms(1) sl(2)] key_preorder.skip_contains [OF assms(1) sl(2)]
      key_preorder.skip_seek_first [OF assms(1) sl(2)]
    by (simp add: sl0(1) Let_def)
qed

theorem skiplist_refines_witness:
  "case fold (\<lambda>k s. Option.bind s (SkipList_Insert k)) [[5], [1], [3 :: byte]] (make_SkipList slice_compare) of
      None \<Rightarrow> False
    | Some sl \<Rightarrow> skip_scan SkipIter_Next sl 3 (SkipIter_SeekToFirst sl) = Some [[1], [3], [5]]
        \<and> SkipList_Contains sl [3] = Some True \<and> skip_seek sl [4] = Some (Some [5])"
proof -
  have pre: "key_preorder slice_compare (\<lambda>_. True)"
    using bytewise.key_preorder_axioms by (simp add: BytewiseComparator_def)
  note r = skiplist_refines [OF pre, of "[[5], [1], [3]]"]
  have "fold (key_preorder.insert_key slice_compare) [[5], [1], [3]] [] = [[1], [3], [5]]"
    by (simp add: key_preorder.insert_key_def [OF pre])
  with r show ?thesis
    by (auto simp: hd_opt_def numeral_3_eq_3 Let_def split: option.splits)
qed

text \<open>The multiplication by 16807 modulo \<open>2^31 - 1\<close>, split at bit 31.\<close>

lemma lehmer_split:
  fixes u :: nat
  shows "u * 16807 mod 2147483647 = (u * 16807 div 2147483648 + u * 16807 mod 2147483648) mod 2147483647"
proof -
  let ?q = "u * 16807 div 2147483648" and ?r = "u * 16807 mod 2147483648"
  have "u * 16807 = ?q * 2147483648 + ?r" by (rule div_mult_mod_eq [symmetric])
  also have "\<dots> = (?q + ?r) + ?q * 2147483647" by simp
  finally show ?thesis by (metis mod_mult_self1)
qed

lemma lehmer_nonzero:
  assumes "0 < u" and "u < (2147483647 :: nat)"
  shows "u * 16807 mod 2147483647 \<noteq> 0"
proof
  assume "u * 16807 mod 2147483647 = 0"
  then have "2147483647 dvd u * 16807" by (simp add: mod_eq_0_iff_dvd)
  then have "2147483647 dvd u * 16807 * 1407677000" by (rule dvd_mult2)
  moreover have "u * 16807 * 1407677000 = u + 2147483647 * (11017 * u)" by simp
  ultimately have "2147483647 dvd u" by (metis dvd_add_left_iff dvd_triv_left)
  with assms show False by (auto dest: dvd_imp_le)
qed

lemma and_mask_31:
  "unat (x AND 2147483647 :: uint64) = unat x mod 2147483648"
  "unat (y AND 2147483647 :: uint32) = unat y mod 2147483648"
proof -
  have "(2147483647 :: uint64) = mask 31" "(2147483647 :: uint32) = mask 31"
    by (simp_all add: mask_eq_exp_minus_1)
  then have "x AND 2147483647 = take_bit 31 x" "y AND 2147483647 = take_bit 31 y"
    by (simp_all add: take_bit_eq_mask)
  then show "unat (x AND 2147483647) = unat x mod 2147483648" "unat (y AND 2147483647) = unat y mod 2147483648"
    by (simp_all only: unat_take_bit) simp_all
qed

text \<open>The sum of the two halves of the product, before the final subtraction.\<close>

lemma random_sum:
  assumes "seed < (2147483647 :: uint32)"
  defines "product \<equiv> (ucast seed :: uint64) * 16807"
  shows "unat (ucast (drop_bit 31 product + (product AND 2147483647)) :: uint32)
    = unat seed * 16807 div 2147483648 + unat seed * 16807 mod 2147483648"
proof -
  define u where "u = unat seed"
  have u: "u < 2147483647" using assms(1) by (simp add: u_def word_less_nat_alt)
  have "product = of_nat (u * 16807)" by (simp add: product_def u_def)
  then have "unat product = u * 16807 mod 2 ^ 64" by (simp only: unat_of_nat) simp
  then have p: "unat product = u * 16807" using u by simp
  define q r where "q = u * 16807 div 2147483648" and "r = u * 16807 mod 2147483648"
  have qr: "r < 2147483648" "q < 16807" using u by (auto simp: q_def r_def less_mult_imp_div_less)
  have "unat (drop_bit 31 product) = q" by (simp add: unat_drop_bit p q_def)
  moreover have "unat (product AND 2147483647) = r" by (simp only: and_mask_31 p r_def)
  ultimately have sum: "unat (drop_bit 31 product + (product AND 2147483647)) = q + r"
    using qr by (simp add: unat_word_ariths)
  then have "(ucast (drop_bit 31 product + (product AND 2147483647)) :: uint32) = of_nat (q + r)"
    by (simp flip: sum)
  then show ?thesis using qr unfolding u_def [symmetric] q_def [symmetric] r_def [symmetric]
    by (simp add: unat_of_nat del: of_nat_add)
qed

lemma Random_Next_value:
  assumes "0 < seed" and "seed < 2147483647"
  shows "unat (fst (Random_Next seed)) = unat seed * 16807 mod 2147483647"
    "snd (Random_Next seed) = fst (Random_Next seed)"
proof -
  let ?n = "unat seed * 16807"
  define product where "product = (ucast seed :: uint64) * 16807"
  define v where "v = (ucast (drop_bit 31 product + (product AND 2147483647)) :: uint32)"
  define t where "t = ?n div 2147483648 + ?n mod 2147483648"
  have v: "unat v = t" using random_sum [OF assms(2)] by (simp add: v_def product_def t_def)
  have small: "t < 2147483647 + 2147483647"
  proof -
    have "?n div 2147483648 < 16807" using assms(2) by (simp add: word_less_nat_alt less_mult_imp_div_less)
    moreover have "?n mod 2147483648 < 2147483648" by simp
    ultimately show ?thesis by (simp add: t_def)
  qed
  have m: "?n mod 2147483647 = t mod 2147483647" unfolding t_def by (rule lehmer_split)
  have nz: "t mod 2147483647 \<noteq> 0"
    using lehmer_nonzero [of "unat seed"] assms by (simp add: word_less_nat_alt m)
  have eq: "Random_Next seed = (if v > 2147483647 then (v - 2147483647, v - 2147483647) else (v, v))"
    by (simp add: Random_Next_def Let_def v_def product_def)
  show "snd (Random_Next seed) = fst (Random_Next seed)" by (simp add: eq)
  show "unat (fst (Random_Next seed)) = ?n mod 2147483647"
  proof (cases "v > 2147483647")
    case True
    then have "2147483647 \<le> v" by simp
    from unat_sub [OF this] v have "unat (v - 2147483647) = t - 2147483647" by simp
    with True v small m show ?thesis by (simp add: eq word_less_nat_alt mod_if)
  next
    case False
    have "t \<noteq> 2147483647" using nz by auto
    with False v have "t < 2147483647" by (simp add: word_less_nat_alt)
    with False v m show ?thesis by (simp add: eq)
  qed
qed

lemma make_Random_range: "0 < make_Random s" "make_Random s < 2147483647"
proof -
  define w where "w = s AND 2147483647"
  have "unat w < 2147483648" unfolding w_def and_mask_31 by simp
  then have "w < 2147483647" if "w \<noteq> 2147483647"
    using that by (simp add: word_less_nat_alt word_unat_eq_iff)
  then show "0 < make_Random s" "make_Random s < 2147483647"
    unfolding make_Random_def Let_def w_def [symmetric] by (auto simp: word_gt_0)
qed

text \<open>For every seed the constructor produces, \<open>Random::Next\<close> computes the
  Lehmer generator \<open>seed * 16807 mod (2^31 - 1)\<close>, although it only shifts, masks, adds and subtracts
  once; the new seed is again between 1 and \<open>2^31 - 2\<close>, so the generator never gets stuck.\<close>

theorem random_next_lehmer:
  assumes "0 < seed" and "seed < 2147483647"
  shows "unat (fst (Random_Next seed)) = unat seed * 16807 mod 2147483647
    \<and> snd (Random_Next seed) = fst (Random_Next seed)
    \<and> 0 < fst (Random_Next seed) \<and> fst (Random_Next seed) < 2147483647
    \<and> 0 < make_Random s \<and> make_Random s < 2147483647"
proof -
  have "unat seed * 16807 mod 2147483647 \<noteq> 0"
    using assms by (intro lehmer_nonzero) (simp_all add: word_less_nat_alt)
  then have "0 < fst (Random_Next seed)" "fst (Random_Next seed) < 2147483647"
    unfolding word_less_nat_alt Random_Next_value [OF assms] by simp_all
  then show ?thesis using Random_Next_value [OF assms] make_Random_range by simp
qed

theorem random_next_lehmer_witness:
  "fst (Random_Next 12345) = 207482415 \<and> make_Random 0 = 1 \<and> 0 < fst (Random_Next 12345)"
  using random_next_lehmer [of 12345 0]
  by (simp add: word_unat_eq_iff make_Random_def)

end
