(* ===== verification/Ldb_Status.thy ===== *)
theory Ldb_Status
  imports Main
begin

text \<open>LevelDB: the result type of most operations.\<close>

section \<open>Status\<close>

text \<open>\<open>include/leveldb/status.h\<close>, \<open>util/status.cc\<close>: the code and the message; a second message is
  appended after a colon.\<close>

datatype Status_code = kNotFound | kCorruption | kNotSupported | kInvalidArgument | kIOError

datatype Status = OK | Error Status_code string

definition make_Status :: "Status_code \<Rightarrow> string \<Rightarrow> string \<Rightarrow> Status" where
  "make_Status code msg msg2 = Error code (if msg2 = [] then msg else msg @ '': '' @ msg2)"

abbreviation Corruption :: "string \<Rightarrow> Status" where
  "Corruption msg \<equiv> make_Status kCorruption msg []"

fun Status_ToString :: "Status \<Rightarrow> string" where
  "Status_ToString OK = ''OK''"
| "Status_ToString (Error kNotFound m) = ''NotFound: '' @ m"
| "Status_ToString (Error kCorruption m) = ''Corruption: '' @ m"
| "Status_ToString (Error kNotSupported m) = ''Not implemented: '' @ m"
| "Status_ToString (Error kInvalidArgument m) = ''Invalid argument: '' @ m"
| "Status_ToString (Error kIOError m) = ''IO error: '' @ m"

end
