(* ===== verification/Ldb_MemTable.thy ===== *)
theory Ldb_MemTable
  imports Ldb_SkipList_Correct Ldb_Status
begin

text \<open>
  LevelDB: the memtable (\<open>db/memtable.h\<close>, \<open>db/memtable.cc\<close>), a skip list of entries. A key of the skip
  list, a pointer to an entry in the arena, is the list of the bytes of that entry. \<open>None\<close> is
  undefined behaviour of the skip list below. The memory of the arena is not modelled.
\<close>

text \<open>\<open>GetLengthPrefixedSlice(const char*)\<close>: the slice, and the bytes behind it. The code assumes
  that the bytes are not corrupt; where they are the result stands for garbage.\<close>

definition mem_prefixed_slice :: "byte list \<Rightarrow> slice \<times> byte list" where
  "mem_prefixed_slice dat =
     (case GetVarint32Ptr (take 5 dat) of
        None \<Rightarrow> ([], [])
      | Some (len, q) \<Rightarrow>
          (let p = drop (length (take 5 dat) - length q) dat
           in (take (unat len) p, drop (unat len) p)))"

record MemTable =
  mt_user_comparator :: Comparator
  mt_refs :: int
  mt_table :: "slice SkipList"

definition mem_compare :: "Comparator \<Rightarrow> byte list \<Rightarrow> byte list \<Rightarrow> int" where
  "mem_compare user aptr bptr =
     (let a = fst (mem_prefixed_slice aptr); b = fst (mem_prefixed_slice bptr)
      in Compare (InternalKeyComparator user) a b)"

definition make_MemTable :: "Comparator \<Rightarrow> MemTable option" where
  "make_MemTable user =
     map_option (\<lambda>t. \<lparr>mt_user_comparator = user, mt_refs = 0, mt_table = t\<rparr>)
       (make_SkipList (mem_compare user))"

definition MemTable_Ref :: "MemTable \<Rightarrow> MemTable" where
  "MemTable_Ref m = m\<lparr>mt_refs := mt_refs m + 1\<rparr>"

text \<open>\<open>None\<close>: the table is deleted.\<close>

definition MemTable_Unref :: "MemTable \<Rightarrow> MemTable option" where
  "MemTable_Unref m = (let r = mt_refs m - 1 in if r \<le> 0 then None else Some (m\<lparr>mt_refs := r\<rparr>))"

definition EncodeKey :: "slice \<Rightarrow> byte list" where
  "EncodeKey target = PutVarint32 [] (of_nat (length target)) @ target"

text \<open>The bytes \<open>Add\<close> writes, and the size of the buffer it allocates for them.\<close>

definition mem_entry :: "SequenceNumber \<Rightarrow> ValueType \<Rightarrow> slice \<Rightarrow> slice \<Rightarrow> byte list" where
  "mem_entry s t key val =
     EncodeVarint32 (of_nat (length key + 8)) @ key
     @ EncodeFixed64 (push_bit 8 s OR of_nat (ValueType_code t))
     @ EncodeVarint32 (of_nat (length val)) @ val"

definition mem_encoded_len :: "slice \<Rightarrow> slice \<Rightarrow> nat" where
  "mem_encoded_len key val =
     (let internal_key_size = length key + 8
      in VarintLength (of_nat internal_key_size) + internal_key_size
         + VarintLength (of_nat (length val)) + length val)"

definition MemTable_Add :: "SequenceNumber \<Rightarrow> ValueType \<Rightarrow> slice \<Rightarrow> slice \<Rightarrow> MemTable \<Rightarrow> MemTable option" where
  "MemTable_Add s t key val m =
     map_option (\<lambda>tab. m\<lparr>mt_table := tab\<rparr>) (SkipList_Insert (mem_entry s t key val) (mt_table m))"

text \<open>\<open>Get\<close>: whether the table decides the key, and the two output parameters.\<close>

definition MemTable_Get :: "LookupKey \<Rightarrow> MemTable \<Rightarrow> slice \<Rightarrow> Status \<Rightarrow> (bool \<times> slice \<times> Status) option" where
  "MemTable_Get key m val st =
     (case SkipIter_Seek (mt_table m) (memtable_key key) of
        None \<Rightarrow> None
      | Some iter \<Rightarrow>
          if SkipIter_Valid iter
          then (case SkipIter_key (mt_table m) iter of
                  None \<Rightarrow> None
                | Some entry \<Rightarrow>
                    (case GetVarint32Ptr (take 5 entry) of
                       None \<Rightarrow> None
                     | Some (key_length, q) \<Rightarrow>
                         (let key_ptr = drop (length (take 5 entry) - length q) entry;
                              klen = unat key_length
                          in if Compare (mt_user_comparator m) (take (klen - 8) key_ptr) (lookup_user_key key) = 0
                             then (let tag = DecodeFixed64 (drop (klen - 8) key_ptr); c = tag AND 0xff
                                   in if c = of_nat (ValueType_code kTypeValue)
                                      then Some (True, fst (mem_prefixed_slice (drop klen key_ptr)), st)
                                      else if c = of_nat (ValueType_code kTypeDeletion)
                                      then Some (True, val, make_Status kNotFound [] [])
                                      else Some (False, val, st))
                             else Some (False, val, st))))
          else Some (False, val, st))"

section \<open>The iterator\<close>

text \<open>\<open>MemTableIterator\<close> passes every call on to the iterator of the skip list.\<close>

definition MemIter_Seek :: "MemTable \<Rightarrow> slice \<Rightarrow> skip_iter option" where
  "MemIter_Seek m k = SkipIter_Seek (mt_table m) (EncodeKey k)"

definition MemIter_key :: "MemTable \<Rightarrow> skip_iter \<Rightarrow> slice option" where
  "MemIter_key m it = map_option (\<lambda>e. fst (mem_prefixed_slice e)) (SkipIter_key (mt_table m) it)"

definition MemIter_value :: "MemTable \<Rightarrow> skip_iter \<Rightarrow> slice option" where
  "MemIter_value m it =
     map_option (\<lambda>e. fst (mem_prefixed_slice (snd (mem_prefixed_slice e)))) (SkipIter_key (mt_table m) it)"

end
