(* ===== verification/Ldb_WriteBatch.thy ===== *)
theory Ldb_WriteBatch
  imports Ldb_MemTable
begin

text \<open>
  LevelDB: write batches (\<open>db/write_batch.cc\<close>). A batch is its string \<open>rep_\<close>: an eight-byte sequence
  number, a four-byte count, and the records. A \<open>Handler\<close> is a state with the functions that the two
  virtual members apply to it.
\<close>

type_synonym WriteBatch = "byte list"

definition kHeader :: nat where "kHeader = 12"

definition WriteBatch_Clear :: WriteBatch where
  "WriteBatch_Clear = replicate kHeader 0"

definition ApproximateSize :: "WriteBatch \<Rightarrow> nat" where
  "ApproximateSize rep = length rep"

text \<open>\<open>int\<close> is 32 bits wide: the conversion from and to \<open>uint32_t\<close> keeps the bits.\<close>

definition Count :: "WriteBatch \<Rightarrow> int" where
  "Count rep = sint (DecodeFixed32 (drop 8 rep))"

definition SetCount :: "int \<Rightarrow> WriteBatch \<Rightarrow> WriteBatch" where
  "SetCount n rep = take 8 rep @ EncodeFixed32 (of_int n) @ drop 12 rep"

definition Sequence :: "WriteBatch \<Rightarrow> SequenceNumber" where
  "Sequence rep = DecodeFixed64 rep"

definition SetSequence :: "SequenceNumber \<Rightarrow> WriteBatch \<Rightarrow> WriteBatch" where
  "SetSequence seq rep = EncodeFixed64 seq @ drop 8 rep"

definition WriteBatch_Put :: "slice \<Rightarrow> slice \<Rightarrow> WriteBatch \<Rightarrow> WriteBatch" where
  "WriteBatch_Put key val rep =
     PutLengthPrefixedSlice (PutLengthPrefixedSlice
       (SetCount (Count rep + 1) rep @ [of_nat (ValueType_code kTypeValue)]) key) val"

definition WriteBatch_Delete :: "slice \<Rightarrow> WriteBatch \<Rightarrow> WriteBatch" where
  "WriteBatch_Delete key rep =
     PutLengthPrefixedSlice (SetCount (Count rep + 1) rep @ [of_nat (ValueType_code kTypeDeletion)]) key"

definition WriteBatch_Append :: "WriteBatch \<Rightarrow> WriteBatch \<Rightarrow> WriteBatch" where
  "WriteBatch_Append dst src = SetCount (Count dst + Count src) dst @ drop kHeader src"

definition SetContents :: "slice \<Rightarrow> WriteBatch" where
  "SetContents contents = contents"

section \<open>Reading a batch\<close>

record 'h Handler =
  h_Put :: "slice \<Rightarrow> slice \<Rightarrow> 'h \<Rightarrow> 'h"
  h_Delete :: "slice \<Rightarrow> 'h \<Rightarrow> 'h"

text \<open>The loop of \<open>Iterate\<close> with its counter \<open>found\<close>.\<close>

function iterate_loop :: "'h Handler \<Rightarrow> slice \<Rightarrow> int \<Rightarrow> 'h \<Rightarrow> (Status + int) \<times> 'h" where
  "iterate_loop handler input found h =
     (case input of
        [] \<Rightarrow> (Inr found, h)
      | tag # input \<Rightarrow>
          if unat tag = ValueType_code kTypeValue
          then (case rbind (GetLengthPrefixedSlice input) (\<lambda>key input.
                       rbind (GetLengthPrefixedSlice input) (\<lambda>val input. Ret (key, val) input)) of
                  Ret (key, val) input \<Rightarrow> iterate_loop handler input (found + 1) (h_Put handler key val h)
                | _ \<Rightarrow> (Inl (Corruption ''bad WriteBatch Put''), h))
          else if unat tag = ValueType_code kTypeDeletion
          then (case GetLengthPrefixedSlice input of
                  Ret key input \<Rightarrow> iterate_loop handler input (found + 1) (h_Delete handler key h)
                | _ \<Rightarrow> (Inl (Corruption ''bad WriteBatch Delete''), h))
          else (Inl (Corruption ''unknown WriteBatch tag''), h))"
  by pat_completeness auto
termination
  by (relation "measure (\<lambda>(_, input, _, _). length input)")
     (auto simp: rbind_Ret_iff dest!: shortens_Ret [OF shortens_GetLengthPrefixedSlice])

declare iterate_loop.simps [simp del]

definition Iterate :: "'h Handler \<Rightarrow> WriteBatch \<Rightarrow> 'h \<Rightarrow> Status \<times> 'h" where
  "Iterate handler rep h =
     (if length rep < kHeader then (Corruption ''malformed WriteBatch (too small)'', h)
      else (case iterate_loop handler (drop kHeader rep) 0 h of
              (Inl st, h) \<Rightarrow> (st, h)
            | (Inr found, h) \<Rightarrow>
                (if found \<noteq> Count rep then Corruption ''WriteBatch has wrong count'' else OK, h)))"

text \<open>\<open>MemTableInserter\<close>: the state is the next sequence number and the table, \<open>None\<close> after
  undefined behaviour.\<close>

definition MemTableInserter :: "(SequenceNumber \<times> MemTable option) Handler" where
  "MemTableInserter =
     \<lparr>h_Put = (\<lambda>key val (s, m). (s + 1, Option.bind m (MemTable_Add s kTypeValue key val))),
      h_Delete = (\<lambda>key (s, m). (s + 1, Option.bind m (MemTable_Add s kTypeDeletion key [])))\<rparr>"

definition InsertInto :: "WriteBatch \<Rightarrow> MemTable option \<Rightarrow> Status \<times> MemTable option" where
  "InsertInto rep m = (let (st, _, m) = Iterate MemTableInserter rep (Sequence rep, m) in (st, m))"

end
