(* ===== verification/Ldb_Write_Correct.thy ===== *)
theory Ldb_Write_Correct
  imports Ldb_WriteBatch
begin

text \<open>
  Writes and reads of the memory-resident part of the database: a batch holds the operations put
  into it, a memtable answers a lookup at a sequence number with the newest entry at or below it,
  and a batch inserted into a memtable is read back as the map that its operations describe.
\<close>

section \<open>Batches\<close>

datatype op = OpPut slice slice | OpDelete slice

fun batch_op :: "op \<Rightarrow> WriteBatch \<Rightarrow> WriteBatch" where
  "batch_op (OpPut k v) rep = WriteBatch_Put k v rep"
| "batch_op (OpDelete k) rep = WriteBatch_Delete k rep"

fun handle_op :: "'h Handler \<Rightarrow> op \<Rightarrow> 'h \<Rightarrow> 'h" where
  "handle_op h (OpPut k v) = h_Put h k v"
| "handle_op h (OpDelete k) = h_Delete h k"

fun op_fits :: "op \<Rightarrow> bool" where
  "op_fits (OpPut k v) \<longleftrightarrow> length k + 8 < 2 ^ 32 \<and> length v < 2 ^ 32"
| "op_fits (OpDelete k) \<longleftrightarrow> length k + 8 < 2 ^ 32"

fun op_bytes :: "op \<Rightarrow> byte list" where
  "op_bytes (OpPut k v) = 1 # PutLengthPrefixedSlice [] k @ PutLengthPrefixedSlice [] v"
| "op_bytes (OpDelete k) = 0 # PutLengthPrefixedSlice [] k"

definition batch_rep :: "SequenceNumber \<Rightarrow> op list \<Rightarrow> WriteBatch" where
  "batch_rep s ops = EncodeFixed64 s @ EncodeFixed32 (of_nat (length ops)) @ concat (map op_bytes ops)"

lemma length_batch_rep [simp]: "\<not> length (batch_rep s ops) < 12"
  by (simp add: batch_rep_def)

lemma batch_rep_parts:
  "take 8 (batch_rep s ops) = EncodeFixed64 s"
  "drop 8 (batch_rep s ops) = EncodeFixed32 (of_nat (length ops)) @ concat (map op_bytes ops)"
  "drop 12 (batch_rep s ops) = concat (map op_bytes ops)"
  by (simp_all add: batch_rep_def)

lemma Count_batch_rep: "of_int (Count (batch_rep s ops)) = (of_nat (length ops) :: uint32)"
  by (simp add: Count_def batch_rep_parts ldb_codec)

lemma Count_batch_rep_small: "length ops < 2 ^ 31 \<Longrightarrow> Count (batch_rep s ops) = int (length ops)"
  by (simp add: Count_def batch_rep_parts ldb_codec signed_of_nat signed_take_bit_int_eq_self)

lemma SetCount_batch_rep:
  "(of_int n :: uint32) = of_nat m \<Longrightarrow>
   SetCount n (batch_rep s ops) = EncodeFixed64 s @ EncodeFixed32 (of_nat m) @ concat (map op_bytes ops)"
  by (simp add: SetCount_def batch_rep_parts)

lemma lp_put2:
  "PutLengthPrefixedSlice (dst @ [b]) v = dst @ b # PutLengthPrefixedSlice [] v"
  "PutLengthPrefixedSlice (dst @ b # w) v = dst @ b # w @ PutLengthPrefixedSlice [] v"
  by (subst lp_slice.put_appends, simp)+

lemma batch_op_rep: "batch_op op (batch_rep s ops) = batch_rep s (ops @ [op])"
proof -
  have "(of_int (Count (batch_rep s ops) + 1) :: uint32) = of_nat (length (ops @ [op]))"
    by (simp add: Count_batch_rep)
  note c = SetCount_batch_rep [OF this]
  show ?thesis
    by (cases op)
       (simp_all only: batch_op.simps WriteBatch_Put_def WriteBatch_Delete_def c lp_put2,
        simp_all add: batch_rep_def)
qed

lemma batch_ops_rep: "fold batch_op ops (batch_rep s js) = batch_rep s (js @ ops)"
  by (induction ops arbitrary: js) (simp_all add: batch_op_rep)

lemma Clear_rep: "WriteBatch_Clear = batch_rep 0 []"
  by (simp add: WriteBatch_Clear_def kHeader_def batch_rep_def EncodeFixed64_def EncodeFixed32_def
      numeral_eq_Suc)

lemma SetSequence_rep: "SetSequence q (batch_rep s ops) = batch_rep q ops"
  by (simp add: SetSequence_def batch_rep_def)

lemma Sequence_rep: "Sequence (batch_rep s ops) = s"
  by (simp add: Sequence_def batch_rep_def ldb_codec)

lemma Append_rep: "WriteBatch_Append (batch_rep s xs) (batch_rep q ys) = batch_rep s (xs @ ys)"
proof -
  have "(of_int (Count (batch_rep s xs) + Count (batch_rep q ys)) :: uint32) = of_nat (length (xs @ ys))"
    by (simp add: Count_batch_rep)
  from SetCount_batch_rep [OF this] show ?thesis
    by (simp add: WriteBatch_Append_def kHeader_def batch_rep_parts batch_rep_def)
qed

lemma iterate_loop_ops:
  "\<forall>op \<in> set ops. op_fits op \<Longrightarrow>
   iterate_loop handler (concat (map op_bytes ops)) found h
   = (Inr (found + int (length ops)), fold (handle_op handler) ops h)"
proof (induction ops arbitrary: found h)
  case Nil
  show ?case by (subst iterate_loop.simps) simp
next
  case (Cons op ops)
  have "iterate_loop handler (op_bytes op @ concat (map op_bytes ops)) found h
      = iterate_loop handler (concat (map op_bytes ops)) (found + 1) (handle_op handler op h)"
    using Cons.prems
    by (cases op) (subst iterate_loop.simps, simp add: ldb_codec)+
  then show ?case using Cons by simp
qed

lemma Iterate_rep:
  assumes "\<forall>op \<in> set ops. op_fits op" and "length ops < 2 ^ 31"
  shows "Iterate handler (batch_rep s ops) h = (OK, fold (handle_op handler) ops h)"
  using assms
  by (simp add: Iterate_def kHeader_def batch_rep_parts iterate_loop_ops Count_batch_rep_small)

section \<open>Entries of a memtable\<close>

lemma mem_prefixed_slice_put:
  assumes "length k < 2 ^ 32"
  shows "GetVarint32Ptr (take 5 (EncodeVarint32 (of_nat (length k)) @ k @ rest)) =
      Some (of_nat (length k), take (5 - length (EncodeVarint32 (of_nat (length k)))) (k @ rest))"
    and "length (take 5 (EncodeVarint32 (of_nat (length k)) @ k @ rest))
         - length (take (5 - length (EncodeVarint32 (of_nat (length k)))) (k @ rest))
         = length (EncodeVarint32 (of_nat (length k)))"
    and "mem_prefixed_slice (EncodeVarint32 (of_nat (length k)) @ k @ rest) = (k, rest)"
proof -
  let ?n = "EncodeVarint32 (of_nat (length k))"
  have len: "length ?n \<le> 5" by (rule length_EncodeVarint32)
  have t: "take 5 (?n @ k @ rest) = ?n @ take (5 - length ?n) (k @ rest)" using len by simp
  have u: "unat (of_nat (length k) :: uint32) = length k" using assms by (simp add: unat_of_nat)
  have "GetVarint32Ptr (?n @ z) = Some (of_nat (length k), z)" for z
    using varint32.get_put [of "of_nat (length k)" z]
    by (auto simp: GetVarint32_def PutVarint32_def split: option.splits prod.splits)
  then show g: "GetVarint32Ptr (take 5 (?n @ k @ rest)) = Some (of_nat (length k), take (5 - length ?n) (k @ rest))"
    unfolding t .
  show d: "length (take 5 (?n @ k @ rest)) - length (take (5 - length ?n) (k @ rest)) = length ?n"
    unfolding t by simp
  show "mem_prefixed_slice (?n @ k @ rest) = (k, rest)"
    unfolding mem_prefixed_slice_def g option.case prod.case d Let_def u by simp
qed

abbreviation ikey :: "slice \<Rightarrow> SequenceNumber \<Rightarrow> ValueType \<Rightarrow> slice" where
  "ikey k s t \<equiv> AppendInternalKey [] \<lparr>user_key = k, sequence = s, type = t\<rparr>"

lemma mem_entry_ikey:
  "mem_entry s t k v = EncodeVarint32 (of_nat (length (ikey k s t))) @ ikey k s t
     @ EncodeVarint32 (of_nat (length v)) @ v"
  by (simp add: mem_entry_def AppendInternalKey_def PutFixed64_def PackSequenceAndType_def)

text \<open>The buffer \<open>Add\<close> allocates has exactly the size of what it writes.\<close>

lemma mem_encoded_len_exact:
  assumes "length k + 8 < 2 ^ 32" and "length v < 2 ^ 32"
  shows "length (mem_entry s t k v) = mem_encoded_len k v"
proof -
  have "VarintLength (of_nat n) = length (EncodeVarint32 (of_nat n))" if "n < 2 ^ 32" for n
    using that by (simp add: VarintLength_leb128 EncodeVarint32_leb128 unat_of_nat)
  from this [OF assms(1)] this [OF assms(2)] show ?thesis
    by (simp add: mem_entry_def mem_encoded_len_def Let_def)
qed

definition mem_valid :: "(slice \<Rightarrow> bool) \<Rightarrow> byte list \<Rightarrow> bool" where
  "mem_valid valid e \<longleftrightarrow> (\<exists>k rest. e = EncodeVarint32 (of_nat (length k)) @ k @ rest
      \<and> length k < 2 ^ 32 \<and> valid_ikey valid k)"

lemma mem_valid_slice: "mem_valid valid e \<Longrightarrow> valid_ikey valid (fst (mem_prefixed_slice e))"
  by (auto simp: mem_valid_def mem_prefixed_slice_put)

lemma mem_compare_internal:
  "mem_compare c a b = internal_compare c (fst (mem_prefixed_slice a)) (fst (mem_prefixed_slice b))"
  by (simp add: mem_compare_def InternalKeyComparator_def Let_def)

context comparator
begin

lemma mem_preorder: "key_preorder (mem_compare c) (mem_valid valid)"
proof -
  have "key_preorder (internal_compare c) (valid_ikey valid)"
    using internal_order by (simp add: key_order_def)
  then show ?thesis
    unfolding mem_compare_internal key_preorder_def using mem_valid_slice by blast
qed

end

section \<open>Lookups\<close>

text \<open>The newest entry of a user key at or below a sequence number, in a list of additions with
  increasing sequence numbers.\<close>

type_synonym addition = "SequenceNumber \<times> ValueType \<times> slice \<times> slice"

definition newest :: "addition list \<Rightarrow> slice \<Rightarrow> SequenceNumber \<Rightarrow> addition option" where
  "newest adds k s =
     (let cs = filter (\<lambda>(q, t, k', v). k' = k \<and> q \<le> s) adds in if cs = [] then None else Some (last cs))"

fun get_result :: "addition option \<Rightarrow> slice \<Rightarrow> Status \<Rightarrow> bool \<times> slice \<times> Status" where
  "get_result None val st = (False, val, st)"
| "get_result (Some (_, kTypeValue, _, v)) val st = (True, v, st)"
| "get_result (Some (_, kTypeDeletion, _, _)) val st = (True, val, make_Status kNotFound [] [])"

definition add_fits :: "(slice \<Rightarrow> bool) \<Rightarrow> addition \<Rightarrow> bool" where
  "add_fits valid a = (case a of (s, t, k, v) \<Rightarrow>
     s \<le> kMaxSequenceNumber \<and> length k + 8 < 2 ^ 32 \<and> length v < 2 ^ 32 \<and> valid k)"

definition add_entry :: "addition \<Rightarrow> byte list" where
  "add_entry a = (case a of (s, t, k, v) \<Rightarrow> mem_entry s t k v)"

fun mem_add :: "addition \<Rightarrow> MemTable option \<Rightarrow> MemTable option" where
  "mem_add (s, t, k, v) m = Option.bind m (MemTable_Add s t k v)"

lemma pack_less:
  assumes "s \<le> kMaxSequenceNumber" and "q \<le> kMaxSequenceNumber"
  shows "PackSequenceAndType s kTypeValue < PackSequenceAndType q t \<longleftrightarrow> s < q"
proof -
  have "ValueType_code t < 2" by (cases t) simp_all
  then show ?thesis by (simp add: word_less_nat_alt pack_word [OF assms(1)] pack_word [OF assms(2)]) linarith
qed

lemma add_entry_slice:
  assumes "add_fits valid (s, t, k, v)"
  shows "fst (mem_prefixed_slice (add_entry (s, t, k, v))) = ikey k s t"
    and "mem_valid valid (add_entry (s, t, k, v))"
proof -
  have len: "length (ikey k s t) < 2 ^ 32" using assms by (simp add: add_fits_def)
  then show "fst (mem_prefixed_slice (add_entry (s, t, k, v))) = ikey k s t"
    by (simp add: add_entry_def mem_entry_ikey mem_prefixed_slice_put(3) del: key_parts(3))
  show "mem_valid valid (add_entry (s, t, k, v))"
    unfolding mem_valid_def add_entry_def prod.case mem_entry_ikey
    by (intro exI [of _ "ikey k s t"] exI conjI refl) (use len assms in \<open>simp_all add: valid_ikey_def add_fits_def\<close>)
qed

text \<open>What \<open>Get\<close> does with the entry that \<open>Seek\<close> found.\<close>

lemma MemTable_Get_entry:
  assumes "skip_seek (mt_table m) (memtable_key key) = Some (Some (add_entry (s, t, k, v)))"
    and "add_fits valid (s, t, k, v)"
  shows "MemTable_Get key m val st =
    Some (if Compare (mt_user_comparator m) k (lookup_user_key key) = 0
          then get_result (Some (s, t, k, v)) val st else (False, val, st))"
proof -
  let ?e = "add_entry (s, t, k, v)" and ?i = "ikey k s t"
  let ?n = "EncodeVarint32 (of_nat (length ?i))"
  have fits: "length ?i < 2 ^ 32" "length v < 2 ^ 32" using assms(2) by (simp_all add: add_fits_def)
  have e: "?e = ?n @ ?i @ EncodeVarint32 (of_nat (length v)) @ v"
    by (simp add: add_entry_def mem_entry_ikey)
  note p = mem_prefixed_slice_put [OF fits(1), of "EncodeVarint32 (of_nat (length v)) @ v", folded e]
  have ptr: "drop (length ?n) ?e = ?i @ EncodeVarint32 (of_nat (length v)) @ v" by (simp add: e)
  have un: "unat (of_nat (length ?i) :: uint32) = length ?i"
    using fits(1) by (simp only: unat_of_nat) (simp del: key_parts(3))
  have tk: "take (length ?i - 8) (?i @ z) = k" "drop (length ?i) (?i @ z) = z" for z
    by (simp_all add: AppendInternalKey_def PutFixed64_def)
  have tag: "DecodeFixed64 (drop (length ?i - 8) (?i @ z)) = PackSequenceAndType s t" for z
    by (simp add: AppendInternalKey_def PutFixed64_def ldb_codec)
  have c: "PackSequenceAndType s t AND 0xff = of_nat (ValueType_code t)"
  proof -
    have m: "(0xff :: uint64) = mask 8" by (simp add: mask_eq_exp_minus_1)
    have "PackSequenceAndType s t AND mask 8 = of_nat (ValueType_code t) AND mask 8"
      by (rule bit_word_eqI) (auto simp: PackSequenceAndType_def bit_simps)
    also have "\<dots> = of_nat (ValueType_code t)" by (cases t) (simp_all add: mask_eq_exp_minus_1)
    finally show ?thesis by (simp only: m)
  qed
  have vs: "fst (mem_prefixed_slice (EncodeVarint32 (of_nat (length v)) @ v)) = v"
    using mem_prefixed_slice_put(3) [OF fits(2), of "[]"] by simp
  from assms(1) obtain x where x: "SkipIter_Seek (mt_table m) (memtable_key key) = Some (Some x)"
    "Node_key (mt_table m) x = Some ?e"
    by (auto simp: skip_seek_def split: option.splits)
  show ?thesis
    unfolding MemTable_Get_def x(1) option.case SkipIter_Valid_def SkipIter_key_def bind.bind_lunit
      x(2) p(1,2) prod.case Let_def ptr un tk tag c vs
    by (cases t) simp_all
qed

definition mem_stands :: "Comparator \<Rightarrow> (slice \<Rightarrow> bool) \<Rightarrow> MemTable \<Rightarrow> addition list \<Rightarrow> bool" where
  "mem_stands c valid m adds \<longleftrightarrow> mt_user_comparator m = c \<and> (\<forall>a \<in> set adds. add_fits valid a)
     \<and> (\<exists>es. skip_stands (mem_compare c) (mem_valid valid) (mt_table m) es \<and> set es = add_entry ` set adds)"

lemma make_MemTable_stands: "key_preorder (mem_compare c) (mem_valid valid) \<Longrightarrow>
  \<exists>m. make_MemTable c = Some m \<and> mem_stands c valid m []"
  using make_SkipList_stands [of "mem_compare c"]
  by (auto simp: make_MemTable_def mem_stands_def skip_stands_def skip_inv_def key_preorder.increasing_def)

context comparator
begin

lemma add_entry_differ:
  assumes "add_fits valid a" and "add_fits valid b" and "fst a \<noteq> fst b"
  shows "mem_compare c (add_entry a) (add_entry b) \<noteq> 0"
proof -
  obtain s t k v s' t' k' v' where ab: "a = (s, t, k, v)" "b = (s', t', k', v')" by (cases a; cases b) auto
  have "s \<le> kMaxSequenceNumber" "s' \<le> kMaxSequenceNumber" using assms ab by (simp_all add: add_fits_def)
  then have "ikey k s t \<noteq> ikey k' s' t'"
    using ParseInternalKey_Append [of "\<lparr>user_key = k, sequence = s, type = t\<rparr>"]
      ParseInternalKey_Append [of "\<lparr>user_key = k', sequence = s', type = t'\<rparr>"] assms(3) ab by auto
  moreover have "valid_ikey valid (ikey k s t)" "valid_ikey valid (ikey k' s' t')"
    using assms ab by (simp_all add: add_fits_def valid_ikey_def)
  ultimately show ?thesis
    using assms ab key_order.cmp_eq [OF internal_order]
    by (simp add: mem_compare_internal add_entry_slice(1) del: key_parts)
qed

lemma mem_add_stands:
  assumes "mem_stands c valid m js" and "add_fits valid a" and "\<forall>b \<in> set js. fst b \<noteq> fst a"
  shows "\<exists>m'. mem_add a (Some m) = Some m' \<and> mem_stands c valid m' (js @ [a])"
proof -
  obtain s t k v where a: "a = (s, t, k, v)" by (cases a) auto
  from assms(1) obtain es where es: "skip_stands (mem_compare c) (mem_valid valid) (mt_table m) es"
    "set es = add_entry ` set js" "mt_user_comparator m = c" "\<forall>a \<in> set js. add_fits valid a"
    by (auto simp: mem_stands_def)
  have val: "mem_valid valid (add_entry a)" using add_entry_slice(2) assms(2) a by simp
  have "\<forall>j \<in> set es. mem_compare c j (add_entry a) \<noteq> 0"
    using es(2,4) assms(2,3) add_entry_differ by auto
  from key_preorder.skip_stands_insert [OF mem_preorder es(1) val this]
  obtain tab where tab: "SkipList_Insert (add_entry a) (mt_table m) = Some tab"
    "skip_stands (mem_compare c) (mem_valid valid) tab (key_preorder.insert_key (mem_compare c) (add_entry a) es)"
    by blast
  then show ?thesis
    using es assms(2) a key_preorder.set_insert_key [OF mem_preorder, of "add_entry a" es]
    by (auto simp: MemTable_Add_def mem_stands_def add_entry_def)
qed

lemma mem_adds_stands:
  assumes "mem_stands c valid m js" and "\<forall>a \<in> set adds. add_fits valid a"
    and "sorted_wrt (<) (map fst (js @ adds))"
  shows "\<exists>m'. fold mem_add adds (Some m) = Some m' \<and> mem_stands c valid m' (js @ adds)"
  using assms
proof (induction adds arbitrary: m js)
  case (Cons a adds)
  have "\<forall>b \<in> set js. fst b \<noteq> fst a" using Cons.prems(3) by (auto simp: sorted_wrt_append)
  with Cons.prems mem_add_stands [of m js a] obtain m'
    where m': "mem_add a (Some m) = Some m'" "mem_stands c valid m' (js @ [a])" by auto
  with Cons.IH [OF m'(2)] Cons.prems show ?case by simp
qed simp

lemma mem_below:
  assumes "add_fits valid (q, t, k', v)" and "length k + 8 < 2 ^ 32" and "valid k" and "s \<le> kMaxSequenceNumber"
  shows "mem_compare c (add_entry (q, t, k', v)) (memtable_key (make_LookupKey k s)) < 0
    \<longleftrightarrow> Compare c k' k < 0 \<or> k' = k \<and> s < q"
    and "mem_valid valid (memtable_key (make_LookupKey k s))"
proof -
  let ?i = "ikey k s kTypeValue"
  have len: "length ?i < 2 ^ 32" using assms(2) by simp
  have key: "memtable_key (make_LookupKey k s) = EncodeVarint32 (of_nat (length ?i)) @ ?i @ []"
    by (simp add: memtable_key_def make_LookupKey_def Let_def AppendInternalKey_def PutFixed64_def kValueTypeForSeek_def)
  then have "fst (mem_prefixed_slice (memtable_key (make_LookupKey k s))) = ?i"
    by (simp only: key mem_prefixed_slice_put(3) [OF len] fst_conv)
  moreover have "valid k'" "q \<le> kMaxSequenceNumber" using assms(1) by (simp_all add: add_fits_def)
  ultimately show "mem_compare c (add_entry (q, t, k', v)) (memtable_key (make_LookupKey k s)) < 0
    \<longleftrightarrow> Compare c k' k < 0 \<or> k' = k \<and> s < q"
    using assms(3,4) add_entry_slice(1) [OF assms(1)] cmp_eq [of k' k] pack_less [of s q]
    by (simp add: mem_compare_internal internal_compare_less)
  show "mem_valid valid (memtable_key (make_LookupKey k s))"
    unfolding mem_valid_def key
    by (intro exI [of _ ?i] exI conjI refl) (use len assms(3) in \<open>simp_all add: valid_ikey_def\<close>)
qed

end

lemma lookup_user_key_make [simp]: "lookup_user_key (make_LookupKey k s) = k"
  by (simp add: lookup_user_key_def make_LookupKey_def Let_def)

context comparator
begin

lemma add_entry_less:
  assumes "add_fits valid (q, t, k, v)" and "add_fits valid (q', t', k', v')"
  shows "mem_compare c (add_entry (q, t, k, v)) (add_entry (q', t', k', v')) < 0 \<Longrightarrow>
      Compare c k k' < 0 \<or> k = k' \<and> q' \<le> q"
    and "add_entry (q, t, k, v) = add_entry (q', t', k', v') \<Longrightarrow> k = k' \<and> q = q'"
proof -
  have val: "valid k" "valid k'" and seq: "q \<le> kMaxSequenceNumber" "q' \<le> kMaxSequenceNumber"
    using assms by (simp_all add: add_fits_def)
  note e = add_entry_slice(1) [OF assms(1)] add_entry_slice(1) [OF assms(2)]
  have "q' \<le> q" if "PackSequenceAndType q' t' < PackSequenceAndType q t"
  proof -
    have "ValueType_code t < 2" "ValueType_code t' < 2" by (cases t; cases t'; simp)+
    with that show ?thesis
      unfolding word_less_nat_alt pack_word [OF seq(1)] pack_word [OF seq(2)] word_le_nat_alt by linarith
  qed
  then show "mem_compare c (add_entry (q, t, k, v)) (add_entry (q', t', k', v')) < 0 \<Longrightarrow>
      Compare c k k' < 0 \<or> k = k' \<and> q' \<le> q"
    using cmp_eq [OF val] by (auto simp: mem_compare_internal internal_compare_less e)
  assume "add_entry (q, t, k, v) = add_entry (q', t', k', v')"
  from arg_cong [OF this, of "\<lambda>e. fst (mem_prefixed_slice e)"]
  have i: "ikey k q t = ikey k' q' t'" by (simp only: e)
  have "Some \<lparr>user_key = k, sequence = q, type = t\<rparr> = ParseInternalKey (ikey k q t)"
    by (rule sym, rule ParseInternalKey_Append) (simp add: seq)
  also have "\<dots> = ParseInternalKey (ikey k' q' t')" by (simp only: i)
  also have "\<dots> = Some \<lparr>user_key = k', sequence = q', type = t'\<rparr>"
    by (rule ParseInternalKey_Append) (simp add: seq)
  finally show "k = k' \<and> q = q'" by simp
qed

lemma last_of_sorted:
  assumes "sorted_wrt (<) (map fst (cs :: addition list))" and "a \<in> set cs"
  shows "a = last cs \<or> fst a < fst (last cs)"
proof -
  have "cs = butlast cs @ [last cs]" using assms(2) by (cases cs rule: rev_cases) auto
  then have "sorted_wrt (<) (map fst (butlast cs @ [last cs]))" "a \<in> set (butlast cs @ [last cs])"
    using assms by metis+
  then show ?thesis by (auto simp: sorted_wrt_append)
qed

theorem mem_get:
  assumes st: "mem_stands c valid m adds" and sorted: "sorted_wrt (<) (map fst adds)"
    and k: "length k + 8 < 2 ^ 32" "valid k" and s: "s \<le> kMaxSequenceNumber"
  shows "MemTable_Get (make_LookupKey k s) m val status = Some (get_result (newest adds k s) val status)"
proof -
  let ?t = "memtable_key (make_LookupKey k s)"
  from st obtain es where es: "skip_stands (mem_compare c) (mem_valid valid) (mt_table m) es"
    "set es = add_entry ` set adds" and cmp: "mt_user_comparator m = c"
    and fits: "\<And>a. a \<in> set adds \<Longrightarrow> add_fits valid a" by (auto simp: mem_stands_def)
  define cs where "cs = filter (\<lambda>(q, t, k', v). k' = k \<and> q \<le> s) adds"
  have below: "mem_compare c (add_entry (q, t, k', v)) ?t < 0 \<longleftrightarrow> Compare c k' k < 0 \<or> k' = k \<and> s < q"
    if "(q, t, k', v) \<in> set adds" for q t k' v
    by (rule mem_below(1) [OF fits [OF that] k s])
  have val: "mem_valid valid ?t" if "a \<in> set adds" for a
    using fits [OF that] by (cases a) (auto intro: mem_below(2) [OF _ k s])
  show ?thesis
  proof (cases "adds = []")
    case True
    have "skip_seek (mt_table m) ?t = Some None"
    proof -
      have "es = []" using es(2) True by simp
      moreover have "mem_valid valid ?t"
        by (rule mem_below(2) [of 0 kTypeValue k "[]"]) (use k s in \<open>simp_all add: add_fits_def\<close>)
      ultimately show ?thesis
        using key_preorder.skip_seek_first [OF mem_preorder es(1)] by (simp add: hd_opt_def)
    qed
    then have "SkipIter_Seek (mt_table m) ?t = Some None" by (auto simp: skip_seek_def split: option.splits)
    with True show ?thesis by (simp add: MemTable_Get_def newest_def SkipIter_Valid_def)
  next
    case False
    then obtain a0 where "a0 \<in> set adds" by (cases adds) auto
    note least = key_preorder.skip_seek_least [OF mem_preorder es(1) val [OF this]]
    show ?thesis
    proof (cases "skip_seek (mt_table m) ?t")
      case None
      with least show ?thesis by simp
    next
      case (Some o1)
      show ?thesis
      proof (cases o1)
        case None
        with Some least have "\<forall>a \<in> set adds. mem_compare c (add_entry a) ?t < 0" using es(2) by simp
        then have "cs = []" using below k(2) cmp_irrefl by (force simp: cs_def filter_empty_conv)
        moreover have "SkipIter_Seek (mt_table m) ?t = Some None"
          using Some None by (auto simp: skip_seek_def split: option.splits)
        ultimately show ?thesis by (simp add: MemTable_Get_def newest_def cs_def SkipIter_Valid_def)
      next
        case (Some j)
        with \<open>skip_seek (mt_table m) ?t = Some o1\<close> have seek: "skip_seek (mt_table m) ?t = Some (Some j)" by simp
        with least have j: "j \<in> set es" "\<not> mem_compare c j ?t < 0"
          and min: "\<And>i. i \<in> set es \<Longrightarrow> \<not> mem_compare c i ?t < 0 \<Longrightarrow> i = j \<or> mem_compare c j i < 0"
          by simp_all
        from j(1) es(2) obtain q t k' v where a: "(q, t, k', v) \<in> set adds" "j = add_entry (q, t, k', v)" by auto
        have vk: "valid k'" using fits [OF a(1)] by (simp add: add_fits_def)
        have get: "MemTable_Get (make_LookupKey k s) m val status =
            Some (if k' = k then get_result (Some (q, t, k', v)) val status else (False, val, status))"
          using MemTable_Get_entry [OF seek [unfolded a(2)] fits [OF a(1)]] cmp cmp_eq [OF vk k(2)] by simp
        have nb: "\<not> Compare c k' k < 0" "k' = k \<longrightarrow> q \<le> s" using below [OF a(1)] j(2) a(2) by auto
        have cs: "q' \<le> q \<and> k' = k" if b: "(q', t', k, v') \<in> set cs" for q' t' v'
        proof -
          have b': "(q', t', k, v') \<in> set adds" "q' \<le> s" using b by (auto simp: cs_def)
          have "\<not> mem_compare c (add_entry (q', t', k, v')) ?t < 0"
            using below [OF b'(1)] b'(2) cmp_irrefl [OF k(2)] by auto
          with min es(2) b'(1) have "add_entry (q', t', k, v') = j \<or> mem_compare c j (add_entry (q', t', k, v')) < 0"
            by blast
          with add_entry_less [OF fits [OF a(1)] fits [OF b'(1)]] a(2) nb(1) show ?thesis by auto
        qed
        show ?thesis
        proof (cases "k' = k")
          case True
          with a nb have ain: "(q, t, k', v) \<in> set cs" by (simp add: cs_def)
          obtain q' t' k'' v' where l: "last cs = (q', t', k'', v')" by (cases "last cs") auto
          have "last cs \<in> set cs" using ain by (cases cs) auto
          then have lin: "(q', t', k'', v') \<in> set cs" by (simp only: l)
          then have "k'' = k" by (simp add: cs_def)
          with lin cs [of q' t' v'] have "q' \<le> q" by simp
          moreover have "sorted_wrt (<) (map fst cs)"
            using sorted by (simp add: cs_def sorted_wrt_map sorted_wrt_filter)
          ultimately have "last cs = (q, t, k', v)"
            using last_of_sorted [OF _ ain] l by auto
          moreover have "newest adds k s = Some (last cs)"
            using ain unfolding newest_def cs_def [symmetric] Let_def by auto
          ultimately show ?thesis using True get by simp
        next
          case False
          have "cs = []"
          proof (rule ccontr)
            assume "cs \<noteq> []"
            then obtain b where "b \<in> set cs" by (cases cs) auto
            moreover obtain q' t' k3 v' where "b = (q', t', k3, v')" by (cases b)
            ultimately have "(q', t', k, v') \<in> set cs" by (auto simp: cs_def)
            from cs [OF this] False show False by simp
          qed
          with get False show ?thesis by (simp add: newest_def cs_def)
        qed
      qed
    qed
  qed
qed

end

section \<open>From a batch to a lookup\<close>

fun op_add :: "SequenceNumber \<Rightarrow> op \<Rightarrow> addition" where
  "op_add s (OpPut k v) = (s, kTypeValue, k, v)"
| "op_add s (OpDelete k) = (s, kTypeDeletion, k, [])"

fun op_adds :: "SequenceNumber \<Rightarrow> op list \<Rightarrow> addition list" where
  "op_adds s [] = []"
| "op_adds s (op # ops) = op_add s op # op_adds (s + 1) ops"

text \<open>The map that operations describe: a key may be unknown, deleted, or have a value.\<close>

fun op_map :: "op \<Rightarrow> (slice \<rightharpoonup> slice option) \<Rightarrow> (slice \<rightharpoonup> slice option)" where
  "op_map (OpPut k v) m = m(k \<mapsto> Some v)"
| "op_map (OpDelete k) m = m(k \<mapsto> None)"

fun map_result :: "slice option option \<Rightarrow> slice \<Rightarrow> Status \<Rightarrow> bool \<times> slice \<times> Status" where
  "map_result None val st = (False, val, st)"
| "map_result (Some None) val st = (True, val, make_Status kNotFound [] [])"
| "map_result (Some (Some v)) val st = (True, v, st)"

lemma handle_ops:
  "fold (handle_op MemTableInserter) ops (s, m) = (s + of_nat (length ops), fold mem_add (op_adds s ops) m)"
proof (induction ops arbitrary: s m)
  case (Cons op ops)
  have "handle_op MemTableInserter op (s, m) = (s + 1, mem_add (op_add s op) m)"
    by (cases op) (simp_all add: MemTableInserter_def)
  with Cons show ?case by (simp add: algebra_simps)
qed simp

lemma op_adds_append: "op_adds s (xs @ ys) = op_adds s xs @ op_adds (s + of_nat (length xs)) ys"
  by (induction xs arbitrary: s) (simp_all add: algebra_simps)

lemma op_adds_seq: "a \<in> set (op_adds s ops) \<Longrightarrow> \<exists>i < length ops. fst a = s + of_nat i"
proof (induction ops arbitrary: s)
  case (Cons op ops)
  then consider "a = op_add s op" | "a \<in> set (op_adds (s + 1) ops)" by auto
  then show ?case
  proof cases
    case 1
    then show ?thesis by (cases op) (auto intro!: exI [of _ 0])
  next
    case 2
    from Cons.IH [OF this] obtain i where "i < length ops" "fst a = s + 1 + of_nat i" by blast
    then show ?thesis by (intro exI [of _ "Suc i"]) simp
  qed
qed simp

lemma seq_small:
  assumes "unat s + n \<le> 2 ^ 56" and "i < n"
  shows "unat (s + of_nat i :: SequenceNumber) = unat s + i"
proof -
  have "s + of_nat i = of_nat (unat s + i)" by simp
  then have "unat (s + of_nat i) = (unat s + i) mod 2 ^ 64" by (simp only: unat_of_nat) simp
  with assms show ?thesis by simp
qed

lemma op_adds_sorted:
  assumes "unat s + length ops \<le> 2 ^ 56"
  shows "sorted_wrt (<) (map fst (op_adds s ops))"
  using assms
proof (induction ops rule: rev_induct)
  case (snoc op ops)
  have "fst a < s + of_nat (length ops)" if a: "a \<in> set (op_adds s ops)" for a
  proof -
    from op_adds_seq [OF a] obtain i where "i < length ops" "fst a = s + of_nat i" by blast
    with snoc.prems seq_small [of s "Suc (length ops)"] show ?thesis by (simp add: word_less_nat_alt)
  qed
  moreover have "fst (op_add q op) = q" for q by (cases op) simp_all
  ultimately show ?case using snoc by (simp add: op_adds_append sorted_wrt_append)
qed simp

lemma last_op_map:
  "get_result (let cs = filter (\<lambda>(q, t, k', v). k' = k) (op_adds s js)
               in if cs = [] then None else Some (last cs)) val st
   = map_result (fold op_map js Map.empty k) val st"
proof (induction js rule: rev_induct)
  case (snoc op js)
  then show ?case by (cases op) (auto simp: op_adds_append Let_def)
qed simp

text \<open>How many of the operations a reader at sequence number \<open>q\<close> sees, of those numbered from \<open>s\<close> on.\<close>

definition visible_op :: "SequenceNumber \<Rightarrow> SequenceNumber \<Rightarrow> nat" where
  "visible_op s q = Suc (unat q) - unat s"

lemma newest_map:
  assumes "unat s + length ops \<le> 2 ^ 56"
  shows "get_result (newest (op_adds s ops) k q) val st
    = map_result (fold op_map (take (visible_op s q) ops) Map.empty k) val st"
proof -
  define n where "n = min (visible_op s q) (length ops)"
  let ?q = q and ?xs = "take n ops" and ?ys = "drop n ops"
  have len: "length ?xs = n" and n: "n \<le> length ops" by (simp_all add: n_def)
  have take_n: "take (visible_op s q) ops = ?xs" by (simp add: n_def min_def)
  have split: "op_adds s ops = op_adds s ?xs @ op_adds (s + of_nat n) ?ys"
    using op_adds_append [of s ?xs ?ys] unfolding len append_take_drop_id .
  note small = seq_small [OF assms(1)]
  have xs: "fst a \<le> ?q" if a: "a \<in> set (op_adds s ?xs)" for a
  proof -
    from op_adds_seq [OF a] obtain j where j: "j < n" "fst a = s + of_nat j" unfolding len by blast
    then have "unat (fst a) = unat s + j" using small n by simp
    moreover have "j < Suc (unat q) - unat s" using j(1) by (simp add: n_def visible_op_def)
    ultimately have "unat (fst a) \<le> unat q" by linarith
    then show ?thesis by (simp add: word_le_nat_alt)
  qed
  have ys: "\<not> fst a \<le> ?q" if a: "a \<in> set (op_adds (s + of_nat n) ?ys)" for a
  proof -
    from op_adds_seq [OF a] obtain j where j: "j < length ops - n" "fst a = s + of_nat n + of_nat j" by auto
    then have "fst a = s + of_nat (n + j)" by simp
    moreover have less: "n + j < length ops" using j(1) by simp
    ultimately have "unat (fst a) = unat s + (n + j)" using small by metis
    moreover have "n = visible_op s q" using less by (simp add: n_def)
    ultimately show ?thesis by (simp add: word_le_nat_alt visible_op_def)
  qed
  have "filter (\<lambda>(q, t, k', v). k' = k \<and> q \<le> ?q) (op_adds s ops)
      = filter (\<lambda>(q, t, k', v). k' = k) (op_adds s ?xs)"
  proof -
    have "filter (\<lambda>(q, t, k', v). k' = k \<and> q \<le> ?q) (op_adds s ?xs)
        = filter (\<lambda>(q, t, k', v). k' = k) (op_adds s ?xs)"
    proof (rule filter_cong [OF refl])
      fix a assume "a \<in> set (op_adds s ?xs)"
      from xs [OF this]
      show "(case a of (q, t, k', v) \<Rightarrow> k' = k \<and> q \<le> ?q) = (case a of (q, t, k', v) \<Rightarrow> k' = k)"
        by (cases a) simp
    qed
    moreover have "filter (\<lambda>(q, t, k', v). k' = k \<and> q \<le> ?q) (op_adds (s + of_nat n) ?ys) = []"
      unfolding filter_empty_conv
    proof
      fix a assume "a \<in> set (op_adds (s + of_nat n) ?ys)"
      from ys [OF this] show "\<not> (case a of (q, t, k', v) \<Rightarrow> k' = k \<and> q \<le> ?q)" by (cases a) simp
    qed
    ultimately show ?thesis unfolding split filter_append by simp
  qed
  then show ?thesis using last_op_map [of k s ?xs val st] by (simp add: newest_def Let_def take_n)
qed

section \<open>Properties\<close>

text \<open>C21: fill a batch by any sequence of \<open>Put\<close> and \<open>Delete\<close> calls, append
  a batch filled by any other sequence, and stamp it with a sequence number. \<open>Iterate\<close> then calls
  the handler for exactly these operations in this order and returns OK, \<open>Count\<close> is their number,
  and \<open>Sequence\<close> the stamp. The lengths fit 32 bits, and there are fewer than \<open>2^31\<close> operations.\<close>

theorem write_batch_round_trip:
  assumes "\<forall>op \<in> set (xs @ ys). op_fits op" and "length (xs @ ys) < 2 ^ 31"
  shows "let batch = SetSequence s (WriteBatch_Append (fold batch_op xs WriteBatch_Clear)
               (fold batch_op ys WriteBatch_Clear))
    in Iterate handler batch h = (OK, fold (handle_op handler) (xs @ ys) h)
      \<and> Count batch = int (length (xs @ ys)) \<and> Sequence batch = s"
proof -
  have "SetSequence s (WriteBatch_Append (fold batch_op xs WriteBatch_Clear) (fold batch_op ys WriteBatch_Clear))
      = batch_rep s (xs @ ys)"
    by (simp add: Clear_rep batch_ops_rep Append_rep SetSequence_rep)
  then show ?thesis
    using Iterate_rep [OF assms(1,2)] Count_batch_rep_small [OF assms(2)] Sequence_rep by simp
qed

theorem write_batch_round_trip_witness:
  "Iterate \<lparr>h_Put = \<lambda>k v h. h @ [(k, Some v)], h_Delete = \<lambda>k h. h @ [(k, None)]\<rparr>
     (SetSequence 7 (WriteBatch_Append (fold batch_op [OpPut [1] [2, 3]] WriteBatch_Clear)
        (fold batch_op [OpDelete [4]] WriteBatch_Clear))) []
   = (OK, [([1], Some [2, 3]), ([4], None)])"
  using write_batch_round_trip [of "[OpPut [1] [2, 3]]" "[OpDelete [4]]"
      7 "\<lparr>h_Put = \<lambda>k v h. h @ [(k, Some v)], h_Delete = \<lambda>k h. h @ [(k, None)]\<rparr>" "[]"]
  by (simp add: Let_def)

text \<open>C34: add entries with increasing sequence numbers to a new memtable, under
  any comparator that meets its contract. Every \<open>Add\<close> succeeds, and \<open>Get\<close> for a user key at sequence
  number \<open>s\<close> returns the newest entry of that key whose sequence number is at most \<open>s\<close>: its value, or
  \<open>NotFound\<close> when it is a deletion; when there is none it returns false and leaves its outputs
  alone.\<close>

theorem memtable_get_newest:
  assumes "comparator c valid" and "\<forall>a \<in> set adds. add_fits valid a" and "sorted_wrt (<) (map fst adds)"
    and "length k + 8 < 2 ^ 32" and "valid k" and "s \<le> kMaxSequenceNumber"
  shows "case fold mem_add adds (make_MemTable c) of
      None \<Rightarrow> False
    | Some m \<Rightarrow> MemTable_Get (make_LookupKey k s) m val st = Some (get_result (newest adds k s) val st)"
proof -
  from make_MemTable_stands [OF comparator.mem_preorder [OF assms(1)]] obtain m0
    where m0: "make_MemTable c = Some m0" "mem_stands c valid m0 []" by blast
  from comparator.mem_adds_stands [OF assms(1) m0(2) assms(2)] assms(3) obtain m
    where m: "fold mem_add adds (Some m0) = Some m" "mem_stands c valid m adds" by auto
  from comparator.mem_get [OF assms(1) m(2) assms(3-6)] m(1) m0(1) show ?thesis by simp
qed

theorem memtable_get_newest_witness:
  "case fold mem_add [(1, kTypeValue, [5], [10]), (2, kTypeValue, [5], [20]), (3, kTypeDeletion, [5], [])]
      (make_MemTable BytewiseComparator) of
      None \<Rightarrow> False
    | Some m \<Rightarrow> MemTable_Get (make_LookupKey [5] 2) m [] OK = Some (True, [20], OK)"
proof -
  have "newest [(1, kTypeValue, [5], [10]), (2, kTypeValue, [5], [20]), (3, kTypeDeletion, [5], [])] [5] 2
      = Some (2, kTypeValue, [5], [20])"
    by (simp add: newest_def)
  then show ?thesis
    using memtable_get_newest [OF bytewise.comparator_axioms, of
        "[(1, kTypeValue, [5], [10]), (2, kTypeValue, [5], [20]), (3, kTypeDeletion, [5], [])]" "[5]" 2 "[]" OK]
    by (simp add: add_fits_def kMaxSequenceNumber_def push_bit_eq_mult split: option.splits)
qed

text \<open>C6: insert a batch of operations with sequence number \<open>s\<close> into a new
  memtable. \<open>InsertInto\<close> returns OK, and a lookup at any sequence number \<open>q\<close>, before, inside or after the numbers of
  the batch, sees exactly the map described by the operations whose number is at most \<open>q\<close>: the value last put, a
  deletion as \<open>NotFound\<close>, nothing for a key not written. Batch, skip list, internal keys and memtable
  together therefore implement the map.\<close>

theorem batch_insert_read:
  assumes "comparator c (\<lambda>_. True)" and "\<forall>op \<in> set ops. op_fits op" and "length ops < 2 ^ 31"
    and "unat s + length ops \<le> 2 ^ 56" and "q \<le> kMaxSequenceNumber" and "length k + 8 < 2 ^ 32"
  shows "case InsertInto (SetSequence s (fold batch_op ops WriteBatch_Clear)) (make_MemTable c) of
      (st, None) \<Rightarrow> False
    | (st, Some m) \<Rightarrow> st = OK
        \<and> MemTable_Get (make_LookupKey k q) m val status
          = Some (map_result (fold op_map (take (Suc (unat q) - unat s) ops) Map.empty k) val status)"
proof -
  let ?adds = "op_adds s ops"
  have b: "SetSequence s (fold batch_op ops WriteBatch_Clear) = batch_rep s ops"
    by (simp add: Clear_rep batch_ops_rep SetSequence_rep)
  have ins: "InsertInto (batch_rep s ops) m = (OK, fold mem_add ?adds m)" for m
    by (simp add: InsertInto_def Iterate_rep [OF assms(2,3)] Sequence_rep handle_ops)
  have max: "unat kMaxSequenceNumber = 2 ^ 56 - 1"
    by (simp add: kMaxSequenceNumber_def push_bit_eq_mult)
  have seq: "s + of_nat j \<le> kMaxSequenceNumber" if "j < length ops" for j
    using seq_small [OF assms(4) that] that assms(4) max by (simp add: word_le_nat_alt)
  have fits: "add_fits (\<lambda>_. True) a" if a: "a \<in> set ?adds" for a
  proof -
    from op_adds_seq [OF a] seq have "fst a \<le> kMaxSequenceNumber" by auto
    moreover have "\<exists>op \<in> set ops. \<exists>q. a = op_add q op" using a by (induction ops arbitrary: s) auto
    then obtain op q where "op \<in> set ops" "a = op_add q op" by blast
    ultimately show ?thesis using assms(2) by (cases op) (auto simp: add_fits_def)
  qed
  from make_MemTable_stands [OF comparator.mem_preorder [OF assms(1)]] obtain m0
    where m0: "make_MemTable c = Some m0" "mem_stands c (\<lambda>_. True) m0 []" by blast
  note sorted = op_adds_sorted [OF assms(4)]
  from comparator.mem_adds_stands [OF assms(1) m0(2), of ?adds] fits sorted obtain m
    where m: "fold mem_add ?adds (Some m0) = Some m" "mem_stands c (\<lambda>_. True) m ?adds" by auto
  from comparator.mem_get [OF assms(1) m(2) sorted assms(6) TrueI assms(5)]
    newest_map [OF assms(4)] m(1) m0(1) show ?thesis by (simp add: b ins visible_op_def)
qed

theorem batch_insert_read_witness:
  "case InsertInto (SetSequence 100 (fold batch_op [OpPut [5] [10], OpPut [6] [1], OpDelete [5]] WriteBatch_Clear))
      (make_MemTable BytewiseComparator) of
      (st, None) \<Rightarrow> False
    | (st, Some m) \<Rightarrow> st = OK \<and> MemTable_Get (make_LookupKey [5] 101) m [] OK = Some (True, [10], OK)
        \<and> MemTable_Get (make_LookupKey [5] 99) m [] OK = Some (False, [], OK)
        \<and> MemTable_Get (make_LookupKey [6] 5000) m [] OK = Some (True, [1], OK)"
  using batch_insert_read [OF bytewise.comparator_axioms, of "[OpPut [5] [10], OpPut [6] [1], OpDelete [5]]" 100 101 "[5]" "[]" OK]
    batch_insert_read [OF bytewise.comparator_axioms, of "[OpPut [5] [10], OpPut [6] [1], OpDelete [5]]" 100 99 "[5]" "[]" OK]
    batch_insert_read [OF bytewise.comparator_axioms, of "[OpPut [5] [10], OpPut [6] [1], OpDelete [5]]" 100 5000 "[6]" "[]" OK]
  by (simp add: kMaxSequenceNumber_def push_bit_eq_mult split: option.splits prod.splits)

end
