(* ===== verification/Ldb_Crc_Correct.thy ===== *)
theory Ldb_Crc_Correct
  imports Ldb_Crc
begin

text \<open>
  The table-driven checksum against its definition by one shift per bit. The shift is linear over
  exclusive or; a table of 256 entries is therefore determined by eight of them, and the entries of
  all five tables lie on the orbit of 1 under the shift.
\<close>

section \<open>The reference\<close>

text \<open>One bit of the division by the reflected Castagnoli polynomial.\<close>

definition crc_shift :: "uint32 \<Rightarrow> uint32" where
  "crc_shift x = drop_bit 1 x XOR (if bit x 0 then 0x82f63b78 else 0)"

definition crc_bits :: "nat \<Rightarrow> uint32 \<Rightarrow> uint32" where
  "crc_bits n = crc_shift ^^ n"

definition crc_byte :: "uint32 \<Rightarrow> byte \<Rightarrow> uint32" where
  "crc_byte l b = crc_bits 8 (l XOR ucast b)"

definition crc32c :: "uint32 \<Rightarrow> byte list \<Rightarrow> uint32" where
  "crc32c crc dat = foldl crc_byte (crc XOR 0xffffffff) dat XOR 0xffffffff"

section \<open>Linearity\<close>

lemma crc_shift_xor: "crc_shift (a XOR b) = crc_shift a XOR crc_shift b"
  by (auto simp: crc_shift_def bit_xor_iff ac_simps)

lemma crc_bits_0 [simp]: "crc_bits 0 x = x"
  by (simp add: crc_bits_def)

lemma crc_bits_Suc: "crc_bits (Suc n) x = crc_bits n (crc_shift x)"
  by (simp add: crc_bits_def funpow_swap1)

lemma crc_bits_add: "crc_bits m (crc_bits n x) = crc_bits (m + n) x"
  by (simp add: crc_bits_def funpow_add)

lemma crc_bits_xor: "crc_bits n (a XOR b) = crc_bits n a XOR crc_bits n b"
  by (induction n arbitrary: a b) (simp_all add: crc_bits_Suc crc_shift_xor)

lemma crc_shift_0 [simp]: "crc_shift 0 = 0"
  by (simp add: crc_shift_def)

lemma crc_bits_zero [simp]: "crc_bits n 0 = 0"
  by (induction n) (simp_all add: crc_bits_Suc)

text \<open>Shifting out zeros is an ordinary shift.\<close>

lemma crc_bits_push: "(\<And>i. bit y i \<Longrightarrow> i + n < 32) \<Longrightarrow> crc_bits n (push_bit n y) = y"
proof (induction n)
  case (Suc n)
  have "crc_shift (push_bit (Suc n) y) = push_bit n y"
  proof (rule bit_word_eqI)
    fix i assume "i < LENGTH(32)"
    with Suc.prems [of "i - n"] show "bit (crc_shift (push_bit (Suc n) y)) i \<longleftrightarrow> bit (push_bit n y) i"
      by (auto simp: crc_shift_def bit_simps simp del: push_bit_Suc)
  qed
  moreover have "crc_bits n (push_bit n y) = y" by (rule Suc.IH) (use Suc.prems in fastforce)
  ultimately show ?case by (simp add: crc_bits_Suc)
qed simp

lemma crc_bits_exp: "i < 32 \<Longrightarrow> i \<le> n \<Longrightarrow> crc_bits n (push_bit i 1) = crc_bits (n - i) 1"
proof -
  assume "i < 32" and "i \<le> n"
  then have "crc_bits i (push_bit i 1) = 1"
    by (intro crc_bits_push) (auto simp: bit_1_iff)
  then show ?thesis using \<open>i \<le> n\<close> crc_bits_add [of "n - i" i "push_bit i 1"] by simp
qed

section \<open>Tables of a linear function\<close>

definition xor_span :: "uint32 list \<Rightarrow> uint32 list" where
  "xor_span bs = foldl (\<lambda>t b. t @ map (\<lambda>x. x XOR b) t) [0] bs"

lemma length_xor_span: "length (xor_span bs) = 2 ^ length bs"
  by (induction bs rule: rev_induct) (simp_all add: xor_span_def)

lemma of_nat_add_exp:
  assumes "c < 2 ^ n"
  shows "(of_nat (2 ^ n + c) :: 'a::len word) = of_nat c XOR push_bit n 1"
proof -
  have "(of_nat c :: 'a word) AND push_bit n 1 = 0"
  proof (rule bit_word_eqI)
    fix i
    have "\<not> bit c n" using assms by (simp add: bit_iff_odd)
    then show "bit ((of_nat c :: 'a word) AND push_bit n 1) i \<longleftrightarrow> bit (0 :: 'a word) i"
      by (auto simp: bit_simps)
  qed
  then have "(of_nat c :: 'a word) XOR push_bit n 1 = of_nat c + push_bit n 1"
    by (simp add: disjunctive_xor_eq_or disjunctive_add_eq_or)
  then show ?thesis by (simp add: push_bit_eq_mult add.commute)
qed

lemma xor_span_linear:
  fixes f :: "uint32 \<Rightarrow> uint32"
  assumes lin: "\<And>a b. f (a XOR b) = f a XOR f b"
    and "\<And>i. i < length bs \<Longrightarrow> bs ! i = f (push_bit i 1)" and "c < 2 ^ length bs"
  shows "xor_span bs ! c = f (of_nat c)"
  using assms(2,3)
proof (induction bs arbitrary: c rule: rev_induct)
  case Nil
  have "f 0 = 0" using lin [of 0 0] by simp
  with Nil show ?case by (simp add: xor_span_def)
next
  case (snoc b bs)
  let ?n = "length bs"
  have IH: "xor_span bs ! c = f (of_nat c)" if "c < 2 ^ ?n" for c
  proof (rule snoc.IH [OF _ that])
    fix i assume "i < ?n"
    with snoc.prems(1) [of i] show "bs ! i = f (push_bit i 1)" by (simp add: nth_append)
  qed
  have b: "b = f (push_bit ?n 1)" using snoc.prems(1) [of ?n] by simp
  have span: "xor_span (bs @ [b]) = xor_span bs @ map (\<lambda>x. x XOR b) (xor_span bs)"
    by (simp add: xor_span_def)
  show ?case
  proof (cases "c < 2 ^ ?n")
    case True
    then show ?thesis using IH by (simp add: span nth_append length_xor_span)
  next
    case False
    define d where "d = c - 2 ^ ?n"
    have d: "c = 2 ^ ?n + d" "d < 2 ^ ?n" using False snoc.prems(2) by (auto simp: d_def)
    then have "xor_span (bs @ [b]) ! c = xor_span bs ! d XOR b"
      by (simp add: span nth_append length_xor_span)
    also have "\<dots> = f (of_nat d) XOR f (push_bit ?n 1)" by (simp only: IH [OF d(2)] b)
    also have "\<dots> = f (of_nat c)" unfolding d(1) of_nat_add_exp [OF d(2)] lin ..
    finally show ?thesis .
  qed
qed

section \<open>The tables of the source\<close>

text \<open>The orbit of 1.\<close>

lemma crc_orbit [simp]:
  "crc_shift 1 = 0x82f63b78"
  "crc_shift 0x82f63b78 = 0x417b1dbc"
  "crc_shift 0x417b1dbc = 0x20bd8ede"
  "crc_shift 0x20bd8ede = 0x105ec76f"
  "crc_shift 0x105ec76f = 0x8ad958cf"
  "crc_shift 0x8ad958cf = 0xc79a971f"
  "crc_shift 0xc79a971f = 0xe13b70f7"
  "crc_shift 0xe13b70f7 = 0xf26b8303"
  "crc_shift 0xf26b8303 = 0xfbc3faf9"
  "crc_shift 0xfbc3faf9 = 0xff17c604"
  "crc_shift 0xff17c604 = 0x7f8be302"
  "crc_shift 0x7f8be302 = 0x3fc5f181"
  "crc_shift 0x3fc5f181 = 0x9d14c3b8"
  "crc_shift 0x9d14c3b8 = 0x4e8a61dc"
  "crc_shift 0x4e8a61dc = 0x274530ee"
  "crc_shift 0x274530ee = 0x13a29877"
  "crc_shift 0x13a29877 = 0x8b277743"
  "crc_shift 0x8b277743 = 0xc76580d9"
  "crc_shift 0xc76580d9 = 0xe144fb14"
  "crc_shift 0xe144fb14 = 0x70a27d8a"
  "crc_shift 0x70a27d8a = 0x38513ec5"
  "crc_shift 0x38513ec5 = 0x9edea41a"
  "crc_shift 0x9edea41a = 0x4f6f520d"
  "crc_shift 0x4f6f520d = 0xa541927e"
  "crc_shift 0xa541927e = 0x52a0c93f"
  "crc_shift 0x52a0c93f = 0xaba65fe7"
  "crc_shift 0xaba65fe7 = 0xd725148b"
  "crc_shift 0xd725148b = 0xe964b13d"
  "crc_shift 0xe964b13d = 0xf64463e6"
  "crc_shift 0xf64463e6 = 0x7b2231f3"
  "crc_shift 0x7b2231f3 = 0xbf672381"
  "crc_shift 0xbf672381 = 0xdd45aab8"
  "crc_shift 0xdd45aab8 = 0x6ea2d55c"
  "crc_shift 0x6ea2d55c = 0x37516aae"
  "crc_shift 0x37516aae = 0x1ba8b557"
  "crc_shift 0x1ba8b557 = 0x8f2261d3"
  "crc_shift 0x8f2261d3 = 0xc5670b91"
  "crc_shift 0xc5670b91 = 0xe045beb0"
  "crc_shift 0xe045beb0 = 0x7022df58"
  "crc_shift 0x7022df58 = 0x38116fac"
  "crc_shift 0x38116fac = 0x1c08b7d6"
  "crc_shift 0x1c08b7d6 = 0x0e045beb"
  "crc_shift 0x0e045beb = 0x85f4168d"
  "crc_shift 0x85f4168d = 0xc00c303e"
  "crc_shift 0xc00c303e = 0x6006181f"
  "crc_shift 0x6006181f = 0xb2f53777"
  "crc_shift 0xb2f53777 = 0xdb8ca0c3"
  "crc_shift 0xdb8ca0c3 = 0xef306b19"
  "crc_shift 0xef306b19 = 0xf56e0ef4"
  "crc_shift 0xf56e0ef4 = 0x7ab7077a"
  "crc_shift 0x7ab7077a = 0x3d5b83bd"
  "crc_shift 0x3d5b83bd = 0x9c5bfaa6"
  "crc_shift 0x9c5bfaa6 = 0x4e2dfd53"
  "crc_shift 0x4e2dfd53 = 0xa5e0c5d1"
  "crc_shift 0xa5e0c5d1 = 0xd0065990"
  "crc_shift 0xd0065990 = 0x68032cc8"
  "crc_shift 0x68032cc8 = 0x34019664"
  "crc_shift 0x34019664 = 0x1a00cb32"
  "crc_shift 0x1a00cb32 = 0x0d006599"
  "crc_shift 0x0d006599 = 0x847609b4"
  "crc_shift 0x847609b4 = 0x423b04da"
  "crc_shift 0x423b04da = 0x211d826d"
  "crc_shift 0x211d826d = 0x9278fa4e"
  "crc_shift 0x9278fa4e = 0x493c7d27"
  "crc_shift 0x493c7d27 = 0xa66805eb"
  "crc_shift 0xa66805eb = 0xd1c2398d"
  "crc_shift 0xd1c2398d = 0xea1727be"
  "crc_shift 0xea1727be = 0x750b93df"
  "crc_shift 0x750b93df = 0xb873f297"
  "crc_shift 0xb873f297 = 0xdecfc233"
  "crc_shift 0xdecfc233 = 0xed91da61"
  "crc_shift 0xed91da61 = 0xf43ed648"
  "crc_shift 0xf43ed648 = 0x7a1f6b24"
  "crc_shift 0x7a1f6b24 = 0x3d0fb592"
  "crc_shift 0x3d0fb592 = 0x1e87dac9"
  "crc_shift 0x1e87dac9 = 0x8db5d61c"
  "crc_shift 0x8db5d61c = 0x46daeb0e"
  "crc_shift 0x46daeb0e = 0x236d7587"
  "crc_shift 0x236d7587 = 0x934081bb"
  "crc_shift 0x934081bb = 0xcb567ba5"
  "crc_shift 0xcb567ba5 = 0xe75d06aa"
  "crc_shift 0xe75d06aa = 0x73ae8355"
  "crc_shift 0x73ae8355 = 0xbb217ad2"
  "crc_shift 0xbb217ad2 = 0x5d90bd69"
  "crc_shift 0x5d90bd69 = 0xac3e65cc"
  "crc_shift 0xac3e65cc = 0x561f32e6"
  "crc_shift 0x561f32e6 = 0x2b0f9973"
  "crc_shift 0x2b0f9973 = 0x9771f7c1"
  "crc_shift 0x9771f7c1 = 0xc94ec098"
  "crc_shift 0xc94ec098 = 0x64a7604c"
  "crc_shift 0x64a7604c = 0x3253b026"
  "crc_shift 0x3253b026 = 0x1929d813"
  "crc_shift 0x1929d813 = 0x8e62d771"
  "crc_shift 0x8e62d771 = 0xc5c750c0"
  "crc_shift 0xc5c750c0 = 0x62e3a860"
  "crc_shift 0x62e3a860 = 0x3171d430"
  "crc_shift 0x3171d430 = 0x18b8ea18"
  "crc_shift 0x18b8ea18 = 0x0c5c750c"
  "crc_shift 0x0c5c750c = 0x062e3a86"
  "crc_shift 0x062e3a86 = 0x03171d43"
  "crc_shift 0x03171d43 = 0x837db5d9"
  "crc_shift 0x837db5d9 = 0xc348e194"
  "crc_shift 0xc348e194 = 0x61a470ca"
  "crc_shift 0x61a470ca = 0x30d23865"
  "crc_shift 0x30d23865 = 0x9a9f274a"
  "crc_shift 0x9a9f274a = 0x4d4f93a5"
  "crc_shift 0x4d4f93a5 = 0xa451f2aa"
  "crc_shift 0xa451f2aa = 0x5228f955"
  "crc_shift 0x5228f955 = 0xabe247d2"
  "crc_shift 0xabe247d2 = 0x55f123e9"
  "crc_shift 0x55f123e9 = 0xa80eaa8c"
  "crc_shift 0xa80eaa8c = 0x54075546"
  "crc_shift 0x54075546 = 0x2a03aaa3"
  "crc_shift 0x2a03aaa3 = 0x97f7ee29"
  "crc_shift 0x97f7ee29 = 0xc90dcc6c"
  "crc_shift 0xc90dcc6c = 0x6486e636"
  "crc_shift 0x6486e636 = 0x3243731b"
  "crc_shift 0x3243731b = 0x9bd782f5"
  "crc_shift 0x9bd782f5 = 0xcf1dfa02"
  "crc_shift 0xcf1dfa02 = 0x678efd01"
  "crc_shift 0x678efd01 = 0xb13145f8"
  "crc_shift 0xb13145f8 = 0x5898a2fc"
  "crc_shift 0x5898a2fc = 0x2c4c517e"
  "crc_shift 0x2c4c517e = 0x162628bf"
  "crc_shift 0x162628bf = 0x89e52f27"
  "crc_shift 0x89e52f27 = 0xc604aceb"
  "crc_shift 0xc604aceb = 0xe1f46d0d"
  "crc_shift 0xe1f46d0d = 0xf20c0dfe"
  by (simp_all add: crc_shift_def)

lemma kByteExtensionTable_span:
  "kByteExtensionTable = xor_span [0xf26b8303, 0xe13b70f7, 0xc79a971f, 0x8ad958cf, 0x105ec76f, 0x20bd8ede, 0x417b1dbc, 0x82f63b78]"
  by (simp add: kByteExtensionTable_def xor_span_def)

lemma kStrideExtensionTable3_span:
  "kStrideExtensionTable3 = xor_span [0xf20c0dfe, 0xe1f46d0d, 0xc604aceb, 0x89e52f27, 0x162628bf, 0x2c4c517e, 0x5898a2fc, 0xb13145f8]"
  by (simp add: kStrideExtensionTable3_def xor_span_def)

lemma kStrideExtensionTable2_span:
  "kStrideExtensionTable2 = xor_span [0x678efd01, 0xcf1dfa02, 0x9bd782f5, 0x3243731b, 0x6486e636, 0xc90dcc6c, 0x97f7ee29, 0x2a03aaa3]"
  by (simp add: kStrideExtensionTable2_def xor_span_def)

lemma kStrideExtensionTable1_span:
  "kStrideExtensionTable1 = xor_span [0x54075546, 0xa80eaa8c, 0x55f123e9, 0xabe247d2, 0x5228f955, 0xa451f2aa, 0x4d4f93a5, 0x9a9f274a]"
  by (simp add: kStrideExtensionTable1_def xor_span_def)

lemma kStrideExtensionTable0_span:
  "kStrideExtensionTable0 = xor_span [0x30d23865, 0x61a470ca, 0xc348e194, 0x837db5d9, 0x03171d43, 0x062e3a86, 0x0c5c750c, 0x18b8ea18]"
  by (simp add: kStrideExtensionTable0_def xor_span_def)

lemma crc_bits_table:
  assumes "bs = map (\<lambda>i. crc_bits (n - (k + i)) 1) [0..<8]" and "k + 8 \<le> 32" and "k + 8 \<le> n" and "c < 256"
  shows "xor_span bs ! c = crc_bits n (push_bit k (of_nat c))"
proof (rule xor_span_linear [where f = "\<lambda>x. crc_bits n (push_bit k x)"])
  show "crc_bits n (push_bit k (a XOR b)) = crc_bits n (push_bit k a) XOR crc_bits n (push_bit k b)" for a b
    by (simp add: push_bit_xor crc_bits_xor)
  show "bs ! i = crc_bits n (push_bit k (push_bit i 1))" if "i < length bs" for i
    using that assms crc_bits_exp [of "k + i" n] unfolding push_bit_push_bit by simp
  show "c < 2 ^ length bs" using assms by simp
qed

text \<open>The points of the orbit that the tables hold.\<close>

lemma crc_orbit_at:
  "crc_bits (Suc 0) 1 = 0x82f63b78"
  "crc_bits 2 1 = 0x417b1dbc"
  "crc_bits 3 1 = 0x20bd8ede"
  "crc_bits 4 1 = 0x105ec76f"
  "crc_bits 5 1 = 0x8ad958cf"
  "crc_bits 6 1 = 0xc79a971f"
  "crc_bits 7 1 = 0xe13b70f7"
  "crc_bits 8 1 = 0xf26b8303"
  "crc_bits 97 1 = 0x18b8ea18"
  "crc_bits 98 1 = 0x0c5c750c"
  "crc_bits 99 1 = 0x062e3a86"
  "crc_bits 100 1 = 0x03171d43"
  "crc_bits 101 1 = 0x837db5d9"
  "crc_bits 102 1 = 0xc348e194"
  "crc_bits 103 1 = 0x61a470ca"
  "crc_bits 104 1 = 0x30d23865"
  "crc_bits 105 1 = 0x9a9f274a"
  "crc_bits 106 1 = 0x4d4f93a5"
  "crc_bits 107 1 = 0xa451f2aa"
  "crc_bits 108 1 = 0x5228f955"
  "crc_bits 109 1 = 0xabe247d2"
  "crc_bits 110 1 = 0x55f123e9"
  "crc_bits 111 1 = 0xa80eaa8c"
  "crc_bits 112 1 = 0x54075546"
  "crc_bits 113 1 = 0x2a03aaa3"
  "crc_bits 114 1 = 0x97f7ee29"
  "crc_bits 115 1 = 0xc90dcc6c"
  "crc_bits 116 1 = 0x6486e636"
  "crc_bits 117 1 = 0x3243731b"
  "crc_bits 118 1 = 0x9bd782f5"
  "crc_bits 119 1 = 0xcf1dfa02"
  "crc_bits 120 1 = 0x678efd01"
  "crc_bits 121 1 = 0xb13145f8"
  "crc_bits 122 1 = 0x5898a2fc"
  "crc_bits 123 1 = 0x2c4c517e"
  "crc_bits 124 1 = 0x162628bf"
  "crc_bits 125 1 = 0x89e52f27"
  "crc_bits 126 1 = 0xc604aceb"
  "crc_bits 127 1 = 0xe1f46d0d"
  "crc_bits 128 1 = 0xf20c0dfe"
  by (simp_all add: numeral_eq_Suc crc_bits_Suc)

lemma upt_8: "[0..<8] = [0, 1, 2, 3, 4, 5, 6, 7 :: nat]"
  by (simp add: upt_rec)

lemma kByteExtensionTable_nth: "c < 256 \<Longrightarrow> kByteExtensionTable ! c = crc_bits 8 (of_nat c)"
  unfolding kByteExtensionTable_span
  by (subst crc_bits_table [where n = 8 and k = 0]) (simp_all add: upt_8 crc_orbit_at)

lemma kStrideExtensionTable_nth:
  "c < 256 \<Longrightarrow> kStrideExtensionTable3 ! c = crc_bits 128 (of_nat c)"
  "c < 256 \<Longrightarrow> kStrideExtensionTable2 ! c = crc_bits 128 (push_bit 8 (of_nat c))"
  "c < 256 \<Longrightarrow> kStrideExtensionTable1 ! c = crc_bits 128 (push_bit 16 (of_nat c))"
  "c < 256 \<Longrightarrow> kStrideExtensionTable0 ! c = crc_bits 128 (push_bit 24 (of_nat c))"
  unfolding kStrideExtensionTable3_span kStrideExtensionTable2_span kStrideExtensionTable1_span
    kStrideExtensionTable0_span
  using crc_bits_table [where n = 128 and k = 0, OF refl] crc_bits_table [where n = 128 and k = 8, OF refl]
    crc_bits_table [where n = 128 and k = 16, OF refl] crc_bits_table [where n = 128 and k = 24, OF refl]
  by (simp_all add: upt_8 crc_orbit_at)

section \<open>Steps\<close>

lemma and_ff: "(x :: 'a::len word) AND 0xff = take_bit 8 x"
proof -
  have "(0xff :: 'a word) = mask 8" by (simp add: mask_eq_exp_minus_1)
  then show ?thesis by (simp add: take_bit_eq_mask)
qed

lemma take_8_index: "unat (take_bit 8 (x :: uint32)) < 256"
  by (simp only: unat_take_bit) simp

lemma crc_bits_8: "crc_bits 8 w = drop_bit 8 w XOR kByteExtensionTable ! unat (w AND 0xff)"
proof -
  have "w = take_bit 8 w XOR push_bit 8 (drop_bit 8 w)"
    by (rule bit_word_eqI) (auto simp: bit_simps)
  then have "crc_bits 8 w = crc_bits 8 (take_bit 8 w) XOR crc_bits 8 (push_bit 8 (drop_bit 8 w))"
    by (metis crc_bits_xor)
  also have "crc_bits 8 (push_bit 8 (drop_bit 8 w)) = drop_bit 8 w"
    by (rule crc_bits_push) (auto simp: bit_drop_bit_eq dest: bit_imp_le_length)
  finally show ?thesis
    by (simp add: and_ff kByteExtensionTable_nth [OF take_8_index] xor.commute)
qed

lemma STEP1_crc_byte: "STEP1 l b = crc_byte l b"
proof -
  have u: "take_bit 8 l XOR ucast b = take_bit 8 (l XOR ucast b)"
    by (rule bit_word_eqI) (auto simp: bit_simps dest: bit_imp_le_length)
  have "drop_bit 8 (l XOR ucast b) = drop_bit 8 l"
    by (rule bit_word_eqI) (auto simp: bit_simps dest: bit_imp_le_length)
  then show ?thesis by (simp only: STEP1_def crc_byte_def crc_bits_8 Let_def and_ff u) (simp only: xor.commute)
qed

lemma STEP4_crc_bits: "STEP4 w crc = w XOR crc_bits 128 crc"
proof -
  let ?t = "\<lambda>k. push_bit k (take_bit 8 (drop_bit k crc))"
  have "crc = take_bit 8 crc XOR ?t 8 XOR ?t 16 XOR ?t 24"
    by (rule bit_word_eqI) (auto simp: bit_simps)
  then have "crc_bits 128 crc = crc_bits 128 (take_bit 8 crc XOR ?t 8 XOR ?t 16 XOR ?t 24)" by simp
  also have "\<dots> = crc_bits 128 (take_bit 8 crc) XOR crc_bits 128 (?t 8) XOR crc_bits 128 (?t 16) XOR crc_bits 128 (?t 24)"
    by (simp only: crc_bits_xor)
  finally have c: "crc_bits 128 crc = \<dots>" .
  have top: "drop_bit 24 crc = take_bit 8 (drop_bit 24 crc)"
    by (rule bit_word_eqI) (auto simp: bit_simps dest: bit_imp_le_length)
  have "kStrideExtensionTable3 ! unat (take_bit 8 crc) = crc_bits 128 (take_bit 8 crc)"
    "kStrideExtensionTable2 ! unat (take_bit 8 (drop_bit 8 crc)) = crc_bits 128 (?t 8)"
    "kStrideExtensionTable1 ! unat (take_bit 8 (drop_bit 16 crc)) = crc_bits 128 (?t 16)"
    "kStrideExtensionTable0 ! unat (drop_bit 24 crc) = crc_bits 128 (?t 24)"
    unfolding kStrideExtensionTable_nth [OF take_8_index]
    using kStrideExtensionTable_nth(4) [OF take_8_index, of "drop_bit 24 crc"] top by simp_all
  then show ?thesis by (simp only: STEP4_def and_ff c xor.assoc)
qed

lemma STEP4W_crc_bits: "STEP4W l w = crc_bits 32 (w XOR l)"
proof -
  have "(\<lambda>w. drop_bit 8 w XOR kByteExtensionTable ! unat (w AND 0xff)) = crc_bits 8"
    by (rule ext) (rule crc_bits_8 [symmetric])
  then have "STEP4W l w = (crc_bits 8 ^^ 4) (w XOR l)" by (simp add: STEP4W_def)
  also have "\<dots> = crc_bits 32 (w XOR l)"
    by (simp add: numeral_eq_Suc crc_bits_add)
  finally show ?thesis .
qed

section \<open>Strides\<close>

lemma foldl_crc_byte_word:
  "length bs \<le> 4 \<Longrightarrow> foldl crc_byte l bs = crc_bits (8 * length bs) (l XOR le_word bs)"
proof (induction bs arbitrary: l)
  case (Cons b bs)
  let ?w = "le_word bs :: uint32"
  have w: "i + 8 < 32" if "bit ?w i" for i using bit_le_word [OF that] Cons.prems by simp
  have "ucast b OR push_bit 8 ?w = ucast b XOR push_bit 8 ?w"
    by (rule bit_word_eqI) (auto simp: bit_simps dest: bit_imp_le_length)
  then have "crc_bits (8 * length bs + 8) (l XOR le_word (b # bs))
      = crc_bits (8 * length bs) (crc_bits 8 ((l XOR ucast b) XOR push_bit 8 ?w))"
    by (simp add: crc_bits_add xor.assoc)
  also have "\<dots> = crc_bits (8 * length bs) (crc_byte l b XOR ?w)"
    by (simp only: crc_bits_xor [of 8 "l XOR ucast b"] crc_bits_push [OF w] crc_byte_def)
  also have "\<dots> = foldl crc_byte l (b # bs)" using Cons by simp
  finally show ?case by (simp add: add.commute)
qed simp

lemma foldl_crc_byte_4:
  assumes "4 \<le> length p"
  shows "foldl crc_byte l p = foldl crc_byte (crc_bits 32 (l XOR ReadUint32LE p)) (drop 4 p)"
proof -
  have "foldl crc_byte l (take 4 p @ drop 4 p) = foldl crc_byte (foldl crc_byte l (take 4 p)) (drop 4 p)"
    by (rule foldl_append)
  also have "foldl crc_byte l (take 4 p) = crc_bits 32 (l XOR ReadUint32LE p)"
    using foldl_crc_byte_word [of "take 4 p" l] assms by (simp add: ReadUint32LE_def DecodeFixed32_def)
  finally show ?thesis by simp
qed

lemma foldl_crc_byte_16:
  assumes "16 \<le> length p"
  shows "foldl crc_byte l p = foldl crc_byte
    (crc_bits 128 (l XOR ReadUint32LE p) XOR crc_bits 96 (ReadUint32LE (drop 4 p))
      XOR crc_bits 64 (ReadUint32LE (drop 8 p)) XOR crc_bits 32 (ReadUint32LE (drop 12 p))) (drop 16 p)"
  using assms
  by (subst foldl_crc_byte_4, simp, subst foldl_crc_byte_4, simp, subst foldl_crc_byte_4, simp,
      subst foldl_crc_byte_4, simp) (simp add: crc_bits_xor crc_bits_add xor.assoc)

text \<open>The checksum that four partial results stand for.\<close>

fun combine :: "strides \<Rightarrow> uint32" where
  "combine (crc0, crc1, crc2, crc3) =
     crc_bits 128 crc0 XOR crc_bits 96 crc1 XOR crc_bits 64 crc2 XOR crc_bits 32 crc3"

lemma swath_loop_combine:
  "swath_loop s p = (s', p') \<Longrightarrow> foldl crc_byte (combine s) p = foldl crc_byte (combine s') p'"
proof (induction s p rule: swath_loop.induct)
  case (1 s p)
  obtain c0 c1 c2 c3 where s: "s = (c0, c1, c2, c3)" by (cases s)
  show ?case
  proof (cases "16 \<le> length p")
    case True
    let ?s = "(STEP4 (ReadUint32LE p) c0, STEP4 (ReadUint32LE (drop 4 p)) c1,
        STEP4 (ReadUint32LE (drop 8 p)) c2, STEP4 (ReadUint32LE (drop 12 p)) c3)"
    have "swath_loop ?s (drop 16 p) = (s', p')"
      using "1.prems" True by (subst (asm) swath_loop.simps) (simp add: s)
    from "1.IH" [OF True s [symmetric] refl refl this]
    have "foldl crc_byte (combine ?s) (drop 16 p) = foldl crc_byte (combine s') p'" .
    moreover have "foldl crc_byte (combine s) p = foldl crc_byte (combine ?s) (drop 16 p)"
      by (subst foldl_crc_byte_16 [OF True])
         (simp add: s STEP4_crc_bits crc_bits_xor crc_bits_add ac_simps)
    ultimately show ?thesis by simp
  qed (use "1.prems" in \<open>subst (asm) swath_loop.simps, simp\<close>)
qed

lemma word_loop_combine:
  "word_loop s p = (s', p') \<Longrightarrow> foldl crc_byte (combine s) p = foldl crc_byte (combine s') p'"
proof (induction s p rule: word_loop.induct)
  case (1 s p)
  obtain c0 c1 c2 c3 where s: "s = (c0, c1, c2, c3)" by (cases s)
  show ?case
  proof (cases "4 \<le> length p")
    case True
    let ?s = "(c1, c2, c3, STEP4 (ReadUint32LE p) c0)"
    have "word_loop ?s (drop 4 p) = (s', p')"
      using "1.prems" True by (subst (asm) word_loop.simps) (simp add: s)
    from "1.IH" [OF True s [symmetric] refl refl this]
    have "foldl crc_byte (combine ?s) (drop 4 p) = foldl crc_byte (combine s') p'" .
    moreover have "foldl crc_byte (combine s) p = foldl crc_byte (combine ?s) (drop 4 p)"
      by (subst foldl_crc_byte_4 [OF True])
         (simp add: s STEP4_crc_bits crc_bits_xor crc_bits_add ac_simps)
    ultimately show ?thesis by simp
  qed (use "1.prems" in \<open>subst (asm) word_loop.simps, simp\<close>)
qed

lemma stride_phase_correct:
  assumes "stride_phase l p = (l', p')"
  shows "foldl crc_byte l p = foldl crc_byte l' p'"
proof (cases "16 \<le> length p")
  case True
  define s where "s = (ReadUint32LE p XOR l, ReadUint32LE (drop 4 p), ReadUint32LE (drop 8 p), ReadUint32LE (drop 12 p))"
  obtain s1 p1 where s1: "swath_loop s (drop 16 p) = (s1, p1)" by fastforce
  obtain c0 c1 c2 c3 p2 where s2: "word_loop s1 p1 = ((c0, c1, c2, c3), p2)" by (metis prod.exhaust)
  have l': "p' = p2" "l' = STEP4W (STEP4W (STEP4W (STEP4W 0 c0) c1) c2) c3"
    using assms True unfolding stride_phase_def s_def [symmetric] by (simp_all add: s1 s2 Let_def)
  have "foldl crc_byte l p = foldl crc_byte (combine s) (drop 16 p)"
    by (subst foldl_crc_byte_16 [OF True]) (simp add: s_def xor.commute)
  also have "\<dots> = foldl crc_byte (combine (c0, c1, c2, c3)) p2"
    using swath_loop_combine [OF s1] word_loop_combine [OF s2] by simp
  also have "combine (c0, c1, c2, c3) = l'"
    by (simp add: l' STEP4W_crc_bits crc_bits_xor crc_bits_add ac_simps)
  finally show ?thesis by (simp add: l')
next
  case False
  with assms show ?thesis by (simp add: stride_phase_def)
qed

theorem Extend_crc32c: "Extend addr crc dat = crc32c crc dat"
proof -
  have s1: "STEP1 = crc_byte" by (intro ext) (rule STEP1_crc_byte)
  define pre where "pre = RoundUp 4 addr - addr"
  define l0 where "l0 = crc XOR kCRC32Xor"
  obtain l1 p1 where 1: "(if pre \<le> length dat then (foldl STEP1 l0 (take pre dat), drop pre dat) else (l0, dat)) = (l1, p1)"
    by (metis prod.exhaust)
  have f1: "foldl crc_byte l0 dat = foldl crc_byte l1 p1"
  proof (cases "pre \<le> length dat")
    case True
    with 1 have "l1 = foldl crc_byte l0 (take pre dat)" "p1 = drop pre dat" by (simp_all add: s1)
    then show ?thesis by (simp flip: foldl_append)
  qed (use 1 in simp)
  obtain l2 p2 where 2: "stride_phase l1 p1 = (l2, p2)" by fastforce
  have "Extend addr crc dat = foldl STEP1 l2 p2 XOR kCRC32Xor"
    using 1 2 unfolding Extend_def l0_def pre_def
    by (simp add: CanAccelerateCRC32C_def AcceleratedCRC32C_def Let_def)
  then show ?thesis
    using stride_phase_correct [OF 2] f1 by (simp add: crc32c_def s1 l0_def kCRC32Xor_def)
qed

section \<open>The interface of a checksum\<close>

text \<open>What the users of a checksum rely on: it can be extended piece by piece, wherever the pieces
  are in memory, and a stored one can be unmasked.\<close>

locale checksum =
  fixes ext :: "nat \<Rightarrow> uint32 \<Rightarrow> byte list \<Rightarrow> uint32" and mask unmask :: "uint32 \<Rightarrow> uint32"
  assumes ext_append: "ext a (ext b crc xs) ys = ext c crc (xs @ ys)"
    and unmask_mask: "unmask (mask crc) = crc"
begin

lemma ext_addr: "ext a crc xs = ext b crc xs"
  using ext_append [of a b crc xs "[]" b] ext_append [of a b crc xs "[]" a] by simp

lemma stored_matches: "unmask (mask (ext a (ext b 0 [t]) xs)) = ext c 0 (t # xs)"
  using ext_append [of a b 0 "[t]" xs c] by (simp add: unmask_mask)

end

lemma rotate_word:
  fixes x :: uint32
  assumes "a + b = 32" and "0 < a" and "0 < b"
  shows "drop_bit b (drop_bit a x OR push_bit b x) OR push_bit a (drop_bit a x OR push_bit b x) = x"
proof (rule bit_word_eqI)
  fix i assume "i < LENGTH(32)"
  with assms show "bit (drop_bit b (drop_bit a x OR push_bit b x) OR push_bit a (drop_bit a x OR push_bit b x)) i \<longleftrightarrow> bit x i"
    by (cases "a \<le> i") (auto simp: bit_simps dest: bit_imp_le_length)
qed

lemma Unmask_Mask: "Unmask (Mask crc) = crc"
  using rotate_word [of 15 17 crc] by (simp add: Mask_def Unmask_def Let_def)

lemma Mask_Unmask: "Mask (Unmask m) = m"
  using rotate_word [of 17 15 "m - kMaskDelta"] by (simp add: Mask_def Unmask_def Let_def)

lemma crc32c_append: "crc32c (crc32c crc xs) ys = crc32c crc (xs @ ys)"
  by (simp add: crc32c_def xor.assoc)

interpretation crc: checksum Extend Mask Unmask
  by unfold_locales (simp_all add: Extend_crc32c crc32c_append Unmask_Mask)

section \<open>Properties\<close>

text \<open>C19: \<open>crc32c::Extend\<close>, which first aligns, then works on four interleaved
  strides with four tables of 256 entries, combines them and finishes byte by byte, computes for
  every address and every input the CRC-32C defined by one shift per bit with the Castagnoli
  polynomial; checksums of two pieces chain to the checksum of their concatenation; and \<open>Mask\<close> and
  \<open>Unmask\<close> are inverse to each other.\<close>

theorem crc_extend_correct:
  "Extend addr crc dat = crc32c crc dat
   \<and> Extend a (Extend b crc xs) ys = crc32c crc (xs @ ys)
   \<and> Unmask (Mask crc) = crc \<and> Mask (Unmask crc) = crc"
  by (simp add: Extend_crc32c crc32c_append Unmask_Mask Mask_Unmask)

end
