(* ===== verification/Ldb_Log.thy ===== *)
theory Ldb_Log
  imports Ldb_Crc_Correct Ldb_Status
begin

text \<open>
  LevelDB: the log of records (\<open>db/log_format.h\<close>, \<open>db/log_writer.cc\<close>, \<open>db/log_reader.cc\<close>). The
  files behind the writer and the reader are parameters: a state with the operations of
  \<open>WritableFile\<close> and \<open>SequentialFile\<close>. Offsets are \<open>uint64_t\<close> and wrap. A reporter is the list of what
  was reported to it. Checksums are taken at address 0: their value does not depend on it.
\<close>

section \<open>Format\<close>

datatype RecordType = kZeroType | kFullType | kFirstType | kMiddleType | kLastType

fun RecordType_code :: "RecordType \<Rightarrow> nat" where
  "RecordType_code kZeroType = 0"
| "RecordType_code kFullType = 1"
| "RecordType_code kFirstType = 2"
| "RecordType_code kMiddleType = 3"
| "RecordType_code kLastType = 4"

definition kMaxRecordType :: nat where "kMaxRecordType = RecordType_code kLastType"

definition kBlockSize :: nat where "kBlockSize = 32768"

definition kHeaderSize :: nat where "kHeaderSize = 4 + 2 + 1"

section \<open>The writer\<close>

record 'f WritableFile =
  wf_Append :: "byte list \<Rightarrow> 'f \<Rightarrow> Status \<times> 'f"
  wf_Flush :: "'f \<Rightarrow> Status \<times> 'f"

record 'f Writer =
  w_dest :: 'f
  w_block_offset :: nat
  w_type_crc :: "uint32 list"

definition InitTypeCrc :: "uint32 list" where
  "InitTypeCrc = map (\<lambda>i. crc_Value 0 [of_nat i]) [0..<kMaxRecordType + 1]"

definition make_Writer :: "'f \<Rightarrow> nat \<Rightarrow> 'f Writer" where
  "make_Writer dest dest_length =
     \<lparr>w_dest = dest, w_block_offset = dest_length mod kBlockSize, w_type_crc = InitTypeCrc\<rparr>"

text \<open>The seven bytes of the header.\<close>

definition record_header :: "uint32 list \<Rightarrow> RecordType \<Rightarrow> byte list \<Rightarrow> byte list" where
  "record_header type_crc t payload =
     (let n = length payload;
          crc = Mask (Extend 0 (type_crc ! RecordType_code t) payload)
      in EncodeFixed32 crc @ [of_nat n, of_nat (n div 256), of_nat (RecordType_code t)])"

definition EmitPhysicalRecord ::
    "'f WritableFile \<Rightarrow> RecordType \<Rightarrow> byte list \<Rightarrow> 'f Writer \<Rightarrow> Status \<times> 'f Writer" where
  "EmitPhysicalRecord ops t payload w =
     (let (s, f) = wf_Append ops (record_header (w_type_crc w) t payload) (w_dest w);
          (s, f) = (if s = OK
                    then (let (s, f) = wf_Append ops payload f
                          in if s = OK then wf_Flush ops f else (s, f))
                    else (s, f))
      in (s, w\<lparr>w_dest := f, w_block_offset := w_block_offset w + (kHeaderSize + length payload)\<rparr>))"

text \<open>The start of the loop body: switch to a new block when no header fits. The status of the
  \<open>Append\<close> that fills the trailer is not looked at.\<close>

definition switch_block :: "'f WritableFile \<Rightarrow> 'f Writer \<Rightarrow> 'f Writer" where
  "switch_block ops w =
     (let leftover = kBlockSize - w_block_offset w
      in if leftover < kHeaderSize
         then w\<lparr>w_dest := (if 0 < leftover then snd (wf_Append ops (replicate leftover 0) (w_dest w)) else w_dest w),
                w_block_offset := 0\<rparr>
         else w)"

definition fragment_type :: "bool \<Rightarrow> bool \<Rightarrow> RecordType" where
  "fragment_type beg last_one =
     (if beg \<and> last_one then kFullType else if beg then kFirstType else if last_one then kLastType
      else kMiddleType)"

definition avail_in_block :: "nat \<Rightarrow> nat" where
  "avail_in_block off = (if kBlockSize - off < kHeaderSize then kBlockSize - kHeaderSize else kBlockSize - off - kHeaderSize)"

lemma switch_block_offset:
  "w_block_offset (switch_block ops w) = (if kBlockSize - w_block_offset w < kHeaderSize then 0 else w_block_offset w)"
  by (simp add: switch_block_def Let_def)

function AddRecord_loop ::
    "'f WritableFile \<Rightarrow> bool \<Rightarrow> byte list \<Rightarrow> 'f Writer \<Rightarrow> Status \<times> 'f Writer" where
  "AddRecord_loop ops beg left w =
     (let w1 = switch_block ops w;
          avail = kBlockSize - w_block_offset w1 - kHeaderSize;
          fragment_length = (if length left < avail then length left else avail);
          (s, w2) = EmitPhysicalRecord ops (fragment_type beg (length left = fragment_length))
                      (take fragment_length left) w1
      in if s = OK \<and> 0 < length left - fragment_length
         then AddRecord_loop ops False (drop fragment_length left) w2
         else (s, w2))"
  by pat_completeness auto
termination
proof (relation "measure (\<lambda>(_, _, left, w). 2 * length left
          + (if avail_in_block (w_block_offset w) = 0 then 1 else 0))", goal_cases)
  case 1
  show ?case by simp
next
  case (2 ops beg left w w1 avail n p s w2)
  have av: "avail = avail_in_block (w_block_offset w)"
    unfolding 2(1,2) switch_block_offset avail_in_block_def by simp
  have n: "n = (if length left < avail then length left else avail)" by (rule 2(3))
  have l: "n < length left" using 2(6) by simp
  then have na: "n = avail" using n by (simp split: if_splits)
  show ?case
  proof (cases "avail = 0")
    case True
    have off: "w_block_offset w2 = w_block_offset w1 + kHeaderSize"
    proof -
      have "(s, w2) = EmitPhysicalRecord ops (fragment_type beg (length left = n)) (take n left) w1"
        using 2(4,5) by simp
      then show ?thesis using True na by (simp add: EmitPhysicalRecord_def Let_def split: prod.splits)
    qed
    have "kBlockSize - (w_block_offset w1 + kHeaderSize) = 0"
      using True 2(2) by simp
    then have "avail_in_block (w_block_offset w2) \<noteq> 0"
      unfolding off avail_in_block_def by (simp add: kBlockSize_def kHeaderSize_def)
    then show ?thesis using True av na by simp
  next
    case False
    then show ?thesis using na l av by auto
  qed
qed

declare AddRecord_loop.simps [simp del]

definition AddRecord :: "'f WritableFile \<Rightarrow> byte list \<Rightarrow> 'f Writer \<Rightarrow> Status \<times> 'f Writer" where
  "AddRecord ops slc w = AddRecord_loop ops True slc w"

section \<open>The reader\<close>

record 'f SequentialFile =
  sf_Read :: "nat \<Rightarrow> 'f \<Rightarrow> Status \<times> byte list \<times> 'f"
  sf_Skip :: "uint64 \<Rightarrow> 'f \<Rightarrow> Status \<times> 'f"

record 'f Reader =
  r_file :: 'f
  r_reporter :: "(uint64 \<times> Status) list option"
  r_checksum :: bool
  r_buffer :: slice
  r_eof :: bool
  r_last_record_offset :: uint64
  r_end_of_buffer_offset :: uint64
  r_initial_offset :: uint64
  r_resyncing :: bool

definition make_Reader :: "'f \<Rightarrow> (uint64 \<times> Status) list option \<Rightarrow> bool \<Rightarrow> uint64 \<Rightarrow> 'f Reader" where
  "make_Reader file reporter chk initial_offset =
     \<lparr>r_file = file, r_reporter = reporter, r_checksum = chk, r_buffer = [], r_eof = False,
      r_last_record_offset = 0, r_end_of_buffer_offset = 0, r_initial_offset = initial_offset,
      r_resyncing = (0 < initial_offset)\<rparr>"

definition ReportDrop :: "uint64 \<Rightarrow> Status \<Rightarrow> 'f Reader \<Rightarrow> 'f Reader" where
  "ReportDrop bytes reason r =
     (case r_reporter r of
        None \<Rightarrow> r
      | Some log \<Rightarrow>
          if r_end_of_buffer_offset r - of_nat (length (r_buffer r)) - bytes \<ge> r_initial_offset r
          then r\<lparr>r_reporter := Some (log @ [(bytes, reason)])\<rparr> else r)"

definition ReportCorruption :: "uint64 \<Rightarrow> string \<Rightarrow> 'f Reader \<Rightarrow> 'f Reader" where
  "ReportCorruption bytes reason r = ReportDrop bytes (Corruption reason) r"

definition SkipToInitialBlock :: "'f SequentialFile \<Rightarrow> 'f Reader \<Rightarrow> bool \<times> 'f Reader" where
  "SkipToInitialBlock ops r =
     (let offset_in_block = r_initial_offset r mod of_nat kBlockSize;
          start = r_initial_offset r - offset_in_block;
          start = (if offset_in_block > of_nat kBlockSize - 6 then start + of_nat kBlockSize else start);
          r = r\<lparr>r_end_of_buffer_offset := start\<rparr>
      in if start > 0
         then (let (s, f) = sf_Skip ops start (r_file r); r = r\<lparr>r_file := f\<rparr>
               in if s \<noteq> OK then (False, ReportDrop start s r) else (True, r))
         else (True, r))"

definition kEof :: uint32 where "kEof = of_nat (kMaxRecordType + 1)"

definition kBadRecord :: uint32 where "kBadRecord = of_nat (kMaxRecordType + 2)"

text \<open>From \<open>// Parse the header\<close> on: the type or special value, the fragment, the reader. A \<open>char\<close> of
  128 or more becomes a large \<open>unsigned int\<close>.\<close>

definition parse_physical :: "'f Reader \<Rightarrow> uint32 \<times> slice \<times> 'f Reader" where
  "parse_physical r =
     (let header = r_buffer r;
          a = ucast (header ! 4) AND 0xff :: uint32; b = ucast (header ! 5) AND 0xff :: uint32;
          t = scast (header ! 6) :: uint32;
          len = a OR push_bit 8 b;
          clear = r\<lparr>r_buffer := []\<rparr>
      in if length (r_buffer r) < kHeaderSize + unat len
         then (if \<not> r_eof r
               then (kBadRecord, [], ReportCorruption (of_nat (length (r_buffer r))) ''bad record length'' clear)
               else (kEof, [], clear))
         else if t = of_nat (RecordType_code kZeroType) \<and> len = 0 then (kBadRecord, [], clear)
         else if r_checksum r
                 \<and> crc_Value 0 (take (1 + unat len) (drop 6 header)) \<noteq> Unmask (DecodeFixed32 header)
         then (kBadRecord, [], ReportCorruption (of_nat (length (r_buffer r))) ''checksum mismatch'' clear)
         else (let r = r\<lparr>r_buffer := drop (kHeaderSize + unat len) (r_buffer r)\<rparr>
               in if r_end_of_buffer_offset r - of_nat (length (r_buffer r)) - of_nat kHeaderSize - ucast len
                     < r_initial_offset r
                  then (kBadRecord, [], r)
                  else (t, take (unat len) (drop kHeaderSize header), r)))"

text \<open>The loop of \<open>ReadPhysicalRecord\<close> reads at most once more: after a full block a header fits,
  after a short one the end of the file is noted.\<close>

function ReadPhysicalRecord :: "'f SequentialFile \<Rightarrow> 'f Reader \<Rightarrow> uint32 \<times> slice \<times> 'f Reader" where
  "ReadPhysicalRecord ops r =
     (if length (r_buffer r) < kHeaderSize
      then (if \<not> r_eof r
            then (let (s, buf, f) = sf_Read ops kBlockSize (r_file r);
                      r = r\<lparr>r_file := f, r_buffer := buf,
                            r_end_of_buffer_offset := r_end_of_buffer_offset r + of_nat (length buf)\<rparr>
                  in if s \<noteq> OK
                     then (kEof, [], (ReportDrop (of_nat kBlockSize) s (r\<lparr>r_buffer := []\<rparr>))\<lparr>r_eof := True\<rparr>)
                     else ReadPhysicalRecord ops (if length buf < kBlockSize then r\<lparr>r_eof := True\<rparr> else r))
            else (kEof, [], r\<lparr>r_buffer := []\<rparr>))
      else parse_physical r)"
  by pat_completeness auto
termination
  by (relation "measure (\<lambda>(_, r). if kHeaderSize \<le> length (r_buffer r) then 0 else if r_eof r then 1 else 2)")
     (auto simp: kHeaderSize_def kBlockSize_def)

declare ReadPhysicalRecord.simps [simp del]

text \<open>The decimal digits that \<open>snprintf\<close> prints for \<open>%u\<close>.\<close>

function decimal :: "nat \<Rightarrow> string" where
  "decimal n = (if n < 10 then [char_of (48 + n)] else decimal (n div 10) @ [char_of (48 + n mod 10)])"
  by pat_completeness auto
termination
  by (relation "measure id") auto

declare decimal.simps [simp del]

text \<open>The loop of \<open>ReadRecord\<close> with \<open>scratch\<close>, \<open>in_fragmented_record\<close> and
  \<open>prospective_record_offset\<close>. \<open>None\<close>: it runs for ever, on a file without an end.\<close>

partial_function (option) ReadRecord_loop ::
    "'f SequentialFile \<Rightarrow> slice \<Rightarrow> bool \<Rightarrow> uint64 \<Rightarrow> 'f Reader \<Rightarrow> (slice option \<times> 'f Reader) option" where
  "ReadRecord_loop ops scratch in_fragmented prospective r =
     (let (t, fragment, r) = ReadPhysicalRecord ops r;
          physical = r_end_of_buffer_offset r - of_nat (length (r_buffer r)) - of_nat kHeaderSize
                     - of_nat (length fragment);
          is_type = (\<lambda>k. t = of_nat (RecordType_code k));
          resyncing = r_resyncing r;
          r = (if resyncing \<and> \<not> is_type kMiddleType then r\<lparr>r_resyncing := False\<rparr> else r)
      in if resyncing \<and> (is_type kMiddleType \<or> is_type kLastType)
         then ReadRecord_loop ops scratch in_fragmented prospective r
         else if is_type kFullType
         then (let r = (if in_fragmented \<and> scratch \<noteq> []
                        then ReportCorruption (of_nat (length scratch)) ''partial record without end(1)'' r else r)
               in Some (Some fragment, r\<lparr>r_last_record_offset := physical\<rparr>))
         else if is_type kFirstType
         then (let r = (if in_fragmented \<and> scratch \<noteq> []
                        then ReportCorruption (of_nat (length scratch)) ''partial record without end(2)'' r else r)
               in ReadRecord_loop ops fragment True physical r)
         else if is_type kMiddleType
         then (if \<not> in_fragmented
               then ReadRecord_loop ops scratch in_fragmented prospective
                      (ReportCorruption (of_nat (length fragment)) ''missing start of fragmented record(1)'' r)
               else ReadRecord_loop ops (scratch @ fragment) in_fragmented prospective r)
         else if is_type kLastType
         then (if \<not> in_fragmented
               then ReadRecord_loop ops scratch in_fragmented prospective
                      (ReportCorruption (of_nat (length fragment)) ''missing start of fragmented record(2)'' r)
               else Some (Some (scratch @ fragment), r\<lparr>r_last_record_offset := prospective\<rparr>))
         else if t = kEof then Some (None, r)
         else if t = kBadRecord
         then (if in_fragmented
               then ReadRecord_loop ops [] False prospective
                      (ReportCorruption (of_nat (length scratch)) ''error in middle of record'' r)
               else ReadRecord_loop ops scratch in_fragmented prospective r)
         else ReadRecord_loop ops [] False prospective
                (ReportCorruption (of_nat (length fragment + (if in_fragmented then length scratch else 0)))
                  (''unknown record type '' @ decimal (unat t)) r))"

definition ReadRecord :: "'f SequentialFile \<Rightarrow> 'f Reader \<Rightarrow> (slice option \<times> 'f Reader) option" where
  "ReadRecord ops r =
     (if r_last_record_offset r < r_initial_offset r
      then (let (ok, r) = SkipToInitialBlock ops r
            in if \<not> ok then Some (None, r) else ReadRecord_loop ops [] False 0 r)
      else ReadRecord_loop ops [] False 0 r)"

definition LastRecordOffset :: "'f Reader \<Rightarrow> uint64" where
  "LastRecordOffset r = r_last_record_offset r"

end
