(* ===== verification/Ldb_Log_Correct.thy ===== *)
theory Ldb_Log_Correct
  imports Ldb_Log
begin

text \<open>
  A log that was written, and then cut off anywhere, is read back as the records that are complete
  in what is left. The reader is described by its position in the bytes of the file: what it has
  buffered is the rest of the current block.
\<close>

section \<open>Files in memory\<close>

definition mem_out :: "byte list WritableFile" where
  "mem_out = \<lparr>wf_Append = (\<lambda>bs f. (OK, f @ bs)), wf_Flush = (\<lambda>f. (OK, f))\<rparr>"

definition mem_in :: "byte list SequentialFile" where
  "mem_in = \<lparr>sf_Read = (\<lambda>n f. (OK, take n f, drop n f)), sf_Skip = (\<lambda>n f. (OK, drop (unat n) f))\<rparr>"

lemma mem_simps [simp]:
  "wf_Append mem_out bs f = (OK, f @ bs)" "wf_Flush mem_out f = (OK, f)"
  "sf_Read mem_in n g = (OK, take n g, drop n g)"
  by (simp_all add: mem_out_def mem_in_def)

section \<open>Positions\<close>

text \<open>The start of the block after the one with position \<open>p\<close>; where the next header after \<open>p\<close> is.\<close>

definition block_limit :: "nat \<Rightarrow> nat" where
  "block_limit p = p div kBlockSize * kBlockSize + kBlockSize"

definition next_header :: "nat \<Rightarrow> nat" where
  "next_header p = (if block_limit p - p < kHeaderSize then block_limit p else p)"

lemma header_fits: "kHeaderSize < kBlockSize"
  by (simp add: kHeaderSize_def kBlockSize_def)

lemma block_limit_mod_eq: "block_limit p + p mod kBlockSize = p + kBlockSize"
  unfolding block_limit_def using div_mult_mod_eq [of p kBlockSize] by linarith

lemma kBlockSize_mod: "p mod kBlockSize < kBlockSize"
  using header_fits by simp

lemma block_limit_bounds: "p < block_limit p" "block_limit p \<le> p + kBlockSize"
  using block_limit_mod_eq [of p] kBlockSize_mod [of p] by linarith+

lemma block_limit_mod [simp]: "block_limit p mod kBlockSize = 0"
  by (simp add: block_limit_def)

lemma block_limit_aligned: "p mod kBlockSize = 0 \<Longrightarrow> block_limit p = p + kBlockSize"
  using block_limit_mod_eq [of p] by simp

lemma block_limit_within:
  assumes "q \<le> p" and "p < block_limit q"
  shows "block_limit p = block_limit q"
proof -
  have "q div kBlockSize * kBlockSize \<le> p"
    using assms(1) div_mult_mod_eq [of q kBlockSize] by linarith
  then have "p div kBlockSize = q div kBlockSize"
    using assms(2) by (intro div_nat_eqI) (simp_all add: block_limit_def mult.commute)
  then show ?thesis by (simp add: block_limit_def)
qed

lemma next_header_aligned: "p mod kBlockSize = 0 \<Longrightarrow> next_header p = p"
  using header_fits by (simp add: next_header_def block_limit_aligned)

lemma next_header_le: "p \<le> next_header p" "next_header p + kHeaderSize \<le> block_limit (next_header p)"
  using block_limit_bounds [of p] block_limit_aligned [OF block_limit_mod, of p] header_fits
  by (auto simp: next_header_def)

section \<open>The reader at a position\<close>

definition loaded :: "byte list \<Rightarrow> nat \<Rightarrow> byte list Reader \<Rightarrow> bool" where
  "loaded S pos r \<longleftrightarrow>
     pos \<le> length S
     \<and> r_end_of_buffer_offset r = of_nat (min (length S) (block_limit pos))
     \<and> (r_eof r \<longleftrightarrow> length S < block_limit pos)
     \<and> r_buffer r = drop pos (take (block_limit pos) S)
     \<and> r_file r = drop (block_limit pos) S
     \<and> r_initial_offset r = 0 \<and> \<not> r_resyncing r"

definition unread :: "byte list \<Rightarrow> nat \<Rightarrow> byte list Reader \<Rightarrow> bool" where
  "unread S pos r \<longleftrightarrow>
     pos \<le> length S \<and> pos mod kBlockSize = 0 \<and> r_end_of_buffer_offset r = of_nat pos \<and> \<not> r_eof r
     \<and> length (r_buffer r) < kHeaderSize \<and> r_file r = drop pos S
     \<and> r_initial_offset r = 0 \<and> \<not> r_resyncing r"

text \<open>A record ends at \<open>pos\<close>: its block is still buffered, or used up.\<close>

definition at_pos_log :: "byte list \<Rightarrow> nat \<Rightarrow> byte list Reader \<Rightarrow> bool" where
  "at_pos_log S pos r \<longleftrightarrow> loaded S pos r \<or> unread S pos r \<and> r_buffer r = []"

text \<open>What the operations leave alone.\<close>

definition same_report :: "'f Reader \<Rightarrow> 'f Reader \<Rightarrow> bool" where
  "same_report r r' \<longleftrightarrow> r_reporter r' = r_reporter r \<and> r_checksum r' = r_checksum r"

lemma same_report_refl [simp]: "same_report r r"
  by (simp add: same_report_def)

lemma same_report_trans: "same_report r s \<Longrightarrow> same_report s t \<Longrightarrow> same_report r t"
  by (simp add: same_report_def)

text \<open>The next physical record is parsed from the block with the next header, or the file ends.\<close>

definition parses_at :: "byte list \<Rightarrow> nat \<Rightarrow> byte list Reader \<Rightarrow> bool" where
  "parses_at S q r \<longleftrightarrow>
     (if q + kHeaderSize \<le> length S
      then \<exists>r'. ReadPhysicalRecord mem_in r = parse_physical r' \<and> loaded S q r' \<and> same_report r r'
      else \<exists>r'. ReadPhysicalRecord mem_in r = (kEof, [], r') \<and> same_report r r')"

lemma loaded_buffer_length: "loaded S q r \<Longrightarrow> length (r_buffer r) = min (length S) (block_limit q) - q"
  by (simp add: loaded_def)

lemma loaded_parses:
  assumes "loaded S q r" and "q + kHeaderSize \<le> block_limit q"
  shows "parses_at S q r"
proof (cases "q + kHeaderSize \<le> length S")
  case True
  then have "\<not> length (r_buffer r) < kHeaderSize"
    using assms by (auto simp: loaded_buffer_length)
  then have "ReadPhysicalRecord mem_in r = parse_physical r"
    by (subst ReadPhysicalRecord.simps) (simp only: if_False)
  with True assms(1) show ?thesis unfolding parses_at_def by auto
next
  case False
  then have "r_eof r" "length (r_buffer r) < kHeaderSize"
    using assms by (auto simp: loaded_def)
  then have "ReadPhysicalRecord mem_in r = (kEof, [], r\<lparr>r_buffer := []\<rparr>)"
    by (subst ReadPhysicalRecord.simps) simp
  with False show ?thesis unfolding parses_at_def by (simp add: same_report_def)
qed

lemma unread_parses:
  assumes "unread S q r"
  shows "parses_at S q r"
proof -
  have lim: "block_limit q = q + kBlockSize" using assms by (simp add: unread_def block_limit_aligned)
  define buf where "buf = take kBlockSize (drop q S)"
  define r1 where "r1 = r\<lparr>r_file := drop kBlockSize (drop q S), r_buffer := buf,
      r_end_of_buffer_offset := r_end_of_buffer_offset r + of_nat (length buf)\<rparr>"
  define r2 where "r2 = (if length buf < kBlockSize then r1\<lparr>r_eof := True\<rparr> else r1)"
  have step: "ReadPhysicalRecord mem_in r = ReadPhysicalRecord mem_in r2"
  proof -
    have "length (r_buffer r) < kHeaderSize" "\<not> r_eof r" "r_file r = drop q S"
      using assms by (simp_all add: unread_def)
    then show ?thesis
      unfolding ReadPhysicalRecord.simps [of mem_in r]
      by (simp only: mem_simps Let_def prod.case if_True r2_def r1_def buf_def not_False_eq_True if_cancel) simp
  qed
  have len: "length buf = min (length S - q) kBlockSize" by (simp add: buf_def min.commute)
  have "q + length buf = min (length S) (q + kBlockSize)"
    using assms len by (auto simp: unread_def min_def)
  then have "r_end_of_buffer_offset r2 = of_nat (min (length S) (q + kBlockSize))"
    using assms by (simp add: r2_def r1_def unread_def flip: of_nat_add)
  then have "loaded S q r2"
    using assms len unfolding loaded_def lim
    by (auto simp: r2_def r1_def buf_def unread_def take_drop add.commute)
  moreover have "same_report r r2" by (simp add: r2_def r1_def same_report_def)
  ultimately show ?thesis
    using loaded_parses [of S q r2] header_fits lim unfolding parses_at_def step
    by (auto split: if_splits intro: same_report_trans)
qed

lemma at_parses:
  assumes "at_pos_log S pos r"
  shows "parses_at S (next_header pos) r"
proof (cases "loaded S pos r")
  case True
  show ?thesis
  proof (cases "block_limit pos - pos < kHeaderSize")
    case far: False
    then have "pos + kHeaderSize \<le> block_limit pos" using block_limit_bounds(1) [of pos] by linarith
    with far show ?thesis using loaded_parses [OF True] by (simp add: next_header_def)
  next
    case near: True
    then have short: "length (r_buffer r) < kHeaderSize"
      using True by (simp add: loaded_buffer_length)
    show ?thesis
    proof (cases "length S < block_limit pos")
      case True
      with \<open>loaded S pos r\<close> have "r_eof r" by (simp add: loaded_def)
      with short have "ReadPhysicalRecord mem_in r = (kEof, [], r\<lparr>r_buffer := []\<rparr>)"
        by (subst ReadPhysicalRecord.simps) simp
      with True near show ?thesis by (simp add: parses_at_def next_header_def same_report_def)
    next
      case False
      with \<open>loaded S pos r\<close> short have "unread S (block_limit pos) r"
        by (simp add: loaded_def unread_def)
      with near show ?thesis by (simp add: next_header_def unread_parses)
    qed
  qed
next
  case False
  with assms have u: "unread S pos r" by (simp add: at_pos_log_def)
  then show ?thesis using unread_parses by (simp add: unread_def next_header_aligned)
qed

section \<open>One physical record\<close>

lemma length_record_header [simp]: "length (record_header tc t payload) = kHeaderSize"
  by (simp add: record_header_def Let_def kHeaderSize_def)

lemma header_length_bytes:
  assumes "n < 2 ^ 16"
  shows "((ucast (of_nat n :: byte) :: uint32) AND 0xff) OR push_bit 8 (ucast (of_nat (n div 256) :: byte) AND 0xff)
    = (of_nat n :: uint32)"
proof (rule bit_word_eqI)
  fix k assume "k < LENGTH(32)"
  have high: "\<not> bit n k" if "16 \<le> k"
  proof -
    have "(2 :: nat) ^ 16 \<le> 2 ^ k" using that by (rule power_increasing) simp
    with assms have "n < 2 ^ k" by linarith
    then show ?thesis by (simp add: bit_iff_odd)
  qed
  have "n div 256 = drop_bit 8 n" by (simp add: drop_bit_eq_div)
  moreover have "k - 8 < 8" if "bit n k" using high that by (cases "16 \<le> k") auto
  ultimately show "bit (((ucast (of_nat n :: byte) :: uint32) AND 0xff) OR push_bit 8 (ucast (of_nat (n div 256) :: byte) AND 0xff)) k
      = bit (of_nat n :: uint32) k"
    using high \<open>k < LENGTH(32)\<close> unfolding and_ff by (auto simp: bit_simps not_le)
qed

lemma record_header_nth:
  "(record_header tc t payload @ rest) ! 4 = of_nat (length payload)"
  "(record_header tc t payload @ rest) ! 5 = of_nat (length payload div 256)"
  "(record_header tc t payload @ rest) ! 6 = of_nat (RecordType_code t)"
  by (simp_all add: record_header_def Let_def nth_append)

lemma record_header_crc:
  assumes "tc = InitTypeCrc"
  shows "Unmask (DecodeFixed32 (record_header tc t payload @ rest))
    = crc_Value 0 (of_nat (RecordType_code t) # payload)"
proof -
  have "InitTypeCrc ! RecordType_code t = crc_Value 0 [of_nat (RecordType_code t)]"
    by (cases t) (simp_all add: InitTypeCrc_def kMaxRecordType_def upt_rec)
  then show ?thesis using assms
    by (simp add: record_header_def Let_def DecodeFixed32_Encode crc_Value_def crc.stored_matches)
qed

lemma type_code_word: "scast (of_nat (RecordType_code t) :: byte) = (of_nat (RecordType_code t) :: uint32)"
  by (cases t) simp_all

text \<open>A buffer that starts with a record, and one that the end of the file cuts inside it.\<close>

lemma parse_record:
  assumes buf: "r_buffer r = record_header InitTypeCrc t payload @ payload @ rest"
    and small: "length payload < 2 ^ 16" and "t \<noteq> kZeroType" and init: "r_initial_offset r = 0"
  shows "parse_physical r = (of_nat (RecordType_code t), payload, r\<lparr>r_buffer := rest\<rparr>)"
proof -
  have len: "unat (of_nat (length payload) :: uint32) = length payload"
    using small by (simp add: unat_of_nat)
  have nth: "r_buffer r ! 4 = of_nat (length payload)" "r_buffer r ! 5 = of_nat (length payload div 256)"
    "r_buffer r ! 6 = of_nat (RecordType_code t)"
    unfolding buf by (rule record_header_nth)+
  have crc: "crc_Value 0 (take (1 + length payload) (drop 6 (r_buffer r))) = Unmask (DecodeFixed32 (r_buffer r))"
  proof -
    have "take (1 + length payload) (drop 6 (r_buffer r)) = of_nat (RecordType_code t) # payload"
      by (simp add: buf record_header_def Let_def)
    then show ?thesis unfolding buf record_header_crc [OF refl] by (simp only:)
  qed
  have fits: "\<not> length (r_buffer r) < kHeaderSize + length payload" by (simp add: buf)
  have nz: "((of_nat (RecordType_code t) :: uint32) = of_nat (RecordType_code kZeroType)) = False"
    using assms(3) by (cases t) simp_all
  have parts: "drop (kHeaderSize + length payload) (r_buffer r) = rest"
    "take (length payload) (drop kHeaderSize (r_buffer r)) = payload"
    by (simp_all add: buf)
  show ?thesis
    unfolding parse_physical_def Let_def nth header_length_bytes [OF small] type_code_word len crc parts
    by (simp only: fits nz if_False simp_thms) (simp add: init)
qed

lemma parse_cut_record:
  assumes buf: "r_buffer r = record_header InitTypeCrc t payload @ part"
    and "length part < length payload" and small: "length payload < 2 ^ 16" and eof: "r_eof r"
  shows "parse_physical r = (kEof, [], r\<lparr>r_buffer := []\<rparr>)"
proof -
  have len: "unat (of_nat (length payload) :: uint32) = length payload"
    using small by (simp add: unat_of_nat)
  have nth: "r_buffer r ! 4 = of_nat (length payload)" "r_buffer r ! 5 = of_nat (length payload div 256)"
    unfolding buf by (rule record_header_nth)+
  have "length (r_buffer r) < kHeaderSize + length payload" using assms(2) by (simp add: buf)
  then show ?thesis
    unfolding parse_physical_def Let_def nth header_length_bytes [OF small] len by (simp only: eof if_True) simp
qed

text \<open>The reader before a record that the file \<open>S\<close> holds at \<open>q\<close>, completely or in part.\<close>

definition holds_record :: "byte list \<Rightarrow> nat \<Rightarrow> RecordType \<Rightarrow> byte list \<Rightarrow> bool" where
  "holds_record T q t payload \<longleftrightarrow>
     (\<exists>pre post. T = pre @ record_header InitTypeCrc t payload @ payload @ post \<and> length pre = q)
     \<and> t \<noteq> kZeroType \<and> q + kHeaderSize + length payload \<le> block_limit q"

lemma holds_record_small:
  assumes "holds_record T q t payload"
  shows "length payload < 2 ^ 16"
proof -
  have "length payload \<le> kBlockSize"
    using assms block_limit_bounds(2) [of q] unfolding holds_record_def by linarith
  then show ?thesis by (simp add: kBlockSize_def)
qed

lemma loaded_buffer:
  assumes "loaded (take n T) q r" and "T = pre @ X" and "length pre = q"
  shows "r_buffer r = take (min (block_limit q) n - q) X"
proof -
  have "drop q T = X" using assms(2,3) by simp
  moreover have "r_buffer r = drop q (take (block_limit q) (take n T))" using assms(1) by (simp add: loaded_def)
  ultimately show ?thesis by (simp only: take_take drop_take)
qed

lemma loaded_advance:
  assumes "loaded S q r" and "q \<le> p" and "p \<le> length S" and "p \<le> block_limit q"
    and "b = drop (p - q) (r_buffer r)"
  shows "at_pos_log S p (r\<lparr>r_buffer := b\<rparr>)"
proof (cases "p < block_limit q")
  case True
  from block_limit_within [OF assms(2) True] assms have "loaded S p (r\<lparr>r_buffer := b\<rparr>)"
    by (simp add: loaded_def)
  then show ?thesis by (simp add: at_pos_log_def)
next
  case False
  with assms have "p = block_limit q" by simp
  with assms have "unread S p (r\<lparr>r_buffer := b\<rparr>)" "b = []"
    by (auto simp: loaded_def unread_def kHeaderSize_def)
  then show ?thesis by (simp add: at_pos_log_def)
qed

lemma physical_record:
  assumes at: "at_pos_log (take n T) pos r" and rec: "holds_record T (next_header pos) t payload"
  defines "e \<equiv> next_header pos + kHeaderSize + length payload"
  shows "if e \<le> n
    then \<exists>r'. ReadPhysicalRecord mem_in r = (of_nat (RecordType_code t), payload, r')
           \<and> at_pos_log (take n T) e r' \<and> same_report r r'
           \<and> r_end_of_buffer_offset r' - of_nat (length (r_buffer r')) = of_nat e
    else \<exists>r'. ReadPhysicalRecord mem_in r = (kEof, [], r') \<and> same_report r r'"
proof -
  define q where "q = next_header pos"
  define X where "X = record_header InitTypeCrc t payload @ payload"
  obtain pre post where T: "T = pre @ X @ post" "length pre = q" "t \<noteq> kZeroType" "e \<le> block_limit q"
    using rec by (auto simp: holds_record_def q_def e_def X_def)
  have X: "length X = kHeaderSize + length payload" by (simp add: X_def)
  have e: "e = q + length X" by (simp add: e_def q_def X)
  have T_len: "e \<le> length T" by (simp add: T e)
  from at_parses [OF at] have parses: "parses_at (take n T) q r" by (simp add: q_def)
  note small = holds_record_small [OF rec]
  show ?thesis
  proof (cases "q + kHeaderSize \<le> n")
    case False
    then have "\<not> q + kHeaderSize \<le> length (take n T)" "\<not> e \<le> n" using e X by auto
    with parses show ?thesis by (simp only: parses_at_def if_False)
  next
    case True
    then have "q + kHeaderSize \<le> length (take n T)" using T_len e X by simp
    with parses obtain r1 where r1: "ReadPhysicalRecord mem_in r = parse_physical r1"
      "loaded (take n T) q r1" "same_report r r1" unfolding parses_at_def by (auto simp only: if_True)
    from loaded_buffer [OF r1(2) T(1,2)]
    have buf: "r_buffer r1 = take (min (block_limit q) n - q) (X @ post)" .
    show ?thesis
    proof (cases "e \<le> n")
      case True
      define rest where "rest = take (min (block_limit q) n - e) post"
      have "r_buffer r1 = X @ rest" using buf True T(4) by (simp add: rest_def e)
      then have p: "parse_physical r1 = (of_nat (RecordType_code t), payload, r1\<lparr>r_buffer := rest\<rparr>)"
        using r1(2) small T(3) by (intro parse_record) (simp_all add: X_def loaded_def)
      have "at_pos_log (take n T) e (r1\<lparr>r_buffer := rest\<rparr>)"
        using \<open>r_buffer r1 = X @ rest\<close> True T_len T(4) by (intro loaded_advance [OF r1(2)]) (simp_all add: e)
      moreover have "r_end_of_buffer_offset r1 - of_nat (length rest) = of_nat e"
      proof -
        have "length (X @ rest) = min (length (take n T)) (block_limit q) - q"
          using loaded_buffer_length [OF r1(2)] \<open>r_buffer r1 = X @ rest\<close> by simp
        then have "min (length (take n T)) (block_limit q) = e + length rest"
          using True T_len T(4) by (auto simp: e)
        then show ?thesis using r1(2) by (simp add: loaded_def)
      qed
      ultimately show ?thesis
        using True p r1(1,3) by (auto simp: same_report_def)
    next
      case False
      define part where "part = drop kHeaderSize (r_buffer r1)"
      have "min (block_limit q) n = n" "n - q < length X" "kHeaderSize \<le> n - q"
        using False T(4) e \<open>q + kHeaderSize \<le> n\<close> by auto
      then have "r_buffer r1 = record_header InitTypeCrc t payload @ take (n - q - kHeaderSize) payload"
        using buf by (simp add: X_def)
      moreover have "r_eof r1" using r1(2) False T(4) T_len by (simp add: loaded_def)
      moreover have "length (take (n - q - kHeaderSize) payload) < length payload"
        using \<open>n - q < length X\<close> X \<open>kHeaderSize \<le> n - q\<close> by auto
      ultimately have "parse_physical r1 = (kEof, [], r1\<lparr>r_buffer := []\<rparr>)"
        using small by (intro parse_cut_record)
      with False r1(1,3) show ?thesis by (simp add: same_report_def)
    qed
  qed
qed

section \<open>The writer\<close>

text \<open>A writer that has written \<open>D\<close>.\<close>

definition writes_at :: "byte list \<Rightarrow> byte list Writer \<Rightarrow> bool" where
  "writes_at D w \<longleftrightarrow> w_dest w = D \<and> w_block_offset w \<le> kBlockSize
     \<and> w_block_offset w mod kBlockSize = length D mod kBlockSize \<and> w_type_crc w = InitTypeCrc"

lemma writes_at_make: "writes_at D (make_Writer D (length D))"
  using kBlockSize_mod [of "length D"] by (simp add: writes_at_def make_Writer_def)

definition avail_at :: "nat \<Rightarrow> nat" where
  "avail_at p = block_limit (next_header p) - next_header p - kHeaderSize"

definition padded :: "byte list \<Rightarrow> byte list" where
  "padded D = D @ replicate (next_header (length D) - length D) 0"

lemma length_padded [simp]: "length (padded D) = next_header (length D)"
  using next_header_le(1) [of "length D"] by (simp add: padded_def)

lemma switch_block_writes:
  assumes "writes_at D w"
  shows "switch_block mem_out w
    = \<lparr>w_dest = padded D, w_block_offset = next_header (length D) mod kBlockSize, w_type_crc = InitTypeCrc\<rparr>"
proof (cases "w_block_offset w = kBlockSize")
  case True
  then have "length D mod kBlockSize = 0" using assms by (simp add: writes_at_def)
  then show ?thesis using assms True
    by (cases w) (simp add: switch_block_def Let_def writes_at_def padded_def next_header_aligned kHeaderSize_def)
next
  case False
  with assms have "w_block_offset w < kBlockSize" by (simp add: writes_at_def)
  with assms have off: "w_block_offset w = length D mod kBlockSize" by (simp add: writes_at_def)
  have "kBlockSize - length D mod kBlockSize = block_limit (length D) - length D"
    using block_limit_mod_eq [of "length D"] by linarith
  then show ?thesis using assms off block_limit_bounds(1) [of "length D"]
    by (cases w) (simp add: switch_block_def Let_def writes_at_def padded_def next_header_def)
qed

lemma writes_block_rest: "kBlockSize - next_header p mod kBlockSize = block_limit (next_header p) - next_header p"
  using block_limit_mod_eq [of "next_header p"] by linarith

text \<open>One round of the loop of \<open>AddRecord\<close>.\<close>

definition fragment :: "bool \<Rightarrow> byte list \<Rightarrow> byte list \<Rightarrow> byte list" where
  "fragment beg left D = (let payload = take (avail_at (length D)) left
     in record_header InitTypeCrc (fragment_type beg (length left \<le> avail_at (length D))) payload @ payload)"

lemma AddRecord_round:
  fixes beg :: bool and left :: "byte list"
  assumes "writes_at D w"
  defines "D1 \<equiv> padded D @ fragment beg left D"
  shows "\<exists>w1. writes_at D1 w1
    \<and> AddRecord_loop mem_out beg left w
      = (if avail_at (length D) < length left
         then AddRecord_loop mem_out False (drop (avail_at (length D)) left) w1 else (OK, w1))"
proof -
  let ?q = "next_header (length D)" and ?a = "avail_at (length D)"
  define f where "f = (if length left < ?a then length left else ?a)"
  have take_f: "take f left = take ?a left" "min (length left) ?a = f" by (auto simp: f_def)
  have last: "(length left = f) = (length left \<le> ?a)" by (auto simp: f_def)
  define w1 where "w1 = \<lparr>w_dest = D1, w_block_offset = ?q mod kBlockSize + (kHeaderSize + f), w_type_crc = InitTypeCrc\<rparr>"
  have emit: "EmitPhysicalRecord mem_out (fragment_type beg (length left = f)) (take f left) (switch_block mem_out w) = (OK, w1)"
    unfolding switch_block_writes [OF assms(1)] last take_f(1)
    by (simp add: EmitPhysicalRecord_def w1_def D1_def fragment_def Let_def take_f(2))
  have avail: "kBlockSize - w_block_offset (switch_block mem_out w) - kHeaderSize = ?a"
    unfolding switch_block_writes [OF assms(1)] by (simp add: avail_at_def writes_block_rest)
  have "f \<le> ?a" by (simp add: f_def)
  then have "kHeaderSize + f \<le> kBlockSize - ?q mod kBlockSize"
    using next_header_le(2) [of "length D"] unfolding writes_block_rest avail_at_def by linarith
  then have "writes_at D1 w1"
    using kBlockSize_mod [of ?q] unfolding writes_at_def
    by (auto simp: w1_def D1_def fragment_def Let_def take_f(2) mod_add_left_eq)
  moreover have "AddRecord_loop mem_out beg left w
      = (if ?a < length left then AddRecord_loop mem_out False (drop ?a left) w1 else (OK, w1))"
    unfolding AddRecord_loop.simps [of mem_out beg left w] avail Let_def f_def [symmetric] emit prod.case
    by (auto simp: f_def)
  ultimately show ?thesis by blast
qed

lemma avail_at_progress:
  assumes "avail_at (length D) = 0"
  shows "0 < avail_at (length (padded D @ fragment beg left D))"
proof -
  have "length (padded D @ fragment beg left D) = next_header (length D) + kHeaderSize"
    by (simp add: fragment_def assms)
  also have "\<dots> = block_limit (next_header (length D))"
    using assms next_header_le(2) [of "length D"] by (simp add: avail_at_def)
  finally show ?thesis
    using header_fits by (simp add: avail_at_def next_header_aligned block_limit_aligned)
qed

section \<open>A record in fragments\<close>

lemma type_codes [simp]:
  "(of_nat (RecordType_code a) = (of_nat (RecordType_code b) :: uint32)) \<longleftrightarrow> a = b"
  "of_nat (RecordType_code a) \<noteq> kEof" "of_nat (RecordType_code a) \<noteq> kBadRecord"
  "kEof \<noteq> of_nat (RecordType_code a)" "kBadRecord \<noteq> of_nat (RecordType_code a)"
  by (cases a; cases b; simp add: kEof_def kBadRecord_def kMaxRecordType_def)+

lemma read_loop_eof:
  assumes "ReadPhysicalRecord ops r = (kEof, [], r')"
  shows "\<exists>r2. ReadRecord_loop ops scratch frag prosp r = Some (None, r2) \<and> same_report r' r2"
  unfolding ReadRecord_loop.simps [of ops scratch frag prosp r] assms prod.case Let_def
  by (simp add: same_report_def del: RecordType_code.simps)

lemma read_loop_fragment:
  assumes "ReadPhysicalRecord ops r = (of_nat (RecordType_code t), payload, r')" and "\<not> r_resyncing r'"
    and "r_end_of_buffer_offset r' - of_nat (length (r_buffer r')) = of_nat (q + kHeaderSize + length payload)"
  shows "\<not> frag \<or> scratch = [] \<Longrightarrow> t = kFullType \<Longrightarrow> ReadRecord_loop ops scratch frag prosp r
      = Some (Some payload, r'\<lparr>r_last_record_offset := of_nat q\<rparr>)"
    "\<not> frag \<or> scratch = [] \<Longrightarrow> t = kFirstType \<Longrightarrow> ReadRecord_loop ops scratch frag prosp r
      = ReadRecord_loop ops payload True (of_nat q) r'"
    "frag \<Longrightarrow> t = kMiddleType \<Longrightarrow> ReadRecord_loop ops scratch frag prosp r
      = ReadRecord_loop ops (scratch @ payload) True prosp r'"
    "frag \<Longrightarrow> t = kLastType \<Longrightarrow> ReadRecord_loop ops scratch frag prosp r
      = Some (Some (scratch @ payload), r'\<lparr>r_last_record_offset := prosp\<rparr>)"
  using assms(2,3) unfolding ReadRecord_loop.simps [of ops scratch frag prosp r] assms(1) prod.case Let_def
  by (auto simp del: RecordType_code.simps)

text \<open>The bytes \<open>bs\<close> after \<open>D\<close> are read as the record, or its rest: completely, or the log ends there.\<close>

definition reads_as :: "bool \<Rightarrow> byte list \<Rightarrow> byte list \<Rightarrow> byte list \<Rightarrow> bool" where
  "reads_as beg left D bs \<longleftrightarrow>
     (\<forall>n post r scratch frag prosp.
        at_pos_log (take n (D @ bs @ post)) (length D) r \<longrightarrow> (if beg then \<not> frag \<or> scratch = [] else frag) \<longrightarrow>
        (if length (D @ bs) \<le> n
         then \<exists>r'. ReadRecord_loop mem_in scratch frag prosp r = Some (Some ((if beg then [] else scratch) @ left), r')
                \<and> at_pos_log (take n (D @ bs @ post)) (length (D @ bs)) r' \<and> same_report r r'
                \<and> r_last_record_offset r' = (if beg then of_nat (next_header (length D)) else prosp)
         else \<exists>r'. ReadRecord_loop mem_in scratch frag prosp r = Some (None, r') \<and> same_report r r'))"

lemma at_pos_log_offset [simp]: "at_pos_log S p (r\<lparr>r_last_record_offset := x\<rparr>) = at_pos_log S p r"
  by (simp add: at_pos_log_def loaded_def unread_def)

lemma same_report_offset [simp]: "same_report r (s\<lparr>r_last_record_offset := x\<rparr>) = same_report r s"
  by (simp add: same_report_def)

lemma at_pos_log_sync: "at_pos_log S p r \<Longrightarrow> \<not> r_resyncing r"
  by (auto simp: at_pos_log_def loaded_def unread_def)

lemma fragment_held:
  fixes beg :: bool and left D post :: "byte list"
  defines "a \<equiv> avail_at (length D)"
  shows "holds_record (padded D @ fragment beg left D @ post) (next_header (length D))
    (fragment_type beg (length left \<le> a)) (take a left)"
proof -
  have "fragment_type beg e \<noteq> kZeroType" for e by (simp add: fragment_type_def)
  moreover have "next_header (length D) + kHeaderSize + length (take a left) \<le> block_limit (next_header (length D))"
    using next_header_le(2) [of "length D"] by (auto simp: a_def avail_at_def min_def)
  ultimately show ?thesis
    unfolding holds_record_def fragment_def Let_def a_def [symmetric] by (metis append.assoc length_padded)
qed

lemma length_fragment: "length (padded D @ fragment beg left D)
  = next_header (length D) + kHeaderSize + length (take (avail_at (length D)) left)"
  by (simp add: fragment_def Let_def)

lemma reads_last:
  assumes "length left \<le> avail_at (length D)" and D: "D @ bs = padded D @ fragment beg left D"
  shows "reads_as beg left D bs"
  unfolding reads_as_def
proof (intro allI impI)
  fix n post r frag prosp and scratch :: "byte list"
  define T where "T = padded D @ fragment beg left D @ post"
  have T: "D @ bs @ post = T" using D by (metis T_def append.assoc)
  have e: "length (D @ bs) = next_header (length D) + kHeaderSize + length left"
    unfolding D length_fragment using assms(1) by simp
  assume at: "at_pos_log (take n (D @ bs @ post)) (length D) r"
    and ok: "if beg then \<not> frag \<or> scratch = [] else frag"
  from fragment_held [of D beg left post] assms(1)
  have held: "holds_record T (next_header (length D)) (if beg then kFullType else kLastType) left"
    by (cases beg) (simp_all add: T_def fragment_type_def)
  note phys = physical_record [OF at [unfolded T] held]
  show "if length (D @ bs) \<le> n
      then \<exists>r'. ReadRecord_loop mem_in scratch frag prosp r = Some (Some ((if beg then [] else scratch) @ left), r')
             \<and> at_pos_log (take n (D @ bs @ post)) (length (D @ bs)) r' \<and> same_report r r'
             \<and> r_last_record_offset r' = (if beg then of_nat (next_header (length D)) else prosp)
      else \<exists>r'. ReadRecord_loop mem_in scratch frag prosp r = Some (None, r') \<and> same_report r r'"
  proof (cases "length (D @ bs) \<le> n")
    case True
    with phys e obtain r' where r':
      "ReadPhysicalRecord mem_in r = (of_nat (RecordType_code (if beg then kFullType else kLastType)), left, r')"
      "at_pos_log (take n T) (length (D @ bs)) r'" "same_report r r'"
      "r_end_of_buffer_offset r' - of_nat (length (r_buffer r')) = of_nat (next_header (length D) + kHeaderSize + length left)"
      by (auto simp del: RecordType_code.simps of_nat_add length_append)
    note rl = read_loop_fragment [OF r'(1) at_pos_log_sync [OF r'(2)] r'(4), of frag scratch prosp]
    show ?thesis
    proof (cases beg)
      case True
      then show ?thesis using rl(1) ok r'(2,3) \<open>length (D @ bs) \<le> n\<close> by (simp add: T)
    next
      case False
      then show ?thesis using rl(4) ok r'(2,3) \<open>length (D @ bs) \<le> n\<close> by (simp add: T)
    qed
  next
    case False
    with phys e obtain r' where "ReadPhysicalRecord mem_in r = (kEof, [], r')" "same_report r r'" by auto
    with read_loop_eof [OF this(1), of scratch frag prosp] False show ?thesis by (meson same_report_trans)
  qed
qed

lemma reads_more:
  fixes beg :: bool and left D :: "byte list"
  defines "D1 \<equiv> padded D @ fragment beg left D" and "a \<equiv> avail_at (length D)"
  assumes more: "a < length left" and rest: "reads_as False (drop a left) D1 bs2" and D: "D @ bs = D1 @ bs2"
  shows "reads_as beg left D bs"
  unfolding reads_as_def
proof (intro allI impI)
  fix n post r frag prosp and scratch :: "byte list"
  define T where "T = D1 @ bs2 @ post"
  have T: "D @ bs @ post = T" using D by (metis T_def append.assoc)
  have e: "length D1 = next_header (length D) + kHeaderSize + length (take a left)"
    unfolding D1_def length_fragment a_def by simp
  assume at: "at_pos_log (take n (D @ bs @ post)) (length D) r"
    and ok: "if beg then \<not> frag \<or> scratch = [] else frag"
  from fragment_held [of D beg left "bs2 @ post"] more
  have held: "holds_record T (next_header (length D)) (if beg then kFirstType else kMiddleType) (take a left)"
    by (cases beg) (simp_all add: T_def D1_def a_def fragment_type_def)
  note phys = physical_record [OF at [unfolded T] held]
  let ?goal = "\<lambda>r0 sc pr. if length (D @ bs) \<le> n
      then \<exists>r'. ReadRecord_loop mem_in scratch frag prosp r = Some (Some (sc @ drop a left), r')
             \<and> at_pos_log (take n T) (length (D @ bs)) r' \<and> same_report r0 r'
             \<and> r_last_record_offset r' = pr
      else \<exists>r'. ReadRecord_loop mem_in scratch frag prosp r = Some (None, r') \<and> same_report r0 r'"
  have main: "?goal r ((if beg then [] else scratch) @ take a left)
      (if beg then of_nat (next_header (length D)) else prosp)"
  proof (cases "length D1 \<le> n")
    case True
    with phys e obtain r' where r':
      "ReadPhysicalRecord mem_in r = (of_nat (RecordType_code (if beg then kFirstType else kMiddleType)), take a left, r')"
      "at_pos_log (take n T) (length D1) r'" "same_report r r'"
      "r_end_of_buffer_offset r' - of_nat (length (r_buffer r'))
         = of_nat (next_header (length D) + kHeaderSize + length (take a left))"
      by (auto simp del: RecordType_code.simps of_nat_add length_append length_take)
    note rl = read_loop_fragment [OF r'(1) at_pos_log_sync [OF r'(2)] r'(4), of frag scratch prosp]
    note next_frag = rest [unfolded reads_as_def, rule_format, of n post r' True, unfolded T_def [symmetric] D [symmetric]]
    have "?goal r' ((if beg then [] else scratch) @ take a left) (if beg then of_nat (next_header (length D)) else prosp)"
    proof (cases beg)
      case True
      then show ?thesis using rl(2) ok next_frag [OF r'(2), of "take a left" "of_nat (next_header (length D))"] by (auto split: if_splits)
    next
      case False
      then show ?thesis using rl(3) ok next_frag [OF r'(2), of "scratch @ take a left" prosp] by (auto split: if_splits)
    qed
    then show ?thesis using r'(3) by (auto intro: same_report_trans split: if_splits)
  next
    case False
    with phys e obtain r' where "ReadPhysicalRecord mem_in r = (kEof, [], r')" "same_report r r'" by auto
    with read_loop_eof [OF this(1), of scratch frag prosp] False show ?thesis
      unfolding D by (auto intro: same_report_trans)
  qed
  then show "if length (D @ bs) \<le> n
      then \<exists>r'. ReadRecord_loop mem_in scratch frag prosp r = Some (Some ((if beg then [] else scratch) @ left), r')
             \<and> at_pos_log (take n (D @ bs @ post)) (length (D @ bs)) r' \<and> same_report r r'
             \<and> r_last_record_offset r' = (if beg then of_nat (next_header (length D)) else prosp)
      else \<exists>r'. ReadRecord_loop mem_in scratch frag prosp r = Some (None, r') \<and> same_report r r'"
    unfolding T append.assoc append_take_drop_id .
qed

lemma AddRecord_loop_reads:
  assumes "writes_at D w"
  shows "\<exists>bs w'. AddRecord_loop mem_out beg left w = (OK, w') \<and> writes_at (D @ bs) w' \<and> reads_as beg left D bs"
  using assms
proof (induction "2 * length left + (if avail_at (length D) = 0 then 1 else 0)" arbitrary: D beg left w
    rule: less_induct)
  case less
  let ?a = "avail_at (length D)" and ?D1 = "padded D @ fragment beg left D"
  from AddRecord_round [OF less.prems, of beg left] obtain w1 where w1: "writes_at ?D1 w1"
    "AddRecord_loop mem_out beg left w
     = (if ?a < length left then AddRecord_loop mem_out False (drop ?a left) w1 else (OK, w1))" by blast
  define bs1 where "bs1 = replicate (next_header (length D) - length D) 0 @ fragment beg left D"
  have D1: "D @ bs1 = ?D1" by (simp add: bs1_def padded_def)
  show ?case
  proof (cases "?a < length left")
    case True
    have "2 * length (drop ?a left) + (if avail_at (length ?D1) = 0 then 1 else 0)
        < 2 * length left + (if ?a = 0 then 1 else 0)"
    proof (cases "?a = 0")
      case True
      then show ?thesis using avail_at_progress [OF True, of beg left] by simp
    next
      case False
      then show ?thesis using True by auto
    qed
    from less.hyps [OF this w1(1), of False] obtain bs2 w2 where
      "AddRecord_loop mem_out False (drop ?a left) w1 = (OK, w2)" "writes_at (?D1 @ bs2) w2"
      "reads_as False (drop ?a left) ?D1 bs2" by blast
    moreover from reads_more [OF True this(3), of "bs1 @ bs2"] D1
    have "reads_as beg left D (bs1 @ bs2)" by (metis append.assoc)
    ultimately show ?thesis using True w1(2) D1 by (intro exI [of _ "bs1 @ bs2"] exI [of _ w2]) (metis append.assoc)
  next
    case False
    with reads_last [of left D bs1 beg] D1 have "reads_as beg left D bs1" by simp
    then show ?thesis using False w1 D1 by (intro exI [of _ bs1] exI [of _ w1]) simp
  qed
qed

section \<open>Whole logs\<close>

definition add_all :: "byte list list \<Rightarrow> byte list Writer \<Rightarrow> byte list Writer" where
  "add_all rs w = fold (\<lambda>x w. snd (AddRecord mem_out x w)) rs w"

text \<open>The file \<open>D\<close> after a writer that was opened on it has added records.\<close>

definition log_from :: "byte list \<Rightarrow> byte list list \<Rightarrow> byte list" where
  "log_from D rs = w_dest (add_all rs (make_Writer D (length D)))"

text \<open>Reading up to \<open>k\<close> records, each with the offset reported for it, until there are no more.\<close>

fun read_all :: "nat \<Rightarrow> byte list Reader \<Rightarrow> ((slice \<times> uint64) list \<times> byte list Reader) option" where
  "read_all 0 r = Some ([], r)"
| "read_all (Suc k) r =
     (case ReadRecord mem_in r of
        None \<Rightarrow> None
      | Some (None, r') \<Rightarrow> Some ([], r')
      | Some (Some x, r') \<Rightarrow> map_option (apfst ((#) (x, LastRecordOffset r'))) (read_all k r'))"

text \<open>The records that are complete in the first \<open>n\<close> bytes.\<close>

fun complete_records :: "nat \<Rightarrow> byte list Writer \<Rightarrow> byte list list \<Rightarrow> (slice \<times> uint64) list" where
  "complete_records n w [] = []"
| "complete_records n w (x # rs) =
     (let w' = snd (AddRecord mem_out x w)
      in if length (w_dest w') \<le> n
         then (x, of_nat (next_header (length (w_dest w)))) # complete_records n w' rs else [])"

lemma AddRecord_reads:
  assumes "writes_at D w"
  shows "\<exists>bs w'. AddRecord mem_out x w = (OK, w') \<and> writes_at (D @ bs) w' \<and> reads_as True x D bs"
  unfolding AddRecord_def by (rule AddRecord_loop_reads [OF assms])

lemma ReadRecord_at: "at_pos_log S p r \<Longrightarrow> ReadRecord mem_in r = ReadRecord_loop mem_in [] False 0 r"
  by (auto simp: ReadRecord_def at_pos_log_def loaded_def unread_def)

lemma ReadRecord_end:
  assumes "at_pos_log S p r" and "length S \<le> p"
  shows "\<exists>r'. ReadRecord mem_in r = Some (None, r') \<and> same_report r r'"
proof -
  have "\<not> next_header p + kHeaderSize \<le> length S"
    using assms(2) next_header_le(1) [of p] by (simp add: kHeaderSize_def)
  with at_parses [OF assms(1)] obtain r1 where "ReadPhysicalRecord mem_in r = (kEof, [], r1)" "same_report r r1"
    by (auto simp: parses_at_def)
  with read_loop_eof [OF this(1), of "[]" False 0] ReadRecord_at [OF assms(1)] show ?thesis
    by (auto intro: same_report_trans)
qed

lemma add_all_reads:
  assumes "writes_at D w"
  shows "\<exists>bs. writes_at (D @ bs) (add_all rs w)
    \<and> (\<forall>n r. at_pos_log (take n (D @ bs)) (length D) r \<longrightarrow>
         (\<exists>r'. read_all (Suc (length rs)) r = Some (complete_records n w rs, r') \<and> same_report r r'))"
  using assms
proof (induction rs arbitrary: D w)
  case Nil
  have "\<exists>r'. read_all (Suc 0) r = Some ([], r') \<and> same_report r r'" if "at_pos_log (take n D) (length D) r" for n r
    using ReadRecord_end [OF that] by auto
  with Nil show ?case by (intro exI [of _ "[]"]) (simp add: add_all_def)
next
  case (Cons x rs)
  from AddRecord_reads [OF Cons.prems, of x] obtain b1 w1 where w1: "AddRecord mem_out x w = (OK, w1)"
    "writes_at (D @ b1) w1" "reads_as True x D b1" by blast
  from Cons.IH [OF w1(2)] obtain b2 where b2: "writes_at ((D @ b1) @ b2) (add_all rs w1)"
    "\<And>n r. at_pos_log (take n ((D @ b1) @ b2)) (length (D @ b1)) r \<Longrightarrow>
      \<exists>r'. read_all (Suc (length rs)) r = Some (complete_records n w1 rs, r') \<and> same_report r r'" by blast
  have "w_dest w = D" "w_dest w1 = D @ b1" using Cons.prems w1(2) by (simp_all add: writes_at_def)
  have "\<exists>r'. read_all (Suc (length (x # rs))) r = Some (complete_records n w (x # rs), r') \<and> same_report r r'"
    if at: "at_pos_log (take n (D @ b1 @ b2)) (length D) r" for n r
  proof (cases "length (D @ b1) \<le> n")
    case True
    with w1(3) [unfolded reads_as_def, rule_format, OF at, of False "[]" 0] ReadRecord_at [OF at]
    obtain r1 where r1: "ReadRecord mem_in r = Some (Some x, r1)"
      "at_pos_log (take n (D @ b1 @ b2)) (length (D @ b1)) r1" "same_report r r1"
      "r_last_record_offset r1 = of_nat (next_header (length D))" by auto
    from b2(2) [of n r1] r1(2) obtain r2 where
      "read_all (Suc (length rs)) r1 = Some (complete_records n w1 rs, r2)" "same_report r1 r2" by auto
    then show ?thesis
      using r1 True w1(1) \<open>w_dest w = D\<close> \<open>w_dest w1 = D @ b1\<close>
      by (auto simp: LastRecordOffset_def Let_def intro: same_report_trans)
  next
    case False
    with w1(3) [unfolded reads_as_def, rule_format, OF at, of False "[]" 0] ReadRecord_at [OF at]
    show ?thesis using w1(1) \<open>w_dest w1 = D @ b1\<close> by auto
  qed
  then show ?case using b2(1) w1(1) by (intro exI [of _ "b1 @ b2"]) (simp add: add_all_def)
qed

lemma add_all_append: "add_all (rs @ rs') w = add_all rs' (add_all rs w)"
  by (simp add: add_all_def)

text \<open>A writer that is closed and opened again goes on as if it had stayed open.\<close>

lemma log_from_append: "log_from (log_from D rs) rs' = log_from D (rs @ rs')"
proof (cases rs')
  case Nil
  then show ?thesis by (simp add: log_from_def add_all_def make_Writer_def)
next
  case (Cons x xs)
  define w where "w = add_all rs (make_Writer D (length D))"
  have w: "writes_at (log_from D rs) w" "log_from D rs = w_dest w"
    using add_all_reads [OF writes_at_make, of D rs] by (auto simp: log_from_def w_def writes_at_def)
  have "switch_block mem_out w = switch_block mem_out (make_Writer (w_dest w) (length (w_dest w)))"
    using switch_block_writes [OF w(1)] switch_block_writes [OF writes_at_make] w(2) by simp
  then have "AddRecord mem_out x w = AddRecord mem_out x (make_Writer (w_dest w) (length (w_dest w)))"
    unfolding AddRecord_def by (subst (1 2) AddRecord_loop.simps) (simp only:)
  then show ?thesis
    by (simp add: log_from_def Cons add_all_append w_def [symmetric]) (simp add: add_all_def)
qed

lemma complete_records_log:
  assumes "w = add_all before (make_Writer [] 0)"
  shows "complete_records n w rs
    = map (\<lambda>i. ((before @ rs) ! i, of_nat (next_header (length (log_from [] (take i (before @ rs)))))))
        (takeWhile (\<lambda>i. length (log_from [] (take (Suc i) (before @ rs))) \<le> n) [length before..<length (before @ rs)])"
  using assms
proof (induction rs arbitrary: before w)
  case Nil
  then show ?case by simp
next
  case (Cons x rs)
  define w' where "w' = snd (AddRecord mem_out x w)"
  have w': "w' = add_all (before @ [x]) (make_Writer [] 0)" by (simp add: w'_def Cons.prems add_all_def)
  then have log: "log_from [] (before @ [x]) = w_dest w'" "log_from [] before = w_dest w"
    by (simp_all add: log_from_def Cons.prems)
  from Cons.IH [OF w'] show ?case
    by (simp add: upt_conv_Cons Let_def log w'_def [symmetric] del: upt_Suc)
qed

text \<open>C4: whatever records are added to a log, all are accepted, and closing
  and reopening the log between two of them makes no difference to the file. If the file is cut off
  after any number \<open>n\<close> of bytes, as a crash may leave it, reading from the start returns exactly the
  records that are complete in the first \<open>n\<close> bytes, in order and each with the offset at which it
  starts, and then ends; nothing is reported as dropped, with checksums verified or not. With all
  bytes there, all records are read back.\<close>

theorem log_recovers_prefix:
  "fst (AddRecord mem_out x (add_all rs (make_Writer [] 0))) = OK
   \<and> log_from (log_from [] rs) rs' = log_from [] (rs @ rs')
   \<and> (case read_all (Suc (length rs)) (make_Reader (take n (log_from [] rs)) (Some []) chk 0) of
        None \<Rightarrow> False
      | Some (recs, r) \<Rightarrow>
          recs = map (\<lambda>i. (rs ! i, of_nat (next_header (length (log_from [] (take i rs))))))
                   (takeWhile (\<lambda>i. length (log_from [] (take (Suc i) rs)) \<le> n) [0..<length rs])
          \<and> r_reporter r = Some [])"
proof -
  let ?w = "make_Writer [] 0 :: byte list Writer"
  have w: "writes_at [] ?w" using writes_at_make [of "[]"] by simp
  from add_all_reads [OF w, of rs] obtain bs where bs: "writes_at bs (add_all rs ?w)"
    "\<And>n r. at_pos_log (take n bs) 0 r \<Longrightarrow>
       \<exists>r'. read_all (Suc (length rs)) r = Some (complete_records n ?w rs, r') \<and> same_report r r'" by auto
  then have log: "log_from [] rs = bs" by (simp add: log_from_def writes_at_def)
  let ?r = "make_Reader (take n bs) (Some []) chk 0"
  have "at_pos_log (take n bs) 0 ?r"
    by (simp add: at_pos_log_def unread_def make_Reader_def kHeaderSize_def)
  from bs(2) [OF this] obtain r' where "read_all (Suc (length rs)) ?r = Some (complete_records n ?w rs, r')"
    "r_reporter r' = Some []" by (auto simp: same_report_def make_Reader_def)
  moreover have "add_all [] ?w = ?w" by (simp add: add_all_def)
  ultimately show ?thesis
    using AddRecord_reads [OF bs(1), of x] log_from_append [of "[]" rs rs'] complete_records_log [of ?w "[]" n rs]
    by (auto simp: log simp del: read_all.simps)
qed

end
