(* ===== verification/Ldb_Log_Ends.thy ===== *)
theory Ldb_Log_Ends
  imports Ldb_Log_Correct
begin

text \<open>
  Reading a log ends, whatever bytes the file holds: every physical record, good or bad, takes bytes
  from the file. What is needed of the file is stated as an interface, which files in memory have.
\<close>

locale sequential_file =
  fixes ops :: "'f SequentialFile" and rest :: "'f \<Rightarrow> nat"
  assumes read: "sf_Read ops n f = (s, buf, f') \<Longrightarrow> length buf \<le> n \<and> length buf + rest f' \<le> rest f"
    and skip: "sf_Skip ops m f = (s, f') \<Longrightarrow> rest f' \<le> rest f"
begin

text \<open>The bytes a reader has still before it.\<close>

definition ahead :: "'f Reader \<Rightarrow> nat" where
  "ahead r = length (r_buffer r) + rest (r_file r)"

lemma ahead_report [simp]:
  "ahead (ReportDrop b st r) = ahead r" "ahead (ReportCorruption b m r) = ahead r"
  "ahead (r\<lparr>r_resyncing := x\<rparr>) = ahead r" "ahead (r\<lparr>r_last_record_offset := y\<rparr>) = ahead r"
  by (auto simp: ahead_def ReportDrop_def ReportCorruption_def split: option.splits)

lemma ahead_parse:
  assumes "parse_physical r = (t, part, r')" and "kHeaderSize \<le> length (r_buffer r)"
  shows "ahead r' + kHeaderSize + length part \<le> ahead r"
  using assms by (auto simp: parse_physical_def Let_def ahead_def ReportCorruption_def ReportDrop_def
      split: if_splits option.splits)

lemma ahead_physical:
  "ReadPhysicalRecord ops r = (t, part, r') \<Longrightarrow>
    ahead r' + kHeaderSize + length part \<le> ahead r \<or> t = kEof \<and> part = [] \<and> ahead r' \<le> ahead r"
proof (induction "if r_eof r then 0 :: nat else 1" arbitrary: r rule: less_induct)
  case less
  show ?case
  proof (cases "length (r_buffer r) < kHeaderSize \<and> \<not> r_eof r")
    case False
    then show ?thesis using less.prems ahead_parse [of r t part r']
      by (subst (asm) ReadPhysicalRecord.simps) (auto simp: ahead_def split: if_splits)
  next
    case True
    obtain s buf f where rd: "sf_Read ops kBlockSize (r_file r) = (s, buf, f)"
      by (cases "sf_Read ops kBlockSize (r_file r)") auto
    define r1 where "r1 = r\<lparr>r_file := f, r_buffer := buf,
      r_end_of_buffer_offset := r_end_of_buffer_offset r + of_nat (length buf)\<rparr>"
    have le: "ahead r1 \<le> ahead r" using read [OF rd] by (simp add: ahead_def r1_def)
    consider (bad) "s \<noteq> OK" | (last) "s = OK" "length buf < kBlockSize" | (full) "s = OK" "\<not> length buf < kBlockSize"
      by blast
    then show ?thesis
    proof cases
      case bad
      then show ?thesis using True less.prems le
        by (subst (asm) ReadPhysicalRecord.simps)
          (auto simp: rd Let_def r1_def ahead_def ReportDrop_def split: option.splits if_splits)
    next
      case last
      then have "ReadPhysicalRecord ops (r1\<lparr>r_eof := True\<rparr>) = (t, part, r')"
        using True less.prems by (subst (asm) ReadPhysicalRecord.simps) (simp add: rd Let_def r1_def)
      from less.hyps [OF _ this] True le show ?thesis by (auto simp: ahead_def)
    next
      case full
      then have "ReadPhysicalRecord ops r1 = (t, part, r')"
        using True less.prems by (subst (asm) ReadPhysicalRecord.simps) (simp add: rd Let_def r1_def)
      moreover have "\<not> length (r_buffer r1) < kHeaderSize" using full header_fits by (simp add: r1_def)
      ultimately have "parse_physical r1 = (t, part, r')"
        by (subst (asm) ReadPhysicalRecord.simps) (simp only: if_False)
      then show ?thesis using ahead_parse [of r1 t part r'] \<open>\<not> length (r_buffer r1) < kHeaderSize\<close> le by linarith
    qed
  qed
qed

text \<open>The loop returns, and a record it returns was made from bytes of the file.\<close>

definition returns :: "slice \<Rightarrow> nat \<Rightarrow> (slice option \<times> 'f Reader) option \<Rightarrow> bool" where
  "returns scratch n res \<longleftrightarrow> (\<exists>x r'. res = Some (x, r') \<and> ahead r' \<le> n
     \<and> (\<forall>rec. x = Some rec \<longrightarrow> ahead r' + kHeaderSize + length rec \<le> n + length scratch))"

lemma returns_mono: "returns sc m res \<Longrightarrow> m \<le> n \<Longrightarrow> m + length sc \<le> n + length scratch \<Longrightarrow> returns scratch n res"
  unfolding returns_def by force

lemma loop_returns: "returns scratch (ahead r) (ReadRecord_loop ops scratch frag prosp r)"
proof (induction "ahead r" arbitrary: scratch frag prosp r rule: less_induct)
  case less
  obtain t part r1 where phys: "ReadPhysicalRecord ops r = (t, part, r1)"
    by (cases "ReadPhysicalRecord ops r") auto
  note a = ahead_physical [OF phys]
  show ?case
  proof (cases "t = kEof")
    case True
    then show ?thesis using a
      unfolding ReadRecord_loop.simps [of ops scratch frag prosp r] phys prod.case Let_def
      by (auto simp: returns_def simp del: RecordType_code.simps)
  next
    case False
    with a have a: "ahead r1 + kHeaderSize + length part \<le> ahead r" by simp
    have again: "returns sc0 (ahead r) (ReadRecord_loop ops sc fr pr s)"
      if "sc0 = scratch" "ahead s = ahead r1" "length sc \<le> length scratch + length part" for sc0 sc fr pr s
      using a that by (intro returns_mono [OF less]) (simp_all add: kHeaderSize_def)
    have stop: "returns sc0 (ahead r) (Some (Some rec, s))"
      if "sc0 = scratch" "ahead s = ahead r1" "length rec \<le> length scratch + length part" for sc0 rec s
      using a that by (simp add: returns_def)
    show ?thesis using False
      unfolding ReadRecord_loop.simps [of ops scratch frag prosp r] phys prod.case Let_def
      by (auto intro!: again stop simp del: RecordType_code.simps)
  qed
qed

lemma ReadRecord_returns: "returns [] (ahead r) (ReadRecord ops r)"
proof (cases "r_last_record_offset r < r_initial_offset r")
  case True
  obtain ok r1 where sk: "SkipToInitialBlock ops r = (ok, r1)" by (cases "SkipToInitialBlock ops r") auto
  have "ahead r1 \<le> ahead r"
    using sk skip by (auto simp: SkipToInitialBlock_def Let_def ahead_def ReportDrop_def
        split: if_splits prod.splits option.splits)
  then show ?thesis using True sk returns_mono [OF loop_returns, of r1 "ahead r" "[]" "[]"]
    by (cases ok) (auto simp: ReadRecord_def returns_def)
next
  case False
  then show ?thesis using loop_returns by (simp add: ReadRecord_def)
qed

end

interpretation mem: sequential_file mem_in length
  by unfold_locales (auto simp: mem_in_def)

text \<open>C16: for every file that hands out at most the bytes asked for and holds
  finitely many, and every reader over it, in any state and whatever the bytes are, \<open>ReadRecord\<close>
  returns. A record it returns has used up at least its length and one header of the bytes ahead, so
  a loop over all records ends, too, and no record holds more than the file does.\<close>

theorem log_reading_ends:
  assumes "sequential_file ops rest"
  shows "case ReadRecord ops r of
      None \<Rightarrow> False
    | Some (None, r') \<Rightarrow> length (r_buffer r') + rest (r_file r') \<le> length (r_buffer r) + rest (r_file r)
    | Some (Some rec, r') \<Rightarrow> length (r_buffer r') + rest (r_file r') + kHeaderSize + length rec
        \<le> length (r_buffer r) + rest (r_file r)"
  using sequential_file.ReadRecord_returns [OF assms, of r]
  by (auto simp: sequential_file.returns_def [OF assms] sequential_file.ahead_def [OF assms]
      split: option.splits)

theorem log_reading_ends_witness:
  "case ReadRecord mem_in (make_Reader [1, 2, 3, 4, 0, 0, 9, 8] (Some []) True 5) of
      None \<Rightarrow> False
    | Some (None, r') \<Rightarrow> length (r_buffer r') + length (r_file r') \<le> 8
    | Some (Some rec, r') \<Rightarrow> length (r_buffer r') + length (r_file r') + kHeaderSize + length rec \<le> 8"
  using log_reading_ends [OF mem.sequential_file_axioms, of "make_Reader [1, 2, 3, 4, 0, 0, 9, 8] (Some []) True 5"]
  by (simp add: make_Reader_def eval_nat_numeral cong: option.case_cong)

end
