(* ===== verification/Ldb_Filter.thy ===== *)
theory Ldb_Filter
  imports Ldb_Keys
begin

text \<open>
  LevelDB: the hash function (\<open>util/hash.cc\<close>), the Bloom filter (\<open>util/bloom.cc\<close>), the filter policy of
  internal keys (\<open>db/dbformat.cc\<close>), and the block of filters of a table (\<open>table/filter_block.cc\<close>). A
  \<open>FilterPolicy\<close> object is a record of its virtual functions. \<open>None\<close> stands for undefined behaviour:
  a remainder by zero, a shift by more than the width, a conversion out of range.
\<close>

section \<open>Hashing\<close>

definition hash_m :: uint32 where "hash_m = 0xc6a4a793"

function hash_loop :: "uint32 \<Rightarrow> byte list \<Rightarrow> uint32 \<times> byte list" where
  "hash_loop h dat =
     (if 4 \<le> length dat
      then (let h = h + DecodeFixed32 dat; h = h * hash_m; h = h XOR drop_bit 16 h
            in hash_loop h (drop 4 dat))
      else (h, dat))"
  by pat_completeness auto
termination
  by (relation "measure (\<lambda>(_, dat). length dat)") auto

declare hash_loop.simps [simp del]

definition Hash :: "byte list \<Rightarrow> uint32 \<Rightarrow> uint32" where
  "Hash dat seed =
     (let (h, rest) = hash_loop (seed XOR (of_nat (length dat) * hash_m)) dat;
          h = (if length rest = 3 then h + push_bit 16 (ucast (rest ! 2)) else h);
          h = (if length rest \<in> {2, 3} then h + push_bit 8 (ucast (rest ! 1)) else h)
      in if length rest \<in> {1, 2, 3}
         then (let h = h + ucast (rest ! 0); h = h * hash_m in h XOR drop_bit 24 h)
         else h)"

section \<open>Filter policies\<close>

record FilterPolicy =
  policy_Name :: string
  CreateFilter :: "slice list \<Rightarrow> byte list \<Rightarrow> byte list option"
  KeyMayMatch :: "slice \<Rightarrow> slice \<Rightarrow> bool"

definition BloomHash :: "slice \<Rightarrow> uint32" where
  "BloomHash key = Hash key 0xbc9f1d34"

record BloomFilterPolicy =
  bits_per_key :: uint64
  bloom_k :: nat

text \<open>The constant \<open>0.69\<close> is a little below 69/100 as a \<open>double\<close>. The product with an \<open>int\<close> has the
  same integer part as the exact one, except at multiples of 100, where both are above 30. A product
  below \<open>- 1\<close> cannot be converted to \<open>size_t\<close>.\<close>

definition make_BloomFilterPolicy :: "int \<Rightarrow> BloomFilterPolicy option" where
  "make_BloomFilterPolicy bits =
     (if bits < - 1 then None
      else (let k = nat (bits * 69 div 100);
                k = (if k < 1 then 1 else k);
                k = (if 30 < k then 30 else k)
            in Some \<lparr>bits_per_key = of_int bits, bloom_k = k\<rparr>))"

definition bloom_delta :: "uint32 \<Rightarrow> uint32" where
  "bloom_delta h = drop_bit 17 h OR push_bit 15 h"

text \<open>The loop over the probes of one key: the bits it sets, and the test that they are set.\<close>

fun bloom_set :: "nat \<Rightarrow> uint32 \<Rightarrow> uint32 \<Rightarrow> nat \<Rightarrow> byte list \<Rightarrow> byte list" where
  "bloom_set 0 h delta bits array = array"
| "bloom_set (Suc j) h delta bits array =
     (let bitpos = unat h mod bits
      in bloom_set j (h + delta) delta bits
           (array[bitpos div 8 := (array ! (bitpos div 8)) OR push_bit (bitpos mod 8) 1]))"

fun bloom_test :: "nat \<Rightarrow> uint32 \<Rightarrow> uint32 \<Rightarrow> nat \<Rightarrow> byte list \<Rightarrow> bool" where
  "bloom_test 0 h delta bits array = True"
| "bloom_test (Suc j) h delta bits array =
     (let bitpos = unat h mod bits
      in if (array ! (bitpos div 8)) AND push_bit (bitpos mod 8) 1 = 0 then False
         else bloom_test j (h + delta) delta bits array)"

definition bloom_bytes :: "BloomFilterPolicy \<Rightarrow> nat \<Rightarrow> nat" where
  "bloom_bytes p n =
     (let bits = of_nat n * bits_per_key p;
          bits = (if bits < 64 then 64 else bits)
      in unat ((bits + 7) div 8))"

definition Bloom_CreateFilter :: "BloomFilterPolicy \<Rightarrow> slice list \<Rightarrow> byte list \<Rightarrow> byte list option" where
  "Bloom_CreateFilter p keys dst =
     (let bytes = bloom_bytes p (length keys);
          bits = bytes * 8;
          array = replicate bytes 0;
          array = fold (\<lambda>key array. let h = BloomHash key in bloom_set (bloom_k p) h (bloom_delta h) bits array)
                    keys array
      in if bits = 0 \<and> keys \<noteq> [] then None
         else Some (dst @ array @ [of_nat (bloom_k p)]))"

text \<open>The number of probes is the last byte of the filter, a signed \<open>char\<close>.\<close>

definition Bloom_KeyMayMatch :: "slice \<Rightarrow> slice \<Rightarrow> bool" where
  "Bloom_KeyMayMatch key bloom_filter =
     (let len = length bloom_filter
      in if len < 2 then False
         else (let bits = (len - 1) * 8;
                   k = unat (scast (bloom_filter ! (len - 1)) :: uint64)
               in if 30 < k then True
                  else (let h = BloomHash key in bloom_test k h (bloom_delta h) bits bloom_filter)))"

definition NewBloomFilterPolicy :: "int \<Rightarrow> FilterPolicy option" where
  "NewBloomFilterPolicy bits =
     map_option (\<lambda>p. \<lparr>policy_Name = ''leveldb.BuiltinBloomFilter2'', CreateFilter = Bloom_CreateFilter p,
                       KeyMayMatch = Bloom_KeyMayMatch\<rparr>) (make_BloomFilterPolicy bits)"

definition InternalFilterPolicy :: "FilterPolicy \<Rightarrow> FilterPolicy" where
  "InternalFilterPolicy p =
     \<lparr>policy_Name = policy_Name p,
      CreateFilter = (\<lambda>keys dst. CreateFilter p (map ExtractUserKey keys) dst),
      KeyMayMatch = (\<lambda>key f. KeyMayMatch p (ExtractUserKey key) f)\<rparr>"

section \<open>The block of filters\<close>

definition kFilterBaseLg :: nat where "kFilterBaseLg = 11"

definition kFilterBase :: nat where "kFilterBase = 2 ^ kFilterBaseLg"

record FilterBlockBuilder =
  fb_policy :: FilterPolicy
  fb_keys :: "byte list"
  fb_start :: "nat list"
  fb_result :: "byte list"
  fb_filter_offsets :: "uint32 list"

definition make_FilterBlockBuilder :: "FilterPolicy \<Rightarrow> FilterBlockBuilder" where
  "make_FilterBlockBuilder policy =
     \<lparr>fb_policy = policy, fb_keys = [], fb_start = [], fb_result = [], fb_filter_offsets = []\<rparr>"

text \<open>The keys between the recorded starts, \<open>tmp_keys_\<close>.\<close>

definition filter_keys :: "byte list \<Rightarrow> nat list \<Rightarrow> slice list" where
  "filter_keys keys start = map (\<lambda>i. take (start ! Suc i - start ! i) (drop (start ! i) keys)) [0..<length start - 1]"

text \<open>The number of keys is passed as an \<open>int\<close>; more than that holds are not modelled.\<close>

definition GenerateFilter :: "FilterBlockBuilder \<Rightarrow> FilterBlockBuilder option" where
  "GenerateFilter b =
     (let num_keys = length (fb_start b);
          b = b\<lparr>fb_filter_offsets := fb_filter_offsets b @ [of_nat (length (fb_result b))]\<rparr>
      in if num_keys = 0 then Some b
         else if 2 ^ 31 \<le> num_keys then None
         else (case CreateFilter (fb_policy b) (filter_keys (fb_keys b) (fb_start b @ [length (fb_keys b)]))
                      (fb_result b) of
                 None \<Rightarrow> None
               | Some result \<Rightarrow> Some (b\<lparr>fb_result := result, fb_keys := [], fb_start := []\<rparr>)))"

lemma GenerateFilter_offsets:
  "GenerateFilter b = Some b' \<Longrightarrow>
     fb_filter_offsets b' = fb_filter_offsets b @ [of_nat (length (fb_result b))] \<and> fb_policy b' = fb_policy b"
  by (auto simp: GenerateFilter_def Let_def split: if_splits option.splits)

function start_loop :: "nat \<Rightarrow> FilterBlockBuilder \<Rightarrow> FilterBlockBuilder option" where
  "start_loop filter_index b =
     (if length (fb_filter_offsets b) < filter_index
      then (case GenerateFilter b of None \<Rightarrow> None | Some b' \<Rightarrow> start_loop filter_index b')
      else Some b)"
  by pat_completeness auto
termination
  by (relation "measure (\<lambda>(i, b). i - length (fb_filter_offsets b))") (auto dest: GenerateFilter_offsets)

declare start_loop.simps [simp del]

definition StartBlock :: "uint64 \<Rightarrow> FilterBlockBuilder \<Rightarrow> FilterBlockBuilder option" where
  "StartBlock block_offset b = start_loop (unat block_offset div kFilterBase) b"

definition AddKey :: "slice \<Rightarrow> FilterBlockBuilder \<Rightarrow> FilterBlockBuilder" where
  "AddKey key b = b\<lparr>fb_start := fb_start b @ [length (fb_keys b)], fb_keys := fb_keys b @ key\<rparr>"

definition FilterBlock_Finish :: "FilterBlockBuilder \<Rightarrow> (slice \<times> FilterBlockBuilder) option" where
  "FilterBlock_Finish b =
     (case (if fb_start b \<noteq> [] then GenerateFilter b else Some b) of
        None \<Rightarrow> None
      | Some b \<Rightarrow>
          (let array_offset = of_nat (length (fb_result b));
               result = fold (\<lambda>v dst. PutFixed32 dst v) (fb_filter_offsets b) (fb_result b);
               result = PutFixed32 result array_offset @ [of_nat kFilterBaseLg]
           in Some (result, b\<lparr>fb_result := result\<rparr>)))"

record FilterBlockReader =
  fr_policy :: FilterPolicy
  fr_data :: slice
  fr_offset :: nat
  fr_num :: nat
  fr_base_lg :: nat

text \<open>Pointers are positions in \<open>contents\<close>; they are used only when \<open>num_\<close> is not 0. The parameter
  \<open>base_lg_\<close> is a signed \<open>char\<close> stored as a \<open>size_t\<close>.\<close>

definition make_FilterBlockReader :: "FilterPolicy \<Rightarrow> slice \<Rightarrow> FilterBlockReader" where
  "make_FilterBlockReader policy contents =
     (let n = length contents;
          r = \<lparr>fr_policy = policy, fr_data = contents, fr_offset = 0, fr_num = 0, fr_base_lg = 0\<rparr>
      in if n < 5 then r
         else (let base_lg = unat (scast (contents ! (n - 1)) :: uint64);
                   last_word = unat (DecodeFixed32 (drop (n - 5) contents));
                   r = r\<lparr>fr_base_lg := base_lg\<rparr>
               in if n - 5 < last_word then r
                  else r\<lparr>fr_offset := last_word, fr_num := (n - 5 - last_word) div 4\<rparr>))"

definition FilterBlock_KeyMayMatch :: "uint64 \<Rightarrow> slice \<Rightarrow> FilterBlockReader \<Rightarrow> bool option" where
  "FilterBlock_KeyMayMatch block_offset key r =
     (if 64 \<le> fr_base_lg r then None
      else (let index = unat (drop_bit (fr_base_lg r) block_offset)
            in if index < fr_num r
               then (let start = unat (DecodeFixed32 (drop (fr_offset r + index * 4) (fr_data r)));
                         limit = unat (DecodeFixed32 (drop (fr_offset r + index * 4 + 4) (fr_data r)))
                     in if start \<le> limit \<and> limit \<le> fr_offset r
                        then Some (KeyMayMatch (fr_policy r) key (take (limit - start) (drop start (fr_data r))))
                        else if start = limit then Some False
                        else Some True)
               else Some True))"

end
