(* ===== verification/Ldb_Filter_Correct.thy ===== *)
theory Ldb_Filter_Correct
  imports Ldb_Filter
begin

text \<open>
  Filters have no false negatives: a key that was given to \<open>CreateFilter\<close> matches the filter. This is
  the interface of filter policies; Bloom filters have it, the policy of internal keys inherits it, and
  the block of filters relies on it.
\<close>

section \<open>Bloom filters\<close>

definition bits_grow :: "byte list \<Rightarrow> byte list \<Rightarrow> bool" where
  "bits_grow a b \<longleftrightarrow> length b = length a \<and> (\<forall>i < length a. \<forall>n. bit (a ! i) n \<longrightarrow> bit (b ! i) n)"

lemma bits_grow_refl [simp]: "bits_grow a a"
  by (simp add: bits_grow_def)

lemma bits_grow_trans: "bits_grow a b \<Longrightarrow> bits_grow b c \<Longrightarrow> bits_grow a c"
  by (simp add: bits_grow_def)

lemma bits_grow_set: "bits_grow a (a[i := (a ! i) OR x])"
  unfolding bits_grow_def by (metis bit_or_iff length_list_update nth_list_update_eq nth_list_update_neq)

lemma bloom_set_grows: "bits_grow a (bloom_set k h d bits a)"
  by (induction k arbitrary: h a) (auto simp: Let_def intro: bits_grow_trans [OF bits_grow_set])

lemma length_bloom_set [simp]: "length (bloom_set k h d bits a) = length a"
  using bloom_set_grows [of a k h d bits] by (simp add: bits_grow_def)

lemma bit_test: "(x AND 2 ^ n = 0) \<longleftrightarrow> \<not> bit (x :: byte) n"
  by (simp add: bit_iff_and_push_bit_not_eq_0)

lemma probe_bound: "0 < length a \<Longrightarrow> x mod (length a * 8) div 8 < length a"
  by (simp add: less_mult_imp_div_less)

lemma bloom_test_grows:
  assumes "bloom_test k h d (length a * 8) a" and "bits_grow a b" and "0 < length a"
  shows "bloom_test k h d (length a * 8) b"
  using assms(1)
proof (induction k arbitrary: h)
  case (Suc k)
  then show ?case
    using assms(2,3) probe_bound [OF assms(3), of "unat h"]
    by (auto simp: Let_def bit_test bits_grow_def split: if_splits)
qed simp

lemma bloom_test_append:
  assumes "0 < length a"
  shows "bloom_test k h d (length a * 8) (a @ z) = bloom_test k h d (length a * 8) a"
  by (induction k arbitrary: h) (simp_all add: Let_def nth_append probe_bound [OF assms])

lemma bloom_test_set:
  assumes "0 < length a"
  shows "bloom_test k h d (length a * 8) (bloom_set k h d (length a * 8) a)"
  using assms
proof (induction k arbitrary: h a)
  case (Suc k)
  let ?pos = "unat h mod (length a * 8)"
  define b where "b = a[?pos div 8 := (a ! (?pos div 8)) OR push_bit (?pos mod 8) 1]"
  have b: "length b = length a" by (simp add: b_def)
  have "bit (b ! (?pos div 8)) (?pos mod 8)"
    using probe_bound [OF Suc.prems, of "unat h"] by (simp add: b_def bit_or_iff bit_exp_iff)
  then have "bit (bloom_set k (h + d) d (length a * 8) b ! (?pos div 8)) (?pos mod 8)"
    using bloom_set_grows [of b k "h + d" d "length a * 8"] probe_bound [OF Suc.prems, of "unat h"] b
    by (auto simp: bits_grow_def)
  moreover have "bloom_test k (h + d) d (length a * 8) (bloom_set k (h + d) d (length a * 8) b)"
    using Suc.IH [of b "h + d"] Suc.prems b by simp
  ultimately show ?case by (simp add: Let_def bit_test b_def)
qed simp

lemma bloom_fold:
  fixes a :: "byte list" and k n :: nat
  assumes "0 < length a" and "n = length a * 8"
  defines "add \<equiv> \<lambda>key array. let h = BloomHash key in bloom_set k h (bloom_delta h) n array"
  shows "bits_grow a (fold add keys a)
    \<and> (\<forall>key \<in> set keys. bloom_test k (BloomHash key) (bloom_delta (BloomHash key)) n (fold add keys a))"
  using assms(1,2)
proof (induction keys arbitrary: a)
  case Nil
  then show ?case by simp
next
  case (Cons x keys)
  have x: "bits_grow a (add x a)" by (simp add: add_def Let_def bloom_set_grows)
  then have len: "length (add x a) = length a" by (simp add: bits_grow_def)
  have "bloom_test k (BloomHash x) (bloom_delta (BloomHash x)) n (add x a)"
    unfolding add_def Let_def Cons.prems(2) by (rule bloom_test_set [OF Cons.prems(1)])
  moreover from Cons.IH [of "add x a"] Cons.prems len
  have "bits_grow (add x a) (fold add keys (add x a))"
    "\<forall>key \<in> set keys. bloom_test k (BloomHash key) (bloom_delta (BloomHash key)) n (fold add keys (add x a))"
    by auto
  ultimately show ?case
    using bloom_test_grows [of k _ _ "add x a"] Cons.prems len bits_grow_trans [OF x] by auto
qed

lemma bloom_bytes_pos:
  assumes "n < 2 ^ 31" and "0 \<le> bits" and "bits < 2 ^ 31"
  shows "0 < bloom_bytes \<lparr>bits_per_key = of_int bits, bloom_k = k\<rparr> n"
proof -
  define b :: uint64 where "b = of_nat n * of_int bits"
  have "b = of_nat (n * nat bits)" using assms(2) by (simp add: b_def of_nat_nat)
  then have "unat b = n * nat bits mod 2 ^ 64" by (simp only: unat_of_nat) simp
  moreover have "n * nat bits < 2 ^ 31 * 2 ^ 31"
    using assms by (intro mult_strict_mono) auto
  ultimately have small: "unat b < 2 ^ 62" by simp
  define c where "c = (if b < 64 then 64 else b)"
  have c: "64 \<le> unat c" "unat c < 2 ^ 62" using small by (auto simp: c_def word_less_nat_alt)
  then have "unat (c + 7) = unat c + 7" by (simp add: unat_word_ariths)
  with c have "8 \<le> unat ((c + 7) div 8)" by (simp add: unat_div)
  moreover have "bloom_bytes \<lparr>bits_per_key = of_int bits, bloom_k = k\<rparr> n = unat ((c + 7) div 8)"
    by (simp add: bloom_bytes_def Let_def b_def c_def)
  ultimately show ?thesis by simp
qed

lemma probe_byte:
  assumes "k \<le> 30"
  shows "unat (scast (of_nat k :: byte) :: uint64) = k"
proof -
  have "k \<in> set [0..<31]" using assms by simp
  then show ?thesis by (auto simp: upt_rec)
qed

section \<open>The interface\<close>

locale filter_policy =
  fixes p :: FilterPolicy
  assumes creates: "length keys < 2 ^ 31 \<Longrightarrow>
    \<exists>f. CreateFilter p keys dst = Some (dst @ f) \<and> (\<forall>k \<in> set keys. KeyMayMatch p k f)"

lemma Bloom_creates:
  assumes "length keys < 2 ^ 31" and "0 \<le> bits" and "bits < 2 ^ 31" and "k \<le> 30"
  shows "\<exists>f. Bloom_CreateFilter \<lparr>bits_per_key = of_int bits, bloom_k = k\<rparr> keys dst = Some (dst @ f)
    \<and> (\<forall>key \<in> set keys. Bloom_KeyMayMatch key f)"
proof -
  define bytes where "bytes = bloom_bytes \<lparr>bits_per_key = of_int bits, bloom_k = k\<rparr> (length keys)"
  have pos: "0 < bytes" unfolding bytes_def by (rule bloom_bytes_pos [OF assms(1-3)])
  define array where "array = fold (\<lambda>key array. let h = BloomHash key in bloom_set k h (bloom_delta h) (bytes * 8) array)
    keys (replicate bytes 0)"
  have f: "bits_grow (replicate bytes 0) array"
    "\<forall>key \<in> set keys. bloom_test k (BloomHash key) (bloom_delta (BloomHash key)) (bytes * 8) array"
    using bloom_fold [of "replicate bytes 0" "bytes * 8" k keys] pos unfolding array_def by auto
  have len: "length array = bytes" using f(1) by (simp add: bits_grow_def)
  have "Bloom_KeyMayMatch key (array @ [of_nat k])" if "key \<in> set keys" for key
    using f(2) that pos bloom_test_append [of array k "BloomHash key" _ "[of_nat k]"] probe_byte [OF assms(4)]
    by (simp add: Bloom_KeyMayMatch_def Let_def len nth_append)
  moreover have "Bloom_CreateFilter \<lparr>bits_per_key = of_int bits, bloom_k = k\<rparr> keys dst = Some (dst @ array @ [of_nat k])"
    using pos by (simp add: Bloom_CreateFilter_def Let_def bytes_def [symmetric] array_def)
  ultimately show ?thesis by blast
qed

text \<open>Which policy the constructor makes.\<close>

lemma NewBloomFilterPolicy_makes:
  assumes "0 \<le> bits"
  obtains k where "k \<le> 30" "NewBloomFilterPolicy bits = Some \<lparr>policy_Name = ''leveldb.BuiltinBloomFilter2'',
    CreateFilter = Bloom_CreateFilter \<lparr>bits_per_key = of_int bits, bloom_k = k\<rparr>, KeyMayMatch = Bloom_KeyMayMatch\<rparr>"
proof -
  define k where "k = bloom_k (the (make_BloomFilterPolicy bits))"
  show thesis
    by (rule that [of k]) (use assms in \<open>auto simp: k_def make_BloomFilterPolicy_def NewBloomFilterPolicy_def Let_def\<close>)
qed

lemma bloom_filter_policy:
  assumes "0 \<le> bits" and "bits < 2 ^ 31"
  shows "filter_policy (the (NewBloomFilterPolicy bits))"
proof (rule NewBloomFilterPolicy_makes [OF assms(1)])
  fix k :: nat
  assume "k \<le> 30" "NewBloomFilterPolicy bits = Some \<lparr>policy_Name = ''leveldb.BuiltinBloomFilter2'',
    CreateFilter = Bloom_CreateFilter \<lparr>bits_per_key = of_int bits, bloom_k = k\<rparr>, KeyMayMatch = Bloom_KeyMayMatch\<rparr>"
  then show ?thesis using Bloom_creates [OF _ assms] by unfold_locales simp
qed

lemma internal_filter_policy: "filter_policy p \<Longrightarrow> filter_policy (InternalFilterPolicy p)"
  unfolding filter_policy_def InternalFilterPolicy_def
  by simp (metis (no_types, lifting) image_eqI length_map list.set_map)

interpretation bloom: filter_policy "the (NewBloomFilterPolicy (uint w))" for w :: "31 word"
  using uint_lt2p [of w] by (intro bloom_filter_policy) simp_all

interpretation internal_bloom: filter_policy "InternalFilterPolicy (the (NewBloomFilterPolicy (uint w)))"
  for w :: "31 word"
  by (rule internal_filter_policy [OF bloom.filter_policy_axioms])

section \<open>The block of filters\<close>

text \<open>A builder that has made the filters \<open>fs\<close> and has the keys \<open>ks\<close> pending.\<close>

definition fb_rep :: "FilterPolicy \<Rightarrow> slice list \<Rightarrow> slice list \<Rightarrow> FilterBlockBuilder \<Rightarrow> bool" where
  "fb_rep p fs ks b \<longleftrightarrow> fb_policy b = p \<and> fb_result b = concat fs
     \<and> fb_filter_offsets b = map (\<lambda>i. of_nat (length (concat (take i fs)))) [0..<length fs]
     \<and> fb_keys b = concat ks \<and> fb_start b = map (\<lambda>i. length (concat (take i ks))) [0..<length ks]"

lemma fb_rep_make: "fb_rep p [] [] (make_FilterBlockBuilder p)"
  by (simp add: fb_rep_def make_FilterBlockBuilder_def)

lemma starts_snoc:
  "map (\<lambda>i. f (length (concat (take i (xs @ [x]))))) [0..<length (xs @ [x])]
   = map (\<lambda>i. f (length (concat (take i xs)))) [0..<length xs] @ [f (length (concat xs))]"
  by simp

lemma filter_keys_starts:
  "filter_keys (concat ks) (map (\<lambda>i. length (concat (take i ks))) [0..<length ks] @ [length (concat ks)]) = ks"
proof (rule nth_equalityI)
  let ?st = "map (\<lambda>i. length (concat (take i ks))) [0..<Suc (length ks)]"
  have st: "map (\<lambda>i. length (concat (take i ks))) [0..<length ks] @ [length (concat ks)] = ?st" by simp
  show "length (filter_keys (concat ks) (map (\<lambda>i. length (concat (take i ks))) [0..<length ks] @ [length (concat ks)])) = length ks"
    by (simp add: filter_keys_def)
  fix i assume "i < length (filter_keys (concat ks) (map (\<lambda>i. length (concat (take i ks))) [0..<length ks] @ [length (concat ks)]))"
  then have i: "i < length ks" by (simp add: filter_keys_def)
  then have "?st ! i = length (concat (take i ks))" "?st ! Suc i = length (concat (take (Suc i) ks))"
    by (simp_all only: nth_map length_upt nth_upt diff_zero Suc_less_eq less_SucI add_0)
  then show "filter_keys (concat ks) (map (\<lambda>i. length (concat (take i ks))) [0..<length ks] @ [length (concat ks)]) ! i = ks ! i"
    unfolding filter_keys_def st using concat_slice [OF i] i by simp
qed

lemma fb_rep_AddKey:
  assumes "fb_rep p fs ks b"
  shows "fb_rep p fs (ks @ [k]) (AddKey k b)"
  using assms unfolding fb_rep_def AddKey_def starts_snoc by simp

lemma fb_rep_AddKeys: "fb_rep p fs ks b \<Longrightarrow> fb_rep p fs (ks @ keys) (fold AddKey keys b)"
proof (induction keys arbitrary: ks b)
  case (Cons k keys)
  from Cons.IH [OF fb_rep_AddKey [OF Cons.prems]] show ?case by simp
qed simp

text \<open>Which keys the filters made so far, or the pending keys, stand for.\<close>

definition fb_covers :: "FilterPolicy \<Rightarrow> (nat \<times> slice) set \<Rightarrow> slice list \<Rightarrow> slice list \<Rightarrow> bool" where
  "fb_covers p H fs ks \<longleftrightarrow>
     (\<forall>(i, k) \<in> H. i < length fs \<and> KeyMayMatch p k (fs ! i) \<or> i = length fs \<and> k \<in> set ks)"

text \<open>The calls that a table makes: the blocks with their offsets and keys.\<close>

definition filter_build :: "FilterPolicy \<Rightarrow> (uint64 \<times> slice list) list \<Rightarrow> FilterBlockBuilder option" where
  "filter_build p blocks = fold (\<lambda>(off, keys) b. Option.bind b (\<lambda>b. map_option (fold AddKey keys) (StartBlock off b)))
     blocks (Some (make_FilterBlockBuilder p))"

definition filter_index :: "uint64 \<Rightarrow> nat" where
  "filter_index off = unat off div kFilterBase"

text \<open>The keys by the number of the filter they belong to.\<close>

definition filter_history :: "(uint64 \<times> slice list) list \<Rightarrow> (nat \<times> slice) set" where
  "filter_history blocks = (\<Union>(off, keys) \<in> set blocks. Pair (filter_index off) ` set keys)"

lemma filter_history_snoc:
  "filter_history (blocks @ [(off, keys)]) = filter_history blocks \<union> Pair (filter_index off) ` set keys"
  by (auto simp: filter_history_def)

context filter_policy
begin

lemma GenerateFilter_rep:
  assumes rep: "fb_rep p fs ks b" and "length ks < 2 ^ 31" and cov: "fb_covers p H fs ks"
  shows "\<exists>f b'. GenerateFilter b = Some b' \<and> fb_rep p (fs @ [f]) [] b' \<and> fb_covers p H (fs @ [f]) []"
proof -
  have covers: "fb_covers p H (fs @ [f]) []" if "\<forall>k \<in> set ks. KeyMayMatch p k f" for f
    using cov that unfolding fb_covers_def by (auto simp: nth_append less_Suc_eq)
  show ?thesis
  proof (cases "ks = []")
    case True
    then have "GenerateFilter b = Some (b\<lparr>fb_filter_offsets := fb_filter_offsets b @ [of_nat (length (fb_result b))]\<rparr>)"
      using rep by (simp add: GenerateFilter_def Let_def fb_rep_def)
    moreover have "fb_rep p (fs @ [[]]) [] (b\<lparr>fb_filter_offsets := fb_filter_offsets b @ [of_nat (length (fb_result b))]\<rparr>)"
      using rep True unfolding fb_rep_def starts_snoc by simp
    ultimately show ?thesis using covers [of "[]"] True by auto
  next
    case False
    from creates [OF assms(2), of "concat fs"] obtain f where
      f: "CreateFilter p ks (concat fs) = Some (concat fs @ f)" "\<forall>k \<in> set ks. KeyMayMatch p k f" by blast
    have "GenerateFilter b = Some (b\<lparr>fb_filter_offsets := fb_filter_offsets b @ [of_nat (length (fb_result b))],
        fb_result := concat fs @ f, fb_keys := [], fb_start := []\<rparr>)"
      using rep False assms(2) f(1) by (simp add: GenerateFilter_def Let_def fb_rep_def filter_keys_starts)
    moreover have "fb_rep p (fs @ [f]) [] (b\<lparr>fb_filter_offsets := fb_filter_offsets b @ [of_nat (length (fb_result b))],
        fb_result := concat fs @ f, fb_keys := [], fb_start := []\<rparr>)"
      using rep unfolding fb_rep_def starts_snoc by simp
    ultimately show ?thesis using covers [OF f(2)] by blast
  qed
qed

lemma start_loop_rep:
  assumes "fb_rep p fs ks b" and "length ks < 2 ^ 31" and "fb_covers p H fs ks"
  shows "\<exists>fs' ks' b'. start_loop n b = Some b' \<and> fb_rep p fs' ks' b' \<and> fb_covers p H fs' ks'
    \<and> length fs' = max n (length fs) \<and> length ks' \<le> length ks"
  using assms
proof (induction "n - length fs" arbitrary: fs ks b)
  case 0
  then have "start_loop n b = Some b" by (subst start_loop.simps) (simp add: fb_rep_def)
  with 0 show ?case by (intro exI [of _ fs] exI [of _ ks] exI [of _ b]) simp
next
  case (Suc m)
  from GenerateFilter_rep [OF Suc.prems] obtain f b1 where b1: "GenerateFilter b = Some b1"
    "fb_rep p (fs @ [f]) [] b1" "fb_covers p H (fs @ [f]) []" by blast
  have "start_loop n b = start_loop n b1"
    using Suc.hyps(2) Suc.prems(1) b1(1) by (subst start_loop.simps) (auto simp: fb_rep_def)
  with Suc.hyps(1) [OF _ b1(2) _ b1(3)] Suc.hyps(2) show ?case by fastforce
qed

text \<open>The state of the builder after the calls.\<close>

lemma filter_build_rep:
  assumes "sorted (map fst blocks)" and "length (concat (map snd blocks)) < 2 ^ 31"
  shows "\<exists>fs ks b. filter_build p blocks = Some b \<and> fb_rep p fs ks b \<and> fb_covers p (filter_history blocks) fs ks
    \<and> length ks \<le> length (concat (map snd blocks))
    \<and> length fs = (if blocks = [] then 0 else filter_index (fst (last blocks)))"
  using assms
proof (induction blocks rule: rev_induct)
  case Nil
  show ?case using fb_rep_make
    by (intro exI [of _ "[]"] exI [of _ "make_FilterBlockBuilder p"])
      (simp add: filter_build_def fb_covers_def filter_history_def)
next
  case (snoc x blocks)
  obtain off keys where x: "x = (off, keys)" by (cases x)
  from snoc.IH snoc.prems obtain fs ks b where b: "filter_build p blocks = Some b" "fb_rep p fs ks b"
    "fb_covers p (filter_history blocks) fs ks" "length ks \<le> length (concat (map snd blocks))"
    "length fs = (if blocks = [] then 0 else filter_index (fst (last blocks)))"
    by (auto simp: sorted_append)
  have "filter_index (fst (last blocks)) \<le> filter_index off" if "blocks \<noteq> []"
  proof -
    have "fst (last blocks) \<le> off" using snoc.prems(1) last_in_set [OF that] by (auto simp: x sorted_append)
    then show ?thesis by (simp add: filter_index_def word_le_nat_alt div_le_mono)
  qed
  then have le: "length fs \<le> filter_index off" using b(5) by simp
  have "length ks < 2 ^ 31" using b(4) snoc.prems(2) by simp
  from start_loop_rep [OF b(2) this b(3), of "filter_index off"] le
  obtain fs' ks' b' where b': "StartBlock off b = Some b'" "fb_rep p fs' ks' b'"
    "fb_covers p (filter_history blocks) fs' ks'" "length fs' = filter_index off" "length ks' \<le> length ks"
    by (auto simp: StartBlock_def filter_index_def)
  have "fb_covers p (filter_history (blocks @ [x])) fs' (ks' @ keys)"
    using b'(3,4) unfolding x filter_history_snoc fb_covers_def by auto
  with fb_rep_AddKeys [OF b'(2), of keys] b(1,4) b'(1,4,5) show ?case
    by (intro exI [of _ fs'] exI [of _ "ks' @ keys"] exI [of _ "fold AddKey keys b'"])
      (simp add: filter_build_def x)
qed

end

text \<open>The reader on a finished block.\<close>

lemma PutFixed32_fold: "fold (\<lambda>v dst. PutFixed32 dst v) vs dst = dst @ concat (map EncodeFixed32 vs)"
  by (induction vs arbitrary: dst) (simp_all add: PutFixed32_def)

definition filter_block_bytes :: "slice list \<Rightarrow> byte list" where
  "filter_block_bytes fs = concat fs
     @ concat (map (\<lambda>i. EncodeFixed32 (of_nat (length (concat (take i fs))))) [0..<Suc (length fs)]) @ [11]"

lemma Finish_no_keys:
  assumes "fb_rep p fs [] b"
  shows "\<exists>b'. FilterBlock_Finish b = Some (filter_block_bytes fs, b')"
  using assms
  unfolding FilterBlock_Finish_def Let_def PutFixed32_fold
  by (simp add: fb_rep_def PutFixed32_def filter_block_bytes_def kFilterBaseLg_def comp_def)

lemma length_concat_fixed: "length (concat (map (\<lambda>i. EncodeFixed32 (f i)) xs)) = length xs * 4"
  by (induction xs) simp_all

lemma filter_reader:
  assumes "length (filter_block_bytes fs) < 2 ^ 32" and "filter_index off < length fs"
  shows "FilterBlock_KeyMayMatch off key (make_FilterBlockReader p (filter_block_bytes fs))
    = Some (KeyMayMatch p key (fs ! filter_index off))"
proof -
  let ?c = "filter_block_bytes fs" and ?i = "filter_index off"
  define offs :: "uint32 list" where "offs = map (\<lambda>i. of_nat (length (concat (take i fs)))) [0..<Suc (length fs)]"
  have enc: "map (\<lambda>i. EncodeFixed32 (of_nat (length (concat (take i fs))))) [0..<Suc (length fs)] = map EncodeFixed32 offs"
    by (simp add: offs_def)
  have c: "?c = concat fs @ concat (map EncodeFixed32 offs) @ [11]"
    unfolding filter_block_bytes_def enc ..
  have offs: "length offs = Suc (length fs)" by (simp add: offs_def)
  have lc: "length ?c = length (concat fs) + Suc (length fs) * 4 + 1"
    unfolding filter_block_bytes_def by (simp add: length_concat_fixed del: upt_Suc)
  have prefix_le: "length (concat (take i fs)) \<le> length (concat fs)" for i
    by (metis append_take_drop_id concat_append le_add1 length_append)
  have small: "length (concat (take i fs)) < 2 ^ 32" for i using assms(1) lc prefix_le [of i] by linarith
  have off_nth: "unat (offs ! i) = length (concat (take i fs))" if "i \<le> length fs" for i
    using that small [of i] unfolding offs_def by (simp add: nth_append unat_of_nat less_Suc_eq_le del: upt_Suc)
  have dec: "unat (DecodeFixed32 (drop (length (concat fs) + i * 4) ?c)) = length (concat (take i fs))"
    if "i \<le> length fs" for i
    using DecodeFixed32_array [of i offs "[11]"] that off_nth [OF that] offs by (simp add: c)
  have "drop (length ?c - 5) ?c = drop (length (concat fs) + length fs * 4) ?c"
    unfolding lc by (rule arg_cong [of _ _ "\<lambda>n. drop n ?c"]) simp
  then have last: "unat (DecodeFixed32 (drop (length ?c - 5) ?c)) = length (concat fs)"
    using dec [of "length fs"] by simp
  have base: "unat (scast (?c ! (length ?c - 1)) :: uint64) = 11"
    using lc by (simp add: c nth_append)
  have reader: "make_FilterBlockReader p ?c
    = \<lparr>fr_policy = p, fr_data = ?c, fr_offset = length (concat fs), fr_num = length fs, fr_base_lg = 11\<rparr>"
    unfolding make_FilterBlockReader_def Let_def base last by (simp add: lc)
  have index: "unat (drop_bit 11 off) = ?i"
    by (simp add: filter_index_def kFilterBase_def kFilterBaseLg_def unat_drop_bit)
  have "take (length (concat (take (Suc ?i) fs)) - length (concat (take ?i fs))) (drop (length (concat (take ?i fs))) ?c)
      = fs ! ?i"
  proof -
    have "length (concat (take (Suc ?i) fs)) = length (concat (take ?i fs)) + length (fs ! ?i)"
      using assms(2) by (simp add: take_Suc_conv_app_nth)
    moreover have "drop (length (concat (take ?i fs))) ?c = fs ! ?i @ concat (drop (Suc ?i) fs)
        @ concat (map EncodeFixed32 offs) @ [11]"
      using assms(2) prefix_le [of ?i] unfolding c by (simp add: drop_concat_take flip: Cons_nth_drop_Suc)
    ultimately show ?thesis by simp
  qed
  moreover have "length (concat (take ?i fs)) \<le> length (concat (take (Suc ?i) fs))"
    using assms(2) by (simp add: take_Suc_conv_app_nth)
  moreover have "drop (length (concat fs) + ?i * 4 + 4) ?c = drop (length (concat fs) + Suc ?i * 4) ?c"
    by (rule arg_cong [of _ _ "\<lambda>n. drop n ?c"]) simp
  ultimately show ?thesis
    unfolding reader FilterBlock_KeyMayMatch_def Let_def FilterBlockReader.simps index
    using assms(2) dec [of ?i] dec [of "Suc ?i"] prefix_le [of "Suc ?i"] by simp
qed

section \<open>No false negatives\<close>

text \<open>C37: for every number of bits per key an \<open>int\<close> can hold, the
  constructor makes a Bloom filter policy; \<open>CreateFilter\<close> has a defined result on any keys and only
  appends to its argument; and every key that went in matches the filter, also when it is tested by a
  policy that was made with a different number of bits per key.\<close>

theorem bloom_no_false_negatives:
  assumes "0 \<le> bits" and "bits < 2 ^ 31" and "0 \<le> bits'" and "length keys < 2 ^ 31"
  shows "case (NewBloomFilterPolicy bits, NewBloomFilterPolicy bits') of
      (Some p, Some p') \<Rightarrow>
        (case CreateFilter p keys dst of
           None \<Rightarrow> False
         | Some out \<Rightarrow> take (length dst) out = dst
             \<and> (\<forall>key \<in> set keys. KeyMayMatch p' key (drop (length dst) out)))
    | _ \<Rightarrow> False"
proof -
  obtain k where k: "k \<le> 30" "NewBloomFilterPolicy bits = Some \<lparr>policy_Name = ''leveldb.BuiltinBloomFilter2'',
      CreateFilter = Bloom_CreateFilter \<lparr>bits_per_key = of_int bits, bloom_k = k\<rparr>, KeyMayMatch = Bloom_KeyMayMatch\<rparr>"
    by (rule NewBloomFilterPolicy_makes [OF assms(1)])
  obtain k' where "NewBloomFilterPolicy bits' = Some \<lparr>policy_Name = ''leveldb.BuiltinBloomFilter2'',
      CreateFilter = Bloom_CreateFilter \<lparr>bits_per_key = of_int bits', bloom_k = k'\<rparr>, KeyMayMatch = Bloom_KeyMayMatch\<rparr>"
    by (rule NewBloomFilterPolicy_makes [OF assms(3)])
  with k Bloom_creates [OF assms(4,1,2) k(1), of dst] show ?thesis by auto
qed

theorem bloom_no_false_negatives_witness:
  "case (NewBloomFilterPolicy 10, NewBloomFilterPolicy 4) of
      (Some p, Some p') \<Rightarrow>
        (case CreateFilter p [[1, 2], []] [7] of
           None \<Rightarrow> False
         | Some out \<Rightarrow> take 1 out = [7] \<and> KeyMayMatch p' [1, 2] (drop 1 out) \<and> KeyMayMatch p' [] (drop 1 out))
    | _ \<Rightarrow> False"
  using bloom_no_false_negatives [of 10 4 "[[1, 2], []]" "[7]"]
  by (auto split: option.splits)

lemma filter_block_covers:
  assumes "filter_policy p" and "sorted (map fst blocks)" and "length (concat (map snd blocks)) < 2 ^ 31"
  shows "\<exists>contents b. Option.bind (filter_build p blocks) FilterBlock_Finish = Some (contents, b)
    \<and> (length contents < 2 ^ 32 \<longrightarrow> (\<forall>(off, keys) \<in> set blocks. \<forall>key \<in> set keys.
         FilterBlock_KeyMayMatch off key (make_FilterBlockReader p contents) = Some True))"
proof -
  from filter_policy.filter_build_rep [OF assms] obtain fs ks b where b: "filter_build p blocks = Some b"
    "fb_rep p fs ks b" "fb_covers p (filter_history blocks) fs ks" "length ks \<le> length (concat (map snd blocks))"
    by blast
  have "length ks < 2 ^ 31" using b(4) assms(3) by simp
  obtain fs' b' where f: "FilterBlock_Finish b = Some (filter_block_bytes fs', b')"
    "fb_covers p (filter_history blocks) fs' []"
  proof (cases "ks = []")
    case True
    with Finish_no_keys b(2,3) that show thesis by blast
  next
    case False
    from filter_policy.GenerateFilter_rep [OF assms(1) b(2) \<open>length ks < 2 ^ 31\<close> b(3)] obtain f b1 where
      b1: "GenerateFilter b = Some b1" "fb_rep p (fs @ [f]) [] b1" "fb_covers p (filter_history blocks) (fs @ [f]) []"
      by blast
    then have "FilterBlock_Finish b = FilterBlock_Finish b1"
      using False b(2) by (simp add: FilterBlock_Finish_def fb_rep_def)
    with Finish_no_keys [OF b1(2)] b1(3) that show thesis by auto
  qed
  have "FilterBlock_KeyMayMatch off key (make_FilterBlockReader p (filter_block_bytes fs')) = Some True"
    if "length (filter_block_bytes fs') < 2 ^ 32" "(off, keys) \<in> set blocks" "key \<in> set keys" for off keys key
  proof -
    have "(filter_index off, key) \<in> filter_history blocks" using that(2,3) by (auto simp: filter_history_def)
    with f(2) have "filter_index off < length fs'" "KeyMayMatch p key (fs' ! filter_index off)"
      by (auto simp: fb_covers_def)
    then show ?thesis using filter_reader [OF that(1)] by simp
  qed
  then show ?thesis using b(1) f(1) by auto
qed

text \<open>C14: let a table with any filter policy that meets its contract start
  blocks at increasing offsets and add keys to them. Building and finishing the filter block has a
  defined result. If it is shorter than four gigabytes, the reader answers for the offset of each
  block and each of its keys that the key may be there: a lookup never skips a block that has the
  key. Bloom filters, and the policy of internal keys over them, meet the contract.\<close>

theorem filter_block_sound:
  assumes "filter_policy p" and "sorted (map fst blocks)" and "length (concat (map snd blocks)) < 2 ^ 31"
  shows "(case Option.bind (filter_build p blocks) FilterBlock_Finish of
      None \<Rightarrow> False
    | Some (contents, _) \<Rightarrow> length contents < 2 ^ 32 \<longrightarrow>
        (\<forall>(off, keys) \<in> set blocks. \<forall>key \<in> set keys.
           FilterBlock_KeyMayMatch off key (make_FilterBlockReader p contents) = Some True))
    \<and> filter_policy (InternalFilterPolicy (the (NewBloomFilterPolicy (uint (w :: 31 word)))))"
  using filter_block_covers [OF assms] internal_bloom.filter_policy_axioms by auto

lemma one_key_filter_block:
  "case Option.bind (filter_build (InternalFilterPolicy (the (NewBloomFilterPolicy (uint (10 :: 31 word)))))
      [(0, [[1, 2, 3, 4, 5, 6, 7, 8, 9]])]) FilterBlock_Finish of
    None \<Rightarrow> False
  | Some (contents, _) \<Rightarrow> length contents = 18"
  by (simp add: filter_build_def StartBlock_def start_loop.simps GenerateFilter_def Let_def FilterBlock_Finish_def
      AddKey_def make_FilterBlockBuilder_def filter_keys_def InternalFilterPolicy_def NewBloomFilterPolicy_def
      make_BloomFilterPolicy_def Bloom_CreateFilter_def bloom_bytes_def PutFixed32_def)

theorem filter_block_sound_witness:
  "(case Option.bind (filter_build (InternalFilterPolicy (the (NewBloomFilterPolicy (uint (10 :: 31 word)))))
            [(0, [[1, 2, 3, 4, 5, 6, 7, 8, 9]])]) FilterBlock_Finish of
      None \<Rightarrow> False
    | Some (contents, _) \<Rightarrow> length contents = 18
        \<and> FilterBlock_KeyMayMatch 0 [1, 2, 3, 4, 5, 6, 7, 8, 9]
            (make_FilterBlockReader (InternalFilterPolicy (the (NewBloomFilterPolicy (uint (10 :: 31 word))))) contents)
          = Some True)
   \<and> filter_policy (InternalFilterPolicy (the (NewBloomFilterPolicy (uint (10 :: 31 word)))))"
  using filter_block_sound [OF internal_bloom.filter_policy_axioms [of 10], of "[(0, [[1, 2, 3, 4, 5, 6, 7, 8, 9]])]" 10]
    one_key_filter_block
  by (auto simp del: uint_numeral split: option.splits)

end
