(* ===== verification/Ldb_Block.thy ===== *)
theory Ldb_Block
  imports Ldb_Keys Ldb_Status
begin

text \<open>
  LevelDB: blocks of prefix-compressed entries. \<open>table/block_builder.cc\<close> writes them,
  \<open>table/block.cc\<close> reads and searches them. Offsets and counts of the iterator are \<open>uint32\<close> as in the
  code; a pointer into the block is its offset. Indices of restart points are \<open>nat\<close>: they stay
  below \<open>num_restarts_\<close>, and their sums would only wrap in a block of more than eight gigabytes. \<open>value_\<close> is an offset and a length, or \<open>None\<close> when
  it does not point into the block. Errors are a \<open>Status\<close>.
\<close>

section \<open>The builder\<close>

record BlockBuilder =
  block_restart_interval :: nat
  bb_buffer :: "byte list"
  bb_restarts :: "uint32 list"
  bb_counter :: nat
  bb_finished :: bool
  bb_last_key :: slice

definition make_BlockBuilder :: "nat \<Rightarrow> BlockBuilder" where
  "make_BlockBuilder interval =
     \<lparr>block_restart_interval = interval, bb_buffer = [], bb_restarts = [0], bb_counter = 0,
      bb_finished = False, bb_last_key = []\<rparr>"

definition BlockBuilder_Reset :: "BlockBuilder \<Rightarrow> BlockBuilder" where
  "BlockBuilder_Reset b =
     b\<lparr>bb_buffer := [], bb_restarts := [0], bb_counter := 0, bb_finished := False, bb_last_key := []\<rparr>"

definition CurrentSizeEstimate :: "BlockBuilder \<Rightarrow> nat" where
  "CurrentSizeEstimate b = length (bb_buffer b) + length (bb_restarts b) * 4 + 4"

definition BlockBuilder_Finish :: "BlockBuilder \<Rightarrow> slice \<times> BlockBuilder" where
  "BlockBuilder_Finish b =
     (let buf = PutFixed32 (foldl PutFixed32 (bb_buffer b) (bb_restarts b)) (of_nat (length (bb_restarts b)))
      in (buf, b\<lparr>bb_buffer := buf, bb_finished := True\<rparr>))"

definition BlockBuilder_Add :: "slice \<Rightarrow> slice \<Rightarrow> BlockBuilder \<Rightarrow> BlockBuilder" where
  "BlockBuilder_Add key val b =
     (let (shared, rs, cnt) =
            (if bb_counter b < block_restart_interval b
             then (shared_prefix (bb_last_key b) key, bb_restarts b, bb_counter b)
             else (0, bb_restarts b @ [of_nat (length (bb_buffer b))], 0));
          non_shared = length key - shared;
          buf = PutVarint32 (bb_buffer b) (of_nat shared);
          buf = PutVarint32 buf (of_nat non_shared);
          buf = PutVarint32 buf (of_nat (length val));
          buf = buf @ take non_shared (drop shared key);
          buf = buf @ val
      in b\<lparr>bb_buffer := buf, bb_restarts := rs,
           bb_last_key := take shared (bb_last_key b) @ take non_shared (drop shared key),
           bb_counter := cnt + 1\<rparr>)"

section \<open>Blocks\<close>

record Block =
  block_data :: "byte list"
  block_size :: nat
  block_restart_offset :: uint32

text \<open>\<open>NumRestarts\<close> reads the last four bytes.\<close>

definition NumRestarts :: "byte list \<Rightarrow> nat \<Rightarrow> uint32" where
  "NumRestarts dat sz = DecodeFixed32 (drop (sz - 4) dat)"

definition make_Block :: "slice \<Rightarrow> Block" where
  "make_Block contents =
     (let sz = length contents
      in if sz < 4 then \<lparr>block_data = contents, block_size = 0, block_restart_offset = 0\<rparr>
         else (let max_restarts_allowed = (sz - 4) div 4; n = NumRestarts contents sz
               in if max_restarts_allowed < unat n
                  then \<lparr>block_data = contents, block_size = 0, block_restart_offset = 0\<rparr>
                  else \<lparr>block_data = contents, block_size = sz,
                        block_restart_offset = of_nat (sz - unat (1 + n) * 4)\<rparr>))"

text \<open>\<open>DecodeEntry(p, limit, ...)\<close> on the bytes from \<open>p\<close> to \<open>limit\<close>: the three numbers and the
  bytes from the key delta on. The sum of the lengths is computed in \<open>uint32_t\<close>.\<close>

definition DecodeEntry :: "slice \<Rightarrow> (uint32 \<times> uint32 \<times> uint32 \<times> slice) option" where
  "DecodeEntry p =
     (let lengths_fit = (\<lambda>(shared :: uint32) (non_shared :: uint32) (value_length :: uint32) q.
            if (of_nat (length q) :: uint32) < non_shared + value_length then None
            else Some (shared, non_shared, value_length, q))
      in if length p < 3 then None
         else (let shared = ucast (p ! 0) :: uint32; non_shared = ucast (p ! 1) :: uint32;
                   value_length = ucast (p ! 2) :: uint32
               in if shared OR non_shared OR value_length < 128
                  then lengths_fit shared non_shared value_length (drop 3 p)
                  else (case GetVarint32Ptr p of
                          None \<Rightarrow> None
                        | Some (shared, p) \<Rightarrow>
                            (case GetVarint32Ptr p of
                               None \<Rightarrow> None
                             | Some (non_shared, p) \<Rightarrow>
                                 (case GetVarint32Ptr p of
                                    None \<Rightarrow> None
                                  | Some (value_length, p) \<Rightarrow>
                                      lengths_fit shared non_shared value_length p)))))"

section \<open>The iterator\<close>

record Block_Iter =
  it_comparator :: Comparator
  it_data :: "byte list"
  it_restarts :: uint32
  it_num_restarts :: nat
  it_current :: uint32
  it_restart_index :: nat
  it_key :: slice
  it_value :: "(nat \<times> nat) option"
  it_status :: Status

definition make_Iter :: "Comparator \<Rightarrow> byte list \<Rightarrow> uint32 \<Rightarrow> nat \<Rightarrow> Block_Iter" where
  "make_Iter cmp dat rs n =
     \<lparr>it_comparator = cmp, it_data = dat, it_restarts = rs, it_num_restarts = n, it_current = rs,
      it_restart_index = n, it_key = [], it_value = None, it_status = OK\<rparr>"

datatype block_iterator = Error_Iterator Status | Empty_Iterator | Iter Block_Iter

definition Block_NewIterator :: "Comparator \<Rightarrow> Block \<Rightarrow> block_iterator" where
  "Block_NewIterator cmp b =
     (if block_size b < 4 then Error_Iterator (Corruption ''bad block contents'')
      else (let n = NumRestarts (block_data b) (block_size b)
            in if n = 0 then Empty_Iterator
               else Iter (make_Iter cmp (block_data b) (block_restart_offset b) (unat n))))"

definition Valid :: "Block_Iter \<Rightarrow> bool" where
  "Valid it \<longleftrightarrow> it_current it < it_restarts it"

text \<open>\<open>value()\<close>; outside the block there is no defined value.\<close>

definition iter_value :: "Block_Iter \<Rightarrow> slice option" where
  "iter_value it =
     (case it_value it of
        Some (off, n) \<Rightarrow> if off + n \<le> length (it_data it) then Some (take n (drop off (it_data it))) else None
      | None \<Rightarrow> None)"

text \<open>\<open>None\<close>: \<open>it_value\<close> does not point into the block, so the difference of the pointers is not
  defined.\<close>

definition NextEntryOffset :: "Block_Iter \<Rightarrow> uint32 option" where
  "NextEntryOffset it = (case it_value it of Some (off, n) \<Rightarrow> Some (of_nat (off + n)) | None \<Rightarrow> None)"

definition GetRestartPoint :: "Block_Iter \<Rightarrow> nat \<Rightarrow> uint32" where
  "GetRestartPoint it i = DecodeFixed32 (drop (unat (it_restarts it) + i * 4) (it_data it))"

definition SeekToRestartPoint :: "nat \<Rightarrow> Block_Iter \<Rightarrow> Block_Iter" where
  "SeekToRestartPoint i it =
     it\<lparr>it_key := [], it_restart_index := i, it_value := Some (unat (GetRestartPoint it i), 0)\<rparr>"

definition CorruptionError :: "Block_Iter \<Rightarrow> Block_Iter" where
  "CorruptionError it =
     it\<lparr>it_current := it_restarts it, it_restart_index := it_num_restarts it,
        it_status := Corruption ''bad entry in block'', it_key := [], it_value := None\<rparr>"

text \<open>\<open>while (restart_index_ + 1 < num_restarts_ && GetRestartPoint(restart_index_ + 1) < current_)\<close>\<close>

function advance_restart :: "Block_Iter \<Rightarrow> nat \<Rightarrow> nat" where
  "advance_restart it i =
     (if i + 1 < it_num_restarts it \<and> GetRestartPoint it (i + 1) < it_current it
      then advance_restart it (i + 1) else i)"
  by pat_completeness auto
termination
  by (relation "measure (\<lambda>(it, i). it_num_restarts it - i)") auto

declare advance_restart.simps [simp del]

text \<open>\<open>Ret\<close> is true, \<open>Fail\<close> false. Appending to \<open>key_\<close> reads \<open>non_shared\<close> bytes of the block: reading
  past its end is undefined.\<close>

definition ParseNextKey :: "Block_Iter \<Rightarrow> (Block_Iter, unit) res" where
  "ParseNextKey it =
     (case NextEntryOffset it of
        None \<Rightarrow> Undef
      | Some cur \<Rightarrow>
          if it_restarts it \<le> cur
          then Fail (it\<lparr>it_current := it_restarts it, it_restart_index := it_num_restarts it\<rparr>)
          else (let limit = unat (it_restarts it); p = drop (unat cur) (take limit (it_data it));
                    it = it\<lparr>it_current := cur\<rparr>
                in case DecodeEntry p of
                     None \<Rightarrow> Fail (CorruptionError it)
                   | Some (shared, non_shared, value_length, q) \<Rightarrow>
                       if length (it_key it) < unat shared then Fail (CorruptionError it)
                       else (let off = unat cur + (length p - length q)
                             in if length (it_data it) < off + unat non_shared then Undef
                                else (let it = it\<lparr>it_key := take (unat shared) (it_key it)
                                                      @ take (unat non_shared) (drop off (it_data it)),
                                               it_value := Some (off + unat non_shared, unat value_length)\<rparr>
                                      in Ret () (it\<lparr>it_restart_index :=
                                                       advance_restart it (it_restart_index it)\<rparr>)))))"

text \<open>A parsed entry ends behind its start and at the latest at the restart array, whatever the
  lengths in it: the loops below end.\<close>

lemma DecodeEntry_suffix:
  assumes "DecodeEntry p = Some (shared, non_shared, value_length, q)"
  shows "\<exists>pre. pre \<noteq> [] \<and> p = pre @ q" and "\<not> of_nat (length q) < non_shared + value_length"
proof -
  have "\<exists>pre. pre \<noteq> [] \<and> p = pre @ q" if "q = drop 3 p" "\<not> length p < 3"
    using that by (intro exI [of _ "take 3 p"]) auto
  moreover have "\<exists>pre. pre \<noteq> [] \<and> p = pre @ q"
    if p: "GetVarint32Ptr p = Some (a, p1)" "GetVarint32Ptr p1 = Some (b, p2)"
      "GetVarint32Ptr p2 = Some (c, q)" for a b c p1 p2
  proof -
    from GetVarint32Ptr_suffix [OF p(1)] GetVarint32Ptr_suffix [OF p(2)]
      GetVarint32Ptr_suffix [OF p(3)]
    obtain x y z where "x \<noteq> []" "p = x @ y @ z @ q" by blast
    then show ?thesis by (intro exI [of _ "x @ y @ z"]) simp
  qed
  ultimately show "\<exists>pre. pre \<noteq> [] \<and> p = pre @ q"
    using assms by (auto simp: DecodeEntry_def Let_def split: if_splits option.splits)
  show "\<not> of_nat (length q) < non_shared + value_length"
    using assms by (auto simp: DecodeEntry_def Let_def split: if_splits option.splits)
qed

lemma ParseNextKey_progress:
  assumes "ParseNextKey it = Ret () it'"
  shows "it_restarts it' = it_restarts it" and "it_data it' = it_data it"
    and "it_num_restarts it' = it_num_restarts it" and "it_comparator it' = it_comparator it"
    and "\<exists>a b. NextEntryOffset it = Some a \<and> NextEntryOffset it' = Some b \<and> a < b
           \<and> a < it_restarts it \<and> it_current it' = a"
proof -
  from assms obtain cur where cur: "NextEntryOffset it = Some cur" "cur < it_restarts it"
    by (auto simp: ParseNextKey_def not_less split: option.splits if_splits)
  define p where "p = drop (unat cur) (take (unat (it_restarts it)) (it_data it))"
  from assms cur obtain s n v q where d: "DecodeEntry p = Some (s, n, v, q)"
    by (auto simp: ParseNextKey_def p_def Let_def split: option.splits if_splits)
  define off where "off = unat cur + (length p - length q)"
  have it': "it_restarts it' = it_restarts it \<and> it_data it' = it_data it
    \<and> it_num_restarts it' = it_num_restarts it \<and> it_comparator it' = it_comparator it
    \<and> it_value it' = Some (off + unat n, unat v) \<and> it_current it' = cur"
    using assms cur d
    by (auto simp: ParseNextKey_def p_def off_def Let_def split: option.splits if_splits)
  then show "it_restarts it' = it_restarts it" and "it_data it' = it_data it"
    and "it_num_restarts it' = it_num_restarts it" and "it_comparator it' = it_comparator it"
    by auto
  have r: "unat (it_restarts it) < 2 ^ 32"
    using unsigned_less [of "it_restarts it", where ?'a = nat] by simp
  from DecodeEntry_suffix(1) [OF d] obtain pre where pre: "pre \<noteq> []" "p = pre @ q" by blast
  have "length p \<le> unat (it_restarts it) - unat cur" by (simp add: p_def)
  then have off: "unat cur < off" "off + length q \<le> unat (it_restarts it)"
    using pre cur(2) by (auto simp: off_def word_less_nat_alt)
  have "unat (n + v) \<le> length q"
    using DecodeEntry_suffix(2) [OF d] off r by (simp add: word_less_nat_alt unat_of_nat not_less)
  moreover have "(of_nat (off + unat n + unat v) :: uint32) = of_nat (off + unat (n + v))" by simp
  ultimately have "unat (of_nat (off + unat n + unat v) :: uint32) = off + unat (n + v)"
    using off r by (simp only: unat_of_nat) simp
  with off(1) have "cur < of_nat (off + unat n + unat v)" by (simp only: word_less_nat_alt)
  with cur it' show "\<exists>a b. NextEntryOffset it = Some a \<and> NextEntryOffset it' = Some b \<and> a < b
           \<and> a < it_restarts it \<and> it_current it' = a"
    by (simp add: NextEntryOffset_def add.assoc)
qed

text \<open>The loops over \<open>ParseNextKey\<close>: until it is false or a condition holds.\<close>

function parse_until :: "(Block_Iter \<Rightarrow> bool) \<Rightarrow> Block_Iter \<Rightarrow> (Block_Iter, unit) res" where
  "parse_until stop it =
     (case ParseNextKey it of
        Undef \<Rightarrow> Undef
      | Fail it' \<Rightarrow> Fail it'
      | Ret _ it' \<Rightarrow> if stop it' then Ret () it' else parse_until stop it')"
  by pat_completeness auto
termination
proof (relation "measure (\<lambda>(_, it). case NextEntryOffset it of
                   None \<Rightarrow> 0 | Some a \<Rightarrow> unat (it_restarts it) - unat a)")
  fix stop it u it'
  assume "ParseNextKey it = Ret u it'"
  then have p: "ParseNextKey it = Ret () it'" by simp
  from ParseNextKey_progress(1,5) [OF p]
  show "((stop, it'), stop, it) \<in> measure (\<lambda>(_, it). case NextEntryOffset it of
                   None \<Rightarrow> 0 | Some a \<Rightarrow> unat (it_restarts it) - unat a)"
    by (auto simp: word_less_nat_alt)
qed simp

declare parse_until.simps [simp del]

text \<open>\<open>Next\<close>, \<open>Prev\<close>, the three \<open>Seek\<close> operations: the iterator afterwards, \<open>None\<close> for undefined
  behaviour.\<close>

definition Next :: "Block_Iter \<Rightarrow> Block_Iter option" where
  "Next it = res_state (ParseNextKey it)"

text \<open>\<open>while (GetRestartPoint(restart_index_) >= original)\<close>: \<open>None\<close> when it reaches the start.\<close>

fun prev_restart :: "Block_Iter \<Rightarrow> uint32 \<Rightarrow> nat \<Rightarrow> nat option" where
  "prev_restart it original i =
     (if GetRestartPoint it i \<ge> original
      then (case i of 0 \<Rightarrow> None | Suc j \<Rightarrow> prev_restart it original j)
      else Some i)"

declare prev_restart.simps [simp del]

definition Prev :: "Block_Iter \<Rightarrow> Block_Iter option" where
  "Prev it =
     (let original = it_current it
      in case prev_restart it original (it_restart_index it) of
           None \<Rightarrow> Some (it\<lparr>it_current := it_restarts it, it_restart_index := it_num_restarts it\<rparr>)
         | Some i \<Rightarrow>
             res_state (parse_until
               (\<lambda>it. case NextEntryOffset it of Some b \<Rightarrow> \<not> b < original | None \<Rightarrow> True)
               (SeekToRestartPoint i it)))"

text \<open>The binary search of \<open>Seek\<close>; \<open>None\<close> is a corrupt entry at a restart point.\<close>

lemma mid_bounds:
  "left < right \<Longrightarrow> right - (left + right + 1) div 2 < right - (left :: nat)"
  "left < right \<Longrightarrow> (left + right + 1) div 2 - 1 - left < right - left"
  by linarith+

function seek_search :: "Block_Iter \<Rightarrow> slice \<Rightarrow> nat \<Rightarrow> nat \<Rightarrow> (Block_Iter, nat) res" where
  "seek_search it target left right =
     (if left < right
      then (let mid = (left + right + 1) div 2;
                limit = unat (it_restarts it); region_offset = unat (GetRestartPoint it mid);
                p = drop region_offset (take limit (it_data it))
            in case DecodeEntry p of
                 None \<Rightarrow> Fail (CorruptionError it)
               | Some (shared, non_shared, value_length, q) \<Rightarrow>
                   if shared \<noteq> 0 then Fail (CorruptionError it)
                   else (let off = region_offset + (length p - length q)
                         in if length (it_data it) < off + unat non_shared then Undef
                            else if Compare (it_comparator it)
                                      (take (unat non_shared) (drop off (it_data it))) target < 0
                            then seek_search it target mid right
                            else seek_search it target left (mid - 1)))
      else Ret left it)"
  by pat_completeness auto
termination
  by (relation "measure (\<lambda>(_, _, left, right). right - left)")
     (simp_all only: in_measure prod.case mid_bounds wf_measure)

declare seek_search.simps [simp del]

definition Seek :: "slice \<Rightarrow> Block_Iter \<Rightarrow> Block_Iter option" where
  "Seek target it =
     (case seek_search it target 0 (it_num_restarts it - 1) of
        Undef \<Rightarrow> None
      | Fail it' \<Rightarrow> Some it'
      | Ret left it' \<Rightarrow>
          res_state (parse_until (\<lambda>it. Compare (it_comparator it) (it_key it) target \<ge> 0)
            (SeekToRestartPoint left it')))"

definition SeekToFirst :: "Block_Iter \<Rightarrow> Block_Iter option" where
  "SeekToFirst it = res_state (ParseNextKey (SeekToRestartPoint 0 it))"

definition SeekToLast :: "Block_Iter \<Rightarrow> Block_Iter option" where
  "SeekToLast it =
     res_state (parse_until
       (\<lambda>it. case NextEntryOffset it of Some b \<Rightarrow> \<not> b < it_restarts it | None \<Rightarrow> True)
       (SeekToRestartPoint (it_num_restarts it - 1) it))"

end
