(* ===== verification/Ldb_Block_Layout.thy ===== *)
theory Ldb_Block_Layout
  imports Ldb_Block Ldb_Order
begin

text \<open>
  What the block builder writes. The bytes of entry \<open>i\<close> and its offset are given directly from the
  list of key/value pairs; the builder, fed with the pairs one by one, produces their concatenation
  and the array of restart points; and \<open>DecodeEntry\<close> inverts the entry format on both of its paths.
\<close>

section \<open>The layout of a block\<close>

definition entry_bytes :: "nat \<Rightarrow> slice \<Rightarrow> slice \<Rightarrow> byte list" where
  "entry_bytes shared key val =
     EncodeVarint32 (of_nat shared) @ EncodeVarint32 (of_nat (length key - shared))
     @ EncodeVarint32 (of_nat (length val)) @ drop shared key @ val"

text \<open>An entry at a restart point shares nothing with the one before.\<close>

definition entry_shared :: "nat \<Rightarrow> (slice \<times> slice) list \<Rightarrow> nat \<Rightarrow> nat" where
  "entry_shared k kvs i =
     (if i mod k = 0 then 0 else shared_prefix (fst (kvs ! (i - 1))) (fst (kvs ! i)))"

definition entries :: "nat \<Rightarrow> (slice \<times> slice) list \<Rightarrow> byte list list" where
  "entries k kvs =
     map (\<lambda>i. entry_bytes (entry_shared k kvs i) (fst (kvs ! i)) (snd (kvs ! i))) [0..<length kvs]"

definition offset :: "nat \<Rightarrow> (slice \<times> slice) list \<Rightarrow> nat \<Rightarrow> nat" where
  "offset k kvs i = length (concat (take i (entries k kvs)))"

definition num_restarts :: "nat \<Rightarrow> nat \<Rightarrow> nat" where
  "num_restarts k n = (if n = 0 then 1 else (n - 1) div k + 1)"

definition restart_array :: "nat \<Rightarrow> (slice \<times> slice) list \<Rightarrow> uint32 list" where
  "restart_array k kvs =
     map (\<lambda>j. of_nat (offset k kvs (j * k))) [0..<num_restarts k (length kvs)]"

definition block_bytes :: "nat \<Rightarrow> (slice \<times> slice) list \<Rightarrow> byte list" where
  "block_bytes k kvs =
     concat (entries k kvs) @ concat (map EncodeFixed32 (restart_array k kvs))
     @ EncodeFixed32 (of_nat (num_restarts k (length kvs)))"

definition build :: "nat \<Rightarrow> (slice \<times> slice) list \<Rightarrow> BlockBuilder" where
  "build k kvs = foldl (\<lambda>b (key, val). BlockBuilder_Add key val b) (make_BlockBuilder k) kvs"

section \<open>The builder follows the layout\<close>

lemma length_entries [simp]: "length (entries k kvs) = length kvs"
  by (simp add: entries_def)

lemma entries_Nil [simp]: "entries k [] = []"
  by (simp add: entries_def)

lemma entries_snoc:
  "entries k (kvs @ [kv]) =
   entries k kvs @ [entry_bytes (entry_shared k (kvs @ [kv]) (length kvs)) (fst kv) (snd kv)]"
  by (auto simp: entries_def entry_shared_def nth_append intro!: map_cong)

lemma offset_snoc: "i \<le> length kvs \<Longrightarrow> offset k (kvs @ [kv]) i = offset k kvs i"
  by (simp add: offset_def entries_snoc)

lemma offset_end: "offset k kvs (length kvs) = length (concat (entries k kvs))"
  by (simp add: offset_def)

lemma restart_array_snoc:
  assumes "0 < k"
  shows "restart_array k (kvs @ [kv]) =
    restart_array k kvs
    @ (if kvs \<noteq> [] \<and> length kvs mod k = 0 then [of_nat (offset k kvs (length kvs))] else [])"
proof (cases "kvs = []")
  case True
  then show ?thesis by (simp add: restart_array_def num_restarts_def offset_def)
next
  case False
  define n where "n = length kvs"
  have n: "0 < n" using False by (simp add: n_def)
  have lt: "j * k \<le> n" if "j < num_restarts k n" for j
  proof -
    from that n have "j \<le> (n - 1) div k" by (simp add: num_restarts_def)
    then have "j * k \<le> (n - 1) div k * k" by simp
    also have "\<dots> \<le> n - 1" by (rule div_times_less_eq_dividend)
    finally show ?thesis by simp
  qed
  have old: "map (\<lambda>j. of_nat (offset k (kvs @ [kv]) (j * k)) :: uint32) [0..<num_restarts k n]
    = restart_array k kvs"
    unfolding restart_array_def n_def [symmetric]
    by (rule map_cong) (auto simp: offset_snoc lt n_def [symmetric])
  show ?thesis
  proof (cases "n mod k = 0")
    case True
    then have "k dvd n" by (simp add: mod_eq_0_iff_dvd)
    then obtain q where q: "n = q * k" by (metis dvd_def mult.commute)
    with n have q0: "0 < q" by (cases q) auto
    have "(n - 1) div k = q - 1"
    proof (rule div_nat_eqI)
      show "k * (q - 1) \<le> n - 1" using q q0 assms by (cases q) (auto simp: algebra_simps)
      show "n - 1 < k * Suc (q - 1)" using q q0 n by (simp add: algebra_simps)
    qed
    then have "num_restarts k (Suc n) = Suc (num_restarts k n)" "num_restarts k n = q"
      using n q q0 assms by (simp_all add: num_restarts_def)
    then show ?thesis
      using True False old q unfolding restart_array_def n_def [symmetric]
      by (simp add: n_def offset_snoc)
  next
    case False
    have "n div k = (n - 1) div k"
    proof (rule div_nat_eqI)
      show "k * ((n - 1) div k) \<le> n"
        by (rule order_trans [OF times_div_less_eq_dividend]) simp
      have "n \<noteq> k * Suc ((n - 1) div k)" using False by (metis mod_mult_self1_is_0)
      moreover have "n - 1 < k * Suc ((n - 1) div k)"
        using assms by (simp add: dividend_less_times_div)
      ultimately show "n < k * Suc ((n - 1) div k)" by simp
    qed
    then have "num_restarts k (Suc n) = num_restarts k n"
      using n by (simp add: num_restarts_def)
    then show ?thesis
      using False old unfolding restart_array_def n_def [symmetric] by (simp add: n_def)
  qed
qed

lemma build_snoc: "build k (kvs @ [(key, val)]) = BlockBuilder_Add key val (build k kvs)"
  by (simp add: build_def)

theorem build_layout:
  assumes "0 < k"
  shows "build k kvs =
    \<lparr>block_restart_interval = k, bb_buffer = concat (entries k kvs),
     bb_restarts = restart_array k kvs,
     bb_counter = (if kvs = [] then 0 else (length kvs - 1) mod k + 1), bb_finished = False,
     bb_last_key = (if kvs = [] then [] else fst (last kvs))\<rparr>"
proof (induction kvs rule: rev_induct)
  case Nil
  show ?case
    by (simp add: build_def make_BlockBuilder_def entries_def restart_array_def num_restarts_def
        offset_def)
next
  case (snoc kv kvs)
  obtain key val where kv: "kv = (key, val)" by (cases kv)
  define n where "n = length kvs"
  define full where "full \<longleftrightarrow> kvs \<noteq> [] \<and> n mod k = 0"
  let ?c = "if kvs = [] then 0 else (n - 1) mod k + 1"
  have c: "?c < k \<longleftrightarrow> \<not> full" and c': "(if ?c < k then ?c else 0) + 1 = n mod k + 1"
  proof -
    have "(n - 1) mod k + 1 < k \<longleftrightarrow> n mod k \<noteq> 0" "(n - 1) mod k + 1 < k \<longrightarrow> (n - 1) mod k + 1 = n mod k"
      if "kvs \<noteq> []"
    proof -
      from that have n: "n = Suc (n - 1)" by (simp add: n_def)
      have "n mod k = (if Suc ((n - 1) mod k) = k then 0 else Suc ((n - 1) mod k))"
        by (subst n) (simp add: mod_Suc)
      moreover have "(n - 1) mod k < k" using assms by simp
      ultimately show "(n - 1) mod k + 1 < k \<longleftrightarrow> n mod k \<noteq> 0"
        "(n - 1) mod k + 1 < k \<longrightarrow> (n - 1) mod k + 1 = n mod k" by auto
    qed
    then show "?c < k \<longleftrightarrow> \<not> full" "(if ?c < k then ?c else 0) + 1 = n mod k + 1"
      using assms by (auto simp: full_def n_def)
  qed
  define sh where "sh = entry_shared k (kvs @ [kv]) n"
  let ?lk = "if kvs = [] then [] else fst (last kvs)"
  have sh: "sh = (if full then 0 else shared_prefix ?lk key)"
    by (auto simp: sh_def full_def entry_shared_def n_def nth_append kv last_conv_nth)
  have key: "take sh ?lk @ drop sh key = key"
    using shared_prefix_take [of ?lk key] by (auto simp: sh)
  have "bb_buffer (build k kvs) = concat (entries k kvs)" by (simp add: snoc.IH)
  have e: "entries k (kvs @ [kv]) = entries k kvs @ [entry_bytes sh key val]"
    by (simp add: entries_snoc sh_def n_def kv)
  have r: "restart_array k (kvs @ [kv]) =
      restart_array k kvs @ (if full then [of_nat (length (concat (entries k kvs)))] else [])"
    by (simp add: restart_array_snoc assms full_def n_def offset_end)
  show ?case
    unfolding kv build_snoc snoc.IH e [unfolded kv] r [unfolded kv]
    using c c' key sh
    by (auto simp: BlockBuilder_Add_def Let_def n_def [symmetric] entry_bytes_def PutVarint32_def)
qed

corollary Finish_layout:
  assumes "0 < k"
  shows "fst (BlockBuilder_Finish (build k kvs)) = block_bytes k kvs"
proof -
  have "foldl PutFixed32 b rs = b @ concat (map EncodeFixed32 rs)" for b rs
    by (induction rs arbitrary: b) (simp_all add: PutFixed32_def)
  then show ?thesis
    by (simp add: BlockBuilder_Finish_def Let_def build_layout [OF assms] block_bytes_def
        PutFixed32_def restart_array_def)
qed

section \<open>Entries are decoded\<close>

lemma uint32_or_less:
  fixes a b c :: uint32
  assumes "a OR b OR c < 128"
  shows "a < 128" and "b < 128" and "c < 128"
proof -
  have le: "uint x \<le> uint (x OR y)" for x y :: uint32
    by (simp add: unsigned_or_eq or_greater_eq)
  have "uint a \<le> uint (a OR b OR c)" by (rule le)
  moreover have "uint b \<le> uint (a OR b OR c)" "uint c \<le> uint (a OR b OR c)"
    using le [of b "a OR c"] le [of c "a OR b"] by (simp_all only: ac_simps)
  ultimately show "a < 128" and "b < 128" and "c < 128"
    using assms by (simp_all add: word_less_def)
qed

lemma leb128_hd:
  assumes "(ucast (hd (leb128 n)) :: uint32) < 128"
  shows "leb128 n = [of_nat n]" and "n < 128"
proof -
  have "n < 128"
  proof (rule ccontr)
    assume "\<not> n < 128"
    then have "hd (leb128 n) = of_nat (n mod 128 + 128)" by (subst leb128.simps) simp
    then have "unat (hd (leb128 n)) = n mod 128 + 128" by (simp only: leb128_cont_byte)
    moreover have "unat (ucast (hd (leb128 n)) :: uint32) = unat (hd (leb128 n))"
      by (simp add: unsigned_ucast_eq take_bit_nat_eq_self unsigned_less [THEN less_trans])
    ultimately show False using assms by (simp add: word_less_nat_alt)
  qed
  then show "leb128 n = [of_nat n]" "n < 128" by (simp_all add: leb128_step)
qed

lemma GetVarint32Ptr_Encode: "GetVarint32Ptr (EncodeVarint32 v @ rest) = Some (v, rest)"
proof -
  have "unat v < 2 ^ 32" using unsigned_less [of v, where ?'a = nat] by simp
  then show ?thesis
    using GetVarint32Ptr_group [of "leb128 (unat v)" rest] leb128_uint32_length [of "unat v"]
    by (simp add: EncodeVarint32_leb128)
qed

lemma hd_EncodeVarint32:
  assumes "(ucast (hd (EncodeVarint32 v)) :: uint32) < 128"
  shows "EncodeVarint32 v = [ucast v]" and "(ucast (ucast v :: byte) :: uint32) = v"
proof -
  from leb128_hd [of "unat v"] assms have v: "leb128 (unat v) = [of_nat (unat v)]" "unat v < 128"
    by (simp_all add: EncodeVarint32_leb128)
  then show "EncodeVarint32 v = [ucast v]" by (simp add: EncodeVarint32_leb128)
  show "(ucast (ucast v :: byte) :: uint32) = v"
    using v(2) by (simp add: word_unat_eq_iff unsigned_ucast_eq unat_take_bit)
qed

lemma EncodeVarint32_not_Nil [simp]: "EncodeVarint32 v \<noteq> []"
  by (simp add: EncodeVarint32_leb128)

lemma DecodeEntry_varints:
  fixes a b c :: uint32
  shows "DecodeEntry (EncodeVarint32 a @ EncodeVarint32 b @ EncodeVarint32 c @ q) =
    (if (of_nat (length q) :: uint32) < b + c then None else Some (a, b, c, q))"
proof -
  let ?p = "EncodeVarint32 a @ EncodeVarint32 b @ EncodeVarint32 c @ q"
  have len: "\<not> length ?p < 3"
  proof -
    have "1 \<le> length (EncodeVarint32 v)" for v by (simp add: Suc_le_eq)
    from this [of a] this [of b] this [of c] show ?thesis unfolding length_append by linarith
  qed
  show ?thesis
  proof (cases "(ucast (?p ! 0) OR ucast (?p ! 1) OR ucast (?p ! 2) :: uint32) < 128")
    case True
    note less = uint32_or_less [OF True]
    from less(1) have "(ucast (hd (EncodeVarint32 a)) :: uint32) < 128"
      by (simp add: nth_append hd_conv_nth)
    note a = hd_EncodeVarint32 [OF this]
    from less(2) a(1) have "(ucast (hd (EncodeVarint32 b)) :: uint32) < 128"
      by (simp add: nth_append hd_conv_nth)
    note b = hd_EncodeVarint32 [OF this]
    from less(3) a(1) b(1) have "(ucast (hd (EncodeVarint32 c)) :: uint32) < 128"
      by (simp add: nth_append hd_conv_nth)
    note c = hd_EncodeVarint32 [OF this]
    have p: "?p = [ucast a, ucast b, ucast c] @ q" using a(1) b(1) c(1) by simp
    show ?thesis
      using True unfolding p DecodeEntry_def Let_def
      by (simp add: a(2) b(2) c(2) numeral_2_eq_2 numeral_3_eq_3)
  next
    case False
    with len show ?thesis
      unfolding DecodeEntry_def Let_def by (simp add: GetVarint32Ptr_Encode)
  qed
qed

lemma DecodeEntry_entry:
  assumes "shared \<le> length key" and "length (entry_bytes shared key val @ rest) < 2 ^ 32"
  shows "DecodeEntry (entry_bytes shared key val @ rest) =
    Some (of_nat shared, of_nat (length key - shared), of_nat (length val), drop shared key @ val @ rest)"
proof -
  let ?q = "drop shared key @ val @ rest"
  have "length ?q < 2 ^ 32" using assms(2) by (simp add: entry_bytes_def)
  moreover have "length key - shared + length val \<le> length ?q" using assms(1) by simp
  ultimately have "\<not> (of_nat (length ?q) :: uint32)
      < of_nat (length key - shared) + of_nat (length val)"
    unfolding of_nat_add [symmetric] word_less_nat_alt
    by (simp only: unat_of_nat) (simp del: length_append)
  then show ?thesis using DecodeEntry_varints [of "of_nat shared" _ _ ?q]
    by (simp add: entry_bytes_def)
qed

end
