(* ===== verification/Ldb_Block_Correct.thy ===== *)
theory Ldb_Block_Correct
  imports Ldb_Block_Layout
begin

text \<open>
  Reading a block back. An iterator over the bytes that the builder finished is described by the
  index of the entry it stands on; every operation of the iterator is described as a move of that
  index. The properties at the end put builder, \<open>Block\<close> and iterator together.
\<close>

section \<open>Offsets\<close>

lemma offset_Suc:
  "i < length kvs \<Longrightarrow> offset k kvs (Suc i) = offset k kvs i + length (entries k kvs ! i)"
  by (simp add: offset_def take_Suc_conv_app_nth)

lemma nth_entries:
  "i < length kvs \<Longrightarrow>
   entries k kvs ! i = entry_bytes (entry_shared k kvs i) (fst (kvs ! i)) (snd (kvs ! i))"
  by (simp add: entries_def)

lemma entry_length: "length (entry_bytes sh key val) \<ge> 3 + (length key - sh)"
proof -
  have "1 \<le> length (EncodeVarint32 v)" for v by (simp add: Suc_le_eq)
  from this [of "of_nat sh"] this [of "of_nat (length key - sh)"] this [of "of_nat (length val)"]
  show ?thesis unfolding entry_bytes_def length_append length_drop by linarith
qed

lemma offset_0 [simp]: "offset k kvs 0 = 0"
  by (simp add: offset_def)

lemma offset_less: "i < j \<Longrightarrow> j \<le> length kvs \<Longrightarrow> offset k kvs i < offset k kvs j"
proof (induction j)
  case (Suc j)
  then have "offset k kvs j < offset k kvs (Suc j)"
    using entry_length by (simp add: offset_Suc nth_entries) (metis add_gr_0 le_zero_eq length_0_conv
      not_gr_zero zero_less_numeral)
  with Suc show ?case by (cases "i = j") auto
qed simp

lemma offset_less_iff:
  "i \<le> length kvs \<Longrightarrow> j \<le> length kvs \<Longrightarrow> offset k kvs i < offset k kvs j \<longleftrightarrow> i < j"
  using offset_less [of i j kvs k] offset_less [of j i kvs k] by (cases i j rule: linorder_cases) auto

lemma offset_le_iff:
  "i \<le> length kvs \<Longrightarrow> j \<le> length kvs \<Longrightarrow> offset k kvs i \<le> offset k kvs j \<longleftrightarrow> i \<le> j"
  by (simp add: offset_less_iff flip: not_less)

lemma entry_shared_le: "entry_shared k kvs i \<le> length (fst (kvs ! i))"
  by (simp add: entry_shared_def shared_prefix_le)

lemma key_length_offset: "i < length kvs \<Longrightarrow> length (fst (kvs ! i)) \<le> offset k kvs (Suc i)"
proof (induction i)
  case 0
  then show ?case
    using entry_length [of "fst (kvs ! 0)" 0 "snd (kvs ! 0)"]
    by (simp add: offset_Suc nth_entries entry_shared_def)
next
  case (Suc i)
  have "entry_shared k kvs (Suc i) \<le> offset k kvs (Suc i)"
    using Suc shared_prefix_le(1) [of "fst (kvs ! i)" "fst (kvs ! Suc i)"]
    by (simp add: entry_shared_def)
  then show ?case
    using Suc.prems entry_length [of "fst (kvs ! Suc i)" "entry_shared k kvs (Suc i)" "snd (kvs ! Suc i)"]
    by (simp add: offset_Suc [of "Suc i"] nth_entries)
qed

lemma num_restarts_less:
  assumes "0 < k" and "kvs \<noteq> []" and "j < num_restarts k (length kvs)"
  shows "j * k < length kvs"
proof -
  from assms have "j \<le> (length kvs - 1) div k" by (simp add: num_restarts_def)
  then have "j * k \<le> (length kvs - 1) div k * k" by simp
  also have "\<dots> \<le> length kvs - 1" by (rule div_times_less_eq_dividend)
  also have "\<dots> < length kvs" using assms(2) by simp
  finally show ?thesis .
qed

lemma num_restarts_pos [simp]: "0 < num_restarts k n"
  by (simp add: num_restarts_def)

section \<open>Iterators over a built block\<close>

definition iterates :: "nat \<Rightarrow> (slice \<times> slice) list \<Rightarrow> Block_Iter \<Rightarrow> bool" where
  "iterates k kvs it \<longleftrightarrow>
     0 < k \<and> length (block_bytes k kvs) < 2 ^ 32 \<and> it_data it = block_bytes k kvs
     \<and> it_restarts it = of_nat (offset k kvs (length kvs))
     \<and> it_num_restarts it = num_restarts k (length kvs)"

lemma iterates_offset:
  assumes "iterates k kvs it" and "i \<le> length kvs"
  shows "unat (of_nat (offset k kvs i) :: uint32) = offset k kvs i"
proof -
  have "offset k kvs i \<le> offset k kvs (length kvs)" using assms(2) by (simp add: offset_le_iff)
  also have "\<dots> \<le> length (block_bytes k kvs)" by (simp add: block_bytes_def offset_end)
  finally show ?thesis using assms(1) by (simp add: iterates_def unat_of_nat)
qed

lemma iterates_less:
  assumes "iterates k kvs it" and "i \<le> length kvs" and "j \<le> length kvs"
  shows "(of_nat (offset k kvs i) :: uint32) < of_nat (offset k kvs j) \<longleftrightarrow> i < j"
    and "(of_nat (offset k kvs i) :: uint32) \<le> of_nat (offset k kvs j) \<longleftrightarrow> i \<le> j"
  using assms
  by (simp_all add: word_less_nat_alt word_le_nat_alt iterates_offset offset_less_iff offset_le_iff)

lemma iterates_restart:
  assumes "iterates k kvs it" and "j < num_restarts k (length kvs)"
  shows "GetRestartPoint it j = of_nat (offset k kvs (j * k))"
proof -
  have "unat (it_restarts it) = length (concat (entries k kvs))"
    using assms(1) iterates_offset [OF assms(1), of "length kvs"]
    by (simp add: iterates_def offset_end)
  then have "GetRestartPoint it j = DecodeFixed32 (drop (j * 4)
      (concat (map EncodeFixed32 (restart_array k kvs)) @ EncodeFixed32 (of_nat (num_restarts k (length kvs)))))"
    using assms(1) by (simp add: GetRestartPoint_def iterates_def block_bytes_def)
  also have "\<dots> = restart_array k kvs ! j"
    by (rule DecodeFixed32_array) (use assms(2) in \<open>simp add: restart_array_def\<close>)
  finally show ?thesis using assms(2) by (simp add: restart_array_def)
qed

text \<open>The bytes at entry \<open>i\<close>, up to the restart array and up to the end of the block.\<close>

lemma iterates_bytes:
  assumes "iterates k kvs it" and "i < length kvs"
  defines "e \<equiv> entry_bytes (entry_shared k kvs i) (fst (kvs ! i)) (snd (kvs ! i))"
  shows "drop (offset k kvs i) (take (unat (it_restarts it)) (it_data it))
         = e @ concat (drop (Suc i) (entries k kvs))"
    and "\<exists>z. drop (offset k kvs i) (it_data it) = e @ z"
proof -
  have r: "unat (it_restarts it) = length (concat (entries k kvs))"
    using assms(1) iterates_offset [OF assms(1), of "length kvs"]
    by (simp add: iterates_def offset_end)
  have d: "drop (offset k kvs i) (concat (entries k kvs)) = e @ concat (drop (Suc i) (entries k kvs))"
    using assms(2)
    by (simp add: offset_def drop_concat_take e_def flip: nth_entries Cons_nth_drop_Suc)
  then show "drop (offset k kvs i) (take (unat (it_restarts it)) (it_data it))
         = e @ concat (drop (Suc i) (entries k kvs))"
    using assms(1) r by (simp add: iterates_def block_bytes_def)
  have "offset k kvs i \<le> length (concat (entries k kvs))"
    using assms(2) offset_le_iff [of i kvs "length kvs" k] by (simp add: offset_end)
  with d show "\<exists>z. drop (offset k kvs i) (it_data it) = e @ z"
    using assms(1) by (simp add: iterates_def block_bytes_def)
qed

text \<open>Standing before entry \<open>i\<close>, on entry \<open>i\<close>, and past the last entry.\<close>

definition before_entry :: "nat \<Rightarrow> (slice \<times> slice) list \<Rightarrow> nat \<Rightarrow> Block_Iter \<Rightarrow> bool" where
  "before_entry k kvs i it \<longleftrightarrow>
     iterates k kvs it \<and> it_restart_index it < it_num_restarts it
     \<and> NextEntryOffset it = Some (of_nat (offset k kvs i))
     \<and> (i mod k = 0 \<or> it_key it = fst (kvs ! (i - 1)))"

definition at_entry :: "nat \<Rightarrow> (slice \<times> slice) list \<Rightarrow> nat \<Rightarrow> Block_Iter \<Rightarrow> bool" where
  "at_entry k kvs i it \<longleftrightarrow>
     i < length kvs \<and> before_entry k kvs (Suc i) it \<and> it_current it = of_nat (offset k kvs i)
     \<and> it_key it = fst (kvs ! i) \<and> iter_value it = Some (snd (kvs ! i)) \<and> it_status it = OK"

definition at_end :: "nat \<Rightarrow> (slice \<times> slice) list \<Rightarrow> Block_Iter \<Rightarrow> bool" where
  "at_end k kvs it \<longleftrightarrow> iterates k kvs it \<and> \<not> Valid it \<and> it_status it = OK"

lemma iterates_fields [simp]:
  "iterates k kvs (it\<lparr>it_current := a\<rparr>) = iterates k kvs it"
  "iterates k kvs (it\<lparr>it_restart_index := b\<rparr>) = iterates k kvs it"
  "iterates k kvs (it\<lparr>it_key := d\<rparr>) = iterates k kvs it"
  "iterates k kvs (it\<lparr>it_value := e\<rparr>) = iterates k kvs it"
  by (simp_all add: iterates_def)

lemma advance_restart_less: "i < it_num_restarts it \<Longrightarrow> advance_restart it i < it_num_restarts it"
  by (induction it i rule: advance_restart.induct) (subst advance_restart.simps, auto)

text \<open>What \<open>DecodeEntry\<close> gives at entry \<open>i\<close>: its header is \<open>h\<close> bytes long.\<close>

lemma iterates_decode:
  assumes it: "iterates k kvs it" and i: "i < length kvs"
  defines "key \<equiv> fst (kvs ! i)" and "val \<equiv> snd (kvs ! i)" and "sh \<equiv> entry_shared k kvs i"
    and "p \<equiv> drop (offset k kvs i) (take (unat (it_restarts it)) (it_data it))"
  shows "\<exists>q h. DecodeEntry p = Some (of_nat sh, of_nat (length key - sh), of_nat (length val), q)
    \<and> length p - length q = h
    \<and> take (length key - sh) (drop (offset k kvs i + h) (it_data it)) = drop sh key
    \<and> take (length val) (drop (offset k kvs i + h + (length key - sh)) (it_data it)) = val
    \<and> offset k kvs (Suc i) = offset k kvs i + h + (length key - sh) + length val"
proof -
  define h where "h = length (EncodeVarint32 (of_nat sh) @ EncodeVarint32 (of_nat (length key - sh))
      @ EncodeVarint32 (of_nat (length val)))"
  define rest where "rest = concat (drop (Suc i) (entries k kvs))"
  have sh: "sh \<le> length key" by (simp add: sh_def key_def entry_shared_le)
  have e: "p = entry_bytes sh key val @ rest"
    unfolding p_def sh_def key_def val_def rest_def by (rule iterates_bytes(1) [OF it i])
  have len: "length (entry_bytes sh key val) = h + (length key - sh) + length val"
    by (simp add: entry_bytes_def h_def)
  from iterates_bytes(2) [OF it i, folded sh_def key_def val_def]
  obtain z where z: "drop (offset k kvs i) (it_data it) = entry_bytes sh key val @ z" by blast
  have dat: "drop (offset k kvs i + h) (it_data it) = drop sh key @ val @ z"
  proof -
    have "drop (offset k kvs i + h) (it_data it) = drop h (drop (offset k kvs i) (it_data it))"
      by (simp add: add.commute)
    then show ?thesis unfolding z by (simp add: entry_bytes_def h_def)
  qed
  have val: "drop (offset k kvs i + h + (length key - sh)) (it_data it) = val @ z"
  proof -
    have "drop (offset k kvs i + h + (length key - sh)) (it_data it)
        = drop (length key - sh) (drop (offset k kvs i + h) (it_data it))"
      by (simp add: add.commute)
    then show ?thesis unfolding dat by simp
  qed
  have "length p < 2 ^ 32"
    using unsigned_less [of "it_restarts it", where ?'a = nat] by (simp add: p_def)
  from DecodeEntry_entry [OF sh this [unfolded e]]
  have "DecodeEntry p = Some (of_nat sh, of_nat (length key - sh), of_nat (length val), drop sh key @ val @ rest)"
    by (simp only: e)
  moreover have "length p - length (drop sh key @ val @ rest) = h"
    using sh by (simp add: e entry_bytes_def h_def)
  moreover have "offset k kvs (Suc i) = offset k kvs i + h + (length key - sh) + length val"
    using i len by (simp add: offset_Suc nth_entries sh_def key_def val_def)
  ultimately show ?thesis using dat val by auto
qed

lemma iterates_small:
  assumes "iterates k kvs it" and i: "i < length kvs"
  shows "offset k kvs (Suc i) \<le> length (it_data it)"
    and "unat (of_nat (entry_shared k kvs i) :: uint32) = entry_shared k kvs i"
    and "unat (of_nat (length (fst (kvs ! i)) - entry_shared k kvs i) :: uint32)
         = length (fst (kvs ! i)) - entry_shared k kvs i"
    and "unat (of_nat (length (snd (kvs ! i))) :: uint32) = length (snd (kvs ! i))"
proof -
  have "offset k kvs (Suc i) \<le> offset k kvs (length kvs)" using i by (simp add: offset_le_iff)
  then show o: "offset k kvs (Suc i) \<le> length (it_data it)"
    using assms(1) by (simp add: iterates_def block_bytes_def offset_end)
  have "length (it_data it) < 2 ^ 32" using assms(1) by (simp add: iterates_def)
  moreover have "length (fst (kvs ! i)) \<le> offset k kvs (Suc i)" by (rule key_length_offset [OF i])
  moreover have "length (snd (kvs ! i)) \<le> offset k kvs (Suc i)"
    using i by (simp add: offset_Suc nth_entries entry_bytes_def)
  moreover note entry_shared_le [of k kvs i] o
  ultimately have l: "entry_shared k kvs i < 2 ^ 32"
    "length (fst (kvs ! i)) - entry_shared k kvs i < 2 ^ 32" "length (snd (kvs ! i)) < 2 ^ 32"
    by simp_all
  show "unat (of_nat (entry_shared k kvs i) :: uint32) = entry_shared k kvs i"
    and "unat (of_nat (length (fst (kvs ! i)) - entry_shared k kvs i) :: uint32)
         = length (fst (kvs ! i)) - entry_shared k kvs i"
    and "unat (of_nat (length (snd (kvs ! i))) :: uint32) = length (snd (kvs ! i))"
    using l by (simp_all only: unat_of_nat) simp_all
qed

lemma ParseNextKey_entry:
  assumes b: "before_entry k kvs i it" and i: "i < length kvs" and ok: "it_status it = OK"
  shows "\<exists>it'. ParseNextKey it = Ret () it' \<and> at_entry k kvs i it' \<and> it_comparator it' = it_comparator it"
proof -
  define key val sh where "key = fst (kvs ! i)" and "val = snd (kvs ! i)"
    and "sh = entry_shared k kvs i"
  from b have it: "iterates k kvs it" by (simp add: before_entry_def)
  note off = iterates_offset [OF it less_imp_le [OF i]]
  note small = iterates_small [OF it i, folded sh_def key_def val_def]
  from iterates_decode [OF it i, folded sh_def key_def val_def] obtain q h where
    d: "DecodeEntry (drop (offset k kvs i) (take (unat (it_restarts it)) (it_data it)))
        = Some (of_nat sh, of_nat (length key - sh), of_nat (length val), q)" and
    hp: "length (drop (offset k kvs i) (take (unat (it_restarts it)) (it_data it))) - length q = h" and
    kb: "take (length key - sh) (drop (offset k kvs i + h) (it_data it)) = drop sh key" and
    vb: "take (length val) (drop (offset k kvs i + h + (length key - sh)) (it_data it)) = val" and
    Suc: "offset k kvs (Suc i) = offset k kvs i + h + (length key - sh) + length val" by blast
  have dlen: "\<not> length (it_data it) < offset k kvs i + h + (length key - sh)" using small(1) Suc by simp
  have pre: "\<not> length (it_key it) < sh" "take sh (it_key it) @ drop sh key = key"
    using b shared_prefix_le(1) [of "fst (kvs ! (i - 1))" key] shared_prefix_take [of "fst (kvs ! (i - 1))" key]
    by (auto simp: before_entry_def sh_def entry_shared_def key_def)
  have n: "NextEntryOffset it = Some (of_nat (offset k kvs i))"
    "\<not> it_restarts it \<le> of_nat (offset k kvs i)"
    using b it i iterates_less(2) [OF it, of "length kvs" i] by (simp_all add: before_entry_def iterates_def)
  define it1 where "it1 = it\<lparr>it_current := of_nat (offset k kvs i), it_key := key,
      it_value := Some (offset k kvs i + h + (length key - sh), length val)\<rparr>"
  define it' where "it' = it1\<lparr>it_restart_index := advance_restart it1 (it_restart_index it)\<rparr>"
  have parse: "ParseNextKey it = Ret () it'"
    unfolding ParseNextKey_def n(1) Let_def off option.case Block_Iter.simps
    using n(2) pre dlen
    by (simp only: d if_False option.case prod.case small hp) (simp add: it'_def it1_def kb)
  moreover have "iter_value it' = Some val"
    using small(1) Suc vb by (simp add: it'_def it1_def iter_value_def)
  moreover have "NextEntryOffset it' = Some (of_nat (offset k kvs (Suc i)))"
    unfolding Suc by (simp add: it'_def it1_def NextEntryOffset_def del: of_nat_add)
  moreover have "it_restart_index it' < it_num_restarts it'"
    using b advance_restart_less [of "it_restart_index it" it1]
    by (simp add: it'_def it1_def before_entry_def)
  ultimately have "at_entry k kvs i it'"
    using it i ok by (simp add: at_entry_def before_entry_def it'_def it1_def key_def val_def)
  with parse show ?thesis by (simp add: it'_def it1_def)
qed

lemma ParseNextKey_end:
  assumes "before_entry k kvs (length kvs) it" and "it_status it = OK"
  shows "\<exists>it'. ParseNextKey it = Fail it' \<and> at_end k kvs it'"
  using assms
  by (simp add: ParseNextKey_def before_entry_def at_end_def Valid_def iterates_def)

section \<open>The operations as moves\<close>

definition ready :: "nat \<Rightarrow> (slice \<times> slice) list \<Rightarrow> Comparator \<Rightarrow> Block_Iter \<Rightarrow> bool" where
  "ready k kvs c it \<longleftrightarrow> iterates k kvs it \<and> it_status it = OK \<and> it_comparator it = c"

text \<open>Where an operation leaves the iterator: on an entry, or past the last one.\<close>

definition arrives :: "nat \<Rightarrow> (slice \<times> slice) list \<Rightarrow> Comparator \<Rightarrow> nat \<Rightarrow> Block_Iter option \<Rightarrow> bool" where
  "arrives k kvs c i res \<longleftrightarrow>
     (\<exists>it. res = Some it \<and> it_comparator it = c
        \<and> (if i < length kvs then at_entry k kvs i it else at_end k kvs it))"

lemma ready_SeekToRestartPoint:
  assumes "ready k kvs c it" and "r < num_restarts k (length kvs)"
  shows "before_entry k kvs (r * k) (SeekToRestartPoint r it)"
    and "it_status (SeekToRestartPoint r it) = OK" and "it_comparator (SeekToRestartPoint r it) = c"
proof -
  from assms have it: "iterates k kvs it" and "it_num_restarts it = num_restarts k (length kvs)"
    by (simp_all add: ready_def iterates_def)
  with assms show "before_entry k kvs (r * k) (SeekToRestartPoint r it)"
    by (simp add: before_entry_def SeekToRestartPoint_def NextEntryOffset_def iterates_restart [OF it])
  show "it_status (SeekToRestartPoint r it) = OK" "it_comparator (SeekToRestartPoint r it) = c"
    using assms(1) by (simp_all add: ready_def SeekToRestartPoint_def)
qed

lemma ParseNextKey_comparator:
  "ParseNextKey it = Fail it' \<Longrightarrow> it_comparator it' = it_comparator it"
  by (auto simp: ParseNextKey_def CorruptionError_def Let_def split: option.splits if_splits)

lemma ParseNextKey_arrives:
  assumes "before_entry k kvs i it" and "it_status it = OK" and "i \<le> length kvs"
  shows "arrives k kvs (it_comparator it) i (res_state (ParseNextKey it))"
proof (cases "i < length kvs")
  case True
  with ParseNextKey_entry [OF assms(1) _ assms(2)] show ?thesis by (auto simp: arrives_def)
next
  case False
  with assms(3) have i: "i = length kvs" by simp
  from ParseNextKey_end [OF assms(1) [unfolded i] assms(2)] i ParseNextKey_comparator [of it]
  show ?thesis by (auto simp: arrives_def)
qed

text \<open>The loops over \<open>ParseNextKey\<close> stop at the first entry that satisfies their condition.\<close>

lemma parse_until_arrives:
  assumes "before_entry k kvs i it" and "it_status it = OK" and "it_comparator it = c"
    and stop: "\<And>j it'. at_entry k kvs j it' \<Longrightarrow> it_comparator it' = c \<Longrightarrow> stop it' \<longleftrightarrow> Q j"
    and "i \<le> j" and "j \<le> length kvs" and "\<forall>m. i \<le> m \<and> m < j \<longrightarrow> \<not> Q m" and "j < length kvs \<longrightarrow> Q j"
  shows "arrives k kvs c j (res_state (parse_until stop it))"
  using assms(1-3,5-)
proof (induction "j - i" arbitrary: i it)
  case 0
  then have ij: "i = j" by simp
  show ?case
  proof (cases "i < length kvs")
    case True
    from ParseNextKey_entry [OF "0.prems"(1) this "0.prems"(2)] obtain it'
      where "ParseNextKey it = Ret () it'" "at_entry k kvs i it'" "it_comparator it' = c"
      using "0.prems"(3) by auto
    with True ij "0.prems" stop show ?thesis
      by (subst parse_until.simps) (simp add: arrives_def)
  next
    case False
    with ij "0.prems"(5) have i: "i = length kvs" by simp
    from ParseNextKey_end [OF "0.prems"(1) [unfolded i] "0.prems"(2)] obtain it'
      where "ParseNextKey it = Fail it'" "at_end k kvs it'" by blast
    with i ij "0.prems"(3) ParseNextKey_comparator [of it it'] show ?thesis
      by (subst parse_until.simps) (simp add: arrives_def)
  qed
next
  case (Suc d)
  then have i: "i < j" "i < length kvs" by simp_all
  from ParseNextKey_entry [OF Suc.prems(1) i(2) Suc.prems(2)] obtain it'
    where it': "ParseNextKey it = Ret () it'" "at_entry k kvs i it'" "it_comparator it' = c"
    using Suc.prems(3) by auto
  have "\<not> stop it'" using stop [OF it'(2,3)] Suc.prems(6) i by auto
  moreover have "arrives k kvs c j (res_state (parse_until stop it'))"
    by (rule Suc.hyps(1) [of "Suc i"]) (use Suc it' i in \<open>auto simp: at_entry_def\<close>)
  ultimately show ?case using it'(1) by (subst parse_until.simps) simp
qed

lemma arrives_ready:
  assumes "arrives k kvs c i res"
  obtains it where "res = Some it" "ready k kvs c it"
    "Valid it \<longleftrightarrow> i < length kvs"
    "i < length kvs \<longrightarrow> it_key it = fst (kvs ! i) \<and> iter_value it = Some (snd (kvs ! i))"
proof -
  from assms obtain it where it: "res = Some it" "it_comparator it = c"
    "if i < length kvs then at_entry k kvs i it else at_end k kvs it" by (auto simp: arrives_def)
  have "ready k kvs c it" "Valid it \<longleftrightarrow> i < length kvs"
    using it iterates_less(1) [of k kvs it i "length kvs"]
    by (auto simp: ready_def at_entry_def at_end_def before_entry_def Valid_def iterates_def split: if_splits)
  with it that show thesis by (auto simp: at_entry_def)
qed

theorem SeekToFirst_arrives:
  assumes "ready k kvs c it"
  shows "arrives k kvs c 0 (SeekToFirst it)"
  using ready_SeekToRestartPoint [OF assms, of 0] ParseNextKey_arrives [of k kvs 0 "SeekToRestartPoint 0 it"]
  by (simp add: SeekToFirst_def)

theorem Next_arrives:
  assumes "at_entry k kvs i it"
  shows "arrives k kvs (it_comparator it) (Suc i) (Next it)"
  using assms ParseNextKey_arrives [of k kvs "Suc i" it] by (simp add: Next_def at_entry_def)

lemma at_entry_NextOffset:
  "at_entry k kvs j it \<Longrightarrow> NextEntryOffset it = Some (of_nat (offset k kvs (Suc j))) \<and> j < length kvs
     \<and> iterates k kvs it \<and> it_restarts it = of_nat (offset k kvs (length kvs))"
  by (simp add: at_entry_def before_entry_def iterates_def)

theorem SeekToLast_arrives:
  assumes "ready k kvs c it"
  shows "arrives k kvs c (length kvs - 1) (SeekToLast it)"
proof (cases "kvs = []")
  case True
  from assms True have n: "it_num_restarts it = 1"
    by (simp add: ready_def iterates_def num_restarts_def)
  show ?thesis
    using ready_SeekToRestartPoint [OF assms, of 0] True
    unfolding SeekToLast_def n
    by (intro parse_until_arrives [where i = 0 and Q = "\<lambda>_. True"]) (auto simp: at_entry_def)
next
  case False
  let ?r = "num_restarts k (length kvs) - 1"
  have r: "?r * k < length kvs" "it_num_restarts it - 1 = ?r"
    using num_restarts_less [of k kvs ?r] False assms by (simp_all add: ready_def iterates_def)
  note s = ready_SeekToRestartPoint [OF assms, of ?r]
  show ?thesis
    unfolding SeekToLast_def r(2)
  proof (rule parse_until_arrives [where i = "?r * k" and Q = "\<lambda>j. j = length kvs - 1"])
    fix j it'
    assume "at_entry k kvs j it'"
    from at_entry_NextOffset [OF this] iterates_less(1) [of k kvs it' "Suc j" "length kvs"]
    show "(case NextEntryOffset it' of None \<Rightarrow> True | Some b \<Rightarrow> \<not> b < it_restarts it')
        \<longleftrightarrow> j = length kvs - 1"
      by auto
  qed (use s r False in auto)
qed

lemma prev_restart_finds:
  assumes "iterates k kvs it" and "m < length kvs" and "i < num_restarts k (length kvs)"
  shows "if m = 0 then prev_restart it (of_nat (offset k kvs m)) i = None
         else \<exists>r. prev_restart it (of_nat (offset k kvs m)) i = Some r \<and> r < num_restarts k (length kvs)
                \<and> r * k < m"
  using assms(3)
proof (induction i)
  case 0
  have "GetRestartPoint it 0 = 0" using iterates_restart [OF assms(1), of 0] by simp
  then show ?case
    using iterates_less(2) [OF assms(1), of m 0] assms(2)
    by (subst (1 2) prev_restart.simps) auto
next
  case (Suc i)
  have lt: "Suc i * k < length kvs"
    using num_restarts_less [of k kvs "Suc i"] assms Suc.prems by (cases kvs) (auto simp: iterates_def)
  then have "GetRestartPoint it (Suc i) \<ge> of_nat (offset k kvs m) \<longleftrightarrow> m \<le> Suc i * k"
    using iterates_restart [OF assms(1) Suc.prems] iterates_less(2) [OF assms(1), of m "Suc i * k"] assms(2)
    by simp
  with Suc assms show ?case by (subst (1 2) prev_restart.simps) auto
qed

theorem Prev_arrives:
  assumes "at_entry k kvs i it"
  shows "arrives k kvs (it_comparator it) (if i = 0 then length kvs else i - 1) (Prev it)"
proof -
  let ?c = "it_comparator it"
  from assms have i: "i < length kvs" and it: "iterates k kvs it" and cur: "it_current it = of_nat (offset k kvs i)"
    and ri: "it_restart_index it < num_restarts k (length kvs)" and ok: "it_status it = OK"
    and rd: "ready k kvs ?c it"
    by (auto simp: at_entry_def before_entry_def ready_def iterates_def)
  note pr = prev_restart_finds [OF it i ri, folded cur]
  show ?thesis
  proof (cases "i = 0")
    case True
    with pr it ok show ?thesis by (simp add: Prev_def arrives_def at_end_def Valid_def)
  next
    case False
    with pr obtain r where r: "prev_restart it (it_current it) (it_restart_index it) = Some r"
      "r < num_restarts k (length kvs)" "r * k < i" by auto
    note s = ready_SeekToRestartPoint [OF rd r(2)]
    have "arrives k kvs ?c (i - 1) (res_state (parse_until
        (\<lambda>it'. case NextEntryOffset it' of Some b \<Rightarrow> \<not> b < it_current it | None \<Rightarrow> True)
        (SeekToRestartPoint r it)))"
    proof (rule parse_until_arrives [OF s, where Q = "\<lambda>j. \<not> Suc j < i"])
      fix j it'
      assume "at_entry k kvs j it'"
      from at_entry_NextOffset [OF this] iterates_less(1) [of k kvs it' "Suc j" i] i
      show "(case NextEntryOffset it' of None \<Rightarrow> True | Some b \<Rightarrow> \<not> b < it_current it) \<longleftrightarrow> \<not> Suc j < i"
        by (simp add: cur)
    qed (use r False i in auto)
    with r(1) False show ?thesis by (simp add: Prev_def Let_def)
  qed
qed

text \<open>The binary search ends at a restart point below the target, or at the first one.\<close>

lemma seek_search_finds:
  assumes it: "iterates k kvs it" and "kvs \<noteq> []"
    and "left \<le> right" and "right < num_restarts k (length kvs)"
    and "left = 0 \<or> Compare (it_comparator it) (fst (kvs ! (left * k))) target < 0"
  shows "\<exists>r. seek_search it target left right = Ret r it \<and> r < num_restarts k (length kvs)
    \<and> (r = 0 \<or> Compare (it_comparator it) (fst (kvs ! (r * k))) target < 0)"
  using assms(3-5)
proof (induction "right - left" arbitrary: left right rule: less_induct)
  case less
  let ?c = "Compare (it_comparator it)"
  show ?case
  proof (cases "left < right")
    case False
    with less.prems show ?thesis by (subst seek_search.simps) simp
  next
    case True
    define mid where "mid = (left + right + 1) div 2"
    have mid: "left < mid" "mid \<le> right" using True by (auto simp: mid_def)
    define i where "i = mid * k"
    have i: "i < length kvs"
      using num_restarts_less [of k kvs mid] assms(1,2) mid less.prems by (simp add: i_def iterates_def)
    have sh: "entry_shared k kvs i = 0" by (simp add: entry_shared_def i_def)
    have g: "unat (GetRestartPoint it mid) = offset k kvs i"
      using iterates_restart [OF it, of mid] iterates_offset [OF it, of i] mid less.prems i
      by (simp add: i_def)
    note small = iterates_small [OF it i, unfolded sh]
    from iterates_decode [OF it i, unfolded sh] obtain q h where
      d: "DecodeEntry (drop (offset k kvs i) (take (unat (it_restarts it)) (it_data it)))
        = Some (of_nat 0, of_nat (length (fst (kvs ! i)) - 0), of_nat (length (snd (kvs ! i))), q)" and
      hp: "length (drop (offset k kvs i) (take (unat (it_restarts it)) (it_data it))) - length q = h" and
      kb: "take (length (fst (kvs ! i)) - 0) (drop (offset k kvs i + h) (it_data it)) = drop 0 (fst (kvs ! i))" and
      Suc: "offset k kvs (Suc i) = offset k kvs i + h + (length (fst (kvs ! i)) - 0) + length (snd (kvs ! i))"
      by blast
    have dlen: "\<not> length (it_data it) < offset k kvs i + h + (length (fst (kvs ! i)) - 0)"
      using small(1) Suc by simp
    have step: "seek_search it target left right =
        (if ?c (fst (kvs ! i)) target < 0 then seek_search it target mid right
         else seek_search it target left (mid - 1))"
      using True
      by (subst seek_search.simps)
         ((simp only: mid_def [symmetric] Let_def g if_True d [unfolded of_nat_0] option.case prod.case hp small(3) kb drop_0
           simp_thms if_False dlen), simp)
    show ?thesis
    proof (cases "?c (fst (kvs ! i)) target < 0")
      case True
      then show ?thesis
        using less.hyps [of right mid] mid less.prems step by (simp add: i_def)
    next
      case False
      then show ?thesis
        using less.hyps [of "mid - 1" left] mid less.prems step by simp
    qed
  qed
qed

theorem Seek_arrives:
  assumes "key_preorder (Compare c) valid" and "key_preorder.increasing (Compare c) valid (map fst kvs)"
    and "valid target" and "ready k kvs c it"
  shows "arrives k kvs c (length (takeWhile (\<lambda>kv. Compare c (fst kv) target < 0) kvs)) (Seek target it)"
proof -
  let ?less = "\<lambda>kv. Compare c (fst kv) target < 0"
  let ?j = "length (takeWhile ?less kvs)"
  note pre = assms(1)
  from assms(4) have it: "iterates k kvs it" and c: "it_comparator it = c" by (simp_all add: ready_def)
  have num: "it_num_restarts it = num_restarts k (length kvs)" using it by (simp add: iterates_def)
  have below: "\<not> ?less (kvs ! m) \<longleftrightarrow> ?j \<le> m" if "m < length kvs" for m
  proof
    assume "\<not> ?less (kvs ! m)"
    with that show "?j \<le> m" by (metis not_le nth_length_takeWhile set_takeWhileD takeWhile_nth nth_mem)
  next
    assume le: "?j \<le> m"
    with that have j: "?j < length kvs" by simp
    then have nj: "\<not> ?less (kvs ! ?j)" by (rule nth_length_takeWhile)
    show "\<not> ?less (kvs ! m)"
    proof (cases "m = ?j")
      case False
      with le that have "Compare c (fst (kvs ! ?j)) (fst (kvs ! m)) < 0"
        "valid (fst (kvs ! ?j))" "valid (fst (kvs ! m))"
        using pre assms(2) j sorted_wrt_nth_less [of _ kvs ?j m]
        by (auto simp: key_preorder.increasing_def sorted_wrt_map)
      with nj key_preorder.cmp_trans [OF pre, of "fst (kvs ! ?j)" "fst (kvs ! m)" target] assms(3)
      show ?thesis by auto
    qed (use nj in simp)
  qed
  have "\<exists>r. seek_search it target 0 (num_restarts k (length kvs) - 1) = Ret r it
      \<and> r < num_restarts k (length kvs) \<and> r * k \<le> ?j"
  proof (cases "kvs = []")
    case True
    then show ?thesis
      by (intro exI [of _ 0]) (simp add: num_restarts_def, subst seek_search.simps, simp)
  next
    case False
    from seek_search_finds [OF it this, of 0 "num_restarts k (length kvs) - 1" target]
    obtain r where r: "seek_search it target 0 (num_restarts k (length kvs) - 1) = Ret r it"
      "r < num_restarts k (length kvs)" "r = 0 \<or> ?less (kvs ! (r * k))" using c by auto
    have "r * k < length kvs"
      using num_restarts_less [OF _ False r(2)] it by (simp add: iterates_def)
    with r below [of "r * k"] show ?thesis by auto
  qed
  then obtain r where r: "seek_search it target 0 (it_num_restarts it - 1) = Ret r it"
    "r < num_restarts k (length kvs)" "r * k \<le> ?j" unfolding num by blast
  have "arrives k kvs c ?j (res_state (parse_until (\<lambda>it. Compare (it_comparator it) (it_key it) target \<ge> 0)
      (SeekToRestartPoint r it)))"
  proof (rule parse_until_arrives [OF ready_SeekToRestartPoint [OF assms(4) r(2)], where Q = "\<lambda>m. ?j \<le> m"])
    fix m it'
    assume "at_entry k kvs m it'" and "it_comparator it' = c"
    then show "Compare (it_comparator it') (it_key it') target \<ge> 0 \<longleftrightarrow> ?j \<le> m"
      using below [of m] by (simp add: at_entry_def not_less)
  qed (use r(3) length_takeWhile_le [of ?less kvs] in auto)
  then show ?thesis using r(1) by (simp add: Seek_def)
qed

section \<open>Opening a built block\<close>

lemma Block_of_layout:
  assumes "0 < k" and "length (block_bytes k kvs) < 2 ^ 32"
  shows "\<exists>it. Block_NewIterator c (make_Block (block_bytes k kvs)) = Iter it \<and> ready k kvs c it"
proof -
  let ?b = "block_bytes k kvs" and ?n = "num_restarts k (length kvs)"
  have len: "length ?b = offset k kvs (length kvs) + 4 * ?n + 4"
  proof -
    have "length (concat (map EncodeFixed32 rs)) = 4 * length rs" for rs by (induction rs) simp_all
    then show ?thesis by (simp only: block_bytes_def length_append) (simp add: offset_end restart_array_def)
  qed
  have n: "unat (of_nat ?n :: uint32) = ?n" "unat (1 + of_nat ?n :: uint32) = Suc ?n"
  proof -
    have "?n + 1 < 2 ^ 32" using len assms(2) by simp
    then have "unat (of_nat ?n :: uint32) = ?n" "unat (of_nat (Suc ?n) :: uint32) = Suc ?n"
      by (simp_all only: unat_of_nat) simp_all
    then show "unat (of_nat ?n :: uint32) = ?n" "unat (1 + of_nat ?n :: uint32) = Suc ?n" by simp_all
  qed
  have nr: "NumRestarts ?b (length ?b) = of_nat ?n"
  proof -
    have "length ?b - 4 = length (concat (entries k kvs) @ concat (map EncodeFixed32 (restart_array k kvs)))"
      by (simp add: block_bytes_def)
    then have "drop (length ?b - 4) ?b = EncodeFixed32 (of_nat ?n)" by (simp add: block_bytes_def)
    then show ?thesis using DecodeFixed32_Encode [of "of_nat ?n" "[]"] by (simp add: NumRestarts_def)
  qed
  have "make_Block ?b = \<lparr>block_data = ?b, block_size = length ?b,
      block_restart_offset = of_nat (offset k kvs (length kvs))\<rparr>"
    unfolding make_Block_def Let_def nr n using len by simp
  moreover have "(of_nat ?n :: uint32) \<noteq> 0" using n(1) num_restarts_pos [of k "length kvs"] by force
  ultimately show ?thesis
    using assms nr n len
    by (simp add: Block_NewIterator_def make_Iter_def ready_def iterates_def)
qed

section \<open>Scanning\<close>

text \<open>A client's loop \<open>for (it->SeekToFirst(); it->Valid(); it->Next())\<close>, or its mirror image: the
  pairs it sees and the status at its end. \<open>None\<close> is undefined behaviour, or a loop that has not
  ended after the given number of rounds.\<close>

fun scan :: "(Block_Iter \<Rightarrow> Block_Iter option) \<Rightarrow> nat \<Rightarrow> Block_Iter option
    \<Rightarrow> ((slice \<times> slice) list \<times> Status) option" where
  "scan move n None = None"
| "scan move 0 (Some it) = (if Valid it then None else Some ([], it_status it))"
| "scan move (Suc n) (Some it) =
     (if Valid it
      then (case iter_value it of
              None \<Rightarrow> None
            | Some v \<Rightarrow> (case scan move n (move it) of
                           None \<Rightarrow> None
                         | Some (kvs, st) \<Rightarrow> Some ((it_key it, v) # kvs, st)))
      else Some ([], it_status it))"

lemma scan_end: "arrives k kvs c i res \<Longrightarrow> \<not> i < length kvs \<Longrightarrow> scan move n res = Some ([], OK)"
  by (cases n) (auto elim!: arrives_ready simp: ready_def)

lemma arrives_entry:
  assumes "arrives k kvs c i res" and "i < length kvs"
  obtains it where "res = Some it" "at_entry k kvs i it" "it_comparator it = c" "Valid it"
    "it_key it = fst (kvs ! i)" "iter_value it = Some (snd (kvs ! i))"
  using assms arrives_ready [OF assms(1)] by (auto simp: arrives_def)

lemma scan_Next:
  "arrives k kvs c i res \<Longrightarrow> i + n = length kvs \<Longrightarrow> scan Next n res = Some (drop i kvs, OK)"
proof (induction n arbitrary: i res)
  case 0
  then show ?case using scan_end [OF 0(1)] by simp
next
  case (Suc n)
  then have i: "i < length kvs" by simp
  from arrives_entry [OF Suc.prems(1) i] obtain it where it: "res = Some it" "at_entry k kvs i it"
    "it_comparator it = c" "Valid it" "it_key it = fst (kvs ! i)" "iter_value it = Some (snd (kvs ! i))" .
  have "scan Next n (Next it) = Some (drop (Suc i) kvs, OK)"
    by (rule Suc.IH) (use Next_arrives [OF it(2)] it(3) Suc.prems(2) in simp_all)
  with it i show ?case by (simp flip: Cons_nth_drop_Suc)
qed

lemma scan_Prev:
  "arrives k kvs c i res \<Longrightarrow> i < length kvs \<Longrightarrow>
   scan Prev (Suc i) res = Some (rev (take (Suc i) kvs), OK)"
proof (induction i arbitrary: res)
  case 0
  from arrives_entry [OF 0(1,2)] obtain it where it: "res = Some it" "at_entry k kvs 0 it"
    "it_comparator it = c" "Valid it" "it_key it = fst (kvs ! 0)" "iter_value it = Some (snd (kvs ! 0))" .
  have "scan Prev 0 (Prev it) = Some ([], OK)"
    by (rule scan_end [of k kvs "it_comparator it" "length kvs"]) (use Prev_arrives [OF it(2)] in simp_all)
  with it 0 show ?case by (simp add: take_Suc_conv_app_nth)
next
  case (Suc i)
  from arrives_entry [OF Suc.prems] obtain it where it: "res = Some it" "at_entry k kvs (Suc i) it"
    "it_comparator it = c" "Valid it" "it_key it = fst (kvs ! Suc i)"
    "iter_value it = Some (snd (kvs ! Suc i))" .
  have "scan Prev (Suc i) (Prev it) = Some (rev (take (Suc i) kvs), OK)"
    by (rule Suc.IH) (use Prev_arrives [OF it(2)] it(3) Suc.prems(2) in simp_all)
  with it Suc.prems show ?case by (simp add: take_Suc_conv_app_nth [of "Suc i"])
qed

section \<open>Properties\<close>

text \<open>C17: let a \<open>BlockBuilder\<close> with any positive restart interval be fed any list of
  key/value pairs and finished, the result being shorter than four gigabytes. Then \<open>Block\<close> accepts
  it, and an iterator over it that is moved from \<open>SeekToFirst\<close> by \<open>Next\<close> sees exactly these pairs in
  order, one moved from \<open>SeekToLast\<close> by \<open>Prev\<close> sees them in reverse order; both loops end after as
  many rounds as there are pairs, with status OK and no undefined behaviour.\<close>

theorem block_scan:
  assumes "0 < interval" and "length (fst (BlockBuilder_Finish (build interval kvs))) < 2 ^ 32"
  shows "case Block_NewIterator c (make_Block (fst (BlockBuilder_Finish (build interval kvs)))) of
      Iter it \<Rightarrow> scan Next (length kvs) (SeekToFirst it) = Some (kvs, OK)
        \<and> scan Prev (length kvs) (SeekToLast it) = Some (rev kvs, OK)
    | _ \<Rightarrow> False"
proof -
  note f = Finish_layout [OF assms(1)]
  from Block_of_layout [OF assms(1) assms(2) [unfolded f], of c] obtain it
    where it: "Block_NewIterator c (make_Block (block_bytes interval kvs)) = Iter it"
      "ready interval kvs c it" by blast
  have "scan Next (length kvs) (SeekToFirst it) = Some (kvs, OK)"
    using scan_Next [OF SeekToFirst_arrives [OF it(2)], of "length kvs"] by simp
  moreover have "scan Prev (length kvs) (SeekToLast it) = Some (rev kvs, OK)"
  proof (cases "kvs = []")
    case True
    with scan_end [OF SeekToLast_arrives [OF it(2)]] show ?thesis by simp
  next
    case False
    with scan_Prev [OF SeekToLast_arrives [OF it(2)]] show ?thesis by simp
  qed
  ultimately show ?thesis by (simp add: f it(1))
qed

theorem block_scan_witness:
  "case Block_NewIterator BytewiseComparator
      (make_Block (fst (BlockBuilder_Finish (build 2 [([1, 2], [7]), ([1, 3], []), ([1, 3, 0], [9])])))) of
      Iter it \<Rightarrow> scan Next 3 (SeekToFirst it) = Some ([([1, 2], [7]), ([1, 3], []), ([1, 3, 0], [9])], OK)
        \<and> scan Prev 3 (SeekToLast it) = Some ([([1, 3, 0], [9]), ([1, 3], []), ([1, 2], [7])], OK)
    | _ \<Rightarrow> False"
proof -
  have "length (fst (BlockBuilder_Finish (build 2 [([1, 2], [7]), ([1, 3], []), ([1, 3, 0], [9])]))) < 2 ^ 32"
    by (simp add: build_def make_BlockBuilder_def BlockBuilder_Add_def BlockBuilder_Finish_def
        Let_def PutVarint32_def EncodeVarint32_def PutFixed32_def)
  then show ?thesis
    using block_scan [of 2 "[([1, 2], [7]), ([1, 3], []), ([1, 3, 0], [9])]" BytewiseComparator]
    by (auto simp: numeral_3_eq_3 split: block_iterator.splits)
qed

text \<open>C18: on such a block, built from pairs whose keys increase in the order of the
  comparator, \<open>Seek(target)\<close> brings an iterator to the first pair whose key is not below the target,
  and past the end when there is none, wherever the binary search over the restart points led.\<close>

theorem block_seek:
  assumes "key_preorder (Compare c) valid" and "key_preorder.increasing (Compare c) valid (map fst kvs)"
    and "valid target" and "0 < interval"
    and "length (fst (BlockBuilder_Finish (build interval kvs))) < 2 ^ 32"
  shows "case Block_NewIterator c (make_Block (fst (BlockBuilder_Finish (build interval kvs)))) of
      Iter it \<Rightarrow>
        (case (dropWhile (\<lambda>kv. Compare c (fst kv) target < 0) kvs, Seek target it) of
           ((key, val) # _, Some it') \<Rightarrow> Valid it' \<and> it_key it' = key \<and> iter_value it' = Some val
         | ([], Some it') \<Rightarrow> \<not> Valid it' \<and> it_status it' = OK
         | (_, None) \<Rightarrow> False)
    | _ \<Rightarrow> False"
proof -
  note f = Finish_layout [OF assms(4)]
  let ?less = "\<lambda>kv. Compare c (fst kv) target < 0"
  let ?j = "length (takeWhile ?less kvs)"
  from Block_of_layout [OF assms(4) assms(5) [unfolded f], of c] obtain it
    where it: "Block_NewIterator c (make_Block (block_bytes interval kvs)) = Iter it"
      "ready interval kvs c it" by blast
  have d: "dropWhile ?less kvs = drop ?j kvs" by (rule dropWhile_eq_drop)
  from arrives_ready [OF Seek_arrives [OF assms(1-3) it(2)]] obtain it' where
    it': "Seek target it = Some it'" "ready interval kvs c it'" "Valid it' \<longleftrightarrow> ?j < length kvs"
    "?j < length kvs \<longrightarrow> it_key it' = fst (kvs ! ?j) \<and> iter_value it' = Some (snd (kvs ! ?j))" .
  show ?thesis
  proof (cases "?j < length kvs")
    case True
    then have e: "dropWhile ?less kvs = kvs ! ?j # drop (Suc ?j) kvs" by (simp add: d Cons_nth_drop_Suc)
    show ?thesis
      unfolding f it(1) block_iterator.case e it'(1) using True it' by (simp split: prod.split)
  next
    case False
    then have e: "dropWhile ?less kvs = []" by (simp add: d)
    show ?thesis
      unfolding f it(1) block_iterator.case e it'(1) using False it' by (simp add: ready_def)
  qed
qed

theorem block_seek_witness:
  "case Block_NewIterator BytewiseComparator
      (make_Block (fst (BlockBuilder_Finish (build 1 [([1], [7]), ([3], []), ([4], [9])])))) of
      Iter it \<Rightarrow> (case Seek [2] it of
          Some it' \<Rightarrow> Valid it' \<and> it_key it' = [3] \<and> iter_value it' = Some []
        | None \<Rightarrow> False)
    | _ \<Rightarrow> False"
proof -
  have "length (fst (BlockBuilder_Finish (build 1 [([1], [7]), ([3], []), ([4], [9])]))) < 2 ^ 32"
    by (simp add: build_def make_BlockBuilder_def BlockBuilder_Add_def BlockBuilder_Finish_def
        Let_def PutVarint32_def EncodeVarint32_def PutFixed32_def)
  moreover have "key_preorder.increasing (Compare BytewiseComparator) (\<lambda>_. True) (map fst [([1], [7]), ([3], []), ([4], [9])])"
    unfolding bytewise.increasing_def by (simp add: BytewiseComparator_def)
  moreover have "dropWhile (\<lambda>kv. Compare BytewiseComparator (fst kv) [2] < 0)
      [([1], [7]), ([3], []), ([4], [9])] = [([3], []), ([4], [9 :: byte])]"
    by (simp add: BytewiseComparator_def)
  ultimately show ?thesis
    using block_seek [of BytewiseComparator "\<lambda>_. True" "[([1], [7]), ([3], []), ([4], [9])]" "[2]" 1]
      bytewise.key_preorder_axioms
    by (simp split: block_iterator.splits option.splits)
qed

text \<open>C36: \<open>DecodeEntry\<close> adds the two lengths of an entry in \<open>uint32_t\<close>, so
  an entry whose key delta claims \<open>n\<close> bytes and whose value claims \<open>2^32 - n\<close> bytes is accepted although
  nothing follows it, for every \<open>n > 0\<close>. A block that consists of this entry and a correct restart array is
  accepted by \<open>Block\<close>. \<open>SeekToFirst\<close> reports no corruption: if \<open>n > 8\<close> it reads the key past the
  end of the block, which is undefined; otherwise it is valid, with a value of \<open>2^32 - n\<close> bytes that starts inside the
  block or at its end and reaches past it.\<close>

theorem block_entry_overflow:
  fixes n :: uint32
  defines "e \<equiv> EncodeVarint32 0 @ EncodeVarint32 n @ EncodeVarint32 (- n)"
  defines "b \<equiv> e @ EncodeFixed32 0 @ EncodeFixed32 1"
  assumes "0 < n"
  shows "DecodeEntry e = Some (0, n, - n, [])
    \<and> (case Block_NewIterator c (make_Block b) of
         Iter it \<Rightarrow> it_status it = OK
           \<and> (if 8 < n then length b < length e + unat n \<and> ParseNextKey (SeekToRestartPoint 0 it) = Undef \<and> SeekToFirst it = None
              else (case SeekToFirst it of
                      None \<Rightarrow> False
                    | Some it' \<Rightarrow> Valid it' \<and> it_status it' = OK \<and> it_value it' = Some (length e + unat n, 2 ^ 32 - unat n)
                        \<and> iter_value it' = None))
       | _ \<Rightarrow> False)"
proof -
  have le: "length e \<le> 15" "0 < length e"
    using length_EncodeVarint32 [of 0] length_EncodeVarint32 [of n] length_EncodeVarint32 [of "- n"]
    by (simp_all add: e_def)
  have len: "length b = length e + 8" by (simp add: b_def)
  have two: "unat (1 + 1 :: uint32) = 2" by simp
  have nr: "NumRestarts b (length b) = 1"
    using DecodeFixed32_Encode [of 1 "[]"] by (simp add: NumRestarts_def b_def)
  have blk: "make_Block b = \<lparr>block_data = b, block_size = length b, block_restart_offset = of_nat (length e)\<rparr>"
    unfolding make_Block_def Let_def nr two using len by simp
  define it where "it = make_Iter c b (of_nat (length e)) 1"
  have it: "Block_NewIterator c (make_Block b) = Iter it"
    using len nr by (simp add: blk Block_NewIterator_def it_def)
  have ue: "unat (of_nat (length e) :: uint32) = length e" using le by (simp add: unat_of_nat)
  have g: "GetRestartPoint it 0 = 0"
    using DecodeFixed32_Encode [of 0 "EncodeFixed32 1"] ue
    by (simp add: GetRestartPoint_def it_def make_Iter_def b_def)
  have d: "DecodeEntry e = Some (0, n, - n, [])"
    using DecodeEntry_varints [of 0 n "- n" "[]"] by (simp add: e_def)
  have f: "it_restarts it = of_nat (length e)" "it_data it = b" "it_key it = []" "it_num_restarts it = 1" "it_status it = OK"
    by (simp_all add: it_def make_Iter_def)
  have pos: "\<not> it_restarts it \<le> 0" using le ue by (simp add: f word_le_nat_alt)
  have un: "unat (- n) = 2 ^ 32 - unat n" using assms(3) unat_sub_if_size [of 0 n] by (simp add: word_less_nat_alt word_size)
  let ?p = "ParseNextKey (SeekToRestartPoint 0 it)"
  show ?thesis
  proof (cases "8 < n")
    case True
    then have "length b < length e + unat n" using len by (simp add: word_less_nat_alt)
    moreover from this have "?p = Undef"
      using ue d pos by (simp add: ParseNextKey_def NextEntryOffset_def SeekToRestartPoint_def g Let_def f b_def)
    ultimately show ?thesis using True it d f by (simp add: SeekToFirst_def)
  next
    case False
    then have fits: "length e + unat n \<le> length b" using len by (simp add: word_less_nat_alt)
    then obtain it' where it': "?p = Ret () it'" "it_status it' = OK" "it_value it' = Some (length e + unat n, 2 ^ 32 - unat n)"
      "it_data it' = b" "it_current it' = 0" "it_restarts it' = of_nat (length e)"
      using ue d pos by (simp add: ParseNextKey_def NextEntryOffset_def SeekToRestartPoint_def g Let_def f b_def un)
    have "unat n < 2 ^ 32" using unsigned_less [of n, where ?'a = nat] by simp
    then have "iter_value it' = None" using it'(3,4) len le by (simp add: iter_value_def)
    moreover have "Valid it'" using it'(5,6) le ue by (simp add: Valid_def word_less_nat_alt)
    ultimately show ?thesis using False it d f it' by (simp add: SeekToFirst_def)
  qed
qed

theorem block_entry_overflow_witness:
  "DecodeEntry (EncodeVarint32 0 @ EncodeVarint32 4096 @ EncodeVarint32 (- 4096)) = Some (0, 4096, - 4096, [])
   \<and> (case Block_NewIterator BytewiseComparator (make_Block
         ((EncodeVarint32 0 @ EncodeVarint32 4096 @ EncodeVarint32 (- 4096)) @ EncodeFixed32 0 @ EncodeFixed32 1)) of
        Iter it \<Rightarrow> it_status it = OK \<and> SeekToFirst it = None
      | _ \<Rightarrow> False)"
  using block_entry_overflow [of 4096 BytewiseComparator] by (simp split: block_iterator.splits)

end
