(* ===== verification/Ldb_Iterator.thy ===== *)
theory Ldb_Iterator
  imports Ldb_Block_Correct
begin

text \<open>
  LevelDB: the iterator interface (\<open>include/leveldb/iterator.h\<close>), the wrapper that caches two of its
  answers (\<open>table/iterator_wrapper.h\<close>), the empty iterator (\<open>table/iterator.cc\<close>), and the iterator of a
  block seen through the interface. An \<open>Iterator\<close> object is a state with a record of its virtual
  functions. What iterators promise is the locale \<open>entry_iterator\<close>: a cursor on a list of entries.
\<close>

section \<open>The interface\<close>

record 's Iterator =
  i_Valid :: "'s \<Rightarrow> bool"
  i_SeekToFirst :: "'s \<Rightarrow> 's"
  i_SeekToLast :: "'s \<Rightarrow> 's"
  i_Seek :: "slice \<Rightarrow> 's \<Rightarrow> 's"
  i_Next :: "'s \<Rightarrow> 's"
  i_Prev :: "'s \<Rightarrow> 's"
  i_key :: "'s \<Rightarrow> slice"
  i_value :: "'s \<Rightarrow> slice"
  i_status :: "'s \<Rightarrow> Status"

text \<open>The empty iterator is its status. Its \<open>Next\<close>, \<open>Prev\<close>, \<open>key\<close> and \<open>value\<close> may not be called; without
  assertions they do nothing, or return an empty slice.\<close>

definition EmptyIterator :: "Status Iterator" where
  "EmptyIterator = \<lparr>i_Valid = (\<lambda>_. False), i_SeekToFirst = id, i_SeekToLast = id, i_Seek = (\<lambda>_. id), i_Next = id,
     i_Prev = id, i_key = (\<lambda>_. []), i_value = (\<lambda>_. []), i_status = id\<rparr>"

definition NewEmptyIterator :: Status where "NewEmptyIterator = OK"

definition NewErrorIterator :: "Status \<Rightarrow> Status" where "NewErrorIterator s = s"

section \<open>The wrapper\<close>

record 's IteratorWrapper =
  wrap_iter :: "'s option"
  wrap_valid :: bool
  wrap_key :: slice

text \<open>\<open>Update\<close>; the methods below it require that there is an iterator.\<close>

definition wrap_Update :: "'s Iterator \<Rightarrow> 's \<Rightarrow> 's IteratorWrapper \<Rightarrow> 's IteratorWrapper" where
  "wrap_Update ops s w =
     w\<lparr>wrap_iter := Some s, wrap_valid := i_Valid ops s,
       wrap_key := (if i_Valid ops s then i_key ops s else wrap_key w)\<rparr>"

definition make_IteratorWrapper :: "'s IteratorWrapper" where
  "make_IteratorWrapper = \<lparr>wrap_iter = None, wrap_valid = False, wrap_key = []\<rparr>"

definition wrap_Set :: "'s Iterator \<Rightarrow> 's option \<Rightarrow> 's IteratorWrapper \<Rightarrow> 's IteratorWrapper" where
  "wrap_Set ops iter w =
     (case iter of
        None \<Rightarrow> w\<lparr>wrap_iter := None, wrap_valid := False\<rparr>
      | Some s \<Rightarrow> wrap_Update ops s w)"

definition wrap_move :: "'s Iterator \<Rightarrow> ('s \<Rightarrow> 's) \<Rightarrow> 's IteratorWrapper \<Rightarrow> 's IteratorWrapper" where
  "wrap_move ops f w = (case wrap_iter w of None \<Rightarrow> w | Some s \<Rightarrow> wrap_Update ops (f s) w)"

definition wrap_Next :: "'s Iterator \<Rightarrow> 's IteratorWrapper \<Rightarrow> 's IteratorWrapper" where
  "wrap_Next ops = wrap_move ops (i_Next ops)"

definition wrap_Prev :: "'s Iterator \<Rightarrow> 's IteratorWrapper \<Rightarrow> 's IteratorWrapper" where
  "wrap_Prev ops = wrap_move ops (i_Prev ops)"

definition wrap_Seek :: "'s Iterator \<Rightarrow> slice \<Rightarrow> 's IteratorWrapper \<Rightarrow> 's IteratorWrapper" where
  "wrap_Seek ops k = wrap_move ops (i_Seek ops k)"

definition wrap_SeekToFirst :: "'s Iterator \<Rightarrow> 's IteratorWrapper \<Rightarrow> 's IteratorWrapper" where
  "wrap_SeekToFirst ops = wrap_move ops (i_SeekToFirst ops)"

definition wrap_SeekToLast :: "'s Iterator \<Rightarrow> 's IteratorWrapper \<Rightarrow> 's IteratorWrapper" where
  "wrap_SeekToLast ops = wrap_move ops (i_SeekToLast ops)"

definition wrap_value :: "'s Iterator \<Rightarrow> 's IteratorWrapper \<Rightarrow> slice" where
  "wrap_value ops w = (case wrap_iter w of None \<Rightarrow> [] | Some s \<Rightarrow> i_value ops s)"

definition wrap_status :: "'s Iterator \<Rightarrow> 's IteratorWrapper \<Rightarrow> Status" where
  "wrap_status ops w = (case wrap_iter w of None \<Rightarrow> OK | Some s \<Rightarrow> i_status ops s)"

section \<open>Blocks through the interface\<close>

text \<open>\<open>None\<close> is undefined behaviour that has happened before.\<close>

definition block_Iterator :: "Block_Iter option Iterator" where
  "block_Iterator =
     \<lparr>i_Valid = (\<lambda>s. case s of None \<Rightarrow> False | Some it \<Rightarrow> Valid it),
      i_SeekToFirst = (\<lambda>s. Option.bind s SeekToFirst), i_SeekToLast = (\<lambda>s. Option.bind s SeekToLast),
      i_Seek = (\<lambda>t s. Option.bind s (Seek t)), i_Next = (\<lambda>s. Option.bind s Next), i_Prev = (\<lambda>s. Option.bind s Prev),
      i_key = (\<lambda>s. case s of None \<Rightarrow> [] | Some it \<Rightarrow> it_key it),
      i_value = (\<lambda>s. case Option.bind s iter_value of None \<Rightarrow> [] | Some v \<Rightarrow> v),
      i_status = (\<lambda>s. case s of None \<Rightarrow> OK | Some it \<Rightarrow> it_status it)\<rparr>"

section \<open>The contract\<close>

type_synonym entry = "slice \<times> slice"

definition pos_from :: "nat \<Rightarrow> 'a list \<Rightarrow> nat option" where
  "pos_from i es = (if i < length es then Some i else None)"

fun pos_before :: "nat \<Rightarrow> nat option" where
  "pos_before 0 = None"
| "pos_before (Suc i) = Some i"

definition first_from :: "(slice \<Rightarrow> slice \<Rightarrow> int) \<Rightarrow> entry list \<Rightarrow> slice \<Rightarrow> nat" where
  "first_from cmp es t = length (takeWhile (\<lambda>e. cmp (fst e) t < 0) es)"

text \<open>Calls of a client, and what they do to a cursor on a list. \<open>Next\<close> and \<open>Prev\<close> need a valid cursor.\<close>

datatype iter_call = CFirst | CLast | CNext | CPrev | CSeek slice

fun list_call :: "(slice \<Rightarrow> slice \<Rightarrow> int) \<Rightarrow> entry list \<Rightarrow> iter_call \<Rightarrow> nat option \<Rightarrow> nat option" where
  "list_call cmp es CFirst p = pos_from 0 es"
| "list_call cmp es CLast p = pos_before (length es)"
| "list_call cmp es CNext p = (case p of None \<Rightarrow> None | Some i \<Rightarrow> pos_from (Suc i) es)"
| "list_call cmp es CPrev p = (case p of None \<Rightarrow> None | Some i \<Rightarrow> pos_before i)"
| "list_call cmp es (CSeek t) p = pos_from (first_from cmp es t) es"

fun iter_step :: "'s Iterator \<Rightarrow> iter_call \<Rightarrow> 's \<Rightarrow> 's" where
  "iter_step ops CFirst s = i_SeekToFirst ops s"
| "iter_step ops CLast s = i_SeekToLast ops s"
| "iter_step ops CNext s = (if i_Valid ops s then i_Next ops s else s)"
| "iter_step ops CPrev s = (if i_Valid ops s then i_Prev ops s else s)"
| "iter_step ops (CSeek t) s = i_Seek ops t s"

fun call_valid :: "(slice \<Rightarrow> bool) \<Rightarrow> iter_call \<Rightarrow> bool" where
  "call_valid valid (CSeek t) = valid t"
| "call_valid valid _ = True"

text \<open>What a client sees after each of its calls: the entry under the cursor.\<close>

definition look :: "'s Iterator \<Rightarrow> 's \<Rightarrow> entry option" where
  "look ops s = (if i_Valid ops s then Some (i_key ops s, i_value ops s) else None)"

fun iter_trace :: "'s Iterator \<Rightarrow> iter_call list \<Rightarrow> 's \<Rightarrow> entry option list" where
  "iter_trace ops [] s = []"
| "iter_trace ops (c # cs) s = (let s' = iter_step ops c s in look ops s' # iter_trace ops cs s')"

fun list_trace :: "(slice \<Rightarrow> slice \<Rightarrow> int) \<Rightarrow> entry list \<Rightarrow> iter_call list \<Rightarrow> nat option \<Rightarrow> entry option list" where
  "list_trace cmp es [] p = []"
| "list_trace cmp es (c # cs) p =
     (let p' = list_call cmp es c p in map_option (nth es) p' # list_trace cmp es cs p')"

locale entry_iterator =
  fixes ops :: "'s Iterator" and cmp :: "slice \<Rightarrow> slice \<Rightarrow> int" and valid :: "slice \<Rightarrow> bool"
    and at :: "entry list \<Rightarrow> nat option \<Rightarrow> 's \<Rightarrow> bool"
  assumes at_bound: "at es (Some i) s \<Longrightarrow> i < length es"
    and at_Valid: "at es p s \<Longrightarrow> i_Valid ops s \<longleftrightarrow> p \<noteq> None"
    and at_key: "at es (Some i) s \<Longrightarrow> i_key ops s = fst (es ! i)"
    and at_value: "at es (Some i) s \<Longrightarrow> i_value ops s = snd (es ! i)"
    and at_status: "at es p s \<Longrightarrow> i_status ops s = OK"
    and at_First: "at es p s \<Longrightarrow> at es (pos_from 0 es) (i_SeekToFirst ops s)"
    and at_Last: "at es p s \<Longrightarrow> at es (pos_before (length es)) (i_SeekToLast ops s)"
    and at_Next: "at es (Some i) s \<Longrightarrow> at es (pos_from (Suc i) es) (i_Next ops s)"
    and at_Prev: "at es (Some i) s \<Longrightarrow> at es (pos_before i) (i_Prev ops s)"
    and at_Seek: "at es p s \<Longrightarrow> valid t \<Longrightarrow> at es (pos_from (first_from cmp es t) es) (i_Seek ops t s)"
begin

lemmas at_look = at_Valid at_key at_value

lemma at_step:
  assumes "at es p s" and "call_valid valid c"
  shows "at es (list_call cmp es c p) (iter_step ops c s)"
  using assms by (cases c) (auto simp: at_Valid at_First at_Last at_Next at_Prev at_Seek split: option.splits)

lemma at_looks: "at es p s \<Longrightarrow> look ops s = map_option (nth es) p"
  by (cases p) (auto simp: look_def at_look)

text \<open>Whatever a client does, it sees the list.\<close>

lemma trace:
  assumes "at es p s" and "\<forall>c \<in> set cs. call_valid valid c"
  shows "iter_trace ops cs s = list_trace cmp es cs p"
  using assms
proof (induction cs arbitrary: p s)
  case (Cons c cs)
  then have "at es (list_call cmp es c p) (iter_step ops c s)" by (simp add: at_step)
  with Cons show ?case by (simp add: Let_def at_looks)
qed simp

end

section \<open>Blocks meet the contract\<close>

definition block_at :: "Comparator \<Rightarrow> (slice \<Rightarrow> bool) \<Rightarrow> entry list \<Rightarrow> nat option \<Rightarrow> Block_Iter option \<Rightarrow> bool" where
  "block_at c valid es p s \<longleftrightarrow>
     key_preorder.increasing (Compare c) valid (map fst es)
     \<and> (\<exists>k. case p of
          Some i \<Rightarrow> i < length es \<and> arrives k es c i s
        | None \<Rightarrow> \<exists>it. s = Some it \<and> ready k es c it \<and> \<not> Valid it)"

lemma arrives_block_at:
  assumes "arrives k es c i s" and "key_preorder.increasing (Compare c) valid (map fst es)"
  shows "block_at c valid es (pos_from i es) s"
proof -
  from assms(1) obtain it where "s = Some it" "ready k es c it" "Valid it \<longleftrightarrow> i < length es"
    by (rule arrives_ready) blast
  with assms show ?thesis by (auto simp: block_at_def pos_from_def)
qed

lemma block_at_ready:
  assumes "block_at c valid es p s"
  obtains k it where "s = Some it" "ready k es c it" "Valid it \<longleftrightarrow> p \<noteq> None"
    "\<And>i. p = Some i \<Longrightarrow> at_entry k es i it \<and> it_comparator it = c"
proof (cases p)
  case None
  with assms that show thesis by (auto simp: block_at_def)
next
  case (Some i)
  then obtain k where k: "i < length es" "arrives k es c i s" using assms by (auto simp: block_at_def)
  from arrives_ready [OF k(2)] k arrives_entry [OF k(2,1)] Some that show thesis by (metis option.distinct(1) option.inject)
qed

lemma block_entry_iterator:
  assumes "key_preorder (Compare c) valid"
  shows "entry_iterator block_Iterator (Compare c) valid (block_at c valid)"
proof
  fix es p s assume at: "block_at c valid es p s"
  then have inc: "key_preorder.increasing (Compare c) valid (map fst es)" by (simp add: block_at_def)
  from at obtain k it where it: "s = Some it" "ready k es c it" "Valid it \<longleftrightarrow> p \<noteq> None"
    "\<And>i. p = Some i \<Longrightarrow> at_entry k es i it \<and> it_comparator it = c" by (rule block_at_ready) blast
  show "i_Valid block_Iterator s \<longleftrightarrow> p \<noteq> None" using it(1,3) by (simp add: block_Iterator_def)
  show "i_status block_Iterator s = OK" using it(1,2) by (simp add: block_Iterator_def ready_def)
  show "block_at c valid es (pos_from 0 es) (i_SeekToFirst block_Iterator s)"
    using arrives_block_at [OF SeekToFirst_arrives [OF it(2)] inc] it(1) by (simp add: block_Iterator_def)
  show "block_at c valid es (pos_before (length es)) (i_SeekToLast block_Iterator s)"
    using arrives_block_at [OF SeekToLast_arrives [OF it(2)] inc] it(1)
    by (cases es rule: rev_cases) (simp_all add: block_Iterator_def pos_from_def)
  show "block_at c valid es (pos_from (first_from (Compare c) es t) es) (i_Seek block_Iterator t s)" if "valid t" for t
    using arrives_block_at [OF Seek_arrives [OF assms inc that it(2)] inc] it(1)
    by (simp add: block_Iterator_def first_from_def)
next
  fix es i s assume at: "block_at c valid es (Some i) s"
  then have inc: "key_preorder.increasing (Compare c) valid (map fst es)" by (simp add: block_at_def)
  from at obtain k it where it: "s = Some it" "at_entry k es i it" "it_comparator it = c"
    by (rule block_at_ready) blast
  show "i < length es" using it(2) by (simp add: at_entry_def)
  show "i_key block_Iterator s = fst (es ! i)" "i_value block_Iterator s = snd (es ! i)"
    using it(1,2) by (simp_all add: block_Iterator_def at_entry_def)
  show "block_at c valid es (pos_from (Suc i) es) (i_Next block_Iterator s)"
    using arrives_block_at [OF Next_arrives [OF it(2)]] inc it by (simp add: block_Iterator_def)
  show "block_at c valid es (pos_before i) (i_Prev block_Iterator s)"
    using arrives_block_at [OF Prev_arrives [OF it(2)]] inc it \<open>i < length es\<close>
    by (cases i) (simp_all add: block_Iterator_def pos_from_def)
qed

text \<open>A bound on the size of a block.\<close>

fun entries_size :: "entry list \<Rightarrow> nat" where
  "entries_size [] = 8"
| "entries_size ((k, v) # kvs) = length k + length v + 19 + entries_size kvs"

lemma entries_size_nth: "entries_size kvs = 8 + (\<Sum>i = 0..<length kvs. length (fst (kvs ! i)) + length (snd (kvs ! i)) + 19)"
proof (induction kvs rule: entries_size.induct)
  case (2 k v kvs)
  then show ?case by (simp only: list.size add_0_right sum.atLeast0_lessThan_Suc_shift One_nat_def add_Suc_right entries_size.simps) simp
qed simp

lemma built_size: "0 < k \<Longrightarrow> length (fst (BlockBuilder_Finish (build k kvs))) \<le> entries_size kvs"
proof -
  assume k: "0 < k"
  have entry: "length (entry_bytes s key v) \<le> length key + length v + 15" for s key v
    using length_EncodeVarint32 [of "of_nat s"] length_EncodeVarint32 [of "of_nat (length key - s)"]
      length_EncodeVarint32 [of "of_nat (length v)"] by (simp add: entry_bytes_def)
  have "length (concat (entries k kvs)) = (\<Sum>i = 0..<length kvs. length (entry_bytes (entry_shared k kvs i) (fst (kvs ! i)) (snd (kvs ! i))))"
    by (simp add: entries_def length_concat comp_def interv_sum_list_conv_sum_set_nat)
  also have "\<dots> \<le> (\<Sum>i = 0..<length kvs. length (fst (kvs ! i)) + length (snd (kvs ! i)) + 15)"
    by (rule sum_mono) (rule entry)
  finally have e: "length (concat (entries k kvs)) + 4 * length kvs
      \<le> (\<Sum>i = 0..<length kvs. length (fst (kvs ! i)) + length (snd (kvs ! i)) + 19)" by (simp add: sum.distrib)
  have "length (concat (map EncodeFixed32 rs)) = 4 * length rs" for rs by (induction rs) simp_all
  then have "length (block_bytes k kvs) = length (concat (entries k kvs)) + 4 * num_restarts k (length kvs) + 4"
    by (simp only: block_bytes_def length_append) (simp add: restart_array_def)
  moreover have "num_restarts k (length kvs) \<le> length kvs + 1"
    using le_trans [OF div_le_dividend diff_le_self, of "length kvs" 1 k] by (simp add: num_restarts_def)
  ultimately show ?thesis using e by (simp add: Finish_layout [OF k] entries_size_nth)
qed

text \<open>The iterator of a block that was built from a list of entries.\<close>

definition built_iter :: "Comparator \<Rightarrow> nat \<Rightarrow> entry list \<Rightarrow> Block_Iter option" where
  "built_iter c interval kvs =
     (case Block_NewIterator c (make_Block (fst (BlockBuilder_Finish (build interval kvs)))) of
        Iter it \<Rightarrow> Some it
      | _ \<Rightarrow> None)"

lemma built_iter_at:
  assumes "0 < k" and "length (fst (BlockBuilder_Finish (build k kvs))) < 2 ^ 32"
    and "key_preorder.increasing (Compare c) valid (map fst kvs)"
  shows "block_at c valid kvs None (built_iter c k kvs)"
proof -
  note f = Finish_layout [OF assms(1)]
  from Block_of_layout [OF assms(1) assms(2) [unfolded f], of c] obtain it
    where it: "Block_NewIterator c (make_Block (block_bytes k kvs)) = Iter it" "ready k kvs c it" by blast
  then have "\<not> Valid it" by (auto simp: Block_NewIterator_def make_Iter_def Valid_def Let_def split: if_splits)
  with it assms(3) show ?thesis by (auto simp: block_at_def built_iter_def f)
qed

interpretation internal_block: entry_iterator block_Iterator "Compare (InternalKeyComparator BytewiseComparator)"
  "valid_ikey (\<lambda>_. True)" "block_at (InternalKeyComparator BytewiseComparator) (valid_ikey (\<lambda>_. True))"
  by (rule block_entry_iterator) unfold_locales

end
