(* ===== verification/Ldb_DBIter.thy ===== *)
theory Ldb_DBIter
  imports Ldb_Iterator Ldb_SkipList
begin

text \<open>
  LevelDB: the iterator of a database (\<open>db/db_iter.cc\<close>), which turns an iterator over internal keys
  into one over the user keys that are visible at a sequence number. The internal iterator is a
  parameter. Loops give \<open>None\<close> if they run for ever. Samples of reads, which the database may use to
  schedule a compaction, are collected in a list; capacities of strings are not modelled.
\<close>

datatype Direction = kForward | kReverse

record 's DBIter =
  di_user_comparator :: Comparator
  di_iter :: 's
  di_sequence :: SequenceNumber
  di_status :: Status
  di_saved_key :: slice
  di_saved_value :: slice
  di_direction :: Direction
  di_valid :: bool
  di_rnd :: Random
  di_bytes_until_read_sampling :: nat
  di_samples :: "slice list"

definition kReadBytesPeriod :: nat where "kReadBytesPeriod = 1048576"

definition RandomCompactionPeriod :: "Random \<Rightarrow> nat \<times> Random" where
  "RandomCompactionPeriod rnd = (let (v, rnd) = Random_Uniform (2 * kReadBytesPeriod) rnd in (unat v, rnd))"

definition make_DBIter :: "Comparator \<Rightarrow> 's \<Rightarrow> SequenceNumber \<Rightarrow> uint32 \<Rightarrow> 's DBIter" where
  "make_DBIter cmp iter s seed =
     (let (period, rnd) = RandomCompactionPeriod (make_Random seed)
      in \<lparr>di_user_comparator = cmp, di_iter = iter, di_sequence = s, di_status = OK, di_saved_key = [],
          di_saved_value = [], di_direction = kForward, di_valid = False, di_rnd = rnd,
          di_bytes_until_read_sampling = period, di_samples = []\<rparr>)"

section \<open>Reading the internal iterator\<close>

partial_function (option) sample_loop :: "slice \<Rightarrow> nat \<Rightarrow> 's DBIter \<Rightarrow> 's DBIter option" where
  "sample_loop k bytes_read d =
     (if di_bytes_until_read_sampling d < bytes_read
      then (let (period, rnd) = RandomCompactionPeriod (di_rnd d)
            in sample_loop k bytes_read
                 (d\<lparr>di_rnd := rnd, di_bytes_until_read_sampling := di_bytes_until_read_sampling d + period,
                    di_samples := di_samples d @ [k]\<rparr>))
      else Some d)"

definition ParseKey :: "'s Iterator \<Rightarrow> 's DBIter \<Rightarrow> (ParsedInternalKey option \<times> 's DBIter) option" where
  "ParseKey ops d =
     (let k = i_key ops (di_iter d);
          bytes_read = length k + length (i_value ops (di_iter d))
      in case sample_loop k bytes_read d of
           None \<Rightarrow> None
         | Some d \<Rightarrow>
             (let d = d\<lparr>di_bytes_until_read_sampling := di_bytes_until_read_sampling d - bytes_read\<rparr>
              in case ParseInternalKey k of
                   None \<Rightarrow> Some (None, d\<lparr>di_status := Corruption ''corrupted internal key in DBIter''\<rparr>)
                 | Some ikey \<Rightarrow> Some (Some ikey, d)))"

section \<open>Moving forward\<close>

text \<open>One entry: whether the loop stops there, whether entries are skipped from now on. The string
  \<open>skip\<close> is \<open>saved_key_\<close> in every call.\<close>

definition next_entry :: "bool \<Rightarrow> ParsedInternalKey option \<Rightarrow> 's DBIter \<Rightarrow> bool \<times> bool \<times> 's DBIter" where
  "next_entry skipping ikey d =
     (case ikey of
        None \<Rightarrow> (False, skipping, d)
      | Some k \<Rightarrow>
          if sequence k \<le> di_sequence d
          then (case type k of
                  kTypeDeletion \<Rightarrow> (False, True, d\<lparr>di_saved_key := user_key k\<rparr>)
                | kTypeValue \<Rightarrow>
                    if skipping \<and> Compare (di_user_comparator d) (user_key k) (di_saved_key d) \<le> 0
                    then (False, skipping, d)
                    else (True, skipping, d\<lparr>di_valid := True, di_saved_key := []\<rparr>))
          else (False, skipping, d))"

partial_function (option) FindNextUserEntry :: "'s Iterator \<Rightarrow> bool \<Rightarrow> 's DBIter \<Rightarrow> 's DBIter option" where
  "FindNextUserEntry ops skipping d =
     (case ParseKey ops d of
        None \<Rightarrow> None
      | Some (ikey, d) \<Rightarrow>
          (case next_entry skipping ikey d of (stop, skipping, d) \<Rightarrow>
             if stop then Some d
             else (let d = d\<lparr>di_iter := i_Next ops (di_iter d)\<rparr>
                   in if i_Valid ops (di_iter d) then FindNextUserEntry ops skipping d
                      else Some (d\<lparr>di_saved_key := [], di_valid := False\<rparr>))))"

definition DBIter_Next :: "'s Iterator \<Rightarrow> 's DBIter \<Rightarrow> 's DBIter option" where
  "DBIter_Next ops d =
     (if di_direction d = kReverse
      then (let d = d\<lparr>di_direction := kForward,
                      di_iter := (if \<not> i_Valid ops (di_iter d) then i_SeekToFirst ops (di_iter d)
                                  else i_Next ops (di_iter d))\<rparr>
            in if \<not> i_Valid ops (di_iter d) then Some (d\<lparr>di_valid := False, di_saved_key := []\<rparr>)
               else FindNextUserEntry ops True d)
      else FindNextUserEntry ops True (d\<lparr>di_saved_key := ExtractUserKey (i_key ops (di_iter d))\<rparr>))"

section \<open>Moving backward\<close>

text \<open>One entry: whether the loop stops there, and \<open>value_type\<close>.\<close>

definition prev_entry :: "'s Iterator \<Rightarrow> ValueType \<Rightarrow> ParsedInternalKey option \<Rightarrow> 's DBIter
    \<Rightarrow> bool \<times> ValueType \<times> 's DBIter" where
  "prev_entry ops value_type ikey d =
     (case ikey of
        None \<Rightarrow> (False, value_type, d)
      | Some k \<Rightarrow>
          if sequence k \<le> di_sequence d
          then (if value_type \<noteq> kTypeDeletion
                   \<and> Compare (di_user_comparator d) (user_key k) (di_saved_key d) < 0
                then (True, value_type, d)
                else (False, type k,
                      (if type k = kTypeDeletion then d\<lparr>di_saved_key := [], di_saved_value := []\<rparr>
                       else d\<lparr>di_saved_key := ExtractUserKey (i_key ops (di_iter d)),
                              di_saved_value := i_value ops (di_iter d)\<rparr>)))
          else (False, value_type, d))"

partial_function (option) prev_loop :: "'s Iterator \<Rightarrow> ValueType \<Rightarrow> 's DBIter \<Rightarrow> (ValueType \<times> 's DBIter) option" where
  "prev_loop ops value_type d =
     (case ParseKey ops d of
        None \<Rightarrow> None
      | Some (ikey, d) \<Rightarrow>
          (case prev_entry ops value_type ikey d of (stop, value_type, d) \<Rightarrow>
             if stop then Some (value_type, d)
             else (let d = d\<lparr>di_iter := i_Prev ops (di_iter d)\<rparr>
                   in if i_Valid ops (di_iter d) then prev_loop ops value_type d
                      else Some (value_type, d))))"

definition FindPrevUserEntry :: "'s Iterator \<Rightarrow> 's DBIter \<Rightarrow> 's DBIter option" where
  "FindPrevUserEntry ops d =
     (case (if i_Valid ops (di_iter d) then prev_loop ops kTypeDeletion d else Some (kTypeDeletion, d)) of
        None \<Rightarrow> None
      | Some (value_type, d) \<Rightarrow>
          Some (if value_type = kTypeDeletion
                then d\<lparr>di_valid := False, di_saved_key := [], di_saved_value := [], di_direction := kForward\<rparr>
                else d\<lparr>di_valid := True\<rparr>))"

text \<open>The loop that leaves the entries of the current key when the direction changes: whether an
  entry before them was found.\<close>

partial_function (option) leave_key :: "'s Iterator \<Rightarrow> 's DBIter \<Rightarrow> (bool \<times> 's DBIter) option" where
  "leave_key ops d =
     (let d = d\<lparr>di_iter := i_Prev ops (di_iter d)\<rparr>
      in if \<not> i_Valid ops (di_iter d)
         then Some (False, d\<lparr>di_valid := False, di_saved_key := [], di_saved_value := []\<rparr>)
         else if Compare (di_user_comparator d) (ExtractUserKey (i_key ops (di_iter d))) (di_saved_key d) < 0
         then Some (True, d)
         else leave_key ops d)"

definition DBIter_Prev :: "'s Iterator \<Rightarrow> 's DBIter \<Rightarrow> 's DBIter option" where
  "DBIter_Prev ops d =
     (if di_direction d = kForward
      then (case leave_key ops (d\<lparr>di_saved_key := ExtractUserKey (i_key ops (di_iter d))\<rparr>) of
              None \<Rightarrow> None
            | Some (found, d) \<Rightarrow>
                if found then FindPrevUserEntry ops (d\<lparr>di_direction := kReverse\<rparr>) else Some d)
      else FindPrevUserEntry ops d)"

section \<open>Seeking\<close>

definition DBIter_Seek :: "'s Iterator \<Rightarrow> slice \<Rightarrow> 's DBIter \<Rightarrow> 's DBIter option" where
  "DBIter_Seek ops target d =
     (let saved = AppendInternalKey [] \<lparr>user_key = target, sequence = di_sequence d, type = kValueTypeForSeek\<rparr>;
          d = d\<lparr>di_direction := kForward, di_saved_value := [], di_saved_key := saved,
                di_iter := i_Seek ops saved (di_iter d)\<rparr>
      in if i_Valid ops (di_iter d) then FindNextUserEntry ops False d
         else Some (d\<lparr>di_valid := False\<rparr>))"

definition DBIter_SeekToFirst :: "'s Iterator \<Rightarrow> 's DBIter \<Rightarrow> 's DBIter option" where
  "DBIter_SeekToFirst ops d =
     (let d = d\<lparr>di_direction := kForward, di_saved_value := [], di_iter := i_SeekToFirst ops (di_iter d)\<rparr>
      in if i_Valid ops (di_iter d) then FindNextUserEntry ops False d
         else Some (d\<lparr>di_valid := False\<rparr>))"

definition DBIter_SeekToLast :: "'s Iterator \<Rightarrow> 's DBIter \<Rightarrow> 's DBIter option" where
  "DBIter_SeekToLast ops d =
     FindPrevUserEntry ops
       (d\<lparr>di_direction := kReverse, di_saved_value := [], di_iter := i_SeekToLast ops (di_iter d)\<rparr>)"

section \<open>Through the interface\<close>

definition DBIter_key :: "'s Iterator \<Rightarrow> 's DBIter \<Rightarrow> slice" where
  "DBIter_key ops d =
     (if di_direction d = kForward then ExtractUserKey (i_key ops (di_iter d)) else di_saved_key d)"

definition DBIter_value :: "'s Iterator \<Rightarrow> 's DBIter \<Rightarrow> slice" where
  "DBIter_value ops d = (if di_direction d = kForward then i_value ops (di_iter d) else di_saved_value d)"

definition DBIter_status :: "'s Iterator \<Rightarrow> 's DBIter \<Rightarrow> Status" where
  "DBIter_status ops d = (if di_status d = OK then i_status ops (di_iter d) else di_status d)"

text \<open>\<open>None\<close> is a call that has not returned.\<close>

definition db_Iterator :: "'s Iterator \<Rightarrow> 's DBIter option Iterator" where
  "db_Iterator ops =
     \<lparr>i_Valid = (\<lambda>s. case s of None \<Rightarrow> False | Some d \<Rightarrow> di_valid d),
      i_SeekToFirst = (\<lambda>s. Option.bind s (DBIter_SeekToFirst ops)),
      i_SeekToLast = (\<lambda>s. Option.bind s (DBIter_SeekToLast ops)),
      i_Seek = (\<lambda>t s. Option.bind s (DBIter_Seek ops t)),
      i_Next = (\<lambda>s. Option.bind s (DBIter_Next ops)), i_Prev = (\<lambda>s. Option.bind s (DBIter_Prev ops)),
      i_key = (\<lambda>s. case s of None \<Rightarrow> [] | Some d \<Rightarrow> DBIter_key ops d),
      i_value = (\<lambda>s. case s of None \<Rightarrow> [] | Some d \<Rightarrow> DBIter_value ops d),
      i_status = (\<lambda>s. case s of None \<Rightarrow> OK | Some d \<Rightarrow> DBIter_status ops d)\<rparr>"

end
