(* ===== verification/Ldb_Select.thy ===== *)
theory Ldb_Select
  imports Ldb_Iterator
begin

text \<open>
  Lists that are selections of another list: the positions that satisfy a predicate, and how many
  of them come before a position. The iterators that hide entries or merge lists are related to
  the iterators below them in this way.
\<close>

definition picks :: "(nat \<Rightarrow> bool) \<Rightarrow> nat \<Rightarrow> nat list" where
  "picks P n = filter P [0..<n]"

definition rank :: "(nat \<Rightarrow> bool) \<Rightarrow> nat \<Rightarrow> nat" where
  "rank P i = length (picks P i)"

lemma rank_0 [simp]: "rank P 0 = 0"
  by (simp add: rank_def picks_def)

lemma rank_Suc [simp]: "rank P (Suc i) = (if P i then Suc (rank P i) else rank P i)"
  by (simp add: rank_def picks_def)

lemma length_picks [simp]: "length (picks P n) = rank P n"
  by (simp add: rank_def)

lemma upt_split: "i \<le> j \<Longrightarrow> j \<le> k \<Longrightarrow> [i..<k] = [i..<j] @ [j..<k]"
  by (metis le_add_diff_inverse upt_add_eq_append)

lemma picks_split: "i \<le> n \<Longrightarrow> picks P n = picks P i @ filter P [i..<n]"
  unfolding picks_def by (subst upt_split [of 0 i]) simp_all

lemma rank_mono: "i \<le> j \<Longrightarrow> rank P i \<le> rank P j"
  using picks_split [of i j P] by (simp flip: length_picks)

lemma rank_same: "i \<le> j \<Longrightarrow> \<forall>m. i \<le> m \<and> m < j \<longrightarrow> \<not> P m \<Longrightarrow> rank P j = rank P i"
  using picks_split [of i j P] by (simp add: filter_empty_conv flip: length_picks)

lemma rank_none: "\<forall>m < i. \<not> P m \<Longrightarrow> rank P i = 0"
  using rank_same [of 0 i P] by simp

text \<open>The next selected position.\<close>

lemma rank_next:
  assumes "i \<le> j" and "j < n" and "P j" and "\<forall>m. i \<le> m \<and> m < j \<longrightarrow> \<not> P m"
  shows "rank P i < rank P n" "picks P n ! rank P i = j" "rank P j = rank P i"
    "rank P (Suc j) = Suc (rank P i)"
proof -
  have none: "filter P [i..<j] = []" using assms(4) by (auto simp: filter_empty_conv)
  have "[i..<n] = [i..<j] @ j # [Suc j..<n]"
    using assms(1,2) upt_split [of i j n] upt_conv_Cons [of j n] by simp
  then have w: "picks P n = picks P i @ j # filter P [Suc j..<n]"
    using picks_split [of i n P] assms(1,2,3) none by simp
  then have "length (picks P n) = Suc (rank P i + length (filter P [Suc j..<n]))" by simp
  then show "rank P i < rank P n" by simp
  show "picks P n ! rank P i = j" using w by (simp add: nth_append)
  show r: "rank P j = rank P i" by (rule rank_same [OF assms(1,4)])
  then show "rank P (Suc j) = Suc (rank P i)" using assms(3) by simp
qed

lemma picks_nth:
  assumes "r < rank P n"
  defines "m \<equiv> picks P n ! r"
  shows "m < n" "P m" "rank P m = r"
proof -
  have "m \<in> set (picks P n)" using assms by simp
  then show m: "m < n" "P m" by (auto simp: picks_def)
  have "rank P m < rank P n" "picks P n ! rank P m = m"
    by (rule rank_next [of m m]; use m in auto)+
  moreover have "distinct (picks P n)" by (simp add: picks_def)
  ultimately show "rank P m = r" using assms nth_eq_iff_index_eq by (metis length_picks)
qed

text \<open>The selected position at a rank is at or after the positions with that rank.\<close>

lemma picks_rank_ge:
  assumes "rank P i < rank P n"
  shows "i \<le> picks P n ! rank P i"
proof (rule ccontr)
  let ?m = "picks P n ! rank P i"
  assume "\<not> i \<le> ?m"
  then have "rank P (Suc ?m) \<le> rank P i" by (intro rank_mono) simp
  then show False using picks_nth [OF assms] by simp
qed

lemma picks_before:
  assumes "i \<le> n" and "rank P i = Suc r"
  shows "picks P n ! r < i" "P (picks P n ! r)" "rank P (picks P n ! r) = r"
proof -
  have lt: "r < rank P n" using rank_mono [OF assms(1), of P] assms(2) by simp
  note m = picks_nth [OF lt]
  show "P (picks P n ! r)" "rank P (picks P n ! r) = r" by (rule m(2), rule m(3))
  show "picks P n ! r < i"
  proof (rule ccontr)
    assume "\<not> picks P n ! r < i"
    then have "rank P i \<le> rank P (picks P n ! r)" by (intro rank_mono) simp
    then show False using m(3) assms(2) by simp
  qed
qed

text \<open>A search in the selection is the selection of the search.\<close>

lemma first_from_picks:
  assumes "i \<le> n" and "\<And>m. m < i \<Longrightarrow> P m \<Longrightarrow> cmp (fst (f m)) t < 0"
    and "\<And>m. i \<le> m \<Longrightarrow> m < n \<Longrightarrow> P m \<Longrightarrow> \<not> cmp (fst (f m)) t < 0"
  shows "first_from cmp (map f (picks P n)) t = rank P i"
proof -
  let ?Q = "\<lambda>e. cmp (fst e) t < 0"
  have v: "map f (picks P n) = map f (picks P i) @ map f (filter P [i..<n])"
    using picks_split [OF assms(1)] by simp
  have "takeWhile ?Q (map f (filter P [i..<n])) = []"
  proof (cases "filter P [i..<n]")
    case (Cons j js)
    then have "j \<in> set (filter P [i..<n])" by simp
    then have "\<not> ?Q (f j)" using assms(3) by auto
    with Cons show ?thesis by simp
  qed simp
  then have "takeWhile ?Q (map f (picks P n)) = map f (picks P i)"
    unfolding v using assms(2) by (subst takeWhile_append2) (auto simp: picks_def)
  then show ?thesis by (simp add: first_from_def)
qed

end
