(* ===== verification/Ldb_DBIter_Correct.thy ===== *)
theory Ldb_DBIter_Correct
  imports Ldb_DBIter Ldb_Select Ldb_SkipList_Correct
begin

text \<open>
  The iterator of a database is a cursor on the visible entries: for each user key the newest entry
  up to the sequence number, unless it is a deletion. This holds over every internal iterator that
  meets the contract, and is itself that contract, for user keys.
\<close>

section \<open>Sampling ends\<close>

text \<open>The generator never gives two multiples of \<open>2^21\<close> in a row.\<close>

lemma Random_Next_not_twice:
  assumes seed: "0 < seed" "seed < 2147483647" and z: "unat seed mod 2097152 = 0"
  shows "unat (fst (Random_Next seed)) mod 2097152 \<noteq> 0"
proof -
  define a where "a = unat seed div 2097152"
  have s: "unat seed = a * 2097152" using z by (auto simp: a_def)
  have a: "0 < a" "a < 1024" using seed s by (auto simp: word_less_nat_alt)
  define q r where "q = a * 16807 div 1024" and "r = a * 16807 mod 1024"
  have qr: "a * 16807 = q * 1024 + r" "r < 1024" by (simp_all add: q_def r_def)
  have q: "0 < q" "q < 16807" using a qr by linarith+
  have n: "unat seed * 16807 = q * 2147483648 + r * 2097152" using s qr(1) by simp
  have "unat seed * 16807 div 2147483648 = q" "unat seed * 16807 mod 2147483648 = r * 2097152"
    using qr(2) unfolding n by simp_all
  then have v: "unat (fst (Random_Next seed)) = (q + r * 2097152) mod 2147483647"
    using Random_Next_value(1) [OF seed] lehmer_split [of "unat seed"] by simp
  moreover have "q + r * 2097152 < 2147483647" using q qr(2) by linarith
  ultimately show ?thesis using q by simp
qed

definition sampling :: "'s DBIter \<Rightarrow> bool" where
  "sampling d \<longleftrightarrow> 0 < di_rnd d \<and> di_rnd d < 2147483647"

text \<open>What reading a key may change.\<close>

definition sampled :: "'s DBIter \<Rightarrow> 's DBIter \<Rightarrow> bool" where
  "sampled d d' \<longleftrightarrow> sampling d' \<and> di_user_comparator d' = di_user_comparator d \<and> di_iter d' = di_iter d
     \<and> di_sequence d' = di_sequence d \<and> di_status d' = di_status d \<and> di_saved_key d' = di_saved_key d
     \<and> di_saved_value d' = di_saved_value d \<and> di_direction d' = di_direction d \<and> di_valid d' = di_valid d"

lemma RandomCompactionPeriod_next:
  assumes "0 < rnd" and "rnd < 2147483647"
  shows "RandomCompactionPeriod rnd = (unat (fst (Random_Next rnd)) mod 2097152, fst (Random_Next rnd))"
    "0 < fst (Random_Next rnd)" "fst (Random_Next rnd) < 2147483647"
proof -
  note v = Random_Next_value [OF assms]
  show "0 < fst (Random_Next rnd)" "fst (Random_Next rnd) < 2147483647"
    using lehmer_nonzero [of "unat rnd"] assms unfolding word_less_nat_alt v by simp_all
  show "RandomCompactionPeriod rnd = (unat (fst (Random_Next rnd)) mod 2097152, fst (Random_Next rnd))"
    using v(2) by (cases "Random_Next rnd") (simp add: RandomCompactionPeriod_def Random_Uniform_def kReadBytesPeriod_def unat_mod)
qed

lemma sample_loop_ends:
  assumes "sampling d"
  shows "\<exists>d'. sample_loop k n d = Some d' \<and> sampled d d'"
  using assms
proof (induction "2 * (n - di_bytes_until_read_sampling d)
    + (if unat (fst (Random_Next (di_rnd d))) mod 2097152 = 0 then 1 else 0)" arbitrary: d rule: less_induct)
  case less
  show ?case
  proof (cases "di_bytes_until_read_sampling d < n")
    case False
    then show ?thesis using less.prems by (subst sample_loop.simps) (simp add: sampled_def)
  next
    case True
    let ?v = "fst (Random_Next (di_rnd d))"
    define d1 where "d1 = d\<lparr>di_rnd := ?v,
      di_bytes_until_read_sampling := di_bytes_until_read_sampling d + unat ?v mod 2097152, di_samples := di_samples d @ [k]\<rparr>"
    have rnd: "0 < di_rnd d" "di_rnd d < 2147483647" using less.prems by (simp_all add: sampling_def)
    note r = RandomCompactionPeriod_next [OF rnd]
    have step: "sample_loop k n d = sample_loop k n d1"
      using True by (subst sample_loop.simps) (simp add: r(1) d1_def)
    have "sampling d1" using r(2,3) by (simp add: sampling_def d1_def)
    moreover have "2 * (n - di_bytes_until_read_sampling d1) + (if unat (fst (Random_Next (di_rnd d1))) mod 2097152 = 0 then 1 else 0)
        < 2 * (n - di_bytes_until_read_sampling d) + (if unat ?v mod 2097152 = 0 then 1 else 0)"
    proof (cases "unat ?v mod 2097152 = 0")
      case zero: True
      then show ?thesis using Random_Next_not_twice [OF r(2,3)] by (simp add: d1_def)
    next
      case pos: False
      have "n - (di_bytes_until_read_sampling d + unat ?v mod 2097152) < n - di_bytes_until_read_sampling d"
        using True pos by simp
      then show ?thesis using pos by (simp add: d1_def)
    qed
    ultimately obtain d' where d': "sample_loop k n d1 = Some d'" "sampled d1 d'" using less.hyps by blast
    then have "sampled d d'" by (auto simp: sampled_def d1_def)
    with d' step show ?thesis by auto
  qed
qed

lemma ParseKey_parses:
  assumes "sampling d" and "ParseInternalKey (i_key ops (di_iter d)) = Some k"
  shows "\<exists>d'. ParseKey ops d = Some (Some k, d') \<and> sampled d d'"
proof -
  obtain d1 where d1: "sample_loop (i_key ops (di_iter d)) (length (i_key ops (di_iter d)) + length (i_value ops (di_iter d))) d = Some d1"
    "sampled d d1" using sample_loop_ends [OF assms(1)] by blast
  then show ?thesis using assms(2)
    by (auto simp: ParseKey_def Let_def sampled_def sampling_def)
qed

section \<open>The visible entries\<close>

type_synonym pentry = "ParsedInternalKey \<times> slice"

definition stored :: "pentry list \<Rightarrow> entry list" where
  "stored ps = map (\<lambda>(k, v). (AppendInternalKey [] k, v)) ps"

abbreviation ukey :: "pentry list \<Rightarrow> nat \<Rightarrow> slice" where
  "ukey ps i \<equiv> user_key (fst (ps ! i))"

definition visible :: "SequenceNumber \<Rightarrow> pentry list \<Rightarrow> nat \<Rightarrow> bool" where
  "visible s ps i \<longleftrightarrow> sequence (fst (ps ! i)) \<le> s"

text \<open>The newest visible entry of its user key, which comes first, and not a deletion.\<close>

definition winner :: "SequenceNumber \<Rightarrow> pentry list \<Rightarrow> nat \<Rightarrow> bool" where
  "winner s ps i \<longleftrightarrow> visible s ps i \<and> type (fst (ps ! i)) = kTypeValue
     \<and> (\<forall>j < i. ukey ps j = ukey ps i \<longrightarrow> \<not> visible s ps j)"

abbreviation winners :: "SequenceNumber \<Rightarrow> pentry list \<Rightarrow> nat list" where
  "winners s ps \<equiv> picks (winner s ps) (length ps)"

definition db_view :: "SequenceNumber \<Rightarrow> pentry list \<Rightarrow> entry list" where
  "db_view s ps = map (\<lambda>i. (ukey ps i, snd (ps ! i))) (winners s ps)"

definition db_entries :: "Comparator \<Rightarrow> (slice \<Rightarrow> bool) \<Rightarrow> pentry list \<Rightarrow> bool" where
  "db_entries c valid ps \<longleftrightarrow> (\<forall>(k, v) \<in> set ps. sequence k \<le> kMaxSequenceNumber \<and> valid (user_key k))
     \<and> sorted_wrt (\<lambda>a b. internal_compare c (fst a) (fst b) < 0) (stored ps)"

lemma length_stored [simp]: "length (stored ps) = length ps"
  by (simp add: stored_def)

lemma stored_nth: "i < length ps \<Longrightarrow> stored ps ! i = (AppendInternalKey [] (fst (ps ! i)), snd (ps ! i))"
  by (simp add: stored_def split: prod.split)

lemma length_db_view [simp]: "length (db_view s ps) = rank (winner s ps) (length ps)"
  by (simp add: db_view_def)

section \<open>Over any internal iterator\<close>

locale db_iterator = entry_iterator ops "internal_compare c" "valid_ikey valid" at + comparator c valid
  for ops :: "'s Iterator" and c :: Comparator and valid :: "slice \<Rightarrow> bool"
    and at :: "entry list \<Rightarrow> nat option \<Rightarrow> 's \<Rightarrow> bool" +
  fixes seq :: SequenceNumber
  assumes seq_max: "seq \<le> kMaxSequenceNumber"
begin

abbreviation less :: "slice \<Rightarrow> slice \<Rightarrow> bool" where
  "less a b \<equiv> Compare c a b < 0"

lemma db_entries_valid: "db_entries c valid ps \<Longrightarrow> i < length ps \<Longrightarrow> valid (ukey ps i)"
  unfolding db_entries_def by (metis (mono_tags, lifting) case_prod_beta nth_mem)

lemma db_entries_seq: "db_entries c valid ps \<Longrightarrow> i < length ps \<Longrightarrow> sequence (fst (ps ! i)) \<le> kMaxSequenceNumber"
  unfolding db_entries_def by (metis (mono_tags, lifting) case_prod_beta nth_mem)

lemma db_entries_order:
  assumes "db_entries c valid ps" and "i < j" and "j < length ps"
  shows "less (ukey ps i) (ukey ps j) \<or> ukey ps i = ukey ps j"
proof -
  have "internal_compare c (fst (stored ps ! i)) (fst (stored ps ! j)) < 0"
    using assms by (auto simp: db_entries_def sorted_wrt_iff_nth_less)
  then show ?thesis
    using assms cmp_eq [OF db_entries_valid [OF assms(1), of i] db_entries_valid [OF assms(1), of j]]
    by (auto simp: stored_nth internal_compare_less)
qed

lemma ukey_mono:
  assumes "db_entries c valid ps" and "i \<le> j" and "j < length ps"
  shows "\<not> less (ukey ps j) (ukey ps i)"
  using assms db_entries_order [OF assms(1), of i j] cmp_asym [of "ukey ps i" "ukey ps j"] cmp_irrefl [of "ukey ps j"]
    db_entries_valid [OF assms(1)] by (cases "i = j") auto

lemma ukey_le_iff:
  assumes "db_entries c valid ps" and "i \<le> j" and "j < length ps"
  shows "Compare c (ukey ps j) (ukey ps i) \<le> 0 \<longleftrightarrow> ukey ps j = ukey ps i"
proof -
  have v: "valid (ukey ps i)" "valid (ukey ps j)" using assms db_entries_valid [OF assms(1)] by auto
  show ?thesis using ukey_mono [OF assms] cmp_eq [OF v(2,1)] by auto
qed

definition good :: "pentry list \<Rightarrow> 's DBIter \<Rightarrow> bool" where
  "good ps d \<longleftrightarrow> db_entries c valid ps \<and> di_user_comparator d = c \<and> di_sequence d = seq \<and> di_status d = OK \<and> sampling d"

lemma good_update [simp]:
  "good ps (d\<lparr>di_iter := x\<rparr>) = good ps d" "good ps (d\<lparr>di_saved_key := k\<rparr>) = good ps d"
  "good ps (d\<lparr>di_saved_value := k\<rparr>) = good ps d" "good ps (d\<lparr>di_direction := dir\<rparr>) = good ps d"
  "good ps (d\<lparr>di_valid := b\<rparr>) = good ps d"
  by (simp_all add: good_def sampling_def)

lemma good_sampled: "good ps d \<Longrightarrow> sampled d d' \<Longrightarrow> good ps d'"
  by (simp add: good_def sampled_def)

lemma at_index: "at (stored ps) (Some i) x \<Longrightarrow> i < length ps"
  using at_bound by fastforce

lemma at_ukey: "at (stored ps) (Some i) x \<Longrightarrow> ExtractUserKey (i_key ops x) = ukey ps i"
  using at_key [of "stored ps" i x] at_index [of ps i x] by (simp add: stored_nth)

lemma at_val: "at (stored ps) (Some i) x \<Longrightarrow> i_value ops x = snd (ps ! i)"
  using at_value [of "stored ps" i x] at_index [of ps i x] by (simp add: stored_nth)

lemma at_parse:
  assumes "good ps d" and "at (stored ps) (Some i) (di_iter d)"
  shows "\<exists>d'. ParseKey ops d = Some (Some (fst (ps ! i)), d') \<and> sampled d d'"
proof (rule ParseKey_parses)
  show "sampling d" using assms(1) by (simp add: good_def)
  have i: "i < length ps" by (rule at_index [OF assms(2)])
  have "ParseInternalKey (AppendInternalKey [] (fst (ps ! i))) = Some (fst (ps ! i))"
    using assms(1) db_entries_seq [OF _ i] by (intro ParseInternalKey_Append) (simp add: good_def)
  then show "ParseInternalKey (i_key ops (di_iter d)) = Some (fst (ps ! i))"
    using at_key [OF assms(2)] i by (simp add: stored_nth)
qed

text \<open>Before entry \<open>i\<close> on the way to the first winner from \<open>b\<close> on: what is skipped is hidden by an
  entry before it or is the old position, and the rest is not hidden.\<close>

definition skip_ok :: "pentry list \<Rightarrow> nat \<Rightarrow> nat \<Rightarrow> bool \<Rightarrow> slice \<Rightarrow> bool" where
  "skip_ok ps b i skipping k \<longleftrightarrow>
     (\<forall>j. i \<le> j \<and> j < length ps \<and> visible seq ps j \<longrightarrow>
        (if skipping \<and> Compare c (ukey ps j) k \<le> 0
         then j < b \<or> (\<exists>m < j. visible seq ps m \<and> ukey ps m = ukey ps j)
         else b \<le> j \<and> (\<forall>m < i. visible seq ps m \<longrightarrow> ukey ps m \<noteq> ukey ps j)))
     \<and> (\<forall>j. i \<le> j \<and> j < b \<and> visible seq ps j \<longrightarrow> winner seq ps j) \<and> b \<le> length ps"

lemma skip_invisible:
  assumes "skip_ok ps b i skipping k" and "\<not> visible seq ps i"
  shows "skip_ok ps b (Suc i) skipping k"
  using assms unfolding skip_ok_def by (auto simp: less_Suc_eq Suc_le_eq)

lemma skip_hidden:
  assumes "skip_ok ps b i skipping k" and "skipping" and "Compare c (ukey ps i) k \<le> 0"
  shows "skip_ok ps b (Suc i) skipping k"
  using assms unfolding skip_ok_def by (auto simp: less_Suc_eq Suc_le_eq)

lemma skip_deletion:
  assumes "skip_ok ps b i skipping k" and "visible seq ps i" and "type (fst (ps ! i)) = kTypeDeletion"
    and "db_entries c valid ps" and "i < length ps"
  shows "skip_ok ps b (Suc i) True (ukey ps i)"
proof -
  have "b \<le> i" using assms(1-3) unfolding skip_ok_def winner_def by (metis ValueType.distinct(1) le_refl not_le)
  have eq: "ukey ps j = ukey ps i \<longleftrightarrow> Compare c (ukey ps j) (ukey ps i) \<le> 0" if "i < j" "j < length ps" for j
    using ukey_le_iff [OF assms(4), of i j] that by simp
  have "ukey ps m \<noteq> ukey ps j" if "m < Suc i" "i < j" "j < length ps" "ukey ps j \<noteq> ukey ps i" for m j
  proof
    assume "ukey ps m = ukey ps j"
    moreover have "Compare c (ukey ps i) (ukey ps m) \<le> 0 \<longleftrightarrow> ukey ps i = ukey ps m"
      using ukey_le_iff [OF assms(4), of m i] that(1) assms(5) by simp
    moreover have "less (ukey ps i) (ukey ps j)"
      using db_entries_order [OF assms(4) that(2,3)] that(4) by auto
    ultimately show False using that(4) by auto
  qed
  moreover have "\<exists>m < j. visible seq ps m \<and> ukey ps m = ukey ps j"
    if "i < j" "j < length ps" "Compare c (ukey ps j) (ukey ps i) \<le> 0" for j
    using that assms(2) eq [OF that(1,2)] by (intro exI [of _ i]) simp
  ultimately show ?thesis using assms(1) \<open>b \<le> i\<close> eq unfolding skip_ok_def by (auto simp: Suc_le_eq)
qed

definition forward_at :: "pentry list \<Rightarrow> nat \<Rightarrow> 's DBIter \<Rightarrow> bool" where
  "forward_at ps r d \<longleftrightarrow> good ps d \<and>
     (if r < rank (winner seq ps) (length ps)
      then di_valid d \<and> di_direction d = kForward \<and> at (stored ps) (Some (winners seq ps ! r)) (di_iter d)
      else \<not> di_valid d \<and> at (stored ps) None (di_iter d))"

text \<open>What one entry does to the search.\<close>

lemma next_entry_step:
  assumes g: "good ps d" and i: "i < length ps" and ok: "skip_ok ps b i skipping (di_saved_key d)"
  obtains (found) d' where "next_entry skipping (Some (fst (ps ! i))) d = (True, skipping, d')" "good ps d'" "di_valid d'"
      "di_iter d' = di_iter d" "di_direction d' = di_direction d" "b \<le> i" "winner seq ps i"
  | (on) skipping' d' where "next_entry skipping (Some (fst (ps ! i))) d = (False, skipping', d')" "good ps d'"
      "di_iter d' = di_iter d" "di_direction d' = di_direction d" "skip_ok ps b (Suc i) skipping' (di_saved_key d')"
      "b \<le> i \<longrightarrow> \<not> winner seq ps i"
proof (cases "visible seq ps i")
  case False
  then show thesis using on [of skipping d] skip_invisible [OF ok] g
    by (simp add: next_entry_def visible_def good_def winner_def)
next
  case vis: True
  then have v: "sequence (fst (ps ! i)) \<le> di_sequence d" using g by (simp add: visible_def good_def)
  have cmp: "di_user_comparator d = c" using g by (simp add: good_def)
  show thesis
  proof (cases "type (fst (ps ! i))")
    case kTypeDeletion
    moreover have "db_entries c valid ps" using g by (simp add: good_def)
    ultimately show thesis
      using on [of True "d\<lparr>di_saved_key := ukey ps i\<rparr>"] skip_deletion [OF ok vis] i g v
      by (simp add: next_entry_def winner_def)
  next
    case val: kTypeValue
    show thesis
    proof (cases "skipping \<and> Compare c (ukey ps i) (di_saved_key d) \<le> 0")
      case True
      then have "i < b \<or> (\<exists>m < i. visible seq ps m \<and> ukey ps m = ukey ps i)"
        using ok vis i unfolding skip_ok_def by auto
      then have "b \<le> i \<longrightarrow> \<not> winner seq ps i" by (auto simp: winner_def)
      then show thesis using on [of skipping d] True val v g cmp skip_hidden [OF ok]
        by (simp add: next_entry_def)
    next
      case False
      then have "b \<le> i" "\<forall>m < i. visible seq ps m \<longrightarrow> ukey ps m \<noteq> ukey ps i"
        using ok vis i unfolding skip_ok_def by auto
      then show thesis using found [of "d\<lparr>di_valid := True, di_saved_key := []\<rparr>"] False val v g cmp vis
        by (auto simp: next_entry_def winner_def)
    qed
  qed
qed

lemma find_next:
  assumes "good ps d" and "at (stored ps) (Some i) (di_iter d)" and "di_direction d = kForward"
    and "skip_ok ps b i skipping (di_saved_key d)"
  shows "\<exists>d'. FindNextUserEntry ops skipping d = Some d' \<and> forward_at ps (rank (winner seq ps) (max i b)) d'"
  using assms
proof (induction "length ps - i" arbitrary: i skipping d rule: less_induct)
  case less
  have i: "i < length ps" by (rule at_index [OF less.prems(2)])
  from at_parse [OF less.prems(1,2)] obtain d1 where d1: "ParseKey ops d = Some (Some (fst (ps ! i)), d1)"
    "sampled d d1" by blast
  have s: "good ps d1" "di_iter d1 = di_iter d" "di_direction d1 = kForward" "di_saved_key d1 = di_saved_key d"
    using d1(2) good_sampled [OF less.prems(1)] less.prems(3) by (auto simp: sampled_def)
  from s(4) less.prems(4) have ok: "skip_ok ps b i skipping (di_saved_key d1)" by simp
  have bl: "b \<le> length ps" using ok by (simp add: skip_ok_def)
  show ?case
  proof (rule next_entry_step [OF s(1) i ok])
    fix d2 assume d2: "next_entry skipping (Some (fst (ps ! i))) d1 = (True, skipping, d2)" "good ps d2" "di_valid d2"
      "di_iter d2 = di_iter d1" "di_direction d2 = di_direction d1" "b \<le> i" "winner seq ps i"
    have "FindNextUserEntry ops skipping d = Some d2"
      by (subst FindNextUserEntry.simps) (simp add: d1(1) d2(1))
    moreover have "rank (winner seq ps) i < rank (winner seq ps) (length ps)" "winners seq ps ! rank (winner seq ps) i = i"
      by (rule rank_next [of i i]; use i d2(7) in auto)+
    ultimately show ?thesis using d2 s less.prems(2) by (simp add: forward_at_def max_absorb1)
  next
    fix skipping' d2 assume d2: "next_entry skipping (Some (fst (ps ! i))) d1 = (False, skipping', d2)" "good ps d2"
      "di_iter d2 = di_iter d1" "di_direction d2 = di_direction d1" "skip_ok ps b (Suc i) skipping' (di_saved_key d2)"
      "b \<le> i \<longrightarrow> \<not> winner seq ps i"
    define d3 where "d3 = d2\<lparr>di_iter := i_Next ops (di_iter d2)\<rparr>"
    have at3: "at (stored ps) (pos_from (Suc i) (stored ps)) (di_iter d3)"
      using at_Next [OF less.prems(2)] d2(3) s(2) by (simp add: d3_def)
    have rk: "rank (winner seq ps) (max (Suc i) b) = rank (winner seq ps) (max i b)"
    proof (cases "b \<le> i")
      case True
      then show ?thesis using d2(6) by (simp add: max_absorb1)
    qed (simp add: max_absorb2)
    show ?thesis
    proof (cases "Suc i < length ps")
      case True
      then have at4: "at (stored ps) (Some (Suc i)) (di_iter d3)" using at3 by (simp add: pos_from_def)
      have "FindNextUserEntry ops skipping d = FindNextUserEntry ops skipping' d3"
        using at_Valid [OF at4] by (subst FindNextUserEntry.simps) (simp add: d1(1) d2(1) Let_def d3_def)
      moreover have "good ps d3" "di_direction d3 = kForward" "skip_ok ps b (Suc i) skipping' (di_saved_key d3)"
        using d2 s(3) by (simp_all add: d3_def)
      ultimately show ?thesis using less.hyps [of "Suc i" d3 skipping'] at4 i rk by simp
    next
      case False
      then have at4: "at (stored ps) None (di_iter d3)" using at3 by (simp add: pos_from_def)
      have "FindNextUserEntry ops skipping d = Some (d3\<lparr>di_saved_key := [], di_valid := False\<rparr>)"
        using at_Valid [OF at4] by (subst FindNextUserEntry.simps) (simp add: d1(1) d2(1) Let_def d3_def)
      moreover have "max (Suc i) b = length ps" using False i bl by simp
      then have "rank (winner seq ps) (max i b) = rank (winner seq ps) (length ps)" using rk by simp
      ultimately show ?thesis using at4 d2(2) by (simp add: forward_at_def d3_def)
    qed
  qed
qed

text \<open>On the way back from \<open>i0\<close>, with the entries from \<open>l\<close> on done: the candidate that is saved.\<close>

definition candidate :: "pentry list \<Rightarrow> nat \<Rightarrow> nat \<Rightarrow> nat \<Rightarrow> 's DBIter \<Rightarrow> bool" where
  "candidate ps i0 l m d \<longleftrightarrow> l \<le> m \<and> m \<le> i0 \<and> visible seq ps m \<and> type (fst (ps ! m)) = kTypeValue
     \<and> di_saved_key d = ukey ps m \<and> di_saved_value d = snd (ps ! m)
     \<and> (\<forall>j. l \<le> j \<and> j < m \<longrightarrow> \<not> visible seq ps j) \<and> (\<forall>w. m < w \<and> w \<le> i0 \<longrightarrow> \<not> winner seq ps w)"

definition prev_ok :: "pentry list \<Rightarrow> nat \<Rightarrow> nat \<Rightarrow> ValueType \<Rightarrow> 's DBIter \<Rightarrow> bool" where
  "prev_ok ps i0 l vt d \<longleftrightarrow>
     (case vt of
        kTypeDeletion \<Rightarrow> \<forall>w. l \<le> w \<and> w \<le> i0 \<longrightarrow> \<not> winner seq ps w
      | kTypeValue \<Rightarrow> \<exists>m. candidate ps i0 l m d)"

lemma prev_ok_saved:
  assumes "prev_ok ps i0 l vt d" and "di_saved_key d' = di_saved_key d" and "di_saved_value d' = di_saved_value d"
  shows "prev_ok ps i0 l vt d'"
proof -
  have "candidate ps i0 l m d' = candidate ps i0 l m d" for m using assms(2,3) by (simp add: candidate_def)
  then show ?thesis using assms(1) by (cases vt) (simp_all add: prev_ok_def)
qed

text \<open>Where the internal iterator is left behind: before every visible entry of the user key.\<close>

definition stays_before :: "pentry list \<Rightarrow> nat option \<Rightarrow> nat \<Rightarrow> bool" where
  "stays_before ps q m \<longleftrightarrow>
     (case q of
        None \<Rightarrow> \<forall>j < m. \<not> visible seq ps j
      | Some i \<Rightarrow> i < m \<and> less (ukey ps i) (ukey ps m) \<and> (\<forall>j. i < j \<and> j < m \<longrightarrow> \<not> visible seq ps j))"

definition prev_found :: "pentry list \<Rightarrow> nat \<Rightarrow> ValueType \<Rightarrow> 's DBIter \<Rightarrow> bool" where
  "prev_found ps i0 vt d \<longleftrightarrow> good ps d
     \<and> (case vt of
          kTypeDeletion \<Rightarrow> (\<forall>w \<le> i0. \<not> winner seq ps w) \<and> (\<exists>q. at (stored ps) q (di_iter d))
        | kTypeValue \<Rightarrow> \<exists>m q. m \<le> i0 \<and> winner seq ps m \<and> (\<forall>w. m < w \<and> w \<le> i0 \<longrightarrow> \<not> winner seq ps w)
            \<and> di_saved_key d = ukey ps m \<and> di_saved_value d = snd (ps ! m)
            \<and> at (stored ps) q (di_iter d) \<and> stays_before ps q m)"

text \<open>No entry above a visible one can win, except of a greater user key.\<close>

lemma prev_ok_clean:
  assumes ok: "prev_ok ps i0 (Suc i) vt d" and vis: "visible seq ps i" and i0: "i0 < length ps"
    and db: "db_entries c valid ps" and same: "vt = kTypeDeletion \<or> \<not> less (ukey ps i) (di_saved_key d)"
    and w: "i < w" "w \<le> i0"
  shows "\<not> winner seq ps w"
proof (cases vt)
  case kTypeDeletion
  then show ?thesis using ok w by (auto simp: prev_ok_def)
next
  case kTypeValue
  then obtain m where m: "candidate ps i0 (Suc i) m d" using ok by (auto simp: prev_ok_def)
  show ?thesis
  proof (cases "w = m")
    case True
    have "\<not> less (ukey ps i) (ukey ps m)" using same kTypeValue m by (simp add: candidate_def)
    then have "ukey ps i = ukey ps m"
      using db_entries_order [OF db, of i m] m i0 by (auto simp: candidate_def)
    then show ?thesis using True w(1) vis by (auto simp: winner_def)
  next
    case False
    then show ?thesis using m w unfolding candidate_def winner_def by (metis Suc_leI linorder_neqE_nat)
  qed
qed

lemma candidate_wins:
  assumes "candidate ps i0 l m d" and "\<forall>j < l. ukey ps j = ukey ps m \<longrightarrow> \<not> visible seq ps j"
  shows "winner seq ps m"
  using assms unfolding candidate_def winner_def by (metis not_le)

lemma prev_ok_invisible:
  assumes "prev_ok ps i0 (Suc i) vt d" and "\<not> visible seq ps i"
  shows "prev_ok ps i0 i vt d"
proof (cases vt)
  case kTypeDeletion
  have "\<not> winner seq ps i" using assms(2) by (simp add: winner_def)
  then show ?thesis using assms(1) kTypeDeletion by (auto simp: prev_ok_def le_eq_less_or_eq [of i])
next
  case kTypeValue
  then obtain m where m: "candidate ps i0 (Suc i) m d" using assms(1) by (auto simp: prev_ok_def)
  have "\<not> visible seq ps j" if "i \<le> j" "j < m" for j
    using m assms(2) that by (cases "j = i") (auto simp: candidate_def)
  with m have "candidate ps i0 i m d" by (simp add: candidate_def)
  then show ?thesis using kTypeValue by (auto simp: prev_ok_def)
qed

lemma prev_entry_step:
  assumes g: "good ps d" and i: "i \<le> i0" "i0 < length ps" and ok: "prev_ok ps i0 (Suc i) vt d"
    and at: "at (stored ps) (Some i) (di_iter d)"
  obtains (found) "prev_entry ops vt (Some (fst (ps ! i))) d = (True, vt, d)" "vt = kTypeValue" "prev_found ps i0 vt d"
  | (on) vt' d' where "prev_entry ops vt (Some (fst (ps ! i))) d = (False, vt', d')" "good ps d'"
      "di_iter d' = di_iter d" "di_direction d' = di_direction d" "prev_ok ps i0 i vt' d'"
proof (cases "visible seq ps i")
  case False
  then have "prev_ok ps i0 i vt d" by (rule prev_ok_invisible [OF ok])
  then show thesis using on [of vt d] False g by (simp add: prev_entry_def visible_def good_def)
next
  case vis: True
  then have v: "sequence (fst (ps ! i)) \<le> di_sequence d" using g by (simp add: visible_def good_def)
  have db: "db_entries c valid ps" and cmp: "di_user_comparator d = c" using g by (simp_all add: good_def)
  show thesis
  proof (cases "vt \<noteq> kTypeDeletion \<and> less (ukey ps i) (di_saved_key d)")
    case True
    then have vt: "vt = kTypeValue" by (cases vt) auto
    with ok obtain m where m: "candidate ps i0 (Suc i) m d" by (auto simp: prev_ok_def)
    then have lt: "less (ukey ps i) (ukey ps m)" using True by (simp add: candidate_def)
    have "ukey ps j \<noteq> ukey ps m" if "j < Suc i" for j
      using ukey_mono [OF db, of j i] that i lt by auto
    then have "winner seq ps m" by (intro candidate_wins [OF m]) auto
    then have "prev_found ps i0 vt d"
      using m g at lt unfolding prev_found_def vt candidate_def
      by (auto simp: stays_before_def intro!: exI [of _ m] exI [of _ "Some i"])
    then show thesis using found vt True v cmp by (simp add: prev_entry_def)
  next
    case False
    then have clean: "\<forall>w. i < w \<and> w \<le> i0 \<longrightarrow> \<not> winner seq ps w"
      using prev_ok_clean [OF ok vis i(2) db] by blast
    show thesis
    proof (cases "type (fst (ps ! i))")
      case kTypeDeletion
      then have "\<not> winner seq ps i" by (simp add: winner_def)
      with clean have "prev_ok ps i0 i kTypeDeletion (d\<lparr>di_saved_key := [], di_saved_value := []\<rparr>)"
        by (auto simp: prev_ok_def le_less)
      then show thesis using on False v g cmp kTypeDeletion by (simp add: prev_entry_def)
    next
      case kTypeValue
      let ?d = "d\<lparr>di_saved_key := ukey ps i, di_saved_value := snd (ps ! i)\<rparr>"
      have "candidate ps i0 i i ?d" using clean vis kTypeValue i by (auto simp: candidate_def)
      then have "prev_ok ps i0 i kTypeValue ?d" by (auto simp: prev_ok_def)
      then show thesis using on False v g cmp kTypeValue at_ukey [OF at] at_val [OF at] by (simp add: prev_entry_def)
    qed
  qed
qed

lemma prev_start:
  assumes "prev_ok ps i0 0 vt d" and "good ps d" and "at (stored ps) None (di_iter d)"
  shows "prev_found ps i0 vt d"
proof (cases vt)
  case kTypeDeletion
  with assms show ?thesis by (auto simp: prev_found_def prev_ok_def)
next
  case kTypeValue
  with assms(1) obtain m where m: "candidate ps i0 0 m d" by (auto simp: prev_ok_def)
  moreover have "winner seq ps m" by (rule candidate_wins [OF m]) simp
  moreover have "stays_before ps None m" using m by (simp add: candidate_def stays_before_def)
  ultimately show ?thesis using kTypeValue assms(2,3) by (auto simp: prev_found_def candidate_def)
qed

lemma prev_loop_finds:
  assumes "good ps d" and "at (stored ps) (Some i) (di_iter d)" and "i \<le> i0" and "i0 < length ps"
    and "prev_ok ps i0 (Suc i) vt d"
  shows "\<exists>vt' d'. prev_loop ops vt d = Some (vt', d') \<and> prev_found ps i0 vt' d' \<and> di_direction d' = di_direction d"
  using assms
proof (induction i arbitrary: vt d rule: less_induct)
  case (less i)
  have i: "i < length ps" by (rule at_index [OF less.prems(2)])
  from at_parse [OF less.prems(1,2)] obtain d1 where d1: "ParseKey ops d = Some (Some (fst (ps ! i)), d1)"
    "sampled d d1" by blast
  have s: "good ps d1" "di_iter d1 = di_iter d" "di_direction d1 = di_direction d"
    using d1(2) good_sampled [OF less.prems(1)] by (auto simp: sampled_def)
  have ok: "prev_ok ps i0 (Suc i) vt d1"
    using d1(2) by (intro prev_ok_saved [OF less.prems(5)]) (simp_all add: sampled_def)
  have at1: "at (stored ps) (Some i) (di_iter d1)" using less.prems(2) s(2) by simp
  show ?case
  proof (rule prev_entry_step [OF s(1) less.prems(3,4) ok at1])
    assume "prev_entry ops vt (Some (fst (ps ! i))) d1 = (True, vt, d1)" "prev_found ps i0 vt d1"
    then show ?thesis using d1(1) s(3) by (subst prev_loop.simps) simp
  next
    fix vt' d2 assume d2: "prev_entry ops vt (Some (fst (ps ! i))) d1 = (False, vt', d2)" "good ps d2"
      "di_iter d2 = di_iter d1" "di_direction d2 = di_direction d1" "prev_ok ps i0 i vt' d2"
    define d3 where "d3 = d2\<lparr>di_iter := i_Prev ops (di_iter d2)\<rparr>"
    have at3: "at (stored ps) (pos_before i) (di_iter d3)" using at_Prev [OF at1] d2(3) by (simp add: d3_def)
    have ok3: "prev_ok ps i0 i vt' d3" by (rule prev_ok_saved [OF d2(5)]) (simp_all add: d3_def)
    have g3: "good ps d3" "di_direction d3 = di_direction d" using d2 s by (simp_all add: d3_def)
    show ?thesis
    proof (cases i)
      case 0
      then have at4: "at (stored ps) None (di_iter d3)" using at3 by simp
      have "prev_loop ops vt d = Some (vt', d3)"
        using at_Valid [OF at4] by (subst prev_loop.simps) (simp add: d1(1) d2(1) Let_def d3_def)
      then show ?thesis using prev_start [OF _ g3(1) at4] ok3 0 g3(2) by simp
    next
      case (Suc i')
      then have at4: "at (stored ps) (Some i') (di_iter d3)" using at3 by simp
      have "prev_loop ops vt d = prev_loop ops vt' d3"
        using at_Valid [OF at4] by (subst prev_loop.simps) (simp add: d1(1) d2(1) Let_def d3_def)
      then show ?thesis using less.IH [of i' d3 vt'] g3 at4 less.prems(3,4) ok3 Suc by simp
    qed
  qed
qed

text \<open>The iterator on the visible entries.\<close>

definition cursor :: "pentry list \<Rightarrow> nat option \<Rightarrow> 's DBIter \<Rightarrow> bool" where
  "cursor ps p d \<longleftrightarrow> good ps d \<and>
     (case p of
        None \<Rightarrow> \<not> di_valid d \<and> (\<exists>q. at (stored ps) q (di_iter d))
      | Some n \<Rightarrow> n < rank (winner seq ps) (length ps) \<and> di_valid d \<and>
          (case di_direction d of
             kForward \<Rightarrow> at (stored ps) (Some (winners seq ps ! n)) (di_iter d)
           | kReverse \<Rightarrow> di_saved_key d = ukey ps (winners seq ps ! n)
               \<and> di_saved_value d = snd (ps ! (winners seq ps ! n))
               \<and> (\<exists>q. at (stored ps) q (di_iter d) \<and> stays_before ps q (winners seq ps ! n))))"

lemma forward_cursor: "forward_at ps r d \<Longrightarrow> cursor ps (pos_from r (db_view seq ps)) d"
  by (auto simp: forward_at_def cursor_def pos_from_def split: if_splits)

fun beyond :: "nat option \<Rightarrow> nat" where
  "beyond None = 0"
| "beyond (Some i) = Suc i"

lemma find_prev:
  assumes g: "good ps d" and at: "at (stored ps) q (di_iter d)" and dir: "di_direction d = kReverse"
  shows "\<exists>d'. FindPrevUserEntry ops d = Some d' \<and> cursor ps (pos_before (rank (winner seq ps) (beyond q))) d'"
proof (cases q)
  case None
  then show ?thesis using g at at_Valid [OF at]
    by (auto simp: FindPrevUserEntry_def cursor_def rank_none)
next
  case (Some i)
  have i: "i < length ps" using at_index at Some by simp
  have "prev_ok ps i (Suc i) kTypeDeletion d" by (auto simp: prev_ok_def)
  with g at Some i obtain vt d1 where d1: "prev_loop ops kTypeDeletion d = Some (vt, d1)" "prev_found ps i vt d1"
    "di_direction d1 = kReverse" using prev_loop_finds [of ps d i i kTypeDeletion] dir by auto
  show ?thesis
  proof (cases vt)
    case kTypeDeletion
    then have "rank (winner seq ps) (Suc i) = 0" using d1(2) by (intro rank_none) (auto simp: prev_found_def less_Suc_eq_le)
    then show ?thesis using d1 kTypeDeletion Some at_Valid [OF at]
      by (auto simp: FindPrevUserEntry_def cursor_def prev_found_def)
  next
    case kTypeValue
    then obtain m q' where m: "m \<le> i" "winner seq ps m" "\<forall>w. m < w \<and> w \<le> i \<longrightarrow> \<not> winner seq ps w"
      "di_saved_key d1 = ukey ps m" "di_saved_value d1 = snd (ps ! m)" "at (stored ps) q' (di_iter d1)" "stays_before ps q' m"
      and g1: "good ps d1" using d1(2) by (auto simp: prev_found_def)
    have w: "rank (winner seq ps) m < rank (winner seq ps) (length ps)" "winners seq ps ! rank (winner seq ps) m = m" "rank (winner seq ps) (Suc m) = Suc (rank (winner seq ps) m)"
      by (rule rank_next [of m m]; use m(1,2) i in auto)+
    have "rank (winner seq ps) (Suc i) = rank (winner seq ps) (Suc m)" using m(1,3) by (intro rank_same) auto
    then have "pos_before (rank (winner seq ps) (Suc i)) = Some (rank (winner seq ps) m)" using w(3) by simp
    moreover have "cursor ps (Some (rank (winner seq ps) m)) (d1\<lparr>di_valid := True\<rparr>)"
      using w m g1 d1(3) by (auto simp: cursor_def)
    ultimately show ?thesis using d1 kTypeValue Some at_Valid [OF at] by (auto simp: FindPrevUserEntry_def)
  qed
qed

lemma stays_rank:
  assumes "stays_before ps q m"
  shows "rank (winner seq ps) (beyond q) = rank (winner seq ps) m"
proof (rule rank_same [symmetric])
  show "beyond q \<le> m" using assms by (cases q) (auto simp: stays_before_def)
  show "\<forall>j. beyond q \<le> j \<and> j < m \<longrightarrow> \<not> winner seq ps j"
    using assms by (cases q) (auto simp: stays_before_def winner_def)
qed

lemma leave_key_leaves:
  assumes "good ps d" and "at (stored ps) (Some i) (di_iter d)" and "di_saved_key d = ukey ps m" and "i \<le> m"
    and "winner seq ps m" and "m < length ps" and "\<forall>j. i \<le> j \<and> j < m \<longrightarrow> ukey ps j = ukey ps m"
  shows "\<exists>q d'. leave_key ops d = Some (q \<noteq> None, d') \<and> good ps d' \<and> at (stored ps) q (di_iter d')
    \<and> stays_before ps q m \<and> (q = None \<longrightarrow> \<not> di_valid d')"
  using assms
proof (induction i arbitrary: d)
  case 0
  let ?d = "d\<lparr>di_iter := i_Prev ops (di_iter d)\<rparr>"
  have at1: "at (stored ps) None (di_iter ?d)" using at_Prev [OF 0(2)] by simp
  have "stays_before ps None m" using 0(5,7) by (auto simp: stays_before_def winner_def)
  then show ?case using 0(1) at1 at_Valid [OF at1]
    by (subst leave_key.simps) (auto intro!: exI [of _ None])
next
  case (Suc i)
  let ?d = "d\<lparr>di_iter := i_Prev ops (di_iter d)\<rparr>"
  have at1: "at (stored ps) (Some i) (di_iter ?d)" using at_Prev [OF Suc.prems(2)] by simp
  have db: "db_entries c valid ps" and cmp: "di_user_comparator d = c" using Suc.prems(1) by (simp_all add: good_def)
  show ?case
  proof (cases "less (ukey ps i) (ukey ps m)")
    case True
    have "stays_before ps (Some i) m"
      using Suc.prems(4,5,7) True by (auto simp: stays_before_def winner_def Suc_le_eq)
    then show ?thesis using Suc.prems(1,3) at1 at_Valid [OF at1] at_ukey [OF at1] True cmp
      by (subst leave_key.simps) (auto intro!: exI [of _ "Some i"])
  next
    case False
    then have "ukey ps i = ukey ps m" using db_entries_order [OF db, of i m] Suc.prems(4,6) by auto
    then have same: "\<forall>j. i \<le> j \<and> j < m \<longrightarrow> ukey ps j = ukey ps m"
      using Suc.prems(7) by (auto simp: le_eq_less_or_eq [of i])
    have "leave_key ops d = leave_key ops ?d"
      using at_Valid [OF at1] at_ukey [OF at1] Suc.prems(3) False cmp by (subst leave_key.simps) simp
    then show ?thesis using Suc.IH [of ?d] Suc.prems at1 same by simp
  qed
qed

lemma skip_from:
  assumes db: "db_entries c valid ps" and m: "winner seq ps m" "m < length ps"
    and i: "i \<le> m" "\<forall>j. i \<le> j \<and> j < m \<longrightarrow> \<not> visible seq ps j"
  shows "skip_ok ps (Suc m) i True (ukey ps m)"
proof -
  have vis: "visible seq ps m" using m(1) by (simp add: winner_def)
  have from_m: "m \<le> j" if "i \<le> j" "visible seq ps j" for j using i(2) that by (metis not_le)
  have "j < Suc m \<or> (\<exists>m' < j. visible seq ps m' \<and> ukey ps m' = ukey ps j)"
    if "i \<le> j" "j < length ps" "visible seq ps j" "Compare c (ukey ps j) (ukey ps m) \<le> 0" for j
    using ukey_le_iff [OF db, of m j] that vis by (metis from_m less_Suc_eq_le not_le)
  moreover have "Suc m \<le> j \<and> (\<forall>m' < i. visible seq ps m' \<longrightarrow> ukey ps m' \<noteq> ukey ps j)"
    if j: "i \<le> j" "j < length ps" "visible seq ps j" "\<not> Compare c (ukey ps j) (ukey ps m) \<le> 0" for j
  proof -
    have ne: "ukey ps j \<noteq> ukey ps m" using j(4) ukey_le_iff [OF db, of m j] from_m [OF j(1,3)] j(2) by auto
    then have gt: "Suc m \<le> j" using from_m [OF j(1,3)] by (cases "j = m") auto
    have "ukey ps m' \<noteq> ukey ps j" if "m' < i" for m'
      using ukey_mono [OF db, of m' m] db_entries_order [OF db, of m j] ne gt j(2) m(2) i(1) that by auto
    with gt show ?thesis by blast
  qed
  moreover have "winner seq ps j" if "i \<le> j" "j < Suc m" "visible seq ps j" for j
    using from_m [OF that(1,3)] that(2) m(1) by (metis le_antisym less_Suc_eq_le)
  ultimately show ?thesis using m(2) unfolding skip_ok_def by (auto simp: Suc_le_eq)
qed

subsection \<open>The operations\<close>

lemma next_moves:
  assumes "cursor ps (Some n) d"
  shows "\<exists>d'. DBIter_Next ops d = Some d' \<and> cursor ps (pos_from (Suc n) (db_view seq ps)) d'"
proof -
  define m where "m = winners seq ps ! n"
  have g: "good ps d" and n: "n < rank (winner seq ps) (length ps)" using assms by (simp_all add: cursor_def)
  have db: "db_entries c valid ps" using g by (simp add: good_def)
  have m: "m < length ps" "winner seq ps m" "rank (winner seq ps) m = n" using picks_nth [OF n] by (simp_all add: m_def)
  have rk: "rank (winner seq ps) (Suc m) = Suc n" using m(2,3) by simp
  have search: "\<exists>d'. FindNextUserEntry ops True d1 = Some d' \<and> cursor ps (pos_from (Suc n) (db_view seq ps)) d'"
    if d1: "good ps d1" "at (stored ps) (Some i) (di_iter d1)" "di_direction d1 = kForward" "di_saved_key d1 = ukey ps m"
      and i: "i \<le> m" "\<forall>j. i \<le> j \<and> j < m \<longrightarrow> \<not> visible seq ps j" for i d1
  proof -
    have "skip_ok ps (Suc m) i True (di_saved_key d1)" unfolding d1(4) by (rule skip_from [OF db m(2,1) i])
    then show ?thesis using find_next [OF d1(1-3)] i(1) rk forward_cursor by (fastforce simp: max_absorb2)
  qed
  show ?thesis
  proof (cases "di_direction d")
    case kForward
    then have at0: "at (stored ps) (Some m) (di_iter d)" using assms by (simp add: cursor_def m_def)
    moreover have "\<forall>j. m \<le> j \<and> j < m \<longrightarrow> \<not> visible seq ps j" by auto
    ultimately show ?thesis using search [of "d\<lparr>di_saved_key := ukey ps m\<rparr>" m] at_ukey [OF at0] g kForward
      by (simp add: DBIter_Next_def)
  next
    case kReverse
    then obtain q where q: "at (stored ps) q (di_iter d)" "stays_before ps q m" "di_saved_key d = ukey ps m"
      using assms by (auto simp: cursor_def m_def)
    define s where "s = (if \<not> i_Valid ops (di_iter d) then i_SeekToFirst ops (di_iter d) else i_Next ops (di_iter d))"
    have le: "beyond q \<le> m" and inv: "\<forall>j. beyond q \<le> j \<and> j < m \<longrightarrow> \<not> visible seq ps j"
      using q(2) by (cases q; auto simp: stays_before_def)+
    have "at (stored ps) (pos_from (beyond q) (stored ps)) s"
      using q(1) at_First [OF q(1)] at_Next [of "stored ps" "the q"] at_Valid [OF q(1)] by (cases q) (simp_all add: s_def)
    then have at1: "at (stored ps) (Some (beyond q)) s" using le m(1) by (simp add: pos_from_def)
    have "DBIter_Next ops d = FindNextUserEntry ops True (d\<lparr>di_direction := kForward, di_iter := s\<rparr>)"
      using kReverse at_Valid [OF at1] by (simp add: DBIter_Next_def s_def)
    then show ?thesis using search [of "d\<lparr>di_direction := kForward, di_iter := s\<rparr>" "beyond q"] at1 g q(3) le inv by simp
  qed
qed

lemma prev_moves:
  assumes "cursor ps (Some n) d"
  shows "\<exists>d'. DBIter_Prev ops d = Some d' \<and> cursor ps (pos_before n) d'"
proof -
  define m where "m = winners seq ps ! n"
  have g: "good ps d" and n: "n < rank (winner seq ps) (length ps)" using assms by (simp_all add: cursor_def)
  have m: "m < length ps" "winner seq ps m" "rank (winner seq ps) m = n" using picks_nth [OF n] by (simp_all add: m_def)
  show ?thesis
  proof (cases "di_direction d")
    case kForward
    let ?d = "d\<lparr>di_saved_key := ukey ps m\<rparr>"
    have at0: "at (stored ps) (Some m) (di_iter d)" using assms kForward by (simp add: cursor_def m_def)
    obtain q d1 where q: "leave_key ops ?d = Some (q \<noteq> None, d1)" "good ps d1" "at (stored ps) q (di_iter d1)"
      "stays_before ps q m" "q = None \<longrightarrow> \<not> di_valid d1"
      using leave_key_leaves [of ps ?d m m] g at0 m(1,2) not_le by auto
    have op: "DBIter_Prev ops d =
        (if q \<noteq> None then FindPrevUserEntry ops (d1\<lparr>di_direction := kReverse\<rparr>) else Some d1)"
      using kForward at_ukey [OF at0] q(1) by (simp add: DBIter_Prev_def)
    show ?thesis
    proof (cases q)
      case None
      then have "n = 0" using stays_rank [OF q(4)] m(3) by simp
      then show ?thesis using op q None by (auto simp: cursor_def)
    next
      case (Some i)
      then show ?thesis using op find_prev [of ps "d1\<lparr>di_direction := kReverse\<rparr>" q] q(2,3) stays_rank [OF q(4)] m(3)
        by simp
    qed
  next
    case kReverse
    then obtain q where q: "at (stored ps) q (di_iter d)" "stays_before ps q m" using assms by (auto simp: cursor_def m_def)
    then show ?thesis using find_prev [OF g q(1) kReverse] stays_rank [OF q(2)] m(3) kReverse
      by (simp add: DBIter_Prev_def)
  qed
qed

lemma cursor_iter: "cursor ps p d \<Longrightarrow> good ps d \<and> (\<exists>q. at (stored ps) q (di_iter d))"
  by (auto simp: cursor_def split: option.splits Direction.splits)

text \<open>Looking for a winner from a position on, with nothing to skip.\<close>

lemma find_from:
  assumes g: "good ps d" and dir: "di_direction d = kForward" and i: "i \<le> length ps"
    and at: "at (stored ps) (pos_from i (stored ps)) (di_iter d)"
    and apart: "\<And>j m. i \<le> j \<Longrightarrow> j < length ps \<Longrightarrow> m < i \<Longrightarrow> visible seq ps m \<Longrightarrow> ukey ps m \<noteq> ukey ps j"
  shows "\<exists>d'. (if i_Valid ops (di_iter d) then FindNextUserEntry ops False d else Some (d\<lparr>di_valid := False\<rparr>)) = Some d'
    \<and> cursor ps (pos_from (rank (winner seq ps) i) (db_view seq ps)) d'"
proof (cases "i < length ps")
  case True
  then have at1: "at (stored ps) (Some i) (di_iter d)" using at by (simp add: pos_from_def)
  have "skip_ok ps 0 i False (di_saved_key d)" using apart by (auto simp: skip_ok_def)
  then show ?thesis using find_next [OF g at1 dir] forward_cursor at_Valid [OF at1] by fastforce
next
  case False
  then have at1: "at (stored ps) None (di_iter d)" and "i = length ps" using at i by (simp_all add: pos_from_def)
  then show ?thesis using at_Valid [OF at1] g by (auto simp: cursor_def pos_from_def)
qed

lemma first_moves:
  assumes "cursor ps p d"
  shows "\<exists>d'. DBIter_SeekToFirst ops d = Some d' \<and> cursor ps (pos_from 0 (db_view seq ps)) d'"
proof -
  from assms obtain q where q: "good ps d" "at (stored ps) q (di_iter d)" using cursor_iter by blast
  show ?thesis
    using find_from [of ps "d\<lparr>di_direction := kForward, di_saved_value := [], di_iter := i_SeekToFirst ops (di_iter d)\<rparr>" 0]
      q(1) at_First [OF q(2)] by (simp add: DBIter_SeekToFirst_def Let_def)
qed

lemma last_moves:
  assumes "cursor ps p d"
  shows "\<exists>d'. DBIter_SeekToLast ops d = Some d' \<and> cursor ps (pos_before (length (db_view seq ps))) d'"
proof -
  from assms obtain q where q: "good ps d" "at (stored ps) q (di_iter d)" using cursor_iter by blast
  have "beyond (pos_before (length (stored ps))) = length ps" by (cases "length ps") simp_all
  then show ?thesis
    using find_prev [of ps "d\<lparr>di_direction := kReverse, di_saved_value := [], di_iter := i_SeekToLast ops (di_iter d)\<rparr>"
        "pos_before (length (stored ps))"] q(1) at_Last [OF q(2)] by (simp add: DBIter_SeekToLast_def)
qed

lemma newer_tag:
  assumes "i < length ps" and "db_entries c valid ps" and "PackSequenceAndType seq kTypeValue < PackSequenceAndType (sequence (fst (ps ! i))) (type (fst (ps ! i)))"
  shows "\<not> visible seq ps i"
proof -
  have "ValueType_code (type (fst (ps ! i))) < 2" by (cases "type (fst (ps ! i))") simp_all
  then show ?thesis
    using assms(3) pack_word [OF seq_max, of kTypeValue] pack_word [OF db_entries_seq [OF assms(2,1)], of "type (fst (ps ! i))"]
    by (simp add: word_less_nat_alt visible_def word_le_nat_alt)
qed

text \<open>Where a search for a user key starts.\<close>

definition seek_key :: "slice \<Rightarrow> slice" where
  "seek_key t = AppendInternalKey [] \<lparr>user_key = t, sequence = seq, type = kTypeValue\<rparr>"

lemma seek_splits:
  assumes db: "db_entries c valid ps" and t: "valid t"
  defines "i \<equiv> first_from (internal_compare c) (stored ps) (seek_key t)"
  shows "i \<le> length ps" "\<And>m. m < i \<Longrightarrow> visible seq ps m \<Longrightarrow> less (ukey ps m) t"
    "\<And>j. i \<le> j \<Longrightarrow> j < length ps \<Longrightarrow> \<not> less (ukey ps j) t"
proof -
  let ?P = "\<lambda>e. internal_compare c (fst e) (seek_key t) < 0"
  show len: "i \<le> length ps" using length_takeWhile_le [of ?P "stored ps"] by (simp add: i_def first_from_def)
  show "less (ukey ps m) t" if m: "m < i" "visible seq ps m" for m
  proof -
    have "?P (stored ps ! m)" using m(1) set_takeWhileD nth_mem takeWhile_nth unfolding i_def first_from_def by metis
    moreover have "m < length ps" using m(1) len by simp
    ultimately show ?thesis using newer_tag [OF _ db] m(2)
      by (auto simp: stored_nth internal_compare_less seek_key_def)
  qed
  show "\<not> less (ukey ps j) t" if j: "i \<le> j" "j < length ps" for j
  proof
    assume lt: "less (ukey ps j) t"
    have i: "i < length ps" using j by simp
    then have "\<not> ?P (stored ps ! i)"
      using nth_length_takeWhile [of ?P "stored ps"] unfolding i_def first_from_def by simp
    then have "\<not> less (ukey ps i) t" using i by (auto simp: stored_nth internal_compare_less seek_key_def)
    moreover have "less (ukey ps i) (ukey ps j) \<or> ukey ps i = ukey ps j"
      using db_entries_order [OF db, of i j] j by (cases "i = j") auto
    ultimately show False using lt cmp_trans [of "ukey ps i" "ukey ps j" t] db_entries_valid [OF db] i j t by auto
  qed
qed

lemma seek_rank:
  assumes db: "db_entries c valid ps" and t: "valid t"
  shows "first_from (Compare c) (db_view seq ps) t
    = rank (winner seq ps) (first_from (internal_compare c) (stored ps) (seek_key t))"
  unfolding db_view_def
  by (rule first_from_picks) (use seek_splits [OF db t] in \<open>auto simp: winner_def\<close>)

lemma seek_moves:
  assumes "cursor ps p d" and t: "valid t"
  shows "\<exists>d'. DBIter_Seek ops t d = Some d' \<and> cursor ps (pos_from (first_from (Compare c) (db_view seq ps) t) (db_view seq ps)) d'"
proof -
  from assms obtain q where q: "good ps d" "at (stored ps) q (di_iter d)" using cursor_iter by blast
  have db: "db_entries c valid ps" and sq: "di_sequence d = seq" using q(1) by (simp_all add: good_def)
  let ?k = "seek_key t" and ?i = "first_from (internal_compare c) (stored ps) (seek_key t)"
  note s = seek_splits [OF db t]
  have "valid_ikey valid ?k" using t by (simp add: valid_ikey_def seek_key_def)
  then have at1: "at (stored ps) (pos_from ?i (stored ps)) (i_Seek ops ?k (di_iter d))" by (rule at_Seek [OF q(2)])
  have "ukey ps m \<noteq> ukey ps j" if "?i \<le> j" "j < length ps" "m < ?i" "visible seq ps m" for j m
    using s(2) [OF that(3,4)] s(3) [OF that(1,2)] by auto
  moreover let ?d = "d\<lparr>di_direction := kForward, di_saved_value := [], di_saved_key := ?k, di_iter := i_Seek ops ?k (di_iter d)\<rparr>"
  have "DBIter_Seek ops t d =
      (if i_Valid ops (di_iter ?d) then FindNextUserEntry ops False ?d else Some (?d\<lparr>di_valid := False\<rparr>))"
    using sq by (simp add: DBIter_Seek_def seek_key_def kValueTypeForSeek_def Let_def)
  ultimately show ?thesis using find_from [of ps ?d ?i, OF _ _ s(1)] q(1) at1 seek_rank [OF db t] by simp
qed

definition db_at :: "entry list \<Rightarrow> nat option \<Rightarrow> 's DBIter option \<Rightarrow> bool" where
  "db_at es p s \<longleftrightarrow> (\<exists>ps d. s = Some d \<and> es = db_view seq ps \<and> cursor ps p d)"

lemma cursor_look:
  assumes "cursor ps (Some n) d"
  shows "DBIter_key ops d = fst (db_view seq ps ! n)" "DBIter_value ops d = snd (db_view seq ps ! n)"
  using assms at_ukey at_val
  by (auto simp: cursor_def DBIter_key_def DBIter_value_def db_view_def split: Direction.splits)

lemma user_iterator: "entry_iterator (db_Iterator ops) (Compare c) valid db_at"
proof
  fix es p s assume "db_at es p s"
  then obtain ps d where d: "s = Some d" "es = db_view seq ps" "cursor ps p d" by (auto simp: db_at_def)
  show "i_Valid (db_Iterator ops) s \<longleftrightarrow> p \<noteq> None"
    using d by (auto simp: db_Iterator_def cursor_def split: option.splits)
  show "i_status (db_Iterator ops) s = OK"
    using d(1) cursor_iter [OF d(3)] at_status by (auto simp: db_Iterator_def DBIter_status_def good_def)
  show "db_at es (pos_from 0 es) (i_SeekToFirst (db_Iterator ops) s)"
    using first_moves [OF d(3)] d(1,2) by (auto simp: db_Iterator_def db_at_def)
  show "db_at es (pos_before (length es)) (i_SeekToLast (db_Iterator ops) s)"
    using last_moves [OF d(3)] d(1,2) by (auto simp: db_Iterator_def db_at_def)
  show "db_at es (pos_from (first_from (Compare c) es t) es) (i_Seek (db_Iterator ops) t s)" if "valid t" for t
    using seek_moves [OF d(3) that] d(1,2) by (auto simp: db_Iterator_def db_at_def)
next
  fix es i s assume "db_at es (Some i) s"
  then obtain ps d where d: "s = Some d" "es = db_view seq ps" "cursor ps (Some i) d" by (auto simp: db_at_def)
  show "i < length es" using d(2,3) by (simp add: cursor_def)
  show "i_key (db_Iterator ops) s = fst (es ! i)" "i_value (db_Iterator ops) s = snd (es ! i)"
    using cursor_look [OF d(3)] d(1,2) by (simp_all add: db_Iterator_def)
  show "db_at es (pos_from (Suc i) es) (i_Next (db_Iterator ops) s)"
    using next_moves [OF d(3)] d(1,2) by (auto simp: db_Iterator_def db_at_def)
  show "db_at es (pos_before i) (i_Prev (db_Iterator ops) s)"
    using prev_moves [OF d(3)] d(1,2) by (auto simp: db_Iterator_def db_at_def)
qed

end

sublocale db_iterator \<subseteq> user: entry_iterator "db_Iterator ops" "Compare c" valid db_at
  by (rule user_iterator)

lemma make_DBIter_sampling: "sampling (make_DBIter c it s seed)"
  using RandomCompactionPeriod_next [OF make_Random_range]
  by (simp add: sampling_def make_DBIter_def)

context db_iterator
begin

lemma make_cursor:
  assumes "db_entries c valid ps" and "at (stored ps) q it"
  shows "db_at (db_view seq ps) None (Some (make_DBIter c it seq seed))"
  using assms make_DBIter_sampling [of c it seq seed]
  by (auto simp: db_at_def cursor_def good_def make_DBIter_def split: prod.splits intro!: exI [of _ ps])

end

lemma stored_increasing:
  assumes "db_entries c valid ps" and "comparator c valid"
  shows "key_preorder.increasing (Compare (InternalKeyComparator c)) (valid_ikey valid) (map fst (stored ps))"
proof -
  have "key_preorder (Compare (InternalKeyComparator c)) (valid_ikey valid)"
    using comparator.internal_comparator [OF assms(2)] by (simp add: comparator_def key_order_def)
  note d = key_preorder.increasing_def [OF this]
  have "\<forall>k \<in> set (map fst (stored ps)). valid_ikey valid k"
    using assms(1) by (auto simp: db_entries_def stored_def valid_ikey_def)
  moreover have "sorted_wrt (\<lambda>a b. internal_compare c a b < 0) (map fst (stored ps))"
    using assms(1) by (simp add: db_entries_def sorted_wrt_map)
  ultimately show ?thesis unfolding d by (simp add: InternalKeyComparator_def)
qed

section \<open>Properties\<close>

text \<open>C11: over any internal iterator that is a cursor on a list of entries in internal key order, the
  iterator of a database refines a cursor on the list of visible entries: whatever sequence of \<open>Seek\<close>,
  \<open>SeekToFirst\<close>, \<open>SeekToLast\<close>, \<open>Next\<close> and \<open>Prev\<close> a client calls, in both directions and with every
  change of direction, each call returns and leaves the client looking at what the list has there: for
  each user key its newest entry up to the sequence number of the iterator, unless that is a deletion.\<close>

theorem db_iter_refines:
  assumes "entry_iterator ops (internal_compare c) (valid_ikey valid) at" and "comparator c valid"
    and "seq \<le> kMaxSequenceNumber" and "db_entries c valid ps" and "at (stored ps) q it"
    and "\<forall>cl \<in> set cs. call_valid valid cl"
  shows "iter_trace (db_Iterator ops) cs (Some (make_DBIter c it seq seed)) = list_trace (Compare c) (db_view seq ps) cs None"
proof -
  have l: "db_iterator ops c valid at seq" using assms(1-3) by (simp add: db_iterator_def db_iterator_axioms_def)
  show ?thesis
    by (rule entry_iterator.trace [OF db_iterator.user_iterator [OF l] db_iterator.make_cursor [OF l assms(4,5)] assms(6)])
qed

definition sample_ps :: "pentry list" where
  "sample_ps =
     [(\<lparr>user_key = [97], sequence = 4, type = kTypeValue\<rparr>, [1]),
      (\<lparr>user_key = [98], sequence = 7, type = kTypeValue\<rparr>, [2]),
      (\<lparr>user_key = [98], sequence = 3, type = kTypeDeletion\<rparr>, []),
      (\<lparr>user_key = [98], sequence = 2, type = kTypeValue\<rparr>, [3]),
      (\<lparr>user_key = [99], sequence = 5, type = kTypeValue\<rparr>, [4]),
      (\<lparr>user_key = [99], sequence = 1, type = kTypeValue\<rparr>, [5])]"

lemma sample_tags:
  "PackSequenceAndType 4 kTypeValue = 1025" "PackSequenceAndType 7 kTypeValue = 1793"
  "PackSequenceAndType 3 kTypeDeletion = 768" "PackSequenceAndType 2 kTypeValue = 513"
  "PackSequenceAndType 5 kTypeValue = 1281" "PackSequenceAndType 1 kTypeValue = 257"
  by (simp_all add: PackSequenceAndType_def)

lemma sample_entries: "db_entries BytewiseComparator (\<lambda>_. True) sample_ps"
  by (simp add: db_entries_def sample_ps_def stored_def internal_compare_less BytewiseComparator_def
      kMaxSequenceNumber_def push_bit_eq_mult sample_tags)

lemma sample_view: "db_view 5 sample_ps = [([97], [1]), ([99], [4])]"
  by code_simp

lemma sample_size: "length (fst (BlockBuilder_Finish (build 2 (stored sample_ps)))) < 2 ^ 32"
  by (rule le_less_trans [OF built_size]) (simp_all add: sample_ps_def stored_def)

interpretation db_over_block: db_iterator block_Iterator BytewiseComparator "\<lambda>_. True"
  "block_at (InternalKeyComparator BytewiseComparator) (valid_ikey (\<lambda>_. True))" kMaxSequenceNumber
proof -
  show "db_iterator block_Iterator BytewiseComparator (\<lambda>_. True)
      (block_at (InternalKeyComparator BytewiseComparator) (valid_ikey (\<lambda>_. True))) kMaxSequenceNumber"
    using internal_block.entry_iterator_axioms bytewise.comparator_axioms
    by (simp add: db_iterator_def db_iterator_axioms_def InternalKeyComparator_def)
qed

theorem db_iter_refines_witness:
  "iter_trace (db_Iterator block_Iterator) [CFirst, CNext, CPrev, CSeek [98], CPrev, CLast, CNext]
     (Some (make_DBIter BytewiseComparator (built_iter (InternalKeyComparator BytewiseComparator) 2 (stored sample_ps)) 5 301))
   = [Some ([97], [1]), Some ([99], [4]), Some ([97], [1]), Some ([99], [4]), Some ([97], [1]), Some ([99], [4]), None]"
proof -
  have at: "block_at (InternalKeyComparator BytewiseComparator) (valid_ikey (\<lambda>_. True)) (stored sample_ps) None
      (built_iter (InternalKeyComparator BytewiseComparator) 2 (stored sample_ps))"
    by (rule built_iter_at [OF _ sample_size stored_increasing [OF sample_entries bytewise.comparator_axioms]]) simp
  have it: "entry_iterator block_Iterator (internal_compare BytewiseComparator) (valid_ikey (\<lambda>_. True))
      (block_at (InternalKeyComparator BytewiseComparator) (valid_ikey (\<lambda>_. True)))"
    using internal_block.entry_iterator_axioms by (simp add: InternalKeyComparator_def)
  have "list_trace (Compare BytewiseComparator) (db_view 5 sample_ps) [CFirst, CNext, CPrev, CSeek [98], CPrev, CLast, CNext] None
      = [Some ([97], [1]), Some ([99], [4]), Some ([97], [1]), Some ([99], [4]), Some ([97], [1]), Some ([99], [4]), None]"
    unfolding sample_view by code_simp
  moreover have "5 \<le> kMaxSequenceNumber" by (simp add: kMaxSequenceNumber_def push_bit_eq_mult)
  moreover have "\<forall>cl \<in> set [CFirst, CNext, CPrev, CSeek [98], CPrev, CLast, CNext]. call_valid (\<lambda>_. True) cl" by simp
  ultimately show ?thesis by (metis db_iter_refines [OF it bytewise.comparator_axioms _ sample_entries at])
qed

end
