(* ===== verification/Ldb_Merger.thy ===== *)
theory Ldb_Merger
  imports Ldb_Iterator
begin

text \<open>
  LevelDB: the iterator that merges its children (\<open>table/merger.cc\<close>). The children are objects of
  one iterator type, in an array of wrappers; \<open>current_\<close> is an index into it.
\<close>

datatype MergeDirection = mForward | mReverse

record 's MergingIterator =
  mi_comparator :: Comparator
  mi_children :: "'s IteratorWrapper list"
  mi_current :: "nat option"
  mi_direction :: MergeDirection

definition make_MergingIterator :: "'s Iterator \<Rightarrow> Comparator \<Rightarrow> 's list \<Rightarrow> 's MergingIterator" where
  "make_MergingIterator ops cmp children =
     \<lparr>mi_comparator = cmp, mi_children = map (\<lambda>s. wrap_Set ops (Some s) make_IteratorWrapper) children,
      mi_current = None, mi_direction = mForward\<rparr>"

section \<open>The smallest and the largest child\<close>

text \<open>One child of the two loops.\<close>

definition smaller_child :: "'s MergingIterator \<Rightarrow> nat \<Rightarrow> nat option \<Rightarrow> nat option" where
  "smaller_child mi i smallest =
     (if wrap_valid (mi_children mi ! i)
      then (case smallest of
              None \<Rightarrow> Some i
            | Some j \<Rightarrow>
                if Compare (mi_comparator mi) (wrap_key (mi_children mi ! i)) (wrap_key (mi_children mi ! j)) < 0
                then Some i else smallest)
      else smallest)"

definition larger_child :: "'s MergingIterator \<Rightarrow> nat \<Rightarrow> nat option \<Rightarrow> nat option" where
  "larger_child mi i largest =
     (if wrap_valid (mi_children mi ! i)
      then (case largest of
              None \<Rightarrow> Some i
            | Some j \<Rightarrow>
                if Compare (mi_comparator mi) (wrap_key (mi_children mi ! i)) (wrap_key (mi_children mi ! j)) > 0
                then Some i else largest)
      else largest)"

definition FindSmallest :: "'s MergingIterator \<Rightarrow> 's MergingIterator" where
  "FindSmallest mi = mi\<lparr>mi_current := fold (smaller_child mi) [0..<length (mi_children mi)] None\<rparr>"

definition FindLargest :: "'s MergingIterator \<Rightarrow> 's MergingIterator" where
  "FindLargest mi = mi\<lparr>mi_current := fold (larger_child mi) (rev [0..<length (mi_children mi)]) None\<rparr>"

section \<open>The operations\<close>

definition merge_Valid :: "'s MergingIterator \<Rightarrow> bool" where
  "merge_Valid mi = (mi_current mi \<noteq> None)"

definition merge_SeekToFirst :: "'s Iterator \<Rightarrow> 's MergingIterator \<Rightarrow> 's MergingIterator" where
  "merge_SeekToFirst ops mi =
     FindSmallest (mi\<lparr>mi_children := map (wrap_SeekToFirst ops) (mi_children mi)\<rparr>)\<lparr>mi_direction := mForward\<rparr>"

definition merge_SeekToLast :: "'s Iterator \<Rightarrow> 's MergingIterator \<Rightarrow> 's MergingIterator" where
  "merge_SeekToLast ops mi =
     FindLargest (mi\<lparr>mi_children := map (wrap_SeekToLast ops) (mi_children mi)\<rparr>)\<lparr>mi_direction := mReverse\<rparr>"

definition merge_Seek :: "'s Iterator \<Rightarrow> slice \<Rightarrow> 's MergingIterator \<Rightarrow> 's MergingIterator" where
  "merge_Seek ops target mi =
     FindSmallest (mi\<lparr>mi_children := map (wrap_Seek ops target) (mi_children mi)\<rparr>)\<lparr>mi_direction := mForward\<rparr>"

text \<open>What the two loops that change the direction do to a child that is not the current one, of key \<open>k\<close>.\<close>

definition child_after :: "'s Iterator \<Rightarrow> Comparator \<Rightarrow> slice \<Rightarrow> 's IteratorWrapper \<Rightarrow> 's IteratorWrapper" where
  "child_after ops cmp k child =
     (let child = wrap_Seek ops k child
      in if wrap_valid child \<and> Compare cmp k (wrap_key child) = 0 then wrap_Next ops child else child)"

definition child_before :: "'s Iterator \<Rightarrow> slice \<Rightarrow> 's IteratorWrapper \<Rightarrow> 's IteratorWrapper" where
  "child_before ops k child =
     (let child = wrap_Seek ops k child
      in if wrap_valid child then wrap_Prev ops child else wrap_SeekToLast ops child)"

text \<open>A loop over the children that leaves out the current one.\<close>

definition other_children :: "('s IteratorWrapper \<Rightarrow> 's IteratorWrapper) \<Rightarrow> nat \<Rightarrow> 's IteratorWrapper list
    \<Rightarrow> 's IteratorWrapper list" where
  "other_children f cur ws = map (\<lambda>i. if i \<noteq> cur then f (ws ! i) else ws ! i) [0..<length ws]"

text \<open>\<open>Next\<close> and \<open>Prev\<close> require a current child.\<close>

definition merge_Next :: "'s Iterator \<Rightarrow> 's MergingIterator \<Rightarrow> 's MergingIterator" where
  "merge_Next ops mi =
     (case mi_current mi of
        None \<Rightarrow> mi
      | Some cur \<Rightarrow>
          let mi = (if mi_direction mi \<noteq> mForward
                    then mi\<lparr>mi_children :=
                             other_children (child_after ops (mi_comparator mi) (wrap_key (mi_children mi ! cur))) cur
                               (mi_children mi),
                           mi_direction := mForward\<rparr>
                    else mi)
          in FindSmallest (mi\<lparr>mi_children := (mi_children mi)[cur := wrap_Next ops (mi_children mi ! cur)]\<rparr>))"

definition merge_Prev :: "'s Iterator \<Rightarrow> 's MergingIterator \<Rightarrow> 's MergingIterator" where
  "merge_Prev ops mi =
     (case mi_current mi of
        None \<Rightarrow> mi
      | Some cur \<Rightarrow>
          let mi = (if mi_direction mi \<noteq> mReverse
                    then mi\<lparr>mi_children :=
                             other_children (child_before ops (wrap_key (mi_children mi ! cur))) cur (mi_children mi),
                           mi_direction := mReverse\<rparr>
                    else mi)
          in FindLargest (mi\<lparr>mi_children := (mi_children mi)[cur := wrap_Prev ops (mi_children mi ! cur)]\<rparr>))"

definition merge_key :: "'s MergingIterator \<Rightarrow> slice" where
  "merge_key mi = (case mi_current mi of None \<Rightarrow> [] | Some cur \<Rightarrow> wrap_key (mi_children mi ! cur))"

definition merge_value :: "'s Iterator \<Rightarrow> 's MergingIterator \<Rightarrow> slice" where
  "merge_value ops mi = (case mi_current mi of None \<Rightarrow> [] | Some cur \<Rightarrow> wrap_value ops (mi_children mi ! cur))"

fun merge_status :: "'s Iterator \<Rightarrow> Status \<Rightarrow> 's IteratorWrapper list \<Rightarrow> Status" where
  "merge_status ops status [] = status"
| "merge_status ops status (w # ws) =
     (if wrap_status ops w \<noteq> OK then wrap_status ops w else merge_status ops (wrap_status ops w) ws)"

definition merge_Iterator :: "'s Iterator \<Rightarrow> 's MergingIterator Iterator" where
  "merge_Iterator ops =
     \<lparr>i_Valid = merge_Valid, i_SeekToFirst = merge_SeekToFirst ops, i_SeekToLast = merge_SeekToLast ops,
      i_Seek = merge_Seek ops, i_Next = merge_Next ops, i_Prev = merge_Prev ops, i_key = merge_key,
      i_value = merge_value ops, i_status = (\<lambda>mi. merge_status ops OK (mi_children mi))\<rparr>"

section \<open>Choosing an iterator\<close>

datatype 's merged = MEmpty Status | MChild 's | MMerge "'s MergingIterator"

definition NewMergingIterator :: "'s Iterator \<Rightarrow> Comparator \<Rightarrow> 's list \<Rightarrow> 's merged" where
  "NewMergingIterator ops cmp children =
     (case children of
        [] \<Rightarrow> MEmpty NewEmptyIterator
      | [s] \<Rightarrow> MChild s
      | _ \<Rightarrow> MMerge (make_MergingIterator ops cmp children))"

text \<open>The virtual functions of the object that was chosen.\<close>

fun map_merged :: "(Status \<Rightarrow> Status) \<Rightarrow> ('s \<Rightarrow> 's) \<Rightarrow> ('s MergingIterator \<Rightarrow> 's MergingIterator) \<Rightarrow> 's merged \<Rightarrow> 's merged" where
  "map_merged f g h (MEmpty s) = MEmpty (f s)"
| "map_merged f g h (MChild s) = MChild (g s)"
| "map_merged f g h (MMerge s) = MMerge (h s)"

fun ask_merged :: "(Status Iterator \<Rightarrow> Status \<Rightarrow> 'a) \<Rightarrow> ('s Iterator \<Rightarrow> 's \<Rightarrow> 'a)
    \<Rightarrow> ('s MergingIterator Iterator \<Rightarrow> 's MergingIterator \<Rightarrow> 'a) \<Rightarrow> 's Iterator \<Rightarrow> 's merged \<Rightarrow> 'a" where
  "ask_merged f g h ops (MEmpty s) = f EmptyIterator s"
| "ask_merged f g h ops (MChild s) = g ops s"
| "ask_merged f g h ops (MMerge s) = h (merge_Iterator ops) s"

definition merged_Iterator :: "'s Iterator \<Rightarrow> 's merged Iterator" where
  "merged_Iterator ops =
     (let M = merge_Iterator ops; E = EmptyIterator
      in \<lparr>i_Valid = ask_merged i_Valid i_Valid i_Valid ops,
          i_SeekToFirst = map_merged (i_SeekToFirst E) (i_SeekToFirst ops) (i_SeekToFirst M),
          i_SeekToLast = map_merged (i_SeekToLast E) (i_SeekToLast ops) (i_SeekToLast M),
          i_Seek = (\<lambda>t. map_merged (i_Seek E t) (i_Seek ops t) (i_Seek M t)),
          i_Next = map_merged (i_Next E) (i_Next ops) (i_Next M),
          i_Prev = map_merged (i_Prev E) (i_Prev ops) (i_Prev M),
          i_key = ask_merged i_key i_key i_key ops, i_value = ask_merged i_value i_value i_value ops,
          i_status = ask_merged i_status i_status i_status ops\<rparr>)"

end
