(* ===== verification/Ldb_Merger_Correct.thy ===== *)
theory Ldb_Merger_Correct
  imports Ldb_Merger Ldb_Select
begin

text \<open>
  The merging iterator is a cursor on the sorted list of all entries of its children: each child has
  a share of that list. This holds for any children that meet the iterator contract, and the result
  meets it again.
\<close>

section \<open>Wrappers\<close>

context entry_iterator
begin

definition wrap_at :: "entry list \<Rightarrow> nat option \<Rightarrow> 's IteratorWrapper \<Rightarrow> bool" where
  "wrap_at es p w \<longleftrightarrow> (\<exists>s. wrap_iter w = Some s \<and> at es p s) \<and> wrap_valid w = (p \<noteq> None)
     \<and> (\<forall>i. p = Some i \<longrightarrow> wrap_key w = fst (es ! i))"

lemma wrap_Update_at: "at es p s \<Longrightarrow> wrap_at es p (wrap_Update ops s w)"
  by (auto simp: wrap_at_def wrap_Update_def at_Valid at_key)

lemma wrap_Set_at: "at es p s \<Longrightarrow> wrap_at es p (wrap_Set ops (Some s) w)"
  by (simp add: wrap_Set_def wrap_Update_at)

lemma wrap_move_at:
  assumes "wrap_at es p w" and "\<And>s. at es p s \<Longrightarrow> at es q (f s)"
  shows "wrap_at es q (wrap_move ops f w)"
  using assms wrap_Update_at by (auto simp: wrap_move_def wrap_at_def [of es p])

lemma wrap_moves:
  "wrap_at es p w \<Longrightarrow> wrap_at es (pos_from 0 es) (wrap_SeekToFirst ops w)"
  "wrap_at es p w \<Longrightarrow> wrap_at es (pos_before (length es)) (wrap_SeekToLast ops w)"
  "wrap_at es p w \<Longrightarrow> valid t \<Longrightarrow> wrap_at es (pos_from (first_from cmp es t) es) (wrap_Seek ops t w)"
  "wrap_at es (Some i) w \<Longrightarrow> wrap_at es (pos_from (Suc i) es) (wrap_Next ops w)"
  "wrap_at es (Some i) w \<Longrightarrow> wrap_at es (pos_before i) (wrap_Prev ops w)"
  unfolding wrap_SeekToFirst_def wrap_SeekToLast_def wrap_Seek_def wrap_Next_def wrap_Prev_def
  by (erule wrap_move_at, simp add: at_First at_Last at_Seek at_Next at_Prev)+

lemma wrap_looks:
  "wrap_at es (Some i) w \<Longrightarrow> wrap_key w = fst (es ! i)"
  "wrap_at es (Some i) w \<Longrightarrow> wrap_value ops w = snd (es ! i)"
  "wrap_at es p w \<Longrightarrow> wrap_valid w \<longleftrightarrow> p \<noteq> None"
  "wrap_at es p w \<Longrightarrow> wrap_status ops w = OK"
  by (auto simp: wrap_at_def wrap_value_def wrap_status_def at_value at_status)

end

section \<open>Shares of a list\<close>

text \<open>The entries of child \<open>i\<close>, when entry \<open>n\<close> of the merged list belongs to child \<open>own n\<close>.\<close>

definition share :: "(nat \<Rightarrow> nat) \<Rightarrow> 'a list \<Rightarrow> nat \<Rightarrow> 'a list" where
  "share own es i = map (nth es) (picks (\<lambda>n. own n = i) (length es))"

abbreviation srank :: "(nat \<Rightarrow> nat) \<Rightarrow> nat \<Rightarrow> nat \<Rightarrow> nat" where
  "srank own i \<equiv> rank (\<lambda>n. own n = i)"

lemma length_share [simp]: "length (share own es i) = srank own i (length es)"
  by (simp add: share_def)

lemma share_nth: "r < srank own i (length es) \<Longrightarrow> share own es i ! r = es ! (picks (\<lambda>n. own n = i) (length es) ! r)"
  by (simp add: share_def)

lemma share_own:
  assumes "n < length es"
  shows "srank own (own n) n < srank own (own n) (length es)" "share own es (own n) ! srank own (own n) n = es ! n"
proof -
  note r = rank_next [of n n "length es" "\<lambda>m. own m = own n", OF le_refl assms refl]
  show "srank own (own n) n < srank own (own n) (length es)" using r(1) by auto
  then show "share own es (own n) ! srank own (own n) n = es ! n" using r(2) by (auto simp: share_nth)
qed

text \<open>The loop over the children finds the one that beats all others.\<close>

lemma fold_best:
  assumes a: "a < k" "wrap_valid (ws ! a)"
    and best: "\<And>i. i < k \<Longrightarrow> i \<noteq> a \<Longrightarrow> wrap_valid (ws ! i) \<Longrightarrow> better a i \<and> \<not> better i a"
    and step: "\<And>i r. f i r = (if wrap_valid (ws ! i)
        then (case r of None \<Rightarrow> Some i | Some j \<Rightarrow> if better i j then Some i else r) else r)"
    and xs: "distinct xs" "set xs = {..<k}"
  shows "fold f xs None = Some a"
proof -
  have "fold f ys r = Some a"
    if "set ys \<subseteq> {..<k}" "distinct ys" "if a \<in> set ys then \<forall>j. r = Some j \<longrightarrow> j < k \<and> j \<noteq> a \<and> wrap_valid (ws ! j) else r = Some a" for ys r
    using that
  proof (induction ys arbitrary: r)
    case (Cons y ys)
    show ?case
    proof (cases "y = a")
      case True
      then have "f y r = Some a" using Cons.prems a(2) best by (auto simp: step split: option.splits)
      then show ?thesis using Cons True by simp
    next
      case False
      show ?thesis
      proof (cases "a \<in> set ys")
        case True
        then have "\<forall>j. f y r = Some j \<longrightarrow> j < k \<and> j \<noteq> a \<and> wrap_valid (ws ! j)"
          using Cons.prems False by (auto simp: step split: option.splits if_splits)
        then show ?thesis using Cons True by simp
      next
        case out: False
        then have "f y r = Some a" using Cons.prems False best [of y] by (auto simp: step split: option.splits)
        then show ?thesis using Cons out by simp
      qed
    qed
  qed simp
  from this [of xs None] show ?thesis using xs a(1) by simp
qed

lemma fold_none:
  assumes "\<And>i. i \<in> set xs \<Longrightarrow> \<not> wrap_valid (ws ! i)"
    and "\<And>i r. f i r = (if wrap_valid (ws ! i)
        then (case r of None \<Rightarrow> Some i | Some j \<Rightarrow> if better i j then Some i else r) else r)"
  shows "fold f xs None = None"
  using assms by (induction xs) simp_all

section \<open>Over any children\<close>

locale merging_iterator = entry_iterator ops "Compare c" valid at + key_preorder "Compare c" valid
  for ops :: "'s Iterator" and c :: Comparator and valid :: "slice \<Rightarrow> bool"
    and at :: "entry list \<Rightarrow> nat option \<Rightarrow> 's \<Rightarrow> bool"
begin

abbreviation ordered :: "entry list \<Rightarrow> bool" where
  "ordered es \<equiv> increasing (map fst es)"

lemma ordered_valid: "ordered es \<Longrightarrow> n < length es \<Longrightarrow> valid (fst (es ! n))"
  by (simp add: increasing_def)

lemma ordered_less: "ordered es \<Longrightarrow> m < n \<Longrightarrow> n < length es \<Longrightarrow> Compare c (fst (es ! m)) (fst (es ! n)) < 0"
  by (simp add: increasing_def sorted_wrt_iff_nth_less)

lemma ordered_not_less:
  assumes "ordered es" and "m \<le> n" and "n < length es"
  shows "\<not> Compare c (fst (es ! n)) (fst (es ! m)) < 0"
proof (cases "m = n")
  case True
  then show ?thesis using cmp_irrefl [OF ordered_valid [OF assms(1,3)]] by simp
next
  case False
  then have "Compare c (fst (es ! m)) (fst (es ! n)) < 0" using ordered_less [OF assms(1) _ assms(3)] assms(2) by simp
  moreover have "m < length es" using assms(2,3) by simp
  ultimately show ?thesis using cmp_asym ordered_valid [OF assms(1)] assms(3) by blast
qed

text \<open>All children stand before, or after, the same place of the merged list.\<close>

definition kids :: "(nat \<Rightarrow> nat) \<Rightarrow> entry list \<Rightarrow> (nat \<Rightarrow> nat option) \<Rightarrow> 's MergingIterator \<Rightarrow> bool" where
  "kids own es pos mi \<longleftrightarrow> ordered es \<and> (\<forall>n < length es. own n < length (mi_children mi)) \<and> mi_comparator mi = c
     \<and> (\<forall>i < length (mi_children mi). wrap_at (share own es i) (pos i) (mi_children mi ! i))"

abbreviation ahead :: "(nat \<Rightarrow> nat) \<Rightarrow> entry list \<Rightarrow> nat \<Rightarrow> nat \<Rightarrow> nat option" where
  "ahead own es n i \<equiv> pos_from (srank own i n) (share own es i)"

abbreviation behind :: "(nat \<Rightarrow> nat) \<Rightarrow> nat \<Rightarrow> nat \<Rightarrow> nat option" where
  "behind own n i \<equiv> pos_before (srank own i n)"

text \<open>The key of a child ahead of \<open>n\<close> is at or after entry \<open>n\<close>.\<close>

lemma ahead_entry:
  assumes "ahead own es n i = Some r"
  obtains m where "n \<le> m" "m < length es" "own m = i" "share own es i ! r = es ! m"
proof -
  have r: "r = srank own i n" "srank own i n < srank own i (length es)"
    using assms by (auto simp: pos_from_def split: if_splits)
  show thesis using that [of "picks (\<lambda>n. own n = i) (length es) ! r"] picks_nth [OF r(2)] picks_rank_ge [OF r(2)] r share_nth [OF r(2)] by simp
qed

lemma behind_entry:
  assumes "behind own n i = Some r" and "n \<le> length es"
  obtains m where "m < n" "own m = i" "share own es i ! r = es ! m"
proof -
  have r: "srank own i n = Suc r" using assms(1) by (cases "srank own i n") auto
  have lt: "r < srank own i (length es)" using rank_mono [OF assms(2), of "\<lambda>n. own n = i"] r by simp
  then show thesis using that [of "picks (\<lambda>n. own n = i) (length es) ! r"] picks_before [OF assms(2) r] share_nth [OF lt] by simp
qed

lemma FindSmallest_finds:
  assumes k: "kids own es (ahead own es n) mi" and n: "n \<le> length es"
  shows "mi_current (FindSmallest mi) = (if n < length es then Some (own n) else None)"
proof -
  let ?ws = "mi_children mi" and ?cmp = "\<lambda>i j. Compare c (wrap_key (mi_children mi ! i)) (wrap_key (mi_children mi ! j)) < 0"
  have w: "wrap_at (share own es i) (ahead own es n i) (?ws ! i)" if "i < length ?ws" for i using k that by (simp add: kids_def)
  have o: "ordered es" and c: "mi_comparator mi = c" using k by (simp_all add: kids_def)
  have step: "smaller_child mi i r = (if wrap_valid (?ws ! i)
      then (case r of None \<Rightarrow> Some i | Some j \<Rightarrow> if ?cmp i j then Some i else r) else r)" for i r
    using c by (simp add: smaller_child_def split: option.split)
  show ?thesis
  proof (cases "n < length es")
    case True
    let ?a = "own n"
    have a: "?a < length ?ws" using k True by (simp add: kids_def)
    have "ahead own es n ?a = Some (srank own ?a n)" using share_own [OF True] by (simp add: pos_from_def)
    then have va: "wrap_valid (?ws ! ?a)" "wrap_key (?ws ! ?a) = fst (es ! n)"
      using wrap_looks w [OF a] share_own [OF True] by fastforce+
    have "?cmp ?a i \<and> \<not> ?cmp i ?a" if i: "i < length ?ws" "i \<noteq> ?a" "wrap_valid (?ws ! i)" for i
    proof -
      obtain r where r: "ahead own es n i = Some r" using wrap_looks(3) [OF w [OF i(1)]] i(3) by auto
      then obtain m where m: "n \<le> m" "m < length es" "own m = i" "share own es i ! r = es ! m" by (rule ahead_entry)
      then have "n < m" using i(2) by (cases "n = m") auto
      then show ?thesis using wrap_looks(1) w [OF i(1)] r m va(2) ordered_less [OF o] ordered_not_less [OF o] by fastforce
    qed
    from fold_best [OF a va(1) this step, of "[0..<length ?ws]"] show ?thesis
      using True by (simp add: FindSmallest_def lessThan_atLeast0)
  next
    case False
    then have "\<not> wrap_valid (?ws ! i)" if "i < length ?ws" for i
      using wrap_looks(3) [OF w [OF that]] n by (simp add: pos_from_def)
    then show ?thesis using fold_none [OF _ step, of "[0..<length ?ws]"] False by (simp add: FindSmallest_def)
  qed
qed

lemma FindLargest_finds:
  assumes k: "kids own es (behind own n) mi" and n: "n \<le> length es"
  shows "mi_current (FindLargest mi) = (case n of 0 \<Rightarrow> None | Suc m \<Rightarrow> Some (own m))"
proof -
  let ?ws = "mi_children mi" and ?cmp = "\<lambda>i j. Compare c (wrap_key (mi_children mi ! i)) (wrap_key (mi_children mi ! j)) > 0"
  have w: "wrap_at (share own es i) (behind own n i) (?ws ! i)" if "i < length ?ws" for i using k that by (simp add: kids_def)
  have o: "ordered es" and c: "mi_comparator mi = c" using k by (simp_all add: kids_def)
  have step: "larger_child mi i r = (if wrap_valid (?ws ! i)
      then (case r of None \<Rightarrow> Some i | Some j \<Rightarrow> if ?cmp i j then Some i else r) else r)" for i r
    using c by (simp add: larger_child_def split: option.split)
  show ?thesis
  proof (cases n)
    case (Suc N)
    let ?a = "own N"
    have N: "N < length es" using n Suc by simp
    then have a: "?a < length ?ws" using k by (simp add: kids_def)
    have "behind own n ?a = Some (srank own ?a N)" using Suc by simp
    then have va: "wrap_valid (?ws ! ?a)" "wrap_key (?ws ! ?a) = fst (es ! N)"
      using wrap_looks w [OF a] share_own [OF N] by fastforce+
    have "?cmp ?a i \<and> \<not> ?cmp i ?a" if i: "i < length ?ws" "i \<noteq> ?a" "wrap_valid (?ws ! i)" for i
    proof -
      obtain r where r: "behind own n i = Some r" using wrap_looks(3) [OF w [OF i(1)]] i(3) by auto
      then obtain m where m: "m < n" "own m = i" "share own es i ! r = es ! m" by (rule behind_entry [OF _ n])
      then have "m < N" using i(2) Suc by (cases "m = N") auto
      then have "Compare c (fst (es ! m)) (fst (es ! N)) < 0" by (rule ordered_less [OF o _ N])
      moreover have "wrap_key (?ws ! i) = fst (es ! m)" using wrap_looks(1) w [OF i(1)] r m(3) by fastforce
      moreover have "valid (fst (es ! m))" "valid (fst (es ! N))" using ordered_valid [OF o] \<open>m < N\<close> N by simp_all
      ultimately show ?thesis using va(2) cmp_flip [of "fst (es ! m)" "fst (es ! N)"] by simp
    qed
    from fold_best [OF a va(1) this step, of "rev [0..<length ?ws]"] show ?thesis
      using Suc by (simp add: FindLargest_def lessThan_atLeast0)
  next
    case 0
    then have "\<not> wrap_valid (?ws ! i)" if "i < length ?ws" for i
      using wrap_looks(3) [OF w [OF that]] by simp
    then show ?thesis using fold_none [OF _ step, of "rev [0..<length ?ws]"] 0 by (simp add: FindLargest_def)
  qed
qed

text \<open>The cursor.\<close>

definition merge_cursor :: "(nat \<Rightarrow> nat) \<Rightarrow> entry list \<Rightarrow> nat option \<Rightarrow> 's MergingIterator \<Rightarrow> bool" where
  "merge_cursor own es p mi \<longleftrightarrow>
     (case p of
        None \<Rightarrow> mi_current mi = None \<and> (\<exists>pos. kids own es pos mi)
      | Some n \<Rightarrow> n < length es \<and> mi_current mi = Some (own n)
          \<and> kids own es (if mi_direction mi = mForward then ahead own es n else behind own (Suc n)) mi)"

lemma kids_dir [simp]:
  "kids own es pos (mi\<lparr>mi_direction := dir\<rparr>) = kids own es pos mi"
  "kids own es pos (mi\<lparr>mi_current := cur\<rparr>) = kids own es pos mi"
  by (simp_all add: kids_def)

lemma Find_fields [simp]:
  "kids own es pos (FindSmallest mi) = kids own es pos mi" "kids own es pos (FindLargest mi) = kids own es pos mi"
  "mi_direction (FindSmallest mi) = mi_direction mi" "mi_direction (FindLargest mi) = mi_direction mi"
  by (simp_all add: FindSmallest_def FindLargest_def)

lemma smallest_cursor:
  assumes "kids own es (ahead own es n) mi" and "n \<le> length es" and "mi_direction mi = mForward"
  shows "merge_cursor own es (pos_from n es) (FindSmallest mi)"
  using FindSmallest_finds [OF assms(1,2)] assms by (auto simp: merge_cursor_def pos_from_def)

lemma largest_cursor:
  assumes "kids own es (behind own n) mi" and "n \<le> length es" and "mi_direction mi = mReverse"
  shows "merge_cursor own es (pos_before n) (FindLargest mi)"
  using FindLargest_finds [OF assms(1,2)] assms by (cases n) (auto simp: merge_cursor_def)

lemma smallest_cursor_set:
  assumes "kids own es (ahead own es n) mi" and "n \<le> length es"
  shows "merge_cursor own es (pos_from n es) (FindSmallest mi\<lparr>mi_direction := mForward\<rparr>)"
  using FindSmallest_finds [OF assms] assms by (auto simp: merge_cursor_def pos_from_def)

lemma largest_cursor_set:
  assumes "kids own es (behind own n) mi" and "n \<le> length es"
  shows "merge_cursor own es (pos_before n) (FindLargest mi\<lparr>mi_direction := mReverse\<rparr>)"
  using FindLargest_finds [OF assms] assms by (cases n) (auto simp: merge_cursor_def)

lemma kids_map:
  assumes "kids own es pos mi" and "\<And>i w. i < length (mi_children mi) \<Longrightarrow> wrap_at (share own es i) (pos i) w \<Longrightarrow> wrap_at (share own es i) (pos' i) (f w)"
  shows "kids own es pos' (mi\<lparr>mi_children := map f (mi_children mi)\<rparr>)"
  using assms by (simp add: kids_def)

lemma cursor_kids: "merge_cursor own es p mi \<Longrightarrow> \<exists>pos. kids own es pos mi"
  by (auto simp: merge_cursor_def split: option.splits)

lemma share_seek:
  assumes "ordered es" and "valid t"
  defines "n \<equiv> first_from (Compare c) es t"
  shows "n \<le> length es" "first_from (Compare c) (share own es i) t = srank own i n"
proof -
  let ?P = "\<lambda>e. Compare c (fst e) t < 0"
  show n: "n \<le> length es" by (simp add: n_def first_from_def length_takeWhile_le)
  have below: "?P (es ! m)" if "m < n" for m
    using that set_takeWhileD nth_mem takeWhile_nth unfolding n_def first_from_def by metis
  have above: "\<not> ?P (es ! m)" if m: "n \<le> m" "m < length es" for m
  proof
    assume lt: "?P (es ! m)"
    have "n < length es" using m by simp
    then have nn: "\<not> ?P (es ! n)" using nth_length_takeWhile [of ?P es] unfolding n_def first_from_def by simp
    then have "n < m" using lt m by (cases "n = m") auto
    then have "Compare c (fst (es ! n)) (fst (es ! m)) < 0" by (rule ordered_less [OF assms(1) _ m(2)])
    then show False using cmp_trans ordered_valid [OF assms(1)] \<open>n < length es\<close> m(2) assms(2) lt nn by blast
  qed
  show "first_from (Compare c) (share own es i) t = srank own i n"
    unfolding share_def by (rule first_from_picks [OF n]) (use below above in auto)
qed

lemma share_seek_key:
  assumes o: "ordered es" and n: "n < length es"
  shows "first_from (Compare c) (share own es i) (fst (es ! n)) = srank own i n"
  unfolding share_def
  by (rule first_from_picks) (use n ordered_less [OF o _ n] ordered_not_less [OF o] in auto)

lemma merge_First_at:
  assumes "merge_cursor own es p mi"
  shows "merge_cursor own es (pos_from 0 es) (merge_SeekToFirst ops mi)"
proof -
  obtain pos where k: "kids own es pos mi" using cursor_kids [OF assms] by blast
  show ?thesis unfolding merge_SeekToFirst_def
    by (intro smallest_cursor_set kids_map [OF k]) (use wrap_moves(1) in auto)
qed

lemma merge_Last_at:
  assumes "merge_cursor own es p mi"
  shows "merge_cursor own es (pos_before (length es)) (merge_SeekToLast ops mi)"
proof -
  obtain pos where k: "kids own es pos mi" using cursor_kids [OF assms] by blast
  show ?thesis unfolding merge_SeekToLast_def
    by (intro largest_cursor_set kids_map [OF k]) (use wrap_moves(2) [of "share own es i" for i] in auto)
qed

lemma merge_Seek_at:
  assumes "merge_cursor own es p mi" and "valid t"
  shows "merge_cursor own es (pos_from (first_from (Compare c) es t) es) (merge_Seek ops t mi)"
proof -
  obtain pos where k: "kids own es pos mi" using cursor_kids [OF assms(1)] by blast
  then have "ordered es" by (simp add: kids_def)
  note s = share_seek [OF this assms(2)]
  show ?thesis unfolding merge_Seek_def
    by (intro smallest_cursor_set kids_map [OF k] s(1)) (use wrap_moves(3) assms(2) s(2) in metis)
qed

text \<open>Changing the direction turns the place behind an entry into the place ahead of it, and back.\<close>

lemma kids_at:
  assumes "kids own es pos mi" and "i < length (mi_children mi)"
  shows "wrap_at (share own es i) (pos i) (mi_children mi ! i)"
  using assms by (simp add: kids_def)

lemma kids_others:
  assumes "kids own es pos mi" and "\<And>i w. i \<noteq> a \<Longrightarrow> wrap_at (share own es i) (pos i) w \<Longrightarrow> wrap_at (share own es i) (pos' i) (f w)"
    and "pos' a = pos a"
  shows "kids own es pos' (mi\<lparr>mi_children := other_children f a (mi_children mi)\<rparr>)"
proof -
  have "wrap_at (share own es i) (pos' i) (f (mi_children mi ! i))" if "i < length (mi_children mi)" "i \<noteq> a" for i
    using kids_at [OF assms(1) that(1)] assms(2) that(2) by simp
  moreover have "wrap_at (share own es a) (pos' a) (mi_children mi ! a)" if "a < length (mi_children mi)"
    using kids_at [OF assms(1) that] assms(3) by simp
  ultimately show ?thesis using assms(1) by (simp add: kids_def other_children_def)
qed

lemma kids_current:
  assumes "kids own es pos mi" and "wrap_at (share own es a) (pos' a) (f (mi_children mi ! a))" and "\<And>i. i \<noteq> a \<Longrightarrow> pos' i = pos i"
  shows "kids own es pos' (mi\<lparr>mi_children := (mi_children mi)[a := f (mi_children mi ! a)]\<rparr>)"
proof -
  have "wrap_at (share own es i) (pos' i) ((mi_children mi)[a := f (mi_children mi ! a)] ! i)"
    if "i < length (mi_children mi)" for i
    using kids_at [OF assms(1) that] assms(2,3) that by (cases "i = a") simp_all
  then show ?thesis using assms(1) by (simp add: kids_def)
qed

lemma child_after_at:
  assumes o: "ordered es" and n: "n < length es" and i: "i \<noteq> own n" and w: "wrap_at (share own es i) p w"
  shows "wrap_at (share own es i) (ahead own es n i) (child_after ops c (fst (es ! n)) w)"
proof -
  let ?w = "wrap_Seek ops (fst (es ! n)) w"
  have w1: "wrap_at (share own es i) (ahead own es n i) ?w"
    using wrap_moves(3) [OF w ordered_valid [OF o n]] share_seek_key [OF o n] by simp
  have "Compare c (fst (es ! n)) (wrap_key ?w) \<noteq> 0" if v: "wrap_valid ?w"
  proof -
    obtain r where r: "ahead own es n i = Some r" using wrap_looks(3) [OF w1] v by auto
    then obtain m where m: "n \<le> m" "m < length es" "own m = i" "share own es i ! r = es ! m" by (rule ahead_entry)
    then have "n < m" using i by (cases "n = m") auto
    then show ?thesis using wrap_looks(1) w1 r m ordered_less [OF o _ m(2)] by fastforce
  qed
  with w1 show ?thesis by (auto simp: child_after_def Let_def)
qed

lemma child_before_at:
  assumes o: "ordered es" and n: "n < length es" and w: "wrap_at (share own es i) p w"
  shows "wrap_at (share own es i) (behind own n i) (child_before ops (fst (es ! n)) w)"
proof -
  let ?w = "wrap_Seek ops (fst (es ! n)) w"
  have w1: "wrap_at (share own es i) (ahead own es n i) ?w"
    using wrap_moves(3) [OF w ordered_valid [OF o n]] share_seek_key [OF o n] by simp
  show ?thesis
  proof (cases "srank own i n < length (share own es i)")
    case True
    then have w2: "wrap_at (share own es i) (Some (srank own i n)) ?w" using w1 by (simp add: pos_from_def)
    show ?thesis using wrap_moves(5) [OF w2] wrap_looks(3) [OF w2] by (simp add: child_before_def Let_def)
  next
    case False
    then have "srank own i n = length (share own es i)"
      using rank_mono [of n "length es" "\<lambda>m. own m = i"] n by simp
    moreover have "wrap_at (share own es i) None ?w" using w1 False by (simp add: pos_from_def)
    ultimately show ?thesis using wrap_moves(2) [OF w1] wrap_looks(3) by (simp add: child_before_def Let_def)
  qed
qed

lemma srank_next: "i \<noteq> own n \<Longrightarrow> srank own i (Suc n) = srank own i n"
  by simp

lemma ahead_current:
  assumes "kids own es (ahead own es n) mi" and "n < length es"
  shows "wrap_at (share own es (own n)) (Some (srank own (own n) n)) (mi_children mi ! own n)"
    "wrap_key (mi_children mi ! own n) = fst (es ! n)" "wrap_value ops (mi_children mi ! own n) = snd (es ! n)"
proof -
  have "own n < length (mi_children mi)" using assms by (simp add: kids_def)
  from kids_at [OF assms(1) this] show w: "wrap_at (share own es (own n)) (Some (srank own (own n) n)) (mi_children mi ! own n)"
    using share_own [OF assms(2)] by (simp add: pos_from_def)
  show "wrap_key (mi_children mi ! own n) = fst (es ! n)" "wrap_value ops (mi_children mi ! own n) = snd (es ! n)"
    using wrap_looks(1,2) [OF w] share_own [OF assms(2)] by simp_all
qed

lemma behind_current:
  assumes "kids own es (behind own (Suc n)) mi" and "n < length es"
  shows "wrap_at (share own es (own n)) (Some (srank own (own n) n)) (mi_children mi ! own n)"
    "wrap_key (mi_children mi ! own n) = fst (es ! n)" "wrap_value ops (mi_children mi ! own n) = snd (es ! n)"
proof -
  have "own n < length (mi_children mi)" using assms by (simp add: kids_def)
  from kids_at [OF assms(1) this] show w: "wrap_at (share own es (own n)) (Some (srank own (own n) n)) (mi_children mi ! own n)"
    by simp
  show "wrap_key (mi_children mi ! own n) = fst (es ! n)" "wrap_value ops (mi_children mi ! own n) = snd (es ! n)"
    using wrap_looks(1,2) [OF w] share_own [OF assms(2)] by simp_all
qed

lemma turn_forward:
  assumes k: "kids own es (behind own (Suc n)) mi" and n: "n < length es"
  shows "kids own es (ahead own es n)
    (mi\<lparr>mi_children := other_children (child_after ops c (wrap_key (mi_children mi ! own n))) (own n) (mi_children mi)\<rparr>)"
proof (rule kids_others [OF k])
  have o: "ordered es" using k by (simp add: kids_def)
  show "wrap_at (share own es i) (ahead own es n i) (child_after ops c (wrap_key (mi_children mi ! own n)) w)"
    if "i \<noteq> own n" "wrap_at (share own es i) (behind own (Suc n) i) w" for i w
    using child_after_at [where own = own, OF o n that] behind_current(2) [OF k n] by simp
  show "ahead own es n (own n) = behind own (Suc n) (own n)" using share_own [OF n] by (simp add: pos_from_def)
qed

lemma turn_back:
  assumes k: "kids own es (ahead own es n) mi" and n: "n < length es"
  shows "kids own es (behind own (Suc n))
    (mi\<lparr>mi_children := other_children (child_before ops (wrap_key (mi_children mi ! own n))) (own n) (mi_children mi)\<rparr>)"
proof (rule kids_others [OF k])
  have o: "ordered es" using k by (simp add: kids_def)
  show "wrap_at (share own es i) (behind own (Suc n) i) (child_before ops (wrap_key (mi_children mi ! own n)) w)"
    if "i \<noteq> own n" "wrap_at (share own es i) (ahead own es n i) w" for i w
    using child_before_at [where own = own, OF o n that(2)] ahead_current(2) [OF k n] that(1) by simp
  show "behind own (Suc n) (own n) = ahead own es n (own n)" using share_own [OF n] by (simp add: pos_from_def)
qed

lemma step_forward:
  assumes k: "kids own es (ahead own es n) mi" and n: "n < length es" and dir: "mi_direction mi = mForward"
  shows "merge_cursor own es (pos_from (Suc n) es)
    (FindSmallest (mi\<lparr>mi_children := (mi_children mi)[own n := wrap_Next ops (mi_children mi ! own n)]\<rparr>))"
proof (rule smallest_cursor)
  have "wrap_at (share own es (own n)) (ahead own es (Suc n) (own n)) (wrap_Next ops (mi_children mi ! own n))"
    using wrap_moves(4) [OF ahead_current(1) [OF k n]] by simp
  then show "kids own es (ahead own es (Suc n)) (mi\<lparr>mi_children := (mi_children mi)[own n := wrap_Next ops (mi_children mi ! own n)]\<rparr>)"
    by (intro kids_current [OF k, of "own n"]) auto
qed (use n dir in simp_all)

lemma step_back:
  assumes k: "kids own es (behind own (Suc n)) mi" and n: "n < length es" and dir: "mi_direction mi = mReverse"
  shows "merge_cursor own es (pos_before n)
    (FindLargest (mi\<lparr>mi_children := (mi_children mi)[own n := wrap_Prev ops (mi_children mi ! own n)]\<rparr>))"
proof (rule largest_cursor)
  have "wrap_at (share own es (own n)) (behind own n (own n)) (wrap_Prev ops (mi_children mi ! own n))"
    using wrap_moves(5) [OF behind_current(1) [OF k n]] by simp
  then show "kids own es (behind own n) (mi\<lparr>mi_children := (mi_children mi)[own n := wrap_Prev ops (mi_children mi ! own n)]\<rparr>)"
    by (intro kids_current [OF k, of "own n"]) auto
qed (use n dir in simp_all)

lemma merge_Next_at:
  assumes "merge_cursor own es (Some n) mi"
  shows "merge_cursor own es (pos_from (Suc n) es) (merge_Next ops mi)"
proof -
  have n: "n < length es" and cur: "mi_current mi = Some (own n)" using assms by (simp_all add: merge_cursor_def)
  show ?thesis
  proof (cases "mi_direction mi")
    case mForward
    then show ?thesis using assms step_forward [of own es n mi] n cur by (simp add: merge_cursor_def merge_Next_def)
  next
    case mReverse
    then have k: "kids own es (behind own (Suc n)) mi" using assms by (simp add: merge_cursor_def)
    let ?mi = "mi\<lparr>mi_children := other_children (child_after ops c (wrap_key (mi_children mi ! own n))) (own n) (mi_children mi),
      mi_direction := mForward\<rparr>"
    have "kids own es (ahead own es n) ?mi" using turn_forward [OF k n] by (simp add: kids_def)
    from step_forward [OF this n] show ?thesis using cur mReverse k by (simp add: merge_Next_def Let_def kids_def)
  qed
qed

lemma merge_Prev_at:
  assumes "merge_cursor own es (Some n) mi"
  shows "merge_cursor own es (pos_before n) (merge_Prev ops mi)"
proof -
  have n: "n < length es" and cur: "mi_current mi = Some (own n)" using assms by (simp_all add: merge_cursor_def)
  show ?thesis
  proof (cases "mi_direction mi")
    case mReverse
    then show ?thesis using assms step_back [of own es n mi] n cur by (simp add: merge_cursor_def merge_Prev_def)
  next
    case mForward
    then have k: "kids own es (ahead own es n) mi" using assms by (simp add: merge_cursor_def)
    let ?mi = "mi\<lparr>mi_children := other_children (child_before ops (wrap_key (mi_children mi ! own n))) (own n) (mi_children mi),
      mi_direction := mReverse\<rparr>"
    have "kids own es (behind own (Suc n)) ?mi" using turn_back [OF k n] by (simp add: kids_def)
    from step_back [OF this n] show ?thesis using cur mForward by (simp add: merge_Prev_def Let_def)
  qed
qed

definition merge_at :: "entry list \<Rightarrow> nat option \<Rightarrow> 's MergingIterator \<Rightarrow> bool" where
  "merge_at es p mi \<longleftrightarrow> (\<exists>own. merge_cursor own es p mi)"

lemma merge_status_OK: "\<forall>w \<in> set ws. wrap_status ops w = OK \<Longrightarrow> merge_status ops OK ws = OK"
  by (induction ws) simp_all

lemma merge_entry_iterator: "entry_iterator (merge_Iterator ops) (Compare c) valid merge_at"
proof
  fix es p mi assume "merge_at es p mi"
  then obtain own where m: "merge_cursor own es p mi" by (auto simp: merge_at_def)
  show "i_Valid (merge_Iterator ops) mi \<longleftrightarrow> p \<noteq> None"
    using m by (auto simp: merge_Iterator_def merge_Valid_def merge_cursor_def split: option.splits)
  obtain pos where k: "kids own es pos mi" using cursor_kids [OF m] by blast
  have "\<forall>w \<in> set (mi_children mi). wrap_status ops w = OK"
    using wrap_looks(4) [OF kids_at [OF k]] by (metis in_set_conv_nth)
  then show "i_status (merge_Iterator ops) mi = OK" by (simp add: merge_Iterator_def merge_status_OK)
  show "merge_at es (pos_from 0 es) (i_SeekToFirst (merge_Iterator ops) mi)"
    "merge_at es (pos_before (length es)) (i_SeekToLast (merge_Iterator ops) mi)"
    using merge_First_at [OF m] merge_Last_at [OF m] by (auto simp: merge_Iterator_def merge_at_def)
  show "merge_at es (pos_from (first_from (Compare c) es t) es) (i_Seek (merge_Iterator ops) t mi)" if "valid t" for t
    using merge_Seek_at [OF m that] by (auto simp: merge_Iterator_def merge_at_def)
next
  fix es i mi assume "merge_at es (Some i) mi"
  then obtain own where m: "merge_cursor own es (Some i) mi" by (auto simp: merge_at_def)
  then have i: "i < length es" and cur: "mi_current mi = Some (own i)" by (simp_all add: merge_cursor_def)
  show "i < length es" by (rule i)
  show "i_key (merge_Iterator ops) mi = fst (es ! i)" "i_value (merge_Iterator ops) mi = snd (es ! i)"
    using m cur ahead_current(2,3) [of own es i mi] behind_current(2,3) [of own es i mi] i
    by (auto simp: merge_Iterator_def merge_key_def merge_value_def merge_cursor_def split: if_splits)
  show "merge_at es (pos_from (Suc i) es) (i_Next (merge_Iterator ops) mi)" "merge_at es (pos_before i) (i_Prev (merge_Iterator ops) mi)"
    using merge_Next_at [OF m] merge_Prev_at [OF m] by (auto simp: merge_Iterator_def merge_at_def)
qed

lemma make_merge_at:
  assumes "ordered es" and "\<forall>n < length es. own n < length ss" and "\<forall>i < length ss. \<exists>p. at (share own es i) p (ss ! i)"
  shows "merge_at es None (make_MergingIterator ops c ss)"
proof -
  have "kids own es (\<lambda>i. SOME p. at (share own es i) p (ss ! i)) (make_MergingIterator ops c ss)"
    using assms by (simp add: kids_def make_MergingIterator_def) (metis wrap_Set_at someI)
  then show ?thesis by (auto simp: merge_at_def merge_cursor_def make_MergingIterator_def)
qed

end

sublocale merging_iterator \<subseteq> merged: entry_iterator "merge_Iterator ops" "Compare c" valid merge_at
  by (rule merge_entry_iterator)

section \<open>Whatever \<open>NewMergingIterator\<close> chooses\<close>

context merging_iterator
begin

fun merged_at :: "entry list \<Rightarrow> nat option \<Rightarrow> 's merged \<Rightarrow> bool" where
  "merged_at es p (MEmpty st) \<longleftrightarrow> es = [] \<and> p = None \<and> st = OK"
| "merged_at es p (MChild s) \<longleftrightarrow> at es p s"
| "merged_at es p (MMerge mi) \<longleftrightarrow> merge_at es p mi"

lemma merged_entry_iterator: "entry_iterator (merged_Iterator ops) (Compare c) valid merged_at"
proof
  fix es p s assume m: "merged_at es p s"
  show "i_Valid (merged_Iterator ops) s \<longleftrightarrow> p \<noteq> None"
    using m at_Valid merged.at_Valid by (cases s) (auto simp: merged_Iterator_def Let_def EmptyIterator_def)
  show "i_status (merged_Iterator ops) s = OK"
    using m at_status merged.at_status by (cases s) (auto simp: merged_Iterator_def Let_def EmptyIterator_def)
  show "merged_at es (pos_from 0 es) (i_SeekToFirst (merged_Iterator ops) s)"
    using m at_First merged.at_First by (cases s) (auto simp: merged_Iterator_def Let_def EmptyIterator_def pos_from_def)
  show "merged_at es (pos_before (length es)) (i_SeekToLast (merged_Iterator ops) s)"
    using m at_Last merged.at_Last by (cases s) (auto simp: merged_Iterator_def Let_def EmptyIterator_def)
  show "merged_at es (pos_from (first_from (Compare c) es t) es) (i_Seek (merged_Iterator ops) t s)" if "valid t" for t
    using m at_Seek [OF _ that] merged.at_Seek [OF _ that]
    by (cases s) (auto simp: merged_Iterator_def Let_def EmptyIterator_def pos_from_def)
next
  fix es i s assume m: "merged_at es (Some i) s"
  show "i < length es" using m at_bound merged.at_bound by (cases s) auto
  show "i_key (merged_Iterator ops) s = fst (es ! i)" "i_value (merged_Iterator ops) s = snd (es ! i)"
    using m at_key at_value merged.at_key merged.at_value by (cases s; auto simp: merged_Iterator_def Let_def)+
  show "merged_at es (pos_from (Suc i) es) (i_Next (merged_Iterator ops) s)"
    "merged_at es (pos_before i) (i_Prev (merged_Iterator ops) s)"
    using m at_Next at_Prev merged.at_Next merged.at_Prev by (cases s; auto simp: merged_Iterator_def Let_def)+
qed

lemma NewMergingIterator_at:
  assumes "ordered es" and "\<forall>n < length es. own n < length ss" and kids: "\<forall>i < length ss. at (share own es i) None (ss ! i)"
  shows "merged_at es None (NewMergingIterator ops c ss)"
proof (cases "\<exists>s. ss = [s]")
  case True
  then obtain s where s: "ss = [s]" by blast
  have "filter (\<lambda>n. own n = 0) [0..<length es] = [0..<length es]"
    using assms(2) s by (auto simp: filter_id_conv)
  then have "share own es 0 = es" by (simp add: share_def picks_def map_nth)
  then show ?thesis using kids s by (simp add: NewMergingIterator_def)
next
  case False
  show ?thesis
  proof (cases ss)
    case Nil
    then have "es = []" using assms(2) by auto
    then show ?thesis using Nil by (simp add: NewMergingIterator_def NewEmptyIterator_def)
  next
    case (Cons s ss')
    then have "NewMergingIterator ops c ss = MMerge (make_MergingIterator ops c ss)"
      using False by (cases ss') (simp_all add: NewMergingIterator_def)
    then show ?thesis using make_merge_at [OF assms(1,2)] kids by auto
  qed
qed

end

section \<open>Merging blocks\<close>

interpretation merged_blocks: merging_iterator block_Iterator "InternalKeyComparator BytewiseComparator"
  "valid_ikey (\<lambda>_. True)" "block_at (InternalKeyComparator BytewiseComparator) (valid_ikey (\<lambda>_. True))"
  by (unfold_locales)

section \<open>Properties\<close>

text \<open>C13: let the entries of a list in strictly increasing key order be shared out among any number of
  child iterators, each a cursor on its share that has not been moved yet. The iterator that
  \<open>NewMergingIterator\<close> returns, the empty one, the only child or a merging iterator, is a cursor on
  the whole list: every sequence of \<open>Seek\<close>, \<open>SeekToFirst\<close>, \<open>SeekToLast\<close>, \<open>Next\<close> and \<open>Prev\<close> shows
  the client the entries of the list, also when the direction changes.\<close>

theorem merging_refines:
  assumes "entry_iterator ops (Compare c) valid at" and "key_preorder (Compare c) valid"
    and "key_preorder.increasing (Compare c) valid (map fst es)" and "\<forall>n < length es. own n < length children"
    and "\<forall>i < length children. at (share own es i) None (children ! i)" and "\<forall>cl \<in> set cs. call_valid valid cl"
  shows "iter_trace (merged_Iterator ops) cs (NewMergingIterator ops c children) = list_trace (Compare c) es cs None"
proof -
  have l: "merging_iterator ops c valid at" using assms(1,2) by (simp add: merging_iterator_def)
  show ?thesis
    by (rule entry_iterator.trace [OF merging_iterator.merged_entry_iterator [OF l]
          merging_iterator.NewMergingIterator_at [OF l assms(3-5)] assms(6)])
qed

theorem merging_refines_witness:
  "iter_trace (merged_Iterator block_Iterator) [CSeek [2], CPrev, CNext, CLast, CPrev, CPrev]
     (NewMergingIterator block_Iterator BytewiseComparator
        [built_iter BytewiseComparator 2 [([1], [7]), ([4], [9])], built_iter BytewiseComparator 2 [([2], [8])]])
   = [Some ([2], [8]), Some ([1], [7]), Some ([2], [8]), Some ([4], [9]), Some ([2], [8]), Some ([1], [7])]"
proof -
  let ?es = "[([1], [7]), ([2], [8]), ([4], [9])] :: entry list" and ?own = "\<lambda>n :: nat. n mod 2"
  let ?ss = "[built_iter BytewiseComparator 2 [([1], [7]), ([4], [9])], built_iter BytewiseComparator 2 [([2], [8])]]"
  let ?cs = "[CSeek [2], CPrev, CNext, CLast, CPrev, CPrev]"
  have inc: "bytewise.increasing (map fst ?es)" "bytewise.increasing (map fst [([1], [7]), ([4], [9])])"
    "bytewise.increasing (map fst [([2], [8])])"
    unfolding bytewise.increasing_def by (simp_all add: BytewiseComparator_def)
  have size: "length (fst (BlockBuilder_Finish (build 2 kvs))) < 2 ^ 32" if "entries_size kvs < 2 ^ 32" for kvs
    by (rule le_less_trans [OF built_size that]) simp
  have at: "block_at BytewiseComparator (\<lambda>_. True) [([1], [7]), ([4], [9])] None (built_iter BytewiseComparator 2 [([1], [7]), ([4], [9])])"
    "block_at BytewiseComparator (\<lambda>_. True) [([2], [8])] None (built_iter BytewiseComparator 2 [([2], [8])])"
    by (rule built_iter_at [OF _ size inc(2)]; simp) (rule built_iter_at [OF _ size inc(3)]; simp)
  have share: "share ?own ?es 0 = [([1], [7]), ([4], [9])]" "share ?own ?es 1 = [([2], [8])]"
    by (simp_all add: share_def picks_def upt_rec)
  have kids: "\<forall>i < length ?ss. block_at BytewiseComparator (\<lambda>_. True) (share ?own ?es i) None (?ss ! i)"
    using at share by (simp add: less_Suc_eq all_conj_distrib)
  have "list_trace (Compare BytewiseComparator) ?es ?cs None
      = [Some ([2], [8]), Some ([1], [7]), Some ([2], [8]), Some ([4], [9]), Some ([2], [8]), Some ([1], [7])]"
    by code_simp
  moreover have "\<forall>n < length ?es. ?own n < length ?ss" by (auto simp: numeral_2_eq_2)
  moreover have "\<forall>cl \<in> set ?cs. call_valid (\<lambda>_. True) cl" by simp
  ultimately show ?thesis
    by (metis merging_refines [OF block_entry_iterator [OF bytewise.key_preorder_axioms] bytewise.key_preorder_axioms
        inc(1) _ kids])
qed

end
