(* ===== verification/Ldb_Read_Correct.thy ===== *)
theory Ldb_Read_Correct
  imports Ldb_DBIter_Correct Ldb_Merger_Correct
begin

text \<open>
  The iterators put together: the iterator of a database over the merging iterator over the
  iterators of the blocks, as \<open>DBImpl::NewIterator\<close> stacks them on its tables.
\<close>

section \<open>Shares of sorted lists\<close>

lemma share_increasing:
  assumes "key_preorder cmp valid" and inc: "key_preorder.increasing cmp valid (map fst es)"
  shows "key_preorder.increasing cmp valid (map fst (share own es i))"
proof -
  note d = key_preorder.increasing_def [OF assms(1)]
  have sub: "n \<in> set (picks P m) \<Longrightarrow> n < m" for n m P by (auto simp: picks_def)
  have "sorted_wrt (<) (picks (\<lambda>n. own n = i) (length es))"
    unfolding picks_def by (rule sorted_wrt_filter) simp
  then have "sorted_wrt (\<lambda>m n. cmp (fst (es ! m)) (fst (es ! n)) < 0) (picks (\<lambda>n. own n = i) (length es))"
    by (rule sorted_wrt_mono_rel [rotated]) (use inc sub in \<open>auto simp: d sorted_wrt_iff_nth_less\<close>)
  moreover have "valid (fst e)" if "e \<in> set (share own es i)" for e
    using that inc sub by (auto simp: d share_def)
  ultimately show ?thesis by (auto simp: d share_def sorted_wrt_map comp_def)
qed

text \<open>The iterator over blocks that share out the entries of a database.\<close>

definition stack :: "Comparator \<Rightarrow> nat \<Rightarrow> entry list list \<Rightarrow> Block_Iter option merged" where
  "stack c interval blocks =
     NewMergingIterator block_Iterator (InternalKeyComparator c) (map (built_iter (InternalKeyComparator c) interval) blocks)"

section \<open>Properties\<close>

text \<open>C3: let the entries of a database, in the order of internal keys, be shared out among any
  number of blocks, each written by a \<open>BlockBuilder\<close> and shorter than \<open>2^32\<close> bytes. The iterator of the
  database over the merging iterator over the iterators of these blocks shows a client exactly the
  visible entries, whatever sequence of calls it makes: for each user key the newest entry up to the
  sequence number, unless it is a deletion, wherever in the blocks its entries are.\<close>

theorem read_stack_refines:
  assumes c: "comparator c valid" and "seq \<le> kMaxSequenceNumber" and db: "db_entries c valid ps"
    and own: "\<forall>n < length ps. own n < k" and interval: "0 < interval"
    and size: "\<forall>i < k. length (fst (BlockBuilder_Finish (build interval (share own (stored ps) i)))) < 2 ^ 32"
    and "\<forall>cl \<in> set cs. call_valid valid cl"
  shows "iter_trace (db_Iterator (merged_Iterator block_Iterator)) cs
      (Some (make_DBIter c (stack c interval (map (share own (stored ps)) [0..<k])) seq seed))
    = list_trace (Compare c) (db_view seq ps) cs None"
proof -
  let ?ic = "InternalKeyComparator c" and ?v = "valid_ikey valid" and ?es = "stored ps"
  have pre: "key_preorder (Compare ?ic) ?v"
    using comparator.internal_comparator [OF c] by (simp add: comparator_def key_order_def)
  have inc: "key_preorder.increasing (Compare ?ic) ?v (map fst ?es)" by (rule stored_increasing [OF db c])
  have l: "merging_iterator block_Iterator ?ic ?v (block_at ?ic ?v)"
    using block_entry_iterator [OF pre] pre by (simp add: merging_iterator_def)
  let ?at = "merging_iterator.merged_at ?ic ?v (block_at ?ic ?v)"
  have "block_at ?ic ?v (share own ?es i) None (built_iter ?ic interval (share own ?es i))" if "i < k" for i
    by (rule built_iter_at [OF interval _ share_increasing [OF pre inc]]) (use size that in simp)
  then have at: "?at ?es None (stack c interval (map (share own ?es) [0..<k]))"
    unfolding stack_def by (intro merging_iterator.NewMergingIterator_at [OF l inc, of own]) (use own in simp_all)
  have "entry_iterator (merged_Iterator block_Iterator) (internal_compare c) ?v ?at"
    using merging_iterator.merged_entry_iterator [OF l] by (simp add: InternalKeyComparator_def)
  then have d: "db_iterator (merged_Iterator block_Iterator) c valid ?at seq"
    using c assms(2) by (simp add: db_iterator_def db_iterator_axioms_def)
  show ?thesis
    by (rule entry_iterator.trace [OF db_iterator.user_iterator [OF d] db_iterator.make_cursor [OF d db at] assms(7)])
qed

theorem read_stack_refines_witness:
  "iter_trace (db_Iterator (merged_Iterator block_Iterator)) [CLast, CPrev, CNext, CFirst, CPrev]
     (Some (make_DBIter BytewiseComparator
       (stack BytewiseComparator 2 (map (share (\<lambda>n. n mod 3) (stored sample_ps)) [0..<3])) 5 301))
   = [Some ([99], [4]), Some ([97], [1]), Some ([99], [4]), Some ([97], [1]), None]"
proof -
  have "list_trace (Compare BytewiseComparator) (db_view 5 sample_ps) [CLast, CPrev, CNext, CFirst, CPrev] None
      = [Some ([99], [4]), Some ([97], [1]), Some ([99], [4]), Some ([97], [1]), None]"
    unfolding sample_view by code_simp
  moreover have "5 \<le> kMaxSequenceNumber" by (simp add: kMaxSequenceNumber_def push_bit_eq_mult)
  moreover have "\<forall>i < 3. length (fst (BlockBuilder_Finish (build 2 (share (\<lambda>n. n mod 3) (stored sample_ps) i)))) < 2 ^ 32"
  proof (intro allI impI)
    fix i :: nat assume "i < 3"
    then have "i = 0 \<or> i = 1 \<or> i = 2" by linarith
    then have "entries_size (share (\<lambda>n. n mod 3) (stored sample_ps) i) < 2 ^ 32"
      by (auto simp: sample_ps_def stored_def share_def picks_def upt_rec)
    then show "length (fst (BlockBuilder_Finish (build 2 (share (\<lambda>n. n mod 3) (stored sample_ps) i)))) < 2 ^ 32"
      by (rule le_less_trans [OF built_size, rotated]) simp
  qed
  moreover have "\<forall>n < length sample_ps. n mod 3 < 3" by simp
  moreover have "\<forall>cl \<in> set [CLast, CPrev, CNext, CFirst, CPrev]. call_valid (\<lambda>_. True) cl" by simp
  ultimately show ?thesis
    by (metis read_stack_refines [OF bytewise.comparator_axioms _ sample_entries, of 5 "\<lambda>n. n mod 3" 3 2] zero_less_numeral)
qed

end
