(* ===== verification/Ldb_Cache.thy ===== *)
theory Ldb_Cache
  imports Ldb_Filter "HOL-Library.Monad_Syntax"
begin

text \<open>
  LevelDB: the sharded LRU cache (\<open>util/cache.cc\<close>). The handles of a shard are a store from addresses to
  \<open>LRUHandle\<close>; the circular lists \<open>lru_\<close> and \<open>in_use_\<close> are the lists of addresses from oldest to newest,
  and a bucket of the hash table is the list of addresses along \<open>next_hash\<close>. \<open>None\<close> is a failed
  assertion, an access to a handle that has been freed, or a loop that does not end. The calls of
  deleters are recorded in order.
\<close>

record 'v LRUHandle =
  lh_value :: 'v
  lh_charge :: uint64
  lh_key :: slice
  lh_in_cache :: bool
  lh_refs :: uint32
  lh_hash :: uint32

type_synonym 'v handles = "nat \<rightharpoonup> 'v LRUHandle"

section \<open>The hash table\<close>

record HandleTable =
  ht_length :: uint32
  ht_elems :: uint32
  ht_list :: "nat list list"

definition bucket :: "uint32 \<Rightarrow> uint32 \<Rightarrow> nat" where
  "bucket len hash = unat (and hash (len - 1))"

text \<open>The slot that \<open>FindPointer\<close> returns: the chain before it, and the chain from it on.\<close>

fun find_slot :: "'v handles \<Rightarrow> slice \<Rightarrow> uint32 \<Rightarrow> nat list \<Rightarrow> (nat list \<times> nat list) option" where
  "find_slot hs key hash [] = Some ([], [])"
| "find_slot hs key hash (e # es) =
     (case hs e of
        None \<Rightarrow> None
      | Some h \<Rightarrow> if lh_hash h \<noteq> hash \<or> key \<noteq> lh_key h then map_option (\<lambda>(before, rest). (e # before, rest)) (find_slot hs key hash es)
                  else Some ([], e # es))"

definition FindPointer :: "'v handles \<Rightarrow> HandleTable \<Rightarrow> slice \<Rightarrow> uint32 \<Rightarrow> (nat list \<times> nat list) option" where
  "FindPointer hs t key hash = find_slot hs key hash (ht_list t ! bucket (ht_length t) hash)"

definition first_of :: "nat list \<Rightarrow> nat option" where
  "first_of es = (case es of [] \<Rightarrow> None | e # _ \<Rightarrow> Some e)"

definition table_Lookup :: "'v handles \<Rightarrow> HandleTable \<Rightarrow> slice \<Rightarrow> uint32 \<Rightarrow> nat option option" where
  "table_Lookup hs t key hash = map_option (\<lambda>(_, rest). first_of rest) (FindPointer hs t key hash)"

partial_function (option) resize_loop :: "uint32 \<Rightarrow> uint32 \<Rightarrow> uint32 option" where
  "resize_loop elems new_length = (if new_length < elems then resize_loop elems (new_length * 2) else Some new_length)"

text \<open>The loops over the buckets and their chains put each handle at the front of its new bucket.\<close>

fun rehash :: "'v handles \<Rightarrow> uint32 \<Rightarrow> nat list \<Rightarrow> nat list list \<Rightarrow> nat list list option" where
  "rehash hs new_length [] new_list = Some new_list"
| "rehash hs new_length (e # es) new_list =
     (case hs e of
        None \<Rightarrow> None
      | Some h \<Rightarrow> (let i = bucket new_length (lh_hash h) in rehash hs new_length es (new_list[i := e # new_list ! i])))"

definition Resize :: "'v handles \<Rightarrow> HandleTable \<Rightarrow> HandleTable option" where
  "Resize hs t =
     do {
       new_length \<leftarrow> resize_loop (ht_elems t) 4;
       new_list \<leftarrow> rehash hs new_length (concat (ht_list t)) (replicate (unat new_length) []);
       if ht_elems t \<noteq> of_nat (length (concat (ht_list t))) then None
       else Some (t\<lparr>ht_list := new_list, ht_length := new_length\<rparr>)
     }"

definition make_HandleTable :: "'v handles \<Rightarrow> HandleTable option" where
  "make_HandleTable hs = Resize hs \<lparr>ht_length = 0, ht_elems = 0, ht_list = []\<rparr>"

definition table_Insert :: "'v handles \<Rightarrow> HandleTable \<Rightarrow> nat \<Rightarrow> (nat option \<times> HandleTable) option" where
  "table_Insert hs t e =
     do {
       h \<leftarrow> hs e;
       (before, rest) \<leftarrow> FindPointer hs t (lh_key h) (lh_hash h);
       (let i = bucket (ht_length t) (lh_hash h); t = t\<lparr>ht_list := (ht_list t)[i := before @ e # tl rest]\<rparr>
        in if rest \<noteq> [] then Some (Some (hd rest), t)
           else (let t = t\<lparr>ht_elems := ht_elems t + 1\<rparr>
                 in if ht_length t < ht_elems t then map_option (Pair None) (Resize hs t) else Some (None, t)))
     }"

definition table_Remove :: "'v handles \<Rightarrow> HandleTable \<Rightarrow> slice \<Rightarrow> uint32 \<Rightarrow> (nat option \<times> HandleTable) option" where
  "table_Remove hs t key hash =
     do {
       (before, rest) \<leftarrow> FindPointer hs t key hash;
       if rest = [] then Some (None, t)
       else Some (Some (hd rest), t\<lparr>ht_list := (ht_list t)[bucket (ht_length t) hash := before @ tl rest], ht_elems := ht_elems t - 1\<rparr>)
     }"

section \<open>A shard\<close>

record 'v LRUCache =
  lc_capacity :: uint64
  lc_usage :: uint64
  lc_lru :: "nat list"
  lc_in_use :: "nat list"
  lc_table :: HandleTable
  lc_handles :: "'v handles"
  lc_fresh :: nat
  lc_deleted :: "(slice \<times> 'v) list"

definition make_LRUCache :: "uint64 \<Rightarrow> 'v LRUCache option" where
  "make_LRUCache capacity =
     map_option (\<lambda>t. \<lparr>lc_capacity = capacity, lc_usage = 0, lc_lru = [], lc_in_use = [], lc_table = t, lc_handles = Map.empty,
                     lc_fresh = 0, lc_deleted = []\<rparr>) (make_HandleTable (Map.empty :: 'v handles))"

text \<open>An entry is in one of the two lists whenever it is taken out: the callers pass an entry of the table or one
  that was just in a list, and the invariant of the proofs says so.\<close>

definition LRU_Remove :: "nat \<Rightarrow> 'v LRUCache \<Rightarrow> 'v LRUCache" where
  "LRU_Remove e s = s\<lparr>lc_lru := remove1 e (lc_lru s), lc_in_use := remove1 e (lc_in_use s)\<rparr>"

definition append_lru :: "nat \<Rightarrow> 'v LRUCache \<Rightarrow> 'v LRUCache" where
  "append_lru e s = s\<lparr>lc_lru := lc_lru s @ [e]\<rparr>"

definition append_in_use :: "nat \<Rightarrow> 'v LRUCache \<Rightarrow> 'v LRUCache" where
  "append_in_use e s = s\<lparr>lc_in_use := lc_in_use s @ [e]\<rparr>"

definition set_handle :: "nat \<Rightarrow> 'v LRUHandle \<Rightarrow> 'v LRUCache \<Rightarrow> 'v LRUCache" where
  "set_handle e h s = s\<lparr>lc_handles := (lc_handles s)(e \<mapsto> h)\<rparr>"

definition cache_Ref :: "nat \<Rightarrow> 'v LRUCache \<Rightarrow> 'v LRUCache option" where
  "cache_Ref e s =
     do {
       h \<leftarrow> lc_handles s e;
       let s = (if lh_refs h = 1 \<and> lh_in_cache h then append_in_use e (LRU_Remove e s) else s);
       Some (set_handle e (h\<lparr>lh_refs := lh_refs h + 1\<rparr>) s)
     }"

definition cache_Unref :: "nat \<Rightarrow> 'v LRUCache \<Rightarrow> 'v LRUCache option" where
  "cache_Unref e s =
     do {
       h \<leftarrow> lc_handles s e;
       if lh_refs h = 0 then None
       else
         let h = h\<lparr>lh_refs := lh_refs h - 1\<rparr>
         in if lh_refs h = 0
            then (if lh_in_cache h then None
                  else Some (s\<lparr>lc_deleted := lc_deleted s @ [(lh_key h, lh_value h)], lc_handles := (lc_handles s)(e := None)\<rparr>))
            else if lh_in_cache h \<and> lh_refs h = 1
            then Some (append_lru e (LRU_Remove e (set_handle e h s)))
            else Some (set_handle e h s)
     }"

definition cache_Lookup :: "slice \<Rightarrow> uint32 \<Rightarrow> 'v LRUCache \<Rightarrow> (nat option \<times> 'v LRUCache) option" where
  "cache_Lookup key hash s =
     do {
       r \<leftarrow> table_Lookup (lc_handles s) (lc_table s) key hash;
       case r of None \<Rightarrow> Some (None, s) | Some e \<Rightarrow> map_option (Pair (Some e)) (cache_Ref e s)
     }"

definition cache_Release :: "nat \<Rightarrow> 'v LRUCache \<Rightarrow> 'v LRUCache option" where
  "cache_Release e s = cache_Unref e s"

definition FinishErase :: "nat option \<Rightarrow> 'v LRUCache \<Rightarrow> (bool \<times> 'v LRUCache) option" where
  "FinishErase r s =
     (case r of
        None \<Rightarrow> Some (False, s)
      | Some e \<Rightarrow>
          do {
            h \<leftarrow> lc_handles s e;
            if \<not> lh_in_cache h then None
            else map_option (Pair True)
              (cache_Unref e (let s = set_handle e (h\<lparr>lh_in_cache := False\<rparr>) (LRU_Remove e s)
                              in s\<lparr>lc_usage := lc_usage s - lh_charge h\<rparr>))
          })"

definition cache_Erase :: "slice \<Rightarrow> uint32 \<Rightarrow> 'v LRUCache \<Rightarrow> 'v LRUCache option" where
  "cache_Erase key hash s =
     do {
       (r, t) \<leftarrow> table_Remove (lc_handles s) (lc_table s) key hash;
       map_option snd (FinishErase r (s\<lparr>lc_table := t\<rparr>))
     }"

text \<open>The body of the loops of \<open>Insert\<close> and \<open>Prune\<close>: the oldest entry is erased.\<close>

definition evict_oldest :: "'v LRUCache \<Rightarrow> 'v LRUCache option" where
  "evict_oldest s =
     do {
       h \<leftarrow> lc_handles s (hd (lc_lru s));
       if lh_refs h \<noteq> 1 then None
       else do {
         (r, t) \<leftarrow> table_Remove (lc_handles s) (lc_table s) (lh_key h) (lh_hash h);
         (erased, s) \<leftarrow> FinishErase r (s\<lparr>lc_table := t\<rparr>);
         if erased then Some s else None
       }
     }"

partial_function (option) evict_loop :: "'v LRUCache \<Rightarrow> 'v LRUCache option" where
  "evict_loop s =
     (if lc_capacity s < lc_usage s \<and> lc_lru s \<noteq> [] then do { s \<leftarrow> evict_oldest s; evict_loop s } else Some s)"

partial_function (option) cache_Prune :: "'v LRUCache \<Rightarrow> 'v LRUCache option" where
  "cache_Prune s = (if lc_lru s \<noteq> [] then do { s \<leftarrow> evict_oldest s; cache_Prune s } else Some s)"

definition cache_Insert :: "slice \<Rightarrow> uint32 \<Rightarrow> 'v \<Rightarrow> uint64 \<Rightarrow> 'v LRUCache \<Rightarrow> (nat \<times> 'v LRUCache) option" where
  "cache_Insert key hash val charge s =
     (let e = lc_fresh s; s = s\<lparr>lc_fresh := e + 1\<rparr>;
          h = \<lparr>lh_value = val, lh_charge = charge, lh_key = key, lh_in_cache = False, lh_refs = 1, lh_hash = hash\<rparr>
      in do {
        s \<leftarrow> (if 0 < lc_capacity s
             then
               let h = h\<lparr>lh_refs := 2, lh_in_cache := True\<rparr>;
                   s = append_in_use e (set_handle e h s);
                   s = s\<lparr>lc_usage := lc_usage s + charge\<rparr>
               in do {
                 (old, t) \<leftarrow> table_Insert (lc_handles s) (lc_table s) e;
                 map_option snd (FinishErase old (s\<lparr>lc_table := t\<rparr>))
               }
             else Some (set_handle e h s));
        s \<leftarrow> evict_loop s;
        Some (e, s)
      })"

text \<open>The destructor: no handle may be in use, and the others are deleted, oldest first.\<close>

fun destroy_loop :: "nat list \<Rightarrow> 'v LRUCache \<Rightarrow> 'v LRUCache option" where
  "destroy_loop [] s = Some s"
| "destroy_loop (e # es) s =
     do {
       h \<leftarrow> lc_handles s e;
       if \<not> lh_in_cache h \<or> lh_refs h \<noteq> 1 then None
       else do { s \<leftarrow> cache_Unref e (set_handle e (h\<lparr>lh_in_cache := False\<rparr>) s); destroy_loop es s }
     }"

definition cache_destroy :: "'v LRUCache \<Rightarrow> 'v LRUCache option" where
  "cache_destroy s = (if lc_in_use s \<noteq> [] then None else destroy_loop (lc_lru s) s)"

definition cache_TotalCharge :: "'v LRUCache \<Rightarrow> uint64" where
  "cache_TotalCharge s = lc_usage s"

section \<open>The sharded cache\<close>

text \<open>A handle is the address of an \<open>LRUHandle\<close>: the number of the shard that allocated it and its
  address there.\<close>

type_synonym Handle = "nat \<times> nat"

record 'v ShardedLRUCache =
  sc_shard :: "'v LRUCache list"
  sc_last_id :: uint64

definition kNumShardBits :: nat where "kNumShardBits = 4"

definition kNumShards :: nat where "kNumShards = 2 ^ kNumShardBits"

definition HashSlice :: "slice \<Rightarrow> uint32" where
  "HashSlice s = Hash s 0"

definition Shard :: "uint32 \<Rightarrow> nat" where
  "Shard hash = unat (drop_bit (32 - kNumShardBits) hash)"

definition NewLRUCache :: "uint64 \<Rightarrow> 'v ShardedLRUCache option" where
  "NewLRUCache capacity =
     (let per_shard = (capacity + (of_nat kNumShards - 1)) div of_nat kNumShards
      in map_option (\<lambda>s. \<lparr>sc_shard = replicate kNumShards s, sc_last_id = 0\<rparr>) (make_LRUCache per_shard))"

definition sharded_Insert :: "slice \<Rightarrow> 'v \<Rightarrow> uint64 \<Rightarrow> 'v ShardedLRUCache \<Rightarrow> (Handle \<times> 'v ShardedLRUCache) option" where
  "sharded_Insert key val charge c =
     (let hash = HashSlice key; i = Shard hash
      in do {
        (e, s) \<leftarrow> cache_Insert key hash val charge (sc_shard c ! i);
        Some ((i, e), c\<lparr>sc_shard := (sc_shard c)[i := s]\<rparr>)
      })"

definition sharded_Lookup :: "slice \<Rightarrow> 'v ShardedLRUCache \<Rightarrow> (Handle option \<times> 'v ShardedLRUCache) option" where
  "sharded_Lookup key c =
     (let hash = HashSlice key; i = Shard hash
      in do {
        (r, s) \<leftarrow> cache_Lookup key hash (sc_shard c ! i);
        Some (map_option (Pair i) r, c\<lparr>sc_shard := (sc_shard c)[i := s]\<rparr>)
      })"

definition deref :: "Handle \<Rightarrow> 'v ShardedLRUCache \<Rightarrow> 'v LRUHandle option" where
  "deref p c = (if fst p < length (sc_shard c) then lc_handles (sc_shard c ! fst p) (snd p) else None)"

definition sharded_Release :: "Handle \<Rightarrow> 'v ShardedLRUCache \<Rightarrow> 'v ShardedLRUCache option" where
  "sharded_Release p c =
     do {
       h \<leftarrow> deref p c;
       let i = Shard (lh_hash h);
       if i \<noteq> fst p then None
       else do {
         s \<leftarrow> cache_Release (snd p) (sc_shard c ! i);
         Some (c\<lparr>sc_shard := (sc_shard c)[i := s]\<rparr>)
       }
     }"

definition sharded_Erase :: "slice \<Rightarrow> 'v ShardedLRUCache \<Rightarrow> 'v ShardedLRUCache option" where
  "sharded_Erase key c =
     (let hash = HashSlice key; i = Shard hash
      in do {
        s \<leftarrow> cache_Erase key hash (sc_shard c ! i);
        Some (c\<lparr>sc_shard := (sc_shard c)[i := s]\<rparr>)
      })"

definition sharded_Value :: "Handle \<Rightarrow> 'v ShardedLRUCache \<Rightarrow> 'v option" where
  "sharded_Value p c = map_option lh_value (deref p c)"

definition sharded_NewId :: "'v ShardedLRUCache \<Rightarrow> uint64 \<times> 'v ShardedLRUCache" where
  "sharded_NewId c = (let i = sc_last_id c + 1 in (i, c\<lparr>sc_last_id := i\<rparr>))"

fun prune_shards :: "'v LRUCache list \<Rightarrow> 'v LRUCache list option" where
  "prune_shards [] = Some []"
| "prune_shards (s # ss) = do { s \<leftarrow> cache_Prune s; ss \<leftarrow> prune_shards ss; Some (s # ss) }"

definition sharded_Prune :: "'v ShardedLRUCache \<Rightarrow> 'v ShardedLRUCache option" where
  "sharded_Prune c = map_option (\<lambda>ss. c\<lparr>sc_shard := ss\<rparr>) (prune_shards (sc_shard c))"

definition sharded_TotalCharge :: "'v ShardedLRUCache \<Rightarrow> uint64" where
  "sharded_TotalCharge c = sum_list (map cache_TotalCharge (sc_shard c))"

text \<open>The interface \<open>class Cache\<close>, and the LRU cache as an implementation of it.\<close>

record ('c, 'p, 'v) Cache =
  c_Insert :: "slice \<Rightarrow> 'v \<Rightarrow> uint64 \<Rightarrow> 'c \<Rightarrow> ('p \<times> 'c) option"
  c_Lookup :: "slice \<Rightarrow> 'c \<Rightarrow> ('p option \<times> 'c) option"
  c_Release :: "'p \<Rightarrow> 'c \<Rightarrow> 'c option"
  c_Value :: "'p \<Rightarrow> 'c \<Rightarrow> 'v option"
  c_Erase :: "slice \<Rightarrow> 'c \<Rightarrow> 'c option"
  c_NewId :: "'c \<Rightarrow> uint64 \<times> 'c"
  c_Prune :: "'c \<Rightarrow> 'c option"
  c_TotalCharge :: "'c \<Rightarrow> uint64"

definition lru_Cache :: "('v ShardedLRUCache, Handle, 'v) Cache" where
  "lru_Cache = \<lparr>c_Insert = sharded_Insert, c_Lookup = sharded_Lookup, c_Release = sharded_Release, c_Value = sharded_Value,
     c_Erase = sharded_Erase, c_NewId = sharded_NewId, c_Prune = sharded_Prune, c_TotalCharge = sharded_TotalCharge\<rparr>"

end
