(* ===== verification/Ldb_Filename.thy ===== *)
theory Ldb_Filename
  imports Ldb_Status Ldb_Coding
begin

text \<open>
  LevelDB: the names of files (\<open>db/filename.cc\<close>) and decimal numbers in strings (\<open>util/logging.cc\<close>).
\<close>

section \<open>Decimal numbers\<close>

definition digit_char :: "nat \<Rightarrow> char" where
  "digit_char d = char_of (48 + d)"

text \<open>The conversion \<open>%llu\<close>, and \<open>%06llu\<close> of \<open>snprintf\<close>.\<close>

fun print_decimal :: "nat \<Rightarrow> string" where
  "print_decimal n = (if n < 10 then [digit_char n] else print_decimal (n div 10) @ [digit_char (n mod 10)])"

declare print_decimal.simps [simp del]

definition print_decimal6 :: "nat \<Rightarrow> string" where
  "print_decimal6 n = (let ds = print_decimal n in replicate (6 - length ds) CHR ''0'' @ ds)"

definition NumberToString :: "uint64 \<Rightarrow> string" where
  "NumberToString num = print_decimal (unat num)"

definition AppendNumberTo :: "string \<Rightarrow> uint64 \<Rightarrow> string" where
  "AppendNumberTo str num = str @ NumberToString num"

definition hex_char :: "nat \<Rightarrow> char" where
  "hex_char d = (if d < 10 then char_of (48 + d) else char_of (87 + d))"

definition escape_char :: "byte \<Rightarrow> string" where
  "escape_char c = (if 32 \<le> unat c \<and> unat c \<le> 126 then [char_of (unat c)]
     else [CHR 0x5C, CHR ''x'', hex_char (unat c div 16), hex_char (unat c mod 16)])"

definition EscapeString :: "slice \<Rightarrow> string" where
  "EscapeString v = concat (map escape_char v)"

text \<open>The loop of \<open>ConsumeDecimalNumber\<close>: \<open>None\<close> if the number does not fit, otherwise the value, how many
  digits were read and what follows them.\<close>

fun decimal_loop :: "uint64 \<Rightarrow> nat \<Rightarrow> string \<Rightarrow> (uint64 \<times> nat \<times> string) option" where
  "decimal_loop v n [] = Some (v, n, [])"
| "decimal_loop v n (ch # rest) =
     (let c = of_char ch :: nat
      in if c < 48 \<or> 57 < c then Some (v, n, ch # rest)
         else if (- 1) div 10 < v \<or> v = (- 1) div 10 \<and> 48 + unat ((- 1 :: uint64) mod 10) < c then None
         else decimal_loop (v * 10 + of_nat (c - 48)) (n + 1) rest)"

text \<open>The result, the value stored and the rest of the input.\<close>

definition ConsumeDecimalNumber :: "string \<Rightarrow> bool \<times> uint64 option \<times> string" where
  "ConsumeDecimalNumber inp =
     (case decimal_loop 0 0 inp of
        None \<Rightarrow> (False, None, inp)
      | Some (v, digits_consumed, rest) \<Rightarrow> (digits_consumed \<noteq> 0, Some v, rest))"

section \<open>File names\<close>

datatype FileType = kLogFile | kDBLockFile | kTableFile | kDescriptorFile | kCurrentFile | kTempFile | kInfoLogFile

definition MakeFileName :: "string \<Rightarrow> uint64 \<Rightarrow> string \<Rightarrow> string" where
  "MakeFileName dbname number suffix = dbname @ ''/'' @ print_decimal6 (unat number) @ ''.'' @ suffix"

text \<open>The names with a number are made for numbers greater than 0 only, which the code asserts. They are total
  here, as they are when assertions are compiled out; the theorems on them are for numbers greater than 0.\<close>

definition LogFileName :: "string \<Rightarrow> uint64 \<Rightarrow> string" where
  "LogFileName dbname number = MakeFileName dbname number ''log''"

definition TableFileName :: "string \<Rightarrow> uint64 \<Rightarrow> string" where
  "TableFileName dbname number = MakeFileName dbname number ''ldb''"

definition SSTTableFileName :: "string \<Rightarrow> uint64 \<Rightarrow> string" where
  "SSTTableFileName dbname number = MakeFileName dbname number ''sst''"

definition DescriptorFileName :: "string \<Rightarrow> uint64 \<Rightarrow> string" where
  "DescriptorFileName dbname number = dbname @ ''/MANIFEST-'' @ print_decimal6 (unat number)"

definition CurrentFileName :: "string \<Rightarrow> string" where
  "CurrentFileName dbname = dbname @ ''/CURRENT''"

definition LockFileName :: "string \<Rightarrow> string" where
  "LockFileName dbname = dbname @ ''/LOCK''"

definition TempFileName :: "string \<Rightarrow> uint64 \<Rightarrow> string" where
  "TempFileName dbname number = MakeFileName dbname number ''dbtmp''"

definition InfoLogFileName :: "string \<Rightarrow> string" where
  "InfoLogFileName dbname = dbname @ ''/LOG''"

definition OldInfoLogFileName :: "string \<Rightarrow> string" where
  "OldInfoLogFileName dbname = dbname @ ''/LOG.old''"

definition string_starts_with :: "string \<Rightarrow> string \<Rightarrow> bool" where
  "string_starts_with s x \<longleftrightarrow> take (length x) s = x"

text \<open>The list of forms in the comment above \<open>ParseFileName\<close> leaves out \<open>[0-9]+.dbtmp\<close>, which the code accepts.\<close>

definition ParseFileName :: "string \<Rightarrow> (uint64 \<times> FileType) option" where
  "ParseFileName filename =
     (if filename = ''CURRENT'' then Some (0, kCurrentFile)
      else if filename = ''LOCK'' then Some (0, kDBLockFile)
      else if filename = ''LOG'' \<or> filename = ''LOG.old'' then Some (0, kInfoLogFile)
      else if string_starts_with filename ''MANIFEST-''
      then (case ConsumeDecimalNumber (drop 9 filename) of
              (True, Some num, rest) \<Rightarrow> if rest \<noteq> [] then None else Some (num, kDescriptorFile)
            | _ \<Rightarrow> None)
      else (case ConsumeDecimalNumber filename of
              (True, Some num, suffix) \<Rightarrow>
                if suffix = ''.log'' then Some (num, kLogFile)
                else if suffix = ''.sst'' \<or> suffix = ''.ldb'' then Some (num, kTableFile)
                else if suffix = ''.dbtmp'' then Some (num, kTempFile)
                else None
            | _ \<Rightarrow> None))"

end
