(* ===== verification/Ldb_Format.thy ===== *)
theory Ldb_Format
  imports Ldb_Log Ldb_Block
begin

text \<open>
  LevelDB: the format of table files (\<open>table/format.h\<close>, \<open>table/format.cc\<close>): block handles, the footer
  and reading one block. A file that is read at any position is given by the operation of
  \<open>RandomAccessFile\<close>; the compressor is a parameter. \<open>None\<close> stands for an access outside a buffer.
\<close>

section \<open>Handles\<close>

record BlockHandle =
  bh_offset :: uint64
  bh_size :: uint64

definition kMaxEncodedLength :: nat where "kMaxEncodedLength = 10 + 10"

definition make_BlockHandle :: BlockHandle where
  "make_BlockHandle = \<lparr>bh_offset = NOT 0, bh_size = NOT 0\<rparr>"

definition BlockHandle_EncodeTo :: "BlockHandle \<Rightarrow> byte list \<Rightarrow> byte list" where
  "BlockHandle_EncodeTo h dst = PutVarint64 (PutVarint64 dst (bh_offset h)) (bh_size h)"

text \<open>The status, the handle and the rest of the input; a handle may be half read.\<close>

definition BlockHandle_DecodeFrom :: "slice \<Rightarrow> BlockHandle \<Rightarrow> Status \<times> BlockHandle \<times> slice" where
  "BlockHandle_DecodeFrom input h =
     (case GetVarint64 input of
        Fail input \<Rightarrow> (Corruption ''bad block handle'', h, input)
      | Ret off input \<Rightarrow>
          (case GetVarint64 input of
             Fail input \<Rightarrow> (Corruption ''bad block handle'', h\<lparr>bh_offset := off\<rparr>, input)
           | Ret sz input \<Rightarrow> (OK, h\<lparr>bh_offset := off, bh_size := sz\<rparr>, input)))"

section \<open>The footer\<close>

record Footer =
  metaindex_handle :: BlockHandle
  index_handle :: BlockHandle

definition kEncodedLength :: nat where "kEncodedLength = 2 * kMaxEncodedLength + 8"

definition kTableMagicNumber :: uint64 where "kTableMagicNumber = 0xdb4775248b80fb57"

text \<open>\<open>std::string::resize\<close>.\<close>

definition resize :: "nat \<Rightarrow> byte list \<Rightarrow> byte list" where
  "resize n s = take n s @ replicate (n - length s) 0"

definition Footer_EncodeTo :: "Footer \<Rightarrow> byte list \<Rightarrow> byte list" where
  "Footer_EncodeTo f dst =
     (let dst = BlockHandle_EncodeTo (metaindex_handle f) dst;
          dst = BlockHandle_EncodeTo (index_handle f) dst;
          dst = resize (2 * kMaxEncodedLength) dst;
          dst = PutFixed32 dst (ucast (kTableMagicNumber AND 0xffffffff))
      in PutFixed32 dst (ucast (drop_bit 32 kTableMagicNumber)))"

text \<open>The magic number is read at a fixed place, whatever the length of the input.\<close>

definition Footer_DecodeFrom :: "slice \<Rightarrow> Footer \<Rightarrow> (Status \<times> Footer \<times> slice) option" where
  "Footer_DecodeFrom input f =
     (if length input < kEncodedLength then None
      else (let magic_lo = DecodeFixed32 (drop (kEncodedLength - 8) input);
                magic_hi = DecodeFixed32 (drop (kEncodedLength - 4) input);
                magic = push_bit 32 (ucast magic_hi :: uint64) OR ucast magic_lo
            in if magic \<noteq> kTableMagicNumber
               then Some (Corruption ''not an sstable (bad magic number)'', f, input)
               else (case BlockHandle_DecodeFrom input (metaindex_handle f) of
                       (result, h, inp) \<Rightarrow>
                         if result = OK
                         then (case BlockHandle_DecodeFrom inp (index_handle f) of
                                 (result, h2, inp) \<Rightarrow>
                                   Some (result, \<lparr>metaindex_handle = h, index_handle = h2\<rparr>,
                                         if result = OK then drop kEncodedLength input else inp))
                         else Some (result, f\<lparr>metaindex_handle := h\<rparr>, inp))))"

section \<open>Reading a block\<close>

datatype CompressionType = kNoCompression | kSnappyCompression

fun CompressionType_code :: "CompressionType \<Rightarrow> byte" where
  "CompressionType_code kNoCompression = 0"
| "CompressionType_code kSnappyCompression = 1"

definition kBlockTrailerSize :: nat where "kBlockTrailerSize = 5"

text \<open>\<open>Read(offset, n, result, scratch)\<close>: the status, the bytes, and whether they are in \<open>scratch\<close>.\<close>

record 'f RandomAccessFile =
  raf_Read :: "uint64 \<Rightarrow> nat \<Rightarrow> 'f \<Rightarrow> Status \<times> slice \<times> bool"

text \<open>The compression library; without it, compression is not available and nothing can be uncompressed.\<close>

record Snappy =
  Snappy_Compress :: "slice \<Rightarrow> slice option"
  Snappy_GetUncompressedLength :: "slice \<Rightarrow> nat option"
  Snappy_Uncompress :: "slice \<Rightarrow> slice option"

definition no_snappy :: Snappy where
  "no_snappy = \<lparr>Snappy_Compress = (\<lambda>_. None), Snappy_GetUncompressedLength = (\<lambda>_. None), Snappy_Uncompress = (\<lambda>_. None)\<rparr>"

record BlockContents =
  bc_data :: slice
  bc_cachable :: bool
  bc_heap_allocated :: bool

definition no_contents :: BlockContents where
  "no_contents = \<lparr>bc_data = [], bc_cachable = False, bc_heap_allocated = False\<rparr>"

text \<open>The part behind the check of the checksum: the type byte and the contents.\<close>

definition block_contents :: "Snappy \<Rightarrow> slice \<Rightarrow> byte \<Rightarrow> bool \<Rightarrow> Status \<times> BlockContents" where
  "block_contents snappy raw t in_scratch =
     (if t = CompressionType_code kNoCompression
      then (OK, \<lparr>bc_data = raw, bc_cachable = in_scratch, bc_heap_allocated = in_scratch\<rparr>)
      else if t = CompressionType_code kSnappyCompression
      then (case Snappy_GetUncompressedLength snappy raw of
              None \<Rightarrow> (Corruption ''corrupted compressed block contents'', no_contents)
            | Some ulength \<Rightarrow>
                (case Snappy_Uncompress snappy raw of
                   None \<Rightarrow> (Corruption ''corrupted compressed block contents'', no_contents)
                 | Some ubuf \<Rightarrow> (OK, \<lparr>bc_data = take ulength ubuf, bc_cachable = True, bc_heap_allocated = True\<rparr>)))
      else (Corruption ''bad block type'', no_contents))"

text \<open>Sizes are \<open>size_t\<close>: the sum of the size in the handle and the size of the trailer wraps.\<close>

definition ReadBlock :: "'f RandomAccessFile \<Rightarrow> Snappy \<Rightarrow> 'f \<Rightarrow> bool \<Rightarrow> BlockHandle \<Rightarrow> (Status \<times> BlockContents) option" where
  "ReadBlock ops snappy f verify_checksums handle =
     (let n = unat (bh_size handle);
          total = unat (bh_size handle + of_nat kBlockTrailerSize)
      in case raf_Read ops (bh_offset handle) total f of
           (s, contents, in_scratch) \<Rightarrow>
             if s \<noteq> OK then Some (s, no_contents)
             else if length contents \<noteq> total then Some (Corruption ''truncated block read'', no_contents)
             else if length contents < n + kBlockTrailerSize then None
             else if verify_checksums \<and> crc_Value 0 (take (n + 1) contents) \<noteq> Unmask (DecodeFixed32 (drop (n + 1) contents))
             then Some (Corruption ''block checksum mismatch'', no_contents)
             else Some (block_contents snappy (take n contents) (contents ! n) in_scratch))"

end
