(* ===== verification/Ldb_TableBuilder.thy ===== *)
theory Ldb_TableBuilder
  imports Ldb_Format Ldb_Filter
begin

text \<open>
  LevelDB: writing a table (\<open>table/table_builder.cc\<close>). The file is given by the operations of
  \<open>WritableFile\<close>; the options are those that the table code uses. \<open>None\<close> is undefined behaviour of the
  filter policy. A failed assertion (closed builder, keys out of order) is not modelled: such calls are
  outside the contract of the class.
\<close>

record Options =
  opt_comparator :: Comparator
  opt_paranoid_checks :: bool
  opt_block_size :: nat
  opt_block_restart_interval :: nat
  opt_compression :: CompressionType
  opt_filter_policy :: "FilterPolicy option"

record 'f TableBuilder =
  tb_options :: Options
  tb_index_block_options :: Options
  tb_file :: 'f
  tb_offset :: uint64
  tb_status :: Status
  tb_data_block :: BlockBuilder
  tb_index_block :: BlockBuilder
  tb_last_key :: slice
  tb_num_entries :: uint64
  tb_closed :: bool
  tb_filter_block :: "FilterBlockBuilder option"
  tb_pending_index_entry :: bool
  tb_pending_handle :: BlockHandle
  tb_compressed_output :: "byte list"

text \<open>Operations on the filter block, if there is one.\<close>

definition on_filter :: "(FilterBlockBuilder \<Rightarrow> FilterBlockBuilder option) \<Rightarrow> 'f TableBuilder \<Rightarrow> 'f TableBuilder option" where
  "on_filter f r =
     (case tb_filter_block r of
        None \<Rightarrow> Some r
      | Some b \<Rightarrow> (case f b of None \<Rightarrow> None | Some b' \<Rightarrow> Some (r\<lparr>tb_filter_block := Some b'\<rparr>)))"

definition make_Rep :: "Options \<Rightarrow> 'f \<Rightarrow> 'f TableBuilder" where
  "make_Rep opt f =
     \<lparr>tb_options = opt, tb_index_block_options = opt\<lparr>opt_block_restart_interval := 1\<rparr>, tb_file = f, tb_offset = 0, tb_status = OK,
      tb_data_block = make_BlockBuilder (opt_block_restart_interval opt), tb_index_block = make_BlockBuilder 1,
      tb_last_key = [], tb_num_entries = 0, tb_closed = False,
      tb_filter_block = map_option make_FilterBlockBuilder (opt_filter_policy opt), tb_pending_index_entry = False,
      tb_pending_handle = make_BlockHandle, tb_compressed_output = []\<rparr>"

definition make_TableBuilder :: "Options \<Rightarrow> 'f \<Rightarrow> 'f TableBuilder option" where
  "make_TableBuilder options f = on_filter (StartBlock 0) (make_Rep options f)"

text \<open>\<open>same\<close>: the two comparators are the same object. The block builders refer to the options.\<close>

definition ChangeOptions :: "bool \<Rightarrow> Options \<Rightarrow> 'f TableBuilder \<Rightarrow> Status \<times> 'f TableBuilder" where
  "ChangeOptions same options r =
     (if \<not> same then (make_Status kInvalidArgument ''changing comparator while building table'' [], r)
      else (OK, r\<lparr>tb_options := options, tb_index_block_options := options\<lparr>opt_block_restart_interval := 1\<rparr>,
                  tb_data_block := (tb_data_block r)\<lparr>block_restart_interval := opt_block_restart_interval options\<rparr>,
                  tb_index_block := (tb_index_block r)\<lparr>block_restart_interval := 1\<rparr>\<rparr>))"

section \<open>Blocks\<close>

definition block_trailer :: "slice \<Rightarrow> CompressionType \<Rightarrow> byte list" where
  "block_trailer contents t =
     (let crc = crc_Value 0 contents;
          crc = Extend 0 crc [CompressionType_code t]
      in CompressionType_code t # EncodeFixed32 (Mask crc))"

definition WriteRawBlock :: "'f WritableFile \<Rightarrow> slice \<Rightarrow> CompressionType \<Rightarrow> 'f TableBuilder \<Rightarrow> BlockHandle \<times> 'f TableBuilder" where
  "WriteRawBlock ops contents t r =
     (let handle = \<lparr>bh_offset = tb_offset r, bh_size = of_nat (length contents)\<rparr>;
          (s, f) = wf_Append ops contents (tb_file r);
          r = r\<lparr>tb_status := s, tb_file := f\<rparr>
      in if s = OK
         then (let (s, f) = wf_Append ops (block_trailer contents t) (tb_file r);
                   r = r\<lparr>tb_status := s, tb_file := f\<rparr>
               in (handle, if s = OK then r\<lparr>tb_offset := tb_offset r + of_nat (length contents + kBlockTrailerSize)\<rparr> else r))
         else (handle, r))"

text \<open>What is stored for a block: its bytes, or the compressed bytes if that saves an eighth.\<close>

definition compress_block :: "Snappy \<Rightarrow> CompressionType \<Rightarrow> slice \<Rightarrow> slice \<times> CompressionType" where
  "compress_block snappy t raw =
     (case t of
        kNoCompression \<Rightarrow> (raw, kNoCompression)
      | kSnappyCompression \<Rightarrow>
          (case Snappy_Compress snappy raw of
             Some compressed \<Rightarrow>
               if length compressed < length raw - length raw div 8 then (compressed, kSnappyCompression)
               else (raw, kNoCompression)
           | None \<Rightarrow> (raw, kNoCompression)))"

text \<open>The block that is written is returned reset; \<open>compressed_output\<close> is empty again at the end.\<close>

definition WriteBlock :: "'f WritableFile \<Rightarrow> Snappy \<Rightarrow> BlockBuilder \<Rightarrow> 'f TableBuilder \<Rightarrow> BlockHandle \<times> BlockBuilder \<times> 'f TableBuilder" where
  "WriteBlock ops snappy block r =
     (let (raw, block) = BlockBuilder_Finish block;
          (contents, t) = compress_block snappy (opt_compression (tb_options r)) raw;
          (handle, r) = WriteRawBlock ops contents t r
      in (handle, BlockBuilder_Reset block, r\<lparr>tb_compressed_output := []\<rparr>))"

section \<open>Adding entries\<close>

definition TableBuilder_Flush :: "'f WritableFile \<Rightarrow> Snappy \<Rightarrow> 'f TableBuilder \<Rightarrow> 'f TableBuilder option" where
  "TableBuilder_Flush ops snappy r =
     (if tb_status r \<noteq> OK then Some r
      else if bb_buffer (tb_data_block r) = [] then Some r
      else (let (handle, block, r) = WriteBlock ops snappy (tb_data_block r) r;
                r = r\<lparr>tb_data_block := block, tb_pending_handle := handle\<rparr>;
                r = (if tb_status r = OK
                     then (let (s, f) = wf_Flush ops (tb_file r)
                           in r\<lparr>tb_pending_index_entry := True, tb_status := s, tb_file := f\<rparr>)
                     else r)
            in on_filter (StartBlock (tb_offset r)) r))"

text \<open>The index entry of the last block, when its key is known.\<close>

definition add_index_entry :: "slice \<Rightarrow> 'f TableBuilder \<Rightarrow> 'f TableBuilder" where
  "add_index_entry key r =
     r\<lparr>tb_last_key := key,
       tb_index_block := BlockBuilder_Add key (BlockHandle_EncodeTo (tb_pending_handle r) []) (tb_index_block r),
       tb_pending_index_entry := False\<rparr>"

definition TableBuilder_Add :: "'f WritableFile \<Rightarrow> Snappy \<Rightarrow> slice \<Rightarrow> slice \<Rightarrow> 'f TableBuilder \<Rightarrow> 'f TableBuilder option" where
  "TableBuilder_Add ops snappy key val r =
     (if tb_status r \<noteq> OK then Some r
      else (let r = (if tb_pending_index_entry r
                     then add_index_entry (FindShortestSeparator (opt_comparator (tb_options r)) (tb_last_key r) key) r
                     else r)
            in case on_filter (\<lambda>b. Some (AddKey key b)) r of
                 None \<Rightarrow> None
               | Some r \<Rightarrow>
                   (let r = r\<lparr>tb_last_key := key, tb_num_entries := tb_num_entries r + 1,
                              tb_data_block := BlockBuilder_Add key val (tb_data_block r)\<rparr>
                    in if opt_block_size (tb_options r) \<le> CurrentSizeEstimate (tb_data_block r)
                       then TableBuilder_Flush ops snappy r else Some r)))"

section \<open>Finishing\<close>

definition filter_key :: "FilterPolicy \<Rightarrow> slice" where
  "filter_key p = map (of_nat \<circ> of_char) (''filter.'' @ policy_Name p)"

definition write_filter_block :: "'f WritableFile \<Rightarrow> 'f TableBuilder \<Rightarrow> (BlockHandle \<times> 'f TableBuilder) option" where
  "write_filter_block ops r =
     (case tb_filter_block r of
        Some b \<Rightarrow>
          if tb_status r = OK
          then (case FilterBlock_Finish b of
                  None \<Rightarrow> None
                | Some (contents, b) \<Rightarrow> Some (WriteRawBlock ops contents kNoCompression (r\<lparr>tb_filter_block := Some b\<rparr>)))
          else Some (make_BlockHandle, r)
      | None \<Rightarrow> Some (make_BlockHandle, r))"

text \<open>The entry of the filter in the metaindex block; a null pointer if \<open>ChangeOptions\<close> has removed the policy.\<close>

definition meta_entries :: "BlockHandle \<Rightarrow> 'f TableBuilder \<Rightarrow> BlockBuilder \<Rightarrow> BlockBuilder option" where
  "meta_entries filter_block_handle r meta =
     (if tb_filter_block r = None then Some meta
      else (case opt_filter_policy (tb_options r) of
              None \<Rightarrow> None
            | Some p \<Rightarrow> Some (BlockBuilder_Add (filter_key p) (BlockHandle_EncodeTo filter_block_handle []) meta)))"

definition write_metaindex_block ::
    "'f WritableFile \<Rightarrow> Snappy \<Rightarrow> BlockHandle \<Rightarrow> 'f TableBuilder \<Rightarrow> (BlockHandle \<times> 'f TableBuilder) option" where
  "write_metaindex_block ops snappy filter_block_handle r =
     (if tb_status r = OK
      then (case meta_entries filter_block_handle r (make_BlockBuilder (opt_block_restart_interval (tb_options r))) of
              None \<Rightarrow> None
            | Some meta \<Rightarrow> (let (handle, _, r) = WriteBlock ops snappy meta r in Some (handle, r)))
      else Some (make_BlockHandle, r))"

definition write_index_block :: "'f WritableFile \<Rightarrow> Snappy \<Rightarrow> 'f TableBuilder \<Rightarrow> BlockHandle \<times> 'f TableBuilder" where
  "write_index_block ops snappy r =
     (if tb_status r = OK
      then (let r = (if tb_pending_index_entry r
                     then add_index_entry (FindShortSuccessor (opt_comparator (tb_options r)) (tb_last_key r)) r
                     else r);
                (handle, block, r) = WriteBlock ops snappy (tb_index_block r) r
            in (handle, r\<lparr>tb_index_block := block\<rparr>))
      else (make_BlockHandle, r))"

definition write_footer :: "'f WritableFile \<Rightarrow> Footer \<Rightarrow> 'f TableBuilder \<Rightarrow> 'f TableBuilder" where
  "write_footer ops footer r =
     (if tb_status r = OK
      then (let footer_encoding = Footer_EncodeTo footer [];
                (s, f) = wf_Append ops footer_encoding (tb_file r);
                r = r\<lparr>tb_status := s, tb_file := f\<rparr>
            in if s = OK then r\<lparr>tb_offset := tb_offset r + of_nat (length footer_encoding)\<rparr> else r)
      else r)"

definition TableBuilder_Finish :: "'f WritableFile \<Rightarrow> Snappy \<Rightarrow> 'f TableBuilder \<Rightarrow> (Status \<times> 'f TableBuilder) option" where
  "TableBuilder_Finish ops snappy r =
     (case TableBuilder_Flush ops snappy r of
        None \<Rightarrow> None
      | Some r \<Rightarrow>
          (case write_filter_block ops (r\<lparr>tb_closed := True\<rparr>) of
             None \<Rightarrow> None
           | Some (filter_block_handle, r) \<Rightarrow>
               (case write_metaindex_block ops snappy filter_block_handle r of
                  None \<Rightarrow> None
                | Some (metaindex_block_handle, r) \<Rightarrow>
                    (let (index_block_handle, r) = write_index_block ops snappy r;
                         r = write_footer ops \<lparr>metaindex_handle = metaindex_block_handle, index_handle = index_block_handle\<rparr> r
                     in Some (tb_status r, r)))))"

definition Abandon :: "'f TableBuilder \<Rightarrow> 'f TableBuilder" where
  "Abandon r = r\<lparr>tb_closed := True\<rparr>"

definition NumEntries :: "'f TableBuilder \<Rightarrow> uint64" where
  "NumEntries r = tb_num_entries r"

definition FileSize :: "'f TableBuilder \<Rightarrow> uint64" where
  "FileSize r = tb_offset r"

end
