(* ===== verification/Ldb_TwoLevel.thy ===== *)
theory Ldb_TwoLevel
  imports Ldb_Iterator
begin

text \<open>
  LevelDB: the two-level iterator (\<open>table/two_level_iterator.cc\<close>), which runs through the blocks that
  an index iterator points to. The index iterator, the iterators of the blocks and the function that
  opens a block are parameters. The loops that skip empty blocks give \<open>None\<close> if they run for ever.
\<close>

record ('i, 'd) TwoLevelIterator =
  tl_status :: Status
  tl_index_iter :: "'i IteratorWrapper"
  tl_data_iter :: "'d IteratorWrapper"
  tl_data_block_handle :: slice

text \<open>What a two-level iterator is made with: the operations of its two kinds of iterators and
  \<open>block_function_\<close>, applied to its argument and options.\<close>

record ('i, 'd) two_level =
  tl_index :: "'i Iterator"
  tl_data :: "'d Iterator"
  tl_block_function :: "slice \<Rightarrow> 'd"

definition make_TwoLevelIterator :: "('i, 'd) two_level \<Rightarrow> 'i \<Rightarrow> ('i, 'd) TwoLevelIterator" where
  "make_TwoLevelIterator env index_iter =
     \<lparr>tl_status = OK, tl_index_iter = wrap_Set (tl_index env) (Some index_iter) make_IteratorWrapper,
      tl_data_iter = wrap_Set (tl_data env) None make_IteratorWrapper, tl_data_block_handle = []\<rparr>"

section \<open>The data iterator\<close>

definition SaveError :: "Status \<Rightarrow> ('i, 'd) TwoLevelIterator \<Rightarrow> ('i, 'd) TwoLevelIterator" where
  "SaveError s it = (if tl_status it = OK \<and> s \<noteq> OK then it\<lparr>tl_status := s\<rparr> else it)"

definition SetDataIterator :: "('i, 'd) two_level \<Rightarrow> 'd option \<Rightarrow> ('i, 'd) TwoLevelIterator \<Rightarrow> ('i, 'd) TwoLevelIterator" where
  "SetDataIterator env data_iter it =
     (let it = (if wrap_iter (tl_data_iter it) \<noteq> None then SaveError (wrap_status (tl_data env) (tl_data_iter it)) it else it)
      in it\<lparr>tl_data_iter := wrap_Set (tl_data env) data_iter (tl_data_iter it)\<rparr>)"

definition InitDataBlock :: "('i, 'd) two_level \<Rightarrow> ('i, 'd) TwoLevelIterator \<Rightarrow> ('i, 'd) TwoLevelIterator" where
  "InitDataBlock env it =
     (if \<not> wrap_valid (tl_index_iter it) then SetDataIterator env None it
      else (let handle = wrap_value (tl_index env) (tl_index_iter it)
            in if wrap_iter (tl_data_iter it) \<noteq> None \<and> slice_compare handle (tl_data_block_handle it) = 0 then it
               else SetDataIterator env (Some (tl_block_function env handle)) (it\<lparr>tl_data_block_handle := handle\<rparr>)))"

text \<open>Apply an operation to the data iterator, if there is one.\<close>

definition on_data :: "('d IteratorWrapper \<Rightarrow> 'd IteratorWrapper) \<Rightarrow> ('i, 'd) TwoLevelIterator \<Rightarrow> ('i, 'd) TwoLevelIterator" where
  "on_data f it = (if wrap_iter (tl_data_iter it) \<noteq> None then it\<lparr>tl_data_iter := f (tl_data_iter it)\<rparr> else it)"

section \<open>Empty blocks\<close>

partial_function (option) SkipEmptyDataBlocksForward ::
    "('i, 'd) two_level \<Rightarrow> ('i, 'd) TwoLevelIterator \<Rightarrow> ('i, 'd) TwoLevelIterator option" where
  "SkipEmptyDataBlocksForward env it =
     (if wrap_iter (tl_data_iter it) = None \<or> \<not> wrap_valid (tl_data_iter it)
      then (if \<not> wrap_valid (tl_index_iter it) then Some (SetDataIterator env None it)
            else SkipEmptyDataBlocksForward env
                   (on_data (wrap_SeekToFirst (tl_data env))
                      (InitDataBlock env (it\<lparr>tl_index_iter := wrap_Next (tl_index env) (tl_index_iter it)\<rparr>))))
      else Some it)"

partial_function (option) SkipEmptyDataBlocksBackward ::
    "('i, 'd) two_level \<Rightarrow> ('i, 'd) TwoLevelIterator \<Rightarrow> ('i, 'd) TwoLevelIterator option" where
  "SkipEmptyDataBlocksBackward env it =
     (if wrap_iter (tl_data_iter it) = None \<or> \<not> wrap_valid (tl_data_iter it)
      then (if \<not> wrap_valid (tl_index_iter it) then Some (SetDataIterator env None it)
            else SkipEmptyDataBlocksBackward env
                   (on_data (wrap_SeekToLast (tl_data env))
                      (InitDataBlock env (it\<lparr>tl_index_iter := wrap_Prev (tl_index env) (tl_index_iter it)\<rparr>))))
      else Some it)"

section \<open>The operations\<close>

definition TwoLevel_Seek :: "('i, 'd) two_level \<Rightarrow> slice \<Rightarrow> ('i, 'd) TwoLevelIterator \<Rightarrow> ('i, 'd) TwoLevelIterator option" where
  "TwoLevel_Seek env target it =
     SkipEmptyDataBlocksForward env
       (on_data (wrap_Seek (tl_data env) target)
          (InitDataBlock env (it\<lparr>tl_index_iter := wrap_Seek (tl_index env) target (tl_index_iter it)\<rparr>)))"

definition TwoLevel_SeekToFirst :: "('i, 'd) two_level \<Rightarrow> ('i, 'd) TwoLevelIterator \<Rightarrow> ('i, 'd) TwoLevelIterator option" where
  "TwoLevel_SeekToFirst env it =
     SkipEmptyDataBlocksForward env
       (on_data (wrap_SeekToFirst (tl_data env))
          (InitDataBlock env (it\<lparr>tl_index_iter := wrap_SeekToFirst (tl_index env) (tl_index_iter it)\<rparr>)))"

definition TwoLevel_SeekToLast :: "('i, 'd) two_level \<Rightarrow> ('i, 'd) TwoLevelIterator \<Rightarrow> ('i, 'd) TwoLevelIterator option" where
  "TwoLevel_SeekToLast env it =
     SkipEmptyDataBlocksBackward env
       (on_data (wrap_SeekToLast (tl_data env))
          (InitDataBlock env (it\<lparr>tl_index_iter := wrap_SeekToLast (tl_index env) (tl_index_iter it)\<rparr>)))"

definition TwoLevel_Next :: "('i, 'd) two_level \<Rightarrow> ('i, 'd) TwoLevelIterator \<Rightarrow> ('i, 'd) TwoLevelIterator option" where
  "TwoLevel_Next env it = SkipEmptyDataBlocksForward env (it\<lparr>tl_data_iter := wrap_Next (tl_data env) (tl_data_iter it)\<rparr>)"

definition TwoLevel_Prev :: "('i, 'd) two_level \<Rightarrow> ('i, 'd) TwoLevelIterator \<Rightarrow> ('i, 'd) TwoLevelIterator option" where
  "TwoLevel_Prev env it = SkipEmptyDataBlocksBackward env (it\<lparr>tl_data_iter := wrap_Prev (tl_data env) (tl_data_iter it)\<rparr>)"

definition TwoLevel_status :: "('i, 'd) two_level \<Rightarrow> ('i, 'd) TwoLevelIterator \<Rightarrow> Status" where
  "TwoLevel_status env it =
     (if wrap_status (tl_index env) (tl_index_iter it) \<noteq> OK then wrap_status (tl_index env) (tl_index_iter it)
      else if wrap_iter (tl_data_iter it) \<noteq> None \<and> wrap_status (tl_data env) (tl_data_iter it) \<noteq> OK
      then wrap_status (tl_data env) (tl_data_iter it)
      else tl_status it)"

text \<open>Through the interface; \<open>None\<close> is a call that has not returned.\<close>

definition two_level_Iterator :: "('i, 'd) two_level \<Rightarrow> ('i, 'd) TwoLevelIterator option Iterator" where
  "two_level_Iterator env =
     \<lparr>i_Valid = (\<lambda>s. case s of None \<Rightarrow> False | Some it \<Rightarrow> wrap_valid (tl_data_iter it)),
      i_SeekToFirst = (\<lambda>s. Option.bind s (TwoLevel_SeekToFirst env)),
      i_SeekToLast = (\<lambda>s. Option.bind s (TwoLevel_SeekToLast env)),
      i_Seek = (\<lambda>t s. Option.bind s (TwoLevel_Seek env t)),
      i_Next = (\<lambda>s. Option.bind s (TwoLevel_Next env)), i_Prev = (\<lambda>s. Option.bind s (TwoLevel_Prev env)),
      i_key = (\<lambda>s. case s of None \<Rightarrow> [] | Some it \<Rightarrow> wrap_key (tl_data_iter it)),
      i_value = (\<lambda>s. case s of None \<Rightarrow> [] | Some it \<Rightarrow> wrap_value (tl_data env) (tl_data_iter it)),
      i_status = (\<lambda>s. case s of None \<Rightarrow> OK | Some it \<Rightarrow> TwoLevel_status env it)\<rparr>"

definition NewTwoLevelIterator :: "('i, 'd) two_level \<Rightarrow> 'i \<Rightarrow> ('i, 'd) TwoLevelIterator option" where
  "NewTwoLevelIterator env index_iter = Some (make_TwoLevelIterator env index_iter)"

end
