(* ===== verification/Ldb_Table.thy ===== *)
theory Ldb_Table
  imports Ldb_TableBuilder Ldb_TwoLevel
begin

text \<open>
  LevelDB: reading a table (\<open>table/table.cc\<close>), without a block cache. The file is given by the
  operation of \<open>RandomAccessFile\<close>. \<open>None\<close> is an access outside a buffer or undefined behaviour of the
  filter reader.
\<close>

record 'f Table =
  t_options :: Options
  t_file :: 'f
  t_filter :: "FilterBlockReader option"
  t_metaindex_handle :: BlockHandle
  t_index_block :: Block

text \<open>\<open>ReadOptions\<close> as \<open>Open\<close> and \<open>ReadMeta\<close> make them: only \<open>verify_checksums\<close> matters here.\<close>

section \<open>Iterators of blocks\<close>

text \<open>What \<open>Block::NewIterator\<close> or \<open>NewErrorIterator\<close> returns, through the interface. A block of the wrong
  format is an error iterator too.\<close>

datatype data_iter = DBlock "Block_Iter option" | DEmpty Status

definition new_data_iter :: "Comparator \<Rightarrow> Block \<Rightarrow> data_iter" where
  "new_data_iter cmp b =
     (case Block_NewIterator cmp b of
        Iter it \<Rightarrow> DBlock (Some it)
      | Empty_Iterator \<Rightarrow> DEmpty NewEmptyIterator
      | Error_Iterator s \<Rightarrow> DEmpty (NewErrorIterator s))"

fun map_data :: "(Block_Iter option \<Rightarrow> Block_Iter option) \<Rightarrow> (Status \<Rightarrow> Status) \<Rightarrow> data_iter \<Rightarrow> data_iter" where
  "map_data f g (DBlock s) = DBlock (f s)"
| "map_data f g (DEmpty s) = DEmpty (g s)"

definition data_Iterator :: "data_iter Iterator" where
  "data_Iterator =
     \<lparr>i_Valid = case_data_iter (i_Valid block_Iterator) (i_Valid EmptyIterator),
      i_SeekToFirst = map_data (i_SeekToFirst block_Iterator) (i_SeekToFirst EmptyIterator),
      i_SeekToLast = map_data (i_SeekToLast block_Iterator) (i_SeekToLast EmptyIterator),
      i_Seek = (\<lambda>t. map_data (i_Seek block_Iterator t) (i_Seek EmptyIterator t)),
      i_Next = map_data (i_Next block_Iterator) (i_Next EmptyIterator),
      i_Prev = map_data (i_Prev block_Iterator) (i_Prev EmptyIterator),
      i_key = case_data_iter (i_key block_Iterator) (i_key EmptyIterator),
      i_value = case_data_iter (i_value block_Iterator) (i_value EmptyIterator),
      i_status = case_data_iter (i_status block_Iterator) (i_status EmptyIterator)\<rparr>"

text \<open>An iterator that has met undefined behaviour.\<close>

fun bad_iter :: "data_iter \<Rightarrow> bool" where
  "bad_iter (DBlock None) = True"
| "bad_iter _ = False"

section \<open>Opening a table\<close>

definition ReadFilter :: "'f RandomAccessFile \<Rightarrow> Snappy \<Rightarrow> FilterPolicy \<Rightarrow> slice \<Rightarrow> 'f Table \<Rightarrow> 'f Table option" where
  "ReadFilter ops snappy policy filter_handle_value t =
     (case BlockHandle_DecodeFrom filter_handle_value make_BlockHandle of
        (s, filter_handle, _) \<Rightarrow>
          if s \<noteq> OK then Some t
          else (case ReadBlock ops snappy (t_file t) (opt_paranoid_checks (t_options t)) filter_handle of
                  None \<Rightarrow> None
                | Some (s, block) \<Rightarrow>
                    Some (if s \<noteq> OK then t else t\<lparr>t_filter := Some (make_FilterBlockReader policy (bc_data block))\<rparr>)))"

definition ReadMeta :: "'f RandomAccessFile \<Rightarrow> Snappy \<Rightarrow> Footer \<Rightarrow> 'f Table \<Rightarrow> 'f Table option" where
  "ReadMeta ops snappy footer t =
     (case opt_filter_policy (t_options t) of
        None \<Rightarrow> Some t
      | Some policy \<Rightarrow>
          (case ReadBlock ops snappy (t_file t) (opt_paranoid_checks (t_options t)) (metaindex_handle footer) of
             None \<Rightarrow> None
           | Some (s, contents) \<Rightarrow>
               if s \<noteq> OK then Some t
               else (let iter = i_Seek data_Iterator (filter_key policy)
                                  (new_data_iter BytewiseComparator (make_Block (bc_data contents)))
                     in if bad_iter iter then None
                        else if i_Valid data_Iterator iter \<and> i_key data_Iterator iter = filter_key policy
                        then ReadFilter ops snappy policy (i_value data_Iterator iter) t
                        else Some t)))"

text \<open>The status, and the table if it is good.\<close>

definition Table_Open :: "'f RandomAccessFile \<Rightarrow> Snappy \<Rightarrow> Options \<Rightarrow> 'f \<Rightarrow> uint64 \<Rightarrow> (Status \<times> 'f Table option) option" where
  "Table_Open ops snappy options f sz =
     (if unat sz < kEncodedLength then Some (Corruption ''file is too short to be an sstable'', None)
      else (case raf_Read ops (sz - of_nat kEncodedLength) kEncodedLength f of
              (s, footer_input, _) \<Rightarrow>
                if s \<noteq> OK then Some (s, None)
                else (case Footer_DecodeFrom footer_input \<lparr>metaindex_handle = make_BlockHandle, index_handle = make_BlockHandle\<rparr> of
                        None \<Rightarrow> None
                      | Some (s, footer, _) \<Rightarrow>
                          if s \<noteq> OK then Some (s, None)
                          else (case ReadBlock ops snappy f (opt_paranoid_checks options) (index_handle footer) of
                                  None \<Rightarrow> None
                                | Some (s, contents) \<Rightarrow>
                                    if s \<noteq> OK then Some (s, None)
                                    else (case ReadMeta ops snappy footer
                                                 \<lparr>t_options = options, t_file = f, t_filter = None,
                                                  t_metaindex_handle = metaindex_handle footer,
                                                  t_index_block = make_Block (bc_data contents)\<rparr> of
                                            None \<Rightarrow> None
                                          | Some t \<Rightarrow> Some (OK, Some t))))))"

section \<open>Reading entries\<close>

text \<open>\<open>Table::BlockReader\<close> for a table without a block cache.\<close>

definition BlockReader :: "'f RandomAccessFile \<Rightarrow> Snappy \<Rightarrow> bool \<Rightarrow> 'f Table \<Rightarrow> slice \<Rightarrow> data_iter" where
  "BlockReader ops snappy verify_checksums t index_value =
     (case BlockHandle_DecodeFrom index_value make_BlockHandle of
        (s, handle, _) \<Rightarrow>
          if s \<noteq> OK then DEmpty (NewErrorIterator s)
          else (case ReadBlock ops snappy (t_file t) verify_checksums handle of
                  None \<Rightarrow> DBlock None
                | Some (s, contents) \<Rightarrow>
                    if s = OK then new_data_iter (opt_comparator (t_options t)) (make_Block (bc_data contents))
                    else DEmpty (NewErrorIterator s)))"

definition table_levels :: "'f RandomAccessFile \<Rightarrow> Snappy \<Rightarrow> bool \<Rightarrow> 'f Table \<Rightarrow> (data_iter, data_iter) two_level" where
  "table_levels ops snappy verify_checksums t =
     \<lparr>tl_index = data_Iterator, tl_data = data_Iterator, tl_block_function = BlockReader ops snappy verify_checksums t\<rparr>"

definition Table_NewIterator ::
    "'f RandomAccessFile \<Rightarrow> Snappy \<Rightarrow> bool \<Rightarrow> 'f Table \<Rightarrow> (data_iter, data_iter) TwoLevelIterator option" where
  "Table_NewIterator ops snappy verify_checksums t =
     NewTwoLevelIterator (table_levels ops snappy verify_checksums t)
       (new_data_iter (opt_comparator (t_options t)) (t_index_block t))"

text \<open>Whether the filter denies a key in the block of an index value.\<close>

definition filter_denies :: "'f Table \<Rightarrow> slice \<Rightarrow> slice \<Rightarrow> bool option" where
  "filter_denies t index_value k =
     (case t_filter t of
        None \<Rightarrow> Some False
      | Some flt \<Rightarrow>
          (case BlockHandle_DecodeFrom index_value make_BlockHandle of
             (s, handle, _) \<Rightarrow>
               if s \<noteq> OK then Some False
               else map_option Not (FilterBlock_KeyMayMatch (bh_offset handle) k flt)))"

text \<open>The status and the entry that \<open>handle_result\<close> is called with, if it is called.\<close>

definition InternalGet ::
    "'f RandomAccessFile \<Rightarrow> Snappy \<Rightarrow> bool \<Rightarrow> slice \<Rightarrow> 'f Table \<Rightarrow> (Status \<times> (slice \<times> slice) option) option" where
  "InternalGet ops snappy verify_checksums k t =
     (let iiter = i_Seek data_Iterator k (new_data_iter (opt_comparator (t_options t)) (t_index_block t))
      in if bad_iter iiter then None
         else if \<not> i_Valid data_Iterator iiter then Some (i_status data_Iterator iiter, None)
         else (case filter_denies t (i_value data_Iterator iiter) k of
                 None \<Rightarrow> None
               | Some denied \<Rightarrow>
                   if denied then Some (i_status data_Iterator iiter, None)
                   else (let block_iter = i_Seek data_Iterator k
                                            (BlockReader ops snappy verify_checksums t (i_value data_Iterator iiter))
                         in if bad_iter block_iter then None
                            else Some (if i_status data_Iterator block_iter = OK then i_status data_Iterator iiter
                                       else i_status data_Iterator block_iter,
                                       if i_Valid data_Iterator block_iter
                                       then Some (i_key data_Iterator block_iter, i_value data_Iterator block_iter)
                                       else None))))"

definition ApproximateOffsetOf :: "slice \<Rightarrow> 'f Table \<Rightarrow> uint64 option" where
  "ApproximateOffsetOf key t =
     (let index_iter = i_Seek data_Iterator key (new_data_iter (opt_comparator (t_options t)) (t_index_block t))
      in if bad_iter index_iter then None
         else if i_Valid data_Iterator index_iter
         then (case BlockHandle_DecodeFrom (i_value data_Iterator index_iter) make_BlockHandle of
                 (s, handle, _) \<Rightarrow> Some (if s = OK then bh_offset handle else bh_offset (t_metaindex_handle t)))
         else Some (bh_offset (t_metaindex_handle t)))"

end
