(* ===== verification/Ldb_TableCache.thy ===== *)
theory Ldb_TableCache
  imports Ldb_Cache Ldb_Filename Ldb_Table
begin

text \<open>
  LevelDB: the cache of open tables (\<open>db/table_cache.cc\<close>), over the interface of a cache. Opening files is a
  parameter, \<open>Env::NewRandomAccessFile\<close>, as are the files themselves and Snappy. \<open>None\<close> is a
  null pointer that is used, or undefined behaviour of the cache or of a table.
\<close>

record 'f TableAndFile =
  tf_file :: 'f
  tf_table :: "'f Table"

record 'c TableCache =
  tc_dbname :: string
  tc_options :: Options
  tc_cache :: 'c

type_synonym 'f new_file = "string \<Rightarrow> Status \<times> 'f option"

definition make_TableCache :: "string \<Rightarrow> Options \<Rightarrow> uint64 \<Rightarrow> 'f TableAndFile ShardedLRUCache TableCache option" where
  "make_TableCache dbname options num_entries =
     map_option (\<lambda>cache. \<lparr>tc_dbname = dbname, tc_options = options, tc_cache = cache\<rparr>) (NewLRUCache num_entries)"

definition open_table_file :: "'f new_file \<Rightarrow> string \<Rightarrow> uint64 \<Rightarrow> Status \<times> 'f option" where
  "open_table_file new_file dbname file_number =
     (case new_file (TableFileName dbname file_number) of
        (s, f) \<Rightarrow>
          if s \<noteq> OK
          then (case new_file (SSTTableFileName dbname file_number) of (s', f') \<Rightarrow> if s' = OK then (OK, f') else (s, f'))
          else (s, f))"

definition FindTable :: "'f new_file \<Rightarrow> 'f RandomAccessFile \<Rightarrow> Snappy \<Rightarrow> ('c, 'p, 'f TableAndFile) Cache \<Rightarrow> uint64 \<Rightarrow> uint64
    \<Rightarrow> 'c TableCache \<Rightarrow> (Status \<times> 'p option \<times> 'c TableCache) option" where
  "FindTable new_file rops snappy cops file_number file_size tc =
     (let key = EncodeFixed64 file_number
      in do {
        (handle, cache) \<leftarrow> c_Lookup cops key (tc_cache tc);
        let tc = tc\<lparr>tc_cache := cache\<rparr>;
        (case handle of
           Some h \<Rightarrow> Some (OK, Some h, tc)
         | None \<Rightarrow>
             (case open_table_file new_file (tc_dbname tc) file_number of
                (s, f) \<Rightarrow>
                  do {
                    (s, table) \<leftarrow> (if s = OK then Option.bind f (\<lambda>f. Table_Open rops snappy (tc_options tc) f file_size) else Some (s, None));
                    if s \<noteq> OK then (if table \<noteq> None then None else Some (s, None, tc))
                    else do {
                      f \<leftarrow> f;
                      t \<leftarrow> table;
                      (h, cache) \<leftarrow> c_Insert cops key \<lparr>tf_file = f, tf_table = t\<rparr> 1 (tc_cache tc);
                      Some (OK, Some h, tc\<lparr>tc_cache := cache\<rparr>)
                    }
                  }))
      })"

definition TableCache_Get :: "'f new_file \<Rightarrow> 'f RandomAccessFile \<Rightarrow> Snappy \<Rightarrow> ('c, 'p, 'f TableAndFile) Cache \<Rightarrow> bool \<Rightarrow> uint64 \<Rightarrow> uint64
    \<Rightarrow> slice \<Rightarrow> 'c TableCache \<Rightarrow> (Status \<times> (slice \<times> slice) option \<times> 'c TableCache) option" where
  "TableCache_Get new_file rops snappy cops verify_checksums file_number file_size k tc =
     do {
       (s, handle, tc) \<leftarrow> FindTable new_file rops snappy cops file_number file_size tc;
       if s = OK
       then do {
         h \<leftarrow> handle;
         tf \<leftarrow> c_Value cops h (tc_cache tc);
         (s, result) \<leftarrow> InternalGet rops snappy verify_checksums k (tf_table tf);
         cache \<leftarrow> c_Release cops h (tc_cache tc);
         Some (s, result, tc\<lparr>tc_cache := cache\<rparr>)
       }
       else Some (s, None, tc)
     }"

text \<open>An iterator over a table, with the handle that \<open>UnrefEntry\<close> releases when it is deleted, or an error.\<close>

definition TableCache_NewIterator :: "'f new_file \<Rightarrow> 'f RandomAccessFile \<Rightarrow> Snappy \<Rightarrow> ('c, 'p, 'f TableAndFile) Cache \<Rightarrow> bool \<Rightarrow> uint64 \<Rightarrow> uint64
    \<Rightarrow> 'c TableCache \<Rightarrow> ((Status + (data_iter, data_iter) TwoLevelIterator option \<times> 'f Table \<times> 'p) \<times> 'c TableCache) option" where
  "TableCache_NewIterator new_file rops snappy cops verify_checksums file_number file_size tc =
     do {
       (s, handle, tc) \<leftarrow> FindTable new_file rops snappy cops file_number file_size tc;
       if s \<noteq> OK then Some (Inl (NewErrorIterator s), tc)
       else do {
         h \<leftarrow> handle;
         tf \<leftarrow> c_Value cops h (tc_cache tc);
         Some (Inr (Table_NewIterator rops snappy verify_checksums (tf_table tf), tf_table tf, h), tc)
       }
     }"

definition UnrefEntry :: "('c, 'p, 'v) Cache \<Rightarrow> 'p \<Rightarrow> 'c TableCache \<Rightarrow> 'c TableCache option" where
  "UnrefEntry cops h tc = map_option (\<lambda>cache. tc\<lparr>tc_cache := cache\<rparr>) (c_Release cops h (tc_cache tc))"

definition TableCache_Evict :: "('c, 'p, 'v) Cache \<Rightarrow> uint64 \<Rightarrow> 'c TableCache \<Rightarrow> 'c TableCache option" where
  "TableCache_Evict cops file_number tc = map_option (\<lambda>cache. tc\<lparr>tc_cache := cache\<rparr>) (c_Erase cops (EncodeFixed64 file_number) (tc_cache tc))"

end
