(* ===== verification/Ldb_Cache_Correct.thy ===== *)
theory Ldb_Cache_Correct
  imports Ldb_Cache "HOL-Library.Multiset"
begin

text \<open>
  The LRU cache keeps its invariant: no assertion fails, no handle is used after it has been freed,
  all loops end, and clients see a map that may forget entries nobody uses.
\<close>

section \<open>The hash table\<close>

abbreviation matches :: "'v handles \<Rightarrow> slice \<Rightarrow> uint32 \<Rightarrow> nat \<Rightarrow> bool" where
  "matches hs key hash e \<equiv> \<exists>h. hs e = Some h \<and> lh_key h = key \<and> lh_hash h = hash"

definition placed :: "'v handles \<Rightarrow> uint32 \<Rightarrow> nat list list \<Rightarrow> bool" where
  "placed hs len xss \<longleftrightarrow> (\<forall>i < length xss. \<forall>e \<in> set (xss ! i). \<exists>h. hs e = Some h \<and> bucket len (lh_hash h) = i)"

definition table_ok :: "'v handles \<Rightarrow> HandleTable \<Rightarrow> nat set \<Rightarrow> bool" where
  "table_ok hs t S \<longleftrightarrow> finite S \<and> length (ht_list t) = unat (ht_length t) \<and> 0 < ht_length t
     \<and> mset (concat (ht_list t)) = mset_set S \<and> ht_elems t = of_nat (card S) \<and> placed hs (ht_length t) (ht_list t)"

definition unique_keys :: "'v handles \<Rightarrow> nat set \<Rightarrow> bool" where
  "unique_keys hs S \<longleftrightarrow> (\<forall>e \<in> S. \<forall>e' \<in> S. \<forall>h h'. hs e = Some h \<longrightarrow> hs e' = Some h' \<longrightarrow>
     lh_key h = lh_key h' \<longrightarrow> lh_hash h = lh_hash h' \<longrightarrow> e = e')"

lemma bucket_less: "0 < len \<Longrightarrow> bucket len hash < unat len"
proof -
  assume "0 < len"
  then have "unat (len - 1) < unat len" by (simp add: unat_minus_one unat_gt_0)
  moreover have "unat (and hash (len - 1)) \<le> unat (len - 1)"
    using word_and_le1 [of hash "len - 1"] by (simp add: word_le_nat_alt)
  ultimately show ?thesis by (simp add: bucket_def)
qed

lemma mset_concat_update:
  "i < length xss \<Longrightarrow> mset (concat (xss[i := ys])) + mset (xss ! i) = mset (concat xss) + mset ys"
  by (subst (3) id_take_nth_drop [of i xss]) (simp_all add: upd_conv_take_nth_drop ac_simps)

lemma in_concat_nth: "e \<in> set (concat xss) \<longleftrightarrow> (\<exists>i < length xss. e \<in> set (xss ! i))"
  by (induction xss) (auto simp: less_Suc_eq_0_disj)

lemma matches_unique:
  assumes "unique_keys hs S" "x \<in> S" "y \<in> S" "matches hs key hash x" "matches hs key hash y"
  shows "y = x"
proof -
  obtain h g where "hs x = Some h" "hs y = Some g" "lh_key g = lh_key h" "lh_hash g = lh_hash h" using assms(4,5) by auto
  then show ?thesis using assms(1-3) unfolding unique_keys_def by blast
qed

lemma unique_keys_insert:
  assumes "unique_keys hs S" "hs e = Some h" "\<forall>x \<in> S. \<not> matches hs (lh_key h) (lh_hash h) x"
  shows "unique_keys hs (insert e S)"
proof -
  have "x = y" if "x \<in> insert e S" "y \<in> insert e S" "hs x = Some g" "hs y = Some g'" "lh_key g = lh_key g'" "lh_hash g = lh_hash g'" for x y g g'
    using that assms by (cases "x = e"; cases "y = e") (auto simp: unique_keys_def)
  then show ?thesis unfolding unique_keys_def by blast
qed

lemma find_slot_splits:
  assumes "\<forall>e \<in> set es. hs e \<noteq> None"
  obtains before rest where "find_slot hs key hash es = Some (before, rest)" "es = before @ rest"
    "\<forall>e \<in> set before. \<not> matches hs key hash e" "rest \<noteq> [] \<longrightarrow> matches hs key hash (hd rest)"
  using assms
proof (induction es arbitrary: thesis)
  case Nil
  then show ?case by simp
next
  case (Cons e es)
  then obtain h where h: "hs e = Some h" by auto
  show ?case
  proof (cases "lh_hash h \<noteq> hash \<or> key \<noteq> lh_key h")
    case True
    obtain before rest where "find_slot hs key hash es = Some (before, rest)" "es = before @ rest"
      "\<forall>e \<in> set before. \<not> matches hs key hash e" "rest \<noteq> [] \<longrightarrow> matches hs key hash (hd rest)"
      using Cons.IH Cons.prems(2) by auto
    with h True show ?thesis by (intro Cons.prems(1) [of "e # before" rest]) auto
  next
    case False
    with h show ?thesis by (intro Cons.prems(1) [of "[]" "e # es"]) auto
  qed
qed

lemma table_ok_set: "table_ok hs t S \<Longrightarrow> set (concat (ht_list t)) = S"
  unfolding table_ok_def by (metis finite_set_mset_mset_set set_mset_mset)

lemma table_ok_dom: "table_ok hs t S \<Longrightarrow> e \<in> S \<Longrightarrow> \<exists>h. hs e = Some h"
  using in_concat_nth [of e "ht_list t"] table_ok_set [of hs t S] unfolding table_ok_def placed_def by blast

lemma FindPointer_spec:
  assumes t: "table_ok hs t S"
  obtains before rest where "FindPointer hs t key hash = Some (before, rest)"
    "ht_list t ! bucket (ht_length t) hash = before @ rest"
    "\<forall>e \<in> set before. \<not> matches hs key hash e"
    "rest \<noteq> [] \<longrightarrow> matches hs key hash (hd rest) \<and> hd rest \<in> S"
    "rest = [] \<longrightarrow> (\<forall>e \<in> S. \<not> matches hs key hash e)"
proof -
  let ?i = "bucket (ht_length t) hash"
  have i: "?i < length (ht_list t)" using t bucket_less by (simp add: table_ok_def)
  then have "\<forall>e \<in> set (ht_list t ! ?i). hs e \<noteq> None" using t unfolding table_ok_def placed_def by blast
  then obtain before rest where s: "find_slot hs key hash (ht_list t ! ?i) = Some (before, rest)" "ht_list t ! ?i = before @ rest"
    "\<forall>e \<in> set before. \<not> matches hs key hash e" "rest \<noteq> [] \<longrightarrow> matches hs key hash (hd rest)"
    by (rule find_slot_splits [of "ht_list t ! ?i" hs key hash])
  have "hd rest \<in> S" if "rest \<noteq> []"
  proof -
    have "hd rest \<in> set (ht_list t ! ?i)" using that by (simp add: s(2))
    then show ?thesis using table_ok_set [OF t] i by auto
  qed
  moreover have "\<not> matches hs key hash e" if "rest = []" "e \<in> S" for e
  proof
    assume m: "matches hs key hash e"
    from that(2) obtain j where j: "j < length (ht_list t)" "e \<in> set (ht_list t ! j)"
      unfolding table_ok_set [OF t, symmetric] in_concat_nth by blast
    then have "j = ?i" using t m by (fastforce simp: table_ok_def placed_def)
    then show False using j(2) s(2,3) that(1) m by auto
  qed
  ultimately show thesis using that [of before rest] s by (auto simp: FindPointer_def)
qed

lemma table_Lookup_spec:
  assumes "table_ok hs t S"
  obtains r where "table_Lookup hs t key hash = Some r" "r = None \<longrightarrow> (\<forall>e \<in> S. \<not> matches hs key hash e)"
    "\<forall>e. r = Some e \<longrightarrow> e \<in> S \<and> matches hs key hash e"
proof -
  from FindPointer_spec [OF assms, of key hash] obtain before rest where
    "FindPointer hs t key hash = Some (before, rest)" "rest \<noteq> [] \<longrightarrow> matches hs key hash (hd rest) \<and> hd rest \<in> S"
    "rest = [] \<longrightarrow> (\<forall>e \<in> S. \<not> matches hs key hash e)" by metis
  then show thesis using that [of "first_of rest"] by (cases rest) (auto simp: table_Lookup_def first_of_def)
qed

lemma resize_loop_ends:
  assumes "k \<le> 31" and "elems \<le> 2 ^ 31"
  shows "\<exists>j \<le> 31. resize_loop elems (2 ^ k) = Some (2 ^ j)"
  using assms(1)
proof (induction "31 - k" arbitrary: k)
  case 0
  then have "k = 31" by simp
  then show ?case using assms(2) by (subst resize_loop.simps) (auto simp: not_less [symmetric])
next
  case (Suc n)
  then have "\<exists>j \<le> 31. resize_loop elems (2 ^ (k + 1)) = Some (2 ^ j)" by (intro Suc.hyps(1)) simp_all
  then show ?case using Suc.prems by (subst resize_loop.simps) (auto simp: mult.commute)
qed

lemma rehash_spec:
  assumes "\<forall>e \<in> set es. hs e \<noteq> None" and "0 < n" and "length acc = unat n" and "placed hs n acc"
  shows "\<exists>r. rehash hs n es acc = Some r \<and> length r = unat n \<and> mset (concat r) = mset es + mset (concat acc) \<and> placed hs n r"
  using assms(1,3,4)
proof (induction es arbitrary: acc)
  case Nil
  then show ?case by simp
next
  case (Cons e es)
  then obtain h where h: "hs e = Some h" by auto
  let ?i = "bucket n (lh_hash h)"
  let ?acc = "acc[?i := e # acc ! ?i]"
  have i: "?i < length acc" using bucket_less [OF assms(2)] Cons.prems(2) by simp
  have "placed hs n ?acc" using Cons.prems(3) i h by (auto simp: placed_def nth_list_update)
  with Cons.IH [of ?acc] Cons.prems obtain r where r: "rehash hs n es ?acc = Some r" "length r = unat n"
    "mset (concat r) = mset es + mset (concat ?acc)" "placed hs n r" by auto
  have "mset (concat ?acc) = mset (concat acc) + {#e#}" using mset_concat_update [OF i, of "e # acc ! ?i"] by simp
  with r h show ?case by (auto simp: Let_def)
qed

lemma Resize_spec:
  assumes S: "finite S" "card S < 2 ^ 31" and "mset (concat (ht_list t)) = mset_set S" "ht_elems t = of_nat (card S)"
    and dom: "\<forall>e \<in> S. hs e \<noteq> None"
  shows "\<exists>t'. Resize hs t = Some t' \<and> table_ok hs t' S"
proof -
  have set: "set (concat (ht_list t)) = S" using assms(1,3) by (metis finite_set_mset_mset_set set_mset_mset)
  have size: "length (concat (ht_list t)) = card S" using arg_cong [OF assms(3), of size] by simp
  have "ht_elems t \<le> 2 ^ 31" using S(2) assms(4) by (simp add: word_le_nat_alt unat_of_nat take_bit_nat_eq_self)
  from resize_loop_ends [of 2, OF _ this] obtain j where j: "j \<le> 31" "resize_loop (ht_elems t) 4 = Some (2 ^ j)" by auto
  have pos: "0 < (2 :: uint32) ^ j" using j(1) by (simp add: word_gt_0)
  have "placed hs (2 ^ j) (replicate (unat ((2 :: uint32) ^ j)) [])" by (simp add: placed_def)
  with rehash_spec [of "concat (ht_list t)" hs "2 ^ j" "replicate (unat ((2 :: uint32) ^ j)) []"] pos dom set obtain r where
    r: "rehash hs (2 ^ j) (concat (ht_list t)) (replicate (unat ((2 :: uint32) ^ j)) []) = Some r" "length r = unat ((2 :: uint32) ^ j)"
    "mset (concat r) = mset (concat (ht_list t))" "placed hs (2 ^ j) r" by auto
  then show ?thesis using j(2) assms size pos by (auto simp: Resize_def table_ok_def)
qed

text \<open>Replacing a chain by one that differs in one element.\<close>

lemma table_ok_update:
  assumes t: "table_ok hs t S" and i: "i < length (ht_list t)" and "finite S'"
    and m: "mset (ht_list t ! i) + mset_set S' = mset es + mset_set S"
    and p: "\<forall>e \<in> set es. \<exists>h. hs e = Some h \<and> bucket (ht_length t) (lh_hash h) = i"
  shows "mset (concat ((ht_list t)[i := es])) = mset_set S'" "placed hs (ht_length t) ((ht_list t)[i := es])"
proof -
  have "mset (concat ((ht_list t)[i := es])) + mset (ht_list t ! i) = mset_set S' + mset (ht_list t ! i)"
    using mset_concat_update [OF i, of es] t m by (simp add: table_ok_def ac_simps)
  then show "mset (concat ((ht_list t)[i := es])) = mset_set S'" by simp
  show "placed hs (ht_length t) ((ht_list t)[i := es])"
    using t i p by (auto simp: table_ok_def placed_def nth_list_update)
qed

lemma table_Remove_spec:
  assumes t: "table_ok hs t S"
  obtains r t' where "table_Remove hs t key hash = Some (r, t')"
    "r = None \<longrightarrow> (\<forall>e \<in> S. \<not> matches hs key hash e) \<and> t' = t"
    "\<forall>e. r = Some e \<longrightarrow> e \<in> S \<and> matches hs key hash e \<and> table_ok hs t' (S - {e})"
proof -
  from FindPointer_spec [OF t, of key hash] obtain before rest where
    f: "FindPointer hs t key hash = Some (before, rest)" "ht_list t ! bucket (ht_length t) hash = before @ rest"
    "rest \<noteq> [] \<longrightarrow> matches hs key hash (hd rest) \<and> hd rest \<in> S" "rest = [] \<longrightarrow> (\<forall>e \<in> S. \<not> matches hs key hash e)" by metis
  show thesis
  proof (cases rest)
    case Nil
    then show thesis using that [of None t] f by (simp add: table_Remove_def)
  next
    case (Cons e es)
    let ?i = "bucket (ht_length t) hash"
    have e: "e \<in> S" "matches hs key hash e" using f(3) Cons by simp_all
    have i: "?i < length (ht_list t)" using t bucket_less by (simp add: table_ok_def)
    have fin: "finite S" using t by (simp add: table_ok_def)
    have sub: "set (before @ es) \<subseteq> set (ht_list t ! ?i)" using f(2) Cons by auto
    have p: "\<forall>x \<in> set (before @ es). \<exists>h. hs x = Some h \<and> bucket (ht_length t) (lh_hash h) = ?i"
      using t i sub unfolding table_ok_def placed_def by blast
    have "mset_set S = add_mset e (mset_set (S - {e}))" using e(1) fin by (simp add: mset_set.remove)
    then have "mset (ht_list t ! ?i) + mset_set (S - {e}) = mset (before @ es) + mset_set S" by (simp add: f(2) Cons)
    note u = table_ok_update [OF t i _ this p]
    have "card S = Suc (card (S - {e}))" using e(1) fin by (metis card.remove)
    then show thesis using that [of "Some e" "t\<lparr>ht_list := (ht_list t)[?i := before @ es], ht_elems := ht_elems t - 1\<rparr>"] u fin t f(1) Cons e
      by (simp add: table_Remove_def table_ok_def)
  qed
qed

lemma table_Insert_spec:
  assumes t: "table_ok hs t S" and h: "hs e = Some h" and new: "e \<notin> S" and size: "card S + 1 < 2 ^ 31"
  obtains old t' where "table_Insert hs t e = Some (old, t')"
    "old = None \<longrightarrow> (\<forall>x \<in> S. \<not> matches hs (lh_key h) (lh_hash h) x) \<and> table_ok hs t' (insert e S)"
    "\<forall>x. old = Some x \<longrightarrow> x \<in> S \<and> matches hs (lh_key h) (lh_hash h) x \<and> table_ok hs t' (insert e (S - {x}))"
proof -
  from FindPointer_spec [OF t, of "lh_key h" "lh_hash h"] obtain before rest where
    f: "FindPointer hs t (lh_key h) (lh_hash h) = Some (before, rest)" "ht_list t ! bucket (ht_length t) (lh_hash h) = before @ rest"
    "rest \<noteq> [] \<longrightarrow> matches hs (lh_key h) (lh_hash h) (hd rest) \<and> hd rest \<in> S"
    "rest = [] \<longrightarrow> (\<forall>e \<in> S. \<not> matches hs (lh_key h) (lh_hash h) e)" by metis
  let ?i = "bucket (ht_length t) (lh_hash h)" and ?es = "before @ e # tl rest"
  let ?t = "t\<lparr>ht_list := (ht_list t)[?i := ?es]\<rparr>"
  have i: "?i < length (ht_list t)" using t bucket_less by (simp add: table_ok_def)
  have fin: "finite S" using t by (simp add: table_ok_def)
  have "set (before @ tl rest) \<subseteq> set (ht_list t ! ?i)" using f(2) by (cases rest) auto
  then have p: "\<forall>x \<in> set ?es. \<exists>h. hs x = Some h \<and> bucket (ht_length t) (lh_hash h) = ?i"
    using t i h unfolding table_ok_def placed_def by fastforce
  show thesis
  proof (cases rest)
    case Nil
    have "mset (ht_list t ! ?i) + mset_set (insert e S) = mset ?es + mset_set S" using f(2) Nil new fin by simp
    note u = table_ok_update [OF t i _ this p]
    let ?t1 = "?t\<lparr>ht_elems := ht_elems t + 1\<rparr>"
    have ok: "table_ok hs ?t1 (insert e S)" using u fin t new by (simp add: table_ok_def)
    show thesis
    proof (cases "ht_length t < ht_elems t + 1")
      case True
      have "\<forall>x \<in> insert e S. hs x \<noteq> None"
        using table_ok_dom [OF ok] by auto
      with Resize_spec [of "insert e S" ?t1 hs] ok size fin new obtain t' where "Resize hs ?t1 = Some t'" "table_ok hs t' (insert e S)"
        by (auto simp: table_ok_def)
      then show thesis using that [of None t'] f Nil h True by (simp add: table_Insert_def Let_def)
    next
      case False
      then show thesis using that [of None ?t1] f Nil h ok by (simp add: table_Insert_def Let_def)
    qed
  next
    case (Cons x xs)
    have x: "x \<in> S" "matches hs (lh_key h) (lh_hash h) x" using f(3) Cons by simp_all
    have "mset_set S = add_mset x (mset_set (S - {x}))" using x(1) fin by (simp add: mset_set.remove)
    then have "mset (ht_list t ! ?i) + mset_set (insert e (S - {x})) = mset ?es + mset_set S" using f(2) Cons new fin by simp
    note u = table_ok_update [OF t i _ this p]
    have "card (insert e (S - {x})) = card S" using new card_Suc_Diff1 [OF fin x(1)] fin by simp
    then have "table_ok hs ?t (insert e (S - {x}))" using u fin t by (simp add: table_ok_def)
    then show thesis using that [of "Some x" ?t] f Cons h x by (simp add: table_Insert_def Let_def)
  qed
qed

text \<open>The table depends only on the keys and the hashes of the handles in it.\<close>

definition lh_entry :: "'v LRUHandle \<Rightarrow> 'v \<times> slice \<times> uint32 \<times> uint64" where
  "lh_entry h = (lh_value h, lh_key h, lh_hash h, lh_charge h)"

definition same_entries :: "nat set \<Rightarrow> 'v handles \<Rightarrow> 'v handles \<Rightarrow> bool" where
  "same_entries S hs hs' \<longleftrightarrow> (\<forall>e \<in> S. map_option lh_entry (hs e) = map_option lh_entry (hs' e))"

lemma same_entriesD:
  "same_entries S hs hs' \<Longrightarrow> e \<in> S \<Longrightarrow> hs e = Some h \<Longrightarrow> \<exists>h'. hs' e = Some h' \<and> lh_entry h' = lh_entry h"
  unfolding same_entries_def by (metis map_option_eq_Some option.simps(9))

lemma same_entries_sym: "same_entries S hs hs' \<Longrightarrow> same_entries S hs' hs"
  by (simp add: same_entries_def)

lemma table_ok_entries:
  assumes t: "table_ok hs t S" and "same_entries S hs hs'"
  shows "table_ok hs' t S"
proof -
  have "\<exists>h. hs' e = Some h \<and> bucket (ht_length t) (lh_hash h) = i" if i: "i < length (ht_list t)" "e \<in> set (ht_list t ! i)" for i e
  proof -
    obtain h where h: "hs e = Some h" "bucket (ht_length t) (lh_hash h) = i"
      using t i unfolding table_ok_def placed_def by blast
    have "e \<in> S" using i unfolding table_ok_set [OF t, symmetric] in_concat_nth by blast
    from same_entriesD [OF assms(2) this h(1)] obtain h' where "hs' e = Some h'" "lh_hash h' = lh_hash h"
      by (auto simp: lh_entry_def)
    then show ?thesis using h(2) by simp
  qed
  then show ?thesis using t by (simp add: table_ok_def placed_def)
qed

lemma unique_keys_entries:
  assumes u: "unique_keys hs S" and s: "same_entries S hs hs'"
  shows "unique_keys hs' S"
proof -
  note s = same_entriesD [OF same_entries_sym [OF s]]
  have "e = e'" if "e \<in> S" "e' \<in> S" "hs' e = Some h" "hs' e' = Some h'" "lh_key h = lh_key h'" "lh_hash h = lh_hash h'" for e e' h h'
    using s [OF that(1,3)] s [OF that(2,4)] u that unfolding unique_keys_def by (auto simp: lh_entry_def)
  then show ?thesis unfolding unique_keys_def by blast
qed

section \<open>The invariant of a shard\<close>

abbreviation in_cache :: "'v LRUCache \<Rightarrow> nat set" where
  "in_cache s \<equiv> {e. \<exists>h. lc_handles s e = Some h \<and> lh_in_cache h}"

text \<open>\<open>held e\<close> is the number of references that clients have to the handle \<open>e\<close>; \<open>T\<close> is what the hash
  table holds, all entries of the cache except between two steps of an operation.\<close>

definition shard_ok :: "(nat \<Rightarrow> nat) \<Rightarrow> nat set \<Rightarrow> 'v LRUCache \<Rightarrow> bool" where
  "shard_ok held T s \<longleftrightarrow>
     (\<forall>e. lc_handles s e \<noteq> None \<longrightarrow> e < lc_fresh s)
   \<and> (\<forall>e h. lc_handles s e = Some h \<longrightarrow> unat (lh_refs h) = held e + (if lh_in_cache h then 1 else 0) \<and> 0 < unat (lh_refs h))
   \<and> (\<forall>e. lc_handles s e = None \<longrightarrow> held e = 0)
   \<and> distinct (lc_lru s) \<and> set (lc_lru s) = {e \<in> in_cache s. held e = 0}
   \<and> distinct (lc_in_use s) \<and> set (lc_in_use s) = {e \<in> in_cache s. 0 < held e}
   \<and> table_ok (lc_handles s) (lc_table s) T \<and> unique_keys (lc_handles s) T \<and> T \<subseteq> in_cache s
   \<and> lc_usage s = (\<Sum>e \<in> in_cache s. lh_charge (the (lc_handles s e)))"

abbreviation shard_inv :: "(nat \<Rightarrow> nat) \<Rightarrow> 'v LRUCache \<Rightarrow> bool" where
  "shard_inv held s \<equiv> shard_ok held (in_cache s) s"

lemma finite_in_cache: "shard_ok held T s \<Longrightarrow> finite (in_cache s)"
  by (rule finite_subset [of _ "{..<lc_fresh s}"]) (auto simp: shard_ok_def)

lemma refs_cases [simp]: "(r :: uint32) = 0 \<longleftrightarrow> unat r = 0" "r = 1 \<longleftrightarrow> unat r = 1"
  by (simp_all add: word_unat_eq_iff)

lemma shard_okD:
  assumes "shard_ok held T s"
  shows "lc_handles s e = Some h \<Longrightarrow> unat (lh_refs h) = held e + (if lh_in_cache h then 1 else 0)"
    "lc_handles s e = Some h \<Longrightarrow> 0 < unat (lh_refs h)"
    "lc_handles s e = Some h \<Longrightarrow> e < lc_fresh s" "0 < held e \<Longrightarrow> \<exists>h. lc_handles s e = Some h"
    "table_ok (lc_handles s) (lc_table s) T" "unique_keys (lc_handles s) T"
  using assms unfolding shard_ok_def by fastforce+

text \<open>A handle that takes one more reference.\<close>

lemma shard_ok_table:
  assumes "shard_ok held T s" "table_ok (lc_handles s) t T'" "unique_keys (lc_handles s) T'" "T' \<subseteq> in_cache s"
  shows "shard_ok held T' (s\<lparr>lc_table := t\<rparr>)"
proof -
  define s' where "s' = s\<lparr>lc_table := t\<rparr>"
  have fields: "lc_handles s' = lc_handles s" "lc_lru s' = lc_lru s" "lc_in_use s' = lc_in_use s" "lc_fresh s' = lc_fresh s"
    "lc_usage s' = lc_usage s" "lc_table s' = t" by (simp_all add: s'_def)
  show ?thesis unfolding s'_def [symmetric] using assms unfolding shard_ok_def fields by blast
qed

lemma list_fields [simp]:
  "lc_handles (set_handle e h s) = (lc_handles s)(e \<mapsto> h)" "lc_lru (set_handle e h s) = lc_lru s"
  "lc_in_use (set_handle e h s) = lc_in_use s" "lc_table (set_handle e h s) = lc_table s"
  "lc_fresh (set_handle e h s) = lc_fresh s" "lc_usage (set_handle e h s) = lc_usage s"
  "lc_capacity (set_handle e h s) = lc_capacity s" "lc_deleted (set_handle e h s) = lc_deleted s"
  "lc_handles (append_in_use e s) = lc_handles s" "lc_lru (append_in_use e s) = lc_lru s"
  "lc_in_use (append_in_use e s) = lc_in_use s @ [e]" "lc_table (append_in_use e s) = lc_table s"
  "lc_fresh (append_in_use e s) = lc_fresh s" "lc_usage (append_in_use e s) = lc_usage s"
  "lc_capacity (append_in_use e s) = lc_capacity s" "lc_deleted (append_in_use e s) = lc_deleted s"
  "lc_handles (append_lru e s) = lc_handles s" "lc_lru (append_lru e s) = lc_lru s @ [e]"
  "lc_in_use (append_lru e s) = lc_in_use s" "lc_table (append_lru e s) = lc_table s"
  "lc_fresh (append_lru e s) = lc_fresh s" "lc_usage (append_lru e s) = lc_usage s"
  "lc_capacity (append_lru e s) = lc_capacity s" "lc_deleted (append_lru e s) = lc_deleted s"
  "lc_handles (LRU_Remove e s) = lc_handles s" "lc_lru (LRU_Remove e s) = remove1 e (lc_lru s)"
  "lc_in_use (LRU_Remove e s) = remove1 e (lc_in_use s)" "lc_table (LRU_Remove e s) = lc_table s"
  "lc_fresh (LRU_Remove e s) = lc_fresh s" "lc_usage (LRU_Remove e s) = lc_usage s"
  "lc_capacity (LRU_Remove e s) = lc_capacity s" "lc_deleted (LRU_Remove e s) = lc_deleted s"
  by (simp_all add: set_handle_def append_in_use_def append_lru_def LRU_Remove_def)

text \<open>A handle whose number of references changes, with its place in the lists.\<close>

lemma move_handle:
  assumes s: "shard_ok held T s" and h: "lc_handles s e = Some h"
    and s': "lc_handles s' = (lc_handles s)(e \<mapsto> h\<lparr>lh_refs := r\<rparr>)" "lc_table s' = lc_table s" "lc_fresh s' = lc_fresh s"
      "lc_usage s' = lc_usage s"
    and r: "unat r = n + (if lh_in_cache h then 1 else 0)" "0 < unat r"
    and lru: "distinct (lc_lru s')" "set (lc_lru s') = {x \<in> in_cache s. (held(e := n)) x = 0}"
    and in_use: "distinct (lc_in_use s')" "set (lc_in_use s') = {x \<in> in_cache s. 0 < (held(e := n)) x}"
  shows "shard_ok (held(e := n)) T s'" "in_cache s' = in_cache s" "same_entries UNIV (lc_handles s) (lc_handles s')"
proof -
  note d = shard_okD [OF s]
  show ic: "in_cache s' = in_cache s" using h by (auto simp: s')
  have same: "same_entries X (lc_handles s) (lc_handles s')" for X using h by (auto simp: s' same_entries_def lh_entry_def)
  then show "same_entries UNIV (lc_handles s) (lc_handles s')" .
  have "(\<Sum>x \<in> in_cache s. lh_charge (the (lc_handles s' x))) = (\<Sum>x \<in> in_cache s. lh_charge (the (lc_handles s x)))"
    using h by (intro sum.cong) (auto simp: s')
  then have usage: "lc_usage s' = (\<Sum>x \<in> in_cache s. lh_charge (the (lc_handles s' x)))" using s s'(4) by (simp add: shard_ok_def)
  have table: "table_ok (lc_handles s') (lc_table s') T" "unique_keys (lc_handles s') T"
    using table_ok_entries [OF d(5) same] unique_keys_entries [OF d(6) same] s'(2) by simp_all
  have "T \<subseteq> in_cache s" "\<forall>x. lc_handles s x = None \<longrightarrow> held x = 0" using s by (simp_all add: shard_ok_def)
  then show "shard_ok (held(e := n)) T s'"
    unfolding shard_ok_def ic using usage table lru in_use h r d(1-3) by (auto simp: s')
qed

text \<open>A handle that takes one more reference.\<close>

lemma Ref_spec:
  assumes s: "shard_ok held T s" and h: "lc_handles s e = Some h" and b: "held e + 2 < 2 ^ 32"
  obtains s' where "cache_Ref e s = Some s'" "shard_ok (held(e := held e + 1)) T s'" "in_cache s' = in_cache s"
    "same_entries UNIV (lc_handles s) (lc_handles s')" "lc_capacity s' = lc_capacity s" "lc_usage s' = lc_usage s"
    "lc_fresh s' = lc_fresh s" "lc_deleted s' = lc_deleted s"
proof -
  define s' where "s' = set_handle e (h\<lparr>lh_refs := lh_refs h + 1\<rparr>)
    (if lh_refs h = 1 \<and> lh_in_cache h then append_in_use e (LRU_Remove e s) else s)"
  note d = shard_okD [OF s]
  have fields: "lc_handles s' = (lc_handles s)(e \<mapsto> h\<lparr>lh_refs := lh_refs h + 1\<rparr>)" "lc_table s' = lc_table s" "lc_fresh s' = lc_fresh s"
    "lc_usage s' = lc_usage s" "lc_capacity s' = lc_capacity s" "lc_deleted s' = lc_deleted s"
    by (simp_all add: s'_def)
  have r: "unat (lh_refs h + 1) = held e + 1 + (if lh_in_cache h then 1 else 0)" "0 < unat (lh_refs h + 1)"
    using d(1) [OF h] b by (simp_all add: unat_plus_if_size word_size split: if_splits)
  have lists: "lc_lru s' = (if lh_in_cache h \<and> held e = 0 then remove1 e (lc_lru s) else lc_lru s)"
    "lc_in_use s' = (if lh_in_cache h \<and> held e = 0 then remove1 e (lc_in_use s) @ [e] else lc_in_use s)"
    using d(1) [OF h] by (simp_all add: s'_def)
  have "distinct (lc_lru s')" "distinct (lc_in_use s')" using s by (auto simp: lists shard_ok_def)
  moreover have "set (lc_lru s') = {x \<in> in_cache s. (held(e := held e + 1)) x = 0}"
    "set (lc_in_use s') = {x \<in> in_cache s. 0 < (held(e := held e + 1)) x}"
    using s h unfolding lists shard_ok_def by (auto simp: set_remove1_eq)
  ultimately have "shard_ok (held(e := held e + 1)) T s'" "in_cache s' = in_cache s" "same_entries UNIV (lc_handles s) (lc_handles s')"
    using move_handle [OF s h fields(1-4) r] by blast+
  moreover have "cache_Ref e s = Some s'" using h by (simp add: cache_Ref_def Let_def s'_def)
  ultimately show thesis using that fields(3-6) by blast
qed

text \<open>A handle that loses a reference of a client.\<close>

lemma Unref_spec:
  assumes s: "shard_ok held T s" and held: "0 < held e"
  obtains s' where "cache_Unref e s = Some s'" "shard_ok (held(e := held e - 1)) T s'" "in_cache s' = in_cache s"
    "same_entries {x. x \<noteq> e \<or> 1 < held e \<or> x \<in> in_cache s} (lc_handles s) (lc_handles s')"
    "lc_capacity s' = lc_capacity s" "lc_usage s' = lc_usage s" "lc_fresh s' = lc_fresh s"
proof -
  note d = shard_okD [OF s]
  obtain h where h: "lc_handles s e = Some h" using d(4) [OF held] by blast
  have refs: "unat (lh_refs h) = held e + (if lh_in_cache h then 1 else 0)" using d(1) [OF h] .
  then have r1: "unat (lh_refs h - 1) = held e - 1 + (if lh_in_cache h then 1 else 0)" using held by (simp add: unat_minus_one)
  show thesis
  proof (cases "held e = 1 \<and> \<not> lh_in_cache h")
    case True
    define s' where "s' = s\<lparr>lc_deleted := lc_deleted s @ [(lh_key h, lh_value h)], lc_handles := (lc_handles s)(e := None)\<rparr>"
    have run: "cache_Unref e s = Some s'" using h refs r1 True by (simp add: cache_Unref_def Let_def s'_def)
    have ic: "in_cache s' = in_cache s" using True h by (auto simp: s'_def)
    have "same_entries T (lc_handles s) (lc_handles s')" using s True h by (auto simp: same_entries_def s'_def shard_ok_def)
    then have table: "table_ok (lc_handles s') (lc_table s') T" "unique_keys (lc_handles s') T"
      using table_ok_entries [OF d(5)] unique_keys_entries [OF d(6)] by (simp_all add: s'_def)
    have "(\<Sum>x \<in> in_cache s. lh_charge (the (lc_handles s' x))) = (\<Sum>x \<in> in_cache s. lh_charge (the (lc_handles s x)))"
      using h True by (intro sum.cong) (auto simp: s'_def)
    then have usage: "lc_usage s' = (\<Sum>x \<in> in_cache s. lh_charge (the (lc_handles s' x)))" using s by (simp add: shard_ok_def s'_def)
    have "{x \<in> in_cache s. (held(e := held e - 1)) x = 0} = {x \<in> in_cache s. held x = 0}"
      "{x \<in> in_cache s. 0 < (held(e := held e - 1)) x} = {x \<in> in_cache s. 0 < held x}" using True h by auto
    then have lists: "distinct (lc_lru s')" "set (lc_lru s') = {x \<in> in_cache s. (held(e := held e - 1)) x = 0}"
      "distinct (lc_in_use s')" "set (lc_in_use s') = {x \<in> in_cache s. 0 < (held(e := held e - 1)) x}"
      using s by (simp_all add: shard_ok_def s'_def)
    have refs: "unat (lh_refs g) = (held(e := held e - 1)) x + (if lh_in_cache g then 1 else 0) \<and> 0 < unat (lh_refs g)"
      "x < lc_fresh s'" if "lc_handles s' x = Some g" for x g
      using that d(1-3) [of x g] by (simp_all add: s'_def split: if_splits)
    have none: "(held(e := held e - 1)) x = 0" if "lc_handles s' x = None" for x
      using that True s by (cases "x = e") (simp_all add: s'_def shard_ok_def)
    have "T \<subseteq> in_cache s" using s by (simp add: shard_ok_def)
    with usage lists refs none table have "shard_ok (held(e := held e - 1)) T s'" unfolding shard_ok_def ic by blast
    then show thesis using that run ic h True by (auto simp: s'_def same_entries_def)
  next
    case False
    define s' where "s' = (if lh_in_cache h \<and> held e = 1 then append_lru e (LRU_Remove e (set_handle e (h\<lparr>lh_refs := lh_refs h - 1\<rparr>) s))
      else set_handle e (h\<lparr>lh_refs := lh_refs h - 1\<rparr>) s)"
    have run: "cache_Unref e s = Some s'" using h refs r1 False held by (auto simp: cache_Unref_def Let_def s'_def)
    have fields: "lc_handles s' = (lc_handles s)(e \<mapsto> h\<lparr>lh_refs := lh_refs h - 1\<rparr>)" "lc_table s' = lc_table s" "lc_fresh s' = lc_fresh s"
      "lc_usage s' = lc_usage s" "lc_capacity s' = lc_capacity s" by (simp_all add: s'_def)
    have lists: "lc_lru s' = (if lh_in_cache h \<and> held e = 1 then remove1 e (lc_lru s) @ [e] else lc_lru s)"
      "lc_in_use s' = (if lh_in_cache h \<and> held e = 1 then remove1 e (lc_in_use s) else lc_in_use s)" by (simp_all add: s'_def)
    have pos: "0 < unat (lh_refs h - 1)" unfolding r1 using False held by auto
    have "distinct (lc_lru s')" "distinct (lc_in_use s')" using s by (auto simp: lists shard_ok_def)
    moreover have "set (lc_lru s') = {x \<in> in_cache s. (held(e := held e - 1)) x = 0}"
      "set (lc_in_use s') = {x \<in> in_cache s. 0 < (held(e := held e - 1)) x}"
      using s h held False unfolding lists shard_ok_def by (auto simp: set_remove1_eq)
    ultimately have "shard_ok (held(e := held e - 1)) T s'" "in_cache s' = in_cache s" "same_entries UNIV (lc_handles s) (lc_handles s')"
      using move_handle [OF s h fields(1-4) r1 pos] by blast+
    then show thesis using that run fields(3-5) by (simp add: same_entries_def)
  qed
qed

text \<open>A handle that leaves the cache, once it has left the table.\<close>

lemma FinishErase_spec:
  assumes s: "shard_ok held T s" and e: "e \<in> in_cache s" "e \<notin> T"
  obtains s' where "FinishErase (Some e) s = Some (True, s')" "shard_ok held T s'" "in_cache s' = in_cache s - {e}"
    "same_entries {x. x \<noteq> e \<or> 0 < held e} (lc_handles s) (lc_handles s')"
    "lc_capacity s' = lc_capacity s" "lc_fresh s' = lc_fresh s" "lc_lru s' = remove1 e (lc_lru s)"
proof -
  note d = shard_okD [OF s]
  obtain h where h: "lc_handles s e = Some h" "lh_in_cache h" using e(1) by auto
  have refs: "unat (lh_refs h) = held e + 1" using d(1) [OF h(1)] h(2) by simp
  then have r1: "unat (lh_refs h - 1) = held e" by (simp add: unat_minus_one)
  define h' where "h' = h\<lparr>lh_in_cache := False, lh_refs := lh_refs h - 1\<rparr>"
  obtain s' where run: "FinishErase (Some e) s = Some (True, s')"
    and fields: "lc_handles s' = (lc_handles s)(e := if held e = 0 then None else Some h')" "lc_table s' = lc_table s"
      "lc_fresh s' = lc_fresh s" "lc_usage s' = lc_usage s - lh_charge h" "lc_capacity s' = lc_capacity s"
      "lc_lru s' = remove1 e (lc_lru s)" "lc_in_use s' = remove1 e (lc_in_use s)"
    using h refs r1 by (cases "held e = 0") (auto simp: FinishErase_def cache_Unref_def Let_def h'_def)
  have ic: "in_cache s' = in_cache s - {e}" using h by (auto simp: fields h'_def split: if_splits)
  have same: "same_entries {x. x \<noteq> e \<or> 0 < held e} (lc_handles s) (lc_handles s')"
    using h by (auto simp: same_entries_def fields h'_def lh_entry_def)
  then have "same_entries T (lc_handles s) (lc_handles s')" using e(2) by (auto simp: same_entries_def)
  then have table: "table_ok (lc_handles s') (lc_table s') T" "unique_keys (lc_handles s') T"
    using table_ok_entries [OF d(5)] unique_keys_entries [OF d(6)] by (simp_all add: fields)
  have "(\<Sum>x \<in> in_cache s. lh_charge (the (lc_handles s x))) = lh_charge h + (\<Sum>x \<in> in_cache s - {e}. lh_charge (the (lc_handles s x)))"
    using sum.remove [OF finite_in_cache [OF s] e(1), of "\<lambda>x. lh_charge (the (lc_handles s x))"] h(1) by simp
  moreover have "(\<Sum>x \<in> in_cache s - {e}. lh_charge (the (lc_handles s' x))) = (\<Sum>x \<in> in_cache s - {e}. lh_charge (the (lc_handles s x)))"
    by (intro sum.cong) (auto simp: fields)
  ultimately have usage: "lc_usage s' = (\<Sum>x \<in> in_cache s - {e}. lh_charge (the (lc_handles s' x)))"
    using s by (simp add: fields(4) shard_ok_def)
  have lists: "distinct (lc_lru s')" "set (lc_lru s') = {x \<in> in_cache s - {e}. held x = 0}"
    "distinct (lc_in_use s')" "set (lc_in_use s') = {x \<in> in_cache s - {e}. 0 < held x}"
    using s by (auto simp: fields shard_ok_def)
  have "shard_ok held T s'"
    unfolding shard_ok_def ic using s usage lists table e r1 d(1-3) h by (auto simp: fields shard_ok_def h'_def split: if_splits)
  then show thesis using that run ic same fields(3,5,6) by blast
qed

section \<open>The operations of a shard\<close>

text \<open>The contents of the cache, as clients see them.\<close>

definition cached :: "'v LRUCache \<Rightarrow> slice \<Rightarrow> uint32 \<Rightarrow> 'v \<Rightarrow> bool" where
  "cached s key hash v \<longleftrightarrow> (\<exists>e \<in> in_cache s. \<exists>h. lc_handles s e = Some h \<and> lh_key h = key \<and> lh_hash h = hash \<and> lh_value h = v)"

lemma cached_mono:
  assumes "in_cache s' \<subseteq> in_cache s" "same_entries (in_cache s') (lc_handles s) (lc_handles s')" "cached s' key hash v"
  shows "cached s key hash v"
proof -
  from assms(3) obtain e h where e: "e \<in> in_cache s'" "lc_handles s' e = Some h" "lh_key h = key" "lh_hash h = hash" "lh_value h = v"
    unfolding cached_def by blast
  from same_entriesD [OF same_entries_sym [OF assms(2)] e(1,2)] show ?thesis
    using e assms(1) unfolding cached_def lh_entry_def by fastforce
qed

lemma cached_eq:
  assumes "in_cache s' = in_cache s" "same_entries (in_cache s) (lc_handles s) (lc_handles s')"
  shows "cached s' = cached s"
proof (intro ext iffI)
  show "cached s key hash v" if "cached s' key hash v" for key hash v using cached_mono [OF _ _ that] assms by simp
  show "cached s' key hash v" if "cached s key hash v" for key hash v
    using cached_mono [OF _ _ that, of s'] assms same_entries_sym [OF assms(2)] by simp
qed

lemma cached_unique:
  assumes "shard_inv held s" and "cached s key hash v" and "cached s key hash v'"
  shows "v = v'"
proof -
  from assms(2,3) obtain e e' h h' where e: "e \<in> in_cache s" "lc_handles s e = Some h" "lh_key h = key" "lh_hash h = hash" "lh_value h = v"
    "e' \<in> in_cache s" "lc_handles s e' = Some h'" "lh_key h' = key" "lh_hash h' = hash" "lh_value h' = v'"
    unfolding cached_def by blast
  then have "e = e'" using shard_okD(6) [OF assms(1)] unfolding unique_keys_def by blast
  with e show ?thesis by simp
qed

lemma same_entries_subset: "same_entries S hs hs' \<Longrightarrow> S' \<subseteq> S \<Longrightarrow> same_entries S' hs hs'"
  by (auto simp: same_entries_def)

lemma same_entries_trans: "same_entries S hs hs' \<Longrightarrow> same_entries S hs' hs'' \<Longrightarrow> same_entries S hs hs''"
  by (simp add: same_entries_def)

lemma Lookup_spec:
  assumes s: "shard_inv held s" and b: "\<And>e. held e + 2 < 2 ^ 32"
  obtains (miss) "cache_Lookup key hash s = Some (None, s)" "\<And>v. \<not> cached s key hash v"
  | (hit) e h s' where "cache_Lookup key hash s = Some (Some e, s')" "shard_inv (held(e := held e + 1)) s'"
      "lc_handles s' e = Some h" "lh_key h = key" "lh_hash h = hash" "cached s key hash (lh_value h)"
      "same_entries UNIV (lc_handles s) (lc_handles s')" "cached s' = cached s" "lc_fresh s' = lc_fresh s" "lc_capacity s' = lc_capacity s"
proof -
  note d = shard_okD [OF s]
  obtain r where r: "table_Lookup (lc_handles s) (lc_table s) key hash = Some r"
    "r = None \<longrightarrow> (\<forall>e \<in> in_cache s. \<not> matches (lc_handles s) key hash e)"
    "\<forall>e. r = Some e \<longrightarrow> e \<in> in_cache s \<and> matches (lc_handles s) key hash e"
    by (rule table_Lookup_spec [OF d(5), of key hash])
  show thesis
  proof (cases r)
    case None
    then show thesis using miss r(1,2) by (auto simp: cache_Lookup_def cached_def)
  next
    case (Some e)
    then obtain h where h: "lc_handles s e = Some h" "lh_in_cache h" "lh_key h = key" "lh_hash h = hash" using r(3) by auto
    obtain s' where s': "cache_Ref e s = Some s'" "shard_ok (held(e := held e + 1)) (in_cache s) s'"
      "in_cache s' = in_cache s" "same_entries UNIV (lc_handles s) (lc_handles s')" "lc_capacity s' = lc_capacity s"
      "lc_usage s' = lc_usage s" "lc_fresh s' = lc_fresh s" "lc_deleted s' = lc_deleted s"
      by (rule Ref_spec [OF s h(1) b])
    obtain h' where h': "lc_handles s' e = Some h'" "lh_entry h' = lh_entry h" using same_entriesD [OF s'(4) _ h(1)] by auto
    have c: "cached s key hash (lh_value h')" using h h'(2) by (auto simp: cached_def lh_entry_def)
    have eq: "cached s' = cached s" using cached_eq [OF s'(3)] s'(4) same_entries_subset by blast
    show thesis
      by (rule hit [of e s' h']) (use s' h h' c eq Some r(1) in \<open>simp_all add: cache_Lookup_def lh_entry_def\<close>)
  qed
qed

lemma evict_oldest_spec:
  assumes s: "shard_inv held s" and lru: "lc_lru s \<noteq> []"
  obtains s' where "evict_oldest s = Some s'" "shard_inv held s'" "in_cache s' = in_cache s - {hd (lc_lru s)}"
    "same_entries (- {hd (lc_lru s)}) (lc_handles s) (lc_handles s')" "lc_lru s' = tl (lc_lru s)"
    "lc_capacity s' = lc_capacity s" "lc_fresh s' = lc_fresh s" "held (hd (lc_lru s)) = 0"
proof -
  note d = shard_okD [OF s]
  let ?e = "hd (lc_lru s)"
  have "?e \<in> set (lc_lru s)" using lru by simp
  then have e: "?e \<in> in_cache s" "held ?e = 0" using s by (auto simp: shard_ok_def)
  then obtain h where h: "lc_handles s ?e = Some h" "lh_in_cache h" by auto
  have refs: "lh_refs h = 1" using d(1) [OF h(1)] h(2) e(2) by simp
  obtain r t where
    r: "table_Remove (lc_handles s) (lc_table s) (lh_key h) (lh_hash h) = Some (r, t)"
    "r = None \<longrightarrow> (\<forall>e \<in> in_cache s. \<not> matches (lc_handles s) (lh_key h) (lh_hash h) e) \<and> t = lc_table s"
    "\<forall>e. r = Some e \<longrightarrow> e \<in> in_cache s \<and> matches (lc_handles s) (lh_key h) (lh_hash h) e \<and> table_ok (lc_handles s) t (in_cache s - {e})"
    by (rule table_Remove_spec [OF d(5), of "lh_key h" "lh_hash h"])
  have "r \<noteq> None" using r(2) e(1) h(1) by blast
  then obtain x where x: "r = Some x" by blast
  have "x = ?e" using r(3) x e(1) h(1) d(6) unfolding unique_keys_def by blast
  then have t: "table_ok (lc_handles s) t (in_cache s - {?e})" "r = Some ?e" using r(3) x by auto
  let ?s = "s\<lparr>lc_table := t\<rparr>"
  have "unique_keys (lc_handles s) (in_cache s - {?e})" using d(6) unfolding unique_keys_def by blast
  then have ok: "shard_ok held (in_cache s - {?e}) ?s" using shard_ok_table [OF s t(1)] by blast
  have e': "?e \<in> in_cache ?s" "?e \<notin> in_cache s - {?e}" using e(1) by simp_all
  obtain s' where s': "FinishErase (Some ?e) ?s = Some (True, s')" "shard_ok held (in_cache s - {?e}) s'"
    "in_cache s' = in_cache ?s - {?e}" "same_entries {x. x \<noteq> ?e \<or> 0 < held ?e} (lc_handles ?s) (lc_handles s')"
    "lc_capacity s' = lc_capacity ?s" "lc_fresh s' = lc_fresh ?s" "lc_lru s' = remove1 ?e (lc_lru ?s)"
    by (rule FinishErase_spec [OF ok e'])
  have ic: "in_cache s' = in_cache s - {?e}" using s'(3) by simp
  have inv: "shard_inv held s'" using s'(2) unfolding ic [symmetric] .
  have run: "evict_oldest s = Some s'" using h refs r(1) t(2) s'(1) by (simp add: evict_oldest_def)
  have tl: "lc_lru s' = tl (lc_lru s)" using s'(7) lru by (cases "lc_lru s") simp_all
  show thesis by (rule that [OF run inv ic _ tl]) (use s'(4-6) e(2) in \<open>auto simp: same_entries_def\<close>)
qed

text \<open>Eviction takes entries that no client holds, the ones released longest ago first, until the charge
  fits or none is left.\<close>

lemma evict_loop_spec:
  assumes "shard_inv held s"
  shows "\<exists>s' n. evict_loop s = Some s' \<and> shard_inv held s' \<and> n \<le> length (lc_lru s)
    \<and> in_cache s' = in_cache s - set (take n (lc_lru s)) \<and> same_entries (- set (take n (lc_lru s))) (lc_handles s) (lc_handles s')
    \<and> lc_lru s' = drop n (lc_lru s) \<and> lc_capacity s' = lc_capacity s \<and> lc_fresh s' = lc_fresh s
    \<and> (lc_usage s' \<le> lc_capacity s' \<or> lc_lru s' = [])"
  using assms
proof (induction "lc_lru s" arbitrary: s)
  case Nil
  then have "evict_loop s = Some s" by (subst evict_loop.simps) simp
  then show ?case using Nil by (intro exI [of _ s] exI [of _ 0]) (simp add: same_entries_def)
next
  case (Cons e es)
  show ?case
  proof (cases "lc_capacity s < lc_usage s")
    case False
    then have "evict_loop s = Some s" by (subst evict_loop.simps) simp
    then show ?thesis using False Cons.prems by (intro exI [of _ s] exI [of _ 0]) (simp add: same_entries_def not_less)
  next
    case True
    have lru: "lc_lru s = e # es" using Cons.hyps(2) by simp
    then have ne: "lc_lru s \<noteq> []" by simp
    obtain s1 where s1: "evict_oldest s = Some s1" "shard_inv held s1" "in_cache s1 = in_cache s - {hd (lc_lru s)}"
      "same_entries (- {hd (lc_lru s)}) (lc_handles s) (lc_handles s1)" "lc_lru s1 = tl (lc_lru s)"
      "lc_capacity s1 = lc_capacity s" "lc_fresh s1 = lc_fresh s" "held (hd (lc_lru s)) = 0"
      by (rule evict_oldest_spec [OF Cons.prems ne])
    have es: "es = lc_lru s1" using s1(5) lru by simp
    obtain s' n where s': "evict_loop s1 = Some s'" "shard_inv held s'" "n \<le> length es"
      "in_cache s' = in_cache s1 - set (take n es)" "same_entries (- set (take n es)) (lc_handles s1) (lc_handles s')"
      "lc_lru s' = drop n es" "lc_capacity s' = lc_capacity s1" "lc_fresh s' = lc_fresh s1"
      "lc_usage s' \<le> lc_capacity s' \<or> lc_lru s' = []" using Cons.hyps(1) [OF es s1(2)] unfolding es by blast
    have "same_entries (- set (take (Suc n) (e # es))) (lc_handles s) (lc_handles s')"
      using same_entries_trans [OF same_entries_subset [OF s1(4)] same_entries_subset [OF s'(5)], of "- set (take (Suc n) (e # es))"] lru
      by auto
    moreover have "evict_loop s = Some s'" using True ne s1(1) s'(1) by (subst evict_loop.simps) simp
    moreover have "in_cache s' = in_cache s - set (take (Suc n) (e # es))" unfolding s'(4) s1(3) lru by auto
    ultimately show ?thesis using s' s1 unfolding lru by (intro exI [of _ s'] exI [of _ "Suc n"]) simp
  qed
qed

lemma Prune_spec:
  assumes "shard_inv held s"
  shows "\<exists>s'. cache_Prune s = Some s' \<and> shard_inv held s' \<and> in_cache s' = in_cache s - set (lc_lru s)
    \<and> same_entries (- set (lc_lru s)) (lc_handles s) (lc_handles s') \<and> lc_lru s' = []
    \<and> lc_capacity s' = lc_capacity s \<and> lc_fresh s' = lc_fresh s"
  using assms
proof (induction "lc_lru s" arbitrary: s)
  case Nil
  then have "cache_Prune s = Some s" by (subst cache_Prune.simps) simp
  then show ?case using Nil by (intro exI [of _ s]) (simp add: same_entries_def)
next
  case (Cons e es)
  have lru: "lc_lru s = e # es" using Cons.hyps(2) by simp
  then have ne: "lc_lru s \<noteq> []" by simp
  obtain s1 where s1: "evict_oldest s = Some s1" "shard_inv held s1" "in_cache s1 = in_cache s - {hd (lc_lru s)}"
    "same_entries (- {hd (lc_lru s)}) (lc_handles s) (lc_handles s1)" "lc_lru s1 = tl (lc_lru s)"
    "lc_capacity s1 = lc_capacity s" "lc_fresh s1 = lc_fresh s" "held (hd (lc_lru s)) = 0"
    by (rule evict_oldest_spec [OF Cons.prems ne])
  have es: "es = lc_lru s1" using s1(5) lru by simp
  obtain s' where s': "cache_Prune s1 = Some s'" "shard_inv held s'" "in_cache s' = in_cache s1 - set es"
    "same_entries (- set es) (lc_handles s1) (lc_handles s')" "lc_lru s' = []" "lc_capacity s' = lc_capacity s1" "lc_fresh s' = lc_fresh s1"
    using Cons.hyps(1) [OF es s1(2)] unfolding es by blast
  have "same_entries (- set (e # es)) (lc_handles s) (lc_handles s')"
    using same_entries_trans [OF same_entries_subset [OF s1(4)] same_entries_subset [OF s'(4)], of "- set (e # es)"] lru by auto
  moreover have "cache_Prune s = Some s'" using ne s1(1) s'(1) by (subst cache_Prune.simps) simp
  moreover have "in_cache s' = in_cache s - set (e # es)" unfolding s'(3) s1(3) lru by auto
  ultimately show ?case using s' s1 unfolding lru by (intro exI [of _ s']) simp
qed

lemma Erase_spec:
  assumes s: "shard_inv held s"
  obtains s' where "cache_Erase key hash s = Some s'" "shard_inv held s'" "in_cache s' = {e \<in> in_cache s. \<not> matches (lc_handles s) key hash e}"
    "same_entries {e. \<not> matches (lc_handles s) key hash e \<or> 0 < held e} (lc_handles s) (lc_handles s')"
    "lc_capacity s' = lc_capacity s" "lc_fresh s' = lc_fresh s"
proof -
  note d = shard_okD [OF s]
  obtain r t where r: "table_Remove (lc_handles s) (lc_table s) key hash = Some (r, t)"
    "r = None \<longrightarrow> (\<forall>e \<in> in_cache s. \<not> matches (lc_handles s) key hash e) \<and> t = lc_table s"
    "\<forall>e. r = Some e \<longrightarrow> e \<in> in_cache s \<and> matches (lc_handles s) key hash e \<and> table_ok (lc_handles s) t (in_cache s - {e})"
    by (rule table_Remove_spec [OF d(5), of key hash])
  show thesis
  proof (cases r)
    case None
    then have "cache_Erase key hash s = Some s" using r by (simp add: cache_Erase_def FinishErase_def)
    moreover have "in_cache s = {e \<in> in_cache s. \<not> matches (lc_handles s) key hash e}" using r(2) None by blast
    ultimately show thesis using s that [of s] by (simp add: same_entries_def)
  next
    case (Some x)
    then have x: "x \<in> in_cache s" "matches (lc_handles s) key hash x" "table_ok (lc_handles s) t (in_cache s - {x})" using r(3) by blast+
    let ?s = "s\<lparr>lc_table := t\<rparr>"
    have "unique_keys (lc_handles s) (in_cache s - {x})" using d(6) unfolding unique_keys_def by blast
    then have ok: "shard_ok held (in_cache s - {x}) ?s" using shard_ok_table [OF s x(3)] by blast
    have x': "x \<in> in_cache ?s" "x \<notin> in_cache s - {x}" using x(1) by simp_all
    obtain s' where s': "FinishErase (Some x) ?s = Some (True, s')" "shard_ok held (in_cache s - {x}) s'"
      "in_cache s' = in_cache ?s - {x}" "same_entries {y. y \<noteq> x \<or> 0 < held x} (lc_handles ?s) (lc_handles s')"
      "lc_capacity s' = lc_capacity ?s" "lc_fresh s' = lc_fresh ?s" "lc_lru s' = remove1 x (lc_lru ?s)"
      by (rule FinishErase_spec [OF ok x'])
    have ic: "in_cache s' = in_cache s - {x}" using s'(3) by simp
    have inv: "shard_inv held s'" using s'(2) unfolding ic [symmetric] .
    have only: "y = x" if "y \<in> in_cache s" "matches (lc_handles s) key hash y" for y
      using matches_unique [OF d(6)] that x(1,2) by blast
    then have "in_cache s' = {e \<in> in_cache s. \<not> matches (lc_handles s) key hash e}" unfolding ic using x(2) by blast
    moreover have "same_entries {e. \<not> matches (lc_handles s) key hash e \<or> 0 < held e} (lc_handles s) (lc_handles s')"
      using s'(4) x(2) by (auto simp: same_entries_def)
    moreover have "cache_Erase key hash s = Some s'" using r(1) Some s'(1) by (simp add: cache_Erase_def)
    ultimately show thesis using that inv s'(5,6) by simp
  qed
qed

lemma held_fresh: "shard_ok held T s \<Longrightarrow> lc_handles s (lc_fresh s) = None" "shard_ok held T s \<Longrightarrow> held (lc_fresh s) = 0"
  unfolding shard_ok_def by (metis less_irrefl)+

text \<open>The new handle before it is put into the table.\<close>

lemma new_handle_spec:
  assumes s: "shard_inv held s" and "e = lc_fresh s"
    and h: "lh_in_cache h" "lh_refs h = 2"
    and s': "lc_handles s' = (lc_handles s)(e \<mapsto> h)" "lc_table s' = lc_table s" "lc_fresh s' = lc_fresh s + 1"
      "lc_usage s' = lc_usage s + lh_charge h" "lc_lru s' = lc_lru s" "lc_in_use s' = lc_in_use s @ [e]"
  shows "shard_ok (held(e := 1)) (in_cache s) s'" "in_cache s' = insert e (in_cache s)"
proof -
  note d = shard_okD [OF s]
  have e: "lc_handles s e = None" "held e = 0" using held_fresh [OF s] assms(2) by simp_all
  show ic: "in_cache s' = insert e (in_cache s)" using h(1) by (auto simp: s')
  have "same_entries (in_cache s) (lc_handles s) (lc_handles s')" using e(1) by (auto simp: same_entries_def s')
  then have table: "table_ok (lc_handles s') (lc_table s') (in_cache s)" "unique_keys (lc_handles s') (in_cache s)"
    using table_ok_entries [OF d(5)] unique_keys_entries [OF d(6)] by (simp_all add: s')
  have "(\<Sum>x \<in> in_cache s. lh_charge (the (lc_handles s' x))) = (\<Sum>x \<in> in_cache s. lh_charge (the (lc_handles s x)))"
    using e(1) by (intro sum.cong) (auto simp: s')
  moreover have "e \<notin> in_cache s" using e(1) by simp
  ultimately have usage: "lc_usage s' = (\<Sum>x \<in> insert e (in_cache s). lh_charge (the (lc_handles s' x)))"
    using s finite_in_cache [OF s] by (simp add: s' shard_ok_def)
  have lists: "distinct (lc_lru s')" "set (lc_lru s') = {x \<in> insert e (in_cache s). (held(e := 1)) x = 0}"
    "distinct (lc_in_use s')" "set (lc_in_use s') = {x \<in> insert e (in_cache s). 0 < (held(e := 1)) x}"
    using s e by (auto simp: s' shard_ok_def)
  have refs: "unat (lh_refs g) = (held(e := 1)) x + (if lh_in_cache g then 1 else 0) \<and> 0 < unat (lh_refs g)" "x < lc_fresh s'"
    if "lc_handles s' x = Some g" for x g
    using that d(1-3) [of x g] h assms(2) by (auto simp: s' split: if_splits)
  have none: "(held(e := 1)) x = 0" if "lc_handles s' x = None" for x using that s by (auto simp: s' shard_ok_def split: if_splits)
  show "shard_ok (held(e := 1)) (in_cache s) s'" using usage lists refs none table unfolding shard_ok_def ic by blast
qed

text \<open>What \<open>Insert\<close> does before it evicts.\<close>

definition insert_entry :: "slice \<Rightarrow> uint32 \<Rightarrow> 'v \<Rightarrow> uint64 \<Rightarrow> 'v LRUCache \<Rightarrow> 'v LRUCache option" where
  "insert_entry key hash val charge s =
     (let e = lc_fresh s; s = s\<lparr>lc_fresh := e + 1\<rparr>;
          h = \<lparr>lh_value = val, lh_charge = charge, lh_key = key, lh_in_cache = False, lh_refs = 1, lh_hash = hash\<rparr>
      in if 0 < lc_capacity s
         then
           let h = h\<lparr>lh_refs := 2, lh_in_cache := True\<rparr>;
               s = append_in_use e (set_handle e h s);
               s = s\<lparr>lc_usage := lc_usage s + charge\<rparr>
           in do {
             (old, t) \<leftarrow> table_Insert (lc_handles s) (lc_table s) e;
             map_option snd (FinishErase old (s\<lparr>lc_table := t\<rparr>))
           }
         else Some (set_handle e h s))"

lemma cache_Insert_entry:
  "cache_Insert key hash val charge s
   = do { s' \<leftarrow> insert_entry key hash val charge s; s' \<leftarrow> evict_loop s'; Some (lc_fresh s, s') }"
  by (simp add: cache_Insert_def insert_entry_def Let_def)

lemma insert_entry_uncached:
  assumes s: "shard_inv held s" and cap: "lc_capacity s = 0"
  shows "\<exists>s' h. insert_entry key hash val charge s = Some s' \<and> shard_inv (held(lc_fresh s := 1)) s' \<and> in_cache s' = in_cache s
    \<and> lc_handles s' (lc_fresh s) = Some h \<and> lh_entry h = (val, key, hash, charge)
    \<and> same_entries (- {lc_fresh s}) (lc_handles s) (lc_handles s') \<and> lc_fresh s' = lc_fresh s + 1 \<and> lc_capacity s' = lc_capacity s"
proof -
  note d = shard_okD [OF s]
  let ?e = "lc_fresh s"
  define h where "h = \<lparr>lh_value = val, lh_charge = charge, lh_key = key, lh_in_cache = False, lh_refs = 1, lh_hash = hash\<rparr>"
  define s' where "s' = set_handle ?e h (s\<lparr>lc_fresh := ?e + 1\<rparr>)"
  have fields: "lc_handles s' = (lc_handles s)(?e \<mapsto> h)" "lc_table s' = lc_table s" "lc_fresh s' = lc_fresh s + 1" "lc_usage s' = lc_usage s"
    "lc_lru s' = lc_lru s" "lc_in_use s' = lc_in_use s" "lc_capacity s' = lc_capacity s" by (simp_all add: s'_def)
  have e: "lc_handles s ?e = None" "held ?e = 0" using held_fresh [OF s] by simp_all
  have ic: "in_cache s' = in_cache s" using e(1) by (auto simp: fields h_def)
  have "same_entries (in_cache s) (lc_handles s) (lc_handles s')" using e(1) by (auto simp: same_entries_def fields)
  then have table: "table_ok (lc_handles s') (lc_table s') (in_cache s)" "unique_keys (lc_handles s') (in_cache s)"
    using table_ok_entries [OF d(5)] unique_keys_entries [OF d(6)] by (simp_all add: fields)
  have "(\<Sum>x \<in> in_cache s. lh_charge (the (lc_handles s' x))) = (\<Sum>x \<in> in_cache s. lh_charge (the (lc_handles s x)))"
    using e(1) by (intro sum.cong) (auto simp: fields)
  then have usage: "lc_usage s' = (\<Sum>x \<in> in_cache s. lh_charge (the (lc_handles s' x)))" using s by (simp add: fields shard_ok_def)
  have "?e \<notin> in_cache s" using e(1) by simp
  then have "{x \<in> in_cache s. (held(?e := 1)) x = 0} = {x \<in> in_cache s. held x = 0}"
    "{x \<in> in_cache s. 0 < (held(?e := 1)) x} = {x \<in> in_cache s. 0 < held x}" by auto
  then have lists: "distinct (lc_lru s')" "set (lc_lru s') = {x \<in> in_cache s. (held(?e := 1)) x = 0}"
    "distinct (lc_in_use s')" "set (lc_in_use s') = {x \<in> in_cache s. 0 < (held(?e := 1)) x}"
    using s by (simp_all add: fields shard_ok_def)
  have refs: "unat (lh_refs g) = (held(?e := 1)) x + (if lh_in_cache g then 1 else 0) \<and> 0 < unat (lh_refs g)" "x < lc_fresh s'"
    if "lc_handles s' x = Some g" for x g
    using that d(1-3) [of x g] by (auto simp: fields h_def split: if_splits)
  have none: "(held(?e := 1)) x = 0" if "lc_handles s' x = None" for x using that s by (auto simp: fields shard_ok_def split: if_splits)
  have "shard_inv (held(?e := 1)) s'" using usage lists refs none table unfolding shard_ok_def ic by blast
  moreover have "insert_entry key hash val charge s = Some s'" using cap by (simp add: insert_entry_def Let_def s'_def h_def)
  moreover have "same_entries (- {?e}) (lc_handles s) (lc_handles s')" by (simp add: same_entries_def fields)
  ultimately show ?thesis using ic fields by (intro exI [of _ s'] exI [of _ h]) (simp add: h_def lh_entry_def)
qed

lemma insert_entry_cached:
  assumes s: "shard_inv held s" and cap: "0 < lc_capacity s" and size: "lc_fresh s + 1 < 2 ^ 31"
  shows "\<exists>s' h. insert_entry key hash val charge s = Some s' \<and> shard_inv (held(lc_fresh s := 1)) s'
    \<and> in_cache s' = insert (lc_fresh s) {x \<in> in_cache s. \<not> matches (lc_handles s) key hash x}
    \<and> lc_handles s' (lc_fresh s) = Some h \<and> lh_entry h = (val, key, hash, charge)
    \<and> same_entries (- {lc_fresh s} \<inter> {x. x \<in> in_cache s' \<or> 0 < held x}) (lc_handles s) (lc_handles s')
    \<and> lc_fresh s' = lc_fresh s + 1 \<and> lc_capacity s' = lc_capacity s"
proof -
  let ?e = "lc_fresh s"
  define h where "h = \<lparr>lh_value = val, lh_charge = charge, lh_key = key, lh_in_cache = True, lh_refs = 2, lh_hash = hash\<rparr>"
  define s1 where "s1 = (append_in_use ?e (set_handle ?e h (s\<lparr>lc_fresh := ?e + 1\<rparr>)))\<lparr>lc_usage := lc_usage s + charge\<rparr>"
  have e: "lc_handles s ?e = None" "held ?e = 0" using held_fresh [OF s] by simp_all
  have s1: "lc_handles s1 = (lc_handles s)(?e \<mapsto> h)" "lc_table s1 = lc_table s" "lc_fresh s1 = lc_fresh s + 1" "lc_capacity s1 = lc_capacity s"
    by (simp_all add: s1_def)
  have ok1: "shard_ok (held(?e := 1)) (in_cache s) s1" and ic1: "in_cache s1 = insert ?e (in_cache s)"
    by (rule new_handle_spec [OF s refl, of h s1]; simp add: s1_def h_def)+
  have new: "?e \<notin> in_cache s" using e(1) by simp
  have h1: "lc_handles s1 ?e = Some h" "lh_key h = key" "lh_hash h = hash" by (simp_all add: s1 h_def)
  have m: "matches (lc_handles s1) key hash x \<longleftrightarrow> matches (lc_handles s) key hash x" if "x \<noteq> ?e" for x using that by (simp add: s1)
  have "card (in_cache s) \<le> card {..<lc_fresh s}" using shard_okD(3) [OF s] by (intro card_mono) auto
  then have sz: "card (in_cache s) + 1 < 2 ^ 31" using size by simp
  obtain old t where t: "table_Insert (lc_handles s1) (lc_table s1) ?e = Some (old, t)"
    "old = None \<longrightarrow> (\<forall>x \<in> in_cache s. \<not> matches (lc_handles s1) (lh_key h) (lh_hash h) x) \<and> table_ok (lc_handles s1) t (insert ?e (in_cache s))"
    "\<forall>x. old = Some x \<longrightarrow> x \<in> in_cache s \<and> matches (lc_handles s1) (lh_key h) (lh_hash h) x
       \<and> table_ok (lc_handles s1) t (insert ?e (in_cache s - {x}))"
    by (rule table_Insert_spec [OF shard_okD(5) [OF ok1] h1(1) new sz])
  have run: "insert_entry key hash val charge s = map_option snd (FinishErase old (s1\<lparr>lc_table := t\<rparr>))"
    using cap t(1) by (simp add: insert_entry_def Let_def s1_def h_def)
  note u = shard_okD(6) [OF ok1]
  show ?thesis
  proof (cases old)
    case None
    then have none: "\<forall>x \<in> in_cache s. \<not> matches (lc_handles s1) (lh_key h) (lh_hash h) x" and t': "table_ok (lc_handles s1) t (insert ?e (in_cache s))"
      using t(2) by blast+
    have "shard_ok (held(?e := 1)) (insert ?e (in_cache s)) (s1\<lparr>lc_table := t\<rparr>)"
      using shard_ok_table [OF ok1 t' unique_keys_insert [OF u h1(1) none]] ic1 by blast
    moreover have ic: "in_cache (s1\<lparr>lc_table := t\<rparr>) = insert ?e (in_cache s)" using ic1 by simp
    ultimately have "shard_inv (held(?e := 1)) (s1\<lparr>lc_table := t\<rparr>)" by (simp only: ic)
    moreover have "insert ?e (in_cache s) = insert ?e {x \<in> in_cache s. \<not> matches (lc_handles s) key hash x}"
      using none m new unfolding h1(2,3) by blast
    moreover have "same_entries (- {?e} \<inter> X) (lc_handles s) (lc_handles (s1\<lparr>lc_table := t\<rparr>))" for X
      by (simp add: same_entries_def s1)
    ultimately show ?thesis using run None s1 h1(1) ic
      by (intro exI [of _ "s1\<lparr>lc_table := t\<rparr>"] exI [of _ h]) (simp add: FinishErase_def h_def lh_entry_def)
  next
    case (Some x)
    then have x: "x \<in> in_cache s" "matches (lc_handles s1) (lh_key h) (lh_hash h) x" "table_ok (lc_handles s1) t (insert ?e (in_cache s - {x}))"
      using t(3) by blast+
    have xe: "x \<noteq> ?e" using x(1) new by blast
    have none: "\<forall>y \<in> in_cache s - {x}. \<not> matches (lc_handles s1) (lh_key h) (lh_hash h) y"
      using matches_unique [OF u x(1) _ x(2)] by blast
    have "unique_keys (lc_handles s1) (in_cache s - {x})" using u unfolding unique_keys_def by blast
    note u' = unique_keys_insert [OF this h1(1) none]
    let ?s2 = "s1\<lparr>lc_table := t\<rparr>"
    have ok2: "shard_ok (held(?e := 1)) (insert ?e (in_cache s - {x})) ?s2" using shard_ok_table [OF ok1 x(3) u'] ic1 by blast
    have x': "x \<in> in_cache ?s2" "x \<notin> insert ?e (in_cache s - {x})" using x(1) xe ic1 by simp_all
    obtain s' where s': "FinishErase (Some x) ?s2 = Some (True, s')" "shard_ok (held(?e := 1)) (insert ?e (in_cache s - {x})) s'"
      "in_cache s' = in_cache ?s2 - {x}" "same_entries {y. y \<noteq> x \<or> 0 < (held(?e := 1)) x} (lc_handles ?s2) (lc_handles s')"
      "lc_capacity s' = lc_capacity ?s2" "lc_fresh s' = lc_fresh ?s2" "lc_lru s' = remove1 x (lc_lru ?s2)"
      by (rule FinishErase_spec [OF ok2 x'])
    have ic: "in_cache s' = insert ?e (in_cache s - {x})" using s'(3) ic1 xe by auto
    have inv: "shard_inv (held(?e := 1)) s'" using s'(2) unfolding ic [symmetric] .
    have "matches (lc_handles s) key hash x" using x(2) m [OF xe] unfolding h1(2,3) by simp
    moreover have "\<not> matches (lc_handles s) key hash y" if "y \<in> in_cache s" "y \<noteq> x" for y
    proof -
      have "y \<noteq> ?e" "y \<in> in_cache s - {x}" using that new by blast+
      then show ?thesis using none m [of y] unfolding h1(2,3) by blast
    qed
    ultimately have eq: "in_cache s' = insert ?e {y \<in> in_cache s. \<not> matches (lc_handles s) key hash y}" unfolding ic by blast
    obtain h' where h': "lc_handles s' ?e = Some h'" "lh_entry h' = (val, key, hash, charge)"
      using same_entriesD [OF s'(4), of ?e h] xe h1(1) by (auto simp: lh_entry_def h_def)
    have "same_entries (- {?e} \<inter> {y. y \<in> in_cache s' \<or> 0 < held y}) (lc_handles s) (lc_handles s')"
    proof (rule same_entries_trans [of _ _ "lc_handles ?s2"])
      show "same_entries (- {?e} \<inter> {y. y \<in> in_cache s' \<or> 0 < held y}) (lc_handles s) (lc_handles ?s2)"
        by (simp add: same_entries_def s1)
      show "same_entries (- {?e} \<inter> {y. y \<in> in_cache s' \<or> 0 < held y}) (lc_handles ?s2) (lc_handles s')"
        by (rule same_entries_subset [OF s'(4)]) (use xe in \<open>auto simp: s'(3)\<close>)
    qed
    then show ?thesis using run Some s'(1,5,6) inv eq h' s1(3,4)
      by (intro exI [of _ s'] exI [of _ h']) simp
  qed
qed

lemma Insert_spec:
  assumes s: "shard_inv held s" and size: "lc_fresh s + 1 < 2 ^ 31"
  defines "e \<equiv> lc_fresh s"
  obtains s' h where "cache_Insert key hash val charge s = Some (e, s')" "shard_inv (held(e := 1)) s'"
    "lc_handles s' e = Some h" "lh_entry h = (val, key, hash, charge)" "held e = 0"
    "same_entries {x. 0 < held x} (lc_handles s) (lc_handles s')"
    "\<forall>k u v. cached s' k u v \<longrightarrow> (if k = key \<and> u = hash \<and> 0 < lc_capacity s then v = val else cached s k u v)"
    "lc_fresh s' = lc_fresh s + 1" "lc_capacity s' = lc_capacity s" "lc_usage s' \<le> lc_capacity s' \<or> lc_lru s' = []"
proof -
  have e: "lc_handles s e = None" "held e = 0" using held_fresh [OF s] by (simp_all add: e_def)
  let ?cap = "0 < lc_capacity s"
  let ?ic = "if ?cap then insert e {x \<in> in_cache s. \<not> matches (lc_handles s) key hash x} else in_cache s"
  have "\<exists>s1 h. insert_entry key hash val charge s = Some s1 \<and> shard_inv (held(e := 1)) s1 \<and> in_cache s1 = ?ic
    \<and> lc_handles s1 e = Some h \<and> lh_entry h = (val, key, hash, charge)
    \<and> same_entries (- {e} \<inter> {x. x \<in> in_cache s1 \<or> 0 < held x}) (lc_handles s) (lc_handles s1)
    \<and> lc_fresh s1 = lc_fresh s + 1 \<and> lc_capacity s1 = lc_capacity s"
  proof (cases ?cap)
    case True
    show ?thesis using insert_entry_cached [OF s True size, of key hash val charge] True unfolding e_def by simp
  next
    case False
    then have "lc_capacity s = 0" by (simp add: word_gt_0)
    from insert_entry_uncached [OF s this, of key hash val charge] show ?thesis
      using False same_entries_subset unfolding e_def by fastforce
  qed
  then obtain s1 h where s1: "insert_entry key hash val charge s = Some s1" "shard_inv (held(e := 1)) s1" "in_cache s1 = ?ic"
    "lc_handles s1 e = Some h" "lh_entry h = (val, key, hash, charge)"
    "same_entries (- {e} \<inter> {x. x \<in> in_cache s1 \<or> 0 < held x}) (lc_handles s) (lc_handles s1)"
    "lc_fresh s1 = lc_fresh s + 1" "lc_capacity s1 = lc_capacity s" by (elim exE conjE) (rule that)
  from evict_loop_spec [OF s1(2)] obtain s' n where s': "evict_loop s1 = Some s'" "shard_inv (held(e := 1)) s'"
    "in_cache s' = in_cache s1 - set (take n (lc_lru s1))" "same_entries (- set (take n (lc_lru s1))) (lc_handles s1) (lc_handles s')"
    "lc_capacity s' = lc_capacity s1" "lc_fresh s' = lc_fresh s1" "lc_usage s' \<le> lc_capacity s' \<or> lc_lru s' = []"
    by (elim exE conjE) (rule that)
  have "set (lc_lru s1) = {x \<in> in_cache s1. (held(e := 1)) x = 0}" using s1(2) by (simp add: shard_ok_def)
  then have "x \<notin> set (lc_lru s1)" if "x = e \<or> 0 < held x" for x using that by auto
  then have kept: "x \<notin> set (take n (lc_lru s1))" if "x = e \<or> 0 < held x" for x using that in_set_takeD by metis
  obtain h' where h': "lc_handles s' e = Some h'" "lh_entry h' = (val, key, hash, charge)"
    using same_entriesD [OF s'(4) _ s1(4)] kept [of e] s1(5) by auto
  have "{x. 0 < held x} \<subseteq> - {e} \<inter> {x. x \<in> in_cache s1 \<or> 0 < held x}" "{x. 0 < held x} \<subseteq> - set (take n (lc_lru s1))"
    using e(2) kept by auto
  then have same: "same_entries {x. 0 < held x} (lc_handles s) (lc_handles s')"
    by (rule same_entries_trans [OF same_entries_subset [OF s1(6)] same_entries_subset [OF s'(4)]])
  have old: "same_entries (in_cache s' - {e}) (lc_handles s) (lc_handles s')"
    using same_entries_trans [OF same_entries_subset [OF s1(6)] same_entries_subset [OF s'(4)], of "in_cache s' - {e}"] s'(3) by auto
  have "if k = key \<and> u = hash \<and> ?cap then v = val else cached s k u v" if c: "cached s' k u v" for k u v
  proof -
    from c obtain x g where x: "x \<in> in_cache s'" "lc_handles s' x = Some g" "lh_key g = k" "lh_hash g = u" "lh_value g = v"
      unfolding cached_def by blast
    have in1: "x \<in> ?ic" using x(1) unfolding s'(3) s1(3) by blast
    show ?thesis
    proof (cases "x = e")
      case True
      then have "?cap" using in1 e(1) by (auto split: if_splits)
      then show ?thesis using x h' True by (simp add: lh_entry_def)
    next
      case False
      then have xs: "x \<in> in_cache s" "?cap \<longrightarrow> \<not> matches (lc_handles s) key hash x" using in1 by (auto split: if_splits)
      obtain g' where "lc_handles s x = Some g'" "lh_entry g' = lh_entry g"
        using same_entriesD [OF same_entries_sym [OF old] _ x(2)] x(1) False by auto
      then show ?thesis using x(3-5) xs unfolding cached_def by (auto simp: lh_entry_def)
    qed
  qed
  moreover have "cache_Insert key hash val charge s = Some (e, s')" using s1(1) s'(1) by (simp add: cache_Insert_entry e_def)
  ultimately show thesis using that h' s'(2,5-7) s1(7,8) same e(2) by simp
qed

text \<open>The keys and the hashes of handles never change.\<close>

definition keyed :: "(slice \<Rightarrow> uint32 \<Rightarrow> bool) \<Rightarrow> 'v LRUCache \<Rightarrow> bool" where
  "keyed P s \<longleftrightarrow> (\<forall>e h. lc_handles s e = Some h \<longrightarrow> P (lh_key h) (lh_hash h))"

lemma keyed_Ref: "cache_Ref e s = Some s' \<Longrightarrow> keyed P s \<Longrightarrow> keyed P s'"
  by (auto simp: cache_Ref_def keyed_def Let_def bind_eq_Some_conv split: if_splits)

lemma keyed_Unref: "cache_Unref e s = Some s' \<Longrightarrow> keyed P s \<Longrightarrow> keyed P s'"
  by (auto simp: cache_Unref_def keyed_def Let_def bind_eq_Some_conv split: if_splits)

lemma keyed_set_handle: "keyed P s \<Longrightarrow> P (lh_key h) (lh_hash h) \<Longrightarrow> keyed P (set_handle e h s)"
  by (simp add: keyed_def)

lemma keyed_fields:
  "keyed P (LRU_Remove e s) = keyed P s" "keyed P (append_in_use e s) = keyed P s" "keyed P (s\<lparr>lc_usage := u\<rparr>) = keyed P s"
  "keyed P (s\<lparr>lc_table := t\<rparr>) = keyed P s" "keyed P (s\<lparr>lc_fresh := n\<rparr>) = keyed P s"
  by (simp_all add: keyed_def)

lemma keyed_FinishErase: "FinishErase r s = Some (b, s') \<Longrightarrow> keyed P s \<Longrightarrow> keyed P s'"
proof (cases r)
  case (Some e)
  assume f: "FinishErase r s = Some (b, s')" and s: "keyed P s"
  then obtain h where h: "lc_handles s e = Some h"
    "cache_Unref e (set_handle e (h\<lparr>lh_in_cache := False\<rparr>) (LRU_Remove e s)\<lparr>lc_usage := lc_usage s - lh_charge h\<rparr>) = Some s'"
    using Some by (auto simp: FinishErase_def Let_def bind_eq_Some_conv split: if_splits)
  have "P (lh_key h) (lh_hash h)" using s h(1) by (simp add: keyed_def)
  then have "keyed P (set_handle e (h\<lparr>lh_in_cache := False\<rparr>) (LRU_Remove e s)\<lparr>lc_usage := lc_usage s - lh_charge h\<rparr>)"
    using s by (simp add: keyed_fields keyed_set_handle)
  then show ?thesis using keyed_Unref [OF h(2)] by blast
qed (simp add: FinishErase_def)

lemma keyed_evict: "evict_oldest s = Some s' \<Longrightarrow> keyed P s \<Longrightarrow> keyed P s'"
  by (auto simp: evict_oldest_def bind_eq_Some_conv keyed_fields split: if_splits dest!: keyed_FinishErase [of _ _ _ _ P])

lemma keyed_evict_loop:
  assumes "evict_loop s = Some s'" "keyed P s"
  shows "keyed P s'"
proof -
  have "keyed P s \<longrightarrow> keyed P s'"
  proof (rule evict_loop.raw_induct [OF _ assms(1), where P = "\<lambda>s s'. keyed P s \<longrightarrow> keyed P s'"])
    show "keyed P s \<longrightarrow> keyed P s'" if "\<And>x y. f x = Some y \<Longrightarrow> keyed P x \<longrightarrow> keyed P y"
      and "(if lc_capacity s < lc_usage s \<and> lc_lru s \<noteq> [] then do { s \<leftarrow> evict_oldest s; f s } else Some s) = Some s'" for f s s'
      using that by (auto simp: bind_eq_Some_conv split: if_splits dest: keyed_evict)
  qed
  then show ?thesis using assms(2) by blast
qed

lemma keyed_Prune:
  assumes "cache_Prune s = Some s'" "keyed P s"
  shows "keyed P s'"
proof -
  have "keyed P s \<longrightarrow> keyed P s'"
  proof (rule cache_Prune.raw_induct [OF _ assms(1), where P = "\<lambda>s s'. keyed P s \<longrightarrow> keyed P s'"])
    show "keyed P s \<longrightarrow> keyed P s'" if "\<And>x y. f x = Some y \<Longrightarrow> keyed P x \<longrightarrow> keyed P y"
      and "(if lc_lru s \<noteq> [] then do { s \<leftarrow> evict_oldest s; f s } else Some s) = Some s'" for f s s'
      using that by (auto simp: bind_eq_Some_conv split: if_splits dest: keyed_evict)
  qed
  then show ?thesis using assms(2) by blast
qed

lemma keyed_Lookup: "cache_Lookup key hash s = Some (r, s') \<Longrightarrow> keyed P s \<Longrightarrow> keyed P s'"
  by (auto simp: cache_Lookup_def bind_eq_Some_conv split: option.splits dest: keyed_Ref)

lemma keyed_Erase: "cache_Erase key hash s = Some s' \<Longrightarrow> keyed P s \<Longrightarrow> keyed P s'"
  by (auto simp: cache_Erase_def bind_eq_Some_conv keyed_fields dest!: keyed_FinishErase [of _ _ _ _ P])

lemma keyed_Insert:
  assumes "cache_Insert key hash val charge s = Some (e, s')" and s: "keyed P s" and "P key hash"
  shows "keyed P s'"
proof -
  from assms(1) obtain s1 where s1: "insert_entry key hash val charge s = Some s1" "evict_loop s1 = Some s'"
    by (auto simp: cache_Insert_entry bind_eq_Some_conv)
  have "keyed P s1" using s1(1) s assms(3)
    by (auto simp: insert_entry_def Let_def bind_eq_Some_conv keyed_fields keyed_set_handle split: if_splits dest!: keyed_FinishErase [of _ _ _ _ P])
  then show ?thesis using keyed_evict_loop [OF s1(2)] by blast
qed

end
