(* ===== verification/Ldb_Cache_Client.thy ===== *)
theory Ldb_Cache_Client
  imports Ldb_Cache_Correct
begin

text \<open>
  The contract of \<open>class Cache\<close>, the sharded LRU cache as an implementation of it, and what clients see:
  whatever they call, no assertion fails, the values of the handles they hold stay, and a lookup returns
  the value inserted last or nothing.
\<close>

section \<open>The contract of a cache\<close>

text \<open>\<open>inv held c\<close> says that the state \<open>c\<close> is sound and that clients have \<open>held p\<close> references to the handle \<open>p\<close>.\<close>

locale lossy_cache =
  fixes ops :: "('c, 'p, 'v) Cache" and inv :: "('p \<Rightarrow> nat) \<Rightarrow> 'c \<Rightarrow> bool" and content :: "'c \<Rightarrow> slice \<Rightarrow> 'v \<Rightarrow> bool"
    and allocated :: "'c \<Rightarrow> nat"
  assumes insert: "inv held c \<Longrightarrow> allocated c + 1 < 2 ^ 31 \<Longrightarrow>
      \<exists>p c'. c_Insert ops k v n c = Some (p, c') \<and> held p = 0 \<and> inv (held(p := 1)) c' \<and> c_Value ops p c' = Some v
        \<and> (\<forall>q. 0 < held q \<longrightarrow> c_Value ops q c' = c_Value ops q c) \<and> allocated c' = allocated c + 1
        \<and> (\<forall>k' v'. content c' k' v' \<longrightarrow> (if k' = k then v' = v else content c k' v'))"
    and lookup: "inv held c \<Longrightarrow> (\<And>p. held p + 2 < 2 ^ 32) \<Longrightarrow>
      \<exists>r c'. c_Lookup ops k c = Some (r, c') \<and> content c' = content c \<and> (\<forall>q. 0 < held q \<longrightarrow> c_Value ops q c' = c_Value ops q c)
        \<and> allocated c' = allocated c
        \<and> (case r of None \<Rightarrow> inv held c' \<and> (\<forall>v. \<not> content c k v)
             | Some p \<Rightarrow> inv (held(p := held p + 1)) c' \<and> (\<exists>v. content c k v \<and> c_Value ops p c' = Some v))"
    and release: "inv held c \<Longrightarrow> 0 < held p \<Longrightarrow>
      \<exists>c'. c_Release ops p c = Some c' \<and> inv (held(p := held p - 1)) c' \<and> content c' = content c
        \<and> (\<forall>q. 0 < (held(p := held p - 1)) q \<longrightarrow> c_Value ops q c' = c_Value ops q c) \<and> allocated c' = allocated c"
    and erase: "inv held c \<Longrightarrow>
      \<exists>c'. c_Erase ops k c = Some c' \<and> inv held c' \<and> (\<forall>k' v'. content c' k' v' \<longleftrightarrow> k' \<noteq> k \<and> content c k' v')
        \<and> (\<forall>q. 0 < held q \<longrightarrow> c_Value ops q c' = c_Value ops q c) \<and> allocated c' = allocated c"
    and prune: "inv held c \<Longrightarrow>
      \<exists>c'. c_Prune ops c = Some c' \<and> inv held c' \<and> (\<forall>k' v'. content c' k' v' \<longrightarrow> content c k' v')
        \<and> (\<forall>q. 0 < held q \<longrightarrow> c_Value ops q c' = c_Value ops q c) \<and> allocated c' = allocated c"

section \<open>A client\<close>

text \<open>A client keeps the handles it got, with the values they had then, and the value inserted last for each
  key; \<open>CallRelease i\<close> gives back the handle in place \<open>i\<close>.\<close>

datatype 'v cache_call = CallInsert slice 'v uint64 | CallLookup slice | CallRelease nat | CallErase slice | CallPrune

type_synonym ('c, 'p, 'v) client = "'c \<times> ('p \<times> 'v) list \<times> (slice \<rightharpoonup> 'v)"

fun client_step :: "('c, 'p, 'v) Cache \<Rightarrow> 'v cache_call \<Rightarrow> ('c, 'p, 'v) client \<Rightarrow> ('c, 'p, 'v) client option" where
  "client_step ops (CallInsert k v n) (c, hs, latest) =
     map_option (\<lambda>(p, c). (c, hs @ [(p, v)], latest(k \<mapsto> v))) (c_Insert ops k v n c)"
| "client_step ops (CallLookup k) (c, hs, latest) =
     do {
       (r, c) \<leftarrow> c_Lookup ops k c;
       case r of None \<Rightarrow> Some (c, hs, latest) | Some p \<Rightarrow> map_option (\<lambda>v. (c, hs @ [(p, v)], latest)) (c_Value ops p c)
     }"
| "client_step ops (CallRelease i) (c, hs, latest) =
     (if i < length hs then map_option (\<lambda>c. (c, take i hs @ drop (Suc i) hs, latest)) (c_Release ops (fst (hs ! i)) c)
      else Some (c, hs, latest))"
| "client_step ops (CallErase k) (c, hs, latest) = map_option (\<lambda>c. (c, hs, latest(k := None))) (c_Erase ops k c)"
| "client_step ops CallPrune (c, hs, latest) = map_option (\<lambda>c. (c, hs, latest)) (c_Prune ops c)"

fun client_run :: "('c, 'p, 'v) Cache \<Rightarrow> 'v cache_call list \<Rightarrow> ('c, 'p, 'v) client \<Rightarrow> ('c, 'p, 'v) client option" where
  "client_run ops [] st = Some st"
| "client_run ops (cl # cls) st = Option.bind (client_step ops cl st) (client_run ops cls)"

lemma count_list_snoc: "count_list (xs @ [p]) = (count_list xs)(p := count_list xs p + 1)"
  by (auto simp: fun_eq_iff)

lemma count_list_remove:
  assumes "i < length xs"
  shows "count_list (take i xs @ drop (Suc i) xs) = (count_list xs)(xs ! i := count_list xs (xs ! i) - 1)"
proof -
  have "count_list xs p = count_list (take i xs @ xs ! i # drop (Suc i) xs) p" for p using id_take_nth_drop [OF assms] by simp
  then show ?thesis by (simp add: fun_eq_iff)
qed

context lossy_cache
begin

definition client_ok :: "nat \<Rightarrow> ('c, 'p, 'v) client \<Rightarrow> bool" where
  "client_ok n st \<longleftrightarrow> (case st of (c, hs, latest) \<Rightarrow>
     inv (count_list (map fst hs)) c \<and> (\<forall>(p, v) \<in> set hs. c_Value ops p c = Some v) \<and> (\<forall>k v. content c k v \<longrightarrow> latest k = Some v)
     \<and> allocated c \<le> n \<and> length hs \<le> n)"

lemma held_bound: "client_ok n (c, hs, latest) \<Longrightarrow> n + 1 < 2 ^ 31 \<Longrightarrow> count_list (map fst hs) p + 2 < 2 ^ 32"
  using count_le_length [of "map fst hs" p] by (simp add: client_ok_def)

lemma held_pos: "(p, v) \<in> set hs \<Longrightarrow> 0 < count_list (map fst hs) p"
  by (metis count_list_0_iff fst_conv image_eqI image_set neq0_conv)

lemma client_step_ok:
  assumes st: "client_ok n st" and n: "n + 1 < 2 ^ 31"
  shows "\<exists>st'. client_step ops cl st = Some st' \<and> client_ok (n + 1) st'"
proof -
  obtain c hs latest where s: "st = (c, hs, latest)" by (cases st)
  let ?held = "count_list (map fst hs)"
  have i: "inv ?held c" and vals: "\<forall>(p, v) \<in> set hs. c_Value ops p c = Some v" and l: "\<forall>k v. content c k v \<longrightarrow> latest k = Some v"
    and a: "allocated c \<le> n" "length hs \<le> n" using st by (simp_all add: client_ok_def s)
  have kept: "\<forall>(p, v) \<in> set hs. c_Value ops p c' = Some v" if "\<forall>q. 0 < ?held q \<longrightarrow> c_Value ops q c' = c_Value ops q c" for c'
    using vals that held_pos by fastforce
  show ?thesis
  proof (cases cl)
    case (CallInsert k v m)
    have "allocated c + 1 < 2 ^ 31" using a n by simp
    from insert [OF i this, of k v m] obtain p c' where p: "c_Insert ops k v m c = Some (p, c')" "?held p = 0" "inv (?held(p := 1)) c'"
      "c_Value ops p c' = Some v" "\<forall>q. 0 < ?held q \<longrightarrow> c_Value ops q c' = c_Value ops q c" "allocated c' = allocated c + 1"
      "\<forall>k' v'. content c' k' v' \<longrightarrow> (if k' = k then v' = v else content c k' v')" by (elim exE conjE) (rule that)
    have "inv (count_list (map fst (hs @ [(p, v)]))) c'" using p(2,3) count_list_snoc [of "map fst hs" p] by simp
    moreover have "\<forall>k' v'. content c' k' v' \<longrightarrow> (latest(k \<mapsto> v)) k' = Some v'" using p(7) l by (simp split: if_splits)
    ultimately show ?thesis using p(1,4,6) kept [OF p(5)] a by (auto simp: s CallInsert client_ok_def)
  next
    case (CallLookup k)
    from lookup [OF i held_bound [OF st [unfolded s] n], of k] obtain r c' where r: "c_Lookup ops k c = Some (r, c')" "content c' = content c"
      "\<forall>q. 0 < ?held q \<longrightarrow> c_Value ops q c' = c_Value ops q c" "allocated c' = allocated c"
      "case r of None \<Rightarrow> inv ?held c' \<and> (\<forall>v. \<not> content c k v)
         | Some p \<Rightarrow> inv (?held(p := ?held p + 1)) c' \<and> (\<exists>v. content c k v \<and> c_Value ops p c' = Some v)" by (elim exE conjE) (rule that)
    show ?thesis
    proof (cases r)
      case None
      then show ?thesis using r kept [OF r(3)] l a by (auto simp: s CallLookup client_ok_def)
    next
      case (Some p)
      then obtain v where v: "inv (?held(p := ?held p + 1)) c'" "c_Value ops p c' = Some v" using r(5) by auto
      have "inv (count_list (map fst (hs @ [(p, v)]))) c'" using v(1) count_list_snoc [of "map fst hs" p] by simp
      then show ?thesis using r(1,2,4) v(2) Some kept [OF r(3)] l a by (auto simp: s CallLookup client_ok_def)
    qed
  next
    case (CallRelease j)
    show ?thesis
    proof (cases "j < length hs")
      case True
      let ?p = "fst (hs ! j)" and ?hs = "take j hs @ drop (Suc j) hs"
      have "0 < ?held ?p" using True held_pos [of ?p "snd (hs ! j)"] by simp
      from release [OF i this] obtain c' where c': "c_Release ops ?p c = Some c'" "inv (?held(?p := ?held ?p - 1)) c'" "content c' = content c"
        "\<forall>q. 0 < (?held(?p := ?held ?p - 1)) q \<longrightarrow> c_Value ops q c' = c_Value ops q c" "allocated c' = allocated c"
        by (elim exE conjE) (rule that)
      have eq: "count_list (map fst ?hs) = ?held(?p := ?held ?p - 1)"
        using count_list_remove [of j "map fst hs"] True by (simp add: take_map drop_map)
      have sub: "set ?hs \<subseteq> set hs" by (auto dest: in_set_takeD in_set_dropD)
      have "\<forall>(p, v) \<in> set ?hs. c_Value ops p c' = Some v"
        using c'(4) sub vals held_pos [of _ _ ?hs] unfolding eq by fastforce
      then show ?thesis using c'(1,2,3,5) eq True l a by (auto simp: s CallRelease client_ok_def)
    next
      case False
      then show ?thesis using st by (auto simp: s CallRelease client_ok_def)
    qed
  next
    case (CallErase k)
    from erase [OF i, of k] obtain c' where c': "c_Erase ops k c = Some c'" "inv ?held c'"
      "\<forall>k' v'. content c' k' v' \<longleftrightarrow> k' \<noteq> k \<and> content c k' v'" "\<forall>q. 0 < ?held q \<longrightarrow> c_Value ops q c' = c_Value ops q c"
      "allocated c' = allocated c" by (elim exE conjE) (rule that)
    then show ?thesis using kept [OF c'(4)] l a by (auto simp: s CallErase client_ok_def)
  next
    case CallPrune
    from prune [OF i] obtain c' where c': "c_Prune ops c = Some c'" "inv ?held c'" "\<forall>k' v'. content c' k' v' \<longrightarrow> content c k' v'"
      "\<forall>q. 0 < ?held q \<longrightarrow> c_Value ops q c' = c_Value ops q c" "allocated c' = allocated c" by (elim exE conjE) (rule that)
    then show ?thesis using kept [OF c'(4)] l a by (auto simp: s CallPrune client_ok_def)
  qed
qed

lemma client_run_ok:
  "client_ok n st \<Longrightarrow> n + length cls < 2 ^ 31 \<Longrightarrow> \<exists>st'. client_run ops cls st = Some st' \<and> client_ok (n + length cls) st'"
proof (induction cls arbitrary: n st)
  case (Cons cl cls)
  have "n + 1 < 2 ^ 31" using Cons.prems(2) by simp
  from client_step_ok [OF Cons.prems(1) this] obtain st' where "client_step ops cl st = Some st'" "client_ok (n + 1) st'" by blast
  then show ?case using Cons.IH [of "n + 1" st'] Cons.prems(2) by auto
qed simp

end

section \<open>The sharded cache\<close>

definition shard_sound :: "(Handle \<Rightarrow> nat) \<Rightarrow> nat \<Rightarrow> 'v LRUCache \<Rightarrow> bool" where
  "shard_sound held i s \<longleftrightarrow> shard_inv (\<lambda>e. held (i, e)) s \<and> keyed (\<lambda>key hash. hash = HashSlice key \<and> Shard hash = i) s
     \<and> (lc_capacity s = 0 \<longrightarrow> (\<forall>k u v. \<not> cached s k u v))"

definition sharded_inv :: "(Handle \<Rightarrow> nat) \<Rightarrow> 'v ShardedLRUCache \<Rightarrow> bool" where
  "sharded_inv held c \<longleftrightarrow> length (sc_shard c) = kNumShards \<and> (\<forall>i e. kNumShards \<le> i \<longrightarrow> held (i, e) = 0)
     \<and> (\<forall>i < kNumShards. shard_sound held i (sc_shard c ! i))"

definition sharded_content :: "'v ShardedLRUCache \<Rightarrow> slice \<Rightarrow> 'v \<Rightarrow> bool" where
  "sharded_content c k v \<longleftrightarrow> cached (sc_shard c ! Shard (HashSlice k)) k (HashSlice k) v"

definition sharded_allocated :: "'v ShardedLRUCache \<Rightarrow> nat" where
  "sharded_allocated c = sum_list (map lc_fresh (sc_shard c))"

lemma Shard_less: "Shard hash < kNumShards"
proof -
  have "unat hash < 2 ^ 32" using unsigned_less [of hash] by simp
  then show ?thesis by (simp add: Shard_def kNumShards_def kNumShardBits_def drop_bit_eq_div unat_div less_mult_imp_div_less)
qed

lemma fresh_le_allocated: "i < length (sc_shard c) \<Longrightarrow> lc_fresh (sc_shard c ! i) \<le> sharded_allocated c"
  unfolding sharded_allocated_def by (metis elem_le_sum_list length_map nth_map)

lemma allocated_update:
  assumes "i < length (sc_shard c)" "lc_fresh s = lc_fresh (sc_shard c ! i) + n"
  shows "sharded_allocated (c\<lparr>sc_shard := (sc_shard c)[i := s]\<rparr>) = sharded_allocated c + n"
  using assms fresh_le_allocated [OF assms(1)] by (simp add: sharded_allocated_def map_update sum_list_update)

text \<open>Putting back a shard that an operation has changed.\<close>

abbreviation put_shard :: "nat \<Rightarrow> 'v LRUCache \<Rightarrow> 'v ShardedLRUCache \<Rightarrow> 'v ShardedLRUCache" where
  "put_shard i s c \<equiv> c\<lparr>sc_shard := (sc_shard c)[i := s]\<rparr>"

lemma sharded_inv_put:
  assumes c: "sharded_inv held c" and i: "i < kNumShards" and held: "\<And>p. fst p \<noteq> i \<Longrightarrow> held' p = held p"
    and s: "shard_sound held' i s"
  shows "sharded_inv held' (put_shard i s c)"
proof -
  have "shard_sound held' j ((sc_shard c)[i := s] ! j)" if "j < kNumShards" for j
    using that c s held [of "(j, _)"] by (cases "j = i") (simp_all add: sharded_inv_def shard_sound_def)
  moreover have "held' (j, e) = 0" if "kNumShards \<le> j" for j e using that c i held [of "(j, e)"] by (simp add: sharded_inv_def)
  ultimately show ?thesis using c unfolding sharded_inv_def by simp
qed

lemma content_put:
  "length (sc_shard c) = kNumShards \<Longrightarrow> sharded_content (put_shard i s c) k v
   = (if Shard (HashSlice k) = i then cached s k (HashSlice k) v else sharded_content c k v)"
  using Shard_less [of "HashSlice k"] by (auto simp: sharded_content_def)

lemma Value_put:
  "length (sc_shard c) = kNumShards \<Longrightarrow> i < kNumShards \<Longrightarrow> sharded_Value q (put_shard i s c)
   = (if fst q = i then map_option lh_value (lc_handles s (snd q)) else sharded_Value q c)"
  by (simp add: sharded_Value_def deref_def nth_list_update)

lemma Value_kept:
  assumes "length (sc_shard c) = kNumShards" "i < kNumShards" "same_entries X (lc_handles (sc_shard c ! i)) (lc_handles s)"
    and "fst q = i \<longrightarrow> snd q \<in> X"
  shows "sharded_Value q (put_shard i s c) = sharded_Value q c"
proof (cases "fst q = i")
  case True
  have "map_option lh_entry (lc_handles (sc_shard c ! i) (snd q)) = map_option lh_entry (lc_handles s (snd q))"
    using assms(3,4) True by (simp add: same_entries_def)
  then have "map_option lh_value (lc_handles (sc_shard c ! i) (snd q)) = map_option lh_value (lc_handles s (snd q))"
    by (cases "lc_handles (sc_shard c ! i) (snd q)"; cases "lc_handles s (snd q)") (simp_all add: lh_entry_def)
  then show ?thesis using True assms(1,2) by (simp add: Value_put) (simp add: sharded_Value_def deref_def)
qed (use assms in \<open>simp add: Value_put\<close>)

lemma held_shard: "(\<lambda>e. (held(p := n)) (fst p, e)) = (\<lambda>e. held (fst p, e))(snd p := n)"
  by (cases p) (auto simp: fun_eq_iff)

lemma sharded_invD:
  assumes "sharded_inv held c"
  shows "length (sc_shard c) = kNumShards"
    "i < kNumShards \<Longrightarrow> shard_inv (\<lambda>e. held (i, e)) (sc_shard c ! i)"
    "i < kNumShards \<Longrightarrow> keyed (\<lambda>key hash. hash = HashSlice key \<and> Shard hash = i) (sc_shard c ! i)"
    "i < kNumShards \<Longrightarrow> lc_capacity (sc_shard c ! i) = 0 \<longrightarrow> (\<forall>k u v. \<not> cached (sc_shard c ! i) k u v)"
  using assms by (simp_all add: sharded_inv_def shard_sound_def)

lemma sharded_Insert_law:
  assumes c: "sharded_inv held c" and a: "sharded_allocated c + 1 < 2 ^ 31"
  shows "\<exists>p c'. sharded_Insert k v n c = Some (p, c') \<and> held p = 0 \<and> sharded_inv (held(p := 1)) c' \<and> sharded_Value p c' = Some v
      \<and> (\<forall>q. 0 < held q \<longrightarrow> sharded_Value q c' = sharded_Value q c) \<and> sharded_allocated c' = sharded_allocated c + 1
      \<and> (\<forall>k' v'. sharded_content c' k' v' \<longrightarrow> (if k' = k then v' = v else sharded_content c k' v'))"
proof -
  define hash i where "hash = HashSlice k" and "i = Shard hash"
  let ?s = "sc_shard c ! i" and ?held = "\<lambda>e. held (i, e)"
  have i: "i < kNumShards" using Shard_less by (simp add: i_def)
  note len = sharded_invD(1) [OF c] and s = sharded_invD(2-4) [OF c i]
  have "lc_fresh ?s + 1 < 2 ^ 31" using fresh_le_allocated [of i c] i len a by simp
  then obtain s' h where s': "cache_Insert k hash v n ?s = Some (lc_fresh ?s, s')" "shard_inv (?held(lc_fresh ?s := 1)) s'"
    "lc_handles s' (lc_fresh ?s) = Some h" "lh_entry h = (v, k, hash, n)" "?held (lc_fresh ?s) = 0"
    "same_entries {x. 0 < ?held x} (lc_handles ?s) (lc_handles s')"
    "\<forall>k' u v'. cached s' k' u v' \<longrightarrow> (if k' = k \<and> u = hash \<and> 0 < lc_capacity ?s then v' = v else cached ?s k' u v')"
    "lc_fresh s' = lc_fresh ?s + 1" "lc_capacity s' = lc_capacity ?s" "lc_usage s' \<le> lc_capacity s' \<or> lc_lru s' = []"
    by (rule Insert_spec [OF s(1)])
  let ?p = "(i, lc_fresh ?s)"
  have "keyed (\<lambda>key hash. hash = HashSlice key \<and> Shard hash = i) s'"
    using keyed_Insert [OF s'(1) s(2)] by (simp add: hash_def i_def)
  moreover have nocap: "\<forall>k u v. \<not> cached s' k u v" if "lc_capacity s' = 0"
  proof -
    have "lc_capacity ?s = 0" using that s'(9) by simp
    then show ?thesis using s(3) s'(7) by simp
  qed
  ultimately have "shard_sound (held(?p := 1)) i s'"
    using s'(2) held_shard [of held ?p 1] by (simp add: shard_sound_def)
  then have inv: "sharded_inv (held(?p := 1)) (put_shard i s' c)" by (intro sharded_inv_put [OF c i]) auto
  have run: "sharded_Insert k v n c = Some (?p, put_shard i s' c)"
    using s'(1) by (simp add: sharded_Insert_def Let_def hash_def [symmetric] i_def [symmetric])
  have val: "sharded_Value ?p (put_shard i s' c) = Some v" using s'(3,4) len i by (simp add: Value_put lh_entry_def)
  have kept: "sharded_Value q (put_shard i s' c) = sharded_Value q c" if "0 < held q" for q
    using that by (intro Value_kept [OF len i s'(6)]) (auto simp: split_paired_all prod_eq_iff)
  have cont: "if k' = k then v' = v else sharded_content c k' v'" if "sharded_content (put_shard i s' c) k' v'" for k' v'
  proof (cases "Shard (HashSlice k') = i")
    case True
    then have cs: "cached s' k' (HashSlice k') v'" using that len by (simp add: content_put)
    then have "0 < lc_capacity ?s" using nocap s'(9) by (metis word_gt_0)
    then show ?thesis using s'(7) cs True by (auto simp: hash_def sharded_content_def)
  next
    case False
    then show ?thesis using that len by (auto simp: content_put i_def hash_def)
  qed
  have "sharded_allocated (put_shard i s' c) = sharded_allocated c + 1" using allocated_update [of i c s' 1] s'(8) len i by simp
  with run inv val kept cont s'(5) show ?thesis by blast
qed

text \<open>What is left when the entries of a key are gone.\<close>

lemma cached_erased:
  assumes ic: "in_cache s' = {e \<in> in_cache s. \<not> matches (lc_handles s) k hash e}"
    and same: "same_entries (in_cache s') (lc_handles s) (lc_handles s')" and u: "k' = k \<Longrightarrow> u = hash"
  shows "cached s' k' u v \<longleftrightarrow> k' \<noteq> k \<and> cached s k' u v"
proof
  assume "cached s' k' u v"
  then obtain e h where e: "e \<in> in_cache s'" "lc_handles s' e = Some h" "lh_key h = k'" "lh_hash h = u" "lh_value h = v"
    unfolding cached_def by blast
  obtain g where g: "lc_handles s e = Some g" "lh_entry g = lh_entry h" using same_entriesD [OF same_entries_sym [OF same] e(1,2)] by blast
  have "e \<in> in_cache s" "\<not> matches (lc_handles s) k hash e" using e(1) unfolding ic by blast+
  then show "k' \<noteq> k \<and> cached s k' u v" using g e(3-5) u unfolding cached_def by (auto simp: lh_entry_def)
next
  assume a: "k' \<noteq> k \<and> cached s k' u v"
  then obtain e h where e: "e \<in> in_cache s" "lc_handles s e = Some h" "lh_key h = k'" "lh_hash h = u" "lh_value h = v"
    unfolding cached_def by blast
  then have e': "e \<in> in_cache s'" unfolding ic using a by auto
  obtain g where "lc_handles s' e = Some g" "lh_entry g = lh_entry h" using same_entriesD [OF same e' e(2)] by blast
  then show "cached s' k' u v" using e(3-5) e' unfolding cached_def by (auto simp: lh_entry_def)
qed

lemma sharded_Lookup_law:
  assumes c: "sharded_inv held c" and b: "\<And>p. held p + 2 < 2 ^ 32"
  shows "\<exists>r c'. sharded_Lookup k c = Some (r, c') \<and> sharded_content c' = sharded_content c
      \<and> (\<forall>q. 0 < held q \<longrightarrow> sharded_Value q c' = sharded_Value q c) \<and> sharded_allocated c' = sharded_allocated c
      \<and> (case r of None \<Rightarrow> sharded_inv held c' \<and> (\<forall>v. \<not> sharded_content c k v)
           | Some p \<Rightarrow> sharded_inv (held(p := held p + 1)) c' \<and> (\<exists>v. sharded_content c k v \<and> sharded_Value p c' = Some v))"
proof -
  define hash i where "hash = HashSlice k" and "i = Shard hash"
  let ?s = "sc_shard c ! i" and ?held = "\<lambda>e. held (i, e)"
  have i: "i < kNumShards" using Shard_less by (simp add: i_def)
  note len = sharded_invD(1) [OF c] and s = sharded_invD(2-4) [OF c i]
  have run: "sharded_Lookup k c = map_option (\<lambda>(r, s'). (map_option (Pair i) r, put_shard i s' c)) (cache_Lookup k hash ?s)"
    by (cases "cache_Lookup k hash ?s") (auto simp: sharded_Lookup_def Let_def hash_def [symmetric] i_def [symmetric])
  show ?thesis
  proof (rule Lookup_spec [OF s(1) b, of k hash])
    assume m: "cache_Lookup k hash ?s = Some (None, ?s)" "\<And>v. \<not> cached ?s k hash v"
    have "put_shard i ?s c = c" by simp
    then show ?thesis using run m c by (simp add: sharded_content_def hash_def [symmetric] i_def [symmetric])
  next
    fix e h s'
    assume s': "cache_Lookup k hash ?s = Some (Some e, s')" "shard_inv (?held(e := ?held e + 1)) s'" "lc_handles s' e = Some h"
      "lh_key h = k" "lh_hash h = hash" "cached ?s k hash (lh_value h)" "same_entries UNIV (lc_handles ?s) (lc_handles s')"
      "cached s' = cached ?s" "lc_fresh s' = lc_fresh ?s" "lc_capacity s' = lc_capacity ?s"
    let ?p = "(i, e)"
    have "shard_sound (held(?p := held ?p + 1)) i s'"
      using s'(2,8,10) s(3) keyed_Lookup [OF s'(1) s(2)] held_shard [of held ?p "held ?p + 1"] by (simp add: shard_sound_def)
    then have inv: "sharded_inv (held(?p := held ?p + 1)) (put_shard i s' c)" by (intro sharded_inv_put [OF c i]) auto
    have kept: "sharded_Value q (put_shard i s' c) = sharded_Value q c" for q by (rule Value_kept [OF len i s'(7)]) simp
    have "sharded_Value ?p (put_shard i s' c) = Some (lh_value h)" using s'(3) len i by (simp add: Value_put)
    moreover have "sharded_content c k (lh_value h)" using s'(6) by (simp add: sharded_content_def hash_def i_def)
    moreover have "sharded_content (put_shard i s' c) = sharded_content c"
      using s'(8) len by (auto simp: fun_eq_iff content_put) (auto simp: sharded_content_def)
    moreover have "sharded_allocated (put_shard i s' c) = sharded_allocated c" using allocated_update [of i c s' 0] s'(9) len i by simp
    ultimately show ?thesis using run s'(1) inv kept by auto
  qed
qed

lemma sharded_Release_law:
  assumes c: "sharded_inv held c" and p: "0 < held p"
  shows "\<exists>c'. sharded_Release p c = Some c' \<and> sharded_inv (held(p := held p - 1)) c' \<and> sharded_content c' = sharded_content c
      \<and> (\<forall>q. 0 < (held(p := held p - 1)) q \<longrightarrow> sharded_Value q c' = sharded_Value q c) \<and> sharded_allocated c' = sharded_allocated c"
proof -
  obtain i e where pe: "p = (i, e)" by (cases p)
  have i: "i < kNumShards"
  proof (rule ccontr)
    assume "\<not> i < kNumShards"
    then show False using c p by (simp add: sharded_inv_def pe)
  qed
  let ?s = "sc_shard c ! i" and ?held = "\<lambda>e. held (i, e)"
  note len = sharded_invD(1) [OF c] and s = sharded_invD(2-4) [OF c i]
  have pos: "0 < ?held e" using p by (simp add: pe)
  obtain h where h: "lc_handles ?s e = Some h" using shard_okD(4) [OF s(1) pos] by blast
  then have hash: "Shard (lh_hash h) = i" using s(2) unfolding keyed_def by blast
  obtain s' where s': "cache_Unref e ?s = Some s'" "shard_ok (?held(e := ?held e - 1)) (in_cache ?s) s'" "in_cache s' = in_cache ?s"
    "same_entries {x. x \<noteq> e \<or> 1 < ?held e \<or> x \<in> in_cache ?s} (lc_handles ?s) (lc_handles s')"
    "lc_capacity s' = lc_capacity ?s" "lc_usage s' = lc_usage ?s" "lc_fresh s' = lc_fresh ?s"
    by (rule Unref_spec [OF s(1) pos])
  have run: "sharded_Release p c = Some (put_shard i s' c)"
    using h hash len i s'(1) by (simp add: sharded_Release_def deref_def pe Let_def cache_Release_def)
  have "in_cache ?s \<subseteq> {x. x \<noteq> e \<or> 1 < ?held e \<or> x \<in> in_cache ?s}" by blast
  then have eq: "cached s' = cached ?s" by (rule cached_eq [OF s'(3) same_entries_subset [OF s'(4)]])
  have "shard_inv (?held(e := ?held e - 1)) s'" using s'(2) unfolding s'(3) .
  then have "shard_sound (held(p := held p - 1)) i s'"
    using eq s'(5) s(3) keyed_Unref [OF s'(1) s(2)] held_shard [of held p "held p - 1"] by (simp add: shard_sound_def pe)
  then have inv: "sharded_inv (held(p := held p - 1)) (put_shard i s' c)" by (intro sharded_inv_put [OF c i]) (auto simp: pe)
  have kept: "sharded_Value q (put_shard i s' c) = sharded_Value q c" if "0 < (held(p := held p - 1)) q" for q
    using that by (intro Value_kept [OF len i s'(4)]) (cases q, auto simp: pe split: if_splits)
  have "sharded_content (put_shard i s' c) = sharded_content c"
    using eq len by (auto simp: fun_eq_iff content_put) (auto simp: sharded_content_def)
  moreover have "sharded_allocated (put_shard i s' c) = sharded_allocated c" using allocated_update [of i c s' 0] s'(7) len i by simp
  ultimately show ?thesis using run inv kept by blast
qed

lemma sharded_Erase_law:
  assumes c: "sharded_inv held c"
  shows "\<exists>c'. sharded_Erase k c = Some c' \<and> sharded_inv held c' \<and> (\<forall>k' v'. sharded_content c' k' v' \<longleftrightarrow> k' \<noteq> k \<and> sharded_content c k' v')
      \<and> (\<forall>q. 0 < held q \<longrightarrow> sharded_Value q c' = sharded_Value q c) \<and> sharded_allocated c' = sharded_allocated c"
proof -
  define hash i where "hash = HashSlice k" and "i = Shard hash"
  let ?s = "sc_shard c ! i" and ?held = "\<lambda>e. held (i, e)"
  have i: "i < kNumShards" using Shard_less by (simp add: i_def)
  note len = sharded_invD(1) [OF c] and s = sharded_invD(2-4) [OF c i]
  obtain s' where s': "cache_Erase k hash ?s = Some s'" "shard_inv ?held s'" "in_cache s' = {e \<in> in_cache ?s. \<not> matches (lc_handles ?s) k hash e}"
    "same_entries {e. \<not> matches (lc_handles ?s) k hash e \<or> 0 < ?held e} (lc_handles ?s) (lc_handles s')"
    "lc_capacity s' = lc_capacity ?s" "lc_fresh s' = lc_fresh ?s" by (rule Erase_spec [OF s(1)])
  have run: "sharded_Erase k c = Some (put_shard i s' c)"
    using s'(1) by (simp add: sharded_Erase_def Let_def hash_def [symmetric] i_def [symmetric])
  have sub: "in_cache s' \<subseteq> {e. \<not> matches (lc_handles ?s) k hash e \<or> 0 < ?held e}" unfolding s'(3) by blast
  have sub': "in_cache s' \<subseteq> in_cache ?s" unfolding s'(3) by blast
  have same: "same_entries (in_cache s') (lc_handles ?s) (lc_handles s')" by (rule same_entries_subset [OF s'(4) sub])
  have cs: "cached s' k' (HashSlice k') v' \<longleftrightarrow> k' \<noteq> k \<and> cached ?s k' (HashSlice k') v'" for k' v'
    by (rule cached_erased [OF s'(3) same, unfolded hash_def, of k' "HashSlice k'"]) simp
  have "shard_sound held i s'"
    using s'(2,5) s(3) cached_mono [OF sub' same] keyed_Erase [OF s'(1) s(2)] unfolding shard_sound_def by metis
  then have inv: "sharded_inv held (put_shard i s' c)" by (intro sharded_inv_put [OF c i]) auto
  have kept: "sharded_Value q (put_shard i s' c) = sharded_Value q c" if "0 < held q" for q
    using that by (intro Value_kept [OF len i s'(4)]) (cases q, auto)
  have "sharded_content (put_shard i s' c) k' v' \<longleftrightarrow> k' \<noteq> k \<and> sharded_content c k' v'" for k' v'
    using cs [of k' v'] len by (auto simp: content_put) (auto simp: sharded_content_def i_def hash_def)
  moreover have "sharded_allocated (put_shard i s' c) = sharded_allocated c" using allocated_update [of i c s' 0] s'(6) len i by simp
  ultimately show ?thesis using run inv kept by blast
qed

lemma prune_shards_spec:
  assumes "\<forall>i < length ss. shard_inv (\<lambda>e. held (m + i, e)) (ss ! i)"
  shows "\<exists>ss'. prune_shards ss = Some ss' \<and> length ss' = length ss \<and> (\<forall>i < length ss.
      cache_Prune (ss ! i) = Some (ss' ! i) \<and> shard_inv (\<lambda>e. held (m + i, e)) (ss' ! i) \<and> in_cache (ss' ! i) \<subseteq> in_cache (ss ! i)
      \<and> same_entries ({e. 0 < held (m + i, e)} \<union> in_cache (ss' ! i)) (lc_handles (ss ! i)) (lc_handles (ss' ! i))
      \<and> lc_capacity (ss' ! i) = lc_capacity (ss ! i) \<and> lc_fresh (ss' ! i) = lc_fresh (ss ! i))"
  using assms
proof (induction ss arbitrary: m)
  case Nil
  then show ?case by simp
next
  case (Cons s ss)
  let ?held = "\<lambda>e. held (m, e)"
  have s: "shard_inv ?held s" using Cons.prems by fastforce
  from Prune_spec [OF s] obtain s' where s': "cache_Prune s = Some s'" "shard_inv ?held s'" "in_cache s' = in_cache s - set (lc_lru s)"
    "same_entries (- set (lc_lru s)) (lc_handles s) (lc_handles s')" "lc_capacity s' = lc_capacity s" "lc_fresh s' = lc_fresh s"
    by (elim exE conjE) (rule that)
  have lru: "set (lc_lru s) = {e \<in> in_cache s. ?held e = 0}" using s by (simp add: shard_ok_def)
  have "{e. 0 < ?held e} \<union> in_cache s' \<subseteq> - set (lc_lru s)" unfolding s'(3) lru by auto
  note same = same_entries_subset [OF s'(4) this]
  have "\<forall>i < length ss. shard_inv (\<lambda>e. held (Suc m + i, e)) (ss ! i)"
  proof (intro allI impI)
    fix i assume "i < length ss"
    then show "shard_inv (\<lambda>e. held (Suc m + i, e)) (ss ! i)" using Cons.prems [rule_format, of "Suc i"] by simp
  qed
  from Cons.IH [OF this] obtain ss' where ss': "prune_shards ss = Some ss'" "length ss' = length ss"
    "\<forall>i < length ss. cache_Prune (ss ! i) = Some (ss' ! i) \<and> shard_inv (\<lambda>e. held (Suc m + i, e)) (ss' ! i) \<and> in_cache (ss' ! i) \<subseteq> in_cache (ss ! i)
      \<and> same_entries ({e. 0 < held (Suc m + i, e)} \<union> in_cache (ss' ! i)) (lc_handles (ss ! i)) (lc_handles (ss' ! i))
      \<and> lc_capacity (ss' ! i) = lc_capacity (ss ! i) \<and> lc_fresh (ss' ! i) = lc_fresh (ss ! i)" by (elim exE conjE) (rule that)
  have "in_cache s' \<subseteq> in_cache s" unfolding s'(3) by blast
  with s'(1,2,5,6) same ss' show ?case
    by (intro exI [of _ "s' # ss'"]) (auto simp: All_less_Suc2 simp del: Collect_conj_eq)
qed

lemma sharded_Prune_law:
  assumes c: "sharded_inv held c"
  shows "\<exists>c'. sharded_Prune c = Some c' \<and> sharded_inv held c' \<and> (\<forall>k' v'. sharded_content c' k' v' \<longrightarrow> sharded_content c k' v')
      \<and> (\<forall>q. 0 < held q \<longrightarrow> sharded_Value q c' = sharded_Value q c) \<and> sharded_allocated c' = sharded_allocated c"
proof -
  note len = sharded_invD(1) [OF c]
  have "\<forall>i < length (sc_shard c). shard_inv (\<lambda>e. held (0 + i, e)) (sc_shard c ! i)" using sharded_invD(1,2) [OF c] by simp
  from prune_shards_spec [OF this] obtain ss where ss: "prune_shards (sc_shard c) = Some ss" "length ss = kNumShards"
    "\<And>i. i < kNumShards \<Longrightarrow> cache_Prune (sc_shard c ! i) = Some (ss ! i) \<and> shard_inv (\<lambda>e. held (i, e)) (ss ! i)
      \<and> in_cache (ss ! i) \<subseteq> in_cache (sc_shard c ! i)
      \<and> same_entries ({e. 0 < held (i, e)} \<union> in_cache (ss ! i)) (lc_handles (sc_shard c ! i)) (lc_handles (ss ! i))
      \<and> lc_capacity (ss ! i) = lc_capacity (sc_shard c ! i) \<and> lc_fresh (ss ! i) = lc_fresh (sc_shard c ! i)"
    unfolding len by auto
  let ?c = "c\<lparr>sc_shard := ss\<rparr>"
  have run: "sharded_Prune c = Some ?c" using ss(1) by (simp add: sharded_Prune_def)
  have mono: "cached (sc_shard c ! i) k u v" if "i < kNumShards" "cached (ss ! i) k u v" for i k u v
    using ss(3) [OF that(1)] that(2) cached_mono [of "ss ! i" "sc_shard c ! i"] same_entries_subset [OF _ Un_upper2] by blast
  have "shard_sound held i (ss ! i)" if i: "i < kNumShards" for i
  proof -
    have "keyed (\<lambda>key hash. hash = HashSlice key \<and> Shard hash = i) (ss ! i)"
      using keyed_Prune [OF conjunct1 [OF ss(3) [OF i]] sharded_invD(3) [OF c i]] .
    moreover have "lc_capacity (ss ! i) = lc_capacity (sc_shard c ! i)" "shard_inv (\<lambda>e. held (i, e)) (ss ! i)" using ss(3) [OF i] by blast+
    ultimately show ?thesis using sharded_invD(4) [OF c i] mono [OF i] unfolding shard_sound_def by auto
  qed
  then have inv: "sharded_inv held ?c" using c ss(2) by (simp add: sharded_inv_def)
  have kept: "sharded_Value q ?c = sharded_Value q c" if q: "0 < held q" for q
  proof -
    have i: "fst q < kNumShards" using c q unfolding sharded_inv_def by (metis less_irrefl not_le prod.collapse)
    have "map_option lh_entry (lc_handles (sc_shard c ! fst q) (snd q)) = map_option lh_entry (lc_handles (ss ! fst q) (snd q))"
      using ss(3) [OF i] q by (simp add: same_entries_def)
    then show ?thesis using i ss(2) len
      by (cases "lc_handles (sc_shard c ! fst q) (snd q)"; cases "lc_handles (ss ! fst q) (snd q)")
        (simp_all add: sharded_Value_def deref_def lh_entry_def)
  qed
  have "map lc_fresh ss = map lc_fresh (sc_shard c)" using ss(2,3) len by (intro nth_equalityI) simp_all
  then have "sharded_allocated ?c = sharded_allocated c" by (simp add: sharded_allocated_def)
  moreover have "sharded_content ?c k v \<longrightarrow> sharded_content c k v" for k v using mono Shard_less by (simp add: sharded_content_def)
  ultimately show ?thesis using run inv kept by blast
qed

interpretation lru: lossy_cache lru_Cache sharded_inv sharded_content sharded_allocated
  by unfold_locales
    (simp_all only: lru_Cache_def Cache.select_convs sharded_Insert_law sharded_Lookup_law sharded_Release_law sharded_Erase_law sharded_Prune_law)

lemma make_LRUCache_inv:
  "\<exists>s. make_LRUCache capacity = Some s \<and> shard_inv (\<lambda>_. 0) s \<and> lc_handles s = Map.empty \<and> lc_fresh s = 0"
proof -
  have "\<exists>t. make_HandleTable (Map.empty :: 'a handles) = Some t \<and> table_ok (Map.empty :: 'a handles) t {}"
    unfolding make_HandleTable_def by (rule Resize_spec) simp_all
  then obtain t where "make_HandleTable (Map.empty :: 'a handles) = Some t" "table_ok (Map.empty :: 'a handles) t {}" by blast
  then show ?thesis by (auto simp: make_LRUCache_def shard_ok_def unique_keys_def)
qed

lemma NewLRUCache_inv: "\<exists>c. NewLRUCache capacity = Some c \<and> sharded_inv (\<lambda>_. 0) c \<and> sharded_allocated c = 0 \<and> (\<forall>k v. \<not> sharded_content c k v)"
proof -
  define n :: uint64 where "n = (capacity + (of_nat kNumShards - 1)) div of_nat kNumShards"
  from make_LRUCache_inv [of n] obtain s :: "'a LRUCache" where s: "make_LRUCache n = Some s" "shard_inv (\<lambda>_. 0) s"
    "lc_handles s = Map.empty" "lc_fresh s = 0" by (elim exE conjE) (rule that)
  have nc: "\<not> cached s k u v" for k u v using s(3) by (simp add: cached_def)
  have "shard_sound (\<lambda>_. 0) i s" for i using s(2,3) nc by (simp add: shard_sound_def keyed_def)
  then show ?thesis using s(1,4) nc Shard_less
    by (auto simp: NewLRUCache_def n_def [symmetric] sharded_inv_def sharded_allocated_def sharded_content_def sum_list_replicate)
qed

section \<open>Properties\<close>

text \<open>C5: clients of the LRU cache that release only handles they hold. Whatever they call, up to \<open>2^31\<close>
  calls: no assertion fails, no handle that was freed is used and every loop ends; the handles they
  hold still give the values they got with them, also after these were erased, replaced or would have
  been evicted; and a lookup returns the value inserted last under the key and not erased since, or nothing.\<close>

theorem cache_coherent:
  assumes "length cls + 1 < 2 ^ 31"
  shows "\<exists>c0 c hs latest. NewLRUCache capacity = Some c0 \<and> client_run lru_Cache cls (c0, [], Map.empty) = Some (c, hs, latest)
    \<and> (\<forall>(p, v) \<in> set hs. sharded_Value p c = Some v)
    \<and> (\<forall>k. \<exists>r c'. sharded_Lookup k c = Some (r, c') \<and> (\<forall>p. r = Some p \<longrightarrow> sharded_Value p c' = latest k))"
proof -
  from NewLRUCache_inv [of capacity] obtain c0 :: "'a ShardedLRUCache" where
    c0: "NewLRUCache capacity = Some c0" "sharded_inv (\<lambda>_. 0) c0" "sharded_allocated c0 = 0" "\<forall>k v. \<not> sharded_content c0 k v" by blast
  have "count_list [] = (\<lambda>_ :: Handle. 0)" by (simp add: fun_eq_iff)
  then have "lru.client_ok 0 (c0, [], Map.empty)" using c0(2-4) by (simp add: lru.client_ok_def)
  from lru.client_run_ok [OF this, of cls] assms obtain c hs latest where
    run: "client_run lru_Cache cls (c0, [], Map.empty) = Some (c, hs, latest)" "lru.client_ok (length cls) (c, hs, latest)" by auto
  have "\<exists>r c'. sharded_Lookup k c = Some (r, c') \<and> (\<forall>p. r = Some p \<longrightarrow> sharded_Value p c' = latest k)" for k
  proof -
    have i: "sharded_inv (count_list (map fst hs)) c" using run(2) by (simp add: lru.client_ok_def)
    from sharded_Lookup_law [OF i lru.held_bound [OF run(2) assms], of k] obtain r c' where
      r: "sharded_Lookup k c = Some (r, c')" "case r of None \<Rightarrow> True | Some p \<Rightarrow> \<exists>v. sharded_content c k v \<and> sharded_Value p c' = Some v"
      by (fastforce split: option.splits)
    then show ?thesis using run(2) by (fastforce simp: lru.client_ok_def split: option.splits)
  qed
  moreover have "\<forall>(p, v) \<in> set hs. sharded_Value p c = Some v"
    using run(2) unfolding lru.client_ok_def by (simp add: lru_Cache_def)
  ultimately show ?thesis using c0(1) run(1) by blast
qed

theorem cache_coherent_witness:
  "\<exists>c0 c hs latest. NewLRUCache 16 = Some c0
    \<and> client_run lru_Cache [CallInsert [1] (7 :: nat) 1, CallLookup [1], CallInsert [1] 8 1, CallErase [1], CallRelease 0] (c0, [], Map.empty)
      = Some (c, hs, latest)
    \<and> (\<forall>(p, v) \<in> set hs. sharded_Value p c = Some v)
    \<and> (\<forall>k. \<exists>r c'. sharded_Lookup k c = Some (r, c') \<and> (\<forall>p. r = Some p \<longrightarrow> sharded_Value p c' = latest k))"
  by (rule cache_coherent) simp

end
