(* ===== verification/Ldb_Format_Correct.thy ===== *)
theory Ldb_Format_Correct
  imports Ldb_TableBuilder Ldb_Codec Ldb_Crc_Correct
begin

text \<open>
  Handles and footers are read back, and a block that \<open>WriteBlock\<close> has stored in a file is read back
  with its original bytes, compressed or not.
\<close>

lemma BlockHandle_round_trip:
  "BlockHandle_DecodeFrom (BlockHandle_EncodeTo h [] @ rest) h0 = (OK, h, rest)"
proof -
  have "GetVarint64 (EncodeVarint64 a @ x) = Ret a x" for a x using varint64.get_put [of a x] by (simp add: PutVarint64_def)
  then show ?thesis by (cases h; cases h0) (simp add: BlockHandle_DecodeFrom_def BlockHandle_EncodeTo_def PutVarint64_def)
qed

lemma BlockHandle_EncodeTo_append: "BlockHandle_EncodeTo h dst = dst @ BlockHandle_EncodeTo h []"
  by (simp add: BlockHandle_EncodeTo_def PutVarint64_def)

lemma length_BlockHandle: "length (BlockHandle_EncodeTo h []) \<le> kMaxEncodedLength"
proof -
  have "length (EncodeVarint64 v) \<le> 10" for v
    unfolding EncodeVarint64_leb128 using length_leb128_64 [of "unat v"] unsigned_less [of v] by simp
  from this [of "bh_offset h"] this [of "bh_size h"] show ?thesis
    by (simp add: BlockHandle_EncodeTo_def PutVarint64_def kMaxEncodedLength_def)
qed

lemma Footer_bytes:
  "Footer_EncodeTo f [] = (let hs = BlockHandle_EncodeTo (metaindex_handle f) [] @ BlockHandle_EncodeTo (index_handle f) []
     in hs @ replicate (40 - length hs) 0 @ EncodeFixed32 0x8b80fb57 @ EncodeFixed32 0xdb477524)"
proof -
  let ?hs = "BlockHandle_EncodeTo (metaindex_handle f) [] @ BlockHandle_EncodeTo (index_handle f) []"
  have "length ?hs \<le> 40"
    using length_BlockHandle [of "metaindex_handle f"] length_BlockHandle [of "index_handle f"] by (simp add: kMaxEncodedLength_def)
  moreover have "(ucast (kTableMagicNumber AND 0xffffffff) :: uint32) = 0x8b80fb57" "(ucast (drop_bit 32 kTableMagicNumber) :: uint32) = 0xdb477524"
    by (simp_all add: kTableMagicNumber_def)
  ultimately show ?thesis
    unfolding Footer_EncodeTo_def Let_def BlockHandle_EncodeTo_append [of "index_handle f" "BlockHandle_EncodeTo (metaindex_handle f) []"]
    by (simp add: resize_def kMaxEncodedLength_def PutFixed32_def)
qed

lemma length_Footer: "length (Footer_EncodeTo f []) = kEncodedLength"
proof -
  let ?hs = "BlockHandle_EncodeTo (metaindex_handle f) [] @ BlockHandle_EncodeTo (index_handle f) []"
  have "length ?hs \<le> 40"
    using length_BlockHandle [of "metaindex_handle f"] length_BlockHandle [of "index_handle f"] by (simp add: kMaxEncodedLength_def)
  then show ?thesis by (simp add: Footer_bytes Let_def kEncodedLength_def kMaxEncodedLength_def)
qed

lemma Footer_round_trip:
  "Footer_DecodeFrom (Footer_EncodeTo f [] @ rest) f0 = Some (OK, f, rest)"
proof -
  let ?m = "BlockHandle_EncodeTo (metaindex_handle f) []" and ?i = "BlockHandle_EncodeTo (index_handle f) []"
  let ?pad = "replicate (40 - length (?m @ ?i)) 0"
  let ?lo = "EncodeFixed32 0x8b80fb57" and ?hi = "EncodeFixed32 0xdb477524"
  have len: "length (?m @ ?i) \<le> 40"
    using length_BlockHandle [of "metaindex_handle f"] length_BlockHandle [of "index_handle f"] by (simp add: kMaxEncodedLength_def)
  have b: "Footer_EncodeTo f [] @ rest = (?m @ ?i @ ?pad) @ ?lo @ ?hi @ rest" by (simp add: Footer_bytes Let_def)
  have "length (?m @ ?i @ ?pad) = 40" using len by simp
  then have "drop 40 (Footer_EncodeTo f [] @ rest) = ?lo @ ?hi @ rest" "drop 44 (Footer_EncodeTo f [] @ rest) = ?hi @ rest"
    unfolding b by (simp_all only: drop_append [of _ "?m @ ?i @ ?pad"]) (simp_all add: drop_append)
  then have "DecodeFixed32 (drop (kEncodedLength - 8) (Footer_EncodeTo f [] @ rest)) = 0x8b80fb57"
    "DecodeFixed32 (drop (kEncodedLength - 4) (Footer_EncodeTo f [] @ rest)) = 0xdb477524"
    by (simp_all add: kEncodedLength_def kMaxEncodedLength_def DecodeFixed32_Encode)
  moreover have "push_bit 32 (ucast (0xdb477524 :: uint32) :: uint64) OR ucast (0x8b80fb57 :: uint32) = kTableMagicNumber"
    by (simp add: kTableMagicNumber_def)
  moreover have "BlockHandle_DecodeFrom (Footer_EncodeTo f [] @ rest) (metaindex_handle f0) = (OK, metaindex_handle f, ?i @ ?pad @ ?lo @ ?hi @ rest)"
    using BlockHandle_round_trip [of "metaindex_handle f"] by (simp add: b)
  moreover have "drop kEncodedLength (Footer_EncodeTo f [] @ rest) = rest" by (simp add: length_Footer)
  ultimately show ?thesis
    using length_Footer [of f] BlockHandle_round_trip [of "index_handle f"]
    by (cases f) (simp add: Footer_DecodeFrom_def Let_def)
qed

section \<open>Stored blocks\<close>

text \<open>The compressor: what it compresses it can uncompress.\<close>

locale snappy_codec =
  fixes snappy :: Snappy
  assumes uncompress: "Snappy_Compress snappy raw = Some z \<Longrightarrow>
    Snappy_GetUncompressedLength snappy z = Some (length raw) \<and> Snappy_Uncompress snappy z = Some raw"

interpretation no_snappy: snappy_codec no_snappy
  by unfold_locales (simp add: no_snappy_def)

text \<open>Files: appending adds bytes at the end, and a read inside the file returns its bytes.\<close>

locale table_file =
  fixes wops :: "'f WritableFile" and rops :: "'f RandomAccessFile" and content :: "'f \<Rightarrow> byte list"
  assumes append: "\<exists>f'. wf_Append wops b f = (OK, f') \<and> content f' = content f @ b"
    and flush: "\<exists>f'. wf_Flush wops f = (OK, f') \<and> content f' = content f"
    and read: "unat off + n \<le> length (content f) \<Longrightarrow> \<exists>b. raf_Read rops off n f = (OK, take n (drop (unat off) (content f)), b)"

definition memory_WritableFile :: "byte list WritableFile" where
  "memory_WritableFile = \<lparr>wf_Append = (\<lambda>b f. (OK, f @ b)), wf_Flush = (\<lambda>f. (OK, f))\<rparr>"

definition memory_RandomAccessFile :: "byte list RandomAccessFile" where
  "memory_RandomAccessFile = \<lparr>raf_Read = (\<lambda>off n f. (OK, take n (drop (unat off) f), True))\<rparr>"

interpretation memory_file: table_file memory_WritableFile memory_RandomAccessFile id
  by unfold_locales (auto simp: memory_WritableFile_def memory_RandomAccessFile_def)

text \<open>The bytes \<open>raw\<close> of a block are stored in a file under a handle.\<close>

definition holds :: "Snappy \<Rightarrow> byte list \<Rightarrow> BlockHandle \<Rightarrow> slice \<Rightarrow> bool" where
  "holds snappy file h raw \<longleftrightarrow>
     (\<exists>pre contents t post ct. file = pre @ contents @ block_trailer contents t @ post
        \<and> compress_block snappy ct raw = (contents, t)
        \<and> h = \<lparr>bh_offset = of_nat (length pre), bh_size = of_nat (length contents)\<rparr>)"

lemma length_block_trailer [simp]: "length (block_trailer contents t) = kBlockTrailerSize"
  by (simp add: block_trailer_def Let_def kBlockTrailerSize_def)

lemma holds_append: "holds snappy file h raw \<Longrightarrow> holds snappy (file @ rest) h raw"
  unfolding holds_def by (metis append.assoc)

lemma block_contents_compressed:
  assumes "snappy_codec snappy" and "compress_block snappy ct raw = (contents, t)"
  shows "\<exists>bc. block_contents snappy contents (CompressionType_code t) scr = (OK, bc) \<and> bc_data bc = raw"
  using assms snappy_codec.uncompress [OF assms(1), of raw contents]
  by (auto simp: compress_block_def block_contents_def split: CompressionType.splits option.splits if_splits)

lemma holds_read:
  assumes tf: "table_file wops rops content" and snappy: "snappy_codec snappy"
    and h: "holds snappy (content f) h raw" and len: "length (content f) < 2 ^ 64"
  shows "\<exists>bc. ReadBlock rops snappy f verify h = Some (OK, bc) \<and> bc_data bc = raw"
proof -
  from h obtain pre contents t post ct where c: "content f = pre @ contents @ block_trailer contents t @ post"
    "compress_block snappy ct raw = (contents, t)" "h = \<lparr>bh_offset = of_nat (length pre), bh_size = of_nat (length contents)\<rparr>"
    unfolding holds_def by blast
  have l: "length pre + length contents + kBlockTrailerSize + length post < 2 ^ 64" using len by (simp add: c(1))
  have u: "unat (bh_offset h) = length pre" "unat (bh_size h) = length contents"
    "unat (bh_size h + of_nat kBlockTrailerSize) = length contents + kBlockTrailerSize"
  proof -
    have "unat (of_nat m :: uint64) = m" if "m < 2 ^ 64" for m using that by (simp add: unat_of_nat)
    from this [of "length pre"] this [of "length contents"] this [of "length contents + kBlockTrailerSize"]
    show "unat (bh_offset h) = length pre" "unat (bh_size h) = length contents"
      "unat (bh_size h + of_nat kBlockTrailerSize) = length contents + kBlockTrailerSize" using l by (simp_all add: c(3))
  qed
  let ?b = "contents @ block_trailer contents t"
  from table_file.read [OF tf, of "bh_offset h" "length contents + kBlockTrailerSize" f] obtain b where
    r: "raf_Read rops (bh_offset h) (length contents + kBlockTrailerSize) f = (OK, ?b, b)" using l u(1) by (auto simp: c(1))
  have crc: "crc_Value 0 (take (length contents + 1) ?b) = Unmask (DecodeFixed32 (drop (length contents + 1) ?b))"
    using DecodeFixed32_Encode [of "Mask (crc32c 0 (contents @ [CompressionType_code t]))" "[]"]
    by (simp add: block_trailer_def Let_def crc_Value_def Extend_crc32c crc32c_append Unmask_Mask)
  have "?b ! length contents = CompressionType_code t" by (simp add: block_trailer_def Let_def)
  then show ?thesis using r u crc block_contents_compressed [OF snappy c(2), of b]
    by (auto simp: ReadBlock_def Let_def)
qed

end
