(* ===== verification/Ldb_TableBuilder_Correct.thy ===== *)
theory Ldb_TableBuilder_Correct
  imports Ldb_Format_Correct Ldb_Filter_Correct Ldb_Iterator
begin

text \<open>
  What a table builder has written: data blocks that hold the entries in order, index entries whose
  keys separate the blocks, and the filter of their keys.
\<close>

section \<open>Writing blocks\<close>

lemma Reset_Finish: "BlockBuilder_Reset (snd (BlockBuilder_Finish (build k kvs))) = build k []"
proof -
  have "block_restart_interval (build k kvs) = k"
    by (induction kvs rule: rev_induct)
      (auto simp: build_def make_BlockBuilder_def BlockBuilder_Add_def Let_def split: prod.split)
  then show ?thesis
    by (simp add: BlockBuilder_Reset_def BlockBuilder_Finish_def Let_def build_def make_BlockBuilder_def)
qed

lemma build_buffer: "0 < k \<Longrightarrow> bb_buffer (build k kvs) = [] \<longleftrightarrow> kvs = []"
proof (cases kvs rule: rev_cases)
  case (snoc kvs' kv)
  obtain key val where kv: "kv = (key, val)" by (cases kv)
  have "EncodeVarint32 v \<noteq> []" for v by (simp add: EncodeVarint32_leb128 leb128.simps [of "unat v"])
  then show ?thesis
    by (simp add: snoc kv build_snoc BlockBuilder_Add_def Let_def PutVarint32_def split: prod.split)
qed (simp add: build_def make_BlockBuilder_def)

lemma length_compress_block: "compress_block snappy ct raw = (contents, t) \<Longrightarrow> length contents \<le> length raw"
  by (auto simp: compress_block_def split: CompressionType.splits option.splits if_splits)

text \<open>A bound on the sizes.\<close>

fun total_size :: "entry list \<Rightarrow> nat" where
  "total_size [] = 0"
| "total_size ((k, v) # es) = length k + length v + 32 + total_size es"

lemma total_size_append [simp]: "total_size (xs @ ys) = total_size xs + total_size ys"
  by (induction xs rule: total_size.induct) simp_all

lemma entries_size_total: "kvs \<noteq> [] \<Longrightarrow> entries_size kvs + 5 \<le> total_size kvs"
proof (induction kvs rule: total_size.induct)
  case (2 k v es)
  then show ?case by (cases "es = []") auto
qed simp

lemma length_total: "32 * length es \<le> total_size es"
  by (induction es rule: total_size.induct) simp_all

text \<open>A comparator whose separators and successors are short.\<close>

locale short_comparator = comparator c valid for c :: Comparator and valid :: "slice \<Rightarrow> bool" +
  assumes short_separator: "valid a \<Longrightarrow> valid b \<Longrightarrow> length (FindShortestSeparator c a b) \<le> length a"
    and short_successor: "valid a \<Longrightarrow> length (FindShortSuccessor c a) \<le> length a"

locale table_writing =
  table_file wops rops content + snappy_codec snappy + short_comparator c valid
  for wops :: "'f WritableFile" and rops :: "'f RandomAccessFile" and content :: "'f \<Rightarrow> byte list"
    and snappy :: Snappy and c :: Comparator and valid :: "slice \<Rightarrow> bool" +
  fixes opt :: Options and sim :: "slice \<Rightarrow> slice \<Rightarrow> bool"
  assumes opt_cmp: "opt_comparator opt = c" and interval_pos: "0 < opt_block_restart_interval opt"
    and policy_ok: "opt_filter_policy opt = Some p \<Longrightarrow> filter_policy p"
    and policy_name: "opt_filter_policy opt = Some p \<Longrightarrow> length (policy_Name p) < 2 ^ 31"
    and sim_separator: "valid a \<Longrightarrow> valid b \<Longrightarrow> valid k \<Longrightarrow> Compare c a b < 0 \<Longrightarrow> sim k b \<Longrightarrow> Compare c a k < 0 \<Longrightarrow>
      Compare c k b \<le> 0 \<Longrightarrow> Compare c (FindShortestSeparator c a b) k < 0"
    and sim_filter: "opt_filter_policy opt = Some p \<Longrightarrow> sim k k' \<Longrightarrow> KeyMayMatch p k flt = KeyMayMatch p k' flt"
begin

abbreviation K :: nat where "K \<equiv> opt_block_restart_interval opt"

text \<open>The builder knows the length of its file.\<close>

definition sound :: "'f TableBuilder \<Rightarrow> bool" where
  "sound r \<longleftrightarrow> tb_status r = OK \<and> tb_options r = opt \<and> tb_offset r = of_nat (length (content (tb_file r)))"

text \<open>What writing changes.\<close>

definition wrote :: "byte list \<Rightarrow> 'f TableBuilder \<Rightarrow> 'f TableBuilder \<Rightarrow> bool" where
  "wrote bs r r' \<longleftrightarrow> sound r' \<and> content (tb_file r') = content (tb_file r) @ bs
     \<and> tb_data_block r' = tb_data_block r \<and> tb_index_block r' = tb_index_block r \<and> tb_last_key r' = tb_last_key r
     \<and> tb_filter_block r' = tb_filter_block r \<and> tb_pending_index_entry r' = tb_pending_index_entry r
     \<and> tb_pending_handle r' = tb_pending_handle r"

lemma write_raw:
  assumes "sound r"
  shows "\<exists>r'. WriteRawBlock wops contents t r
      = (\<lparr>bh_offset = of_nat (length (content (tb_file r))), bh_size = of_nat (length contents)\<rparr>, r')
    \<and> wrote (contents @ block_trailer contents t) r r'"
proof -
  from append obtain f1 where f1: "wf_Append wops contents (tb_file r) = (OK, f1)" "content f1 = content (tb_file r) @ contents" by blast
  from append obtain f2 where f2: "wf_Append wops (block_trailer contents t) f1 = (OK, f2)"
    "content f2 = content f1 @ block_trailer contents t" by blast
  show ?thesis using assms f1 f2 by (auto simp: WriteRawBlock_def Let_def wrote_def sound_def)
qed

lemma write_block:
  assumes "sound r"
  obtains h r' bs where "WriteBlock wops snappy b r = (h, BlockBuilder_Reset (snd (BlockBuilder_Finish b)), r')"
    "wrote bs r r'" "holds snappy (content (tb_file r')) h (fst (BlockBuilder_Finish b))"
    "bh_offset h = of_nat (length (content (tb_file r)))" "length bs \<le> length (fst (BlockBuilder_Finish b)) + 5" "bs \<noteq> []"
proof -
  obtain raw b' where b: "BlockBuilder_Finish b = (raw, b')" by (cases "BlockBuilder_Finish b")
  obtain contents t where ct: "compress_block snappy (opt_compression opt) raw = (contents, t)"
    by (cases "compress_block snappy (opt_compression opt) raw")
  let ?h = "\<lparr>bh_offset = of_nat (length (content (tb_file r))), bh_size = of_nat (length contents)\<rparr> :: BlockHandle"
  from write_raw [OF assms] obtain r' where r': "WriteRawBlock wops contents t r = (?h, r')"
    "wrote (contents @ block_trailer contents t) r r'" by blast
  let ?r = "r'\<lparr>tb_compressed_output := []\<rparr>"
  show thesis
  proof (rule that [of ?h ?r "contents @ block_trailer contents t"])
    show "WriteBlock wops snappy b r = (?h, BlockBuilder_Reset (snd (BlockBuilder_Finish b)), ?r)"
      using assms r'(1) by (simp add: WriteBlock_def b ct sound_def)
    show "wrote (contents @ block_trailer contents t) r ?r" using r'(2) by (simp add: wrote_def sound_def)
    have "content (tb_file ?r) = content (tb_file r) @ contents @ block_trailer contents t @ []"
      using r'(2) by (simp add: wrote_def)
    then show "holds snappy (content (tb_file ?r)) ?h (fst (BlockBuilder_Finish b))"
      unfolding holds_def b fst_conv using ct by blast
    show "length (contents @ block_trailer contents t) \<le> length (fst (BlockBuilder_Finish b)) + 5"
      using length_compress_block [OF ct] by (simp add: b kBlockTrailerSize_def)
    show "contents @ block_trailer contents t \<noteq> []" by (simp add: block_trailer_def Let_def)
  qed simp
qed

section \<open>The state of the builder\<close>

text \<open>The index entries \<open>idx\<close> of the blocks \<open>bs\<close>, with \<open>cur\<close> still to be written.\<close>

definition index_entry :: "entry \<Rightarrow> BlockHandle \<times> entry list \<Rightarrow> entry list \<Rightarrow> bool" where
  "index_entry i b rest \<longleftrightarrow> snd i = BlockHandle_EncodeTo (fst b) [] \<and> valid (fst i)
     \<and> length (fst i) \<le> length (fst (last (snd b)))
     \<and> (\<forall>e \<in> set (snd b). Compare c (fst e) (fst i) \<le> 0) \<and> (\<forall>e \<in> set rest. Compare c (fst i) (fst e) < 0)
     \<and> (\<forall>k e. e \<in> set (take 1 rest) \<longrightarrow> valid k \<longrightarrow> sim k (fst e) \<longrightarrow> Compare c (fst (last (snd b))) k < 0
          \<longrightarrow> Compare c k (fst e) \<le> 0 \<longrightarrow> Compare c (fst i) k < 0)"

definition indexed :: "entry list \<Rightarrow> (BlockHandle \<times> entry list) list \<Rightarrow> entry list \<Rightarrow> bool" where
  "indexed idx bs cur \<longleftrightarrow> length idx \<le> length bs
     \<and> (\<forall>j < length idx. index_entry (idx ! j) (bs ! j) (concat (map snd (drop (Suc j) bs)) @ cur))"

definition filtered :: "(BlockHandle \<times> entry list) list \<Rightarrow> entry list \<Rightarrow> 'f TableBuilder \<Rightarrow> bool" where
  "filtered bs cur r \<longleftrightarrow>
     (case opt_filter_policy opt of
        None \<Rightarrow> tb_filter_block r = None
      | Some p \<Rightarrow> tb_filter_block r \<noteq> None \<and>
          filter_build p (map (\<lambda>(h, kvs). (bh_offset h, map fst kvs)) bs @ [(tb_offset r, map fst cur)]) = tb_filter_block r)"

definition blocks_in :: "byte list \<Rightarrow> (BlockHandle \<times> entry list) list \<Rightarrow> bool" where
  "blocks_in bytes bs \<longleftrightarrow>
     (\<forall>(h, kvs) \<in> set bs. kvs \<noteq> [] \<and> holds snappy bytes h (fst (BlockBuilder_Finish (build K kvs))))
     \<and> (\<exists>os. map (bh_offset \<circ> fst) bs = map of_nat os \<and> sorted_wrt (<) os \<and> (\<forall>x \<in> set os. x < length bytes))
     \<and> length bytes \<le> (\<Sum>(h, kvs) \<leftarrow> bs. entries_size kvs + 5)"

definition writes :: "entry list \<Rightarrow> (BlockHandle \<times> entry list) list \<Rightarrow> entry list \<Rightarrow> entry list \<Rightarrow> 'f TableBuilder \<Rightarrow> bool" where
  "writes es bs idx cur r \<longleftrightarrow>
     es = concat (map snd bs) @ cur \<and> increasing (map fst es) \<and> sound r \<and> blocks_in (content (tb_file r)) bs
     \<and> tb_data_block r = build K cur \<and> tb_index_block r = build 1 idx \<and> indexed idx bs cur \<and> filtered bs cur r
     \<and> (if tb_pending_index_entry r
        then cur = [] \<and> length bs = Suc (length idx) \<and> tb_pending_handle r = fst (last bs)
        else length bs = length idx \<and> (bs \<noteq> [] \<longrightarrow> cur \<noteq> []))
     \<and> (es \<noteq> [] \<longrightarrow> tb_last_key r = fst (last es))"

lemma writesD:
  assumes "writes es bs idx cur r"
  shows "es = concat (map snd bs) @ cur" "increasing (map fst es)" "sound r" "blocks_in (content (tb_file r)) bs"
    "tb_data_block r = build K cur" "tb_index_block r = build 1 idx" "indexed idx bs cur" "filtered bs cur r"
    "tb_pending_index_entry r \<Longrightarrow> cur = [] \<and> length bs = Suc (length idx) \<and> tb_pending_handle r = fst (last bs)"
    "\<not> tb_pending_index_entry r \<Longrightarrow> length bs = length idx \<and> (bs \<noteq> [] \<longrightarrow> cur \<noteq> [])"
    "es \<noteq> [] \<Longrightarrow> tb_last_key r = fst (last es)"
  using assms unfolding writes_def if_bool_eq_conj by blast+

lemma writesI:
  assumes "es = concat (map snd bs) @ cur" "increasing (map fst es)" "sound r" "blocks_in (content (tb_file r)) bs"
    "tb_data_block r = build K cur" "tb_index_block r = build 1 idx" "indexed idx bs cur" "filtered bs cur r"
    "tb_pending_index_entry r \<Longrightarrow> cur = [] \<and> length bs = Suc (length idx) \<and> tb_pending_handle r = fst (last bs)"
    "\<not> tb_pending_index_entry r \<Longrightarrow> length bs = length idx \<and> (bs \<noteq> [] \<longrightarrow> cur \<noteq> [])"
    "es \<noteq> [] \<Longrightarrow> tb_last_key r = fst (last es)"
  shows "writes es bs idx cur r"
  using assms unfolding writes_def if_bool_eq_conj by blast

lemma blocks_total:
  assumes "\<forall>(h, kvs) \<in> set bs. kvs \<noteq> []"
  shows "(\<Sum>(h, kvs) \<leftarrow> bs. entries_size kvs + 5) \<le> total_size (concat (map snd bs))"
  using assms
proof (induction bs)
  case (Cons b bs)
  obtain h kvs where b: "b = (h, kvs)" by (cases b)
  have "(\<Sum>(h, kvs) \<leftarrow> bs. entries_size kvs + 5) \<le> total_size (concat (map snd bs))" using Cons by simp
  moreover have "entries_size kvs + 5 \<le> total_size kvs" using Cons.prems entries_size_total by (simp add: b)
  ultimately show ?case by (simp add: b)
qed simp

section \<open>The filter never fails\<close>

abbreviation filter_blocks :: "(BlockHandle \<times> entry list) list \<Rightarrow> (uint64 \<times> slice list) list" where
  "filter_blocks bs \<equiv> map (\<lambda>(h, kvs). (bh_offset h, map fst kvs)) bs"

lemma filter_build_snoc:
  "filter_build p (blocks @ [(off, keys)]) = Option.bind (filter_build p blocks) (\<lambda>b. map_option (fold AddKey keys) (StartBlock off b))"
  by (simp add: filter_build_def)

lemma filter_build_key:
  "filter_build p (blocks @ [(off, keys @ [key])]) = map_option (AddKey key) (filter_build p (blocks @ [(off, keys)]))"
  by (cases "filter_build p blocks") (simp_all add: filter_build_snoc option.map_comp comp_def)

lemma filter_offsets_sorted:
  assumes "blocks_in bytes bs" and "length bytes < 2 ^ 64"
  shows "sorted (map fst (filter_blocks bs @ [(of_nat (length bytes), ks)]))"
proof -
  from assms(1) obtain os where os: "map (bh_offset \<circ> fst) bs = map of_nat os" "sorted os" "\<forall>x \<in> set os. x \<le> length bytes"
    unfolding blocks_in_def by (metis less_imp_le strict_sorted_imp_sorted)
  have "map fst (filter_blocks bs) = map (bh_offset \<circ> fst) bs" by (simp add: case_prod_beta)
  then have m: "map fst (filter_blocks bs @ [(of_nat (length bytes), ks)]) = map of_nat (os @ [length bytes])"
    unfolding os(1) by simp
  have le: "(of_nat x :: uint64) \<le> of_nat y" if "x \<le> y" "y \<le> length bytes" for x y
    using that assms(2) by (simp add: word_le_nat_alt unat_of_nat)
  have "sorted (os @ [length bytes])" using os(2,3) by (simp add: sorted_append)
  then have "sorted_wrt (\<lambda>x y. (of_nat x :: uint64) \<le> of_nat y) (os @ [length bytes])"
    by (rule sorted_wrt_mono_rel [rotated]) (use le os(3) in auto)
  then show ?thesis unfolding m by (simp only: sorted_map)
qed

lemma filter_total:
  assumes "blocks_in bytes bs" and "length bytes < 2 ^ 64" and "filter_policy p"
    and "length (concat (map snd bs)) + length keys < 2 ^ 31"
  shows "filter_build p (filter_blocks bs @ [(of_nat (length bytes), keys)]) \<noteq> None"
proof -
  have "length (concat (map snd (filter_blocks bs))) = length (concat (map snd bs))"
    by (induction bs) auto
  then have "length (concat (map snd (filter_blocks bs @ [(of_nat (length bytes), keys)]))) < 2 ^ 31" using assms(4) by simp
  from filter_policy.filter_build_rep [OF assms(3) filter_offsets_sorted [OF assms(1,2)] this] show ?thesis by auto
qed

section \<open>Steps of the builder\<close>

lemma writes_small:
  assumes "writes es bs idx cur r" and "total_size es < 2 ^ 30"
  shows "length (content (tb_file r)) < 2 ^ 30" "length es < 2 ^ 30" "length (concat (map snd bs)) + length cur = length es"
proof -
  have es: "es = concat (map snd bs) @ cur" and b: "blocks_in (content (tb_file r)) bs" using assms(1) by (simp_all add: writes_def)
  have ne: "\<forall>(h, kvs) \<in> set bs. kvs \<noteq> []" and le: "length (content (tb_file r)) \<le> (\<Sum>(h, kvs) \<leftarrow> bs. entries_size kvs + 5)"
    using b by (auto simp: blocks_in_def)
  show "length (content (tb_file r)) < 2 ^ 30" using le blocks_total [OF ne] assms(2) by (simp add: es)
  show "length es < 2 ^ 30" using length_total [of es] assms(2) by simp
  show "length (concat (map snd bs)) + length cur = length es" by (simp add: es)
qed

lemma blocks_in_write:
  assumes "blocks_in bytes bs" and "kvs \<noteq> []" and "holds snappy (bytes @ bytes2) h (fst (BlockBuilder_Finish (build K kvs)))"
    and "bh_offset h = of_nat (length bytes)" and "length bytes2 \<le> length (fst (BlockBuilder_Finish (build K kvs))) + 5"
    and "bytes2 \<noteq> []"
  shows "blocks_in (bytes @ bytes2) (bs @ [(h, kvs)])"
proof -
  from assms(1) obtain os where os: "map (bh_offset \<circ> fst) bs = map of_nat os" "sorted_wrt (<) os" "\<forall>x \<in> set os. x < length bytes"
    by (auto simp: blocks_in_def)
  have "\<exists>os. map (bh_offset \<circ> fst) (bs @ [(h, kvs)]) = map of_nat os \<and> sorted_wrt (<) os \<and> (\<forall>x \<in> set os. x < length (bytes @ bytes2))"
    using os assms(4,6) by (intro exI [of _ "os @ [length bytes]"]) (auto simp: sorted_wrt_append)
  moreover have "length (bytes @ bytes2) \<le> (\<Sum>(h, kvs) \<leftarrow> bs @ [(h, kvs)]. entries_size kvs + 5)"
    using assms(1,5) built_size [OF interval_pos, of kvs] by (simp add: blocks_in_def)
  ultimately show ?thesis using assms(1-3) holds_append unfolding blocks_in_def by auto
qed

lemma indexed_flush: "indexed idx bs cur \<Longrightarrow> indexed idx (bs @ [(h, cur)]) []"
  by (simp add: indexed_def nth_append)

lemma flush_writes:
  assumes w: "writes es bs idx cur r" and small: "total_size es < 2 ^ 30" and p: "\<not> tb_pending_index_entry r" and cur: "cur \<noteq> []"
  shows "\<exists>r' h. TableBuilder_Flush wops snappy r = Some r' \<and> writes es (bs @ [(h, cur)]) idx [] r' \<and> tb_pending_index_entry r'"
proof -
  have s: "sound r" and d: "tb_data_block r = build K cur" and b: "blocks_in (content (tb_file r)) bs" using w by (simp_all add: writes_def)
  obtain h r1 bytes2 where r1: "WriteBlock wops snappy (build K cur) r = (h, build K [], r1)" "wrote bytes2 r r1"
    "holds snappy (content (tb_file r1)) h (fst (BlockBuilder_Finish (build K cur)))" "bh_offset h = of_nat (length (content (tb_file r)))"
    "length bytes2 \<le> length (fst (BlockBuilder_Finish (build K cur))) + 5" "bytes2 \<noteq> []"
    by (rule write_block [OF s, of "build K cur", unfolded Reset_Finish])
  have c1: "content (tb_file r1) = content (tb_file r) @ bytes2" using r1(2) by (simp add: wrote_def)
  from flush obtain f where f: "wf_Flush wops (tb_file r1) = (OK, f)" "content f = content (tb_file r1)" by blast
  define r2 where "r2 = r1\<lparr>tb_data_block := build K [], tb_pending_handle := h, tb_pending_index_entry := True, tb_status := OK, tb_file := f\<rparr>"
  have fl: "TableBuilder_Flush wops snappy r = on_filter (StartBlock (tb_offset r2)) r2"
    using s r1(1,2) f(1) d cur build_buffer [OF interval_pos, of cur]
    by (simp add: TableBuilder_Flush_def sound_def wrote_def Let_def r2_def)
  have s2: "sound r2" "content (tb_file r2) = content (tb_file r) @ bytes2" using r1(2) f by (simp_all add: r2_def wrote_def sound_def)
  have b2: "blocks_in (content (tb_file r2)) (bs @ [(h, cur)])"
    using blocks_in_write [OF b cur] r1(3-6) c1 s2(2) by simp
  have w': "writes es (bs @ [(h, cur)]) idx [] r3 \<and> tb_pending_index_entry r3"
    if "r3 = r2\<lparr>tb_filter_block := x\<rparr>" "filtered (bs @ [(h, cur)]) [] r3" for r3 x
  proof -
    have r3: "tb_last_key r3 = tb_last_key r" "tb_index_block r3 = tb_index_block r" "tb_data_block r3 = build K []"
      "tb_pending_index_entry r3" "tb_pending_handle r3 = h" "sound r3" "tb_file r3 = tb_file r2"
      using r1(2) that(1) s2(1) by (simp_all add: r2_def wrote_def sound_def)
    have "writes es (bs @ [(h, cur)]) idx [] r3"
    proof (rule writesI)
      show "es = concat (map snd (bs @ [(h, cur)])) @ []" using writesD(1) [OF w] by simp
      show "blocks_in (content (tb_file r3)) (bs @ [(h, cur)])" using b2 r3(7) by simp
      show "[] = [] \<and> length (bs @ [(h, cur)]) = Suc (length idx) \<and> tb_pending_handle r3 = fst (last (bs @ [(h, cur)]))"
        using writesD(10) [OF w p] r3(5) by simp
    qed (use writesD(2,6,11) [OF w] indexed_flush [OF writesD(7) [OF w]] r3 that(2) in simp_all)
    then show ?thesis using r3(4) by simp
  qed
  show ?thesis
  proof (cases "opt_filter_policy opt")
    case None
    then have n: "tb_filter_block r2 = None" using w r1(2) by (simp add: writes_def filtered_def r2_def wrote_def)
    then have "TableBuilder_Flush wops snappy r = Some r2" using fl by (simp add: on_filter_def)
    moreover have "r2\<lparr>tb_filter_block := None\<rparr> = r2" using n by simp
    moreover have "filtered (bs @ [(h, cur)]) [] (r2\<lparr>tb_filter_block := None\<rparr>)" using None by (simp add: filtered_def)
    ultimately show ?thesis using w' [OF refl, of None] by auto
  next
    case (Some p)
    have fb: "filter_build p (filter_blocks bs @ [(tb_offset r, map fst cur)]) = tb_filter_block r" "tb_filter_block r \<noteq> None"
      using w Some by (simp_all add: writes_def filtered_def)
    have len: "length (content (tb_file r2)) < 2 ^ 64"
    proof -
      have "length (content (tb_file r2)) \<le> (\<Sum>(h, kvs) \<leftarrow> bs @ [(h, cur)]. entries_size kvs + 5)" using b2 by (simp add: blocks_in_def)
      also have "\<dots> \<le> total_size (concat (map snd (bs @ [(h, cur)])))" using b2 by (intro blocks_total) (auto simp: blocks_in_def)
      also have "\<dots> = total_size es" using w by (simp add: writes_def)
      finally show ?thesis using small by simp
    qed
    have "filter_build p (filter_blocks (bs @ [(h, cur)]) @ [(tb_offset r2, map fst [])]) \<noteq> None"
      using filter_total [OF b2 len policy_ok [OF Some], of "[]"] writes_small(2,3) [OF w small] s2(1) by (simp add: sound_def)
    moreover have "filter_blocks (bs @ [(h, cur)]) = filter_blocks bs @ [(tb_offset r, map fst cur)]"
      using s r1(4) by (simp add: sound_def)
    moreover have "tb_filter_block r2 = tb_filter_block r" using r1(2) by (simp add: r2_def wrote_def)
    ultimately obtain b0 b1 where b01: "tb_filter_block r2 = Some b0" "StartBlock (tb_offset r2) b0 = Some b1"
      "filter_build p (filter_blocks (bs @ [(h, cur)]) @ [(tb_offset r2, map fst [])]) = Some b1"
      using fb filter_build_snoc [of p "filter_blocks (bs @ [(h, cur)])" "tb_offset r2" "[]"] by (auto split: bind_splits)
    have "TableBuilder_Flush wops snappy r = Some (r2\<lparr>tb_filter_block := Some b1\<rparr>)" using fl b01 by (simp add: on_filter_def)
    then show ?thesis using w' [of "r2\<lparr>tb_filter_block := Some b1\<rparr>" "Some b1"] Some b01(3) by (auto simp: filtered_def)
  qed
qed

lemma take_1_append: "xs \<noteq> [] \<Longrightarrow> take 1 (xs @ ys) = take 1 xs"
  by (cases xs) simp_all

lemma increasing_snoc:
  "increasing (ks @ [k]) \<longleftrightarrow> increasing ks \<and> valid k \<and> (\<forall>x \<in> set ks. Compare c x k < 0)"
  by (auto simp: increasing_def sorted_wrt_append)

text \<open>Index entries stay below the keys that are added later.\<close>

lemma indexed_add:
  assumes ix: "indexed idx bs cur" and inc: "increasing (map fst (concat (map snd bs) @ cur) @ [key])"
    and later: "\<And>j. j < length idx \<Longrightarrow> concat (map snd (drop (Suc j) bs)) @ cur \<noteq> []"
  shows "indexed idx bs (cur @ [(key, val)])"
proof -
  have "index_entry (idx ! j) (bs ! j) (concat (map snd (drop (Suc j) bs)) @ cur @ [(key, val)])" if j: "j < length idx" for j
  proof -
    have e: "index_entry (idx ! j) (bs ! j) (concat (map snd (drop (Suc j) bs)) @ cur)" using ix j by (simp add: indexed_def)
    obtain x where x: "x \<in> set (concat (map snd (drop (Suc j) bs)) @ cur)" using later [OF j] by (meson list.set_sel(1))
    then have "x \<in> set (concat (map snd bs) @ cur)" using set_drop_subset [of "Suc j" bs] by auto
    then have "Compare c (fst x) key < 0" "valid (fst x)" "valid key" using inc unfolding increasing_snoc by (auto simp: increasing_def)
    moreover have "Compare c (fst (idx ! j)) (fst x) < 0" "valid (fst (idx ! j))" using e x by (simp_all add: index_entry_def)
    ultimately have lt: "Compare c (fst (idx ! j)) key < 0" using cmp_trans by blast
    have "take 1 (concat (map snd (drop (Suc j) bs)) @ cur @ [(key, val)]) = take 1 (concat (map snd (drop (Suc j) bs)) @ cur)"
      using take_1_append [OF later [OF j], of "[(key, val)]"] by (simp only: append_assoc)
    then show ?thesis using e lt unfolding index_entry_def by (auto simp del: take_append)
  qed
  then show ?thesis using ix by (simp add: indexed_def)
qed

lemma writes_later:
  assumes w: "writes es bs idx cur r" and j: "j < length idx"
  shows "concat (map snd (drop (Suc j) bs)) @ cur \<noteq> []"
proof (cases "tb_pending_index_entry r")
  case True
  then have "Suc j < length bs" using w j by (simp add: writes_def)
  then have "drop (Suc j) bs = bs ! Suc j # drop (Suc (Suc j)) bs" "bs ! Suc j \<in> set bs" by (simp_all add: Cons_nth_drop_Suc)
  moreover have "snd (bs ! Suc j) \<noteq> []" using w calculation(2) by (cases "bs ! Suc j") (auto simp: writes_def blocks_in_def)
  ultimately show ?thesis by simp
next
  case False
  then show ?thesis using w j by (auto simp: writes_def)
qed

text \<open>The new index entry.\<close>

lemma indexed_new:
  assumes w: "writes es bs idx cur r" and p: "tb_pending_index_entry r" and k: "valid k" "Compare c (tb_last_key r) k \<le> 0"
      "length k \<le> length (tb_last_key r)" and ix: "indexed idx bs rest" and rest: "\<forall>e \<in> set rest. Compare c k (fst e) < 0"
    and near: "\<And>x e. e \<in> set (take 1 rest) \<Longrightarrow> valid x \<Longrightarrow> sim x (fst e) \<Longrightarrow> Compare c (tb_last_key r) x < 0
        \<Longrightarrow> Compare c x (fst e) \<le> 0 \<Longrightarrow> Compare c k x < 0"
  shows "indexed (idx @ [(k, BlockHandle_EncodeTo (tb_pending_handle r) [])]) bs rest"
proof -
  have bs: "length bs = Suc (length idx)" "tb_pending_handle r = fst (last bs)" "cur = []" using w p by (simp_all add: writes_def)
  then obtain bs' b where b: "bs = bs' @ [b]" by (cases bs rule: rev_cases) auto
  have ne: "snd b \<noteq> []" using w by (cases b) (auto simp: b writes_def blocks_in_def)
  have es: "es = concat (map snd bs') @ snd b" "increasing (map fst es)" using writesD(1,2) [OF w] bs(3) by (simp_all add: b)
  have lk: "tb_last_key r = fst (last (snd b))" using writesD(11) [OF w] ne by (simp add: es(1))
  have "Compare c (fst e) k \<le> 0" if e: "e \<in> set (snd b)" for e
  proof -
    obtain ks x where x: "snd b = ks @ [x]" using ne by (cases "snd b" rule: rev_cases) auto
    have "increasing (map fst (concat (map snd bs') @ ks) @ [fst x])" using es by (simp add: x)
    then have "e = x \<or> Compare c (fst e) (fst x) < 0" "valid (fst e)" "valid (fst x)"
      using e unfolding increasing_snoc by (auto simp: x increasing_def)
    then show ?thesis using k(1,2) lk x cmp_less_le_trans [of "fst e" "fst x" k] by force
  qed
  then have "index_entry (k, BlockHandle_EncodeTo (tb_pending_handle r) []) b rest"
    using k rest bs(2) lk near by (auto simp: index_entry_def b)
  then show ?thesis using ix bs(1) by (auto simp: indexed_def b nth_append less_Suc_eq)
qed

lemma add_writes:
  assumes w: "writes es bs idx cur r" and inc: "increasing (map fst es @ [key])" and small: "total_size (es @ [(key, val)]) < 2 ^ 30"
  shows "\<exists>r' bs' idx' cur'. TableBuilder_Add wops snappy key val r = Some r' \<and> writes (es @ [(key, val)]) bs' idx' cur' r'"
proof -
  have s: "sound r" and es: "es = concat (map snd bs) @ cur" using w by (simp_all add: writes_def)
  have vk: "valid key" using inc by (simp add: increasing_snoc)
  define k where "k = FindShortestSeparator c (tb_last_key r) key"
  define r1 where "r1 = (if tb_pending_index_entry r then add_index_entry k r else r)"
  define idx1 where "idx1 = (if tb_pending_index_entry r then idx @ [(k, BlockHandle_EncodeTo (tb_pending_handle r) [])] else idx)"
  have ix: "indexed idx bs (cur @ [(key, val)])"
    by (rule indexed_add) (use w inc writes_later [OF w] in \<open>auto simp: writes_def es\<close>)
  have ix1: "indexed idx1 bs (cur @ [(key, val)])"
  proof (cases "tb_pending_index_entry r")
    case True
    have "es \<noteq> []" using w True by (cases bs rule: rev_cases) (auto simp: writes_def blocks_in_def)
    then have "tb_last_key r \<in> set (map fst es)" using writesD(11) [OF w] by simp
    then have lt: "Compare c (tb_last_key r) key < 0" "valid (tb_last_key r)"
      using inc unfolding increasing_snoc by (auto simp: increasing_def)
    note sep = separator [OF lt(2) vk lt(1), folded k_def]
    have "indexed (idx @ [(k, BlockHandle_EncodeTo (tb_pending_handle r) [])]) bs (cur @ [(key, val)])"
    proof (rule indexed_new [OF w True _ _ _ ix])
      show "\<forall>e \<in> set (cur @ [(key, val)]). Compare c k (fst e) < 0" using sep writesD(9) [OF w True] by simp
      show "Compare c k x < 0" if "e \<in> set (take 1 (cur @ [(key, val)]))" "valid x" "sim x (fst e)" "Compare c (tb_last_key r) x < 0"
          "Compare c x (fst e) \<le> 0" for x e
        using sim_separator [OF lt(2) vk that(2) lt(1)] that writesD(9) [OF w True] by (simp add: k_def)
    qed (use sep short_separator [OF lt(2) vk] in \<open>auto simp: k_def\<close>)
    then show ?thesis using True by (simp add: idx1_def)
  qed (simp add: idx1_def ix)
  have r1: "sound r1" "content (tb_file r1) = content (tb_file r)" "tb_offset r1 = tb_offset r" "tb_data_block r1 = build K cur" "tb_index_block r1 = build 1 idx1"
    "\<not> tb_pending_index_entry r1" "tb_filter_block r1 = tb_filter_block r" "length bs = length idx1"
    using w by (auto simp: r1_def idx1_def add_index_entry_def writes_def sound_def build_snoc)
  define r3 where "r3 fb = r1\<lparr>tb_filter_block := fb, tb_last_key := key, tb_num_entries := tb_num_entries r1 + 1,
    tb_data_block := BlockBuilder_Add key val (tb_data_block r1)\<rparr>" for fb
  obtain fb where fb: "on_filter (\<lambda>b. Some (AddKey key b)) r1 = Some (r1\<lparr>tb_filter_block := fb\<rparr>)" "filtered bs (cur @ [(key, val)]) (r3 fb)"
  proof (cases "opt_filter_policy opt")
    case None
    then have "tb_filter_block r1 = None" using w r1(7) by (simp add: writes_def filtered_def)
    then show thesis using that [of None] None by (simp add: on_filter_def filtered_def r3_def)
  next
    case (Some p)
    then obtain b where b: "tb_filter_block r1 = Some b" "filter_build p (filter_blocks bs @ [(tb_offset r, map fst cur)]) = Some b"
      using w r1(7) by (auto simp: writes_def filtered_def)
    then show thesis using that [of "Some (AddKey key b)"] Some r1(3) filter_build_key [of p "filter_blocks bs" "tb_offset r" "map fst cur" key]
      by (simp add: on_filter_def filtered_def r3_def)
  qed
  have w3: "writes (es @ [(key, val)]) bs idx1 (cur @ [(key, val)]) (r3 fb)" "\<not> tb_pending_index_entry (r3 fb)"
  proof -
    have "blocks_in (content (tb_file (r3 fb))) bs" "sound (r3 fb)" using w r1(1,2) by (simp_all add: writes_def r3_def sound_def)
    moreover have "tb_data_block (r3 fb) = build K (cur @ [(key, val)])" "tb_index_block (r3 fb) = build 1 idx1"
      "tb_last_key (r3 fb) = key" using r1(4,5) by (simp_all add: r3_def build_snoc)
    moreover show "\<not> tb_pending_index_entry (r3 fb)" using r1(6) by (simp add: r3_def)
    ultimately show "writes (es @ [(key, val)]) bs idx1 (cur @ [(key, val)]) (r3 fb)"
      using fb(2) ix1 inc r1(8) by (simp add: writes_def es)
  qed
  have step: "TableBuilder_Add wops snappy key val r =
      (if opt_block_size opt \<le> CurrentSizeEstimate (tb_data_block (r3 fb)) then TableBuilder_Flush wops snappy (r3 fb) else Some (r3 fb))"
  proof -
    have "TableBuilder_Add wops snappy key val r =
        (case on_filter (\<lambda>b. Some (AddKey key b)) r1 of
           None \<Rightarrow> None
         | Some r \<Rightarrow>
             (let r = r\<lparr>tb_last_key := key, tb_num_entries := tb_num_entries r + 1, tb_data_block := BlockBuilder_Add key val (tb_data_block r)\<rparr>
              in if opt_block_size (tb_options r) \<le> CurrentSizeEstimate (tb_data_block r) then TableBuilder_Flush wops snappy r else Some r))"
    proof -
      have o: "opt_comparator (tb_options r) = c" "tb_status r = OK" using s by (simp_all add: sound_def opt_cmp)
      show ?thesis unfolding TableBuilder_Add_def r1_def k_def o by (simp add: Let_def split del: if_split)
    qed
    then show ?thesis unfolding fb(1) using r1(1) by (simp add: r3_def sound_def Let_def)
  qed
  show ?thesis
  proof (cases "opt_block_size opt \<le> CurrentSizeEstimate (tb_data_block (r3 fb))")
    case True
    then show ?thesis using step flush_writes [OF w3(1) small w3(2)] by auto
  next
    case False
    then show ?thesis using step w3(1) by auto
  qed
qed

section \<open>A finished table\<close>

definition meta_block :: "BlockHandle \<Rightarrow> entry list" where
  "meta_block fh = (case opt_filter_policy opt of None \<Rightarrow> [] | Some p \<Rightarrow> [(filter_key p, BlockHandle_EncodeTo fh [])])"

text \<open>The filter block: what the policy made of the keys of the blocks.\<close>

definition filter_stored :: "byte list \<Rightarrow> (BlockHandle \<times> entry list) list \<Rightarrow> BlockHandle \<Rightarrow> bool" where
  "filter_stored bytes bs fh \<longleftrightarrow>
     (\<forall>p. opt_filter_policy opt = Some p \<longrightarrow>
        (\<exists>contents. holds snappy bytes fh contents \<and> length contents \<le> length bytes
           \<and> (length contents < 2 ^ 32 \<longrightarrow> (\<forall>(h, kvs) \<in> set bs. \<forall>e \<in> set kvs.
                FilterBlock_KeyMayMatch (bh_offset h) (fst e) (make_FilterBlockReader p contents) = Some True))))"

definition table_in :: "byte list \<Rightarrow> entry list \<Rightarrow> (BlockHandle \<times> entry list) list \<Rightarrow> entry list \<Rightarrow> bool" where
  "table_in bytes es bs idx \<longleftrightarrow>
     es = concat (map snd bs) \<and> increasing (map fst es) \<and> length idx = length bs \<and> indexed idx bs []
     \<and> (\<forall>(h, kvs) \<in> set bs. kvs \<noteq> [] \<and> holds snappy bytes h (fst (BlockBuilder_Finish (build K kvs))))
     \<and> (\<exists>os. map (bh_offset \<circ> fst) bs = map of_nat os \<and> sorted_wrt (<) os \<and> (\<forall>x \<in> set os. x < length bytes))
     \<and> (\<exists>footer rest fh. bytes = rest @ Footer_EncodeTo footer []
          \<and> holds snappy bytes (index_handle footer) (fst (BlockBuilder_Finish (build 1 idx)))
          \<and> holds snappy bytes (metaindex_handle footer) (fst (BlockBuilder_Finish (build K (meta_block fh))))
          \<and> filter_stored bytes bs fh)"

lemma finish_flush:
  assumes w: "writes es bs idx cur r" and small: "total_size es < 2 ^ 30"
  shows "\<exists>r' bs'. TableBuilder_Flush wops snappy r = Some r' \<and> writes es bs' idx [] r'"
proof (cases "cur = []")
  case True
  then have "TableBuilder_Flush wops snappy r = Some r"
    using writesD(5) [OF w] by (simp add: TableBuilder_Flush_def build_def make_BlockBuilder_def)
  then show ?thesis using w True by auto
next
  case False
  then have "\<not> tb_pending_index_entry r" using writesD(9) [OF w] by blast
  with flush_writes [OF w small _ False] show ?thesis by blast
qed

text \<open>Blocks stay where they are.\<close>

lemma filter_stored_append:
  assumes "filter_stored bytes bs fh"
  shows "filter_stored (bytes @ x) bs fh"
  unfolding filter_stored_def
proof (intro allI impI)
  fix p assume "opt_filter_policy opt = Some p"
  then obtain contents where "holds snappy bytes fh contents" "length contents \<le> length bytes"
    and m: "length contents < 2 ^ 32 \<longrightarrow> (\<forall>(h, kvs) \<in> set bs. \<forall>e \<in> set kvs.
      FilterBlock_KeyMayMatch (bh_offset h) (fst e) (make_FilterBlockReader p contents) = Some True)"
    using assms unfolding filter_stored_def by blast
  then have "holds snappy (bytes @ x) fh contents \<and> length contents \<le> length (bytes @ x)" by (simp add: holds_append)
  then show "\<exists>contents. holds snappy (bytes @ x) fh contents \<and> length contents \<le> length (bytes @ x)
      \<and> (length contents < 2 ^ 32 \<longrightarrow> (\<forall>(h, kvs) \<in> set bs. \<forall>e \<in> set kvs.
           FilterBlock_KeyMayMatch (bh_offset h) (fst e) (make_FilterBlockReader p contents) = Some True))"
    using m by blast
qed

lemma wrote_sound: "wrote x r r' \<Longrightarrow> sound r'"
  by (simp add: wrote_def)

lemma finish_filter:
  assumes w: "writes es bs idx [] r" and small: "total_size es < 2 ^ 30"
  shows "\<exists>fh r' x. write_filter_block wops (r\<lparr>tb_closed := True\<rparr>) = Some (fh, r') \<and> filter_stored (content (tb_file r')) bs fh
    \<and> wrote x (r\<lparr>tb_closed := True, tb_filter_block := tb_filter_block r'\<rparr>) r'
    \<and> (tb_filter_block r' = None \<longleftrightarrow> opt_filter_policy opt = None) \<and> (opt_filter_policy opt = None \<longrightarrow> x = [])"
proof (cases "opt_filter_policy opt")
  case None
  then have "tb_filter_block r = None" using writesD(8) [OF w] by (simp add: filtered_def)
  then show ?thesis using None writesD(3) [OF w]
    by (intro exI [of _ make_BlockHandle] exI [of _ "r\<lparr>tb_closed := True\<rparr>"] exI [of _ "[]"])
      (simp add: write_filter_block_def filter_stored_def wrote_def sound_def)
next
  case (Some p)
  have s: "sound r" by (rule writesD(3) [OF w])
  obtain b where b: "tb_filter_block r = Some b" "filter_build p (filter_blocks bs @ [(tb_offset r, map fst [])]) = Some b"
    using writesD(8) [OF w] Some by (auto simp: filtered_def)
  let ?bl = "filter_blocks bs @ [(tb_offset r, [])]"
  have len: "length (content (tb_file r)) < 2 ^ 64" using writes_small(1) [OF w small] by simp
  have sorted: "sorted (map fst ?bl)"
    using filter_offsets_sorted [OF writesD(4) [OF w] len, of "[]"] s by (simp add: sound_def)
  have "length (concat (map snd (filter_blocks bs))) = length (concat (map snd bs))" by (induction bs) auto
  then have n: "length (concat (map snd ?bl)) < 2 ^ 31" using writes_small(2,3) [OF w small] by simp
  from filter_block_covers [OF policy_ok [OF Some] sorted n] obtain contents b' where
    f: "FilterBlock_Finish b = Some (contents, b')"
    "length contents < 2 ^ 32 \<longrightarrow> (\<forall>(off, keys) \<in> set ?bl. \<forall>key \<in> set keys.
       FilterBlock_KeyMayMatch off key (make_FilterBlockReader p contents) = Some True)"
    using b(2) by auto
  let ?r = "r\<lparr>tb_closed := True, tb_filter_block := Some b'\<rparr>"
  have "sound ?r" using s by (simp add: sound_def)
  from write_raw [OF this] obtain r' where r': "WriteRawBlock wops contents kNoCompression ?r
      = (\<lparr>bh_offset = of_nat (length (content (tb_file r))), bh_size = of_nat (length contents)\<rparr>, r')"
    "wrote (contents @ block_trailer contents kNoCompression) ?r r'" by auto
  let ?h = "\<lparr>bh_offset = of_nat (length (content (tb_file r))), bh_size = of_nat (length contents)\<rparr> :: BlockHandle"
  have "content (tb_file r') = content (tb_file r) @ contents @ block_trailer contents kNoCompression @ []"
    using r'(2) by (simp add: wrote_def)
  moreover have "compress_block snappy kNoCompression contents = (contents, kNoCompression)" by (simp add: compress_block_def)
  ultimately have "holds snappy (content (tb_file r')) ?h contents" unfolding holds_def by blast
  moreover have "length contents \<le> length (content (tb_file r'))" using r'(2) by (simp add: wrote_def)
  moreover have "FilterBlock_KeyMayMatch (bh_offset h) (fst e) (make_FilterBlockReader p contents) = Some True"
    if "length contents < 2 ^ 32" "(h, kvs) \<in> set bs" "e \<in> set kvs" for h kvs e
  proof -
    have "(bh_offset h, map fst kvs) \<in> set ?bl" using that(2) by force
    then show ?thesis using f(2) that(1,3) by fastforce
  qed
  ultimately have "filter_stored (content (tb_file r')) bs ?h"
    using Some unfolding filter_stored_def by auto
  moreover have "write_filter_block wops (r\<lparr>tb_closed := True\<rparr>) = Some (?h, r')"
    using b(1) f(1) r'(1) s by (simp add: write_filter_block_def sound_def)
  moreover have "tb_filter_block r' = Some b'" using r'(2) by (simp add: wrote_def)
  ultimately show ?thesis using r'(2) Some by (intro exI [of _ ?h] exI [of _ r']) auto
qed

lemma finish_meta:
  assumes "sound r" and "tb_filter_block r = None \<longleftrightarrow> opt_filter_policy opt = None"
  shows "\<exists>h r' x. write_metaindex_block wops snappy fh r = Some (h, r') \<and> wrote x r r'
    \<and> holds snappy (content (tb_file r')) h (fst (BlockBuilder_Finish (build K (meta_block fh))))
    \<and> length x \<le> entries_size (meta_block fh) + 5"
proof -
  have m: "meta_entries fh r (make_BlockBuilder K) = Some (build K (meta_block fh))"
    using assms by (auto simp: meta_entries_def meta_block_def sound_def build_def split: option.splits)
  obtain h r' x where r': "WriteBlock wops snappy (build K (meta_block fh)) r
      = (h, BlockBuilder_Reset (snd (BlockBuilder_Finish (build K (meta_block fh)))), r')" "wrote x r r'"
    "holds snappy (content (tb_file r')) h (fst (BlockBuilder_Finish (build K (meta_block fh))))"
    "length x \<le> length (fst (BlockBuilder_Finish (build K (meta_block fh)))) + 5"
    by (rule write_block [OF assms(1)])
  moreover have "length x \<le> entries_size (meta_block fh) + 5"
    using built_size [OF interval_pos, of "meta_block fh"] r'(4) by linarith
  ultimately show ?thesis using m assms(1) by (auto simp: write_metaindex_block_def sound_def)
qed

lemma finish_index:
  assumes w: "writes es bs idx [] r0" and s: "sound r" and r: "tb_index_block r = tb_index_block r0"
      "tb_pending_index_entry r = tb_pending_index_entry r0" "tb_pending_handle r = tb_pending_handle r0" "tb_last_key r = tb_last_key r0"
  shows "\<exists>h r' x idx'. write_index_block wops snappy r = (h, r') \<and> sound r' \<and> content (tb_file r') = content (tb_file r) @ x
    \<and> holds snappy (content (tb_file r')) h (fst (BlockBuilder_Finish (build 1 idx'))) \<and> length idx' = length bs \<and> indexed idx' bs []
    \<and> length x \<le> entries_size idx' + 5"
proof -
  define k where "k = FindShortSuccessor c (tb_last_key r0)"
  define idx' where "idx' = (if tb_pending_index_entry r0 then idx @ [(k, BlockHandle_EncodeTo (tb_pending_handle r0) [])] else idx)"
  define r1 where "r1 = (if tb_pending_index_entry r then add_index_entry k r else r)"
  have ix: "indexed idx' bs []" "length idx' = length bs"
  proof -
    have "indexed idx' bs [] \<and> length idx' = length bs"
    proof (cases "tb_pending_index_entry r0")
      case True
      have "es \<noteq> []" using w True by (cases bs rule: rev_cases) (auto simp: writes_def blocks_in_def)
      then have v: "valid (tb_last_key r0)" using writesD(2,11) [OF w] by (auto simp: increasing_def)
      have "indexed (idx @ [(k, BlockHandle_EncodeTo (tb_pending_handle r0) [])]) bs []"
        by (rule indexed_new [OF w True]) (use successor [OF v] short_successor [OF v] writesD(7) [OF w] in \<open>simp_all add: k_def\<close>)
      then show ?thesis using True writesD(9) [OF w True] by (simp add: idx'_def)
    next
      case False
      then show ?thesis using writesD(7) [OF w] writesD(10) [OF w False] by (auto simp: idx'_def)
    qed
    then show "indexed idx' bs []" "length idx' = length bs" by simp_all
  qed
  have r1: "sound r1" "tb_index_block r1 = build 1 idx'" "tb_file r1 = tb_file r"
    using s r writesD(6) [OF w] by (auto simp: r1_def idx'_def add_index_entry_def sound_def build_snoc)
  obtain h r2 x where r2: "WriteBlock wops snappy (build 1 idx') r1 = (h, BlockBuilder_Reset (snd (BlockBuilder_Finish (build 1 idx'))), r2)"
    "wrote x r1 r2" "holds snappy (content (tb_file r2)) h (fst (BlockBuilder_Finish (build 1 idx')))"
    "length x \<le> length (fst (BlockBuilder_Finish (build 1 idx'))) + 5"
    by (rule write_block [OF r1(1)])
  have o: "opt_comparator (tb_options r) = c" "tb_status r = OK" using s by (simp_all add: sound_def opt_cmp)
  have wi: "write_index_block wops snappy r = (h, r2\<lparr>tb_index_block := BlockBuilder_Reset (snd (BlockBuilder_Finish (build 1 idx')))\<rparr>)"
  proof -
    have "write_index_block wops snappy r =
        (let (handle, block, r) = WriteBlock wops snappy (tb_index_block r1) r1 in (handle, r\<lparr>tb_index_block := block\<rparr>))"
      unfolding write_index_block_def o r(4) k_def [symmetric] by (simp add: r1_def Let_def)
    then show ?thesis unfolding r1(2) r2(1) by simp
  qed
  let ?r = "r2\<lparr>tb_index_block := BlockBuilder_Reset (snd (BlockBuilder_Finish (build 1 idx')))\<rparr>"
  have "sound ?r" "content (tb_file ?r) = content (tb_file r) @ x" using r2(2) r1(3) by (simp_all add: wrote_def sound_def)
  moreover have "length x \<le> entries_size idx' + 5" using built_size [of 1 idx'] r2(4) by linarith
  ultimately show ?thesis using wi r2(3) ix by (intro exI [of _ h] exI [of _ ?r] exI [of _ x] exI [of _ idx']) simp
qed

text \<open>The size of the index.\<close>

lemma index_small:
  assumes "table_in bytes es bs idx"
  shows "entries_size idx \<le> 8 + 2 * total_size es"
proof -
  have one: "length (fst i) + length (snd i) + 19 \<le> 2 * total_size (snd b)"
    if e: "index_entry i b rest" "snd b \<noteq> []" for i b rest
  proof -
    obtain xs x where x: "snd b = xs @ [x]" using e(2) by (cases "snd b" rule: rev_cases) auto
    have "length (fst i) \<le> length (fst x)" "length (snd i) \<le> 20"
      using e(1) length_BlockHandle [of "fst b"] by (simp_all add: index_entry_def x kMaxEncodedLength_def)
    moreover have "length (fst x) + 32 \<le> total_size (snd b)" by (cases x) (simp add: x)
    ultimately show ?thesis by linarith
  qed
  have "entries_size idx \<le> 8 + 2 * total_size (concat (map snd bs))"
    if "length idx = length bs" "\<forall>j < length idx. \<exists>rest. index_entry (idx ! j) (bs ! j) rest" "\<forall>b \<in> set bs. snd b \<noteq> []"
    for idx bs
    using that
  proof (induction idx bs rule: list_induct2)
    case (Cons i idx b bs)
    have "\<forall>j < length idx. \<exists>rest. index_entry (idx ! j) (bs ! j) rest" using Cons.prems(1) by fastforce
    then have IH: "entries_size idx \<le> 8 + 2 * total_size (concat (map snd bs))" using Cons by simp
    from Cons.prems(1) [rule_format, of 0] obtain rest where "index_entry i b rest" by auto
    then have "length (fst i) + length (snd i) + 19 \<le> 2 * total_size (snd b)" by (rule one) (use Cons.prems(2) in simp)
    then show ?case using IH by (cases i) simp
  qed simp
  note sum = this
  have t: "es = concat (map snd bs)" "length idx = length bs" "indexed idx bs []" "\<forall>b \<in> set bs. snd b \<noteq> []"
    using assms by (auto simp: table_in_def)
  have "\<forall>j < length idx. \<exists>rest. index_entry (idx ! j) (bs ! j) rest" using t(3) by (auto simp: indexed_def)
  from sum [OF t(2) this t(4)] show ?thesis by (simp add: t(1))
qed

theorem finish_table:
  assumes w: "writes es bs idx cur r" and small: "total_size es < 2 ^ 30"
  shows "\<exists>r' bs' idx'. TableBuilder_Finish wops snappy r = Some (OK, r') \<and> sound r' \<and> table_in (content (tb_file r')) es bs' idx'
    \<and> (opt_filter_policy opt = None \<longrightarrow> length (content (tb_file r')) < 2 ^ 32)"
proof -
  from finish_flush [OF assms] obtain r1 bs1 where r1: "TableBuilder_Flush wops snappy r = Some r1" "writes es bs1 idx [] r1" by blast
  from finish_filter [OF r1(2) small] obtain fh r2 x2 where
    r2: "write_filter_block wops (r1\<lparr>tb_closed := True\<rparr>) = Some (fh, r2)" "filter_stored (content (tb_file r2)) bs1 fh"
    "wrote x2 (r1\<lparr>tb_closed := True, tb_filter_block := tb_filter_block r2\<rparr>) r2" "tb_filter_block r2 = None \<longleftrightarrow> opt_filter_policy opt = None"
    "opt_filter_policy opt = None \<longrightarrow> x2 = []"
    by (elim exE conjE) (rule that)
  from finish_meta [OF wrote_sound [OF r2(3)] r2(4), of fh] obtain mh r3 x3 where
    r3: "write_metaindex_block wops snappy fh r2 = Some (mh, r3)" "wrote x3 r2 r3"
    "holds snappy (content (tb_file r3)) mh (fst (BlockBuilder_Finish (build K (meta_block fh))))"
    "length x3 \<le> entries_size (meta_block fh) + 5" by blast
  have same: "tb_index_block r3 = tb_index_block r1" "tb_pending_index_entry r3 = tb_pending_index_entry r1"
    "tb_pending_handle r3 = tb_pending_handle r1" "tb_last_key r3 = tb_last_key r1"
    using r2(3) r3(2) by (simp_all add: wrote_def)
  from finish_index [OF r1(2) wrote_sound [OF r3(2)] same] obtain ih r4 x4 idx' where
    r4: "write_index_block wops snappy r3 = (ih, r4)" "sound r4" "content (tb_file r4) = content (tb_file r3) @ x4"
    "holds snappy (content (tb_file r4)) ih (fst (BlockBuilder_Finish (build 1 idx')))" "length idx' = length bs1" "indexed idx' bs1 []"
    "length x4 \<le> entries_size idx' + 5" by blast
  let ?footer = "\<lparr>metaindex_handle = mh, index_handle = ih\<rparr>"
  from append obtain f where f: "wf_Append wops (Footer_EncodeTo ?footer []) (tb_file r4) = (OK, f)"
    "content f = content (tb_file r4) @ Footer_EncodeTo ?footer []" by blast
  let ?r = "r4\<lparr>tb_status := OK, tb_file := f, tb_offset := tb_offset r4 + of_nat (length (Footer_EncodeTo ?footer []))\<rparr>"
  have fin: "TableBuilder_Finish wops snappy r = Some (OK, ?r)"
    using r1(1) r2(1) r3(1) r4(1,2) f(1) by (simp add: TableBuilder_Finish_def write_footer_def sound_def Let_def)
  have s: "sound ?r" using r4(2) f(2) by (simp add: sound_def)
  have grow: "content (tb_file r2) = content (tb_file r1) @ x2" "content (tb_file r3) = content (tb_file r2) @ x3"
    using r2(3) r3(2) by (simp_all add: wrote_def)
  have ti: "table_in (content f) es bs1 idx'"
    unfolding table_in_def
  proof (intro conjI)
    show "es = concat (map snd bs1)" "increasing (map fst es)" using writesD(1,2) [OF r1(2)] by simp_all
    show "\<forall>(h, kvs) \<in> set bs1. kvs \<noteq> [] \<and> holds snappy (content f) h (fst (BlockBuilder_Finish (build K kvs)))"
      using writesD(4) [OF r1(2)] holds_append unfolding blocks_in_def f(2) r4(3) grow by fastforce
    from writesD(4) [OF r1(2)] obtain os where os: "map (bh_offset \<circ> fst) bs1 = map of_nat os" "sorted_wrt (<) os"
      "\<forall>x \<in> set os. x < length (content (tb_file r1))" by (auto simp: blocks_in_def)
    moreover have "\<forall>x \<in> set os. x < length (content f)" using os(3) unfolding f(2) r4(3) grow by auto
    ultimately show "\<exists>os. map (bh_offset \<circ> fst) bs1 = map of_nat os \<and> sorted_wrt (<) os \<and> (\<forall>x \<in> set os. x < length (content f))" by blast
    have "holds snappy (content f) (index_handle ?footer) (fst (BlockBuilder_Finish (build 1 idx')))"
      using holds_append [OF r4(4)] by (simp add: f(2))
    moreover have "holds snappy (content f) (metaindex_handle ?footer) (fst (BlockBuilder_Finish (build K (meta_block fh))))"
      using holds_append [OF r3(3)] by (simp add: f(2) r4(3))
    moreover have "filter_stored (content f) bs1 fh"
      using r2(2) unfolding f(2) r4(3) grow(2) by (intro filter_stored_append)
    ultimately show "\<exists>footer rest fh. content f = rest @ Footer_EncodeTo footer []
      \<and> holds snappy (content f) (index_handle footer) (fst (BlockBuilder_Finish (build 1 idx')))
      \<and> holds snappy (content f) (metaindex_handle footer) (fst (BlockBuilder_Finish (build K (meta_block fh))))
      \<and> filter_stored (content f) bs1 fh" using f(2) by blast
  qed (rule r4)+
  have "length (content f) < 2 ^ 32" if "opt_filter_policy opt = None"
  proof -
    have "entries_size (meta_block fh) = 8" using that by (simp add: meta_block_def)
    then show ?thesis
      using writes_small(1) [OF r1(2) small] index_small [OF ti] small r2(5) r3(4) r4(7) that length_Footer [of ?footer]
      by (simp add: f(2) r4(3) grow kEncodedLength_def kMaxEncodedLength_def)
  qed
  then show ?thesis using fin s ti by (intro exI [of _ ?r]) auto
qed

section \<open>Building a table\<close>

lemma make_writes:
  assumes "content f = []"
  shows "\<exists>r. make_TableBuilder opt f = Some r \<and> writes [] [] [] [] r"
proof -
  have start: "StartBlock 0 b = Some b" for b by (simp add: StartBlock_def start_loop.simps)
  define r where "r = make_Rep opt f"
  have "make_TableBuilder opt f = Some r"
    by (cases "opt_filter_policy opt") (simp_all add: make_TableBuilder_def on_filter_def make_Rep_def start r_def)
  moreover have "writes [] [] [] [] r"
  proof (rule writesI)
    show "filtered [] [] r"
      by (simp add: filtered_def r_def make_Rep_def filter_build_def start split: option.split)
    show "sound r" "blocks_in (content (tb_file r)) []"
      using assms by (simp_all add: sound_def r_def make_Rep_def blocks_in_def)
  qed (simp_all add: r_def make_Rep_def build_def increasing_def indexed_def)
  ultimately show ?thesis by blast
qed

end

text \<open>What a client does: \<open>Add\<close> every entry, then \<open>Finish\<close>.\<close>

fun add_all :: "'f WritableFile \<Rightarrow> Snappy \<Rightarrow> entry list \<Rightarrow> 'f TableBuilder \<Rightarrow> 'f TableBuilder option" where
  "add_all ops snappy [] r = Some r"
| "add_all ops snappy ((k, v) # es) r = Option.bind (TableBuilder_Add ops snappy k v r) (add_all ops snappy es)"

definition table_build :: "'f WritableFile \<Rightarrow> Snappy \<Rightarrow> Options \<Rightarrow> entry list \<Rightarrow> 'f \<Rightarrow> (Status \<times> 'f TableBuilder) option" where
  "table_build ops snappy options es f =
     Option.bind (make_TableBuilder options f) (\<lambda>r. Option.bind (add_all ops snappy es r) (TableBuilder_Finish ops snappy))"

context table_writing
begin

lemma add_all_writes:
  assumes "writes es bs idx cur r" and "increasing (map fst (es @ es2))" and "total_size (es @ es2) < 2 ^ 30"
  shows "\<exists>r' bs' idx' cur'. add_all wops snappy es2 r = Some r' \<and> writes (es @ es2) bs' idx' cur' r'"
  using assms
proof (induction es2 arbitrary: es bs idx cur r)
  case (Cons e es2)
  obtain k v where e: "e = (k, v)" by (cases e)
  have "increasing (map fst es @ [k])" using Cons.prems(2) by (auto simp: e increasing_def sorted_wrt_append)
  with add_writes [OF Cons.prems(1), of k v] Cons.prems(3) obtain r' bs' idx' cur' where
    r': "TableBuilder_Add wops snappy k v r = Some r'" "writes (es @ [(k, v)]) bs' idx' cur' r'" by (auto simp: e)
  from Cons.IH [OF r'(2)] Cons.prems(2,3) show ?case by (simp add: e r'(1))
qed auto

theorem table_build_table:
  assumes "content f = []" and "increasing (map fst es)" and "total_size es < 2 ^ 30"
  shows "\<exists>r bs idx. table_build wops snappy opt es f = Some (OK, r) \<and> sound r \<and> table_in (content (tb_file r)) es bs idx
    \<and> (opt_filter_policy opt = None \<longrightarrow> length (content (tb_file r)) < 2 ^ 32)"
proof -
  from make_writes [OF assms(1)] obtain r0 where r0: "make_TableBuilder opt f = Some r0" "writes [] [] [] [] r0" by blast
  from add_all_writes [OF r0(2), of es] assms(2,3) obtain r1 bs1 idx1 cur1 where
    r1: "add_all wops snappy es r0 = Some r1" "writes es bs1 idx1 cur1 r1" by auto
  from finish_table [OF r1(2) assms(3)] show ?thesis by (simp add: table_build_def r0(1) r1(1))
qed

end

end
