(* ===== verification/Ldb_TwoLevel_Correct.thy ===== *)
theory Ldb_TwoLevel_Correct
  imports Ldb_TwoLevel Ldb_Merger_Correct
begin

text \<open>
  The two-level iterator is a cursor on the entries of all blocks, one after the other, when each
  index key separates the keys of its block from those of the next one. Blocks may be empty.
\<close>

lemma slice_compare_0 [simp]: "slice_compare a b = 0 \<longleftrightarrow> a = b"
  using bytewise.cmp_eq [of a b] by (simp add: BytewiseComparator_def)

locale two_level_iterator =
  index: entry_iterator "tl_index env" cmp valid iat + data: entry_iterator "tl_data env" cmp valid dat + key_order cmp valid
  for env :: "('i, 'd) two_level" and cmp :: "slice \<Rightarrow> slice \<Rightarrow> int" and valid :: "slice \<Rightarrow> bool"
    and iat :: "entry list \<Rightarrow> nat option \<Rightarrow> 'i \<Rightarrow> bool" and dat :: "entry list \<Rightarrow> nat option \<Rightarrow> 'd \<Rightarrow> bool" +
  fixes known :: "slice \<Rightarrow> bool" and cont :: "slice \<Rightarrow> entry list"
  assumes opens: "known h \<Longrightarrow> dat (cont h) None (tl_block_function env h)"
begin

abbreviation block :: "entry list \<Rightarrow> nat \<Rightarrow> entry list" where
  "block idx j \<equiv> cont (snd (idx ! j))"

text \<open>All entries, and how many are in the first blocks.\<close>

definition flat :: "entry list \<Rightarrow> entry list" where
  "flat idx = concat (map (\<lambda>e. cont (snd e)) idx)"

definition off :: "entry list \<Rightarrow> nat \<Rightarrow> nat" where
  "off idx j = length (flat (take j idx))"

definition separated :: "entry list \<Rightarrow> bool" where
  "separated idx \<longleftrightarrow>
     (\<forall>j < length idx. known (snd (idx ! j)) \<and> valid (fst (idx ! j))
        \<and> (\<forall>e \<in> set (block idx j). valid (fst e) \<and> cmp (fst e) (fst (idx ! j)) \<le> 0)
        \<and> (\<forall>i < j. \<forall>e \<in> set (block idx j). cmp (fst (idx ! i)) (fst e) < 0))"

lemma off_0 [simp]: "off idx 0 = 0"
  by (simp add: off_def flat_def)

lemma off_Suc: "j < length idx \<Longrightarrow> off idx (Suc j) = off idx j + length (block idx j)"
  by (simp add: off_def flat_def take_Suc_conv_app_nth)

lemma off_length [simp]: "off idx (length idx) = length (flat idx)"
  by (simp add: off_def)

lemma flat_split: "j < length idx \<Longrightarrow> flat idx = flat (take j idx) @ block idx j @ flat (drop (Suc j) idx)"
  unfolding flat_def by (subst id_take_nth_drop [of j idx]) simp_all

lemma flat_nth: "j < length idx \<Longrightarrow> i < length (block idx j) \<Longrightarrow> flat idx ! (off idx j + i) = block idx j ! i \<and> off idx j + i < length (flat idx)"
  by (simp add: flat_split off_def nth_append)

lemma flat_mem:
  assumes "e \<in> set (flat idx)"
  shows "\<exists>i < length idx. e \<in> set (block idx i)"
proof -
  obtain x where "x \<in> set idx" "e \<in> set (cont (snd x))" using assms unfolding flat_def by auto
  then show ?thesis by (metis in_set_conv_nth)
qed

lemma flat_take_mem: "e \<in> set (flat (take j idx)) \<Longrightarrow> \<exists>i < length idx. i < j \<and> e \<in> set (block idx i)"
  using flat_mem [of e "take j idx"] by auto

lemma flat_drop_mem: "e \<in> set (flat (drop j idx)) \<Longrightarrow> \<exists>i < length idx. j \<le> i \<and> e \<in> set (block idx i)"
proof -
  assume "e \<in> set (flat (drop j idx))"
  from flat_mem [OF this] obtain i where "i < length idx - j" "e \<in> set (block idx (j + i))" by auto
  then show ?thesis by (intro exI [of _ "j + i"]) simp
qed

lemma separatedD:
  assumes "separated idx" and "j < length idx"
  shows "known (snd (idx ! j))" "valid (fst (idx ! j))" "e \<in> set (block idx j) \<Longrightarrow> valid (fst e)"
    "e \<in> set (block idx j) \<Longrightarrow> cmp (fst e) (fst (idx ! j)) \<le> 0"
    "i < j \<Longrightarrow> e \<in> set (block idx j) \<Longrightarrow> cmp (fst (idx ! i)) (fst e) < 0"
  using assms by (auto simp: separated_def)

lemma block_below:
  assumes "separated idx" and "i < length idx" and "e \<in> set (block idx i)" and "cmp (fst (idx ! i)) t < 0" and "valid t"
  shows "cmp (fst e) t < 0"
  using cmp_le_less_trans separatedD(2-4) [OF assms(1,2)] assms(3-5) by blast

text \<open>A search for a key.\<close>

lemma flat_seek:
  assumes sep: "separated idx" and t: "valid t" and inc: "first_from cmp idx t = j" "j < length idx"
  shows "first_from cmp (flat idx) t = off idx j + first_from cmp (block idx j) t"
proof -
  let ?P = "\<lambda>e. cmp (fst e) t < 0"
  have "?P e" if "e \<in> set (flat (take j idx))" for e
  proof -
    from flat_take_mem [OF that] obtain i where i: "i < j" "i < length idx" "e \<in> set (block idx i)" by blast
    have "?P (idx ! i)" using i(1) inc(1) set_takeWhileD nth_mem takeWhile_nth unfolding first_from_def by metis
    then show ?thesis by (rule block_below [OF sep i(2,3) _ t])
  qed
  moreover have "takeWhile ?P (flat (drop (Suc j) idx)) = []"
  proof (cases "flat (drop (Suc j) idx)")
    case (Cons e es)
    then have "e \<in> set (flat (drop (Suc j) idx))" by simp
    from flat_drop_mem [OF this] obtain i where i: "j < i" "i < length idx" "e \<in> set (block idx i)"
      by (auto dest: Suc_le_lessD)
    have "\<not> ?P (idx ! j)" using inc nth_length_takeWhile [of ?P idx] unfolding first_from_def by auto
    moreover have "cmp (fst (idx ! j)) (fst e) < 0" "valid (fst e)" "valid (fst (idx ! j))"
      using separatedD(3) [OF sep i(2,3)] separatedD(2) [OF sep inc(2)] separatedD(5) [OF sep i(2,1,3)] by simp_all
    ultimately have "\<not> ?P e" using cmp_trans t by blast
    then show ?thesis using Cons by simp
  qed simp
  ultimately show ?thesis unfolding first_from_def flat_split [OF inc(2)] off_def
    by (subst takeWhile_append2) (auto simp: takeWhile_append takeWhile_eq_all_conv [THEN iffD2])
qed

lemma flat_seek_end:
  assumes sep: "separated idx" and t: "valid t" and inc: "first_from cmp idx t = length idx"
  shows "first_from cmp (flat idx) t = length (flat idx)"
proof -
  let ?P = "\<lambda>e. cmp (fst e) t < 0"
  have "?P e" if "e \<in> set (flat idx)" for e
  proof -
    from flat_mem [OF that] obtain i where i: "i < length idx" "e \<in> set (block idx i)" by blast
    have "?P (idx ! i)" using i(1) inc set_takeWhileD nth_mem takeWhile_nth unfolding first_from_def by metis
    then show ?thesis by (rule block_below [OF sep i _ t])
  qed
  then show ?thesis by (simp add: first_from_def takeWhile_eq_all_conv [THEN iffD2])
qed

section \<open>The state\<close>

definition tidy :: "entry list \<Rightarrow> nat option \<Rightarrow> ('i, 'd) TwoLevelIterator \<Rightarrow> bool" where
  "tidy idx q it \<longleftrightarrow> separated idx \<and> index.wrap_at idx q (tl_index_iter it) \<and> tl_status it = OK
     \<and> (wrap_iter (tl_data_iter it) = None \<and> \<not> wrap_valid (tl_data_iter it)
        \<or> known (tl_data_block_handle it) \<and> (\<exists>p. data.wrap_at (cont (tl_data_block_handle it)) p (tl_data_iter it)))"

text \<open>In block \<open>j\<close>, at position \<open>p\<close>; or past the last, or before the first block.\<close>

definition inside :: "entry list \<Rightarrow> nat \<Rightarrow> nat option \<Rightarrow> ('i, 'd) TwoLevelIterator \<Rightarrow> bool" where
  "inside idx j p it \<longleftrightarrow> tidy idx (Some j) it \<and> tl_data_block_handle it = snd (idx ! j)
     \<and> data.wrap_at (block idx j) p (tl_data_iter it)"

definition outside :: "entry list \<Rightarrow> ('i, 'd) TwoLevelIterator \<Rightarrow> bool" where
  "outside idx it \<longleftrightarrow> tidy idx None it \<and> wrap_iter (tl_data_iter it) = None"

lemma tidy_index: "tidy idx (Some j) it \<Longrightarrow> j < length idx"
  using index.at_bound by (auto simp: tidy_def index.wrap_at_def)

lemma data_status: "tidy idx q it \<Longrightarrow> wrap_iter (tl_data_iter it) \<noteq> None \<Longrightarrow> wrap_status (tl_data env) (tl_data_iter it) = OK"
  using data.wrap_looks(4) by (auto simp: tidy_def)

lemma SetDataIterator_tidy:
  assumes "tidy idx q it"
  shows "SetDataIterator env d (it\<lparr>tl_data_block_handle := h\<rparr>)
    = it\<lparr>tl_data_block_handle := h, tl_data_iter := wrap_Set (tl_data env) d (tl_data_iter it)\<rparr>"
  using data_status [OF assms] by (auto simp: SetDataIterator_def SaveError_def Let_def)

lemma SetDataIterator_none:
  assumes "tidy idx q it"
  shows "tidy idx q (SetDataIterator env None it)" "wrap_iter (tl_data_iter (SetDataIterator env None it)) = None"
    "\<not> wrap_valid (tl_data_iter (SetDataIterator env None it))"
  using SetDataIterator_tidy [OF assms, of None "tl_data_block_handle it"] assms by (simp_all add: tidy_def wrap_Set_def)

lemma InitDataBlock_inside:
  assumes "tidy idx (Some j) it"
  shows "\<exists>p. inside idx j p (InitDataBlock env it)"
proof -
  have j: "j < length idx" by (rule tidy_index [OF assms])
  have ix: "index.wrap_at idx (Some j) (tl_index_iter it)" and known: "known (snd (idx ! j))"
    using assms j by (simp_all add: tidy_def separated_def)
  note l = index.wrap_looks(2) [OF ix] index.wrap_looks(3) [OF ix]
  show ?thesis
  proof (cases "wrap_iter (tl_data_iter it) \<noteq> None \<and> snd (idx ! j) = tl_data_block_handle it")
    case True
    then have "\<exists>p. data.wrap_at (block idx j) p (tl_data_iter it)" using assms by (auto simp: tidy_def)
    then show ?thesis using True assms l by (auto simp: inside_def InitDataBlock_def)
  next
    case False
    let ?it = "it\<lparr>tl_data_block_handle := snd (idx ! j),
      tl_data_iter := wrap_Set (tl_data env) (Some (tl_block_function env (snd (idx ! j)))) (tl_data_iter it)\<rparr>"
    have at: "data.wrap_at (block idx j) None (tl_data_iter ?it)" using data.wrap_Set_at [OF opens [OF known]] by simp
    have "InitDataBlock env it = ?it"
      using False l SetDataIterator_tidy [OF assms] by (auto simp: InitDataBlock_def Let_def)
    moreover have "inside idx j None ?it" using assms at known by (auto simp: inside_def tidy_def)
    ultimately show ?thesis by auto
  qed
qed

lemma InitDataBlock_outside:
  assumes "tidy idx None it"
  shows "outside idx (InitDataBlock env it)"
proof -
  have "\<not> wrap_valid (tl_index_iter it)" using index.wrap_looks(3) assms by (auto simp: tidy_def)
  then show ?thesis using SetDataIterator_none [OF assms] by (simp add: InitDataBlock_def outside_def)
qed

section \<open>Skipping empty blocks\<close>

definition two_cursor :: "entry list \<Rightarrow> nat option \<Rightarrow> ('i, 'd) TwoLevelIterator \<Rightarrow> bool" where
  "two_cursor idx p it \<longleftrightarrow>
     (case p of
        None \<Rightarrow> (\<exists>q. tidy idx q it) \<and> \<not> wrap_valid (tl_data_iter it)
      | Some n \<Rightarrow> \<exists>j i. inside idx j (Some i) it \<and> n = off idx j + i)"

lemma inside_look:
  assumes "inside idx j p it"
  shows "wrap_iter (tl_data_iter it) \<noteq> None" "wrap_valid (tl_data_iter it) \<longleftrightarrow> p \<noteq> None" "wrap_valid (tl_index_iter it)"
    "j < length idx"
proof -
  have d: "data.wrap_at (block idx j) p (tl_data_iter it)" and t: "tidy idx (Some j) it" using assms by (simp_all add: inside_def)
  show "wrap_iter (tl_data_iter it) \<noteq> None" using d by (auto simp: data.wrap_at_def)
  show "wrap_valid (tl_data_iter it) \<longleftrightarrow> p \<noteq> None" by (rule data.wrap_looks(3) [OF d])
  show "wrap_valid (tl_index_iter it)" using t index.wrap_looks(3) by (auto simp: tidy_def)
  show "j < length idx" by (rule tidy_index [OF t])
qed

lemma inside_bound: "inside idx j (Some i) it \<Longrightarrow> i < length (block idx j)"
  using data.at_bound by (auto simp: inside_def data.wrap_at_def)

lemma outside_look:
  assumes "outside idx it"
  shows "wrap_iter (tl_data_iter it) = None" "\<not> wrap_valid (tl_data_iter it)" "\<not> wrap_valid (tl_index_iter it)"
  using assms index.wrap_looks(3) [of idx None] by (auto simp: outside_def tidy_def data.wrap_at_def)

text \<open>Moving the data iterator, or the index.\<close>

lemma inside_move:
  assumes "inside idx j p it" and "\<And>w. data.wrap_at (block idx j) p w \<Longrightarrow> data.wrap_at (block idx j) p' (f w)"
  shows "inside idx j p' (on_data f it)" "inside idx j p' (it\<lparr>tl_data_iter := f (tl_data_iter it)\<rparr>)"
proof -
  show "inside idx j p' (it\<lparr>tl_data_iter := f (tl_data_iter it)\<rparr>)"
    using assms separatedD(1) [of idx j] inside_look(4) [OF assms(1)] by (auto simp: inside_def tidy_def)
  then show "inside idx j p' (on_data f it)" using inside_look(1) [OF assms(1)] by (simp add: on_data_def)
qed

lemma tidy_index_move:
  assumes "tidy idx q it" and "\<And>w. index.wrap_at idx q w \<Longrightarrow> index.wrap_at idx q' (f w)"
  shows "tidy idx q' (it\<lparr>tl_index_iter := f (tl_index_iter it)\<rparr>)"
  using assms by (auto simp: tidy_def)

text \<open>Entering a block, or leaving the last one.\<close>

lemma enter:
  assumes "tidy idx q it" and move: "\<And>es p w. data.wrap_at es p w \<Longrightarrow> data.wrap_at es (pos es) (f w)"
  shows "case q of None \<Rightarrow> outside idx (on_data f (InitDataBlock env it))
    | Some j \<Rightarrow> inside idx j (pos (block idx j)) (on_data f (InitDataBlock env it))"
proof (cases q)
  case None
  then have "outside idx (InitDataBlock env it)" using InitDataBlock_outside assms(1) by simp
  then show ?thesis using None by (simp add: on_data_def outside_look(1))
next
  case (Some j)
  then obtain p where p: "inside idx j p (InitDataBlock env it)" using InitDataBlock_inside assms(1) by blast
  show ?thesis using inside_move(1) [OF p move] Some by simp
qed

text \<open>From position \<open>i\<close> of block \<open>j\<close> on.\<close>

definition ahead_of :: "entry list \<Rightarrow> nat \<Rightarrow> nat \<Rightarrow> ('i, 'd) TwoLevelIterator \<Rightarrow> bool" where
  "ahead_of idx j i it \<longleftrightarrow>
     (if j < length idx then i \<le> length (block idx j) \<and> inside idx j (pos_from i (block idx j)) it
      else j = length idx \<and> i = 0 \<and> outside idx it)"

lemma skip_done: "outside idx it \<Longrightarrow> two_cursor idx None (SetDataIterator env None it)"
  using SetDataIterator_none [of idx None it] by (auto simp: two_cursor_def outside_def)

lemma skip_forward:
  assumes "ahead_of idx j i it"
  shows "\<exists>it'. SkipEmptyDataBlocksForward env it = Some it' \<and> two_cursor idx (pos_from (off idx j + i) (flat idx)) it'"
  using assms
proof (induction "length idx - j" arbitrary: j i it)
  case 0
  then have o: "outside idx it" "j = length idx" "i = 0" by (auto simp: ahead_of_def split: if_splits)
  then have "SkipEmptyDataBlocksForward env it = Some (SetDataIterator env None it)"
    by (subst SkipEmptyDataBlocksForward.simps) (simp add: outside_look)
  then show ?case using skip_done [OF o(1)] o by (simp add: pos_from_def)
next
  case (Suc k)
  then have j: "j < length idx" by simp
  then have i: "i \<le> length (block idx j)" "inside idx j (pos_from i (block idx j)) it" using Suc.prems by (simp_all add: ahead_of_def)
  note l = inside_look [OF i(2)]
  show ?case
  proof (cases "i < length (block idx j)")
    case True
    then have "inside idx j (Some i) it" using i by (simp add: pos_from_def)
    moreover have "SkipEmptyDataBlocksForward env it = Some it"
      using l True by (subst SkipEmptyDataBlocksForward.simps) (auto simp: pos_from_def)
    ultimately show ?thesis using flat_nth [OF j True] by (auto simp: two_cursor_def pos_from_def)
  next
    case False
    then have il: "i = length (block idx j)" using i(1) by simp
    let ?it = "it\<lparr>tl_index_iter := wrap_Next (tl_index env) (tl_index_iter it)\<rparr>"
    have "tidy idx (pos_from (Suc j) idx) ?it"
      using i(2) by (intro tidy_index_move [of idx "Some j"]) (auto simp: inside_def index.wrap_moves)
    note e = enter [OF this, of "pos_from 0" "wrap_SeekToFirst (tl_data env)", OF data.wrap_moves(1)]
    let ?it' = "on_data (wrap_SeekToFirst (tl_data env)) (InitDataBlock env ?it)"
    have "SkipEmptyDataBlocksForward env it = SkipEmptyDataBlocksForward env ?it'"
      using l False by (subst SkipEmptyDataBlocksForward.simps) (simp add: pos_from_def)
    moreover have "ahead_of idx (Suc j) 0 ?it'" using e j by (auto simp: ahead_of_def pos_from_def)
    ultimately show ?thesis using Suc.hyps(1) [of "Suc j" 0 ?it'] Suc.hyps(2) off_Suc [OF j] il by simp
  qed
qed

text \<open>Before position \<open>i\<close> of block \<open>j\<close>; \<open>J\<close> is one more than the number of the block.\<close>

definition behind_of :: "entry list \<Rightarrow> nat \<Rightarrow> nat \<Rightarrow> ('i, 'd) TwoLevelIterator \<Rightarrow> bool" where
  "behind_of idx J i it \<longleftrightarrow>
     (case J of
        0 \<Rightarrow> i = 0 \<and> outside idx it
      | Suc j \<Rightarrow> j < length idx \<and> i \<le> length (block idx j) \<and> inside idx j (pos_before i) it)"

lemma skip_backward:
  assumes "behind_of idx J i it"
  shows "\<exists>it'. SkipEmptyDataBlocksBackward env it = Some it' \<and> two_cursor idx (pos_before (off idx (J - 1) + i)) it'"
  using assms
proof (induction J arbitrary: i it)
  case 0
  then have o: "outside idx it" "i = 0" by (simp_all add: behind_of_def)
  then have "SkipEmptyDataBlocksBackward env it = Some (SetDataIterator env None it)"
    by (subst SkipEmptyDataBlocksBackward.simps) (simp add: outside_look)
  then show ?case using skip_done [OF o(1)] o by simp
next
  case (Suc j)
  then have j: "j < length idx" and i: "i \<le> length (block idx j)" "inside idx j (pos_before i) it" by (simp_all add: behind_of_def)
  note l = inside_look [OF i(2)]
  show ?case
  proof (cases i)
    case (Suc i')
    then have "inside idx j (Some i') it" using i by simp
    moreover have "SkipEmptyDataBlocksBackward env it = Some it"
      using l Suc by (subst SkipEmptyDataBlocksBackward.simps) auto
    ultimately show ?thesis using Suc by (auto simp: two_cursor_def)
  next
    case i0: 0
    let ?it = "it\<lparr>tl_index_iter := wrap_Prev (tl_index env) (tl_index_iter it)\<rparr>"
    have "tidy idx (pos_before j) ?it"
      using i(2) by (intro tidy_index_move [of idx "Some j"]) (auto simp: inside_def index.wrap_moves)
    note e = enter [OF this, of "\<lambda>es. pos_before (length es)" "wrap_SeekToLast (tl_data env)", OF data.wrap_moves(2)]
    let ?it' = "on_data (wrap_SeekToLast (tl_data env)) (InitDataBlock env ?it)"
    have op: "SkipEmptyDataBlocksBackward env it = SkipEmptyDataBlocksBackward env ?it'"
      using l i0 by (subst SkipEmptyDataBlocksBackward.simps) simp
    have "behind_of idx j (if j = 0 then 0 else length (block idx (j - 1))) ?it'"
      using e j by (cases j) (auto simp: behind_of_def)
    moreover have "off idx (j - 1) + (if j = 0 then 0 else length (block idx (j - 1))) = off idx j"
      using j off_Suc [of "j - 1" idx] by (cases j) simp_all
    ultimately show ?thesis using Suc.IH [of "if j = 0 then 0 else length (block idx (j - 1))" ?it'] op i0 by simp
  qed
qed

section \<open>The operations\<close>

lemma cursor_tidy: "two_cursor idx p it \<Longrightarrow> \<exists>q. tidy idx q it"
  by (auto simp: two_cursor_def inside_def split: option.splits)

lemma two_First:
  assumes "two_cursor idx p it"
  shows "\<exists>it'. TwoLevel_SeekToFirst env it = Some it' \<and> two_cursor idx (pos_from 0 (flat idx)) it'"
proof -
  obtain q where "tidy idx q it" using cursor_tidy [OF assms] by blast
  then have "tidy idx (pos_from 0 idx) (it\<lparr>tl_index_iter := wrap_SeekToFirst (tl_index env) (tl_index_iter it)\<rparr>)"
    by (rule tidy_index_move) (rule index.wrap_moves)
  note e = enter [OF this, of "pos_from 0" "wrap_SeekToFirst (tl_data env)", OF data.wrap_moves(1)]
  then have "ahead_of idx 0 0 (on_data (wrap_SeekToFirst (tl_data env))
      (InitDataBlock env (it\<lparr>tl_index_iter := wrap_SeekToFirst (tl_index env) (tl_index_iter it)\<rparr>)))"
    by (auto simp: ahead_of_def pos_from_def)
  from skip_forward [OF this] show ?thesis by (simp add: TwoLevel_SeekToFirst_def)
qed

lemma two_Last:
  assumes "two_cursor idx p it"
  shows "\<exists>it'. TwoLevel_SeekToLast env it = Some it' \<and> two_cursor idx (pos_before (length (flat idx))) it'"
proof -
  obtain q where "tidy idx q it" using cursor_tidy [OF assms] by blast
  then have "tidy idx (pos_before (length idx)) (it\<lparr>tl_index_iter := wrap_SeekToLast (tl_index env) (tl_index_iter it)\<rparr>)"
    by (rule tidy_index_move) (rule index.wrap_moves)
  note e = enter [OF this, of "\<lambda>es. pos_before (length es)" "wrap_SeekToLast (tl_data env)", OF data.wrap_moves(2)]
  let ?i = "if idx = [] then 0 else length (block idx (length idx - 1))"
  have "behind_of idx (length idx) ?i (on_data (wrap_SeekToLast (tl_data env))
      (InitDataBlock env (it\<lparr>tl_index_iter := wrap_SeekToLast (tl_index env) (tl_index_iter it)\<rparr>)))"
    using e by (cases idx rule: rev_cases) (auto simp: behind_of_def)
  moreover have "off idx (length idx - 1) + ?i = length (flat idx)"
    using off_Suc [of "length idx - 1" idx] by (cases idx rule: rev_cases) (simp_all flip: off_length)
  ultimately show ?thesis using skip_backward by (fastforce simp: TwoLevel_SeekToLast_def)
qed

lemma two_Seek:
  assumes "two_cursor idx p it" and t: "valid t"
  shows "\<exists>it'. TwoLevel_Seek env t it = Some it' \<and> two_cursor idx (pos_from (first_from cmp (flat idx) t) (flat idx)) it'"
proof -
  obtain q where q: "tidy idx q it" using cursor_tidy [OF assms(1)] by blast
  then have sep: "separated idx" by (simp add: tidy_def)
  define j where "j = first_from cmp idx t"
  have le: "j \<le> length idx" by (simp add: j_def first_from_def length_takeWhile_le)
  let ?it = "on_data (wrap_Seek (tl_data env) t) (InitDataBlock env (it\<lparr>tl_index_iter := wrap_Seek (tl_index env) t (tl_index_iter it)\<rparr>))"
  have "tidy idx (pos_from j idx) (it\<lparr>tl_index_iter := wrap_Seek (tl_index env) t (tl_index_iter it)\<rparr>)"
    using index.wrap_moves(3) [OF _ t] unfolding j_def by (rule tidy_index_move [OF q])
  note e = enter [OF this, of "\<lambda>es. pos_from (first_from cmp es t) es" "wrap_Seek (tl_data env) t", OF data.wrap_moves(3) [OF _ t]]
  show ?thesis
  proof (cases "j < length idx")
    case True
    then have "ahead_of idx j (first_from cmp (block idx j) t) ?it"
      using e by (simp add: ahead_of_def pos_from_def first_from_def length_takeWhile_le)
    from skip_forward [OF this] show ?thesis
      using flat_seek [OF sep t j_def [symmetric] True] by (simp add: TwoLevel_Seek_def)
  next
    case False
    then have "ahead_of idx j 0 ?it" using e le by (simp add: ahead_of_def pos_from_def)
    from skip_forward [OF this] show ?thesis
      using flat_seek_end [OF sep t] False le by (simp add: TwoLevel_Seek_def j_def)
  qed
qed

lemma two_Next:
  assumes "two_cursor idx (Some n) it"
  shows "\<exists>it'. TwoLevel_Next env it = Some it' \<and> two_cursor idx (pos_from (Suc n) (flat idx)) it'"
proof -
  from assms obtain j i where i: "inside idx j (Some i) it" "n = off idx j + i" by (auto simp: two_cursor_def)
  have "inside idx j (pos_from (Suc i) (block idx j)) (it\<lparr>tl_data_iter := wrap_Next (tl_data env) (tl_data_iter it)\<rparr>)"
    by (rule inside_move(2) [OF i(1) data.wrap_moves(4)])
  then have "ahead_of idx j (Suc i) (it\<lparr>tl_data_iter := wrap_Next (tl_data env) (tl_data_iter it)\<rparr>)"
    using inside_look(4) [OF i(1)] inside_bound [OF i(1)] by (simp add: ahead_of_def)
  from skip_forward [OF this] show ?thesis using i(2) by (simp add: TwoLevel_Next_def)
qed

lemma two_Prev:
  assumes "two_cursor idx (Some n) it"
  shows "\<exists>it'. TwoLevel_Prev env it = Some it' \<and> two_cursor idx (pos_before n) it'"
proof -
  from assms obtain j i where i: "inside idx j (Some i) it" "n = off idx j + i" by (auto simp: two_cursor_def)
  have "inside idx j (pos_before i) (it\<lparr>tl_data_iter := wrap_Prev (tl_data env) (tl_data_iter it)\<rparr>)"
    by (rule inside_move(2) [OF i(1) data.wrap_moves(5)])
  then have "behind_of idx (Suc j) i (it\<lparr>tl_data_iter := wrap_Prev (tl_data env) (tl_data_iter it)\<rparr>)"
    using inside_look(4) [OF i(1)] inside_bound [OF i(1)] by (simp add: behind_of_def)
  from skip_backward [OF this] show ?thesis using i(2) by (simp add: TwoLevel_Prev_def)
qed

definition two_at :: "entry list \<Rightarrow> nat option \<Rightarrow> ('i, 'd) TwoLevelIterator option \<Rightarrow> bool" where
  "two_at es p s \<longleftrightarrow> (\<exists>idx it. s = Some it \<and> es = flat idx \<and> two_cursor idx p it)"

lemma two_status: "two_cursor idx p it \<Longrightarrow> TwoLevel_status env it = OK"
  using cursor_tidy [of idx p it] data.wrap_looks(4) index.wrap_looks(4)
  by (auto simp: TwoLevel_status_def tidy_def)

lemma two_entry_iterator: "entry_iterator (two_level_Iterator env) cmp valid two_at"
proof
  fix es p s assume "two_at es p s"
  then obtain idx it where s: "s = Some it" "es = flat idx" "two_cursor idx p it" by (auto simp: two_at_def)
  show "i_Valid (two_level_Iterator env) s \<longleftrightarrow> p \<noteq> None"
    using s(1,3) inside_look(2) by (fastforce simp: two_level_Iterator_def two_cursor_def split: option.splits)
  show "i_status (two_level_Iterator env) s = OK" using s(1) two_status [OF s(3)] by (simp add: two_level_Iterator_def)
  show "two_at es (pos_from 0 es) (i_SeekToFirst (two_level_Iterator env) s)"
    using two_First [OF s(3)] s(1,2) by (auto simp: two_level_Iterator_def two_at_def)
  show "two_at es (pos_before (length es)) (i_SeekToLast (two_level_Iterator env) s)"
    using two_Last [OF s(3)] s(1,2) by (auto simp: two_level_Iterator_def two_at_def)
  show "two_at es (pos_from (first_from cmp es t) es) (i_Seek (two_level_Iterator env) t s)" if "valid t" for t
    using two_Seek [OF s(3) that] s(1,2) by (auto simp: two_level_Iterator_def two_at_def)
next
  fix es n s assume "two_at es (Some n) s"
  then obtain idx it where s: "s = Some it" "es = flat idx" "two_cursor idx (Some n) it" by (auto simp: two_at_def)
  then obtain j i where i: "inside idx j (Some i) it" "n = off idx j + i" by (auto simp: two_cursor_def)
  note f = flat_nth [OF inside_look(4) [OF i(1)] inside_bound [OF i(1)]]
  have d: "data.wrap_at (block idx j) (Some i) (tl_data_iter it)" using i(1) by (simp add: inside_def)
  show "n < length es" using f s(2) i(2) by simp
  show "i_key (two_level_Iterator env) s = fst (es ! n)" "i_value (two_level_Iterator env) s = snd (es ! n)"
    using f s(1,2) i(2) data.wrap_looks(1,2) [OF d] by (simp_all add: two_level_Iterator_def)
  show "two_at es (pos_from (Suc n) es) (i_Next (two_level_Iterator env) s)"
    using two_Next [OF s(3)] s(1,2) by (auto simp: two_level_Iterator_def two_at_def)
  show "two_at es (pos_before n) (i_Prev (two_level_Iterator env) s)"
    using two_Prev [OF s(3)] s(1,2) by (auto simp: two_level_Iterator_def two_at_def)
qed

lemma make_two_at:
  assumes "iat idx q x" and "separated idx"
  shows "two_at (flat idx) None (NewTwoLevelIterator env x)"
proof -
  have "tidy idx q (make_TwoLevelIterator env x)"
    using assms index.wrap_Set_at by (simp add: tidy_def make_TwoLevelIterator_def wrap_Set_def make_IteratorWrapper_def)
  then show ?thesis
    by (auto simp: two_at_def two_cursor_def NewTwoLevelIterator_def make_TwoLevelIterator_def wrap_Set_def make_IteratorWrapper_def
        intro!: exI [of _ idx])
qed

end

sublocale two_level_iterator \<subseteq> whole: entry_iterator "two_level_Iterator env" cmp valid two_at
  by (rule two_entry_iterator)

end
