(* ===== verification/Ldb_Table_Correct.thy ===== *)
theory Ldb_Table_Correct
  imports Ldb_Table Ldb_TableBuilder_Correct Ldb_TwoLevel_Correct
begin

text \<open>
  Reading what a table builder has written: the table opens, its iterator is a cursor on the entries
  that were added, and a lookup finds the entry of a key, through the filter too.
\<close>

section \<open>Iterators of blocks\<close>

definition data_at :: "Comparator \<Rightarrow> (slice \<Rightarrow> bool) \<Rightarrow> entry list \<Rightarrow> nat option \<Rightarrow> data_iter \<Rightarrow> bool" where
  "data_at c valid es p s \<longleftrightarrow> (\<exists>it. s = DBlock it \<and> block_at c valid es p it)"

lemma data_entry_iterator:
  assumes "key_preorder (Compare c) valid"
  shows "entry_iterator data_Iterator (Compare c) valid (data_at c valid)"
proof -
  note b = block_entry_iterator [OF assms]
  show ?thesis
  proof
    fix es p s assume "data_at c valid es p s"
    then obtain it where s: "s = DBlock it" "block_at c valid es p it" by (auto simp: data_at_def)
    show "i_Valid data_Iterator s \<longleftrightarrow> p \<noteq> None" "i_status data_Iterator s = OK"
      "data_at c valid es (pos_from 0 es) (i_SeekToFirst data_Iterator s)"
      "data_at c valid es (pos_before (length es)) (i_SeekToLast data_Iterator s)"
      using entry_iterator.at_Valid [OF b s(2)] entry_iterator.at_status [OF b s(2)]
        entry_iterator.at_First [OF b s(2)] entry_iterator.at_Last [OF b s(2)]
      by (simp_all add: s(1) data_Iterator_def data_at_def)
    show "data_at c valid es (pos_from (first_from (Compare c) es t) es) (i_Seek data_Iterator t s)" if "valid t" for t
      using entry_iterator.at_Seek [OF b s(2) that] by (simp add: s(1) data_Iterator_def data_at_def)
  next
    fix es i s assume "data_at c valid es (Some i) s"
    then obtain it where s: "s = DBlock it" "block_at c valid es (Some i) it" by (auto simp: data_at_def)
    show "i < length es" "i_key data_Iterator s = fst (es ! i)" "i_value data_Iterator s = snd (es ! i)"
      "data_at c valid es (pos_from (Suc i) es) (i_Next data_Iterator s)" "data_at c valid es (pos_before i) (i_Prev data_Iterator s)"
      using entry_iterator.at_bound [OF b s(2)] entry_iterator.at_key [OF b s(2)] entry_iterator.at_value [OF b s(2)]
        entry_iterator.at_Next [OF b s(2)] entry_iterator.at_Prev [OF b s(2)]
      by (simp_all add: s(1) data_Iterator_def data_at_def)
  qed
qed

lemma data_at_good: "data_at c valid es p s \<Longrightarrow> \<not> bad_iter s"
  by (auto simp: data_at_def block_at_def arrives_def split: option.splits)

lemma new_data_iter_at:
  assumes "0 < k" and "length (fst (BlockBuilder_Finish (build k kvs))) < 2 ^ 32"
    and "key_preorder.increasing (Compare c) valid (map fst kvs)"
  shows "data_at c valid kvs None (new_data_iter c (make_Block (fst (BlockBuilder_Finish (build k kvs)))))"
proof -
  note f = Finish_layout [OF assms(1)]
  from Block_of_layout [OF assms(1) assms(2) [unfolded f], of c] obtain it
    where "Block_NewIterator c (make_Block (block_bytes k kvs)) = Iter it" by blast
  then show ?thesis using built_iter_at [OF assms] by (simp add: data_at_def new_data_iter_def built_iter_def f)
qed

section \<open>Opening\<close>

context table_writing
begin

text \<open>A table that was read: its index, and a filter that denies no key of a block.\<close>

definition opened :: "'f \<Rightarrow> (BlockHandle \<times> entry list) list \<Rightarrow> entry list \<Rightarrow> 'f Table \<Rightarrow> bool" where
  "opened f bs idx t \<longleftrightarrow> t_options t = opt \<and> t_file t = f
     \<and> t_index_block t = make_Block (fst (BlockBuilder_Finish (build 1 idx)))
     \<and> (\<forall>flt. t_filter t = Some flt \<longrightarrow> (\<exists>p contents. opt_filter_policy opt = Some p \<and> flt = make_FilterBlockReader p contents
          \<and> length contents \<le> length (content f) \<and> (length contents < 2 ^ 32 \<longrightarrow> (\<forall>(h, kvs) \<in> set bs. \<forall>e \<in> set kvs.
               FilterBlock_KeyMayMatch (bh_offset h) (fst e) flt = Some True))))"

lemma read_block: "holds snappy (content f) h raw \<Longrightarrow> length (content f) < 2 ^ 64 \<Longrightarrow>
    \<exists>bc. ReadBlock rops snappy f verify h = Some (OK, bc) \<and> bc_data bc = raw"
  by (rule holds_read [OF table_file_axioms snappy_codec_axioms])

lemma read_filter:
  assumes "filter_stored (content f) bs fh" and "length (content f) < 2 ^ 64" and p: "opt_filter_policy opt = Some p"
    and t: "opened f bs idx t"
  shows "\<exists>t'. ReadFilter rops snappy p (BlockHandle_EncodeTo fh []) t = Some t' \<and> opened f bs idx t'"
proof -
  from assms(1) p obtain contents where c: "holds snappy (content f) fh contents"
    "length contents \<le> length (content f) \<and> (length contents < 2 ^ 32 \<longrightarrow> (\<forall>(h, kvs) \<in> set bs. \<forall>e \<in> set kvs.
       FilterBlock_KeyMayMatch (bh_offset h) (fst e) (make_FilterBlockReader p contents) = Some True))"
    by (auto simp: filter_stored_def)
  from read_block [OF c(1) assms(2)] obtain bc where
    bc: "ReadBlock rops snappy f (opt_paranoid_checks opt) fh = Some (OK, bc)" "bc_data bc = contents" by blast
  have d: "BlockHandle_DecodeFrom (BlockHandle_EncodeTo fh []) make_BlockHandle = (OK, fh, [])"
    using BlockHandle_round_trip [of fh "[]"] by simp
  let ?t = "t\<lparr>t_filter := Some (make_FilterBlockReader p contents)\<rparr>"
  have "ReadFilter rops snappy p (BlockHandle_EncodeTo fh []) t = Some ?t"
    using t bc by (simp add: ReadFilter_def d opened_def)
  moreover have "opened f bs idx ?t" using t c(2) p by (auto simp: opened_def)
  ultimately show ?thesis by blast
qed

lemma read_meta:
  assumes m: "holds snappy (content f) (metaindex_handle footer) (fst (BlockBuilder_Finish (build K (meta_block fh))))"
    and fs: "filter_stored (content f) bs fh" and len: "length (content f) < 2 ^ 64" and t: "opened f bs idx t"
  shows "\<exists>t'. ReadMeta rops snappy footer t = Some t' \<and> opened f bs idx t'"
proof (cases "opt_filter_policy opt")
  case None
  then show ?thesis using t by (simp add: ReadMeta_def opened_def)
next
  case (Some p)
  let ?kvs = "[(filter_key p, BlockHandle_EncodeTo fh [])]"
  have mb: "meta_block fh = ?kvs" using Some by (simp add: meta_block_def)
  have "entries_size ?kvs < 2 ^ 32"
    using length_BlockHandle [of fh] policy_name [OF Some] by (simp add: filter_key_def kMaxEncodedLength_def)
  then have size: "length (fst (BlockBuilder_Finish (build K ?kvs))) < 2 ^ 32"
    using built_size [OF interval_pos, of ?kvs] by (rule le_less_trans [rotated])
  have inc: "bytewise.increasing (map fst ?kvs)" unfolding bytewise.increasing_def by simp
  note it = data_entry_iterator [OF bytewise.key_preorder_axioms]
  note at = new_data_iter_at [OF interval_pos size inc]
  have "first_from (Compare BytewiseComparator) ?kvs (filter_key p) = 0"
    using bytewise.cmp_irrefl [of "filter_key p"] by (simp add: first_from_def)
  then have at0: "data_at BytewiseComparator (\<lambda>_. True) ?kvs (Some 0)
      (i_Seek data_Iterator (filter_key p) (new_data_iter BytewiseComparator (make_Block (fst (BlockBuilder_Finish (build K ?kvs))))))"
    using entry_iterator.at_Seek [OF it at, of "filter_key p"] by (simp add: pos_from_def)
  from read_block [OF m len] obtain bc where
    bc: "ReadBlock rops snappy f (opt_paranoid_checks opt) (metaindex_handle footer) = Some (OK, bc)"
    "bc_data bc = fst (BlockBuilder_Finish (build K ?kvs))" unfolding mb by blast
  have "ReadMeta rops snappy footer t = ReadFilter rops snappy p (BlockHandle_EncodeTo fh []) t"
    using t bc Some data_at_good [OF at0] entry_iterator.at_Valid [OF it at0] entry_iterator.at_key [OF it at0]
      entry_iterator.at_value [OF it at0] by (simp add: ReadMeta_def opened_def Let_def)
  then show ?thesis using read_filter [OF fs len Some t] by simp
qed

lemma open_table:
  assumes t: "table_in (content f) es bs idx" and len: "length (content f) < 2 ^ 64"
  shows "\<exists>t. Table_Open rops snappy opt f (of_nat (length (content f))) = Some (OK, Some t) \<and> opened f bs idx t"
proof -
  from t obtain footer rest fh where b: "content f = rest @ Footer_EncodeTo footer []"
    "holds snappy (content f) (index_handle footer) (fst (BlockBuilder_Finish (build 1 idx)))"
    "holds snappy (content f) (metaindex_handle footer) (fst (BlockBuilder_Finish (build K (meta_block fh))))"
    "filter_stored (content f) bs fh" by (auto simp: table_in_def)
  let ?sz = "of_nat (length (content f)) :: uint64"
  have lc: "length (content f) = length rest + kEncodedLength" using length_Footer by (simp add: b(1))
  have "unat ?sz = length (content f)" using len by (simp add: unat_of_nat)
  then have u: "unat ?sz = length rest + kEncodedLength" using lc by simp
  have o: "?sz - of_nat kEncodedLength = of_nat (length rest)" "unat (of_nat (length rest) :: uint64) = length rest"
    using len by (simp_all add: lc unat_of_nat)
  from read [of "of_nat (length rest)" kEncodedLength f] obtain x where
    rd: "raf_Read rops (?sz - of_nat kEncodedLength) kEncodedLength f = (OK, Footer_EncodeTo footer [], x)"
    using o lc length_Footer by (auto simp: b(1))
  from read_block [OF b(2) len] obtain bc where
    bc: "ReadBlock rops snappy f (opt_paranoid_checks opt) (index_handle footer) = Some (OK, bc)"
    "bc_data bc = fst (BlockBuilder_Finish (build 1 idx))" by blast
  let ?t = "\<lparr>t_options = opt, t_file = f, t_filter = None, t_metaindex_handle = metaindex_handle footer,
    t_index_block = make_Block (fst (BlockBuilder_Finish (build 1 idx)))\<rparr>"
  from read_meta [OF b(3,4) len, of idx ?t] obtain t' where t': "ReadMeta rops snappy footer ?t = Some t'" "opened f bs idx t'"
    by (auto simp: opened_def)
  have d: "Footer_DecodeFrom (Footer_EncodeTo footer []) f0 = Some (OK, footer, [])" for f0
    using Footer_round_trip [of footer "[]"] by simp
  show ?thesis using u rd d bc t' by (simp add: Table_Open_def)
qed

section \<open>The blocks of a table\<close>

definition known :: "(BlockHandle \<times> entry list) list \<Rightarrow> slice \<Rightarrow> bool" where
  "known bs h \<longleftrightarrow> (\<exists>b \<in> set bs. h = BlockHandle_EncodeTo (fst b) [])"

definition cont :: "(BlockHandle \<times> entry list) list \<Rightarrow> slice \<Rightarrow> entry list" where
  "cont bs h = snd (the (find (\<lambda>b. BlockHandle_EncodeTo (fst b) [] = h) bs))"

lemma encode_inject: "BlockHandle_EncodeTo h [] = BlockHandle_EncodeTo h' [] \<Longrightarrow> h = h'"
  using BlockHandle_round_trip [of h "[]" h] BlockHandle_round_trip [of h' "[]" h] by simp

lemma handles_distinct:
  assumes t: "table_in bytes es bs idx" and len: "length bytes < 2 ^ 64"
  shows "distinct (map fst bs)"
proof -
  from t obtain os where os: "map (bh_offset \<circ> fst) bs = map of_nat os" "sorted_wrt (<) os" "\<forall>x \<in> set os. x < length bytes"
    by (auto simp: table_in_def)
  have "inj_on (of_nat :: nat \<Rightarrow> uint64) (set os)"
  proof (rule inj_onI)
    fix x y assume xy: "x \<in> set os" "y \<in> set os" "(of_nat x :: uint64) = of_nat y"
    then have "x < 2 ^ 64" "y < 2 ^ 64" using os(3) len by auto
    then have "unat (of_nat x :: uint64) = x" "unat (of_nat y :: uint64) = y" by (simp_all add: unat_of_nat)
    then show "x = y" using xy(3) by metis
  qed
  moreover have "distinct os" using os(2) by (simp add: strict_sorted_iff)
  ultimately have "distinct (map (bh_offset \<circ> fst) bs)" unfolding os(1) by (simp add: distinct_map)
  then have "distinct (map bh_offset (map fst bs))" by simp
  then show ?thesis unfolding distinct_map [of bh_offset] by simp
qed

lemma cont_block:
  assumes "distinct (map fst bs)" and "b \<in> set bs"
  shows "cont bs (BlockHandle_EncodeTo (fst b) []) = snd b"
proof -
  have "find (\<lambda>b'. BlockHandle_EncodeTo (fst b') [] = BlockHandle_EncodeTo (fst b) []) bs = Some b"
    using assms
  proof (induction bs)
    case (Cons a bs)
    then show ?case using encode_inject [of "fst a" "fst b"] by (cases "a = b") force+
  qed simp
  then show ?thesis by (simp add: cont_def)
qed

lemma block_increasing:
  assumes "increasing (map fst (concat (map snd bs)))" and "b \<in> set bs"
  shows "increasing (map fst (snd b))"
proof -
  from split_list [OF assms(2)] obtain xs ys where "bs = xs @ b # ys" by blast
  then show ?thesis using assms(1) by (auto simp: increasing_def sorted_wrt_append)
qed

lemma block_total: "b \<in> set bs \<Longrightarrow> total_size (snd b) \<le> total_size (concat (map snd bs))"
  by (induction bs) auto

lemma reads_block:
  assumes t: "table_in (content f) es bs idx" and o: "opened f bs idx t" and len: "length (content f) < 2 ^ 64"
    and small: "total_size es < 2 ^ 30" and b: "b \<in> set bs"
  shows "data_at c valid (snd b) None (BlockReader rops snappy verify t (BlockHandle_EncodeTo (fst b) []))"
proof -
  have es: "es = concat (map snd bs)" "increasing (map fst es)" and ne: "snd b \<noteq> []"
    and h: "holds snappy (content f) (fst b) (fst (BlockBuilder_Finish (build K (snd b))))"
    using t b by (auto simp: table_in_def)
  have inc: "increasing (map fst (snd b))" using block_increasing [OF _ b] es by simp
  have "entries_size (snd b) < 2 ^ 32"
    using entries_size_total [OF ne] block_total [OF b] small by (simp add: es(1))
  then have size: "length (fst (BlockBuilder_Finish (build K (snd b)))) < 2 ^ 32"
    using built_size [OF interval_pos, of "snd b"] by (rule le_less_trans [rotated])
  from read_block [OF h len] obtain bc where
    "ReadBlock rops snappy f verify (fst b) = Some (OK, bc)" "bc_data bc = fst (BlockBuilder_Finish (build K (snd b)))" by blast
  then have "BlockReader rops snappy verify t (BlockHandle_EncodeTo (fst b) [])
      = new_data_iter c (make_Block (fst (BlockBuilder_Finish (build K (snd b)))))"
    using o BlockHandle_round_trip [of "fst b" "[]"] by (simp add: BlockReader_def opened_def opt_cmp)
  then show ?thesis using new_data_iter_at [OF interval_pos size inc] by simp
qed

lemma index_at:
  assumes t: "table_in (content f) es bs idx" and o: "opened f bs idx t" and small: "total_size es < 2 ^ 30"
    and inc: "increasing (map fst idx)"
  shows "data_at c valid idx None (new_data_iter (opt_comparator (t_options t)) (t_index_block t))"
proof -
  have "length (fst (BlockBuilder_Finish (build 1 idx))) < 2 ^ 32"
    using built_size [of 1 idx] index_small [OF t] small by simp
  from new_data_iter_at [OF _ this inc] o show ?thesis by (simp add: opened_def opt_cmp)
qed

text \<open>Index keys separate the blocks, so they increase.\<close>

lemma table_indexed:
  assumes t: "table_in bytes es bs idx" and j: "j < length bs"
  shows "index_entry (idx ! j) (bs ! j) (concat (map snd (drop (Suc j) bs)))" "snd (bs ! j) \<noteq> []"
    "\<And>x. x \<in> set (snd (bs ! j)) \<Longrightarrow> valid (fst x)"
    "\<And>i x. i < j \<Longrightarrow> x \<in> set (snd (bs ! j)) \<Longrightarrow> Compare c (fst (idx ! i)) (fst x) < 0"
proof -
  have ix: "indexed idx bs []" "length idx = length bs" "\<forall>b \<in> set bs. snd b \<noteq> []"
    and inc: "increasing (map fst (concat (map snd bs)))" using t by (auto simp: table_in_def)
  have e: "index_entry (idx ! j) (bs ! j) (concat (map snd (drop (Suc j) bs)))" if "j < length bs" for j
    using ix(1,2) that by (simp add: indexed_def)
  show "index_entry (idx ! j) (bs ! j) (concat (map snd (drop (Suc j) bs)))" by (rule e [OF j])
  have b: "bs ! j \<in> set bs" using j by simp
  then show "snd (bs ! j) \<noteq> []" using ix(3) by blast
  show "valid (fst x)" if "x \<in> set (snd (bs ! j))" for x using inc that b by (auto simp: increasing_def)
  show "Compare c (fst (idx ! i)) (fst x) < 0" if i: "i < j" and x: "x \<in> set (snd (bs ! j))" for i x
  proof -
    have "bs ! j \<in> set (drop (Suc i) bs)" using i j by (auto simp: in_set_conv_nth intro!: exI [of _ "j - Suc i"])
    then have "x \<in> set (concat (map snd (drop (Suc i) bs)))" using x by auto
    then show ?thesis using e [of i] i j unfolding index_entry_def by (meson less_trans)
  qed
qed

lemma index_increasing:
  assumes t: "table_in bytes es bs idx"
  shows "increasing (map fst idx)"
proof -
  have l: "length idx = length bs" using t by (simp add: table_in_def)
  note e = table_indexed [OF t]
  have "Compare c (fst (idx ! i)) (fst (idx ! j)) < 0" if ij: "i < j" "j < length bs" for i j
  proof -
    obtain x where x: "x \<in> set (snd (bs ! j))" using e(2) [OF ij(2)] by (meson list.set_sel(1))
    have "Compare c (fst x) (fst (idx ! j)) \<le> 0" "valid (fst (idx ! j))" using e(1) [OF ij(2)] x by (simp_all add: index_entry_def)
    moreover have "valid (fst (idx ! i))" using e(1) [of i] ij by (simp add: index_entry_def)
    ultimately show ?thesis using cmp_less_le_trans e(3) [OF ij(2) x] e(4) [OF ij(2,1) x] by blast
  qed
  moreover have "valid (fst x)" if x: "x \<in> set idx" for x
  proof -
    from x obtain j where "j < length bs" "x = idx ! j" by (auto simp: in_set_conv_nth l)
    then show ?thesis using e(1) [of j] by (simp add: index_entry_def)
  qed
  ultimately show ?thesis using l unfolding increasing_def by (auto simp: sorted_wrt_iff_nth_less)
qed

section \<open>The iterator of a table\<close>

lemma table_two_level:
  assumes t: "table_in (content f) es bs idx" and o: "opened f bs idx t" and len: "length (content f) < 2 ^ 64"
    and small: "total_size es < 2 ^ 30"
  shows "two_level_iterator (table_levels rops snappy verify t) (Compare c) valid (data_at c valid) (data_at c valid) (known bs) (cont bs)"
proof -
  note d = data_entry_iterator [OF key_preorder_axioms]
  have "data_at c valid (cont bs h) None (BlockReader rops snappy verify t h)" if h: "known bs h" for h
  proof -
    from h obtain b where b: "b \<in> set bs" "h = BlockHandle_EncodeTo (fst b) []" by (auto simp: known_def)
    then show ?thesis using reads_block [OF t o len small b(1)] cont_block [OF handles_distinct [OF t len] b(1)] by simp
  qed
  then show ?thesis
    using d key_order_axioms by (simp add: two_level_iterator_def two_level_iterator_axioms_def table_levels_def)
qed

lemma table_separated:
  assumes t: "table_in bytes es bs idx" and len: "length bytes < 2 ^ 64"
    and l: "two_level_iterator env (Compare c) valid (data_at c valid) (data_at c valid) (known bs) (cont bs)"
  shows "two_level_iterator.separated (Compare c) valid (known bs) (cont bs) idx"
    "two_level_iterator.flat (cont bs) idx = es"
proof -
  have li: "length idx = length bs" and es: "es = concat (map snd bs)" using t by (simp_all add: table_in_def)
  note e = table_indexed [OF t]
  have b: "snd (idx ! j) = BlockHandle_EncodeTo (fst (bs ! j)) []" "cont bs (snd (idx ! j)) = snd (bs ! j)" "known bs (snd (idx ! j))"
    if "j < length bs" for j
    using e(1) [OF that] cont_block [OF handles_distinct [OF t len], of "bs ! j"] that by (auto simp: index_entry_def known_def)
  have "map (\<lambda>e. cont bs (snd e)) idx = map snd bs" using b(2) li by (intro nth_equalityI) simp_all
  then show "two_level_iterator.flat (cont bs) idx = es" unfolding two_level_iterator.flat_def [OF l] es by simp
  show "two_level_iterator.separated (Compare c) valid (known bs) (cont bs) idx"
    unfolding two_level_iterator.separated_def [OF l] li
    using e b by (auto simp: index_entry_def)
qed

abbreviation table_at :: "(BlockHandle \<times> entry list) list \<Rightarrow> entry list \<Rightarrow> nat option \<Rightarrow> (data_iter, data_iter) TwoLevelIterator option \<Rightarrow> bool" where
  "table_at bs \<equiv> two_level_iterator.two_at (Compare c) valid (data_at c valid) (data_at c valid) (known bs) (cont bs)"

lemma table_iterator:
  assumes t: "table_in (content f) es bs idx" and o: "opened f bs idx t" and len: "length (content f) < 2 ^ 64"
    and small: "total_size es < 2 ^ 30"
  shows "entry_iterator (two_level_Iterator (table_levels rops snappy verify t)) (Compare c) valid
      (table_at bs)"
    "table_at bs es None (Table_NewIterator rops snappy verify t)"
proof -
  note l = table_two_level [OF assms]
  show "entry_iterator (two_level_Iterator (table_levels rops snappy verify t)) (Compare c) valid
      (table_at bs)"
    by (rule two_level_iterator.two_entry_iterator [OF l])
  have i: "data_at c valid idx None (new_data_iter (opt_comparator (t_options t)) (t_index_block t))"
    by (rule index_at [OF t o small index_increasing [OF t]])
  show "table_at bs es None (Table_NewIterator rops snappy verify t)"
    using two_level_iterator.make_two_at [OF l i table_separated(1) [OF t len l]] table_separated(2) [OF t len l]
    by (simp add: Table_NewIterator_def)
qed

end

end
