(* ===== verification/Ldb_Table_Get.thy ===== *)
theory Ldb_Table_Get
  imports Ldb_Table_Correct
begin

text \<open>
  Lookups in a table, and tables as the database writes them: internal keys, and a filter on their user
  keys.
\<close>

section \<open>Lookups\<close>

lemma first_from_below: "i < first_from cmp es t \<Longrightarrow> cmp (fst (es ! i)) t < 0"
  unfolding first_from_def by (metis nth_mem set_takeWhileD takeWhile_nth)

lemma first_from_at: "first_from cmp es t < length es \<Longrightarrow> \<not> cmp (fst (es ! first_from cmp es t)) t < 0"
  using nth_length_takeWhile [of "\<lambda>e. cmp (fst e) t < 0" es] by (simp add: first_from_def)

lemma first_from_le: "first_from cmp es t \<le> length es"
  by (simp add: first_from_def length_takeWhile_le)

lemma filter_key_swap:
  assumes "\<And>flt. KeyMayMatch p k flt = KeyMayMatch p k' flt"
  shows "FilterBlock_KeyMayMatch off k (make_FilterBlockReader p contents)
    = FilterBlock_KeyMayMatch off k' (make_FilterBlockReader p contents)"
proof -
  have "fr_policy (make_FilterBlockReader p contents) = p" by (simp add: make_FilterBlockReader_def Let_def)
  then show ?thesis by (simp add: FilterBlock_KeyMayMatch_def Let_def assms)
qed

lemma filter_defined: "FilterBlock_KeyMayMatch off k r \<noteq> None \<Longrightarrow> FilterBlock_KeyMayMatch off k' r \<noteq> None"
  by (auto simp: FilterBlock_KeyMayMatch_def Let_def split: if_splits)

context table_writing
begin

text \<open>The block in which a search ends.\<close>

lemma search_block:
  assumes t: "table_in (content f) es bs idx" and o: "opened f bs idx t" and len: "length (content f) < 2 ^ 64"
    and small: "total_size es < 2 ^ 30" and k: "valid k"
  defines "j \<equiv> first_from (Compare c) idx k" and "i \<equiv> first_from (Compare c) es k"
  shows "j = length bs \<Longrightarrow> i = length es"
    "j < length bs \<Longrightarrow> i = length (concat (map snd (take j bs))) + first_from (Compare c) (snd (bs ! j)) k"
proof -
  note l = table_two_level [OF t o len small, of verify]
  note s = table_separated [OF t len l]
  have li: "length idx = length bs" using t by (simp add: table_in_def)
  have c: "cont bs (snd (idx ! m)) = snd (bs ! m)" if "m < length bs" for m
    using table_indexed(1) [OF t that] cont_block [OF handles_distinct [OF t len], of "bs ! m"] that
    by (simp add: index_entry_def)
  show "i = length es" if "j = length bs"
    using two_level_iterator.flat_seek_end [OF l s(1) k] that li by (simp add: i_def j_def s(2))
  show "i = length (concat (map snd (take j bs))) + first_from (Compare c) (snd (bs ! j)) k" if j: "j < length bs"
  proof -
    have "map (\<lambda>e. cont bs (snd e)) (take j idx) = map snd (take j bs)"
      using c li j by (intro nth_equalityI) simp_all
    then have "two_level_iterator.off (cont bs) idx j = length (concat (map snd (take j bs)))"
      by (simp add: two_level_iterator.off_def [OF l] two_level_iterator.flat_def [OF l])
    then show ?thesis
      using two_level_iterator.flat_seek [OF l s(1) k] j li c [OF j] by (simp add: i_def j_def s(2))
  qed
qed

text \<open>A key that is found is in that block: its index key is not between the key and the next block.\<close>

lemma search_inside:
  assumes t: "table_in (content f) es bs idx" and o: "opened f bs idx t" and len: "length (content f) < 2 ^ 64"
    and small: "total_size es < 2 ^ 30" and k: "valid k"
    and i: "first_from (Compare c) es k = i" "i < length es" "sim k (fst (es ! i))"
    and j: "first_from (Compare c) idx k = j"
  shows "j < length bs \<and> first_from (Compare c) (snd (bs ! j)) k < length (snd (bs ! j))
    \<and> es ! i = snd (bs ! j) ! first_from (Compare c) (snd (bs ! j)) k"
proof -
  note sb = search_block [OF t o len small k, unfolded i(1) j]
  have li: "length idx = length bs" and es: "es = concat (map snd bs)" "increasing (map fst es)"
    using t unfolding table_in_def by blast+
  have jl: "j < length bs" using sb(1) i(2) first_from_le [of "Compare c" idx k] by (cases "j = length bs") (auto simp: j li)
  let ?A = "concat (map snd (take j bs))" and ?B = "snd (bs ! j)" and ?R = "concat (map snd (drop (Suc j) bs))"
  have split: "es = ?A @ ?B @ ?R" unfolding es(1) by (subst id_take_nth_drop [OF jl]) simp
  let ?m = "first_from (Compare c) ?B k"
  have ij: "i = length ?A + ?m" by (rule sb(2) [OF jl])
  have "?m < length ?B"
  proof (rule ccontr)
    assume "\<not> ?m < length ?B"
    then have m: "?m = length ?B" using first_from_le [of "Compare c" ?B k] by simp
    note e = table_indexed [OF t jl]
    have "?R \<noteq> []" using i(2) ij m by (auto simp: split)
    moreover have "es ! i = ?R ! 0" unfolding ij m by (subst split) (simp add: nth_append)
    ultimately have "es ! i \<in> set (take 1 ?R)" by (cases ?R) simp_all
    moreover have "Compare c (fst (last ?B)) k < 0"
      using first_from_below [of "length ?B - 1" "Compare c" ?B k] e(2) m by (simp add: last_conv_nth)
    moreover have "Compare c k (fst (es ! i)) \<le> 0"
    proof -
      have "valid (fst (es ! i))" using es(2) i(2) by (auto simp: increasing_def)
      then show ?thesis using first_from_at [of "Compare c" es k] i(1,2) cmp_not_less k by auto
    qed
    ultimately have "Compare c (fst (idx ! j)) k < 0" using e(1) k i(3) unfolding index_entry_def by blast
    then show False using first_from_at [of "Compare c" idx k] jl by (simp add: j li)
  qed
  moreover from this have "es ! i = ?B ! ?m" unfolding ij by (subst split) (simp add: nth_append)
  ultimately show ?thesis using jl by blast
qed

text \<open>What the filter says of the block of a search.\<close>

lemma filter_answers:
  assumes t: "table_in (content f) es bs idx" and o: "opened f bs idx t" and len: "length (content f) < 2 ^ 32"
    and j: "j < length bs"
  shows "filter_denies t (BlockHandle_EncodeTo (fst (bs ! j)) []) k \<noteq> None"
    "e \<in> set (snd (bs ! j)) \<Longrightarrow> sim k (fst e) \<Longrightarrow> filter_denies t (BlockHandle_EncodeTo (fst (bs ! j)) []) k = Some False"
proof -
  let ?h = "fst (bs ! j)"
  have d: "BlockHandle_DecodeFrom (BlockHandle_EncodeTo ?h []) make_BlockHandle = (OK, ?h, [])"
    using BlockHandle_round_trip [of ?h "[]"] by simp
  have b: "(?h, snd (bs ! j)) \<in> set bs" using j by simp
  have "filter_denies t (BlockHandle_EncodeTo ?h []) k \<noteq> None
      \<and> (e \<in> set (snd (bs ! j)) \<longrightarrow> sim k (fst e) \<longrightarrow> filter_denies t (BlockHandle_EncodeTo ?h []) k = Some False)"
  proof (cases "t_filter t")
    case (Some flt)
    then obtain p contents where p: "opt_filter_policy opt = Some p" "flt = make_FilterBlockReader p contents"
      "length contents \<le> length (content f)" "length contents < 2 ^ 32 \<longrightarrow> (\<forall>(h, kvs) \<in> set bs. \<forall>e \<in> set kvs.
         FilterBlock_KeyMayMatch (bh_offset h) (fst e) flt = Some True)"
      using o unfolding opened_def by blast
    have m: "FilterBlock_KeyMayMatch (bh_offset ?h) (fst e) flt = Some True" if "e \<in> set (snd (bs ! j))" for e
      using p(3,4) len b that by fastforce
    obtain x where "x \<in> set (snd (bs ! j))" using table_indexed(2) [OF t j] by (meson list.set_sel(1))
    then have "FilterBlock_KeyMayMatch (bh_offset ?h) k flt \<noteq> None" using m filter_defined by (metis option.discI)
    moreover have "FilterBlock_KeyMayMatch (bh_offset ?h) k flt = Some True" if "e \<in> set (snd (bs ! j))" "sim k (fst e)"
      using m [OF that(1)] filter_key_swap [of p k "fst e"] sim_filter [OF p(1) that(2)] by (simp add: p(2))
    ultimately show ?thesis by (auto simp: filter_denies_def Some d)
  qed (simp add: filter_denies_def)
  then show "filter_denies t (BlockHandle_EncodeTo ?h []) k \<noteq> None"
    "e \<in> set (snd (bs ! j)) \<Longrightarrow> sim k (fst e) \<Longrightarrow> filter_denies t (BlockHandle_EncodeTo ?h []) k = Some False" by blast+
qed

definition found :: "entry list \<Rightarrow> slice \<Rightarrow> entry option \<Rightarrow> bool" where
  "found es k res \<longleftrightarrow>
     (\<forall>e. res = Some e \<longrightarrow> first_from (Compare c) es k < length es \<and> e = es ! first_from (Compare c) es k)
     \<and> (first_from (Compare c) es k < length es \<longrightarrow> sim k (fst (es ! first_from (Compare c) es k)) \<longrightarrow>
          res = Some (es ! first_from (Compare c) es k))"

lemma get_table:
  assumes t: "table_in (content f) es bs idx" and o: "opened f bs idx t" and len: "length (content f) < 2 ^ 32"
    and small: "total_size es < 2 ^ 30" and k: "valid k"
  shows "\<exists>res. InternalGet rops snappy verify k t = Some (OK, res) \<and> found es k res"
proof -
  have len64: "length (content f) < 2 ^ 64" using len by simp
  have li: "length idx = length bs" and es: "es = concat (map snd bs)" using t by (simp_all add: table_in_def)
  note d = data_entry_iterator [OF key_preorder_axioms]
  define j where "j = first_from (Compare c) idx k"
  define iiter where "iiter = i_Seek data_Iterator k (new_data_iter (opt_comparator (t_options t)) (t_index_block t))"
  have at: "data_at c valid idx (pos_from j idx) iiter"
    using entry_iterator.at_Seek [OF d index_at [OF t o small index_increasing [OF t]] k] by (simp add: iiter_def j_def)
  note g = data_at_good [OF at] entry_iterator.at_Valid [OF d at] entry_iterator.at_status [OF d at]
  show ?thesis
  proof (cases "j < length bs")
    case False
    then have "j = length bs" using first_from_le [of "Compare c" idx k] by (simp add: j_def li)
    then have "first_from (Compare c) es k = length es" using search_block(1) [OF t o len64 small k] by (simp add: j_def)
    then have "found es k None" by (simp add: found_def)
    moreover have "InternalGet rops snappy verify k t = Some (OK, None)"
      using g False by (simp add: InternalGet_def iiter_def [symmetric] Let_def pos_from_def li)
    ultimately show ?thesis by blast
  next
    case True
    let ?B = "snd (bs ! j)" and ?h = "BlockHandle_EncodeTo (fst (bs ! j)) []"
    let ?m = "first_from (Compare c) ?B k" and ?i = "first_from (Compare c) es k"
    have b: "bs ! j \<in> set bs" using True by simp
    have v: "i_value data_Iterator iiter = ?h"
      using entry_iterator.at_value [OF d, of idx j iiter] at True table_indexed(1) [OF t True]
      by (simp add: pos_from_def li index_entry_def)
    have valid: "i_Valid data_Iterator iiter" using g(2) True by (simp add: pos_from_def li)
    note inside = search_inside [OF t o len64 small k refl _ _ j_def [symmetric]]
    obtain denied where dn: "filter_denies t ?h k = Some denied" using filter_answers(1) [OF t o len True] by blast
    show ?thesis
    proof (cases denied)
      case den: True
      have "\<not> sim k (fst (es ! ?i))" if "?i < length es"
      proof
        assume s: "sim k (fst (es ! ?i))"
        from inside [OF that s] have "es ! ?i \<in> set ?B" by simp
        from filter_answers(2) [OF t o len True this s] show False using dn den by simp
      qed
      then have "found es k None" by (simp add: found_def)
      moreover have "InternalGet rops snappy verify k t = Some (OK, None)"
        using g valid dn den by (simp add: InternalGet_def iiter_def [symmetric] v Let_def)
      ultimately show ?thesis by blast
    next
      case den: False
      define biter where "biter = i_Seek data_Iterator k (BlockReader rops snappy verify t ?h)"
      have bat: "data_at c valid ?B (pos_from ?m ?B) biter"
        using entry_iterator.at_Seek [OF d reads_block [OF t o len64 small b] k] by (simp add: biter_def)
      note bg = data_at_good [OF bat] entry_iterator.at_Valid [OF d bat] entry_iterator.at_status [OF d bat]
      let ?res = "if i_Valid data_Iterator biter then Some (i_key data_Iterator biter, i_value data_Iterator biter) else None"
      have get: "InternalGet rops snappy verify k t = Some (OK, ?res)"
        using g valid dn den bg by (simp add: InternalGet_def iiter_def [symmetric] v biter_def [symmetric] Let_def)
      have res: "?res = map_option (nth ?B) (pos_from ?m ?B)"
        using entry_iterator.at_looks [OF d bat] by (simp add: look_def)
      have hit: "?i < length es \<and> es ! ?i = ?B ! ?m" if m: "?m < length ?B"
      proof -
        have i: "?i = length (concat (map snd (take j bs))) + ?m"
          using search_block(2) [OF t o len64 small k] True by (simp add: j_def)
        have split: "es = concat (map snd (take j bs)) @ ?B @ concat (map snd (drop (Suc j) bs))"
          unfolding es by (subst id_take_nth_drop [OF True]) simp
        have "es ! ?i = ?B ! ?m \<and> length (concat (map snd (take j bs))) + ?m < length es"
          unfolding i by (subst (1 2) split) (simp add: nth_append m trans_less_add1)
        then show ?thesis by (simp add: i)
      qed
      have "found es k (map_option (nth ?B) (pos_from ?m ?B))"
      proof (cases "?m < length ?B")
        case m: True
        then show ?thesis using hit [OF m] by (simp add: found_def pos_from_def)
      next
        case m: False
        then have "\<not> sim k (fst (es ! ?i))" if "?i < length es" using inside [OF that] by blast
        then show ?thesis using m by (simp add: found_def pos_from_def)
      qed
      then show ?thesis using get unfolding res by blast
    qed
  qed
qed

end

section \<open>Short keys\<close>

lemma length_bytewise_separator: "length (bytewise_separator a b) \<le> length a"
  by (auto simp: bytewise_separator_def Let_def split: if_splits)

interpretation short_bytewise: short_comparator BytewiseComparator "\<lambda>_. True"
proof
  have "length (bytewise_successor a) \<le> length a" for a by (induction a) auto
  then show "length (FindShortSuccessor BytewiseComparator a) \<le> length a" for a by (simp add: BytewiseComparator_def)
qed (simp add: BytewiseComparator_def length_bytewise_separator)

lemma internal_short:
  assumes "comparator c valid"
  shows "short_comparator (InternalKeyComparator c) (valid_ikey valid)"
proof -
  have "length (internal_separator c a b) \<le> length a" "length (internal_successor c a) \<le> length a"
    if "valid_ikey valid a" for a b
    using that by (auto simp: internal_separator_def internal_successor_def Let_def PutFixed64_def ExtractUserKey_def valid_ikey_def)
  then show ?thesis using comparator.internal_comparator [OF assms]
    by (simp add: short_comparator_def short_comparator_axioms_def InternalKeyComparator_def)
qed

interpretation short_internal: short_comparator "InternalKeyComparator BytewiseComparator" "valid_ikey (\<lambda>_. True)"
  by (rule internal_short [OF bytewise.comparator_axioms])

section \<open>Tables of any keys, and of internal keys\<close>

text \<open>The options for which tables are correct.\<close>

definition options_ok :: "Options \<Rightarrow> bool" where
  "options_ok opt \<longleftrightarrow> 0 < opt_block_restart_interval opt
     \<and> (\<forall>p. opt_filter_policy opt = Some p \<longrightarrow> filter_policy p \<and> length (policy_Name p) < 2 ^ 31)"

lemma plain_table_writing:
  assumes "table_file wops rops content" and "snappy_codec snappy" and "short_comparator c valid"
    and "options_ok opt" and "opt_comparator opt = c"
  shows "table_writing wops rops content snappy c valid opt (=)"
proof -
  have "comparator c valid" using assms(3) by (simp add: short_comparator_def)
  then show ?thesis using assms comparator.separator [of c valid]
    by (auto simp: table_writing_def table_writing_axioms_def options_ok_def)
qed

abbreviation same_user_key :: "slice \<Rightarrow> slice \<Rightarrow> bool" where
  "same_user_key a b \<equiv> ExtractUserKey a = ExtractUserKey b"

context comparator
begin

lemma internal_separator_near:
  assumes s: "valid_ikey valid start" and l: "valid_ikey valid limit"
    and k: "same_user_key k limit" and less: "internal_compare c start k < 0"
  shows "internal_compare c (internal_separator c start limit) k < 0"
proof -
  let ?us = "ExtractUserKey start" and ?ul = "ExtractUserKey limit"
  let ?tmp = "FindShortestSeparator c ?us ?ul"
  show ?thesis
  proof (cases "length ?tmp < length ?us \<and> Compare c ?us ?tmp < 0")
    case True
    then have "?tmp \<noteq> ?us" by auto
    then have lt: "Compare c ?us ?ul < 0" using separator_keeps [of ?us ?ul] s l by (auto simp: valid_ikey_def)
    then have "Compare c ?tmp ?ul < 0" using separator [of ?us ?ul] s l by (auto simp: valid_ikey_def)
    with True k show ?thesis by (simp add: internal_separator_def Let_def internal_compare_less)
  next
    case False
    then have "internal_separator c start limit = start" by (auto simp: internal_separator_def Let_def)
    with less show ?thesis by simp
  qed
qed

lemma internal_table_writing:
  assumes "table_file wops rops content" and "snappy_codec snappy" and o: "options_ok opt"
    and "opt_comparator opt = InternalKeyComparator c" and p: "opt_filter_policy opt = map_option InternalFilterPolicy p"
  shows "table_writing wops rops content snappy (InternalKeyComparator c) (valid_ikey valid) opt same_user_key"
proof -
  have near: "Compare (InternalKeyComparator c) (FindShortestSeparator (InternalKeyComparator c) a b) k < 0"
    if "valid_ikey valid a" "valid_ikey valid b" "same_user_key k b" "Compare (InternalKeyComparator c) a k < 0" for a b k
    using internal_separator_near [OF that(1-3)] that(4) by (simp add: InternalKeyComparator_def)
  have flt: "KeyMayMatch q k flt = KeyMayMatch q k' flt" if "opt_filter_policy opt = Some q" "same_user_key k k'" for q k k' flt
    using that p by (auto simp: InternalFilterPolicy_def)
  have "table_writing_axioms (InternalKeyComparator c) (valid_ikey valid) opt same_user_key"
  proof (rule table_writing_axioms.intro)
    show "Compare (InternalKeyComparator c) (FindShortestSeparator (InternalKeyComparator c) a b) k < 0"
      if "valid_ikey valid a" "valid_ikey valid b" "same_user_key k b" "Compare (InternalKeyComparator c) a k < 0" for a b k
      by (rule near [OF that])
    show "KeyMayMatch q k flt = KeyMayMatch q k' flt" if "opt_filter_policy opt = Some q" "same_user_key k k'" for q k k' flt
      by (rule flt [OF that])
  qed (use o assms(4) in \<open>simp_all add: options_ok_def\<close>)
  then show ?thesis
    using assms(1,2) internal_short [OF comparator_axioms] by (simp add: table_writing_def)
qed

end

section \<open>Examples\<close>

definition sample_options :: "Comparator \<Rightarrow> FilterPolicy option \<Rightarrow> Options" where
  "sample_options c p = \<lparr>opt_comparator = c, opt_paranoid_checks = True, opt_block_size = 30, opt_block_restart_interval = 2,
     opt_compression = kSnappyCompression, opt_filter_policy = p\<rparr>"

lemma sample_options_ok:
  "options_ok (sample_options c None)"
  "options_ok (sample_options c (Some (InternalFilterPolicy (the (NewBloomFilterPolicy (uint (10 :: 31 word)))))))"
proof -
  have "length (policy_Name (InternalFilterPolicy (the (NewBloomFilterPolicy (uint (10 :: 31 word)))))) < 2 ^ 31"
    by (simp add: InternalFilterPolicy_def NewBloomFilterPolicy_def make_BloomFilterPolicy_def Let_def)
  then show "options_ok (sample_options c None)"
    "options_ok (sample_options c (Some (InternalFilterPolicy (the (NewBloomFilterPolicy (uint (10 :: 31 word)))))))"
    using internal_bloom.filter_policy_axioms [of 10] by (simp_all add: options_ok_def sample_options_def)
qed

interpretation memory_table: table_writing memory_WritableFile memory_RandomAccessFile id no_snappy
  "InternalKeyComparator BytewiseComparator" "valid_ikey (\<lambda>_. True)"
  "sample_options (InternalKeyComparator BytewiseComparator)
     (Some (InternalFilterPolicy (the (NewBloomFilterPolicy (uint (10 :: 31 word))))))" same_user_key
  by (rule bytewise.internal_table_writing [OF memory_file.table_file_axioms no_snappy.snappy_codec_axioms sample_options_ok(2),
        where p = "Some (the (NewBloomFilterPolicy (uint (10 :: 31 word))))"])
    (simp_all add: sample_options_def)

text \<open>Tables of internal keys, as a lookup and an iterator see them.\<close>

definition looked_up :: "Comparator \<Rightarrow> entry list \<Rightarrow> slice \<Rightarrow> entry option \<Rightarrow> bool" where
  "looked_up c es k res \<longleftrightarrow>
     (let i = first_from (internal_compare c) es k
      in case res of
           Some e \<Rightarrow> i < length es \<and> e = es ! i
         | None \<Rightarrow> i < length es \<longrightarrow> \<not> same_user_key (fst (es ! i)) k)"

lemma internal_table_built:
  assumes "table_file wops rops content" and "snappy_codec snappy" and c: "comparator c valid"
    and "options_ok opt" and "opt_comparator opt = InternalKeyComparator c"
    and "opt_filter_policy opt = map_option InternalFilterPolicy p" and f: "content f = []"
    and es: "key_preorder.increasing (internal_compare c) (valid_ikey valid) (map fst es)" "total_size es < 2 ^ 30"
  shows "\<exists>r. table_build wops snappy opt es f = Some (OK, r) \<and> (opt_filter_policy opt = None \<longrightarrow> length (content (tb_file r)) < 2 ^ 32)
    \<and> (length (content (tb_file r)) < 2 ^ 32 \<longrightarrow> (\<exists>t. Table_Open rops snappy opt (tb_file r) (FileSize r) = Some (OK, Some t)
        \<and> (\<forall>verify k. valid_ikey valid k \<longrightarrow> (\<exists>res. InternalGet rops snappy verify k t = Some (OK, res) \<and> looked_up c es k res))))"
proof -
  let ?ic = "InternalKeyComparator c" and ?v = "valid_ikey valid"
  have cmp: "Compare ?ic = internal_compare c" by (simp add: InternalKeyComparator_def)
  note w = comparator.internal_table_writing [OF c assms(1,2,4-6)]
  note es' = es(1) [folded cmp] es(2)
  from table_writing.table_build_table [OF w f es'] obtain r bs idx where
    r: "table_build wops snappy opt es f = Some (OK, r)" "table_writing.sound content opt r"
    "table_writing.table_in snappy ?ic ?v opt same_user_key (content (tb_file r)) es bs idx"
    "opt_filter_policy opt = None \<longrightarrow> length (content (tb_file r)) < 2 ^ 32" by (elim exE conjE) (rule that)
  have sz: "FileSize r = of_nat (length (content (tb_file r)))"
    using r(2) by (simp add: FileSize_def table_writing.sound_def [OF w])
  have "\<exists>t. Table_Open rops snappy opt (tb_file r) (FileSize r) = Some (OK, Some t)
      \<and> (\<forall>verify k. ?v k \<longrightarrow> (\<exists>res. InternalGet rops snappy verify k t = Some (OK, res) \<and> looked_up c es k res))"
    if len: "length (content (tb_file r)) < 2 ^ 32"
  proof -
    have "length (content (tb_file r)) < 2 ^ 64" using len by simp
    from table_writing.open_table [OF w r(3) this] obtain t where
      t: "Table_Open rops snappy opt (tb_file r) (FileSize r) = Some (OK, Some t)"
      "table_writing.opened content opt (tb_file r) bs idx t" by (auto simp: sz)
    have "\<exists>res. InternalGet rops snappy verify k t = Some (OK, res) \<and> looked_up c es k res" if k: "?v k" for verify k
    proof -
      from table_writing.get_table [OF w r(3) t(2) len es(2) k] obtain res where
        res: "InternalGet rops snappy verify k t = Some (OK, res)" "table_writing.found ?ic same_user_key es k res" by blast
      have "looked_up c es k res"
        using res(2) by (auto simp: table_writing.found_def [OF w] cmp looked_up_def Let_def split: option.split)
      with res(1) show ?thesis by blast
    qed
    with t(1) show ?thesis by (intro exI [of _ t]) simp
  qed
  with r(1,4) show ?thesis by (intro exI [of _ r]) simp
qed

section \<open>Properties\<close>

text \<open>C2: a table that a \<open>TableBuilder\<close> has written from entries in increasing order opens
  again, with or without a filter and a compressor, and its iterator, a two-level iterator over the
  index and the data blocks, shows a client exactly these entries, whatever sequence of calls it
  makes. The file keeps what is appended and reads it back; with a filter it must stay shorter than
  \<open>2^64\<close> bytes, without one it does.\<close>

theorem table_round_trip:
  assumes "table_file wops rops content" and "snappy_codec snappy" and "short_comparator c valid"
    and "options_ok opt" and "opt_comparator opt = c" and f: "content f = []"
    and es: "key_preorder.increasing (Compare c) valid (map fst es)" "total_size es < 2 ^ 30"
    and cs: "\<forall>cl \<in> set cs. call_valid valid cl"
  shows "\<exists>r. table_build wops snappy opt es f = Some (OK, r)
    \<and> (opt_filter_policy opt = None \<or> length (content (tb_file r)) < 2 ^ 64 \<longrightarrow>
        (\<exists>t. Table_Open rops snappy opt (tb_file r) (FileSize r) = Some (OK, Some t)
          \<and> iter_trace (two_level_Iterator (table_levels rops snappy verify t)) cs (Table_NewIterator rops snappy verify t)
            = list_trace (Compare c) es cs None))"
proof -
  note w = plain_table_writing [OF assms(1-5)]
  from table_writing.table_build_table [OF w f es] obtain r bs idx where
    r: "table_build wops snappy opt es f = Some (OK, r)" "table_writing.sound content opt r"
    "table_writing.table_in snappy c valid opt (=) (content (tb_file r)) es bs idx"
    "opt_filter_policy opt = None \<longrightarrow> length (content (tb_file r)) < 2 ^ 32" by (elim exE conjE) (rule that)
  have sz: "FileSize r = of_nat (length (content (tb_file r)))"
    using r(2) by (simp add: FileSize_def table_writing.sound_def [OF w])
  have "\<exists>t. Table_Open rops snappy opt (tb_file r) (FileSize r) = Some (OK, Some t)
      \<and> iter_trace (two_level_Iterator (table_levels rops snappy verify t)) cs (Table_NewIterator rops snappy verify t)
        = list_trace (Compare c) es cs None"
    if "opt_filter_policy opt = None \<or> length (content (tb_file r)) < 2 ^ 64"
  proof -
    from that have len: "length (content (tb_file r)) < 2 ^ 64" using r(4) by auto
    from table_writing.open_table [OF w r(3) len] obtain t where
      t: "Table_Open rops snappy opt (tb_file r) (FileSize r) = Some (OK, Some t)"
      "table_writing.opened content opt (tb_file r) bs idx t" by (auto simp: sz)
    note i = table_writing.table_iterator [OF w r(3) t(2) len es(2), of verify]
    from entry_iterator.trace [OF i cs] show ?thesis using t(1) by blast
  qed
  with r(1) show ?thesis by blast
qed

theorem table_round_trip_witness:
  "\<exists>r. table_build memory_WritableFile no_snappy (sample_options BytewiseComparator None) [([1], [2]), ([1, 7], []), ([3], [4])] []
       = Some (OK, r)
     \<and> (\<exists>t. Table_Open memory_RandomAccessFile no_snappy (sample_options BytewiseComparator None) (tb_file r) (FileSize r)
             = Some (OK, Some t)
         \<and> iter_trace (two_level_Iterator (table_levels memory_RandomAccessFile no_snappy True t)) [CLast, CPrev, CSeek [2], CNext]
              (Table_NewIterator memory_RandomAccessFile no_snappy True t)
            = [Some ([3], [4]), Some ([1, 7], []), Some ([3], [4]), None])"
proof -
  let ?es = "[([1], [2]), ([1, 7], []), ([3], [4])] :: entry list" and ?cs = "[CLast, CPrev, CSeek [2], CNext]"
  have "list_trace (Compare BytewiseComparator) ?es ?cs None = [Some ([3], [4]), Some ([1, 7], []), Some ([3], [4]), None]"
    by code_simp
  moreover have "bytewise.increasing (map fst ?es)" unfolding bytewise.increasing_def by (simp add: BytewiseComparator_def)
  moreover have "total_size ?es < 2 ^ 30" by simp
  ultimately show ?thesis
    using table_round_trip [OF memory_file.table_file_axioms no_snappy.snappy_codec_axioms short_bytewise.short_comparator_axioms
        sample_options_ok(1), of BytewiseComparator "[]" ?es ?cs True]
    by (simp add: sample_options_def del: iter_trace.simps list_trace.simps)
qed

text \<open>C7: a table of internal keys, with a filter of user keys or none. A lookup of an
  internal key succeeds and returns nothing, or the first entry that is not below the key; if that
  entry has the user key that is looked up, the lookup returns it: the filter never hides it, and the
  index key of the block before does not lead astray. With a filter the file must be shorter than \<open>2^32\<close> bytes.\<close>

theorem table_get:
  assumes "table_file wops rops content" and "snappy_codec snappy" and c: "comparator c valid"
    and "options_ok opt" and "opt_comparator opt = InternalKeyComparator c"
    and "opt_filter_policy opt = map_option InternalFilterPolicy p" and f: "content f = []"
    and es: "key_preorder.increasing (internal_compare c) (valid_ikey valid) (map fst es)" "total_size es < 2 ^ 30"
    and k: "valid_ikey valid k"
  shows "\<exists>r. table_build wops snappy opt es f = Some (OK, r)
    \<and> (opt_filter_policy opt = None \<or> length (content (tb_file r)) < 2 ^ 32 \<longrightarrow>
        (\<exists>t res. Table_Open rops snappy opt (tb_file r) (FileSize r) = Some (OK, Some t)
          \<and> InternalGet rops snappy verify k t = Some (OK, res)
          \<and> (let i = first_from (internal_compare c) es k
             in case res of
                  Some e \<Rightarrow> i < length es \<and> e = es ! i
                | None \<Rightarrow> i < length es \<longrightarrow> \<not> same_user_key (fst (es ! i)) k)))"
proof -
  from internal_table_built [OF assms(1-9)] obtain r where r: "table_build wops snappy opt es f = Some (OK, r)"
    "opt_filter_policy opt = None \<longrightarrow> length (content (tb_file r)) < 2 ^ 32"
    "length (content (tb_file r)) < 2 ^ 32 \<longrightarrow> (\<exists>t. Table_Open rops snappy opt (tb_file r) (FileSize r) = Some (OK, Some t)
        \<and> (\<forall>verify k. valid_ikey valid k \<longrightarrow> (\<exists>res. InternalGet rops snappy verify k t = Some (OK, res) \<and> looked_up c es k res)))"
    by (elim exE conjE) (rule that)
  then show ?thesis using k unfolding looked_up_def by metis
qed

theorem table_get_witness:
  "\<exists>r. table_build memory_WritableFile no_snappy (sample_options (InternalKeyComparator BytewiseComparator) None)
        [([97, 1, 5, 0, 0, 0, 0, 0, 0], [1]), ([97, 1, 3, 0, 0, 0, 0, 0, 0], [2]), ([99, 1, 4, 0, 0, 0, 0, 0, 0], [3])] []
       = Some (OK, r)
     \<and> (\<exists>t. Table_Open memory_RandomAccessFile no_snappy (sample_options (InternalKeyComparator BytewiseComparator) None)
               (tb_file r) (FileSize r) = Some (OK, Some t)
         \<and> InternalGet memory_RandomAccessFile no_snappy True [97, 1, 4, 0, 0, 0, 0, 0, 0] t
           = Some (OK, Some ([97, 1, 3, 0, 0, 0, 0, 0, 0], [2])))"
proof -
  let ?es = "[([97, 1, 5, 0, 0, 0, 0, 0, 0], [1]), ([97, 1, 3, 0, 0, 0, 0, 0, 0], [2]), ([99, 1, 4, 0, 0, 0, 0, 0, 0], [3])] :: entry list"
  let ?k = "[97, 1, 4, 0, 0, 0, 0, 0, 0] :: slice"
  have "first_from (internal_compare BytewiseComparator) ?es ?k = 1" by code_simp
  moreover have "same_user_key (fst (?es ! 1)) ?k" by (simp add: ExtractUserKey_def)
  moreover have "key_preorder.increasing (internal_compare BytewiseComparator) (valid_ikey (\<lambda>_. True)) (map fst ?es)"
    unfolding key_preorder.increasing_def [OF internal_bytewise.key_preorder_axioms, unfolded InternalKeyComparator_def, simplified]
    by code_simp
  moreover have "total_size ?es < 2 ^ 30" "valid_ikey (\<lambda>_. True) ?k" by (simp_all add: valid_ikey_def)
  ultimately show ?thesis
    using table_get [OF memory_file.table_file_axioms no_snappy.snappy_codec_axioms bytewise.comparator_axioms
        sample_options_ok(1), of "InternalKeyComparator BytewiseComparator" None "[]" ?es ?k True]
    by (fastforce simp: sample_options_def Let_def split: option.splits)
qed

end
