(* ===== verification/Ldb_VersionEdit.thy ===== *)
theory Ldb_VersionEdit
  imports Ldb_Codec Ldb_Keys Ldb_Status
begin

text \<open>
  LevelDB: the record of a change of the set of tables (\<open>db/version_edit.h\<close>, \<open>db/version_edit.cc\<close>),
  which is written to the descriptor log. An \<open>InternalKey\<close> is its string; levels are not negative.
\<close>

record FileMetaData =
  f_refs :: int
  f_allowed_seeks :: int
  f_number :: uint64
  f_file_size :: uint64
  f_smallest :: slice
  f_largest :: slice

text \<open>The constructor leaves the number undefined; it is set before it is read.\<close>

definition make_FileMetaData :: FileMetaData where
  "make_FileMetaData =
     \<lparr>f_refs = 0, f_allowed_seeks = 2 ^ 30, f_number = 0, f_file_size = 0, f_smallest = [], f_largest = []\<rparr>"

record VersionEdit =
  ve_comparator :: "byte list"
  ve_log_number :: uint64
  ve_prev_log_number :: uint64
  ve_next_file_number :: uint64
  ve_last_sequence :: SequenceNumber
  has_comparator :: bool
  has_log_number :: bool
  has_prev_log_number :: bool
  has_next_file_number :: bool
  has_last_sequence :: bool
  ve_compact_pointers :: "(nat \<times> slice) list"
  ve_deleted_files :: "(nat \<times> uint64) list"
  ve_new_files :: "(nat \<times> FileMetaData) list"

text \<open>\<open>Clear\<close> does not touch the compaction pointers.\<close>

definition VersionEdit_Clear :: "VersionEdit \<Rightarrow> VersionEdit" where
  "VersionEdit_Clear e =
     e\<lparr>ve_comparator := [], ve_log_number := 0, ve_prev_log_number := 0, ve_last_sequence := 0, ve_next_file_number := 0,
       has_comparator := False, has_log_number := False, has_prev_log_number := False, has_next_file_number := False,
       has_last_sequence := False, ve_deleted_files := [], ve_new_files := []\<rparr>"

definition make_VersionEdit :: VersionEdit where
  "make_VersionEdit =
     \<lparr>ve_comparator = [], ve_log_number = 0, ve_prev_log_number = 0, ve_next_file_number = 0, ve_last_sequence = 0,
      has_comparator = False, has_log_number = False, has_prev_log_number = False, has_next_file_number = False,
      has_last_sequence = False, ve_compact_pointers = [], ve_deleted_files = [], ve_new_files = []\<rparr>"

section \<open>Changes\<close>

definition SetComparatorName :: "slice \<Rightarrow> VersionEdit \<Rightarrow> VersionEdit" where
  "SetComparatorName name e = e\<lparr>has_comparator := True, ve_comparator := name\<rparr>"

definition SetLogNumber :: "uint64 \<Rightarrow> VersionEdit \<Rightarrow> VersionEdit" where
  "SetLogNumber num e = e\<lparr>has_log_number := True, ve_log_number := num\<rparr>"

definition SetPrevLogNumber :: "uint64 \<Rightarrow> VersionEdit \<Rightarrow> VersionEdit" where
  "SetPrevLogNumber num e = e\<lparr>has_prev_log_number := True, ve_prev_log_number := num\<rparr>"

definition SetNextFile :: "uint64 \<Rightarrow> VersionEdit \<Rightarrow> VersionEdit" where
  "SetNextFile num e = e\<lparr>has_next_file_number := True, ve_next_file_number := num\<rparr>"

definition SetLastSequence :: "SequenceNumber \<Rightarrow> VersionEdit \<Rightarrow> VersionEdit" where
  "SetLastSequence seq e = e\<lparr>has_last_sequence := True, ve_last_sequence := seq\<rparr>"

definition SetCompactPointer :: "nat \<Rightarrow> slice \<Rightarrow> VersionEdit \<Rightarrow> VersionEdit" where
  "SetCompactPointer level key e = e\<lparr>ve_compact_pointers := ve_compact_pointers e @ [(level, key)]\<rparr>"

definition AddFile :: "nat \<Rightarrow> uint64 \<Rightarrow> uint64 \<Rightarrow> slice \<Rightarrow> slice \<Rightarrow> VersionEdit \<Rightarrow> VersionEdit" where
  "AddFile level num sz smallest largest e =
     (let f = make_FileMetaData\<lparr>f_number := num, f_file_size := sz, f_smallest := smallest, f_largest := largest\<rparr>
      in e\<lparr>ve_new_files := ve_new_files e @ [(level, f)]\<rparr>)"

text \<open>The set of deleted files is a \<open>std::set\<close> of pairs: a list in lexicographic order without duplicates.\<close>

definition file_less :: "nat \<times> uint64 \<Rightarrow> nat \<times> uint64 \<Rightarrow> bool" where
  "file_less a b \<longleftrightarrow> fst a < fst b \<or> fst a = fst b \<and> snd a < snd b"

fun set_insert :: "nat \<times> uint64 \<Rightarrow> (nat \<times> uint64) list \<Rightarrow> (nat \<times> uint64) list" where
  "set_insert x [] = [x]"
| "set_insert x (y # ys) = (if file_less x y then x # y # ys else if file_less y x then y # set_insert x ys else y # ys)"

definition DeleteFile :: "nat \<Rightarrow> uint64 \<Rightarrow> VersionEdit \<Rightarrow> VersionEdit" where
  "DeleteFile level num e = e\<lparr>ve_deleted_files := set_insert (level, num) (ve_deleted_files e)\<rparr>"

section \<open>Encoding\<close>

datatype Tag = kComparator | kLogNumber | kNextFileNumber | kLastSequence | kCompactPointer | kDeletedFile | kNewFile
  | kPrevLogNumber

fun Tag_code :: "Tag \<Rightarrow> uint32" where
  "Tag_code kComparator = 1"
| "Tag_code kLogNumber = 2"
| "Tag_code kNextFileNumber = 3"
| "Tag_code kLastSequence = 4"
| "Tag_code kCompactPointer = 5"
| "Tag_code kDeletedFile = 6"
| "Tag_code kNewFile = 7"
| "Tag_code kPrevLogNumber = 9"

definition encode_number :: "bool \<Rightarrow> Tag \<Rightarrow> uint64 \<Rightarrow> byte list \<Rightarrow> byte list" where
  "encode_number has t v dst = (if has then PutVarint64 (PutVarint32 dst (Tag_code t)) v else dst)"

definition encode_compact_pointer :: "nat \<times> slice \<Rightarrow> byte list \<Rightarrow> byte list" where
  "encode_compact_pointer p dst =
     PutLengthPrefixedSlice (PutVarint32 (PutVarint32 dst (Tag_code kCompactPointer)) (of_nat (fst p))) (snd p)"

definition encode_deleted_file :: "nat \<times> uint64 \<Rightarrow> byte list \<Rightarrow> byte list" where
  "encode_deleted_file p dst = PutVarint64 (PutVarint32 (PutVarint32 dst (Tag_code kDeletedFile)) (of_nat (fst p))) (snd p)"

definition encode_new_file :: "nat \<times> FileMetaData \<Rightarrow> byte list \<Rightarrow> byte list" where
  "encode_new_file p dst =
     (let f = snd p;
          dst = PutVarint32 (PutVarint32 dst (Tag_code kNewFile)) (of_nat (fst p));
          dst = PutVarint64 (PutVarint64 dst (f_number f)) (f_file_size f)
      in PutLengthPrefixedSlice (PutLengthPrefixedSlice dst (f_smallest f)) (f_largest f))"

text \<open>\<open>InternalKey::Encode\<close> asserts that the keys written are not empty; as in a build without assertions, an
  empty key is written like any other here, so that what is proved covers it as well.\<close>

definition VersionEdit_EncodeTo :: "VersionEdit \<Rightarrow> byte list \<Rightarrow> byte list" where
  "VersionEdit_EncodeTo e dst =
     (let dst = (if has_comparator e then PutLengthPrefixedSlice (PutVarint32 dst (Tag_code kComparator)) (ve_comparator e) else dst);
          dst = encode_number (has_log_number e) kLogNumber (ve_log_number e) dst;
          dst = encode_number (has_prev_log_number e) kPrevLogNumber (ve_prev_log_number e) dst;
          dst = encode_number (has_next_file_number e) kNextFileNumber (ve_next_file_number e) dst;
          dst = encode_number (has_last_sequence e) kLastSequence (ve_last_sequence e) dst;
          dst = fold encode_compact_pointer (ve_compact_pointers e) dst;
          dst = fold encode_deleted_file (ve_deleted_files e) dst
      in fold encode_new_file (ve_new_files e) dst)"

section \<open>Decoding\<close>

definition GetInternalKey :: "slice \<Rightarrow> (slice, slice) res" where
  "GetInternalKey input = GetLengthPrefixedSlice input"

definition GetLevel :: "slice \<Rightarrow> (slice, nat) res" where
  "GetLevel input = rbind (GetVarint32 input) (\<lambda>v input. if unat v < kNumLevels then Ret (unat v) input else Fail input)"

text \<open>One case of the \<open>switch\<close>: the edit is changed if the values can be read, otherwise \<open>msg\<close> is set.\<close>

definition read_or :: "string \<Rightarrow> (slice, 'a) res \<Rightarrow> ('a \<Rightarrow> VersionEdit \<Rightarrow> VersionEdit) \<Rightarrow> VersionEdit \<Rightarrow> string + VersionEdit \<times> slice" where
  "read_or msg r change e = (case r of Ret v input \<Rightarrow> Inr (change v e, input) | _ \<Rightarrow> Inl msg)"

definition decode_edit_field :: "uint32 \<Rightarrow> VersionEdit \<Rightarrow> slice \<Rightarrow> string + VersionEdit \<times> slice" where
  "decode_edit_field t e input =
     (if t = Tag_code kComparator then read_or ''comparator name'' (GetLengthPrefixedSlice input) SetComparatorName e
      else if t = Tag_code kLogNumber then read_or ''log number'' (GetVarint64 input) SetLogNumber e
      else if t = Tag_code kPrevLogNumber then read_or ''previous log number'' (GetVarint64 input) SetPrevLogNumber e
      else if t = Tag_code kNextFileNumber then read_or ''next file number'' (GetVarint64 input) SetNextFile e
      else if t = Tag_code kLastSequence then read_or ''last sequence number'' (GetVarint64 input) SetLastSequence e
      else if t = Tag_code kCompactPointer
      then read_or ''compaction pointer''
             (rbind (GetLevel input) (\<lambda>level input. rbind (GetInternalKey input) (\<lambda>key input. Ret (level, key) input)))
             (\<lambda>(level, key). SetCompactPointer level key) e
      else if t = Tag_code kDeletedFile
      then read_or ''deleted file''
             (rbind (GetLevel input) (\<lambda>level input. rbind (GetVarint64 input) (\<lambda>num input. Ret (level, num) input)))
             (\<lambda>(level, num). DeleteFile level num) e
      else if t = Tag_code kNewFile
      then read_or ''new-file entry''
             (rbind (GetLevel input) (\<lambda>level input. rbind (GetVarint64 input) (\<lambda>num input. rbind (GetVarint64 input) (\<lambda>sz input.
                rbind (GetInternalKey input) (\<lambda>smallest input. rbind (GetInternalKey input) (\<lambda>largest input.
                  Ret (level, num, sz, smallest, largest) input))))))
             (\<lambda>(level, num, sz, smallest, largest). AddFile level num sz smallest largest) e
      else Inl ''unknown tag'')"

text \<open>Reading leaves no more input than there was.\<close>

definition leaves :: "nat \<Rightarrow> (slice, 'a) res \<Rightarrow> bool" where
  "leaves n r \<longleftrightarrow> (\<forall>v rest. r = Ret v rest \<longrightarrow> length rest \<le> n)"

lemma leaves_get: "shortens get \<Longrightarrow> length input \<le> n \<Longrightarrow> leaves n (get input)"
  using shortens_Ret [of get input] by (auto simp: leaves_def dest!: less_imp_le [OF shortens_Ret])

lemmas leaves_gets = leaves_get [OF shortens_GetVarint32] leaves_get [OF shortens_GetVarint64]
  leaves_get [OF shortens_GetLengthPrefixedSlice]

lemma leaves_rbind: "leaves n r \<Longrightarrow> (\<And>v rest. length rest \<le> n \<Longrightarrow> leaves n (f v rest)) \<Longrightarrow> leaves n (rbind r f)"
  by (auto simp: leaves_def rbind_Ret_iff)

lemma leaves_Ret: "length rest \<le> n \<Longrightarrow> leaves n (Ret v rest)"
  by (simp add: leaves_def)

lemma leaves_GetLevel: "length input \<le> n \<Longrightarrow> leaves n (GetLevel input)"
  unfolding GetLevel_def by (rule leaves_rbind [OF leaves_gets(1)]) (simp_all add: leaves_def)

lemma read_or_leaves: "read_or msg r change e = Inr (e', rest) \<Longrightarrow> leaves n r \<Longrightarrow> length rest \<le> n"
  by (auto simp: read_or_def leaves_def split: res.splits)

lemma decode_edit_field_leaves:
  assumes "decode_edit_field t e input = Inr (e', rest)"
  shows "length rest \<le> length input"
  using assms unfolding decode_edit_field_def GetInternalKey_def
  by (auto split: if_splits elim!: read_or_leaves
      intro!: leaves_rbind leaves_Ret leaves_GetLevel leaves_gets simp del: Tag_code.simps)

text \<open>The loop, with the check for a tag that cannot be read; the message if there is an error.\<close>

function decode_edit_loop :: "VersionEdit \<Rightarrow> slice \<Rightarrow> string option \<times> VersionEdit" where
  "decode_edit_loop e input =
     (case GetVarint32 input of
        Ret t rest \<Rightarrow> (case decode_edit_field t e rest of Inl msg \<Rightarrow> (Some msg, e) | Inr (e', rest') \<Rightarrow> decode_edit_loop e' rest')
      | _ \<Rightarrow> (if input \<noteq> [] then Some ''invalid tag'' else None, e))"
  by pat_completeness auto
termination
  by (relation "measure (\<lambda>(e, input). length input)")
    (auto dest!: decode_edit_field_leaves shortens_Ret [OF shortens_GetVarint32])

declare decode_edit_loop.simps [simp del]

definition VersionEdit_DecodeFrom :: "slice \<Rightarrow> VersionEdit \<Rightarrow> Status \<times> VersionEdit" where
  "VersionEdit_DecodeFrom src e =
     (case decode_edit_loop (VersionEdit_Clear e) src of
        (None, e) \<Rightarrow> (OK, e)
      | (Some msg, e) \<Rightarrow> (make_Status kCorruption ''VersionEdit'' msg, e))"

end
