(* ===== verification/Ldb_Version.thy ===== *)
theory Ldb_Version
  imports Ldb_VersionEdit Ldb_TwoLevel
begin

text \<open>
  LevelDB: the set of tables of one version (\<open>class Version\<close> of \<open>db/version_set.cc\<close>) and searches in it.
  A \<open>FileMetaData*\<close> that is kept is the number of the file, which is unique in a version. The table
  cache is a parameter, with its state. The user's comparator stands for the internal comparator made
  from it. The reference counts and the list of versions only manage memory.
\<close>

record Version =
  v_files :: "FileMetaData list list"
  v_file_to_compact :: "uint64 option"
  v_file_to_compact_level :: int

definition make_Version :: Version where
  "make_Version = \<lparr>v_files = replicate kNumLevels [], v_file_to_compact = None, v_file_to_compact_level = - 1\<rparr>"

abbreviation files_at :: "Version \<Rightarrow> nat \<Rightarrow> FileMetaData list" where
  "files_at v level \<equiv> v_files v ! level"

section \<open>Sizes\<close>

definition MaxGrandParentOverlapBytes :: "uint64 \<Rightarrow> int" where
  "MaxGrandParentOverlapBytes max_file_size = sint (10 * max_file_size)"

definition TotalFileSize :: "FileMetaData list \<Rightarrow> int" where
  "TotalFileSize files = sint (sum_list (map f_file_size files))"

section \<open>Searching files\<close>

abbreviation user_smallest :: "FileMetaData \<Rightarrow> slice" where
  "user_smallest f \<equiv> ExtractUserKey (f_smallest f)"

abbreviation user_largest :: "FileMetaData \<Rightarrow> slice" where
  "user_largest f \<equiv> ExtractUserKey (f_largest f)"

text \<open>The bounds are 32-bit, and their sum wraps around, so the search need not end (\<open>None\<close>) when there are
  more than \<open>2^31\<close> files. The middle is below \<open>right\<close> in any case, hence a file of the list. The \<open>int\<close> returned is
  turned back into the same 32-bit index by every caller.\<close>

partial_function (option) find_file_loop :: "Comparator \<Rightarrow> FileMetaData list \<Rightarrow> slice \<Rightarrow> uint32 \<Rightarrow> uint32 \<Rightarrow> uint32 option" where
  "find_file_loop ucmp files key left right =
     (if left < right
      then (let mid = (left + right) div 2
            in if internal_compare ucmp (f_largest (files ! unat mid)) key < 0 then find_file_loop ucmp files key (mid + 1) right
               else find_file_loop ucmp files key left mid)
      else Some right)"

definition FindFile :: "Comparator \<Rightarrow> FileMetaData list \<Rightarrow> slice \<Rightarrow> uint32 option" where
  "FindFile ucmp files key = find_file_loop ucmp files key 0 (of_nat (length files))"

definition AfterFile :: "Comparator \<Rightarrow> slice option \<Rightarrow> FileMetaData \<Rightarrow> bool" where
  "AfterFile ucmp key f = (case key of None \<Rightarrow> False | Some k \<Rightarrow> 0 < Compare ucmp k (user_largest f))"

definition BeforeFile :: "Comparator \<Rightarrow> slice option \<Rightarrow> FileMetaData \<Rightarrow> bool" where
  "BeforeFile ucmp key f = (case key of None \<Rightarrow> False | Some k \<Rightarrow> Compare ucmp k (user_smallest f) < 0)"

text \<open>The first internal key of a user key.\<close>

definition seek_to :: "slice \<Rightarrow> slice" where
  "seek_to k = AppendInternalKey [] \<lparr>user_key = k, sequence = kMaxSequenceNumber, type = kValueTypeForSeek\<rparr>"

definition SomeFileOverlapsRange :: "Comparator \<Rightarrow> bool \<Rightarrow> FileMetaData list \<Rightarrow> slice option \<Rightarrow> slice option \<Rightarrow> bool option" where
  "SomeFileOverlapsRange ucmp disjoint_sorted_files files smallest_user_key largest_user_key =
     (if \<not> disjoint_sorted_files
      then Some (list_ex (\<lambda>f. \<not> (AfterFile ucmp smallest_user_key f \<or> BeforeFile ucmp largest_user_key f)) files)
      else (case (case smallest_user_key of None \<Rightarrow> Some 0 | Some k \<Rightarrow> FindFile ucmp files (seek_to k)) of
              None \<Rightarrow> None
            | Some index \<Rightarrow>
                if length files \<le> unat index then Some False
                else Some (\<not> BeforeFile ucmp largest_user_key (files ! unat index))))"

definition OverlapInLevel :: "Comparator \<Rightarrow> Version \<Rightarrow> nat \<Rightarrow> slice option \<Rightarrow> slice option \<Rightarrow> bool option" where
  "OverlapInLevel ucmp v level smallest_user_key largest_user_key =
     SomeFileOverlapsRange ucmp (0 < level) (files_at v level) smallest_user_key largest_user_key"

section \<open>The iterator of a level\<close>

record LevelFileNumIterator =
  lf_flist :: "FileMetaData list"
  lf_index :: uint32

definition make_LevelFileNumIterator :: "FileMetaData list \<Rightarrow> LevelFileNumIterator" where
  "make_LevelFileNumIterator flist = \<lparr>lf_flist = flist, lf_index = of_nat (length flist)\<rparr>"

definition level_Valid :: "LevelFileNumIterator \<Rightarrow> bool" where
  "level_Valid it \<longleftrightarrow> unat (lf_index it) < length (lf_flist it)"

definition level_Next :: "LevelFileNumIterator \<Rightarrow> LevelFileNumIterator option" where
  "level_Next it = (if level_Valid it then Some (it\<lparr>lf_index := lf_index it + 1\<rparr>) else None)"

definition level_Prev :: "LevelFileNumIterator \<Rightarrow> LevelFileNumIterator option" where
  "level_Prev it =
     (if level_Valid it
      then Some (it\<lparr>lf_index := (if lf_index it = 0 then of_nat (length (lf_flist it)) else lf_index it - 1)\<rparr>)
      else None)"

definition level_value :: "LevelFileNumIterator \<Rightarrow> slice" where
  "level_value it =
     (let f = lf_flist it ! unat (lf_index it) in EncodeFixed64 (f_number f) @ EncodeFixed64 (f_file_size f))"

text \<open>Through the interface; \<open>None\<close> is a call that has not returned or whose assertion has failed.\<close>

definition level_Iterator :: "Comparator \<Rightarrow> LevelFileNumIterator option Iterator" where
  "level_Iterator ucmp =
     \<lparr>i_Valid = (\<lambda>s. case s of None \<Rightarrow> False | Some it \<Rightarrow> level_Valid it),
      i_SeekToFirst = map_option (\<lambda>it. it\<lparr>lf_index := 0\<rparr>),
      i_SeekToLast = map_option (\<lambda>it. it\<lparr>lf_index := (if lf_flist it = [] then 0 else of_nat (length (lf_flist it) - 1))\<rparr>),
      i_Seek = (\<lambda>target s. Option.bind s (\<lambda>it. map_option (\<lambda>index. it\<lparr>lf_index := index\<rparr>) (FindFile ucmp (lf_flist it) target))),
      i_Next = (\<lambda>s. Option.bind s level_Next),
      i_Prev = (\<lambda>s. Option.bind s level_Prev),
      i_key = (\<lambda>s. case s of None \<Rightarrow> [] | Some it \<Rightarrow> f_largest (lf_flist it ! unat (lf_index it))),
      i_value = (\<lambda>s. case s of None \<Rightarrow> [] | Some it \<Rightarrow> level_value it),
      i_status = (\<lambda>s. OK)\<rparr>"

text \<open>The function that opens a file, given what the table cache and \<open>NewErrorIterator\<close> return.\<close>

definition GetFileIterator :: "(uint64 \<Rightarrow> uint64 \<Rightarrow> 's) \<Rightarrow> (Status \<Rightarrow> 's) \<Rightarrow> slice \<Rightarrow> 's" where
  "GetFileIterator cache_NewIterator error_iterator file_value =
     (if length file_value \<noteq> 16 then error_iterator (Corruption ''FileReader invoked with unexpected value'')
      else cache_NewIterator (DecodeFixed64 file_value) (DecodeFixed64 (drop 8 file_value)))"

section \<open>Lookups\<close>

datatype SaverState = SaverNotFound | SaverFound | SaverDeleted | SaverCorrupt

record Saver =
  sv_state :: SaverState
  sv_ucmp :: Comparator
  sv_user_key :: slice
  sv_value :: slice

definition SaveValue :: "slice \<Rightarrow> slice \<Rightarrow> Saver \<Rightarrow> Saver" where
  "SaveValue ikey v s =
     (case ParseInternalKey ikey of
        None \<Rightarrow> s\<lparr>sv_state := SaverCorrupt\<rparr>
      | Some parsed_key \<Rightarrow>
          if Compare (sv_ucmp s) (user_key parsed_key) (sv_user_key s) = 0
          then (if type parsed_key = kTypeValue then s\<lparr>sv_state := SaverFound, sv_value := v\<rparr>
                else s\<lparr>sv_state := SaverDeleted\<rparr>)
          else s)"

text \<open>The files of a level that a lookup has to search, newest first. No two files have the same
  number, so the order of \<open>std::sort\<close> is determined.\<close>

definition newest_first :: "FileMetaData list \<Rightarrow> FileMetaData list" where
  "newest_first files = sort_key (\<lambda>f. - uint (f_number f)) files"

definition level_candidates :: "Comparator \<Rightarrow> slice \<Rightarrow> slice \<Rightarrow> nat \<Rightarrow> FileMetaData list \<Rightarrow> FileMetaData list option" where
  "level_candidates ucmp ukey ikey level files =
     (if level = 0
      then (if length files < 2 ^ 32
            then Some (newest_first (filter (\<lambda>f. 0 \<le> Compare ucmp ukey (user_smallest f) \<and> Compare ucmp ukey (user_largest f) \<le> 0) files))
            else None)
      else (case FindFile ucmp files ikey of
              None \<Rightarrow> None
            | Some index \<Rightarrow>
                if length files \<le> unat index then Some []
                else if Compare ucmp ukey (user_smallest (files ! unat index)) < 0 then Some []
                else Some [files ! unat index]))"

text \<open>What the loops over the levels and over the files of a level visit, until they are left. A \<open>None\<close> stands
  for a level whose files are never found: the 32-bit counter of level 0 or the search does not end there.\<close>

definition candidates :: "Comparator \<Rightarrow> slice \<Rightarrow> slice \<Rightarrow> Version \<Rightarrow> (nat \<times> FileMetaData) option list" where
  "candidates ucmp ukey ikey v =
     concat (map (\<lambda>level. case level_candidates ucmp ukey ikey level (files_at v level) of
                            None \<Rightarrow> [None] | Some files \<Rightarrow> map (\<lambda>f. Some (level, f)) files) [0..<kNumLevels])"

record GetStats =
  gs_seek_file :: "uint64 option"
  gs_seek_file_level :: int

type_synonym 'c cache_get = "uint64 \<Rightarrow> uint64 \<Rightarrow> slice \<Rightarrow> 'c \<Rightarrow> (Status \<times> (slice \<times> slice) option \<times> 'c) option"

definition user_string :: "slice \<Rightarrow> string" where
  "user_string k = map (\<lambda>b. char_of (unat b)) k"

fun get_loop :: "'c cache_get \<Rightarrow> Comparator \<Rightarrow> slice \<Rightarrow> slice \<Rightarrow> (nat \<times> FileMetaData) option list \<Rightarrow> (nat \<times> FileMetaData) option
    \<Rightarrow> slice \<Rightarrow> GetStats \<Rightarrow> 'c \<Rightarrow> (Status \<times> slice \<times> GetStats \<times> 'c) option" where
  "get_loop cache_Get ucmp ukey ikey [] last_read val stats cache = Some (make_Status kNotFound [] [], val, stats, cache)"
| "get_loop cache_Get ucmp ukey ikey (None # fs) last_read val stats cache = None"
| "get_loop cache_Get ucmp ukey ikey (Some (level, f) # fs) last_read val stats cache =
     (let stats = (case last_read of
                     Some (l, g) \<Rightarrow> if gs_seek_file stats = None
                                  then \<lparr>gs_seek_file = Some (f_number g), gs_seek_file_level = int l\<rparr> else stats
                   | None \<Rightarrow> stats)
      in case cache_Get (f_number f) (f_file_size f) ikey cache of
           None \<Rightarrow> None
         | Some (s, result, cache) \<Rightarrow>
             (let saver = \<lparr>sv_state = SaverNotFound, sv_ucmp = ucmp, sv_user_key = ukey, sv_value = val\<rparr>;
                  saver = (case result of None \<Rightarrow> saver | Some (k, v) \<Rightarrow> SaveValue k v saver)
              in if s \<noteq> OK then Some (s, sv_value saver, stats, cache)
                 else (case sv_state saver of
                         SaverNotFound \<Rightarrow> get_loop cache_Get ucmp ukey ikey fs (Some (level, f)) (sv_value saver) stats cache
                       | SaverFound \<Rightarrow> Some (OK, sv_value saver, stats, cache)
                       | SaverDeleted \<Rightarrow> Some (make_Status kNotFound [] [], sv_value saver, stats, cache)
                       | SaverCorrupt \<Rightarrow>
                           Some (make_Status kCorruption ''corrupted key for '' (user_string ukey), sv_value saver, stats, cache))))"

definition Version_Get :: "'c cache_get \<Rightarrow> Comparator \<Rightarrow> Version \<Rightarrow> LookupKey \<Rightarrow> slice \<Rightarrow> 'c \<Rightarrow> (Status \<times> slice \<times> GetStats \<times> 'c) option" where
  "Version_Get cache_Get ucmp v k val cache =
     (let ikey = internal_key k; ukey = lookup_user_key k
      in get_loop cache_Get ucmp ukey ikey (candidates ucmp ukey ikey v) None val
           \<lparr>gs_seek_file = None, gs_seek_file_level = - 1\<rparr> cache)"

section \<open>Statistics\<close>

fun for_each :: "(nat \<Rightarrow> FileMetaData \<Rightarrow> 'a \<Rightarrow> bool \<times> 'a) \<Rightarrow> (nat \<times> FileMetaData) option list \<Rightarrow> 'a \<Rightarrow> 'a option" where
  "for_each func [] a = Some a"
| "for_each func (None # fs) a = None"
| "for_each func (Some (level, f) # fs) a = (case func level f a of (continue, a) \<Rightarrow> if continue then for_each func fs a else Some a)"

definition ForEachOverlapping ::
    "Comparator \<Rightarrow> Version \<Rightarrow> slice \<Rightarrow> slice \<Rightarrow> (nat \<Rightarrow> FileMetaData \<Rightarrow> 'a \<Rightarrow> bool \<times> 'a) \<Rightarrow> 'a \<Rightarrow> 'a option" where
  "ForEachOverlapping ucmp v ukey ikey func a = for_each func (candidates ucmp ukey ikey v) a"

definition UpdateStats :: "GetStats \<Rightarrow> Version \<Rightarrow> bool \<times> Version" where
  "UpdateStats stats v =
     (case gs_seek_file stats of
        None \<Rightarrow> (False, v)
      | Some num \<Rightarrow>
          (let v = v\<lparr>v_files := map (map (\<lambda>f. if f_number f = num then f\<lparr>f_allowed_seeks := f_allowed_seeks f - 1\<rparr> else f)) (v_files v)\<rparr>
           in if list_ex (\<lambda>f. f_number f = num \<and> f_allowed_seeks f \<le> 0) (concat (v_files v)) \<and> v_file_to_compact v = None
              then (True, v\<lparr>v_file_to_compact := Some num, v_file_to_compact_level := gs_seek_file_level stats\<rparr>)
              else (False, v)))"

definition sample_match :: "nat \<Rightarrow> FileMetaData \<Rightarrow> GetStats \<times> nat \<Rightarrow> bool \<times> GetStats \<times> nat" where
  "sample_match level f state =
     (case state of (stats, matches) \<Rightarrow>
        (let matches = matches + 1;
             stats = (if matches = 1 then \<lparr>gs_seek_file = Some (f_number f), gs_seek_file_level = int level\<rparr> else stats)
         in (matches < 2, stats, matches)))"

definition RecordReadSample :: "Comparator \<Rightarrow> slice \<Rightarrow> Version \<Rightarrow> (bool \<times> Version) option" where
  "RecordReadSample ucmp key v =
     (case ParseInternalKey key of
        None \<Rightarrow> Some (False, v)
      | Some ikey \<Rightarrow>
          (case ForEachOverlapping ucmp v (user_key ikey) key sample_match (\<lparr>gs_seek_file = None, gs_seek_file_level = - 1\<rparr>, 0) of
             None \<Rightarrow> None
           | Some (stats, matches) \<Rightarrow> if 2 \<le> matches then Some (UpdateStats stats v) else Some (False, v)))"

section \<open>Overlapping files\<close>

text \<open>The loop starts again when a file of level 0 has widened the range; \<open>None\<close> if it never ends.\<close>

partial_function (option) overlap_loop ::
    "Comparator \<Rightarrow> bool \<Rightarrow> FileMetaData list \<Rightarrow> nat \<Rightarrow> slice option \<Rightarrow> slice option \<Rightarrow> FileMetaData list \<Rightarrow> FileMetaData list option" where
  "overlap_loop ucmp level0 files i user_begin user_end inputs =
     (if i < length files
      then (let f = files ! i; file_start = user_smallest f; file_limit = user_largest f
            in if user_begin \<noteq> None \<and> Compare ucmp file_limit (the user_begin) < 0
               then overlap_loop ucmp level0 files (i + 1) user_begin user_end inputs
               else if user_end \<noteq> None \<and> 0 < Compare ucmp file_start (the user_end)
               then overlap_loop ucmp level0 files (i + 1) user_begin user_end inputs
               else if level0 \<and> user_begin \<noteq> None \<and> Compare ucmp file_start (the user_begin) < 0
               then overlap_loop ucmp level0 files 0 (Some file_start) user_end []
               else if level0 \<and> user_end \<noteq> None \<and> 0 < Compare ucmp file_limit (the user_end)
               then overlap_loop ucmp level0 files 0 user_begin (Some file_limit) []
               else overlap_loop ucmp level0 files (i + 1) user_begin user_end (inputs @ [f]))
      else Some inputs)"

text \<open>The callers pass a level below \<open>kNumLevels\<close>, which the code asserts.\<close>

definition GetOverlappingInputs :: "Comparator \<Rightarrow> Version \<Rightarrow> nat \<Rightarrow> slice option \<Rightarrow> slice option \<Rightarrow> FileMetaData list option" where
  "GetOverlappingInputs ucmp v level begin_key end_key =
     overlap_loop ucmp (level = 0) (files_at v level) 0 (map_option ExtractUserKey begin_key) (map_option ExtractUserKey end_key) []"

definition kMaxMemCompactLevel :: nat where "kMaxMemCompactLevel = 2"

definition limit_key :: "slice \<Rightarrow> slice" where
  "limit_key k = AppendInternalKey [] \<lparr>user_key = k, sequence = 0, type = kTypeDeletion\<rparr>"

function pick_loop :: "Comparator \<Rightarrow> uint64 \<Rightarrow> Version \<Rightarrow> slice \<Rightarrow> slice \<Rightarrow> nat \<Rightarrow> nat option" where
  "pick_loop ucmp max_file_size v smallest_user_key largest_user_key level =
     (if level < kMaxMemCompactLevel
      then (case OverlapInLevel ucmp v (level + 1) (Some smallest_user_key) (Some largest_user_key) of
              None \<Rightarrow> None
            | Some True \<Rightarrow> Some level
            | Some False \<Rightarrow>
                if level + 2 < kNumLevels
                then (case GetOverlappingInputs ucmp v (level + 2) (Some (seek_to smallest_user_key)) (Some (limit_key largest_user_key)) of
                        None \<Rightarrow> None
                      | Some overlaps \<Rightarrow>
                          if MaxGrandParentOverlapBytes max_file_size < TotalFileSize overlaps then Some level
                          else pick_loop ucmp max_file_size v smallest_user_key largest_user_key (level + 1))
                else pick_loop ucmp max_file_size v smallest_user_key largest_user_key (level + 1))
      else Some level)"
  by pat_completeness auto
termination
  by (relation "measure (\<lambda>(_, _, _, _, _, level). kMaxMemCompactLevel - level)") auto

declare pick_loop.simps [simp del]

definition PickLevelForMemTableOutput :: "Comparator \<Rightarrow> uint64 \<Rightarrow> Version \<Rightarrow> slice \<Rightarrow> slice \<Rightarrow> nat option" where
  "PickLevelForMemTableOutput ucmp max_file_size v smallest_user_key largest_user_key =
     (case OverlapInLevel ucmp v 0 (Some smallest_user_key) (Some largest_user_key) of
        None \<Rightarrow> None
      | Some True \<Rightarrow> Some 0
      | Some False \<Rightarrow> pick_loop ucmp max_file_size v smallest_user_key largest_user_key 0)"

end
