(* ===== verification/Ldb_Version_Correct.thy ===== *)
theory Ldb_Version_Correct
  imports Ldb_Version Ldb_Table_Get Ldb_DBIter_Correct Ldb_Write_Correct
begin

text \<open>
  Searches in a version: the binary search for a file, overlapping ranges, and lookups of the newest
  visible entry across all levels.
\<close>

section \<open>Files and ranges of user keys\<close>

text \<open>A file whose smallest and largest keys are internal keys, in order, and the files of a level other than 0.\<close>

definition sound_key :: "(slice \<Rightarrow> bool) \<Rightarrow> ParsedInternalKey \<Rightarrow> bool" where
  "sound_key valid p \<longleftrightarrow> sequence p \<le> kMaxSequenceNumber \<and> valid (user_key p)"

definition sound_file :: "Comparator \<Rightarrow> (slice \<Rightarrow> bool) \<Rightarrow> FileMetaData \<Rightarrow> bool" where
  "sound_file c valid f \<longleftrightarrow> (\<exists>a b. f_smallest f = AppendInternalKey [] a \<and> f_largest f = AppendInternalKey [] b
     \<and> sound_key valid a \<and> sound_key valid b \<and> internal_compare c (f_smallest f) (f_largest f) \<le> 0)"

definition disjoint_files :: "Comparator \<Rightarrow> (slice \<Rightarrow> bool) \<Rightarrow> FileMetaData list \<Rightarrow> bool" where
  "disjoint_files c valid files \<longleftrightarrow> (\<forall>f \<in> set files. sound_file c valid f)
     \<and> sorted_wrt (\<lambda>f g. internal_compare c (f_largest f) (f_smallest g) < 0) files"

text \<open>The user keys of a file meet a range whose ends are in it, or open; chains of files that meet each other.\<close>

definition file_overlaps :: "Comparator \<Rightarrow> slice option \<Rightarrow> slice option \<Rightarrow> FileMetaData \<Rightarrow> bool" where
  "file_overlaps c lo hi f \<longleftrightarrow> (\<forall>k. lo = Some k \<longrightarrow> Compare c k (user_largest f) \<le> 0) \<and> (\<forall>k. hi = Some k \<longrightarrow> Compare c (user_smallest f) k \<le> 0)"

inductive connected :: "Comparator \<Rightarrow> FileMetaData list \<Rightarrow> slice option \<Rightarrow> slice option \<Rightarrow> FileMetaData \<Rightarrow> bool"
  for c files lo hi where
  direct: "f \<in> set files \<Longrightarrow> file_overlaps c lo hi f \<Longrightarrow> connected c files lo hi f"
| chain: "connected c files lo hi f \<Longrightarrow> g \<in> set files \<Longrightarrow> file_overlaps c (Some (user_smallest f)) (Some (user_largest f)) g
    \<Longrightarrow> connected c files lo hi g"

section \<open>Internal keys of entries\<close>

lemma find_None_nth: "find P xs = None \<longleftrightarrow> (\<forall>i < length xs. \<not> P (xs ! i))"
  by (auto simp: find_None_iff in_set_conv_nth)

lemma take_one: "take (Suc 0) (drop n xs) = (if n < length xs then [xs ! n] else [])"
  by (simp add: take_Suc hd_drop_conv_nth)

lemma filter_fewer:
  assumes "\<And>x. x \<in> set xs \<Longrightarrow> P x \<Longrightarrow> Q x" and "y \<in> set xs" "Q y" "\<not> P y"
  shows "length (filter P xs) < length (filter Q xs)"
proof -
  from assms(2) obtain us ws where xs: "xs = us @ y # ws" by (auto dest: split_list)
  have "length (filter P us) \<le> length (filter Q us)" "length (filter P ws) \<le> length (filter Q ws)"
    using assms(1) by (auto simp: xs length_filter_conv_card intro!: card_mono)
  then show ?thesis using assms(3,4) by (simp add: xs)
qed

context key_order
begin

lemma cmp_le_trans: "valid a \<Longrightarrow> valid b \<Longrightarrow> valid d \<Longrightarrow> cmp a b \<le> 0 \<Longrightarrow> cmp b d \<le> 0 \<Longrightarrow> cmp a d \<le> 0"
  using cmp_not_less [of d a] cmp_not_less [of b a] cmp_less_le_trans [of d a b] cmp_not_less [of d b] by blast

end

sublocale comparator \<subseteq> ik: key_order "internal_compare c" "valid_ikey valid"
  by (rule internal_order)

definition lookup_key :: "slice \<Rightarrow> SequenceNumber \<Rightarrow> slice" where
  "lookup_key k s = AppendInternalKey [] \<lparr>user_key = k, sequence = s, type = kTypeValue\<rparr>"

lemma internal_key_make: "internal_key (make_LookupKey k s) = lookup_key k s"
  by (simp add: internal_key_def make_LookupKey_def Let_def lookup_key_def AppendInternalKey_def PutFixed64_def kValueTypeForSeek_def)

lemma seek_to_lookup: "seek_to k = lookup_key k kMaxSequenceNumber"
  by (simp add: seek_to_def lookup_key_def kValueTypeForSeek_def)

lemma lookup_key_parts [simp]:
  "ExtractUserKey (lookup_key k s) = k" "key_tag (lookup_key k s) = PackSequenceAndType s kTypeValue"
  "valid_ikey valid (lookup_key k s) \<longleftrightarrow> valid k"
  by (simp_all add: lookup_key_def valid_ikey_def)

text \<open>The tag of an entry against the tag of a lookup.\<close>

lemma tag_less:
  assumes "s \<le> kMaxSequenceNumber" and "sequence p \<le> kMaxSequenceNumber"
  shows "PackSequenceAndType s kTypeValue < PackSequenceAndType (sequence p) (type p) \<longleftrightarrow> s < sequence p"
proof -
  have "ValueType_code (type p) < 2" by (cases "type p") simp_all
  then show ?thesis
    using pack_word [OF assms(1), of kTypeValue] pack_word [OF assms(2), of "type p"] by (auto simp: word_less_nat_alt)
qed

context comparator
begin

abbreviation pentry_ok :: "ParsedInternalKey \<Rightarrow> bool" where
  "pentry_ok \<equiv> sound_key valid"

abbreviation file_ok :: "FileMetaData \<Rightarrow> bool" where
  "file_ok \<equiv> sound_file c valid"

abbreviation level_sorted :: "FileMetaData list \<Rightarrow> bool" where
  "level_sorted \<equiv> disjoint_files c valid"

abbreviation overlaps_range :: "slice option \<Rightarrow> slice option \<Rightarrow> FileMetaData \<Rightarrow> bool" where
  "overlaps_range \<equiv> file_overlaps c"

abbreviation linked :: "FileMetaData list \<Rightarrow> slice option \<Rightarrow> slice option \<Rightarrow> FileMetaData \<Rightarrow> bool" where
  "linked \<equiv> connected c"

lemma valid_Append [simp]: "pentry_ok p \<Longrightarrow> valid_ikey valid (AppendInternalKey [] p)"
  by (simp add: sound_key_def valid_ikey_def)

lemma below_lookup:
  assumes "pentry_ok p" and "valid k" and "s \<le> kMaxSequenceNumber"
  shows "internal_compare c (AppendInternalKey [] p) (lookup_key k s) < 0
    \<longleftrightarrow> Compare c (user_key p) k < 0 \<or> user_key p = k \<and> s < sequence p"
  using tag_less [OF assms(3), of p] assms by (auto simp: internal_compare_less sound_key_def cmp_eq)

lemma below_seek_to:
  "pentry_ok p \<Longrightarrow> valid k \<Longrightarrow> internal_compare c (AppendInternalKey [] p) (seek_to k) < 0 \<longleftrightarrow> Compare c (user_key p) k < 0"
  unfolding seek_to_lookup by (subst below_lookup) (auto simp: sound_key_def)

lemma user_le:
  assumes "valid_ikey valid a" and "valid_ikey valid b" and "internal_compare c a b \<le> 0"
  shows "Compare c (ExtractUserKey a) (ExtractUserKey b) \<le> 0"
  using assms by (auto simp: internal_compare_def Let_def split: if_splits)

section \<open>Files of a level\<close>

lemma file_okD:
  assumes "file_ok f"
  shows "valid_ikey valid (f_smallest f)" "valid_ikey valid (f_largest f)" "internal_compare c (f_smallest f) (f_largest f) \<le> 0"
    "valid (user_smallest f)" "valid (user_largest f)" "Compare c (user_smallest f) (user_largest f) \<le> 0"
  using assms user_le [of "f_smallest f" "f_largest f"] by (auto simp: sound_file_def sound_key_def)

lemma level_sorted_nth:
  assumes "level_sorted files" and "i < j" and "j < length files"
  shows "internal_compare c (f_largest (files ! i)) (f_smallest (files ! j)) < 0"
    "internal_compare c (f_largest (files ! i)) (f_largest (files ! j)) < 0"
proof -
  show less: "internal_compare c (f_largest (files ! i)) (f_smallest (files ! j)) < 0"
    using assms by (auto simp: disjoint_files_def sorted_wrt_iff_nth_less)
  have "file_ok (files ! i)" "file_ok (files ! j)" using assms by (auto simp: disjoint_files_def)
  then show "internal_compare c (f_largest (files ! i)) (f_largest (files ! j)) < 0"
    using ik.cmp_less_le_trans less file_okD by blast
qed

text \<open>The binary search finds the first file that does not end before the key. Up to \<open>2^31\<close> files the sum of
  the bounds does not wrap around.\<close>

definition first_file :: "FileMetaData list \<Rightarrow> slice \<Rightarrow> nat" where
  "first_file files key = length (takeWhile (\<lambda>f. internal_compare c (f_largest f) key < 0) files)"

lemma first_file_splits:
  assumes sorted: "level_sorted files" and key: "valid_ikey valid key"
  shows "first_file files key \<le> length files"
    "i < length files \<Longrightarrow> internal_compare c (f_largest (files ! i)) key < 0 \<longleftrightarrow> i < first_file files key"
proof -
  let ?P = "\<lambda>f. internal_compare c (f_largest f) key < 0" and ?n = "first_file files key"
  show "?n \<le> length files" by (simp add: first_file_def length_takeWhile_le)
  show "?P (files ! i) \<longleftrightarrow> i < ?n" if i: "i < length files"
  proof
    assume "i < ?n"
    then show "?P (files ! i)" unfolding first_file_def by (metis nth_mem set_takeWhileD takeWhile_nth)
  next
    assume P: "?P (files ! i)"
    show "i < ?n"
    proof (rule ccontr)
      assume "\<not> i < ?n"
      then have n: "?n < length files" "?n = i \<or> ?n < i" using i by auto
      have nn: "\<not> ?P (files ! ?n)" using n(1) nth_length_takeWhile [of ?P files] by (simp add: first_file_def)
      then have "internal_compare c (f_largest (files ! ?n)) (f_largest (files ! i)) < 0"
        using n(2) P level_sorted_nth(2) [OF sorted _ i] by auto
      moreover have "file_ok (files ! ?n)" "file_ok (files ! i)" using sorted i n(1) by (auto simp: disjoint_files_def)
      ultimately show False using ik.cmp_trans P nn file_okD(2) key by blast
    qed
  qed
qed

lemma find_file_loop_first:
  assumes "\<And>i. i < length files \<Longrightarrow> internal_compare c (f_largest (files ! i)) key < 0 \<longleftrightarrow> i < n" and few: "length files \<le> 2 ^ 31"
    and "unat left \<le> n" "n \<le> unat right" "unat right \<le> length files"
  shows "find_file_loop c files key left right = Some (of_nat n)"
  using assms(3-)
proof (induction "unat right - unat left" arbitrary: left right rule: less_induct)
  case less
  show ?case
  proof (cases "left < right")
    case True
    let ?mid = "(left + right) div 2"
    have lt: "unat left < unat right" using True by (simp add: word_less_nat_alt)
    have "unat (left + right) = unat left + unat right" using less.prems few lt by (subst unat_add_lem [symmetric]) simp
    then have mid: "unat ?mid = (unat left + unat right) div 2" by (simp add: unat_div)
    then have m: "unat left \<le> unat ?mid" "unat ?mid < unat right" "unat ?mid < length files" using lt less.prems(3) by auto
    have next_left: "unat (?mid + 1) = unat ?mid + 1"
      using m(3) few by (simp only: unat_word_ariths) simp
    show ?thesis
    proof (cases "unat ?mid < n")
      case below: True
      then have "find_file_loop c files key (?mid + 1) right = Some (of_nat n)"
        using less.prems m lt by (intro less.hyps) (simp_all add: next_left)
      then show ?thesis using True below assms(1) [OF m(3)] by (subst find_file_loop.simps) (simp add: Let_def)
    next
      case above: False
      then have "find_file_loop c files key left ?mid = Some (of_nat n)" using less.prems m by (intro less.hyps) simp_all
      then show ?thesis using True above assms(1) [OF m(3)] by (subst find_file_loop.simps) (simp add: Let_def)
    qed
  next
    case False
    then have "unat right = n" using less.prems by (simp add: word_less_nat_alt)
    then have "of_nat n = right" by auto
    then show ?thesis using False by (subst find_file_loop.simps) simp
  qed
qed

lemma FindFile_first:
  assumes sorted: "level_sorted files" and key: "valid_ikey valid key" and few: "length files \<le> 2 ^ 31"
  shows "\<exists>index. FindFile c files key = Some index \<and> unat index = first_file files key"
proof -
  note n = first_file_splits [OF sorted key]
  have u: "unat (of_nat k :: uint32) = k" if "k \<le> length files" for k using that few by (simp add: unat_of_nat)
  have "FindFile c files key = Some (of_nat (first_file files key))"
    unfolding FindFile_def using n few u by (intro find_file_loop_first) simp_all
  then show ?thesis using u n(1) by simp
qed

section \<open>Overlapping ranges\<close>

lemma overlaps_range_tests:
  assumes "file_ok f" and "\<forall>k. lo = Some k \<longrightarrow> valid k" and "\<forall>k. hi = Some k \<longrightarrow> valid k"
  shows "overlaps_range lo hi f \<longleftrightarrow> \<not> AfterFile c lo f \<and> \<not> BeforeFile c hi f"
  using assms file_okD(4,5) [OF assms(1)] cmp_not_less cmp_flip
  by (auto simp: file_overlaps_def AfterFile_def BeforeFile_def split: option.splits)

lemma some_file_overlaps:
  assumes files: "if disjoint then level_sorted files else (\<forall>f \<in> set files. file_ok f)"
    and lo: "\<forall>k. lo = Some k \<longrightarrow> valid k" and hi: "\<forall>k. hi = Some k \<longrightarrow> valid k"
    and few: "length files \<le> 2 ^ 31"
  shows "SomeFileOverlapsRange c disjoint files lo hi = Some (\<exists>f \<in> set files. overlaps_range lo hi f)"
proof (cases disjoint)
  case False
  then have "\<forall>f \<in> set files. file_ok f" using files by simp
  then show ?thesis using False overlaps_range_tests [OF _ lo hi] by (auto simp: SomeFileOverlapsRange_def list_ex_iff)
next
  case True
  then have sorted: "level_sorted files" using files by simp
  have ok: "file_ok (files ! i)" if "i < length files" for i using sorted that by (auto simp: disjoint_files_def)
  note t = overlaps_range_tests [OF ok lo hi]
  define n where "n = (case lo of None \<Rightarrow> 0 | Some k \<Rightarrow> first_file files (seek_to k))"
  have after: "AfterFile c lo (files ! i) \<longleftrightarrow> i < n" if i: "i < length files" for i
  proof (cases lo)
    case (Some k)
    have k: "valid k" using lo Some by simp
    from ok [OF i] obtain b where b: "f_largest (files ! i) = AppendInternalKey [] b" "pentry_ok b" by (auto simp: sound_file_def)
    have "internal_compare c (f_largest (files ! i)) (seek_to k) < 0 \<longleftrightarrow> i < first_file files (seek_to k)"
      using first_file_splits(2) [OF sorted _ i] k by (simp add: seek_to_lookup)
    then show ?thesis using below_seek_to [OF b(2) k] cmp_flip [of "user_key b" k] b k
      by (simp add: AfterFile_def Some n_def sound_key_def)
  qed (simp add: AfterFile_def n_def)
  have first: "\<not> BeforeFile c hi (files ! n)" if i: "n < i" "i < length files" "\<not> BeforeFile c hi (files ! i)" for i
  proof (cases hi)
    case (Some k)
    note n = file_okD [OF ok [of n]] and m = file_okD [OF ok [OF i(2)]]
    have "internal_compare c (f_largest (files ! n)) (f_smallest (files ! i)) < 0"
      using level_sorted_nth(1) [OF sorted i(1,2)] .
    then have "Compare c (user_largest (files ! n)) (user_smallest (files ! i)) \<le> 0" using user_le n(2) m(1) i by simp
    moreover have "Compare c (user_smallest (files ! i)) k \<le> 0"
      using i(3) Some cmp_not_less [of k "user_smallest (files ! i)"] m(4) hi by (simp add: BeforeFile_def)
    moreover have "valid k" using hi Some by simp
    ultimately have "Compare c (user_smallest (files ! n)) k \<le> 0"
      using cmp_le_trans n(4-6) m(4) i less_trans by meson
    then have "\<not> Compare c k (user_smallest (files ! n)) < 0" using cmp_not_less n(4) i hi Some by simp
    then show ?thesis by (simp add: BeforeFile_def Some)
  qed (simp add: BeforeFile_def)
  obtain index where "(case lo of None \<Rightarrow> Some 0 | Some k \<Rightarrow> FindFile c files (seek_to k)) = Some index" "unat index = n"
  proof (cases lo)
    case (Some k)
    then have "valid_ikey valid (seek_to k)" using lo by (simp add: seek_to_lookup)
    then show ?thesis using FindFile_first [OF sorted _ few, of "seek_to k"] that by (auto simp: Some n_def)
  qed (use that [of 0] in \<open>simp add: n_def\<close>)
  then have "SomeFileOverlapsRange c disjoint files lo hi = Some (n < length files \<and> \<not> BeforeFile c hi (files ! n))"
    using True by (auto simp: SomeFileOverlapsRange_def)
  also have "(n < length files \<and> \<not> BeforeFile c hi (files ! n)) \<longleftrightarrow> (\<exists>i < length files. \<not> AfterFile c lo (files ! i) \<and> \<not> BeforeFile c hi (files ! i))"
    using after first by (metis linorder_neqE_nat order_less_irrefl less_trans)
  also have "(\<exists>i < length files. \<not> AfterFile c lo (files ! i) \<and> \<not> BeforeFile c hi (files ! i)) \<longleftrightarrow> (\<exists>f \<in> set files. overlaps_range lo hi f)"
    using t by (metis in_set_conv_nth)
  finally show ?thesis .
qed

text \<open>What the user keys of two files or of a file and a range have in common: on level 0, where files
  overlap, \<open>GetOverlappingInputs\<close> collects all files that a chain of overlapping files connects to
  the range.\<close>

abbreviation valid_bound :: "slice option \<Rightarrow> bool" where
  "valid_bound b \<equiv> \<forall>k. b = Some k \<longrightarrow> valid k"

abbreviation reach :: "FileMetaData \<Rightarrow> FileMetaData \<Rightarrow> bool" where
  "reach f g \<equiv> overlaps_range (Some (user_smallest f)) (Some (user_largest f)) g"

lemma overlap_tests:
  assumes "file_ok f" and "valid_bound lo" and "valid_bound hi"
  shows "overlaps_range lo hi f \<longleftrightarrow>
      \<not> (lo \<noteq> None \<and> Compare c (user_largest f) (the lo) < 0) \<and> \<not> (hi \<noteq> None \<and> 0 < Compare c (user_smallest f) (the hi))"
  using assms file_okD(4,5) [OF assms(1)] cmp_not_less [of "user_largest f"]
  by (cases lo; cases hi) (auto simp: file_overlaps_def not_less)

lemma overlap_loop_disjoint:
  assumes files: "\<forall>f \<in> set files. file_ok f" and b: "valid_bound lo" "valid_bound hi" and i: "i \<le> length files"
    and inputs: "inputs = filter (overlaps_range lo hi) (take i files)"
  shows "overlap_loop c False files i lo hi inputs = Some (filter (overlaps_range lo hi) files)"
  using i inputs
proof (induction "length files - i" arbitrary: i inputs)
  case 0
  then show ?case by (subst overlap_loop.simps) simp
next
  case (Suc n)
  then have i: "i < length files" by simp
  have "overlap_loop c False files (i + 1) lo hi (filter (overlaps_range lo hi) (take (i + 1) files))
      = Some (filter (overlaps_range lo hi) files)"
    using Suc.hyps(2) i by (intro Suc.hyps(1)) simp_all
  moreover have "file_ok (files ! i)" using files i by simp
  note overlap_tests [OF this b]
  ultimately show ?case
    using i Suc.prems(2) by (subst overlap_loop.simps) (auto simp: Let_def take_Suc_conv_app_nth)
qed

definition widen :: "FileMetaData list \<Rightarrow> slice option \<Rightarrow> slice option \<Rightarrow> nat" where
  "widen files lo hi = length (filter (\<lambda>f. \<exists>k. lo = Some k \<and> Compare c (user_smallest f) k < 0) files)
     + length (filter (\<lambda>f. \<exists>k. hi = Some k \<and> Compare c k (user_largest f) < 0) files)"

lemma widen_begin:
  assumes "\<forall>f \<in> set files. file_ok f" and f: "f \<in> set files" and k: "valid k" "Compare c (user_smallest f) k < 0"
  shows "widen files (Some (user_smallest f)) hi < widen files (Some k) hi"
proof -
  have ok: "valid (user_smallest g)" if "g \<in> set files" for g using assms(1) that file_okD(4) by blast
  have "length (filter (\<lambda>g. Compare c (user_smallest g) (user_smallest f) < 0) files)
      < length (filter (\<lambda>g. Compare c (user_smallest g) k < 0) files)"
    using f k ok cmp_irrefl by (intro filter_fewer [of _ _ _ f]) (blast intro: cmp_trans)+
  then show ?thesis by (simp add: widen_def)
qed

lemma widen_end:
  assumes "\<forall>f \<in> set files. file_ok f" and f: "f \<in> set files" and k: "valid k" "Compare c k (user_largest f) < 0"
  shows "widen files lo (Some (user_largest f)) < widen files lo (Some k)"
proof -
  have ok: "valid (user_largest g)" if "g \<in> set files" for g using assms(1) that file_okD(5) by blast
  have "length (filter (\<lambda>g. Compare c (user_largest f) (user_largest g) < 0) files)
      < length (filter (\<lambda>g. Compare c k (user_largest g) < 0) files)"
    using f k ok cmp_irrefl by (intro filter_fewer [of _ _ _ f]) (blast intro: cmp_trans)+
  then show ?thesis by (simp add: widen_def)
qed

abbreviation inside :: "slice option \<Rightarrow> slice option \<Rightarrow> FileMetaData \<Rightarrow> bool" where
  "inside lo hi f \<equiv> (\<forall>k. lo = Some k \<longrightarrow> Compare c k (user_smallest f) \<le> 0) \<and> (\<forall>k. hi = Some k \<longrightarrow> Compare c (user_largest f) k \<le> 0)"

lemma inside_reach:
  assumes "file_ok f" "file_ok g" "valid_bound lo" "valid_bound hi" and "inside lo hi f" and "reach f g"
  shows "overlaps_range lo hi g"
  using assms(3-) file_okD(4-6) [OF assms(1)] file_okD(4-6) [OF assms(2)]
    cmp_le_trans [of _ "user_smallest f" "user_largest g"] cmp_le_trans [of "user_smallest g" "user_largest f"]
  by (simp add: file_overlaps_def)

text \<open>A file that meets a range widened by a file of the range meets the range or that file.\<close>

lemma widened_begin:
  assumes f: "file_ok f" and g: "file_ok g" and k: "valid k" "overlaps_range (Some k) hi f"
    and m: "overlaps_range (Some (user_smallest f)) hi g"
  shows "overlaps_range (Some k) hi g \<or> reach f g"
proof (cases "Compare c k (user_largest g) \<le> 0")
  case True
  then show ?thesis using m by (simp add: file_overlaps_def)
next
  case False
  note f = file_okD(4-6) [OF f] and g = file_okD(4-6) [OF g]
  have "Compare c (user_largest g) k \<le> 0" using False cmp_not_less [of "user_largest g" k] g k by force
  moreover have "Compare c k (user_largest f) \<le> 0" using k(2) by (simp add: file_overlaps_def)
  ultimately have "Compare c (user_smallest g) (user_largest f) \<le> 0" using k(1) f(1,2) g cmp_le_trans by meson
  then show ?thesis using m by (simp add: file_overlaps_def)
qed

lemma widened_end:
  assumes f: "file_ok f" and g: "file_ok g" and k: "valid k" "overlaps_range lo (Some k) f"
    and m: "overlaps_range lo (Some (user_largest f)) g"
  shows "overlaps_range lo (Some k) g \<or> reach f g"
proof (cases "Compare c (user_smallest g) k \<le> 0")
  case True
  then show ?thesis using m by (simp add: file_overlaps_def)
next
  case False
  note f = file_okD(4-6) [OF f] and g = file_okD(4-6) [OF g]
  have "Compare c k (user_smallest g) \<le> 0" using False cmp_not_less [of k "user_smallest g"] g k by force
  moreover have "Compare c (user_smallest f) k \<le> 0" using k(2) by (simp add: file_overlaps_def)
  ultimately have "Compare c (user_smallest f) (user_largest g) \<le> 0" using k(1) f(1,2) g cmp_le_trans by meson
  then show ?thesis using m by (simp add: file_overlaps_def)
qed

definition gathering :: "FileMetaData list \<Rightarrow> slice option \<Rightarrow> slice option \<Rightarrow> slice option \<Rightarrow> slice option \<Rightarrow> bool" where
  "gathering files lo hi lo' hi' \<longleftrightarrow> valid_bound lo' \<and> valid_bound hi'
     \<and> (\<forall>g \<in> set files. (overlaps_range lo hi g \<longrightarrow> overlaps_range lo' hi' g) \<and> (overlaps_range lo' hi' g \<longrightarrow> linked files lo hi g))"

lemma gathering_begin:
  assumes files: "\<forall>f \<in> set files. file_ok f" and g: "gathering files lo hi (Some k) hi'" and f: "f \<in> set files"
    "overlaps_range (Some k) hi' f" "Compare c (user_smallest f) k < 0"
  shows "gathering files lo hi (Some (user_smallest f)) hi'"
proof -
  have k: "valid k" using g by (simp add: gathering_def)
  have fo: "file_ok f" using files f(1) by blast
  have "overlaps_range (Some (user_smallest f)) hi' h" if "overlaps_range (Some k) hi' h" "file_ok h" for h
    using that f(3) cmp_le_trans [of "user_smallest f" k "user_largest h"] k file_okD [OF fo] file_okD [OF that(2)]
    by (simp add: file_overlaps_def)
  moreover have "linked files lo hi h" if "h \<in> set files" "overlaps_range (Some (user_smallest f)) hi' h" for h
  proof -
    have "file_ok h" using files that(1) by blast
    from widened_begin [OF fo this k f(2) that(2)] show ?thesis
    proof
      assume "overlaps_range (Some k) hi' h"
      then show ?thesis using g that(1) by (simp add: gathering_def)
    next
      assume "reach f h"
      moreover have "linked files lo hi f" using g f(1,2) by (simp add: gathering_def)
      ultimately show ?thesis using chain that(1) by blast
    qed
  qed
  moreover have "valid (user_smallest f)" using file_okD(4) [OF fo] .
  ultimately show ?thesis using g files by (simp add: gathering_def)
qed

lemma gathering_end:
  assumes files: "\<forall>f \<in> set files. file_ok f" and g: "gathering files lo hi lo' (Some k)" and f: "f \<in> set files"
    "overlaps_range lo' (Some k) f" "Compare c k (user_largest f) < 0"
  shows "gathering files lo hi lo' (Some (user_largest f))"
proof -
  have k: "valid k" using g by (simp add: gathering_def)
  have fo: "file_ok f" using files f(1) by blast
  have "overlaps_range lo' (Some (user_largest f)) h" if "overlaps_range lo' (Some k) h" "file_ok h" for h
    using that f(3) cmp_le_trans [of "user_smallest h" k "user_largest f"] k file_okD [OF fo] file_okD [OF that(2)]
    by (simp add: file_overlaps_def)
  moreover have "linked files lo hi h" if "h \<in> set files" "overlaps_range lo' (Some (user_largest f)) h" for h
  proof -
    have "file_ok h" using files that(1) by blast
    from widened_end [OF fo this k f(2) that(2)] show ?thesis
    proof
      assume "overlaps_range lo' (Some k) h"
      then show ?thesis using g that(1) by (simp add: gathering_def)
    next
      assume "reach f h"
      moreover have "linked files lo hi f" using g f(1,2) by (simp add: gathering_def)
      ultimately show ?thesis using chain that(1) by blast
    qed
  qed
  moreover have "valid (user_largest f)" using file_okD(5) [OF fo] .
  ultimately show ?thesis using g files by (simp add: gathering_def)
qed

lemma gathered:
  assumes files: "\<forall>f \<in> set files. file_ok f" and g: "gathering files lo hi lo' hi'"
    and closed: "\<forall>f \<in> set (filter (overlaps_range lo' hi') files). inside lo' hi' f"
  shows "filter (overlaps_range lo' hi') files = filter (linked files lo hi) files"
proof -
  have "overlaps_range lo' hi' f" if "linked files lo hi f" for f
    using that
  proof induction
    case (direct f)
    then show ?case using g by (simp add: gathering_def)
  next
    case (chain f h)
    have "f \<in> set files" using chain.hyps(1) by cases
    then have "f \<in> set (filter (overlaps_range lo' hi') files)" "file_ok f" "file_ok h" using chain.IH chain.hyps(2) files by simp_all
    then have "inside lo' hi' f" using closed by blast
    moreover have "file_ok f" "file_ok h" by fact+
    moreover have "valid_bound lo'" "valid_bound hi'" using g by (simp_all add: gathering_def)
    ultimately show ?case using inside_reach chain.hyps(3) by blast
  qed
  then show ?thesis using g by (intro filter_cong) (auto simp: gathering_def)
qed

lemma overlap_loop_connected:
  assumes files: "\<forall>f \<in> set files. file_ok f" and "gathering files lo hi lo' hi'" and "i \<le> length files"
    and "inputs = filter (overlaps_range lo' hi') (take i files)" and "\<forall>f \<in> set inputs. inside lo' hi' f"
  shows "overlap_loop c True files i lo' hi' inputs = Some (filter (linked files lo hi) files)"
  using assms(2-)
proof (induction "(widen files lo' hi', length files - i)" arbitrary: lo' hi' i inputs rule: wf_induct_rule [OF wf_lex_prod [OF wf_less_than wf_less_than]])
  case less: (1 lo' hi' i inputs)
  show ?case
  proof (cases "i < length files")
    case False
    then show ?thesis using less.prems gathered [OF files less.prems(1)] by (subst overlap_loop.simps) simp
  next
    case i: True
    let ?f = "files ! i" and ?w = "\<lambda>lo hi. widen files lo hi"
    have f: "?f \<in> set files" "file_ok ?f" using files i by simp_all
    have b: "valid_bound lo'" "valid_bound hi'" using less.prems(1) by (simp_all add: gathering_def)
    have next_file: "overlap_loop c True files (i + 1) lo' hi' inputs' = Some (filter (linked files lo hi) files)"
      if "inputs' = filter (overlaps_range lo' hi') (take (i + 1) files)" "\<forall>f \<in> set inputs'. inside lo' hi' f" for inputs'
      using i that less.prems(1) by (intro less.hyps) auto
    have restart: "overlap_loop c True files 0 lo'' hi'' [] = Some (filter (linked files lo hi) files)"
      if "?w lo'' hi'' < ?w lo' hi'" "gathering files lo hi lo'' hi''" for lo'' hi''
      using that by (intro less.hyps) auto
    show ?thesis
    proof (cases "overlaps_range lo' hi' ?f")
      case False
      then have "overlap_loop c True files i lo' hi' inputs = overlap_loop c True files (i + 1) lo' hi' inputs"
        using i overlap_tests [OF f(2) b] by (subst overlap_loop.simps) (auto simp: Let_def)
      then show ?thesis using next_file less.prems False i by (simp add: take_Suc_conv_app_nth)
    next
      case o: True
      note t = overlap_tests [OF f(2) b, THEN iffD1, OF o]
      consider (lo) k where "lo' = Some k" "Compare c (user_smallest ?f) k < 0"
        | (hi) k where "\<not> (lo' \<noteq> None \<and> Compare c (user_smallest ?f) (the lo') < 0)" "hi' = Some k" "0 < Compare c (user_largest ?f) k"
        | (in_range) "\<not> (lo' \<noteq> None \<and> Compare c (user_smallest ?f) (the lo') < 0)"
            "\<not> (hi' \<noteq> None \<and> 0 < Compare c (user_largest ?f) (the hi'))" by (cases lo'; cases hi') auto
      then show ?thesis
      proof cases
        case lo
        have "overlap_loop c True files i lo' hi' inputs = overlap_loop c True files 0 (Some (user_smallest ?f)) hi' []"
          using i t lo by (subst overlap_loop.simps) (auto simp: Let_def)
        then show ?thesis using restart gathering_begin [OF files, of lo hi k] widen_begin [OF files f(1), of k] lo o b f(1) less.prems(1) by simp
      next
        case hi
        have "overlap_loop c True files i lo' hi' inputs = overlap_loop c True files 0 lo' (Some (user_largest ?f)) []"
          using i t hi by (subst overlap_loop.simps) (auto simp: Let_def)
        moreover have "Compare c k (user_largest ?f) < 0" using hi cmp_flip [of k "user_largest ?f"] file_okD(5) [OF f(2)] b by simp
        ultimately show ?thesis
          using restart gathering_end [OF files, of lo hi lo' k] widen_end [OF files f(1), of k] hi(2) o b f(1) less.prems(1) by simp
      next
        case in_range
        have "overlap_loop c True files i lo' hi' inputs = overlap_loop c True files (i + 1) lo' hi' (inputs @ [?f])"
          using i t in_range by (subst overlap_loop.simps) (auto simp: Let_def)
        moreover have "inside lo' hi' ?f"
          using in_range cmp_not_less [of "user_smallest ?f"] file_okD(4) [OF f(2)] b by (cases lo'; cases hi') (auto simp: not_less)
        ultimately show ?thesis using next_file less.prems(3,4) o i by (simp add: take_Suc_conv_app_nth)
      qed
    qed
  qed
qed

lemma overlapping_inputs:
  assumes "\<forall>f \<in> set (files_at v level). file_ok f" and "valid_bound (map_option ExtractUserKey lo)" "valid_bound (map_option ExtractUserKey hi)"
  shows "GetOverlappingInputs c v level lo hi
    = Some (filter (if level = 0 then linked (files_at v level) (map_option ExtractUserKey lo) (map_option ExtractUserKey hi)
                    else overlaps_range (map_option ExtractUserKey lo) (map_option ExtractUserKey hi)) (files_at v level))"
  using overlap_loop_connected [OF assms(1), of "map_option ExtractUserKey lo" "map_option ExtractUserKey hi" _ _ 0 "[]"]
    overlap_loop_disjoint [OF assms, of 0 "[]"] assms(2,3)
  by (auto simp: GetOverlappingInputs_def gathering_def direct)

section \<open>Lookups in one file\<close>

abbreviation seen :: "slice \<Rightarrow> SequenceNumber \<Rightarrow> pentry \<Rightarrow> bool" where
  "seen k s p \<equiv> user_key (fst p) = k \<and> sequence (fst p) \<le> s"

lemma db_entries_ok: "db_entries c valid ps \<Longrightarrow> p \<in> set ps \<Longrightarrow> pentry_ok (fst p)"
  by (auto simp: db_entries_def sound_key_def)

lemma db_entries_less:
  "db_entries c valid ps \<Longrightarrow> i < j \<Longrightarrow> j < length ps \<Longrightarrow>
   internal_compare c (AppendInternalKey [] (fst (ps ! i))) (AppendInternalKey [] (fst (ps ! j))) < 0"
  using sorted_wrt_nth_less [of "\<lambda>a b. internal_compare c (fst a) (fst b) < 0" "stored ps" i j]
  by (simp add: db_entries_def stored_nth)

text \<open>The first entry that is not below a lookup key is the newest visible one of its user key, if it has
  that user key at all.\<close>

lemma find_seen:
  assumes db: "db_entries c valid ps" and k: "valid k" and s: "s \<le> kMaxSequenceNumber"
  defines "i \<equiv> first_from (internal_compare c) (stored ps) (lookup_key k s)"
  shows "find (seen k s) ps = (if i < length ps \<and> user_key (fst (ps ! i)) = k then Some (ps ! i) else None)"
proof -
  let ?less = "\<lambda>m. internal_compare c (AppendInternalKey [] (fst (ps ! m))) (lookup_key k s) < 0"
  have ok: "pentry_ok (fst (ps ! m))" if "m < length ps" for m using db_entries_ok [OF db] that by simp
  note b = below_lookup [OF ok k s]
  have le: "i \<le> length ps" using first_from_le [of "internal_compare c" "stored ps"] by (simp add: i_def)
  have below: "\<not> seen k s (ps ! m)" if m: "m < i" for m
  proof -
    have "?less m" using first_from_below [of m "internal_compare c" "stored ps" "lookup_key k s"] m le by (simp add: i_def stored_nth)
    then show ?thesis using b [of m] m le cmp_irrefl [OF k] by auto
  qed
  show ?thesis
  proof (cases "i < length ps")
    case False
    then have "i = length ps" using le by simp
    then have "find (seen k s) ps = None" unfolding find_None_nth using below by blast
    then show ?thesis using False by simp
  next
    case True
    have ge: "\<not> ?less i" using first_from_at [of "internal_compare c" "stored ps" "lookup_key k s"] True by (simp add: i_def stored_nth)
    show ?thesis
    proof (cases "user_key (fst (ps ! i)) = k")
      case uk: True
      then have "seen k s (ps ! i)" using ge b [OF True] by auto
      then show ?thesis using True uk below by (auto simp: find_Some_iff intro!: exI [of _ i])
    next
      case uk: False
      have "\<not> seen k s (ps ! m)" if m: "i \<le> m" "m < length ps" for m
      proof
        assume a: "seen k s (ps ! m)"
        then have im: "i < m" using m uk by (cases "i = m") auto
        have "Compare c (user_key (fst (ps ! i))) k \<le> 0"
          using user_le [of "AppendInternalKey [] (fst (ps ! i))" "AppendInternalKey [] (fst (ps ! m))"]
            db_entries_less [OF db im m(2)] ok [OF True] ok [OF m(2)] a by simp
        moreover have "\<not> Compare c (user_key (fst (ps ! i))) k < 0" using ge b [OF True] by auto
        ultimately have "Compare c (user_key (fst (ps ! i))) k = 0" by simp
        then show False using uk cmp_eq ok [OF True] k by (simp add: sound_key_def)
      qed
      with below have "\<forall>m < length ps. \<not> seen k s (ps ! m)" by (metis not_le_imp_less)
      then have "find (seen k s) ps = None" unfolding find_None_nth .
      then show ?thesis using uk by simp
    qed
  qed
qed

definition saved :: "slice \<Rightarrow> pentry option \<Rightarrow> SaverState \<times> slice" where
  "saved val r = (case r of None \<Rightarrow> (SaverNotFound, val)
     | Some p \<Rightarrow> if type (fst p) = kTypeValue then (SaverFound, snd p) else (SaverDeleted, val))"

lemma save_looked_up:
  fixes val :: slice
  assumes db: "db_entries c valid ps" and k: "valid k" and s: "s \<le> kMaxSequenceNumber"
    and res: "looked_up c (stored ps) (lookup_key k s) res"
  defines "saver \<equiv> \<lparr>sv_state = SaverNotFound, sv_ucmp = c, sv_user_key = k, sv_value = val\<rparr>"
  defines "saver' \<equiv> case res of None \<Rightarrow> saver | Some (k, v) \<Rightarrow> SaveValue k v saver"
  shows "(sv_state saver', sv_value saver') = saved val (find (seen k s) ps)"
proof -
  define i where "i = first_from (internal_compare c) (stored ps) (lookup_key k s)"
  note f = find_seen [OF db k s, folded i_def]
  show ?thesis
  proof (cases res)
    case None
    then have "find (seen k s) ps = None" using res unfolding f by (auto simp: looked_up_def i_def [symmetric] stored_nth)
    then show ?thesis by (simp add: saver'_def None saver_def saved_def)
  next
    case (Some e)
    then have i: "i < length ps" "e = (AppendInternalKey [] (fst (ps ! i)), snd (ps ! i))"
      using res by (auto simp: looked_up_def i_def [symmetric] Let_def stored_nth)
    have ok: "pentry_ok (fst (ps ! i))" using db_entries_ok [OF db] i(1) by simp
    have "Compare c (user_key (fst (ps ! i))) k = 0 \<longleftrightarrow> user_key (fst (ps ! i)) = k" using ok k cmp_eq by (simp add: sound_key_def)
    then show ?thesis unfolding f using i(1) ok ParseInternalKey_Append [of "fst (ps ! i)"]
      by (simp add: saver'_def Some i(2) SaveValue_def saver_def saved_def sound_key_def)
  qed
qed

end

section \<open>The contents of a version\<close>

text \<open>The files of a version and the entries they hold: the bounds of a file are those of its entries, files
  of a level other than 0 are disjoint and in order, and what is on a lower level, or in a newer file of level 0, is newer.\<close>

definition version_holds :: "Comparator \<Rightarrow> (slice \<Rightarrow> bool) \<Rightarrow> Version \<Rightarrow> (FileMetaData \<Rightarrow> pentry list) \<Rightarrow> bool" where
  "version_holds c valid v ent \<longleftrightarrow> length (v_files v) = kNumLevels \<and> distinct (map f_number (concat (v_files v)))
     \<and> (\<forall>l < kNumLevels. \<forall>f \<in> set (files_at v l). db_entries c valid (ent f) \<and> ent f \<noteq> []
          \<and> f_smallest f = fst (hd (stored (ent f))) \<and> f_largest f = fst (last (stored (ent f))))
     \<and> (\<forall>l. 0 < l \<longrightarrow> l < kNumLevels \<longrightarrow> sorted_wrt (\<lambda>f g. internal_compare c (f_largest f) (f_smallest g) < 0) (files_at v l))
     \<and> (\<forall>l < kNumLevels. \<forall>m < kNumLevels. \<forall>f \<in> set (files_at v l). \<forall>g \<in> set (files_at v m).
          l < m \<or> l = 0 \<and> m = 0 \<and> f_number g < f_number f \<longrightarrow> (\<forall>p \<in> set (ent f). \<forall>q \<in> set (ent g).
            user_key (fst p) = user_key (fst q) \<longrightarrow> sequence (fst q) < sequence (fst p)))"

text \<open>Lookups in the files go through a table cache, for which \<open>inv n\<close> says that at least \<open>n\<close> more lookups succeed.\<close>

locale version_contents = comparator c valid for c :: Comparator and valid :: "slice \<Rightarrow> bool" +
  fixes cache_Get :: "'c cache_get" and inv :: "nat \<Rightarrow> 'c \<Rightarrow> bool" and v :: Version and ent :: "FileMetaData \<Rightarrow> pentry list"
  assumes holds: "version_holds c valid v ent"
    and inv_less: "inv (Suc n) cache \<Longrightarrow> inv n cache"
    and get: "inv (Suc n) cache \<Longrightarrow> l < kNumLevels \<Longrightarrow> f \<in> set (files_at v l) \<Longrightarrow> valid_ikey valid k \<Longrightarrow>
      \<exists>res cache'. cache_Get (f_number f) (f_file_size f) k cache = Some (OK, res, cache') \<and> inv n cache' \<and> looked_up c (stored (ent f)) k res"
begin

lemma levels: "length (v_files v) = kNumLevels"
  and contents: "l < kNumLevels \<Longrightarrow> f \<in> set (files_at v l) \<Longrightarrow> db_entries c valid (ent f) \<and> ent f \<noteq> []
      \<and> f_smallest f = fst (hd (stored (ent f))) \<and> f_largest f = fst (last (stored (ent f)))"
  and disjoint: "0 < l \<Longrightarrow> l < kNumLevels \<Longrightarrow>
      sorted_wrt (\<lambda>f g. internal_compare c (f_largest f) (f_smallest g) < 0) (files_at v l)"
  using holds by (simp_all add: version_holds_def)

lemma newer: "l < kNumLevels \<Longrightarrow> m < kNumLevels \<Longrightarrow> f \<in> set (files_at v l) \<Longrightarrow> g \<in> set (files_at v m) \<Longrightarrow>
      l < m \<or> l = 0 \<and> m = 0 \<and> f_number g < f_number f \<Longrightarrow> p \<in> set (ent f) \<Longrightarrow> q \<in> set (ent g) \<Longrightarrow>
      user_key (fst p) = user_key (fst q) \<Longrightarrow> sequence (fst q) < sequence (fst p)"
  using holds unfolding version_holds_def by blast

lemma numbers: "distinct (map f_number (files_at v 0))"
proof -
  obtain fs fss where "v_files v = fs # fss" using levels by (cases "v_files v") (simp_all add: kNumLevels_def)
  then show ?thesis using holds by (simp add: version_holds_def)
qed

lemma inv_le: "inv (m + n) cache \<Longrightarrow> inv n cache"
  by (induction m) (auto dest: inv_less)

abbreviation in_version :: "nat \<times> FileMetaData \<Rightarrow> bool" where
  "in_version x \<equiv> fst x < kNumLevels \<and> snd x \<in> set (files_at v (fst x))"

fun first_hit :: "slice \<Rightarrow> SequenceNumber \<Rightarrow> (nat \<times> FileMetaData) list \<Rightarrow> pentry option" where
  "first_hit k s [] = None"
| "first_hit k s ((l, f) # fs) = (case find (seen k s) (ent f) of None \<Rightarrow> first_hit k s fs | Some p \<Rightarrow> Some p)"

definition get_result :: "slice \<Rightarrow> pentry option \<Rightarrow> Status \<times> slice" where
  "get_result val r = (case r of None \<Rightarrow> (make_Status kNotFound [] [], val)
     | Some p \<Rightarrow> if type (fst p) = kTypeValue then (OK, snd p) else (make_Status kNotFound [] [], val))"

lemma get_loop_first_hit:
  assumes "\<forall>x \<in> set fs. in_version x" and "inv (length fs + n) cache" and k: "valid k" and s: "s \<le> kMaxSequenceNumber"
  shows "\<exists>stats' cache'. get_loop cache_Get c k (lookup_key k s) (map Some fs) last_read val stats cache
      = Some (fst (get_result val (first_hit k s fs)), snd (get_result val (first_hit k s fs)), stats', cache') \<and> inv n cache'"
  using assms(1,2)
proof (induction fs arbitrary: last_read stats cache)
  case Nil
  then show ?case by (auto simp: get_result_def)
next
  case (Cons x fs)
  obtain l f where x: "x = (l, f)" by (cases x)
  have f: "l < kNumLevels" "f \<in> set (files_at v l)" using Cons.prems(1) by (auto simp: x)
  have vk: "valid_ikey valid (lookup_key k s)" using k by simp
  from get [OF Cons.prems(2) [simplified] f vk] obtain res cache1 where
    g: "cache_Get (f_number f) (f_file_size f) (lookup_key k s) cache = Some (OK, res, cache1)" "inv (length fs + n) cache1"
    "looked_up c (stored (ent f)) (lookup_key k s) res" by blast
  have db: "db_entries c valid (ent f)" using contents f by blast
  note sv = save_looked_up [OF db k s g(3), of val]
  show ?case
  proof (cases "find (seen k s) (ent f)")
    case None
    have "\<forall>x \<in> set fs. in_version x" using Cons.prems(1) by simp
    from Cons.IH [OF this g(2)] show ?thesis
      using sv g(1) unfolding None x by (auto simp: saved_def None Let_def)
  next
    case (Some p)
    then show ?thesis using sv g(1) inv_le [OF g(2)] unfolding x
      by (cases "type (fst p)") (auto simp: saved_def Let_def get_result_def)
  qed
qed

text \<open>Which files are searched.\<close>

lemma file_keys:
  assumes "l < kNumLevels" and "f \<in> set (files_at v l)"
  obtains a b where "a \<in> set (ent f)" "b \<in> set (ent f)" "f_smallest f = AppendInternalKey [] (fst a)"
    "f_largest f = AppendInternalKey [] (fst b)"
    "\<And>p. p \<in> set (ent f) \<Longrightarrow> internal_compare c (f_smallest f) (AppendInternalKey [] (fst p)) \<le> 0"
    "\<And>p. p \<in> set (ent f) \<Longrightarrow> internal_compare c (AppendInternalKey [] (fst p)) (f_largest f) \<le> 0"
proof -
  note ct = contents [OF assms]
  let ?n = "length (ent f)"
  have ne: "0 < ?n" using ct by simp
  have key: "f_smallest f = AppendInternalKey [] (fst (ent f ! 0))" "f_largest f = AppendInternalKey [] (fst (ent f ! (?n - 1)))"
    using ct ne by (simp_all add: hd_conv_nth last_conv_nth stored_nth flip: length_greater_0_conv)
  have refl: "internal_compare c (AppendInternalKey [] (fst p)) (AppendInternalKey [] (fst p)) \<le> 0" if "p \<in> set (ent f)" for p
    using ik.cmp_refl [OF valid_Append [OF db_entries_ok [OF conjunct1 [OF ct] that]]] by simp
  show thesis
  proof (rule that [of "ent f ! 0" "ent f ! (?n - 1)"])
    fix p assume p: "p \<in> set (ent f)"
    then obtain i where i: "i < ?n" "p = ent f ! i" by (auto simp: in_set_conv_nth)
    show "internal_compare c (f_smallest f) (AppendInternalKey [] (fst p)) \<le> 0"
      using db_entries_less [of "ent f" 0 i] ct i refl [OF p] unfolding key by (cases "i = 0") (auto simp: less_imp_le)
    show "internal_compare c (AppendInternalKey [] (fst p)) (f_largest f) \<le> 0"
      using db_entries_less [of "ent f" i "?n - 1"] ct i refl [OF p] unfolding key by (cases "i = ?n - 1") (auto simp: less_imp_le)
  qed (use ne key in simp_all)
qed

lemma version_file_ok:
  assumes "l < kNumLevels" and "f \<in> set (files_at v l)"
  shows "file_ok f"
proof -
  obtain a b where "a \<in> set (ent f)" "b \<in> set (ent f)" "f_smallest f = AppendInternalKey [] (fst a)"
    "f_largest f = AppendInternalKey [] (fst b)" "internal_compare c (f_smallest f) (f_largest f) \<le> 0"
    by (rule file_keys [OF assms]) metis
  moreover have "pentry_ok (fst a)" "pentry_ok (fst b)" using db_entries_ok contents [OF assms] calculation(1,2) by blast+
  ultimately show ?thesis unfolding sound_file_def by blast
qed

lemma version_level_sorted: "0 < l \<Longrightarrow> l < kNumLevels \<Longrightarrow> level_sorted (files_at v l)"
  using version_file_ok disjoint by (auto simp: disjoint_files_def)

text \<open>The files searched when every search ends: those that are visited at a level, and at all levels.\<close>

definition level_found :: "slice \<Rightarrow> slice \<Rightarrow> nat \<Rightarrow> FileMetaData list" where
  "level_found k key l =
     (if l = 0 then newest_first (filter (\<lambda>f. 0 \<le> Compare c k (user_smallest f) \<and> Compare c k (user_largest f) \<le> 0) (files_at v 0))
      else filter (\<lambda>f. \<not> Compare c k (user_smallest f) < 0) (take 1 (drop (first_file (files_at v l) key) (files_at v l))))"

definition found :: "slice \<Rightarrow> slice \<Rightarrow> (nat \<times> FileMetaData) list" where
  "found k key = concat (map (\<lambda>l. map (Pair l) (level_found k key l)) [0..<kNumLevels])"

lemma level_candidates_found:
  assumes "l < kNumLevels" and few: "length (files_at v l) \<le> 2 ^ 31" and key: "valid_ikey valid key"
  shows "level_candidates c k key l (files_at v l) = Some (level_found k key l)"
proof (cases "l = 0")
  case True
  then show ?thesis using few by (simp add: level_candidates_def level_found_def)
next
  case False
  then obtain index where i: "FindFile c (files_at v l) key = Some index" "unat index = first_file (files_at v l) key"
    using FindFile_first [OF version_level_sorted key few] assms(1) by blast
  then show ?thesis using False
    by (cases "unat index < length (files_at v l)") (auto simp: level_candidates_def level_found_def take_one)
qed

lemma candidates_found:
  assumes "\<forall>l < kNumLevels. length (files_at v l) \<le> 2 ^ 31" and "valid_ikey valid key"
  shows "candidates c k key v = map Some (found k key)"
  unfolding candidates_def found_def map_concat map_map
  using level_candidates_found [OF _ _ assms(2)] assms(1) by (intro arg_cong [of _ _ concat] map_cong refl) simp

lemma found_in_version: "\<forall>x \<in> set (found k key). in_version x"
  by (auto simp: found_def level_found_def newest_first_def dest: in_set_takeD in_set_dropD split: if_splits)

lemma found_length: "length (found k key) \<le> length (concat (v_files v))"
proof -
  have one: "length (level_found k key l) \<le> length (files_at v l)" for l
    by (auto simp: level_found_def newest_first_def intro: order.trans [OF length_filter_le])
  have "length (found k key) = sum_list (map (\<lambda>l. length (level_found k key l)) [0..<kNumLevels])"
    by (simp add: found_def length_concat comp_def)
  also have "\<dots> \<le> sum_list (map (\<lambda>l. length (files_at v l)) [0..<kNumLevels])" by (intro sum_list_mono one)
  also have "\<dots> = sum_list (map length (v_files v))"
    using map_nth [of "v_files v"] unfolding levels by (metis (no_types, lifting) map_map comp_def map_eq_conv)
  finally show ?thesis by (simp add: length_concat)
qed

text \<open>Candidates come newest first.\<close>

definition before :: "nat \<times> FileMetaData \<Rightarrow> nat \<times> FileMetaData \<Rightarrow> bool" where
  "before x y \<longleftrightarrow> fst x < fst y \<or> fst x = 0 \<and> fst y = 0 \<and> f_number (snd y) < f_number (snd x)"

lemma newest_first_sorted:
  assumes "distinct (map f_number files)"
  shows "sorted_wrt (\<lambda>f g. f_number g < f_number f) (newest_first files)"
proof -
  let ?key = "\<lambda>f. - uint (f_number f)" and ?fs = "newest_first files"
  have "distinct (map f_number ?fs)" using assms by (simp add: newest_first_def distinct_map)
  then have "distinct (map ?key ?fs)" by (simp add: distinct_map inj_on_def word_uint_eq_iff)
  moreover have "sorted (map ?key ?fs)" by (simp add: newest_first_def)
  ultimately have "sorted_wrt (<) (map ?key ?fs)" by (simp add: strict_sorted_iff)
  then show ?thesis by (simp add: sorted_wrt_map word_less_def)
qed

lemma found_before: "sorted_wrt before (found k key)"
proof -
  let ?g = "\<lambda>l. map (Pair l) (level_found k key l)"
  have one: "sorted_wrt before (?g l)" for l
  proof (cases "l = 0")
    case True
    have "sorted_wrt (\<lambda>f g. f_number g < f_number f) (level_found k key 0)"
      unfolding level_found_def using newest_first_sorted distinct_map_filter [OF numbers] by simp
    then show ?thesis by (simp add: True sorted_wrt_map before_def)
  next
    case False
    have "length (level_found k key l) \<le> 1" using False by (auto simp: level_found_def intro: order.trans [OF length_filter_le])
    then show ?thesis by (cases "level_found k key l") simp_all
  qed
  have "sorted_wrt before (concat (map ?g [0..<n]))" for n
  proof (induction n)
    case (Suc n)
    have "\<forall>x \<in> set (concat (map ?g [0..<n])). \<forall>y \<in> set (?g n). before x y" by (auto simp: before_def)
    then show ?case using Suc one [of n] by (simp add: sorted_wrt_append del: map_map)
  qed simp
  then show ?thesis by (simp add: found_def)
qed

text \<open>An entry that no other visible entry of its user key precedes is in a candidate.\<close>

definition foremost :: "slice \<Rightarrow> SequenceNumber \<Rightarrow> pentry \<Rightarrow> bool" where
  "foremost k s p \<longleftrightarrow> seen k s p \<and>
     (\<forall>x q. in_version x \<longrightarrow> q \<in> set (ent (snd x)) \<longrightarrow> seen k s q \<longrightarrow>
        \<not> internal_compare c (AppendInternalKey [] (fst q)) (AppendInternalKey [] (fst p)) < 0)"

lemma foremost_candidate:
  assumes p: "foremost k s p" and l: "l < kNumLevels" and f: "f \<in> set (files_at v l)" "p \<in> set (ent f)"
    and k: "valid k" and s: "s \<le> kMaxSequenceNumber"
  shows "f \<in> set (level_found k (lookup_key k s) l)"
proof -
  note fk = file_okD [OF version_file_ok [OF l f(1)]]
  have pk: "user_key (fst p) = k" "sequence (fst p) \<le> s" using p by (simp_all add: foremost_def)
  have ok: "pentry_ok (fst p)" using db_entries_ok contents [OF l f(1)] f(2) by blast
  have lo: "internal_compare c (f_smallest f) (AppendInternalKey [] (fst p)) \<le> 0"
    and hi: "internal_compare c (AppendInternalKey [] (fst p)) (f_largest f) \<le> 0"
    using file_keys [OF l f(1)] f(2) by metis+
  have us: "Compare c (user_smallest f) k \<le> 0" using user_le [OF fk(1) _ lo] ok pk by simp
  have ul: "Compare c k (user_largest f) \<le> 0" using user_le [OF _ fk(2) hi] ok pk by simp
  have not_before: "\<not> Compare c k (user_smallest f) < 0" using cmp_not_less fk(4) k us by simp
  show ?thesis
  proof (cases "l = 0")
    case True
    then show ?thesis using f(1) not_before ul by (simp add: level_found_def newest_first_def)
  next
    case False
    then have sorted: "level_sorted (files_at v l)" using version_level_sorted l by simp
    have vl: "valid_ikey valid (lookup_key k s)" using k by simp
    let ?n = "first_file (files_at v l) (lookup_key k s)"
    obtain i where i: "i < length (files_at v l)" "f = files_at v l ! i" using f(1) by (auto simp: in_set_conv_nth)
    have ge: "\<not> internal_compare c (AppendInternalKey [] (fst p)) (lookup_key k s) < 0"
      using below_lookup [OF ok k s] pk cmp_irrefl [OF k] by auto
    then have "\<not> internal_compare c (f_largest f) (lookup_key k s) < 0"
      using ik.cmp_le_less_trans [OF valid_Append [OF ok] fk(2) vl hi] by blast
    then have ni: "?n \<le> i" using first_file_splits(2) [OF sorted vl i(1)] i(2) by simp
    have "?n = i"
    proof (rule ccontr)
      assume "?n \<noteq> i"
      then have lt: "?n < i" using ni by simp
      let ?g = "files_at v l ! ?n"
      have g: "?g \<in> set (files_at v l)" using lt i(1) by simp
      note gk = file_okD [OF version_file_ok [OF l g]]
      obtain b where b: "b \<in> set (ent ?g)" "f_largest ?g = AppendInternalKey [] (fst b)" by (rule file_keys [OF l g])
      have bok: "pentry_ok (fst b)" using db_entries_ok contents [OF l g] b(1) by blast
      have "internal_compare c (f_largest ?g) (f_smallest f) < 0" using level_sorted_nth(1) [OF sorted lt i(1)] i(2) by simp
      then have bp: "internal_compare c (AppendInternalKey [] (fst b)) (AppendInternalKey [] (fst p)) < 0"
        using ik.cmp_less_le_trans gk(2) fk(1) valid_Append [OF ok] lo b(2) by metis
      then have "Compare c (user_key (fst b)) k \<le> 0"
        using user_le [of "AppendInternalKey [] (fst b)" "AppendInternalKey [] (fst p)"] ok bok pk by simp
      moreover have "\<not> internal_compare c (AppendInternalKey [] (fst b)) (lookup_key k s) < 0"
        using first_file_splits(2) [OF sorted vl, of ?n] lt i(1) b(2) by simp
      ultimately have "Compare c (user_key (fst b)) k = 0" "\<not> (user_key (fst b) = k \<and> s < sequence (fst b))"
        unfolding below_lookup [OF bok k s] by simp_all
      then have "seen k s b" using cmp_eq bok k by (auto simp: sound_key_def)
      moreover have "in_version (l, ?g)" using l g by simp
      ultimately show False using p b(1) bp unfolding foremost_def by (metis snd_conv)
    qed
    then show ?thesis using False i not_before by (simp add: level_found_def take_one)
  qed
qed

lemma find_foremost:
  assumes p: "foremost k s p" and l: "l < kNumLevels" and f: "f \<in> set (files_at v l)" "p \<in> set (ent f)"
  shows "find (seen k s) (ent f) = Some p"
proof -
  obtain j where j: "j < length (ent f)" "p = ent f ! j" using f(2) by (auto simp: in_set_conv_nth)
  have "\<not> seen k s (ent f ! m)" if "m < j" for m
  proof
    assume "seen k s (ent f ! m)"
    moreover have "in_version (l, f)" "ent f ! m \<in> set (ent f)" using l f that j(1) by simp_all
    moreover have "internal_compare c (AppendInternalKey [] (fst (ent f ! m))) (AppendInternalKey [] (fst p)) < 0"
      using db_entries_less that j contents [OF l f(1)] by simp
    ultimately show False using p unfolding foremost_def by (metis snd_conv)
  qed
  then show ?thesis using j p by (auto simp: find_Some_iff foremost_def intro!: exI [of _ j])
qed

lemma first_hit_append: "first_hit k s (xs @ ys) = (case first_hit k s xs of None \<Rightarrow> first_hit k s ys | Some p \<Rightarrow> Some p)"
  by (induction xs rule: first_hit.induct) (auto split: option.splits)

lemma first_hit_None: "first_hit k s xs = None \<longleftrightarrow> (\<forall>x \<in> set xs. find (seen k s) (ent (snd x)) = None)"
  by (induction xs rule: first_hit.induct) (auto split: option.splits)

lemma first_hit_foremost:
  assumes p: "foremost k s p" and l: "l < kNumLevels" and f: "f \<in> set (files_at v l)" "p \<in> set (ent f)"
    and k: "valid k" and s: "s \<le> kMaxSequenceNumber"
  shows "first_hit k s (found k (lookup_key k s)) = Some p"
proof -
  let ?cs = "found k (lookup_key k s)"
  have "(l, f) \<in> set ?cs" using foremost_candidate [OF assms] l by (auto simp: found_def)
  from split_list [OF this] obtain us ws where cs: "?cs = us @ (l, f) # ws" by blast
  have "find (seen k s) (ent (snd u)) = None" if u: "u \<in> set us" for u
  proof (rule ccontr)
    assume "find (seen k s) (ent (snd u)) \<noteq> None"
    then obtain q where q: "q \<in> set (ent (snd u))" "seen k s q" by (auto simp: find_None_iff)
    have "u \<in> set ?cs" using u by (simp add: cs)
    then have uv: "in_version u" using found_in_version by blast
    have "before u (l, f)" using found_before [of k "lookup_key k s"] u by (simp add: cs sorted_wrt_append)
    then have "sequence (fst p) < sequence (fst q)"
      using newer [of "fst u" l "snd u" f q p] uv l f q p by (auto simp: before_def foremost_def)
    moreover have "pentry_ok (fst p)" "pentry_ok (fst q)" using db_entries_ok contents l f uv q(1) by blast+
    ultimately have "internal_compare c (AppendInternalKey [] (fst q)) (AppendInternalKey [] (fst p)) < 0"
      using q(2) p cmp_refl [OF k] pack_word [of "sequence (fst p)" "type (fst p)"] pack_word [of "sequence (fst q)" "type (fst q)"]
      by (cases "type (fst p)"; cases "type (fst q)")
        (auto simp: internal_compare_less foremost_def sound_key_def word_less_nat_alt)
    then show False using p uv q unfolding foremost_def by blast
  qed
  then have "first_hit k s us = None" by (simp add: first_hit_None)
  then show ?thesis using find_foremost [OF p l f] by (simp add: cs first_hit_append)
qed

definition all_entries :: "pentry set" where
  "all_entries = (\<Union>l < kNumLevels. \<Union>f \<in> set (files_at v l). set (ent f))"

lemma first_hit_find:
  assumes db: "db_entries c valid qs" and qs: "set qs = all_entries" and k: "valid k" and s: "s \<le> kMaxSequenceNumber"
  shows "first_hit k s (found k (lookup_key k s)) = find (seen k s) qs"
proof (cases "find (seen k s) qs")
  case None
  then have none: "\<not> seen k s q" if "q \<in> all_entries" for q using that unfolding qs [symmetric] find_None_iff by blast
  have "find (seen k s) (ent (snd x)) = None" if "x \<in> set (found k (lookup_key k s))" for x
    using found_in_version that none unfolding find_None_iff all_entries_def by blast
  then show ?thesis using None by (simp add: first_hit_None)
next
  case (Some p)
  then obtain i where i: "i < length qs" "p = qs ! i" "seen k s p" "\<And>j. j < i \<Longrightarrow> \<not> seen k s (qs ! j)"
    by (auto simp: find_Some_iff)
  have "\<not> internal_compare c (AppendInternalKey [] (fst q)) (AppendInternalKey [] (fst p)) < 0"
    if "q \<in> all_entries" "seen k s q" for q
  proof -
    from that(1) obtain j where j: "j < length qs" "q = qs ! j" by (auto simp: in_set_conv_nth simp flip: qs)
    then have "i \<le> j" using i(4) [of j] that(2) by (meson not_le_imp_less)
    moreover have "pentry_ok (fst p)" "pentry_ok (fst q)" using db_entries_ok [OF db] i j by auto
    moreover note pq = this
    ultimately consider "p = q" | "internal_compare c (AppendInternalKey [] (fst p)) (AppendInternalKey [] (fst q)) < 0"
      using db_entries_less [OF db _ j(1)] i(2) j(2) by (metis le_neq_implies_less)
    then show ?thesis
      using ik.cmp_irrefl [OF valid_Append [OF pq(1)]] ik.cmp_asym [OF valid_Append [OF pq(1)] valid_Append [OF pq(2)]]
      by cases (simp, blast)
  qed
  then have fp: "foremost k s p" using i(3) unfolding foremost_def all_entries_def by blast
  have "p \<in> all_entries" using i(1,2) by (simp flip: qs)
  then obtain l f where "l < kNumLevels" "f \<in> set (files_at v l)" "p \<in> set (ent f)" by (auto simp: all_entries_def)
  from first_hit_foremost [OF fp this k s] Some show ?thesis by simp
qed

end

section \<open>The view of the database\<close>

lemma map_of_unique: "(k, y) \<in> set xs \<Longrightarrow> (\<And>y'. (k, y') \<in> set xs \<Longrightarrow> y' = y) \<Longrightarrow> map_of xs k = Some y"
proof -
  assume "(k, y) \<in> set xs" and only: "\<And>y'. (k, y') \<in> set xs \<Longrightarrow> y' = y"
  then obtain y' where "map_of xs k = Some y'" using weak_map_of_SomeI [of k y xs] by blast
  with only [OF map_of_SomeD [OF this]] show ?thesis by simp
qed

lemma map_of_absent: "(\<And>y. (k, y) \<notin> set xs) \<Longrightarrow> map_of xs k = None"
  by (cases "map_of xs k") (auto dest: map_of_SomeD)

lemma map_of_db_view:
  "map_of (db_view s qs) k = (case find (\<lambda>p. user_key (fst p) = k \<and> sequence (fst p) \<le> s) qs of
     None \<Rightarrow> None | Some p \<Rightarrow> if type (fst p) = kTypeValue then Some (snd p) else None)"
proof -
  let ?P = "\<lambda>p. user_key (fst p) = k \<and> sequence (fst p) \<le> s"
  have mem: "(k, y) \<in> set (db_view s qs) \<longleftrightarrow> (\<exists>i < length qs. winner s qs i \<and> ukey qs i = k \<and> y = snd (qs ! i))" for y
    by (auto simp: db_view_def picks_def)
  show ?thesis
  proof (cases "find ?P qs")
    case None
    then have "\<not> (winner s qs i \<and> ukey qs i = k)" if "i < length qs" for i
      using that unfolding find_None_nth winner_def visible_def by blast
    then have "map_of (db_view s qs) k = None" using mem by (intro map_of_absent) blast
    then show ?thesis using None by simp
  next
    case (Some p)
    then obtain i where i: "i < length qs" "p = qs ! i" "?P p" "\<And>j. j < i \<Longrightarrow> \<not> ?P (qs ! j)" by (auto simp: find_Some_iff)
    have only: "m = i" if "winner s qs m" "ukey qs m = k" "m < length qs" for m
    proof (rule linorder_cases [of m i])
      assume "m < i"
      then show ?thesis using i(4) [of m] that(1,2) by (simp add: winner_def visible_def)
    next
      assume "i < m"
      moreover have "\<forall>j < m. ukey qs j = k \<longrightarrow> \<not> sequence (fst (qs ! j)) \<le> s"
        using that(1) unfolding winner_def visible_def that(2) by (elim conjE)
      ultimately show ?thesis using i(3) unfolding i(2) by blast
    qed simp
    have wi: "winner s qs i \<longleftrightarrow> type (fst p) = kTypeValue"
      using i(4) unfolding winner_def visible_def i(2) [symmetric] using i(3) by blast
    show ?thesis
    proof (cases "type (fst p) = kTypeValue")
      case True
      have "map_of (db_view s qs) k = Some (snd p)"
      proof (rule map_of_unique)
        show "(k, snd p) \<in> set (db_view s qs)" unfolding mem using wi True i(1-3) by blast
        show "y = snd p" if "(k, y) \<in> set (db_view s qs)" for y using that only i(2) unfolding mem by blast
      qed
      then show ?thesis using Some True by simp
    next
      case False
      then have "map_of (db_view s qs) k = None" using mem only wi by (intro map_of_absent) blast
      then show ?thesis using Some False by simp
    qed
  qed
qed

context version_contents
begin

lemma Version_Get_view:
  assumes db: "db_entries c valid qs" and qs: "set qs = all_entries" and k: "valid k" and s: "s \<le> kMaxSequenceNumber"
    and few: "\<forall>l < kNumLevels. length (files_at v l) \<le> 2 ^ 31" and inv: "inv (length (concat (v_files v)) + n) cache"
  shows "\<exists>stats cache'. Version_Get cache_Get c v (make_LookupKey k s) val cache
      = Some (case map_of (db_view s qs) k of
          Some x \<Rightarrow> (OK, x, stats, cache') | None \<Rightarrow> (make_Status kNotFound [] [], val, stats, cache')) \<and> inv n cache'"
proof -
  let ?st = "\<lparr>gs_seek_file = None, gs_seek_file_level = - 1\<rparr>" and ?fs = "found k (lookup_key k s)"
  have lk: "valid_ikey valid (lookup_key k s)" using k by simp
  have "length ?fs \<le> length (concat (v_files v))" by (rule found_length)
  then have "inv (length ?fs + n) cache"
    using inv_le [of "length (concat (v_files v)) - length ?fs" "length ?fs + n"] inv by simp
  from get_loop_first_hit [OF found_in_version this k s, of None val ?st]
  obtain stats cache' where "get_loop cache_Get c k (lookup_key k s) (candidates c k (lookup_key k s) v) None val ?st cache
      = Some (fst (get_result val (find (seen k s) qs)), snd (get_result val (find (seen k s) qs)), stats, cache')" "inv n cache'"
    unfolding first_hit_find [OF db qs k s] candidates_found [OF few lk] by blast
  then show ?thesis
    by (intro exI [of _ stats] exI [of _ cache'])
      (auto simp: Version_Get_def internal_key_make Let_def map_of_db_view get_result_def split: option.splits)
qed

end

section \<open>Properties\<close>

text \<open>C8: \<open>GetOverlappingInputs\<close> always ends, although it starts again whenever a file of level 0 widens the
  range. On level 0 it returns exactly the files that a chain of files, each meeting the next, connects to the
  range; on other levels exactly the files that meet the range. They come in the order of the level.\<close>

theorem overlapping_inputs_closure:
  assumes "comparator c valid" and "\<forall>f \<in> set (files_at v level). sound_file c valid f"
    and "\<forall>k. begin_key = Some k \<longrightarrow> valid (ExtractUserKey k)" and "\<forall>k. end_key = Some k \<longrightarrow> valid (ExtractUserKey k)"
  shows "GetOverlappingInputs c v level begin_key end_key
    = Some (filter (if level = 0 then connected c (files_at v level) (map_option ExtractUserKey begin_key) (map_option ExtractUserKey end_key)
                    else file_overlaps c (map_option ExtractUserKey begin_key) (map_option ExtractUserKey end_key)) (files_at v level))"
proof (rule comparator.overlapping_inputs [OF assms(1,2)])
  show "\<forall>k. map_option ExtractUserKey begin_key = Some k \<longrightarrow> valid k" "\<forall>k. map_option ExtractUserKey end_key = Some k \<longrightarrow> valid k"
    using assms(3,4) by auto
qed

text \<open>C38: for up to \<open>2^31\<close> files, \<open>SomeFileOverlapsRange\<close> returns and answers whether some file meets the
  range, as a scan of all files does, although it looks at a single file found by binary search when the files are
  sorted and disjoint: the sum of the 32-bit bounds of the search does not wrap around.\<close>

theorem some_file_overlaps_exact:
  assumes "comparator c valid" and "if disjoint then disjoint_files c valid files else (\<forall>f \<in> set files. sound_file c valid f)"
    and "\<forall>k. lo = Some k \<longrightarrow> valid k" and "\<forall>k. hi = Some k \<longrightarrow> valid k" and "length files \<le> 2 ^ 31"
  shows "SomeFileOverlapsRange c disjoint files lo hi = Some (\<exists>f \<in> set files. file_overlaps c lo hi f)"
  by (rule comparator.some_file_overlaps [OF assms])

definition sample_range :: "byte \<Rightarrow> byte \<Rightarrow> FileMetaData" where
  "sample_range a b = \<lparr>f_refs = 1, f_allowed_seeks = 100, f_number = 1, f_file_size = 9,
     f_smallest = AppendInternalKey [] \<lparr>user_key = [a], sequence = 5, type = kTypeValue\<rparr>,
     f_largest = AppendInternalKey [] \<lparr>user_key = [b], sequence = 3, type = kTypeValue\<rparr>\<rparr>"

lemma sample_range_sound: "a < b \<Longrightarrow> sound_file BytewiseComparator (\<lambda>_. True) (sample_range a b)"
  unfolding sound_file_def
  by (intro exI [of _ "\<lparr>user_key = [a], sequence = 5, type = kTypeValue\<rparr>"] exI [of _ "\<lparr>user_key = [b], sequence = 3, type = kTypeValue\<rparr>"])
    (auto simp: sample_range_def sound_key_def kMaxSequenceNumber_def internal_compare_def BytewiseComparator_def Let_def)

lemma sample_range_overlaps:
  "file_overlaps BytewiseComparator (Some [x]) (Some [y]) (sample_range a b) \<longleftrightarrow> x \<le> b \<and> a \<le> y"
  by (auto simp: file_overlaps_def sample_range_def BytewiseComparator_def)

theorem overlapping_inputs_closure_witness:
  "GetOverlappingInputs BytewiseComparator (make_Version\<lparr>v_files := [[sample_range 1 4, sample_range 8 9, sample_range 3 6]]\<rparr>) 0
      (Some (limit_key [5])) (Some (limit_key [5])) = Some [sample_range 1 4, sample_range 3 6]"
proof -
  let ?fs = "[sample_range 1 4, sample_range 8 9, sample_range 3 6]" and ?c = "connected BytewiseComparator"
  have keys: "user_smallest (sample_range a b) = [a]" "user_largest (sample_range a b) = [b]" for a b by (simp_all add: sample_range_def)
  have e: "ExtractUserKey (limit_key [5]) = [5]" by (simp add: limit_key_def)
  have c3: "?c ?fs (Some [5]) (Some [5]) (sample_range 3 6)" by (rule direct) (simp_all add: sample_range_overlaps)
  have c1: "?c ?fs (Some [5]) (Some [5]) (sample_range 1 4)" by (rule chain [OF c3]) (simp_all add: keys sample_range_overlaps)
  have "f = sample_range 1 4 \<or> f = sample_range 3 6" if "?c ?fs (Some [5]) (Some [5]) f" for f
    using that by induction (auto simp: keys sample_range_overlaps)
  moreover have "sample_range 8 9 \<noteq> sample_range 1 4" "sample_range 8 9 \<noteq> sample_range 3 6"
    using keys(1) [of 8 9] keys(1) [of 1 4] keys(1) [of 3 6] by auto
  ultimately have "\<not> ?c ?fs (Some [5]) (Some [5]) (sample_range 8 9)" by blast
  with c1 c3 have "filter (?c ?fs (Some [5]) (Some [5])) ?fs = [sample_range 1 4, sample_range 3 6]" by simp
  then show ?thesis
    using overlapping_inputs_closure [OF bytewise.comparator_axioms, of "make_Version\<lparr>v_files := [?fs]\<rparr>" 0 "Some (limit_key [5])" "Some (limit_key [5])"]
      sample_range_sound by (simp add: e)
qed

theorem some_file_overlaps_exact_witness:
  "SomeFileOverlapsRange BytewiseComparator True [sample_range 1 4, sample_range 8 9] (Some [5]) (Some [8]) = Some True
   \<and> SomeFileOverlapsRange BytewiseComparator True [sample_range 1 4, sample_range 8 9] (Some [5]) (Some [7]) = Some False"
proof -
  have "disjoint_files BytewiseComparator (\<lambda>_. True) [sample_range 1 4, sample_range 8 9]"
    using sample_range_sound by (simp add: disjoint_files_def)
      (simp add: sample_range_def internal_compare_def BytewiseComparator_def Let_def)
  then show ?thesis
    using some_file_overlaps_exact [OF bytewise.comparator_axioms, of True "[sample_range 1 4, sample_range 8 9]" "Some [5]" "Some [8]"]
      some_file_overlaps_exact [OF bytewise.comparator_axioms, of True "[sample_range 1 4, sample_range 8 9]" "Some [5]" "Some [7]"]
    by (simp add: sample_range_overlaps)
qed

end
