(* ===== verification/Ldb_Filename_Correct.thy ===== *)
theory Ldb_Filename_Correct
  imports Ldb_Filename
begin

text \<open>
  Decimal numbers are read exactly, without overflow, and file names give back their number and type.
\<close>

section \<open>Decimal numbers\<close>

abbreviation is_digit :: "char \<Rightarrow> bool" where
  "is_digit ch \<equiv> 48 \<le> (of_char ch :: nat) \<and> (of_char ch :: nat) \<le> 57"

definition decimal :: "string \<Rightarrow> nat" where
  "decimal ds = foldl (\<lambda>n ch. n * 10 + (of_char ch - 48)) 0 ds"

lemma decimal_Nil [simp]: "decimal [] = 0" and decimal_snoc [simp]: "decimal (ds @ [ch]) = decimal ds * 10 + (of_char ch - 48)"
  by (simp_all add: decimal_def)

lemma of_char_digit [simp]: "d < 10 \<Longrightarrow> (of_char (digit_char d) :: nat) = 48 + d"
  by (simp add: digit_char_def of_char_of take_bit_nat_eq_self)

lemma print_decimal_digits: "\<forall>ch \<in> set (print_decimal n). is_digit ch" "print_decimal n \<noteq> []" "decimal (print_decimal n) = n"
proof (induction n rule: print_decimal.induct)
  case (1 n)
  { case 1
    show ?case using "1.IH"(1) by (subst print_decimal.simps) (auto simp: of_char_digit)
  next
    case 2
    show ?case by (subst print_decimal.simps) simp
  next
    case 3
    show ?case using "1.IH"(3) decimal_snoc [of "[]" "digit_char n"] by (subst print_decimal.simps) (auto simp: of_char_digit)
  }
qed

lemma decimal_zeros: "decimal (replicate k CHR ''0'' @ ds) = decimal ds"
proof -
  have "foldl (\<lambda>n ch. n * 10 + (of_char ch - 48)) (0 :: nat) (replicate k CHR ''0'') = 0" by (induction k) simp_all
  then show ?thesis by (simp add: decimal_def)
qed

lemma print_decimal6_digits:
  "\<forall>ch \<in> set (print_decimal6 n). is_digit ch" "print_decimal6 n \<noteq> []" "decimal (print_decimal6 n) = n"
  using print_decimal_digits [of n] by (auto simp: print_decimal6_def Let_def decimal_zeros)

text \<open>The overflow check of the loop is exact.\<close>

lemma overflow_check:
  fixes v :: uint64
  assumes "d < 10"
  shows "((- 1) div 10 < v \<or> v = (- 1) div 10 \<and> 48 + unat ((- 1 :: uint64) mod 10) < 48 + d) \<longleftrightarrow> 2 ^ 64 \<le> unat v * 10 + d"
proof -
  have m: "(- 1 :: uint64) div 10 = 1844674407370955161" "(- 1 :: uint64) mod 10 = 5" by simp_all
  show ?thesis unfolding m using assms by (auto simp: word_less_nat_alt word_unat_eq_iff)
qed

lemma decimal_loop_digits:
  assumes "\<forall>ch \<in> set ds. is_digit ch" and "rest = [] \<or> \<not> is_digit (hd rest)"
  shows "decimal_loop v n (ds @ rest) =
    (let d = foldl (\<lambda>n ch. n * 10 + (of_char ch - 48)) (unat v) ds
     in if d < 2 ^ 64 then Some (of_nat d, n + length ds, rest) else None)"
  using assms(1)
proof (induction ds arbitrary: v n)
  case Nil
  then show ?case using assms(2) unsigned_less [of v] by (cases rest) (auto simp: Let_def)
next
  case (Cons ch ds)
  let ?d = "of_char ch - 48 :: nat" and ?f = "\<lambda>n ch. n * 10 + (of_char ch - 48) :: nat"
  have d: "is_digit ch" "(of_char ch :: nat) = 48 + ?d" "?d < 10" using Cons.prems by auto
  have mono: "m \<le> foldl ?f m xs" for m xs 
  proof (induction xs arbitrary: m)
    case (Cons a xs)
    have "m \<le> m * 10 + (of_char a - 48)" by simp
    also have "\<dots> \<le> foldl ?f (m * 10 + (of_char a - 48)) xs" by (rule Cons.IH)
    finally show ?case by simp
  qed simp
  show ?case
  proof (cases "2 ^ 64 \<le> unat v * 10 + ?d")
    case True
    then have "\<not> foldl ?f (unat v) (ch # ds) < 2 ^ 64" using mono [of "unat v * 10 + ?d" ds] by simp
    then show ?thesis using overflow_check [OF d(3), of v] True d(1,2) by (simp add: Let_def)
  next
    case False
    then have u: "unat (v * 10 + of_nat ?d) = unat v * 10 + ?d"
      by (simp add: unat_word_ariths unat_of_nat)
    have "decimal_loop v n ((ch # ds) @ rest) = decimal_loop (v * 10 + of_nat ?d) (n + 1) (ds @ rest)"
      using overflow_check [OF d(3), of v] False d(1,2) by (auto simp: Let_def)
    also have "\<dots> = (let d = foldl ?f (unat v) (ch # ds) in if d < 2 ^ 64 then Some (of_nat d, n + length (ch # ds), rest) else None)"
      unfolding foldl_Cons u [symmetric] using Cons.IH [of "v * 10 + of_nat ?d" "n + 1"] Cons.prems
      by (simp add: Let_def del: of_nat_diff)
    finally show ?thesis .
  qed
qed

section \<open>Properties\<close>

text \<open>C40: \<open>ConsumeDecimalNumber\<close> reads all leading digits, returns their value exactly if it fits
  in 64 bits, and fails without touching the input otherwise; with no digit it fails as well.\<close>

theorem consume_decimal_exact:
  "ConsumeDecimalNumber inp =
     (let ds = takeWhile is_digit inp
      in if decimal ds < 2 ^ 64 then (ds \<noteq> [], Some (of_nat (decimal ds)), dropWhile is_digit inp) else (False, None, inp))"
proof -
  let ?ds = "takeWhile is_digit inp" and ?rest = "dropWhile is_digit inp"
  have "decimal_loop 0 0 (?ds @ ?rest) = (if decimal ?ds < 2 ^ 64 then Some (of_nat (decimal ?ds), length ?ds, ?rest) else None)"
  proof (subst decimal_loop_digits)
    show "\<forall>ch \<in> set ?ds. is_digit ch" using set_takeWhileD [of _ is_digit inp] by blast
    show "?rest = [] \<or> \<not> is_digit (hd ?rest)" using hd_dropWhile [of is_digit inp] by blast
  qed (simp add: decimal_def Let_def)
  then show ?thesis unfolding ConsumeDecimalNumber_def Let_def takeWhile_dropWhile_id by simp
qed

lemma consume_digits:
  assumes "\<forall>ch \<in> set ds. is_digit ch" "ds \<noteq> []" "decimal ds = unat n" "rest = [] \<or> \<not> is_digit (hd rest)"
  shows "ConsumeDecimalNumber (ds @ rest) = (True, Some n, rest)"
proof -
  have "decimal_loop 0 0 (ds @ rest) = Some (n, length ds, rest)"
    using decimal_loop_digits [OF assms(1,4), of 0 0] assms(3) unsigned_less [of n] by (simp add: decimal_def Let_def)
  then show ?thesis using assms(2) by (simp add: ConsumeDecimalNumber_def)
qed

lemma parse_numbered:
  assumes "rest \<noteq> []" "\<not> is_digit (hd rest)"
  shows "ParseFileName (print_decimal6 (unat n) @ rest) =
    (if rest = ''.log'' then Some (n, kLogFile) else if rest = ''.sst'' \<or> rest = ''.ldb'' then Some (n, kTableFile)
     else if rest = ''.dbtmp'' then Some (n, kTempFile) else None)"
proof -
  note d = print_decimal6_digits [of "unat n"]
  obtain ch ds where ds: "print_decimal6 (unat n) = ch # ds" using d(2) by (cases "print_decimal6 (unat n)") auto
  have "is_digit ch" using d(1) ds by simp
  then have "ch \<noteq> CHR ''C''" "ch \<noteq> CHR ''L''" "ch \<noteq> CHR ''M''" by auto
  then have "\<not> string_starts_with (print_decimal6 (unat n) @ rest) ''MANIFEST-''" "print_decimal6 (unat n) @ rest \<noteq> ''CURRENT''"
    "print_decimal6 (unat n) @ rest \<noteq> ''LOCK''" "print_decimal6 (unat n) @ rest \<noteq> ''LOG''" "print_decimal6 (unat n) @ rest \<noteq> ''LOG.old''"
    by (simp_all add: ds string_starts_with_def)
  then show ?thesis using consume_digits [OF d, of rest] assms by (simp add: ParseFileName_def)
qed

lemma file_name_number: "TableFileName db n = TableFileName db m \<Longrightarrow> n = m"
proof -
  assume "TableFileName db n = TableFileName db m"
  then have "ParseFileName (print_decimal6 (unat n) @ ''.ldb'') = ParseFileName (print_decimal6 (unat m) @ ''.ldb'')"
    by (simp add: TableFileName_def MakeFileName_def)
  then show ?thesis using parse_numbered [of "''.ldb''" n] parse_numbered [of "''.ldb''" m] by simp
qed

text \<open>C39: the part of a file name behind the directory parses back to the number and the type of the file, for
  every number greater than 0, which the code asserts where it makes a name; a table is found under its new and
  its old name. This includes the temporary files, which the comment above \<open>ParseFileName\<close> leaves out.\<close>

theorem file_names_round_trip:
  assumes "0 < n"
  shows "ParseFileName (drop (length db + 1) (LogFileName db n)) = Some (n, kLogFile)
   \<and> ParseFileName (drop (length db + 1) (TableFileName db n)) = Some (n, kTableFile)
   \<and> ParseFileName (drop (length db + 1) (SSTTableFileName db n)) = Some (n, kTableFile)
   \<and> ParseFileName (drop (length db + 1) (TempFileName db n)) = Some (n, kTempFile)
   \<and> ParseFileName (drop (length db + 1) (DescriptorFileName db n)) = Some (n, kDescriptorFile)
   \<and> ParseFileName (drop (length db + 1) (CurrentFileName db)) = Some (0, kCurrentFile)
   \<and> ParseFileName (drop (length db + 1) (LockFileName db)) = Some (0, kDBLockFile)
   \<and> ParseFileName (drop (length db + 1) (InfoLogFileName db)) = Some (0, kInfoLogFile)
   \<and> ParseFileName (drop (length db + 1) (OldInfoLogFileName db)) = Some (0, kInfoLogFile)"
proof -
  have "ParseFileName (''MANIFEST-'' @ print_decimal6 (unat n)) = Some (n, kDescriptorFile)"
    using consume_digits [OF print_decimal6_digits, where n = n and rest = "[]"] by (simp add: ParseFileName_def string_starts_with_def)
  then show ?thesis
    using parse_numbered [of "''.log''" n] parse_numbered [of "''.ldb''" n] parse_numbered [of "''.sst''" n] parse_numbered [of "''.dbtmp''" n]
    by (simp add: LogFileName_def TableFileName_def SSTTableFileName_def TempFileName_def MakeFileName_def DescriptorFileName_def
        CurrentFileName_def LockFileName_def InfoLogFileName_def OldInfoLogFileName_def ParseFileName_def [of "''CURRENT''"]
        ParseFileName_def [of "''LOCK''"] ParseFileName_def [of "''LOG''"] ParseFileName_def [of "''LOG.old''"])
qed

theorem file_names_round_trip_witness:
  "TempFileName ''db'' 5 = ''db/000005.dbtmp'' \<and> ParseFileName ''000005.dbtmp'' = Some (5, kTempFile)
   \<and> DescriptorFileName ''db'' 5 = ''db/MANIFEST-000005'' \<and> ParseFileName ''MANIFEST-000005'' = Some (5, kDescriptorFile)"
proof -
  have "TempFileName ''db'' 5 = ''db/000005.dbtmp''" "DescriptorFileName ''db'' 5 = ''db/MANIFEST-000005''" by code_simp+
  then show ?thesis using file_names_round_trip [of 5 "''db''"] by simp
qed

end
