(* ===== verification/Ldb_TableCache_Correct.thy ===== *)
theory Ldb_TableCache_Correct
  imports Ldb_TableCache Ldb_Cache_Client Ldb_Table_Get Ldb_Version_Correct Ldb_Filename_Correct
begin

text \<open>
  Lookups through the table cache, and with them lookups in a version of the database, down to the
  bytes of the table files.
\<close>

section \<open>The table cache\<close>

text \<open>Files \<open>N\<close> that open as tables, over any cache that keeps its contract. \<open>tables n\<close> says that the tables
  in the cache are those of their files and that \<open>n\<close> more can be opened.\<close>

locale table_files = lossy_cache cops inv content allocated
  for cops :: "('c, 'p, 'f TableAndFile) Cache" and inv :: "('p \<Rightarrow> nat) \<Rightarrow> 'c \<Rightarrow> bool"
    and content :: "'c \<Rightarrow> slice \<Rightarrow> 'f TableAndFile \<Rightarrow> bool" and allocated :: "'c \<Rightarrow> nat" +
  fixes new_file :: "'f new_file" and rops :: "'f RandomAccessFile" and snappy :: Snappy and dbname :: string and options :: Options
    and N :: "uint64 set" and size_of :: "uint64 \<Rightarrow> uint64" and table_of :: "uint64 \<Rightarrow> 'f Table"
  assumes opens: "n \<in> N \<Longrightarrow> \<exists>f. open_table_file new_file dbname n = (OK, Some f)
      \<and> Table_Open rops snappy options f (size_of n) = Some (OK, Some (table_of n))"
begin

definition tables :: "nat \<Rightarrow> 'c TableCache \<Rightarrow> bool" where
  "tables b tc \<longleftrightarrow> tc_dbname tc = dbname \<and> tc_options tc = options \<and> inv (\<lambda>_. 0) (tc_cache tc) \<and> allocated (tc_cache tc) + b + 1 < 2 ^ 31
     \<and> (\<forall>n \<in> N. \<forall>v. content (tc_cache tc) (EncodeFixed64 n) v \<longrightarrow> tf_table v = table_of n)"

lemma tables_less: "tables (Suc b) tc \<Longrightarrow> tables b tc"
  by (simp add: tables_def)

lemma FindTable_spec:
  assumes tc: "tables (Suc b) tc" and n: "n \<in> N"
  shows "\<exists>h tf cache. FindTable new_file rops snappy cops n (size_of n) tc = Some (OK, Some h, tc\<lparr>tc_cache := cache\<rparr>)
    \<and> inv ((\<lambda>_. 0)(h := 1)) cache \<and> c_Value cops h cache = Some tf \<and> tf_table tf = table_of n \<and> allocated cache + b + 1 < 2 ^ 31
    \<and> (\<forall>n \<in> N. \<forall>v. content cache (EncodeFixed64 n) v \<longrightarrow> tf_table v = table_of n)"
proof -
  let ?key = "EncodeFixed64 n"
  have i: "inv (\<lambda>_. 0) (tc_cache tc)" using tc by (simp add: tables_def)
  have "(\<lambda>_. 0 :: nat) p + 2 < 2 ^ 32" for p :: 'p by simp
  from lookup [OF i this, of ?key] obtain r cache where r: "c_Lookup cops ?key (tc_cache tc) = Some (r, cache)"
    "content cache = content (tc_cache tc)" "allocated cache = allocated (tc_cache tc)"
    "case r of None \<Rightarrow> inv (\<lambda>_. 0) cache \<and> (\<forall>v. \<not> content (tc_cache tc) ?key v)
       | Some p \<Rightarrow> inv ((\<lambda>_. 0)(p := 0 + 1)) cache \<and> (\<exists>v. content (tc_cache tc) ?key v \<and> c_Value cops p cache = Some v)"
    by (elim exE conjE) (rule that)
  show ?thesis
  proof (cases r)
    case (Some h)
    then obtain tf where "inv ((\<lambda>_. 0)(h := 1)) cache" "content (tc_cache tc) ?key tf" "c_Value cops h cache = Some tf" using r(4) by auto
    then show ?thesis using r(1-3) tc n Some
      by (intro exI [of _ h] exI [of _ tf] exI [of _ cache]) (simp add: FindTable_def tables_def Let_def)
  next
    case None
    then have i': "inv (\<lambda>_. 0) cache" using r(4) by simp
    from opens [OF n] obtain f where f: "open_table_file new_file dbname n = (OK, Some f)"
      "Table_Open rops snappy options f (size_of n) = Some (OK, Some (table_of n))" by blast
    let ?tf = "\<lparr>tf_file = f, tf_table = table_of n\<rparr>"
    have "allocated cache + 1 < 2 ^ 31" using tc r(3) by (simp add: tables_def)
    from insert [OF i' this, of ?key ?tf 1] obtain h cache' where h: "c_Insert cops ?key ?tf 1 cache = Some (h, cache')"
      "inv ((\<lambda>_. 0)(h := 1)) cache'" "c_Value cops h cache' = Some ?tf" "allocated cache' = allocated cache + 1"
      "\<forall>k' v'. content cache' k' v' \<longrightarrow> (if k' = ?key then v' = ?tf else content cache k' v')" by (elim exE conjE) (rule that)
    have "FindTable new_file rops snappy cops n (size_of n) tc = Some (OK, Some h, tc\<lparr>tc_cache := cache'\<rparr>)"
      using r(1) None f h(1) tc by (simp add: FindTable_def Let_def tables_def)
    moreover have "tf_table v = table_of m" if "m \<in> N" "content cache' (EncodeFixed64 m) v" for m v
    proof (cases "EncodeFixed64 m = ?key")
      case True
      then have "m = n" by (metis DecodeFixed64_Encode append_Nil2)
      moreover have "v = ?tf" using h(5) that(2) True by presburger
      ultimately show ?thesis by simp
    next
      case False
      then have "content cache (EncodeFixed64 m) v" using h(5) that(2) by auto
      then show ?thesis using tc r(2) that(1) by (simp add: tables_def)
    qed
    ultimately show ?thesis using h(2-4) r(3) tc
      by (intro exI [of _ h] exI [of _ ?tf] exI [of _ cache']) (simp add: tables_def)
  qed
qed

lemma Get_spec:
  assumes tc: "tables (Suc b) tc" and n: "n \<in> N" and g: "InternalGet rops snappy verify k (table_of n) = Some (s, res)"
  shows "\<exists>tc'. TableCache_Get new_file rops snappy cops verify n (size_of n) k tc = Some (s, res, tc') \<and> tables b tc'"
proof -
  from FindTable_spec [OF tc n] obtain h tf cache where
    h: "FindTable new_file rops snappy cops n (size_of n) tc = Some (OK, Some h, tc\<lparr>tc_cache := cache\<rparr>)"
    "inv ((\<lambda>_. 0)(h := 1)) cache" "c_Value cops h cache = Some tf" "tf_table tf = table_of n" "allocated cache + b + 1 < 2 ^ 31"
    "\<forall>n \<in> N. \<forall>v. content cache (EncodeFixed64 n) v \<longrightarrow> tf_table v = table_of n" by (elim exE conjE) (rule that)
  have "0 < ((\<lambda>_. 0 :: nat)(h := 1)) h" by simp
  from release [OF h(2) this] obtain cache' where c: "c_Release cops h cache = Some cache'"
    "inv (((\<lambda>_. 0)(h := 1))(h := ((\<lambda>_. 0)(h := 1)) h - 1)) cache'" "content cache' = content cache" "allocated cache' = allocated cache"
    by (elim exE conjE) (rule that)
  have "((\<lambda>_. 0 :: nat)(h := 1))(h := ((\<lambda>_. 0)(h := 1)) h - 1) = (\<lambda>_. 0)" by (simp add: fun_eq_iff)
  then have "tables b (tc\<lparr>tc_cache := cache'\<rparr>)" using c(2-4) h(5,6) tc by (simp add: tables_def)
  moreover have "TableCache_Get new_file rops snappy cops verify n (size_of n) k tc = Some (s, res, tc\<lparr>tc_cache := cache'\<rparr>)"
    using h(1,3,4) g c(1) by (simp add: TableCache_Get_def)
  ultimately show ?thesis by blast
qed

end

section \<open>A version whose tables are stored in files\<close>

text \<open>A client that reads keys, each at a snapshot, one after the other.\<close>

fun version_reads :: "'c cache_get \<Rightarrow> Comparator \<Rightarrow> Version \<Rightarrow> (slice \<times> SequenceNumber) list \<Rightarrow> 'c \<Rightarrow> (Status \<times> slice) list option" where
  "version_reads cache_Get c v [] cache = Some []"
| "version_reads cache_Get c v ((k, s) # ks) cache =
     do {
       (st, val, stats, cache) \<leftarrow> Version_Get cache_Get c v (make_LookupKey k s) [] cache;
       rs \<leftarrow> version_reads cache_Get c v ks cache;
       Some ((st, val) # rs)
     }"

definition read_result :: "pentry list \<Rightarrow> slice \<times> SequenceNumber \<Rightarrow> Status \<times> slice" where
  "read_result qs q = (case q of (k, s) \<Rightarrow>
     (case map_of (db_view s qs) k of Some x \<Rightarrow> (OK, x) | None \<Rightarrow> (make_Status kNotFound [] [], [])))"

context version_contents
begin

lemma files_at_length: "l < kNumLevels \<Longrightarrow> length (files_at v l) \<le> length (concat (v_files v))"
  using member_le_sum_list [of "length (files_at v l)" "map length (v_files v)"] levels by (simp add: length_concat)

lemma version_reads_view:
  assumes db: "db_entries c valid qs" and qs: "set qs = all_entries"
    and "\<forall>(k, s) \<in> set ks. valid k \<and> s \<le> kMaxSequenceNumber" and "inv (length ks * length (concat (v_files v)) + n) cache"
    and "ks = [] \<or> length (concat (v_files v)) \<le> 2 ^ 31"
  shows "version_reads cache_Get c v ks cache = Some (map (read_result qs) ks)"
  using assms(3-5)
proof (induction ks arbitrary: cache)
  case (Cons x ks)
  obtain k s where x: "x = (k, s)" by (cases x)
  let ?m = "length (concat (v_files v))"
  have k: "valid k" "s \<le> kMaxSequenceNumber" using Cons.prems(1) by (simp_all add: x)
  have "inv (?m + (length ks * ?m + n)) cache" using Cons.prems(2) by (simp add: add.assoc)
  moreover have "\<forall>l < kNumLevels. length (files_at v l) \<le> 2 ^ 31"
    using files_at_length Cons.prems(3) by (auto intro: order_trans)
  ultimately obtain stats cache' where
    g: "Version_Get cache_Get c v (make_LookupKey k s) [] cache
      = Some (case map_of (db_view s qs) k of
          Some x \<Rightarrow> (OK, x, stats, cache') | None \<Rightarrow> (make_Status kNotFound [] [], [], stats, cache'))" "inv (length ks * ?m + n) cache'"
    using Version_Get_view [OF db qs k, of _ cache "[]"] by blast
  have "version_reads cache_Get c v ks cache' = Some (map (read_result qs) ks)" using Cons.IH [OF _ g(2)] Cons.prems(1,3) by simp
  then show ?case using g(1) by (simp add: x read_result_def split: option.split)
qed simp

end

text \<open>Each file of the version was written by a \<open>TableBuilder\<close> from its entries and is found under its name.\<close>

definition stored_tables :: "'f WritableFile \<Rightarrow> Snappy \<Rightarrow> Options \<Rightarrow> ('f \<Rightarrow> byte list) \<Rightarrow> string \<Rightarrow> 'f new_file \<Rightarrow> Version
    \<Rightarrow> (FileMetaData \<Rightarrow> pentry list) \<Rightarrow> bool" where
  "stored_tables wops snappy opt content db new_file v ent \<longleftrightarrow>
     (\<forall>l < kNumLevels. \<forall>f \<in> set (files_at v l). total_size (stored (ent f)) < 2 ^ 30
        \<and> (\<exists>f0 r. content f0 = [] \<and> table_build wops snappy opt (stored (ent f)) f0 = Some (OK, r) \<and> length (content (tb_file r)) < 2 ^ 32
             \<and> f_file_size f = FileSize r \<and> new_file (TableFileName db (f_number f)) = (OK, Some (tb_file r))))"

definition file_numbered :: "Version \<Rightarrow> uint64 \<Rightarrow> FileMetaData" where
  "file_numbered v n = the (find (\<lambda>f. f_number f = n) (concat (v_files v)))"

definition opened_table :: "'f new_file \<Rightarrow> 'f RandomAccessFile \<Rightarrow> Snappy \<Rightarrow> Options \<Rightarrow> string \<Rightarrow> Version \<Rightarrow> uint64 \<Rightarrow> 'f Table" where
  "opened_table new_file rops snappy opt db v n =
     the (snd (the (Table_Open rops snappy opt (the (snd (open_table_file new_file db n))) (f_file_size (file_numbered v n)))))"

abbreviation version_numbers :: "Version \<Rightarrow> uint64 set" where
  "version_numbers v \<equiv> f_number ` set (concat (v_files v))"

lemma version_file_at:
  assumes "version_holds c valid v ent"
  shows "f \<in> set (concat (v_files v)) \<longleftrightarrow> (\<exists>l < kNumLevels. f \<in> set (files_at v l))"
proof -
  have "length (v_files v) = kNumLevels" using assms by (simp add: version_holds_def)
  then show ?thesis using in_concat_nth [of f "v_files v"] by simp
qed

lemma file_numbered:
  assumes "version_holds c valid v ent" and "f \<in> set (concat (v_files v))"
  shows "file_numbered v (f_number f) = f"
proof -
  have d: "distinct (map f_number (concat (v_files v)))" using assms(1) by (simp add: version_holds_def)
  obtain g where g: "find (\<lambda>g. f_number g = f_number f) (concat (v_files v)) = Some g"
    using assms(2) by (cases "find (\<lambda>g. f_number g = f_number f) (concat (v_files v))") (auto simp: find_None_iff)
  then have "g \<in> set (concat (v_files v))" "f_number g = f_number f" unfolding find_Some_iff by (metis nth_mem)+
  then have "g = f" using d assms(2) unfolding distinct_map inj_on_def by blast
  then show ?thesis using g by (simp add: file_numbered_def)
qed

lemma db_entries_increasing:
  assumes "comparator c valid" "db_entries c valid ps"
  shows "key_preorder.increasing (internal_compare c) (valid_ikey valid) (map fst (stored ps))"
proof -
  have "key_preorder (internal_compare c) (valid_ikey valid)"
    using comparator.internal_order [OF assms(1)] by (simp add: key_order_def)
  note inc = key_preorder.increasing_def [OF this]
  have "valid_ikey valid (AppendInternalKey [] k)" if "(k, x) \<in> set ps" for k x
    using assms(2) that by (auto simp: db_entries_def valid_ikey_def)
  then have "\<forall>k \<in> set (map fst (stored ps)). valid_ikey valid k" by (auto simp: stored_def)
  moreover have "sorted_wrt (\<lambda>a b. internal_compare c a b < 0) (map fst (stored ps))"
    using assms(2) by (simp add: db_entries_def sorted_wrt_map)
  ultimately show ?thesis unfolding inc by blast
qed

text \<open>What a file of the version opens as.\<close>

lemma stored_table_opens:
  assumes t: "table_file wops rops content" and "snappy_codec snappy" and c: "comparator c valid"
    and "options_ok opt" and "opt_comparator opt = InternalKeyComparator c"
    and "opt_filter_policy opt = map_option InternalFilterPolicy p"
    and v: "version_holds c valid v ent" and st: "stored_tables wops snappy opt content db new_file v ent"
    and f: "f \<in> set (concat (v_files v))"
  shows "\<exists>g. open_table_file new_file db (f_number f) = (OK, Some g)
      \<and> Table_Open rops snappy opt g (f_file_size f) = Some (OK, Some (opened_table new_file rops snappy opt db v (f_number f)))
      \<and> (\<forall>verify k. valid_ikey valid k \<longrightarrow> (\<exists>res. InternalGet rops snappy verify k (opened_table new_file rops snappy opt db v (f_number f))
            = Some (OK, res) \<and> looked_up c (stored (ent f)) k res))"
proof -
  obtain l where l: "l < kNumLevels" "f \<in> set (files_at v l)" using version_file_at [OF v] f by blast
  have "total_size (stored (ent f)) < 2 ^ 30
    \<and> (\<exists>f0 r. content f0 = [] \<and> table_build wops snappy opt (stored (ent f)) f0 = Some (OK, r) \<and> length (content (tb_file r)) < 2 ^ 32
         \<and> f_file_size f = FileSize r \<and> new_file (TableFileName db (f_number f)) = (OK, Some (tb_file r)))"
    using st l unfolding stored_tables_def by blast
  then obtain f0 r where r: "content f0 = []" "table_build wops snappy opt (stored (ent f)) f0 = Some (OK, r)"
    "length (content (tb_file r)) < 2 ^ 32" "f_file_size f = FileSize r" "new_file (TableFileName db (f_number f)) = (OK, Some (tb_file r))"
    and sz: "total_size (stored (ent f)) < 2 ^ 30" by (elim exE conjE) (rule that)
  have "db_entries c valid (ent f)" using v l by (auto simp: version_holds_def)
  note es = db_entries_increasing [OF c this]
  from internal_table_built [OF assms(1-6) r(1) es sz] r(2,3) obtain t where
    t: "Table_Open rops snappy opt (tb_file r) (FileSize r) = Some (OK, Some t)"
    "\<forall>verify k. valid_ikey valid k \<longrightarrow> (\<exists>res. InternalGet rops snappy verify k t = Some (OK, res) \<and> looked_up c (stored (ent f)) k res)"
    by auto
  have o: "open_table_file new_file db (f_number f) = (OK, Some (tb_file r))" using r(5) by (simp add: open_table_file_def)
  then have "opened_table new_file rops snappy opt db v (f_number f) = t"
    using t(1) r(4) by (simp add: opened_table_def file_numbered [OF v f])
  then show ?thesis using o t r(4) by (intro exI [of _ "tb_file r"]) simp
qed

lemma stored_table_files:
  assumes "table_file wops rops content" and "snappy_codec snappy" and "comparator c valid"
    and "options_ok opt" and "opt_comparator opt = InternalKeyComparator c"
    and "opt_filter_policy opt = map_option InternalFilterPolicy p"
    and v: "version_holds c valid v ent" and "stored_tables wops snappy opt content db new_file v ent"
  shows "table_files lru_Cache sharded_inv sharded_content sharded_allocated new_file rops snappy db opt (version_numbers v)
      (\<lambda>n. f_file_size (file_numbered v n)) (opened_table new_file rops snappy opt db v)"
proof (unfold_locales, elim imageE)
  fix n f assume f: "n = f_number f" "f \<in> set (concat (v_files v))"
  from stored_table_opens [OF assms f(2)] show "\<exists>g. open_table_file new_file db n = (OK, Some g)
      \<and> Table_Open rops snappy opt g (f_file_size (file_numbered v n)) = Some (OK, Some (opened_table new_file rops snappy opt db v n))"
    unfolding f(1) file_numbered [OF v f(2)] by blast
qed

lemma stored_version_contents:
  assumes "table_file wops rops content" and "snappy_codec snappy" and c: "comparator c valid"
    and "options_ok opt" and "opt_comparator opt = InternalKeyComparator c"
    and "opt_filter_policy opt = map_option InternalFilterPolicy p"
    and v: "version_holds c valid v ent" and "stored_tables wops snappy opt content db new_file v ent"
  shows "version_contents c valid (TableCache_Get new_file rops snappy lru_Cache verify)
      (table_files.tables sharded_inv sharded_content sharded_allocated db opt (version_numbers v) (opened_table new_file rops snappy opt db v)) v ent"
proof -
  note tf = stored_table_files [OF assms]
  show ?thesis
  proof (intro version_contents.intro version_contents_axioms.intro c v)
    fix n cache
    assume "table_files.tables sharded_inv sharded_content sharded_allocated db opt (version_numbers v) (opened_table new_file rops snappy opt db v) (Suc n) cache"
    then show "table_files.tables sharded_inv sharded_content sharded_allocated db opt (version_numbers v) (opened_table new_file rops snappy opt db v) n cache"
      by (rule table_files.tables_less [OF tf])
  next
    fix n cache l f k
    assume tb: "table_files.tables sharded_inv sharded_content sharded_allocated db opt (version_numbers v) (opened_table new_file rops snappy opt db v) (Suc n) cache"
      and l: "l < kNumLevels" "f \<in> set (files_at v l)" and k: "valid_ikey valid k"
    then have f: "f \<in> set (concat (v_files v))" using version_file_at [OF v] by blast
    then have num: "f_number f \<in> version_numbers v" by blast
    from stored_table_opens [OF assms f] k obtain res where
      "InternalGet rops snappy verify k (opened_table new_file rops snappy opt db v (f_number f)) = Some (OK, res)"
      "looked_up c (stored (ent f)) k res" by blast
    with table_files.Get_spec [OF tf tb num] show "\<exists>res cache'.
        TableCache_Get new_file rops snappy lru_Cache verify (f_number f) (f_file_size f) k cache = Some (OK, res, cache')
        \<and> table_files.tables sharded_inv sharded_content sharded_allocated db opt (version_numbers v) (opened_table new_file rops snappy opt db v) n cache'
        \<and> looked_up c (stored (ent f)) k res"
      unfolding file_numbered [OF v f] by blast
  qed
qed

section \<open>A small database in memory\<close>

definition sample_pentry :: "byte \<Rightarrow> SequenceNumber \<Rightarrow> ValueType \<Rightarrow> byte \<Rightarrow> pentry" where
  "sample_pentry k s t v = (\<lparr>user_key = [k], sequence = s, type = t\<rparr>, [v])"

text \<open>A file of level 0 with a new value and a deletion, and a file of level 1 with older values.\<close>

definition sample_ent :: "FileMetaData \<Rightarrow> pentry list" where
  "sample_ent f = (if f_number f = 7 then [sample_pentry 97 5 kTypeValue 1, sample_pentry 98 6 kTypeDeletion 0]
     else [sample_pentry 97 1 kTypeValue 2, sample_pentry 98 2 kTypeValue 3, sample_pentry 99 3 kTypeValue 4])"

abbreviation sample_opt :: Options where
  "sample_opt \<equiv> sample_options (InternalKeyComparator BytewiseComparator) None"

definition sample_file :: "uint64 \<Rightarrow> FileMetaData" where
  "sample_file n = (let ps = sample_ent \<lparr>f_refs = 1, f_allowed_seeks = 100, f_number = n, f_file_size = 0, f_smallest = [], f_largest = []\<rparr>
     in \<lparr>f_refs = 1, f_allowed_seeks = 100, f_number = n,
         f_file_size = FileSize (snd (the (table_build memory_WritableFile no_snappy sample_opt (stored ps) []))),
         f_smallest = fst (hd (stored ps)), f_largest = fst (last (stored ps))\<rparr>)"

definition sample_version :: Version where
  "sample_version = \<lparr>v_files = [[sample_file 7], [sample_file 4], [], [], [], [], []], v_file_to_compact = None, v_file_to_compact_level = - 1\<rparr>"

definition sample_new_file :: "byte list new_file" where
  "sample_new_file name = (case find (\<lambda>n. TableFileName ''db'' n = name) [7, 4] of
     None \<Rightarrow> (make_Status kNotFound name [], None)
   | Some n \<Rightarrow> (OK, Some (tb_file (snd (the (table_build memory_WritableFile no_snappy sample_opt (stored (sample_ent (sample_file n))) []))))))"

lemma sample_numbers [simp]: "f_number (sample_file n) = n"
  by (simp add: sample_file_def Let_def)

lemma sample_ents: "sample_ent (sample_file 7) = [sample_pentry 97 5 kTypeValue 1, sample_pentry 98 6 kTypeDeletion 0]"
  "sample_ent (sample_file 4) = [sample_pentry 97 1 kTypeValue 2, sample_pentry 98 2 kTypeValue 3, sample_pentry 99 3 kTypeValue 4]"
  by (simp_all add: sample_ent_def)

lemma sample_bounds: "f_smallest (sample_file n) = fst (hd (stored (sample_ent (sample_file n))))"
  "f_largest (sample_file n) = fst (last (stored (sample_ent (sample_file n))))"
  "f_file_size (sample_file n) = FileSize (snd (the (table_build memory_WritableFile no_snappy sample_opt (stored (sample_ent (sample_file n))) [])))"
  by (simp_all add: sample_file_def Let_def sample_ent_def)

lemma sample_files: "files_at sample_version 0 = [sample_file 7]" "files_at sample_version (Suc 0) = [sample_file 4]"
  "2 \<le> l \<Longrightarrow> l < kNumLevels \<Longrightarrow> files_at sample_version l = []"
proof -
  show "files_at sample_version l = []" if "2 \<le> l" "l < kNumLevels"
  proof -
    have "l \<in> {2, 3, 4, 5, 6}" using that by (auto simp: kNumLevels_def)
    then show ?thesis by (auto simp: sample_version_def)
  qed
qed (simp_all add: sample_version_def)

lemma sample_db: "db_entries BytewiseComparator (\<lambda>_. True) (sample_ent (sample_file 7))" "db_entries BytewiseComparator (\<lambda>_. True) (sample_ent (sample_file 4))"
  unfolding sample_ents by code_simp+

lemma sample_levels: "l < kNumLevels \<Longrightarrow> f \<in> set (files_at sample_version l) \<Longrightarrow> l = 0 \<and> f = sample_file 7 \<or> l = 1 \<and> f = sample_file 4"
  using sample_files(3) [of l] by (cases "l = 0"; cases "l = 1") (auto simp: sample_files)

lemma sample_holds: "version_holds BytewiseComparator (\<lambda>_. True) sample_version sample_ent"
  unfolding version_holds_def
proof (intro conjI allI ballI impI)
  show "length (v_files sample_version) = kNumLevels" "distinct (map f_number (concat (v_files sample_version)))"
    by (simp_all add: sample_version_def kNumLevels_def)
next
  fix l f assume "l < kNumLevels" "f \<in> set (files_at sample_version l)"
  then have f: "f = sample_file 7 \<or> f = sample_file 4" using sample_levels by blast
  then show "db_entries BytewiseComparator (\<lambda>_. True) (sample_ent f)" using sample_db by auto
  show "sample_ent f \<noteq> []" by (simp add: sample_ent_def)
  show "f_smallest f = fst (hd (stored (sample_ent f)))" "f_largest f = fst (last (stored (sample_ent f)))" using f sample_bounds by auto
next
  fix l :: nat assume "0 < l" "l < kNumLevels"
  then show "sorted_wrt (\<lambda>f g. internal_compare BytewiseComparator (f_largest f) (f_smallest g) < 0) (files_at sample_version l)"
    using sample_files(2) sample_files(3) [of l] by (cases "l = 1") auto
next
  fix l m f g p q
  assume a: "l < kNumLevels" "m < kNumLevels" "f \<in> set (files_at sample_version l)" "g \<in> set (files_at sample_version m)"
    "l < m \<or> l = 0 \<and> m = 0 \<and> f_number g < f_number f" "p \<in> set (sample_ent f)" "q \<in> set (sample_ent g)" "user_key (fst p) = user_key (fst q)"
  have "f = sample_file 7" "g = sample_file 4" using sample_levels [OF a(1,3)] sample_levels [OF a(2,4)] a(5) by auto
  then show "sequence (fst q) < sequence (fst p)" using a(6-8) by (auto simp: sample_ents sample_pentry_def)
qed

lemma sample_built:
  assumes "n = 7 \<or> n = 4"
  shows "\<exists>r. table_build memory_WritableFile no_snappy sample_opt (stored (sample_ent (sample_file n))) [] = Some (OK, r)
    \<and> length (tb_file r) < 2 ^ 32 \<and> total_size (stored (sample_ent (sample_file n))) < 2 ^ 30"
proof -
  have "total_size (stored (sample_ent (sample_file 7))) < 200" "total_size (stored (sample_ent (sample_file 4))) < 200"
    unfolding sample_ents by (simp_all add: stored_def sample_pentry_def AppendInternalKey_def PutFixed64_def)
  then have size: "total_size (stored (sample_ent (sample_file n))) < 2 ^ 30" using assms by auto
  have "db_entries BytewiseComparator (\<lambda>_. True) (sample_ent (sample_file n))" using assms sample_db by blast
  note es = db_entries_increasing [OF bytewise.comparator_axioms this]
  show ?thesis
    using internal_table_built [OF memory_file.table_file_axioms no_snappy.snappy_codec_axioms bytewise.comparator_axioms
        sample_options_ok(1) _ _ _ es size, where p = None and f = "[]"] size
    by (auto simp: sample_options_def)
qed

lemma sample_stored: "stored_tables memory_WritableFile no_snappy sample_opt id ''db'' sample_new_file sample_version sample_ent"
  unfolding stored_tables_def
proof (intro allI impI ballI)
  fix l f assume "l < kNumLevels" "f \<in> set (files_at sample_version l)"
  then obtain n where n: "n = 7 \<or> n = 4" "f = sample_file n" using sample_levels by blast
  from sample_built [OF n(1)] obtain r where r: "table_build memory_WritableFile no_snappy sample_opt (stored (sample_ent f)) [] = Some (OK, r)"
    "length (tb_file r) < 2 ^ 32" "total_size (stored (sample_ent f)) < 2 ^ 30" unfolding n(2) by blast
  have "(TableFileName ''db'' 7 = TableFileName ''db'' 4) = False"
    using file_name_number [of "''db''" 7 4] by auto
  then have "find (\<lambda>m. TableFileName ''db'' m = TableFileName ''db'' n) [7, 4] = Some n" using n(1) by auto
  then have "sample_new_file (TableFileName ''db'' n) = (OK, Some (tb_file r))" using r(1) by (simp add: sample_new_file_def n(2))
  with r show "total_size (stored (sample_ent f)) < 2 ^ 30 \<and> (\<exists>f0 r. id f0 = [] \<and>
      table_build memory_WritableFile no_snappy sample_opt (stored (sample_ent f)) f0 = Some (OK, r) \<and> length (id (tb_file r)) < 2 ^ 32
      \<and> f_file_size f = FileSize r \<and> sample_new_file (TableFileName ''db'' (f_number f)) = (OK, Some (tb_file r)))"
    by (intro conjI exI [of _ "[]"] exI [of _ r]) (simp_all add: n(2) sample_bounds(3))
qed

interpretation sample_tables: table_files lru_Cache sharded_inv sharded_content sharded_allocated sample_new_file memory_RandomAccessFile no_snappy
  "''db''" sample_opt "version_numbers sample_version" "\<lambda>n. f_file_size (file_numbered sample_version n)"
  "opened_table sample_new_file memory_RandomAccessFile no_snappy sample_opt ''db'' sample_version"
  by (rule stored_table_files [OF memory_file.table_file_axioms no_snappy.snappy_codec_axioms bytewise.comparator_axioms
        sample_options_ok(1) _ _ sample_holds sample_stored, where p = None]) (simp_all add: sample_options_def)

interpretation sample_contents: version_contents BytewiseComparator "\<lambda>_. True"
  "TableCache_Get sample_new_file memory_RandomAccessFile no_snappy lru_Cache verify" "sample_tables.tables" sample_version sample_ent
  for verify
  by (rule stored_version_contents [OF memory_file.table_file_axioms no_snappy.snappy_codec_axioms bytewise.comparator_axioms
        sample_options_ok(1) _ _ sample_holds sample_stored, where p = None]) (simp_all add: sample_options_def)

section \<open>Properties\<close>

text \<open>C1: reads of a version of the database. Its tables lie in files, each written by a \<open>TableBuilder\<close> and
  found under its name, and are opened through a table cache on an LRU cache of any capacity. Reads of keys at
  snapshots, one after the other, return the value of the newest entry of the key that the snapshot sees
  in all levels together, or report that there is none or that it is a deletion: exactly what the
  iterator of the database shows.\<close>

theorem version_get:
  fixes content :: "'a \<Rightarrow> byte list"
  assumes "table_file wops rops content" and "snappy_codec snappy" and "comparator c valid"
    and "options_ok opt" and "opt_comparator opt = InternalKeyComparator c"
    and "opt_filter_policy opt = map_option InternalFilterPolicy p"
    and "version_holds c valid v ent" and "stored_tables wops snappy opt content db new_file v ent"
    and qs: "db_entries c valid qs" "set qs = (\<Union>f \<in> set (concat (v_files v)). set (ent f))"
    and ks: "\<forall>(k, s) \<in> set ks. valid k \<and> s \<le> kMaxSequenceNumber" "length ks * length (concat (v_files v)) + 1 < 2 ^ 31"
  shows "\<exists>tc. make_TableCache db opt capacity = Some tc
    \<and> version_reads (TableCache_Get new_file rops snappy lru_Cache verify) c v ks tc = Some (map (read_result qs) ks)"
proof -
  note tf = stored_table_files [OF assms(1-8)] and vc = stored_version_contents [OF assms(1-8), of verify]
  from NewLRUCache_inv [of capacity] obtain cache :: "'a TableAndFile ShardedLRUCache" where
    cache: "NewLRUCache capacity = Some cache" "sharded_inv (\<lambda>_. 0) cache" "sharded_allocated cache = 0" "\<forall>k v. \<not> sharded_content cache k v" by blast
  let ?tc = "\<lparr>tc_dbname = db, tc_options = opt, tc_cache = cache\<rparr>"
  have "version_contents.all_entries v ent = (\<Union>f \<in> set (concat (v_files v)). set (ent f))"
    unfolding version_contents.all_entries_def [OF vc] using version_file_at [OF assms(7)] by blast
  then have qs': "set qs = version_contents.all_entries v ent" using qs(2) by simp
  have few: "ks = [] \<or> length (concat (v_files v)) \<le> 2 ^ 31" using ks(2) by (cases ks) auto
  have "table_files.tables sharded_inv sharded_content sharded_allocated db opt (version_numbers v) (opened_table new_file rops snappy opt db v)
      (length ks * length (concat (v_files v)) + 0) ?tc"
    using cache(2-4) ks(2) unfolding table_files.tables_def [OF tf] by simp
  from version_contents.version_reads_view [OF vc qs(1) qs' ks(1) this few] show ?thesis using cache(1) by (simp add: make_TableCache_def)
qed

theorem version_get_witness:
  "\<exists>tc. make_TableCache ''db'' sample_opt 990 = Some tc
    \<and> version_reads (TableCache_Get sample_new_file memory_RandomAccessFile no_snappy lru_Cache True) BytewiseComparator sample_version
        [([97], 9), ([98], 9), ([98], 4), ([99], 9), ([100], 9)] tc
      = Some [(OK, [1]), (make_Status kNotFound [] [], []), (OK, [3]), (OK, [4]), (make_Status kNotFound [] [], [])]"
proof -
  let ?qs = "[sample_pentry 97 5 kTypeValue 1, sample_pentry 97 1 kTypeValue 2, sample_pentry 98 6 kTypeDeletion 0,
    sample_pentry 98 2 kTypeValue 3, sample_pentry 99 3 kTypeValue 4]"
  let ?ks = "[([97], 9), ([98], 9), ([98], 4), ([99], 9), ([100], 9)] :: (slice \<times> SequenceNumber) list"
  have "map (read_result ?qs) ?ks = [(OK, [1]), (make_Status kNotFound [] [], []), (OK, [3]), (OK, [4]), (make_Status kNotFound [] [], [])]"
    by code_simp
  moreover have "db_entries BytewiseComparator (\<lambda>_. True) ?qs" by code_simp
  moreover have "set ?qs = (\<Union>f \<in> set (concat (v_files sample_version)). set (sample_ent f))"
    by (auto simp: sample_version_def sample_ents)
  moreover have "\<forall>(k, s) \<in> set ?ks. True \<and> s \<le> kMaxSequenceNumber" by (simp add: kMaxSequenceNumber_def)
  moreover have "length ?ks * length (concat (v_files sample_version)) + 1 < 2 ^ 31" by (simp add: sample_version_def)
  ultimately show ?thesis
    using version_get [OF memory_file.table_file_axioms no_snappy.snappy_codec_axioms bytewise.comparator_axioms
        sample_options_ok(1) _ _ sample_holds sample_stored, where p = None and qs = ?qs and ks = ?ks and capacity = 990 and verify = True]
    by (simp add: sample_options_def)
qed

end
