(* ===== verification/Ldb_VersionEdit_Correct.thy ===== *)
theory Ldb_VersionEdit_Correct
  imports Ldb_VersionEdit
begin

text \<open>What is written to the descriptor log is read back.\<close>

section \<open>Edits that programs make\<close>

text \<open>The calls that change an edit, as data, with the arguments they may have: a level of the tree, keys
  and names whose length fits 32 bits.\<close>

datatype edit_op = OpComparator slice | OpLogNumber uint64 | OpPrevLogNumber uint64 | OpNextFile uint64
  | OpLastSequence SequenceNumber | OpCompactPointer nat slice | OpDeleteFile nat uint64
  | OpAddFile nat uint64 uint64 slice slice

fun apply_op :: "edit_op \<Rightarrow> VersionEdit \<Rightarrow> VersionEdit" where
  "apply_op (OpComparator n) = SetComparatorName n"
| "apply_op (OpLogNumber n) = SetLogNumber n"
| "apply_op (OpPrevLogNumber n) = SetPrevLogNumber n"
| "apply_op (OpNextFile n) = SetNextFile n"
| "apply_op (OpLastSequence n) = SetLastSequence n"
| "apply_op (OpCompactPointer l k) = SetCompactPointer l k"
| "apply_op (OpDeleteFile l n) = DeleteFile l n"
| "apply_op (OpAddFile l n sz a b) = AddFile l n sz a b"

fun op_ok :: "edit_op \<Rightarrow> bool" where
  "op_ok (OpComparator n) \<longleftrightarrow> length n < 2 ^ 32"
| "op_ok (OpCompactPointer l k) \<longleftrightarrow> l < kNumLevels \<and> length k < 2 ^ 32"
| "op_ok (OpDeleteFile l n) \<longleftrightarrow> l < kNumLevels"
| "op_ok (OpAddFile l n sz a b) \<longleftrightarrow> l < kNumLevels \<and> length a < 2 ^ 32 \<and> length b < 2 ^ 32"
| "op_ok _ \<longleftrightarrow> True"

definition new_file_ok :: "nat \<times> FileMetaData \<Rightarrow> bool" where
  "new_file_ok p \<longleftrightarrow> fst p < kNumLevels \<and> length (f_smallest (snd p)) < 2 ^ 32 \<and> length (f_largest (snd p)) < 2 ^ 32
     \<and> f_refs (snd p) = 0 \<and> f_allowed_seeks (snd p) = 2 ^ 30"

definition edit_ok :: "VersionEdit \<Rightarrow> bool" where
  "edit_ok e \<longleftrightarrow>
     (if has_comparator e then length (ve_comparator e) < 2 ^ 32 else ve_comparator e = [])
     \<and> (has_log_number e \<or> ve_log_number e = 0) \<and> (has_prev_log_number e \<or> ve_prev_log_number e = 0)
     \<and> (has_next_file_number e \<or> ve_next_file_number e = 0) \<and> (has_last_sequence e \<or> ve_last_sequence e = 0)
     \<and> (\<forall>(l, k) \<in> set (ve_compact_pointers e). l < kNumLevels \<and> length k < 2 ^ 32)
     \<and> (\<forall>p \<in> set (ve_deleted_files e). fst p < kNumLevels) \<and> sorted_wrt file_less (ve_deleted_files e)
     \<and> (\<forall>p \<in> set (ve_new_files e). new_file_ok p)"

lemma file_less_trans: "file_less a b \<Longrightarrow> file_less b c \<Longrightarrow> file_less a c"
  by (auto simp: file_less_def)

lemma file_less_linear: "file_less a b \<or> a = b \<or> file_less b a"
  by (cases a; cases b) (auto simp: file_less_def)

lemma set_set_insert: "set (set_insert x ys) = insert x (set ys)"
proof (induction ys)
  case (Cons y ys)
  then show ?case using file_less_linear [of x y] by auto
qed simp

lemma sorted_set_insert: "sorted_wrt file_less ys \<Longrightarrow> sorted_wrt file_less (set_insert x ys)"
  by (induction ys) (auto simp: set_set_insert intro: file_less_trans)

lemma set_insert_last: "\<forall>y \<in> set ys. file_less y x \<Longrightarrow> set_insert x ys = ys @ [x]"
  by (induction ys) (auto simp: file_less_def)

lemma apply_op_ok: "edit_ok e \<Longrightarrow> op_ok opr \<Longrightarrow> edit_ok (apply_op opr e)"
  by (cases opr) (auto simp: edit_ok_def SetComparatorName_def SetLogNumber_def SetPrevLogNumber_def SetNextFile_def
      SetLastSequence_def SetCompactPointer_def DeleteFile_def AddFile_def Let_def new_file_ok_def make_FileMetaData_def
      set_set_insert sorted_set_insert)

lemma make_ok: "edit_ok make_VersionEdit"
  by (simp add: edit_ok_def make_VersionEdit_def)

lemma apply_ops_ok: "\<forall>opr \<in> set ops. op_ok opr \<Longrightarrow> edit_ok e \<Longrightarrow> edit_ok (fold apply_op ops e)"
  by (induction ops arbitrary: e) (auto intro: apply_op_ok)

section \<open>Encoders append\<close>

lemma fold_appends:
  assumes "\<And>x dst. f x dst = dst @ g x"
  shows "fold f xs dst = dst @ concat (map g xs)"
  by (induction xs arbitrary: dst) (simp_all add: assms)

lemma encode_compact_pointer_appends: "encode_compact_pointer p dst = dst @ encode_compact_pointer p []"
  unfolding encode_compact_pointer_def by (simp add: PutVarint32_def PutLengthPrefixedSlice_def)

lemma encode_deleted_file_appends: "encode_deleted_file p dst = dst @ encode_deleted_file p []"
  unfolding encode_deleted_file_def by (simp add: PutVarint32_def PutVarint64_def)

lemma encode_new_file_appends: "encode_new_file p dst = dst @ encode_new_file p []"
  unfolding encode_new_file_def Let_def by (simp add: PutVarint32_def PutVarint64_def PutLengthPrefixedSlice_def)

lemma encode_number_appends: "encode_number has t v dst = dst @ encode_number has t v []"
  unfolding encode_number_def by (simp add: PutVarint32_def PutVarint64_def)

section \<open>One field\<close>

lemma decode_step:
  assumes "decode_edit_field t e rest = Inr (e', rest')"
  shows "decode_edit_loop e (PutVarint32 [] t @ rest) = decode_edit_loop e' rest'"
  using assms by (subst decode_edit_loop.simps) (simp add: varint32.get_put)

lemma get_level: "l < kNumLevels \<Longrightarrow> GetLevel (PutVarint32 [] (of_nat l) @ rest) = Ret l rest"
  by (simp add: GetLevel_def varint32.get_put kNumLevels_def unat_of_nat)

lemma Put_Put: "PutVarint32 (PutVarint32 dst a) b = PutVarint32 dst a @ PutVarint32 [] b"
  "PutVarint64 (PutVarint32 dst a) n = PutVarint32 dst a @ PutVarint64 [] n"
  "PutVarint64 (PutVarint64 dst m) n = PutVarint64 dst m @ PutVarint64 [] n"
  "PutLengthPrefixedSlice (PutVarint32 dst a) s = PutVarint32 dst a @ PutLengthPrefixedSlice [] s"
  "PutLengthPrefixedSlice (PutVarint64 dst m) s = PutVarint64 dst m @ PutLengthPrefixedSlice [] s"
  "PutLengthPrefixedSlice (PutLengthPrefixedSlice dst r) s = PutLengthPrefixedSlice dst r @ PutLengthPrefixedSlice [] s"
  "PutVarint32 (x @ y) a = x @ PutVarint32 y a" "PutVarint64 (x @ y) n = x @ PutVarint64 y n"
  "PutLengthPrefixedSlice (x @ y) s = x @ PutLengthPrefixedSlice y s"
  by (simp_all add: PutVarint32_def PutVarint64_def PutLengthPrefixedSlice_def)

lemma decode_compact_pointer:
  "l < kNumLevels \<Longrightarrow> length k < 2 ^ 32 \<Longrightarrow>
   decode_edit_loop e (encode_compact_pointer (l, k) [] @ rest) = decode_edit_loop (SetCompactPointer l k e) rest"
  unfolding encode_compact_pointer_def Put_Put append_assoc
  by (rule decode_step) (simp add: decode_edit_field_def read_or_def get_level GetInternalKey_def lp_slice.get_put)

lemma decode_deleted_file:
  "fst p < kNumLevels \<Longrightarrow> decode_edit_loop e (encode_deleted_file p [] @ rest) = decode_edit_loop (DeleteFile (fst p) (snd p) e) rest"
  unfolding encode_deleted_file_def Put_Put append_assoc
  by (rule decode_step) (simp add: decode_edit_field_def read_or_def get_level varint64.get_put case_prod_beta)

lemma decode_new_file:
  assumes "new_file_ok p"
  shows "decode_edit_loop e (encode_new_file p [] @ rest) = decode_edit_loop (e\<lparr>ve_new_files := ve_new_files e @ [p]\<rparr>) rest"
proof -
  obtain l f where p: "p = (l, f)" by (cases p)
  have f: "make_FileMetaData\<lparr>f_number := f_number f, f_file_size := f_file_size f, f_smallest := f_smallest f,
      f_largest := f_largest f\<rparr> = f"
    using assms by (cases f) (simp add: p new_file_ok_def make_FileMetaData_def)
  show ?thesis
    unfolding encode_new_file_def Let_def p Put_Put append_assoc
    by (rule decode_step) (use assms in \<open>simp add: decode_edit_field_def read_or_def get_level varint64.get_put GetInternalKey_def lp_slice.get_put
        new_file_ok_def AddFile_def f p\<close>)
qed

section \<open>All fields\<close>

lemma decode_compact_pointers:
  "\<forall>(l, k) \<in> set ps. l < kNumLevels \<and> length k < 2 ^ 32 \<Longrightarrow>
   decode_edit_loop e (concat (map (\<lambda>p. encode_compact_pointer p []) ps) @ rest)
   = decode_edit_loop (e\<lparr>ve_compact_pointers := ve_compact_pointers e @ ps\<rparr>) rest"
  by (induction ps arbitrary: e) (auto simp: decode_compact_pointer SetCompactPointer_def)

lemma decode_deleted_files:
  assumes "\<forall>p \<in> set ps. fst p < kNumLevels" and "sorted_wrt file_less (ve_deleted_files e @ ps)"
  shows "decode_edit_loop e (concat (map (\<lambda>p. encode_deleted_file p []) ps) @ rest)
    = decode_edit_loop (e\<lparr>ve_deleted_files := ve_deleted_files e @ ps\<rparr>) rest"
  using assms
proof (induction ps arbitrary: e)
  case (Cons p ps)
  have "set_insert p (ve_deleted_files e) = ve_deleted_files e @ [p]"
    by (rule set_insert_last) (use Cons.prems(2) in \<open>auto simp: sorted_wrt_append\<close>)
  then have "DeleteFile (fst p) (snd p) e = e\<lparr>ve_deleted_files := ve_deleted_files e @ [p]\<rparr>" by (simp add: DeleteFile_def)
  with Cons show ?case by (simp add: decode_deleted_file)
qed simp

lemma decode_new_files:
  "\<forall>p \<in> set ps. new_file_ok p \<Longrightarrow>
   decode_edit_loop e (concat (map (\<lambda>p. encode_new_file p []) ps) @ rest)
   = decode_edit_loop (e\<lparr>ve_new_files := ve_new_files e @ ps\<rparr>) rest"
  by (induction ps arbitrary: e) (auto simp: decode_new_file)

lemma decode_number:
  "decode_edit_loop e (encode_number has kLogNumber v [] @ rest) = decode_edit_loop (if has then SetLogNumber v e else e) rest"
  "decode_edit_loop e (encode_number has kPrevLogNumber v [] @ rest) = decode_edit_loop (if has then SetPrevLogNumber v e else e) rest"
  "decode_edit_loop e (encode_number has kNextFileNumber v [] @ rest) = decode_edit_loop (if has then SetNextFile v e else e) rest"
  "decode_edit_loop e (encode_number has kLastSequence v [] @ rest) = decode_edit_loop (if has then SetLastSequence v e else e) rest"
  unfolding encode_number_def
  by (auto simp: Put_Put decode_edit_field_def read_or_def varint64.get_put intro!: decode_step simp del: Tag_code.simps)
    (simp_all add: decode_edit_field_def read_or_def varint64.get_put)

text \<open>\<open>VersionEdit_EncodeTo\<close> as a concatenation.\<close>

lemma VersionEdit_EncodeTo_concat:
  "VersionEdit_EncodeTo e dst = dst
     @ (if has_comparator e then PutVarint32 [] (Tag_code kComparator) @ PutLengthPrefixedSlice [] (ve_comparator e) else [])
     @ encode_number (has_log_number e) kLogNumber (ve_log_number e) []
     @ encode_number (has_prev_log_number e) kPrevLogNumber (ve_prev_log_number e) []
     @ encode_number (has_next_file_number e) kNextFileNumber (ve_next_file_number e) []
     @ encode_number (has_last_sequence e) kLastSequence (ve_last_sequence e) []
     @ concat (map (\<lambda>p. encode_compact_pointer p []) (ve_compact_pointers e))
     @ concat (map (\<lambda>p. encode_deleted_file p []) (ve_deleted_files e))
     @ concat (map (\<lambda>p. encode_new_file p []) (ve_new_files e))"
proof -
  note f = fold_appends [of encode_compact_pointer "\<lambda>p. encode_compact_pointer p []", OF encode_compact_pointer_appends]
    fold_appends [of encode_deleted_file "\<lambda>p. encode_deleted_file p []", OF encode_deleted_file_appends]
    fold_appends [of encode_new_file "\<lambda>p. encode_new_file p []", OF encode_new_file_appends]
  show ?thesis
    unfolding VersionEdit_EncodeTo_def Let_def f
    by (subst (1 2 3 4) encode_number_appends) (simp add: PutVarint32_def PutLengthPrefixedSlice_def)
qed

lemma decode_comparator:
  "length n < 2 ^ 32 \<Longrightarrow> decode_edit_loop e (PutVarint32 [] (Tag_code kComparator) @ PutLengthPrefixedSlice [] n @ rest)
   = decode_edit_loop (SetComparatorName n e) rest"
  by (rule decode_step) (simp add: decode_edit_field_def read_or_def lp_slice.get_put)

lemma decode_edit_loop_Nil: "decode_edit_loop e [] = (None, e)"
  by (subst decode_edit_loop.simps) (simp add: GetVarint32_def GetVarint32Ptr_def GetVarint32PtrFallback.simps)

lemma decode_encode:
  assumes "edit_ok e"
  shows "VersionEdit_DecodeFrom (VersionEdit_EncodeTo e []) e0
    = (OK, e\<lparr>ve_compact_pointers := ve_compact_pointers e0 @ ve_compact_pointers e\<rparr>)"
proof -
  define c where "c = VersionEdit_Clear e0"
  define c1 where "c1 = (if has_comparator e then SetComparatorName (ve_comparator e) c else c)"
  define c2 where "c2 = (if has_log_number e then SetLogNumber (ve_log_number e) c1 else c1)"
  define c3 where "c3 = (if has_prev_log_number e then SetPrevLogNumber (ve_prev_log_number e) c2 else c2)"
  define c4 where "c4 = (if has_next_file_number e then SetNextFile (ve_next_file_number e) c3 else c3)"
  define c5 where "c5 = (if has_last_sequence e then SetLastSequence (ve_last_sequence e) c4 else c4)"
  note cs = c_def c1_def c2_def c3_def c4_def c5_def VersionEdit_Clear_def SetComparatorName_def SetLogNumber_def
    SetPrevLogNumber_def SetNextFile_def SetLastSequence_def
  have lists: "ve_deleted_files c5 = []" "ve_new_files c5 = []" "ve_compact_pointers c5 = ve_compact_pointers e0"
    by (simp_all add: cs)
  let ?r = "c5\<lparr>ve_compact_pointers := ve_compact_pointers e0 @ ve_compact_pointers e, ve_deleted_files := ve_deleted_files e,
    ve_new_files := ve_new_files e\<rparr>"
  have comp: "decode_edit_loop c ((if has_comparator e then PutVarint32 [] (Tag_code kComparator) @ PutLengthPrefixedSlice [] (ve_comparator e)
      else []) @ rest) = decode_edit_loop c1 rest" for rest
    using assms decode_comparator [of "ve_comparator e" c rest] by (auto simp: c1_def edit_ok_def)
  have "decode_edit_loop c (VersionEdit_EncodeTo e []) = decode_edit_loop ?r []"
    unfolding VersionEdit_EncodeTo_concat append_Nil comp
    using assms decode_new_files [of "ve_new_files e" _ "[]"]
    by (simp add: decode_number c2_def [symmetric] c3_def [symmetric] c4_def [symmetric] c5_def [symmetric]
        edit_ok_def decode_compact_pointers decode_deleted_files lists)
  moreover have "?r = e\<lparr>ve_compact_pointers := ve_compact_pointers e0 @ ve_compact_pointers e\<rparr>"
    by (rule VersionEdit.equality) (use assms in \<open>auto simp: cs edit_ok_def split: if_splits\<close>)
  ultimately show ?thesis by (simp add: VersionEdit_DecodeFrom_def c_def [symmetric] decode_edit_loop_Nil)
qed

section \<open>Property\<close>

text \<open>C22: whatever changes are recorded in a new edit, with levels of the tree and with
  keys and names shorter than \<open>2^32\<close> bytes, decoding its encoding gives the same edit; except that
  decoding adds to the compaction pointers that the target already had, which \<open>Clear\<close> forgets to
  remove.\<close>

theorem version_edit_round_trip:
  assumes "\<forall>opr \<in> set ops. op_ok opr"
  shows "let e = fold apply_op ops make_VersionEdit
    in VersionEdit_DecodeFrom (VersionEdit_EncodeTo e []) e0
       = (OK, e\<lparr>ve_compact_pointers := ve_compact_pointers e0 @ ve_compact_pointers e\<rparr>)"
  unfolding Let_def by (rule decode_encode [OF apply_ops_ok [OF assms make_ok]])

theorem version_edit_round_trip_witness:
  "VersionEdit_DecodeFrom (VersionEdit_EncodeTo (AddFile 2 7 4096 [97, 1, 5, 0, 0, 0, 0, 0, 0] [99, 1, 4, 0, 0, 0, 0, 0, 0]
       (DeleteFile 1 3 (SetCompactPointer 1 [98, 1, 4, 0, 0, 0, 0, 0, 0] (SetLogNumber 300 make_VersionEdit)))) [])
     (SetCompactPointer 0 [7] make_VersionEdit)
   = (OK, (AddFile 2 7 4096 [97, 1, 5, 0, 0, 0, 0, 0, 0] [99, 1, 4, 0, 0, 0, 0, 0, 0]
       (DeleteFile 1 3 (SetCompactPointer 1 [98, 1, 4, 0, 0, 0, 0, 0, 0] (SetLogNumber 300 make_VersionEdit))))
     \<lparr>ve_compact_pointers := [(0, [7]), (1, [98, 1, 4, 0, 0, 0, 0, 0, 0])]\<rparr>)"
  using version_edit_round_trip [of "[OpLogNumber 300, OpCompactPointer 1 [98, 1, 4, 0, 0, 0, 0, 0, 0], OpDeleteFile 1 3,
      OpAddFile 2 7 4096 [97, 1, 5, 0, 0, 0, 0, 0, 0] [99, 1, 4, 0, 0, 0, 0, 0, 0]]" "SetCompactPointer 0 [7] make_VersionEdit"]
  by (simp add: kNumLevels_def Let_def)
    (simp add: AddFile_def DeleteFile_def SetCompactPointer_def SetLogNumber_def make_VersionEdit_def Let_def)

end
