(* ===== verification/Spec2Isabelle.thy ===== *)
theory Spec2Isabelle
  imports Base64_Correct Nanopb_Encode_Correct Nanopb_Wire Nanopb_Safety Message_Tables
    Nanopb_Iter_Correct Nanopb_Decode_Correct
    Ldb_Write_Correct Ldb_Log_Ends Ldb_Filter_Correct Ldb_Read_Correct Ldb_TableCache_Correct Ldb_VersionEdit_Correct
begin

text \<open>
  A verification library for the C and C++ code that the blog application is built with.

  \<^bold>\<open>The program.\<close> The repository is a Flutter application (\<open>lib/\<close>, in Dart) with its iOS dependencies
  committed under \<open>ios/Pods\<close>. The C code there is the protocol buffer library nanopb
  (\<open>nanopb/pb_common.c\<close>, \<open>pb_encode.c\<close>, \<open>pb_decode.c\<close>, \<open>pb.h\<close>), the message types that the log
  transport and the core diagnostics generate for it (\<open>cct.nanopb.c\<close>, \<open>firebasecore.nanopb.c\<close> and
  their headers), and the Base64 routines of the web socket client (\<open>fbase64.c\<close>). A caller fills a
  C structure of a generated type and calls \<open>pb_encode\<close> with its descriptor table; \<open>pb_encode\<close> walks
  the table with the field iterator and writes each member to an output stream. \<open>pb_decode\<close> reads
  tags from an input stream, finds the field with the iterator and stores the value in the
  structure, in allocated memory for pointer members; \<open>pb_release\<close> frees that memory.

  The store that the Firebase database keeps on the device is LevelDB (\<open>leveldb-library/\<close>, C++). A
  write is a \<open>WriteBatch\<close>; its bytes go to a log (\<open>db/log_writer.cc\<close>) and its entries, under internal
  keys of user key, sequence number and type (\<open>db/dbformat.cc\<close>), into a memtable (\<open>db/memtable.cc\<close>), a
  skip list. A full memtable is written to a table (\<open>table/table_builder.cc\<close>): data blocks with prefix
  compression, filters of their keys, an index block whose keys separate the data blocks, and a footer.
  A lookup goes through index, filter and block (\<open>table/table.cc\<close>); a scan is a database iterator
  (\<open>db/db_iter.cc\<close>) over a merging iterator (\<open>table/merger.cc\<close>) over the two-level iterators of
  tables (\<open>table/two_level_iterator.cc\<close>). After a crash the log is read back (\<open>db/log_reader.cc\<close>). The tables of
  a database lie in seven levels; a set of tables is a \<open>Version\<close> (\<open>db/version_set.cc\<close>), its changes are
  edits (\<open>db/version_edit.cc\<close>). A read of a version searches the tables of level 0 that may hold the key,
  newest first, then one table of each deeper level; open tables are kept in a cache
  (\<open>db/table_cache.cc\<close>, \<open>util/cache.cc\<close>) and found under the names of \<open>db/filename.cc\<close>.

  \<^bold>\<open>Conventions.\<close> The build is the one of the pods: \<open>PB_FIELD_32BIT\<close>, \<open>PB_NO_PACKED_STRUCTS\<close>,
  \<open>PB_ENABLE_MALLOC\<close>, error messages on, 64-bit little-endian target. Fallible code has the result
  type \<open>res\<close>: \<open>Ret\<close> (the function returned true), \<open>Fail\<close> (it returned false, with the state it
  left) or \<open>Undef\<close> (undefined behaviour: an access outside a buffer, a bad free). \<open>Undef\<close> is never a
  result to rely on; the safety theorems show where it cannot occur. Values on the wire are words
  of their width; sizes are \<open>nat\<close> with the wrap of \<open>size_t\<close> in \<open>size_add\<close>; addresses are \<open>int\<close>; memory
  is a function from addresses to bytes. Functions the user passes by pointer (stream callbacks, field
  callbacks, extension handlers) are parameters.

  In the LevelDB theories strings and slices are byte lists, \<open>Status\<close> is a datatype, an object is a
  record, and a virtual class (\<open>Comparator\<close>, \<open>Iterator\<close>, \<open>FilterPolicy\<close>, the files of \<open>Env\<close>, Snappy) is a
  record of functions. A result \<open>None\<close> is undefined behaviour, or a loop that does not end; the
  theorems show that a result is \<open>Some\<close>. Calls that an assertion forbids are outside the contract:
  a definition whose assertion only checks its arguments (the numbers of file names, levels, keys of edits) is
  total, as in a build without assertions.

  \<^bold>\<open>Definitions\<close>, with the code they model:
  \<^item> \<open>Nanopb_Prelude\<close>: machine types, the result type, little-endian bytes, shared lemmas.
  \<^item> \<open>Nanopb_Types\<close>: \<open>pb.h\<close>. Type constants, \<open>pb_field_t\<close>, layout of C structures, \<open>PB_FIELD\<close>.
  \<^item> \<open>Nanopb_Ostream\<close>: \<open>pb_encode.c\<close>, from \<open>buf_write\<close> to \<open>pb_encode_string\<close>.
  \<^item> \<open>Nanopb_Istream\<close>: \<open>pb_decode.c\<close>, from \<open>buf_read\<close> to \<open>pb_close_string_substream\<close>, and
    \<open>pb_decode_svarint\<close>, \<open>pb_decode_fixed32\<close>, \<open>pb_decode_fixed64\<close>.
  \<^item> \<open>Nanopb_Iter\<close>: \<open>pb_common.c\<close>, and the loops over a table in the other files.
  \<^item> \<open>Nanopb_Memory\<close>, \<open>Nanopb_Env\<close>: memory, heap with \<open>pb_realloc\<close> and \<open>pb_free\<close>; user functions.
  \<^item> \<open>Nanopb_Encode\<close>: the rest of \<open>pb_encode.c\<close>, \<open>pb_encode\<close> and its field encoders.
  \<^item> \<open>Nanopb_Heap_Ops\<close>: \<open>allocate_field\<close>, \<open>pb_message_set_to_defaults\<close>, \<open>pb_release\<close>.
  \<^item> \<open>Nanopb_Decode\<close>: the rest of \<open>pb_decode.c\<close>, \<open>pb_decode\<close> and its field decoders.
  \<^item> \<open>Cct_Messages\<close>, \<open>Core_Messages\<close>: the generated enumerations, structures and tables.
  \<^item> \<open>Base64\<close>: \<open>f_b64_ntop\<close> and \<open>f_b64_pton\<close>.
  \<^item> \<open>Ldb_Coding\<close>, \<open>Ldb_Status\<close>, \<open>Ldb_Keys\<close>: \<open>util/coding.cc\<close>, \<open>util/status.cc\<close>, slices, comparators
    and \<open>db/dbformat.cc\<close>.
  \<^item> \<open>Ldb_Crc\<close>, \<open>Ldb_Log\<close>: \<open>util/crc32c.cc\<close>, \<open>db/log_writer.cc\<close> and \<open>db/log_reader.cc\<close>.
  \<^item> \<open>Ldb_SkipList\<close>, \<open>Ldb_MemTable\<close>, \<open>Ldb_WriteBatch\<close>: \<open>db/skiplist.h\<close> with its nodes in an explicit store,
    \<open>util/random.h\<close>, \<open>db/memtable.cc\<close>, \<open>db/write_batch.cc\<close>.
  \<^item> \<open>Ldb_Block\<close>, \<open>Ldb_Filter\<close>, \<open>Ldb_Format\<close>, \<open>Ldb_TableBuilder\<close>, \<open>Ldb_Table\<close>: \<open>table/block.cc\<close>,
    \<open>block_builder.cc\<close>, \<open>filter_block.cc\<close>, \<open>util/bloom.cc\<close>, \<open>util/hash.cc\<close>, \<open>table/format.cc\<close>,
    \<open>table_builder.cc\<close>, \<open>table.cc\<close>.
  \<^item> \<open>Ldb_Iterator\<close>, \<open>Ldb_TwoLevel\<close>, \<open>Ldb_Merger\<close>, \<open>Ldb_DBIter\<close>: the iterator interface and the iterators
    of \<open>table/two_level_iterator.cc\<close>, \<open>table/merger.cc\<close> and \<open>db/db_iter.cc\<close>.
  \<^item> \<open>Ldb_VersionEdit\<close>, \<open>Ldb_Version\<close>: \<open>db/version_edit.cc\<close> and the class \<open>Version\<close> of \<open>db/version_set.cc\<close>.
  \<^item> \<open>Ldb_Cache\<close>, \<open>Ldb_TableCache\<close>, \<open>Ldb_Filename\<close>: \<open>util/cache.cc\<close> with its handles in an explicit store,
    \<open>db/table_cache.cc\<close>, \<open>db/filename.cc\<close> and the decimal numbers of \<open>util/logging.cc\<close>.

  \<^bold>\<open>Results.\<close>
  \<^item> \<open>Wire_Format\<close>, \<open>Nanopb_Codec\<close>: the varint format as a definition on numbers, independent of the
    code, and what each wire-level encoder emits and decoder consumes in terms of it.
  \<^item> \<open>Nanopb_Wire\<close>: the interface \<open>wire_codec\<close> (an encoder, a decoder, the bytes of a value) and its
    bounded form, interpreted on the five pairs of routines; round trips of values, sequences and
    tags; all outcomes of \<open>pb_decode_varint\<close>; skipping of fields; the over-long varints that
    \<open>pb_decode_varint32\<close> accepts.
  \<^item> \<open>Nanopb_Safety\<close>: wire-level decoders stay inside their stream, for any input; a substream is exactly the
    block its length announces.
  \<^item> \<open>Nanopb_Encode_Correct\<close>: the interface \<open>message_encoder\<close> between a message encoder and the field
    encoders that call it for submessages; sizes computed by the sizing pass are exact; framing.
  \<^item> \<open>Nanopb_Iter_Correct\<close>: reachable iterator states as an inductive predicate; search of a tag.
  \<^item> \<open>Message_Tables\<close>: the generated tables describe the generated structures.
  \<^item> \<open>Nanopb_Decode_Safe\<close>, \<open>Nanopb_Decode_Correct\<close>: static fields without submessages have a defined result on any
    input in memory and are stored inside the member; the overflow check of
    allocations; the check for required fields.
  \<^item> \<open>Base64_Correct\<close>: text produced, round trip, and bounds on every input.
  \<^item> \<open>Ldb_Codec\<close>: the interface \<open>slice_codec\<close> of the encoders of \<open>coding.cc\<close>, interpreted on three pairs.
  \<^item> \<open>Ldb_Order\<close>: the contract of comparators (\<open>key_order\<close>, \<open>comparator\<close>); the bytewise comparator meets
    it, and internal keys meet it whenever user keys do.
  \<^item> \<open>Ldb_Crc_Correct\<close>: the table-driven checksum equals the polynomial division it stands for.
  \<^item> \<open>Ldb_Log_Correct\<close>, \<open>Ldb_Log_Ends\<close>: a log cut off anywhere is read back as its complete records; the
    reader ends on every file.
  \<^item> \<open>Ldb_SkipList_Correct\<close>, \<open>Ldb_Write_Correct\<close>: the skip list refines a sorted list; a batch inserted in a
    memtable is read back as the newest visible value.
  \<^item> \<open>Ldb_Block_Layout\<close>, \<open>Ldb_Block_Correct\<close>: the format of a block, scans and searches in it.
  \<^item> \<open>Ldb_Filter_Correct\<close>: the contract of filter policies; filters have no false negatives.
  \<^item> \<open>Ldb_Iterator\<close> states what an iterator promises, the locale \<open>entry_iterator\<close>: a cursor on a list of
    entries. \<open>Ldb_TwoLevel_Correct\<close>, \<open>Ldb_Merger_Correct\<close> (with \<open>Ldb_Select\<close>) and \<open>Ldb_DBIter_Correct\<close> show
    that each iterator meets it if the iterators below it do; \<open>Ldb_Read_Correct\<close> stacks them.
  \<^item> \<open>Ldb_Format_Correct\<close>, \<open>Ldb_TableBuilder_Correct\<close>, \<open>Ldb_Table_Correct\<close>, \<open>Ldb_Table_Get\<close>: what is stored
    under a handle is read back; the state of a table builder as an invariant over the blocks it has
    written; a table opens, is scanned and searched as the list of its entries.
  \<^item> \<open>Ldb_VersionEdit_Correct\<close>: round trip of edits. \<open>Ldb_Filename_Correct\<close>: round trip of file names, exact
    reading of decimal numbers.
  \<^item> \<open>Ldb_Cache_Correct\<close>, \<open>Ldb_Cache_Client\<close>: the invariant of a shard (hash table, the two lists, reference
    counts, usage) is kept by every operation; the locale \<open>lossy_cache\<close> states what a client of a cache may
    rely on, and the sharded cache meets it.
  \<^item> \<open>Ldb_Version_Correct\<close>, \<open>Ldb_TableCache_Correct\<close>: searches of files by key range; a read of a version, down
    to the bytes of its tables and through the cache, finds the newest visible entry (locales
    \<open>version_contents\<close> and \<open>table_files\<close>).

  \<^bold>\<open>Loops and fuel.\<close> Loops over the bytes of a stream, over a table or over a value have
  termination proofs. Nesting of messages is bounded by a number of levels, a parameter \<open>n\<close> of
  \<open>pb_encode\<close> and \<open>pb_decode_noinit\<close>; so are the length of a chain of extensions and the
  repetitions of a callback. Running out of levels is \<open>Undef\<close>, so it can never pass for a result. The
  loop of \<open>pb_decode_noinit\<close> consumes at least one byte per round and has \<open>bytes_left\<close> as its count.
  Loops of LevelDB whose end depends on a parameter (an iterator, a file) or on the data are partial
  functions, where not ending is \<open>None\<close>; the theorems show that they end. The search of files in
  \<open>Ldb_Version\<close> keeps its 32-bit bounds; up to \<open>2^31\<close> files their sum does not wrap around, and a version with
  more is outside the theorems on reads.

  \<^bold>\<open>Not modelled.\<close> The Dart application, the Objective-C pods (Firebase, Google utilities) and the
  platform runners; of LevelDB the parts made of threads, locks and system calls (\<open>util/env_posix.cc\<close>,
  the background work of \<open>db/db_impl.cc\<close>), \<open>VersionSet\<close>, compaction and repair, and the block cache;
  memory orders and the release of memory in LevelDB; branches that the build options
  exclude (\<open>PB_BUFFER_ONLY\<close>, \<open>PB_WITHOUT_64BIT\<close>, big-endian targets); message types that contain
  themselves, whose tables are cyclic (the generated ones are not); the macros for unions
  \<open>PB_ONEOF_FIELD\<close>, which no generated table uses, although the code that handles union fields is
  modelled.
\<close>

end
